(* ===== verification/Prelude.thy ===== *)
theory Prelude
  imports Main "HOL-Library.Word" "HOL-Library.Monad_Syntax"
begin

text \<open>
  What every other theory of the development shares: the machine types of the C sources
  (an LP64 little-endian target, as the iOS devices the project builds for), the byte-addressed
  memory in which C structures live, little-endian loads and stores, the arithmetic of
  \<^verbatim>\<open>size_t\<close>, and the lemmas on them that the component proofs use.
\<close>

unbundle bit_operations_syntax

named_theorems mem_simps \<open>loads from and stores to the byte memory\<close>
named_theorems stream_simps \<open>evaluation of the stream operations\<close>

section \<open>Machine types\<close>

type_synonym byte = "8 word"
type_synonym u16 = "16 word"
type_synonym u32 = "32 word"
type_synonym u64 = "64 word"

text \<open>An address (a C pointer); \<open>0\<close> is \<^verbatim>\<open>NULL\<close>.\<close>
type_synonym addr = nat

text \<open>The memory: one byte at every address.\<close>
type_synonym mem = "nat \<Rightarrow> byte"

text \<open>\<^verbatim>\<open>sizeof(size_t) == 8\<close>: sums of sizes are taken modulo \<open>2 ^ 64\<close>.\<close>

definition size_add :: "nat \<Rightarrow> nat \<Rightarrow> nat" where
  "size_add a b = (a + b) mod 2 ^ 64"

lemma size_add_exact [simp]: "a + b < 2 ^ 64 \<Longrightarrow> size_add a b = a + b"
  by (simp add: size_add_def)

lemma size_add_less: "size_add a b < 2 ^ 64"
  by (simp add: size_add_def)

lemma size_add_assoc: "size_add (size_add a b) c = size_add a (b + c)"
  by (simp add: size_add_def mod_simps add.assoc)

section \<open>Little-endian numbers\<close>

primrec le_bytes :: "nat \<Rightarrow> nat \<Rightarrow> byte list" where
  "le_bytes 0 v = []"
| "le_bytes (Suc n) v = of_nat v # le_bytes n (v div 256)"

primrec le_nat :: "byte list \<Rightarrow> nat" where
  "le_nat [] = 0"
| "le_nat (b # bs) = unat b + 256 * le_nat bs"

lemma length_le_bytes [simp]: "length (le_bytes n v) = n"
  by (induction n arbitrary: v) auto

lemma unat_byte_less [simp]: "unat (b :: byte) < 256"
proof -
  have "unat b < 2 ^ LENGTH(8)" by (rule unsigned_less)
  then show ?thesis by simp
qed

lemma u64_of_nat_less: "a < 2 ^ 64 \<Longrightarrow> b < 2 ^ 64 \<Longrightarrow> (of_nat a :: u64) < of_nat b \<longleftrightarrow> a < b"
  by (simp add: word_less_nat_alt unat_of_nat)

lemma u64_of_nat_eq: "a < 2 ^ 64 \<Longrightarrow> b < 2 ^ 64 \<Longrightarrow> (of_nat a :: u64) = of_nat b \<longleftrightarrow> a = b"
  by (simp add: word_unat_eq_iff unat_of_nat)

lemma unat_u64_of_nat: "a < 2 ^ 64 \<Longrightarrow> unat (of_nat a :: u64) = a"
  by (simp add: unat_of_nat)

lemma unat_u32_less: "unat (v :: u32) < 2 ^ 32"
  using unsigned_less [where 'b = 32 and 'a = nat and w = v] by simp

lemma unat_of_nat_byte: "unat (of_nat v :: byte) = v mod 256"
  by (simp add: unat_of_nat)

lemma le_nat_le_bytes: "le_nat (le_bytes n v) = v mod 256 ^ n"
proof (induction n arbitrary: v)
  case 0
  show ?case by simp
next
  case (Suc n)
  have "v mod (256 * 256 ^ n) = 256 * (v div 256 mod 256 ^ n) + v mod 256"
    by (rule mod_mult2_eq)
  with Suc show ?case by (simp add: unat_of_nat_byte)
qed

lemma byte_of_nat_256_mult [simp]: "(of_nat (unat (b :: byte) + 256 * n) :: byte) = b"
proof -
  have "unat (of_nat (unat b + 256 * n) :: byte) = unat b"
    by (simp only: unat_of_nat_byte) simp
  then show ?thesis by (simp only: word_unat_eq_iff)
qed

lemma le_bytes_le_nat: "length bs = n \<Longrightarrow> le_bytes n (le_nat bs) = bs"
  by (induction bs arbitrary: n) (auto simp del: of_nat_add of_nat_mult)

lemma le_nat_less: "le_nat bs < 256 ^ length bs"
proof (induction bs)
  case Nil
  show ?case by simp
next
  case (Cons b bs)
  have "unat b + 256 * le_nat bs < 256 * Suc (le_nat bs)"
    using unat_byte_less [of b] by simp
  also have "\<dots> \<le> 256 * 256 ^ length bs"
    using Cons.IH by (intro mult_le_mono2) simp
  finally show ?case by simp
qed

lemma le_nat_le_bytes_exact: "v < 256 ^ n \<Longrightarrow> le_nat (le_bytes n v) = v"
  by (simp add: le_nat_le_bytes)

lemma le_bytes_numeral [simp]:
  "le_bytes (numeral k) v = of_nat v # le_bytes (pred_numeral k) (v div 256)"
  by (subst numeral_eq_Suc) (simp only: le_bytes.simps)

text \<open>The same number as a word, put together by shifts.\<close>

primrec le_word :: "byte list \<Rightarrow> 'a :: len word" where
  "le_word [] = 0"
| "le_word (b # bs) = ucast b OR push_bit 8 (le_word bs)"

lemma le_word_le_nat: "le_word bs = (of_nat (le_nat bs) :: 'a :: len word)"
proof (induction bs)
  case Nil
  show ?case by simp
next
  case (Cons b bs)
  have "ucast b OR push_bit 8 (le_word bs) = (ucast b + push_bit 8 (le_word bs) :: 'a word)"
    by (rule disjunctive_add [symmetric]) (auto simp: bit_ucast_iff bit_push_bit_iff dest: bit_imp_le_length)
  also have "\<dots> = of_nat (unat b) + 256 * of_nat (le_nat bs)"
    by (simp add: Cons.IH push_bit_eq_mult)
  finally show ?case by simp
qed

section \<open>Loads and stores\<close>

definition mem_load :: "mem \<Rightarrow> addr \<Rightarrow> nat \<Rightarrow> byte list" where
  "mem_load m a n = map m [a..<a + n]"

definition mem_store :: "mem \<Rightarrow> addr \<Rightarrow> byte list \<Rightarrow> mem" where
  "mem_store m a bs = (\<lambda>x. if a \<le> x \<and> x < a + length bs then bs ! (x - a) else m x)"

definition load_nat :: "mem \<Rightarrow> addr \<Rightarrow> nat \<Rightarrow> nat" where
  "load_nat m a n = le_nat (mem_load m a n)"

definition store_nat :: "mem \<Rightarrow> addr \<Rightarrow> nat \<Rightarrow> nat \<Rightarrow> mem" where
  "store_nat m a n v = mem_store m a (le_bytes n v)"

text \<open>Pointers occupy eight bytes, \<^verbatim>\<open>bool\<close> one and \<^verbatim>\<open>pb_size_t\<close> four.\<close>

abbreviation load_ptr :: "mem \<Rightarrow> addr \<Rightarrow> addr" where
  "load_ptr m a \<equiv> load_nat m a 8"

abbreviation load_u32 :: "mem \<Rightarrow> addr \<Rightarrow> nat" where
  "load_u32 m a \<equiv> load_nat m a 4"

abbreviation store_ptr :: "mem \<Rightarrow> addr \<Rightarrow> addr \<Rightarrow> mem" where
  "store_ptr m a v \<equiv> store_nat m a 8 v"

abbreviation store_u32 :: "mem \<Rightarrow> addr \<Rightarrow> nat \<Rightarrow> mem" where
  "store_u32 m a v \<equiv> store_nat m a 4 v"

definition load_bool :: "mem \<Rightarrow> addr \<Rightarrow> bool" where
  "load_bool m a \<longleftrightarrow> m a \<noteq> 0"

definition store_bool :: "mem \<Rightarrow> addr \<Rightarrow> bool \<Rightarrow> mem" where
  "store_bool m a b = mem_store m a [if b then 1 else 0]"

text \<open>Two address ranges that share no byte, and memories that agree on a range.\<close>

definition disjoint_ranges :: "addr \<Rightarrow> nat \<Rightarrow> addr \<Rightarrow> nat \<Rightarrow> bool" where
  "disjoint_ranges a n b k \<longleftrightarrow> a + n \<le> b \<or> b + k \<le> a"

definition mem_agree :: "addr \<Rightarrow> nat \<Rightarrow> mem \<Rightarrow> mem \<Rightarrow> bool" where
  "mem_agree a n m m' \<longleftrightarrow> (\<forall>x. a \<le> x \<longrightarrow> x < a + n \<longrightarrow> m x = m' x)"

text \<open>Every byte outside the given range is unchanged.\<close>

definition mem_frame :: "addr \<Rightarrow> nat \<Rightarrow> mem \<Rightarrow> mem \<Rightarrow> bool" where
  "mem_frame a n m m' \<longleftrightarrow> (\<forall>x. x < a \<or> a + n \<le> x \<longrightarrow> m' x = m x)"

lemma length_mem_load [simp]: "length (mem_load m a n) = n"
  by (simp add: mem_load_def)

lemma mem_load_0 [simp]: "mem_load m a 0 = []"
  by (simp add: mem_load_def)

lemma nth_mem_load [simp]: "i < n \<Longrightarrow> mem_load m a n ! i = m (a + i)"
  by (simp add: mem_load_def)

lemma mem_load_Suc: "mem_load m a (Suc n) = m a # mem_load m (Suc a) n"
  by (simp add: mem_load_def upt_rec)

lemma mem_load_add: "mem_load m a (n + k) = mem_load m a n @ mem_load m (a + n) k"
  by (rule nth_equalityI) (auto simp: nth_append)

lemma mem_store_Nil [simp]: "mem_store m a [] = m"
  by (auto simp: mem_store_def fun_eq_iff)

lemma mem_load_store [mem_simps]: "mem_load (mem_store m a bs) a (length bs) = bs"
  by (rule nth_equalityI) (auto simp: mem_store_def)

lemma mem_load_store_len [mem_simps]: "length bs = n \<Longrightarrow> mem_load (mem_store m a bs) a n = bs"
  using mem_load_store by blast

lemma mem_load_store_disjoint [mem_simps]:
  "disjoint_ranges a (length bs) b n \<Longrightarrow> mem_load (mem_store m a bs) b n = mem_load m b n"
  by (rule nth_equalityI) (auto simp: mem_store_def disjoint_ranges_def)

lemma mem_store_load [simp]: "mem_store m a (mem_load m a n) = m"
  by (auto simp: mem_store_def fun_eq_iff)

lemma mem_store_store [mem_simps]:
  "length bs = length cs \<Longrightarrow> mem_store (mem_store m a bs) a cs = mem_store m a cs"
  by (auto simp: mem_store_def fun_eq_iff)

lemma mem_store_apply_outside [mem_simps]:
  "x < a \<or> a + length bs \<le> x \<Longrightarrow> mem_store m a bs x = m x"
  by (auto simp: mem_store_def)

lemma load_store_nat [mem_simps]: "load_nat (store_nat m a n v) a n = v mod 256 ^ n"
  by (simp add: load_nat_def store_nat_def mem_load_store_len le_nat_le_bytes)

lemma load_store_nat_disjoint [mem_simps]:
  "disjoint_ranges a n b k \<Longrightarrow> load_nat (store_nat m a n v) b k = load_nat m b k"
  by (simp add: load_nat_def store_nat_def mem_load_store_disjoint)

lemma load_nat_less: "load_nat m a n < 256 ^ n"
  using le_nat_less [of "mem_load m a n"] by (simp add: load_nat_def)

lemma load_store_bool [mem_simps]: "load_bool (store_bool m a b) a = b"
  by (simp add: load_bool_def store_bool_def mem_store_def)

lemma mem_frame_refl [simp, intro]: "mem_frame a n m m"
  by (simp add: mem_frame_def)

lemma mem_frame_trans: "mem_frame a n m m' \<Longrightarrow> mem_frame a n m' m'' \<Longrightarrow> mem_frame a n m m''"
  by (simp add: mem_frame_def)

lemma mem_frame_store:
  "b \<le> a \<Longrightarrow> a + length bs \<le> b + n \<Longrightarrow> mem_frame b n m (mem_store m a bs)"
  by (auto simp: mem_frame_def mem_store_def)

lemma mem_frame_mono:
  "mem_frame a n m m' \<Longrightarrow> b \<le> a \<Longrightarrow> a + n \<le> b + k \<Longrightarrow> mem_frame b k m m'"
  by (auto simp: mem_frame_def)

lemma mem_frame_load:
  "mem_frame a n m m' \<Longrightarrow> disjoint_ranges a n b k \<Longrightarrow> mem_load m' b k = mem_load m b k"
  by (rule nth_equalityI) (auto simp: mem_frame_def disjoint_ranges_def)

lemma mem_agree_load: "mem_agree a n m m' \<Longrightarrow> mem_load m a n = mem_load m' a n"
  by (rule nth_equalityI) (auto simp: mem_agree_def)

lemma mem_agree_iff_load: "mem_agree a n m m' \<longleftrightarrow> mem_load m a n = mem_load m' a n"
proof
  assume eq: "mem_load m a n = mem_load m' a n"
  show "mem_agree a n m m'"
    unfolding mem_agree_def
  proof (intro allI impI)
    fix x assume "a \<le> x" and "x < a + n"
    then show "m x = m' x"
      using arg_cong [OF eq, of "\<lambda>xs. xs ! (x - a)"] by simp
  qed
qed (rule mem_agree_load)

section \<open>The option monad\<close>

text \<open>
  \<open>None\<close> marks an execution that is stuck: the C code has no defined behaviour there, or a
  fuel bound ran out. A C function that fails returns \<^verbatim>\<open>false\<close>: that is a value.
\<close>

lemma bind_Some_eq: "Option.bind x f = Some y \<longleftrightarrow> (\<exists>z. x = Some z \<and> f z = Some y)"
  by (cases x) auto

section \<open>Bits of a byte\<close>

lemma byte_bit_ge [simp]: "8 \<le> n \<Longrightarrow> \<not> bit (b :: byte) n"
  by (auto dest: bit_imp_le_length)

lemma byte_bits_eqI:
  assumes "bit x 0 = bit y 0" "bit x 1 = bit y 1" "bit x 2 = bit y 2" "bit x 3 = bit y 3"
    "bit x 4 = bit y 4" "bit x 5 = bit y 5" "bit x 6 = bit y 6" "bit x 7 = bit y 7"
  shows "(x :: byte) = y"
proof (rule bit_word_eqI)
  fix n assume "n < LENGTH(8)"
  then have "n \<in> {0, 1, 2, 3, 4, 5, 6, 7}" by auto
  with assms show "bit x n = bit y n" by blast
qed

lemma byte_add_or:
  assumes "\<not> (bit x 0 \<and> bit y 0)" "\<not> (bit x 1 \<and> bit y 1)" "\<not> (bit x 2 \<and> bit y 2)"
    "\<not> (bit x 3 \<and> bit y 3)" "\<not> (bit x 4 \<and> bit y 4)" "\<not> (bit x 5 \<and> bit y 5)"
    "\<not> (bit x 6 \<and> bit y 6)" "\<not> (bit x 7 \<and> bit y 7)"
  shows "(x :: byte) + y = x OR y"
proof (rule disjunctive_add)
  fix n
  show "\<not> bit x n \<or> \<not> bit y n"
  proof (cases "n < 8")
    case True
    then have "n \<in> {0, 1, 2, 3, 4, 5, 6, 7}" by auto
    with assms show ?thesis by blast
  qed simp
qed

lemma unat_byte_bits:
  "unat (w :: byte) = of_bool (bit w 0) + 2 * (of_bool (bit w 1) + 2 * (of_bool (bit w 2) +
     2 * (of_bool (bit w 3) + 2 * (of_bool (bit w 4) + 2 * (of_bool (bit w 5) +
     2 * (of_bool (bit w 6) + 2 * of_bool (bit w 7)))))))"
proof -
  have "unat w = take_bit 8 (unat w)"
    by (simp add: take_bit_eq_mod)
  also have "\<dots> = horner_sum of_bool 2 (map (bit (unat w)) [0..<8])"
    by (simp add: horner_sum_bit_eq_take_bit)
  also have "[0..<8] = [0, 1, 2, 3, 4, 5, 6, 7]"
    by (simp add: upt_rec)
  finally show ?thesis by (simp add: bit_unsigned_iff)
qed

lemma bit_255_int: "bit (255 :: int) n \<longleftrightarrow> n < 8"
proof -
  have "(255 :: int) = mask 8" by (simp add: mask_eq_exp_minus_1)
  then show ?thesis by (simp only: bit_mask_iff) simp
qed

lemma byte_less_64I: "\<not> bit w 6 \<Longrightarrow> \<not> bit w 7 \<Longrightarrow> unat (w :: byte) < 64"
  by (subst unat_byte_bits) (auto simp: of_bool_def)

section \<open>Consecutive stores\<close>

lemma mem_store_append:
  "mem_store (mem_store m a xs) (a + length xs) ys = mem_store m a (xs @ ys)"
proof
  fix x
  show "mem_store (mem_store m a xs) (a + length xs) ys x = mem_store m a (xs @ ys) x"
    by (auto simp: mem_store_def nth_append)
qed

lemma mem_store_single: "mem_store m a [b] = m(a := b)"
  by (auto simp: mem_store_def fun_eq_iff)

lemma mem_store_Cons: "mem_store m a (b # bs) = mem_store (m(a := b)) (Suc a) bs"
  using mem_store_append [of m a "[b]" bs] by (simp add: mem_store_single)

end
