(* ===== verification/Base64_Codec.thy ===== *)
theory Base64_Codec
  imports Prelude
begin

text \<open>
  The Base64 codec of the SocketRocket client (\<^verbatim>\<open>fbase64.c\<close>): \<open>f_b64_ntop\<close> writes the
  text of a byte string into a bounded buffer, \<open>f_b64_pton\<close> is the four-state machine that
  reads it back. Text is a list of characters; the terminating NUL of a C string is the end of
  the list (or a NUL inside it). The target of \<open>f_b64_pton\<close> is a buffer in memory, or NULL.
\<close>

unbundle bit_operations_syntax

section \<open>Tables\<close>

definition Base64 :: string where
  "Base64 = ''ABCDEFGHIJKLMNOPQRSTUVWXYZabcdefghijklmnopqrstuvwxyz0123456789+/''"

definition Pad64 :: char where
  "Pad64 = CHR ''=''"

abbreviation NUL :: char where
  "NUL \<equiv> CHR 0x00"

text \<open>\<^verbatim>\<open>isspace\<close> of the C locale.\<close>

definition isspace :: "char \<Rightarrow> bool" where
  "isspace c \<longleftrightarrow> c \<in> {CHR 0x20, CHR 0x09, CHR 0x0A, CHR 0x0B, CHR 0x0C, CHR 0x0D}"

text \<open>The cast \<^verbatim>\<open>(int)\<close> of a \<^verbatim>\<open>size_t\<close>.\<close>

definition int_of_size :: "nat \<Rightarrow> int" where
  "int_of_size n = sint (of_nat n :: u32)"

text \<open>A \<^verbatim>\<open>u_int\<close>, which wraps at 32 bits.\<close>

definition u_int :: "nat \<Rightarrow> nat" where
  "u_int n = n mod 2 ^ 32"

lemma u_int_small: "n < 2 ^ 32 \<Longrightarrow> u_int n = n"
  by (simp add: u_int_def)

section \<open>Encoding: f\_b64\_ntop\<close>

text \<open>The four sextets of a group of three bytes, and their letters.\<close>

definition b64_out0 :: "byte \<Rightarrow> byte" where
  "b64_out0 a = drop_bit 2 a"

definition b64_out1 :: "byte \<Rightarrow> byte \<Rightarrow> byte" where
  "b64_out1 a b = push_bit 4 (a AND 0x03) + drop_bit 4 b"

definition b64_out2 :: "byte \<Rightarrow> byte \<Rightarrow> byte" where
  "b64_out2 b c = push_bit 2 (b AND 0x0f) + drop_bit 6 c"

definition b64_out3 :: "byte \<Rightarrow> byte" where
  "b64_out3 c = c AND 0x3f"

definition b64_letter :: "byte \<Rightarrow> char" where
  "b64_letter v = Base64 ! unat v"

text \<open>
  The loop over whole groups: the result says whether the target was large enough, which input
  is left and what has been written (\<open>datalength\<close> is its length).
\<close>

fun ntop_groups :: "byte list \<Rightarrow> nat \<Rightarrow> string \<Rightarrow> bool \<times> byte list \<times> string" where
  "ntop_groups (a # b # c # src) targsize target =
     (if length target + 4 > targsize then (False, src, target)
      else ntop_groups src targsize
        (target @ [b64_letter (b64_out0 a), b64_letter (b64_out1 a b),
                   b64_letter (b64_out2 b c), b64_letter (b64_out3 c)]))"
| "ntop_groups src targsize target = (True, src, target)"

text \<open>The padded last group, for one or two bytes that are left.\<close>

definition ntop_tail :: "byte list \<Rightarrow> nat \<Rightarrow> string \<Rightarrow> bool \<times> string" where
  "ntop_tail src targsize target =
     (if src = [] then (True, target)
      else let input0 = src ! 0; input1 = (if length src = 2 then src ! 1 else 0) in
        if length target + 4 > targsize then (False, target)
        else (True, target @ [b64_letter (b64_out0 input0), b64_letter (b64_out1 input0 input1),
                if length src = 1 then Pad64 else b64_letter (b64_out2 input1 0), Pad64]))"

definition f_b64_ntop :: "byte list \<Rightarrow> nat \<Rightarrow> int \<times> string" where
  "f_b64_ntop src targsize =
     (case ntop_groups src targsize [] of (ok, src', target) \<Rightarrow>
        if \<not> ok then (-1, target)
        else case ntop_tail src' targsize target of (ok', target') \<Rightarrow>
          if \<not> ok' then (-1, target')
          else if length target' \<ge> targsize then (-1, target')
          else (int_of_size (length target'), target' @ [NUL]))"

section \<open>Decoding: f\_b64\_pton\<close>

text \<open>\<^verbatim>\<open>strchr(Base64, ch)\<close>, as the offset of the letter.\<close>

definition b64_pos :: "char \<Rightarrow> nat option" where
  "b64_pos ch = map_of (zip Base64 [0..<64]) ch"

text \<open>
  One letter of value \<open>p\<close> in state \<open>st\<close> (the \<^verbatim>\<open>switch\<close> of the loop): the new memory, write
  index and state, or \<open>None\<close> where the target is too small. A \<open>target\<close> of \<open>0\<close> is NULL:
  nothing is stored, the index still advances.
\<close>

definition pton_letter ::
  "nat \<Rightarrow> addr \<Rightarrow> nat \<Rightarrow> mem \<Rightarrow> nat \<Rightarrow> nat \<Rightarrow> (mem \<times> nat \<times> nat) option" where
  "pton_letter p target targsize m tarindex st =
     (let v = (of_nat p :: byte); at = target + tarindex; tarindex1 = u_int (tarindex + 1); at1 = target + tarindex1 in
      if st = 0 then
        (if target \<noteq> 0 then
           (if tarindex \<ge> targsize then None
            else Some (m(at := push_bit 2 v), tarindex, 1))
         else Some (m, tarindex, 1))
      else if st = 1 then
        (if target \<noteq> 0 then
           (if tarindex1 \<ge> targsize then None
            else Some (m(at := m at OR drop_bit 4 v, at1 := push_bit 4 (v AND 0x0f)), tarindex1, 2))
         else Some (m, tarindex1, 2))
      else if st = 2 then
        (if target \<noteq> 0 then
           (if tarindex1 \<ge> targsize then None
            else Some (m(at := m at OR drop_bit 2 v, at1 := push_bit 6 (v AND 0x03)), tarindex1, 3))
         else Some (m, tarindex1, 3))
      else
        (if target \<noteq> 0 then
           (if tarindex \<ge> targsize then None
            else Some (m(at := m at OR v), tarindex1, 0))
         else Some (m, tarindex1, 0)))"

text \<open>
  The reading loop stops with \<open>ScanFail\<close> (the function returns \<open>-1\<close>) or with \<open>ScanEnd\<close>:
  the memory, index and state reached, the character that ended the loop (NUL or the pad) and
  what follows it.
\<close>

datatype pton_scan_result =
    ScanFail (scan_mem: mem)
  | ScanEnd (scan_mem: mem) nat nat char string

fun pton_scan :: "string \<Rightarrow> addr \<Rightarrow> nat \<Rightarrow> mem \<Rightarrow> nat \<Rightarrow> nat \<Rightarrow> pton_scan_result" where
  "pton_scan [] target targsize m tarindex st = ScanEnd m tarindex st NUL []"
| "pton_scan (ch # src) target targsize m tarindex st =
     (if ch = NUL then ScanEnd m tarindex st NUL src
      else if isspace ch then pton_scan src target targsize m tarindex st
      else if ch = Pad64 then ScanEnd m tarindex st Pad64 src
      else case b64_pos ch of
          None \<Rightarrow> ScanFail m
        | Some p \<Rightarrow>
            (case pton_letter p target targsize m tarindex st of
               None \<Rightarrow> ScanFail m
             | Some (m', tarindex', st') \<Rightarrow> pton_scan src target targsize m' tarindex' st'))"

text \<open>
  After the pad. The text that is left starts with the next character (\<^verbatim>\<open>ch = *src++\<close>);
  \<open>skip_spaces\<close> is the \<^verbatim>\<open>for\<close> loop of state 2, \<open>only_spaces\<close> the one of state 3.
\<close>

fun skip_spaces :: "string \<Rightarrow> string" where
  "skip_spaces [] = []"
| "skip_spaces (ch # src) =
     (if ch = NUL then ch # src else if isspace ch then skip_spaces src else ch # src)"

fun only_spaces :: "string \<Rightarrow> bool" where
  "only_spaces [] = True"
| "only_spaces (ch # src) = (if ch = NUL then True else if isspace ch then only_spaces src else False)"

definition pton_pad :: "string \<Rightarrow> nat \<Rightarrow> bool" where
  "pton_pad src st =
     (if st = 0 \<or> st = 1 then False
      else if st = 2 then
        (case skip_spaces src of
           [] \<Rightarrow> False
         | ch # src' \<Rightarrow> if ch \<noteq> Pad64 then False else only_spaces src')
      else only_spaces src)"

definition f_b64_pton :: "string \<Rightarrow> addr \<Rightarrow> nat \<Rightarrow> mem \<Rightarrow> int \<times> mem" where
  "f_b64_pton src target targsize m =
     (case pton_scan src target targsize m 0 0 of
        ScanFail m' \<Rightarrow> (-1, m')
      | ScanEnd m' tarindex st ch src' \<Rightarrow>
          if ch = Pad64 then
            (if \<not> pton_pad src' st then (-1, m')
             else if target \<noteq> 0 \<and> m' (target + tarindex) \<noteq> 0 then (-1, m')
             else (int_of_size tarindex, m'))
          else if st \<noteq> 0 then (-1, m')
          else (int_of_size tarindex, m'))"

section \<open>Letters and sextets\<close>

lemma length_Base64 [simp]: "length Base64 = 64"
  by (simp add: Base64_def)

lemma distinct_Base64: "distinct Base64"
  by (simp add: Base64_def)

lemma b64_pos_nth: "p < 64 \<Longrightarrow> b64_pos (Base64 ! p) = Some p"
  using map_of_zip_nth [of Base64 "[0..<64]" p] distinct_Base64 by (simp add: b64_pos_def)

lemma b64_pos_SomeD: "b64_pos c = Some p \<Longrightarrow> p < 64 \<and> Base64 ! p = c"
  unfolding b64_pos_def by (drule map_of_SomeD) (auto simp: set_zip)

lemma Base64_plain: "c \<in> set Base64 \<Longrightarrow> c \<noteq> NUL \<and> \<not> isspace c \<and> c \<noteq> Pad64"
  by (auto simp: Base64_def isspace_def Pad64_def)

lemma b64_out1_or: "b64_out1 a b = push_bit 4 (a AND 0x03) OR drop_bit 4 b"
  unfolding b64_out1_def
  by (rule byte_add_or) (simp_all add: bit_simps numeral_2_eq_2 [symmetric] numeral_3_eq_3 [symmetric])

lemma b64_out2_or: "b64_out2 b c = push_bit 2 (b AND 0x0f) OR drop_bit 6 c"
  unfolding b64_out2_def
  by (rule byte_add_or) (simp_all add: bit_simps numeral_2_eq_2 [symmetric] numeral_3_eq_3 [symmetric])

lemmas b64_out_bits = b64_out0_def b64_out1_or b64_out2_or b64_out3_def

text \<open>What the decoder's shifts put together is what the encoder's took apart.\<close>

lemma b64_join0: "push_bit 2 (b64_out0 a) OR drop_bit 4 (b64_out1 a b) = a"
  by (rule byte_bits_eqI) (simp_all add: b64_out_bits bit_simps numeral_2_eq_2 [symmetric] numeral_3_eq_3 [symmetric])

lemma b64_join1: "push_bit 4 (b64_out1 a b AND 0x0f) OR drop_bit 2 (b64_out2 b c) = b"
  by (rule byte_bits_eqI) (simp_all add: b64_out_bits bit_simps numeral_2_eq_2 [symmetric] numeral_3_eq_3 [symmetric])

lemma b64_join2: "push_bit 6 (b64_out2 b c AND 0x03) OR b64_out3 c = c"
  by (rule byte_bits_eqI) (simp_all add: b64_out_bits bit_simps numeral_2_eq_2 [symmetric] numeral_3_eq_3 [symmetric])

lemma b64_out_less:
  "unat (b64_out0 a) < 64" "unat (b64_out1 a b) < 64" "unat (b64_out2 b c) < 64"
  "unat (b64_out3 c) < 64"
  by (auto intro!: byte_less_64I simp: b64_out_bits bit_simps)

section \<open>The text of a byte string\<close>

fun b64_text :: "byte list \<Rightarrow> string" where
  "b64_text (a # b # c # src) =
     [b64_letter (b64_out0 a), b64_letter (b64_out1 a b), b64_letter (b64_out2 b c),
      b64_letter (b64_out3 c)] @ b64_text src"
| "b64_text [a, b] =
     [b64_letter (b64_out0 a), b64_letter (b64_out1 a b), b64_letter (b64_out2 b 0), Pad64]"
| "b64_text [a] = [b64_letter (b64_out0 a), b64_letter (b64_out1 a 0), Pad64, Pad64]"
| "b64_text [] = []"

lemma length_b64_text: "length (b64_text src) = 4 * ((length src + 2) div 3)"
proof (induction src rule: b64_text.induct)
  case (1 a b c src)
  have "(5 + n) div 3 = Suc ((n + 2) div 3)" for n :: nat
    by presburger
  with 1 show ?case by simp
qed simp_all

text \<open>
  The standard's own description: the bits of the input, most significant first, cut into
  sextets (the last one filled with zero bits), one letter per sextet, and padding up to a
  multiple of four characters.
\<close>

definition byte_bits :: "byte \<Rightarrow> bool list" where
  "byte_bits b = map (bit b) [7, 6, 5, 4, 3, 2, 1, 0]"

definition bits_value :: "bool list \<Rightarrow> nat" where
  "bits_value bs = foldl (\<lambda>n b. 2 * n + of_bool b) 0 bs"

fun sextets :: "bool list \<Rightarrow> nat list" where
  "sextets (b5 # b4 # b3 # b2 # b1 # b0 # bs) = bits_value [b5, b4, b3, b2, b1, b0] # sextets bs"
| "sextets [] = []"
| "sextets bs = [bits_value (take 6 (bs @ [False, False, False, False, False]))]"

definition b64_spec :: "byte list \<Rightarrow> string" where
  "b64_spec src = map (\<lambda>s. Base64 ! s) (sextets (concat (map byte_bits src))) @
     replicate ((3 - length src mod 3) mod 3) Pad64"

lemma sextet_value:
  assumes "unat (w :: byte) < 64"
  shows "unat w = bits_value [bit w 5, bit w 4, bit w 3, bit w 2, bit w 1, bit w 0]"
proof -
  have "of_bool (bit w 6) = (0 :: nat)" and "of_bool (bit w 7) = (0 :: nat)"
    using assms by (subst (asm) unat_byte_bits, auto simp: of_bool_def split: if_splits)+
  then show ?thesis by (subst unat_byte_bits) (simp add: bits_value_def)
qed

lemma b64_out_values:
  "unat (b64_out0 a) = bits_value [bit a 7, bit a 6, bit a 5, bit a 4, bit a 3, bit a 2]"
  "unat (b64_out1 a b) = bits_value [bit a 1, bit a 0, bit b 7, bit b 6, bit b 5, bit b 4]"
  "unat (b64_out2 b c) = bits_value [bit b 3, bit b 2, bit b 1, bit b 0, bit c 7, bit c 6]"
  "unat (b64_out3 c) = bits_value [bit c 5, bit c 4, bit c 3, bit c 2, bit c 1, bit c 0]"
  by (subst sextet_value [OF b64_out_less(1)] sextet_value [OF b64_out_less(2)]
       sextet_value [OF b64_out_less(3)] sextet_value [OF b64_out_less(4)],
      simp add: b64_out_bits bit_simps numeral_2_eq_2 [symmetric] numeral_3_eq_3 [symmetric])+

lemma b64_text_spec: "b64_text src = b64_spec src"
proof (induction src rule: b64_text.induct)
  case (1 a b c src)
  then show ?case by (simp add: b64_spec_def byte_bits_def b64_letter_def b64_out_values)
next
  case (2 a b)
  show ?case
    by (simp add: b64_spec_def byte_bits_def b64_letter_def b64_out_values numeral_2_eq_2)
next
  case (3 a)
  show ?case
    by (simp add: b64_spec_def byte_bits_def b64_letter_def b64_out_values numeral_2_eq_2)
next
  case 4
  show ?case by (simp add: b64_spec_def)
qed

section \<open>What f\_b64\_ntop returns\<close>

lemma ntop_groups_tail:
  "case ntop_groups src targsize acc of (ok, src', t) \<Rightarrow>
     if ok then ntop_tail src' targsize t =
       (if length (acc @ b64_text src) > targsize \<and> src' \<noteq> [] then (False, t)
        else (True, acc @ b64_text src)) \<and> length t \<le> max targsize (length acc)
     else length (acc @ b64_text src) > targsize"
proof (induction src arbitrary: acc rule: b64_text.induct)
  case (1 a b c src)
  show ?case
    using 1 [of "acc @ [b64_letter (b64_out0 a), b64_letter (b64_out1 a b),
                   b64_letter (b64_out2 b c), b64_letter (b64_out3 c)]"]
    by (auto split: prod.splits if_splits)
qed (auto simp: ntop_tail_def Let_def)

lemma f_b64_ntop_eq:
  "f_b64_ntop src targsize =
     (if length (b64_spec src) < targsize
      then (int_of_size (length (b64_spec src)), b64_spec src @ [NUL])
      else (-1, snd (f_b64_ntop src targsize)))"
  using ntop_groups_tail [where src = src and targsize = targsize and acc = "[]"]
  by (auto simp: f_b64_ntop_def b64_text_spec [symmetric] split: prod.splits if_splits)

section \<open>Reading back\<close>

lemma isspace_Pad64 [simp]: "\<not> isspace Pad64" and NUL_Pad64 [simp]: "Pad64 \<noteq> NUL" "NUL \<noteq> Pad64"
  by (simp_all add: isspace_def Pad64_def)

lemma b64_last1: "push_bit 4 (b64_out1 a 0 AND 0x0f) = 0"
  by (rule byte_bits_eqI) (simp_all add: b64_out_bits bit_simps numeral_2_eq_2 [symmetric]
    numeral_3_eq_3 [symmetric])

lemma b64_last2: "push_bit 6 (b64_out2 b 0 AND 0x03) = 0"
  by (rule byte_bits_eqI) (simp_all add: b64_out_bits bit_simps numeral_2_eq_2 [symmetric]
    numeral_3_eq_3 [symmetric])

lemmas b64_joins = b64_join0 b64_join1 [simplified] b64_join2 [simplified]
  b64_last1 [simplified] b64_last2 [simplified]

lemma pton_scan_letter:
  assumes "unat v < 64"
  shows "pton_scan (b64_letter v # src) target targsize m i st =
    (case pton_letter (unat v) target targsize m i st of
       None \<Rightarrow> ScanFail m
     | Some (m', i', st') \<Rightarrow> pton_scan src target targsize m' i' st')"
proof -
  have "b64_letter v \<in> set Base64"
    using assms by (simp add: b64_letter_def)
  then show ?thesis
    using Base64_plain b64_pos_nth [OF assms] by (auto simp: b64_letter_def)
qed

text \<open>One group of letters, read in state 0, leaves the three bytes it stands for.\<close>

lemma pton_scan_group:
  assumes "target \<noteq> 0" "i + 2 < targsize" "i + 3 < 2 ^ 32"
  shows "pton_scan (b64_letter (b64_out0 a) # b64_letter (b64_out1 a b) # b64_letter (b64_out2 b c)
            # b64_letter (b64_out3 c) # src) target targsize m i 0 =
    pton_scan src target targsize (mem_store m (target + i) [a, b, c]) (i + 3) 0"
  using assms
  by (simp add: pton_scan_letter b64_out_less pton_letter_def Let_def b64_joins u_int_small
      mem_store_Cons numeral_3_eq_3 fun_upd_twist del: pton_scan.simps)

text \<open>What the scan of an encoded text ends with.\<close>

definition text_end :: "byte list \<Rightarrow> addr \<Rightarrow> mem \<Rightarrow> nat \<Rightarrow> pton_scan_result" where
  "text_end src at m i =
     (if length src mod 3 = 0 then ScanEnd (mem_store m at src) (i + length src) 0 NUL []
      else ScanEnd (mem_store m at (src @ [0])) (i + length src) (Suc (length src mod 3)) Pad64
        (if length src mod 3 = 1 then [Pad64, NUL] else [NUL]))"

lemma text_end_step:
  "text_end src (at + 3) (mem_store m at [a, b, c]) (i + 3) = text_end (a # b # c # src) at m i"
proof -
  have store: "mem_store (mem_store m at [a, b, c]) (at + 3) ys = mem_store m at (a # b # c # ys)" for ys
    using mem_store_append [of m at "[a, b, c]" ys] by (simp add: numeral_3_eq_3)
  have mod3: "Suc (Suc (Suc n)) mod 3 = n mod 3" for n :: nat
    by presburger
  have mod: "length (a # b # c # src) mod 3 = length src mod 3"
    by (simp only: length_Cons mod3)
  have len: "i + 3 + length src = i + length (a # b # c # src)"
    by simp
  show ?thesis
    unfolding text_end_def by (simp only: store mod len append_Cons)
qed

lemma pton_scan_Pad64 [simp]:
  "pton_scan (Pad64 # src) target targsize m i st = ScanEnd m i st Pad64 src"
  by simp

lemma pton_scan_NUL [simp]:
  "pton_scan (NUL # src) target targsize m i st = ScanEnd m i st NUL src"
  by simp

declare pton_scan.simps(2) [simp del]

lemma pton_scan_text:
  "target \<noteq> 0 \<Longrightarrow> i + length src < targsize \<Longrightarrow> i + length src < 2 ^ 32 \<Longrightarrow>
   pton_scan (b64_text src @ [NUL]) target targsize m i 0 = text_end src (target + i) m i"
proof (induction src arbitrary: m i rule: b64_text.induct)
  case (1 a b c src)
  have "pton_scan (b64_text (a # b # c # src) @ [NUL]) target targsize m i 0 =
      pton_scan (b64_text src @ [NUL]) target targsize (mem_store m (target + i) [a, b, c]) (i + 3) 0"
    using 1 by (simp add: pton_scan_group)
  also have "\<dots> = text_end src (target + (i + 3)) (mem_store m (target + i) [a, b, c]) (i + 3)"
    using 1 by (intro "1.IH") simp_all
  also have "\<dots> = text_end (a # b # c # src) (target + i) m i"
    using text_end_step [of src "target + i"] by (simp only: add.assoc)
  finally show ?case .
next
  case (2 a b)
  then show ?case
    by (simp add: pton_scan_letter b64_out_less pton_letter_def Let_def b64_joins u_int_small
        text_end_def mem_store_Cons fun_upd_twist)
next
  case (3 a)
  then show ?case
    by (simp add: pton_scan_letter b64_out_less pton_letter_def Let_def b64_joins u_int_small
        text_end_def mem_store_Cons fun_upd_twist)
qed (simp add: text_end_def)


definition b64_room :: "byte list \<Rightarrow> nat" where
  "b64_room src = length src + (if length src mod 3 = 0 then 0 else 1)"

lemma pton_text_load:
  assumes "target \<noteq> 0" "length src < targsize" "length src < 2 ^ 32"
  shows "\<exists>m'. f_b64_pton (b64_text src @ [NUL]) target targsize m = (int_of_size (length src), m') \<and>
    mem_load m' target (length src) = src \<and> mem_frame target targsize m m'"
proof -
  have scan: "pton_scan (b64_text src @ [NUL]) target targsize m 0 0 = text_end src target m 0"
    using pton_scan_text [of target 0 src targsize m] assms by simp
  show ?thesis
  proof (cases "length src mod 3 = 0")
    case True
    then show ?thesis
      using assms
      by (auto simp: f_b64_pton_def scan text_end_def mem_simps intro!: mem_frame_store)
  next
    case False
    have store: "mem_store m target (src @ [0]) = mem_store (mem_store m target src) (target + length src) [0]"
      by (simp add: mem_store_append)
    have zero: "mem_store m target (src @ [0]) (target + length src) = 0"
      by (simp add: mem_store_def)
    have load: "mem_load (mem_store m target (src @ [0])) target (length src) = src"
      by (simp add: store mem_simps disjoint_ranges_def)
    have "pton_pad (if length src mod 3 = 1 then [Pad64, NUL] else [NUL]) (Suc (length src mod 3))"
      using False by (simp add: pton_pad_def)
    moreover have "mem_frame target targsize m (mem_store m target (src @ [0]))"
      using assms by (intro mem_frame_store) auto
    ultimately show ?thesis
      using False assms by (auto simp: f_b64_pton_def scan text_end_def zero load)
  qed
qed


section \<open>Which texts are accepted\<close>

lemma b64_letter_of_pos: "b64_pos ch = Some p \<Longrightarrow> unat (of_nat p :: byte) = p \<and> ch = b64_letter (of_nat p)"
  using b64_pos_SomeD [of ch p] by (auto simp: b64_letter_def unat_of_nat_byte)

lemma pton_scan_cases:
  assumes "\<not> isspace ch" "ch \<noteq> NUL"
  obtains "ch = Pad64" | v where "unat v < 64" "ch = b64_letter v"
    | "\<And>src target targsize m i st. pton_scan (ch # src) target targsize m i st = ScanFail m"
proof (cases "b64_pos ch")
  case None
  with assms that show ?thesis by (cases "ch = Pad64") (auto simp: pton_scan.simps(2))
next
  case (Some p)
  then show ?thesis
    using b64_letter_of_pos [OF Some] b64_pos_SomeD [OF Some] that(2) by metis
qed

lemma b64_letter_plain:
  assumes "unat v < 64"
  shows "b64_letter v \<noteq> Pad64" "b64_letter v \<noteq> NUL" "\<not> isspace (b64_letter v)"
  using Base64_plain [of "b64_letter v"] assms by (auto simp: b64_letter_def)

lemma byte_less_64D: "unat (v :: byte) < 64 \<Longrightarrow> \<not> bit v 6 \<and> \<not> bit v 7"
  by (subst (asm) unat_byte_bits) (auto simp: of_bool_def split: if_splits)

lemma b64_split:
  assumes "unat v0 < 64" "unat v1 < 64" "unat v2 < 64" "unat v3 < 64"
  shows "b64_out0 (push_bit 2 v0 OR drop_bit 4 v1) = v0"
    and "b64_out1 (push_bit 2 v0 OR drop_bit 4 v1) (push_bit 4 (v1 AND 0x0f) OR drop_bit 2 v2) = v1"
    and "b64_out2 (push_bit 4 (v1 AND 0x0f) OR drop_bit 2 v2) (push_bit 6 (v2 AND 0x03) OR v3) = v2"
    and "b64_out3 (push_bit 6 (v2 AND 0x03) OR v3) = v3"
  using assms [THEN byte_less_64D]
  by - (rule byte_bits_eqI; simp add: b64_out_bits bit_simps numeral_2_eq_2 [symmetric]
      numeral_3_eq_3 [symmetric])+

lemma b64_split1:
  assumes "unat v0 < 64" "unat v1 < 64" "push_bit 4 (v1 AND 0x0f) = 0"
  shows "b64_out1 (push_bit 2 v0 OR drop_bit 4 v1) 0 = v1"
proof -
  have "\<not> bit (push_bit 4 (v1 AND 0x0f)) n" for n
    using assms(3) by simp
  from this [of 4] this [of 5] this [of 6] this [of 7] show ?thesis
    using assms(1,2) [THEN byte_less_64D]
    by - (rule byte_bits_eqI; simp add: b64_out_bits bit_simps numeral_2_eq_2 [symmetric]
      numeral_3_eq_3 [symmetric])
qed

lemma b64_split2:
  assumes "unat v1 < 64" "unat v2 < 64" "push_bit 6 (v2 AND 0x03) = 0"
  shows "b64_out2 (push_bit 4 (v1 AND 0x0f) OR drop_bit 2 v2) 0 = v2"
proof -
  have "\<not> bit (push_bit 6 (v2 AND 0x03)) n" for n
    using assms(3) by simp
  from this [of 6] this [of 7] show ?thesis
    using assms(1,2) [THEN byte_less_64D]
    by - (rule byte_bits_eqI; simp add: b64_out_bits bit_simps numeral_2_eq_2 [symmetric]
      numeral_3_eq_3 [symmetric])
qed

text \<open>What the function accepts after the scan (the part after the loop of \<open>f_b64_pton\<close>).\<close>

definition pton_accept :: "addr \<Rightarrow> mem \<Rightarrow> nat \<Rightarrow> nat \<Rightarrow> char \<Rightarrow> string \<Rightarrow> bool" where
  "pton_accept target m tarindex st ch src \<longleftrightarrow>
     (if ch = Pad64 then pton_pad src st \<and> (target \<noteq> 0 \<longrightarrow> m (target + tarindex) = 0) else st = 0)"

lemma f_b64_pton_accept:
  "f_b64_pton src target targsize m =
     (case pton_scan src target targsize m 0 0 of
        ScanFail m' \<Rightarrow> (-1, m')
      | ScanEnd m' j st ch src' \<Rightarrow>
          if pton_accept target m' j st ch src' then (int_of_size j, m') else (-1, m'))"
  by (auto simp: f_b64_pton_def pton_accept_def split: pton_scan_result.splits)

definition plain_text :: "string \<Rightarrow> bool" where
  "plain_text s \<longleftrightarrow> (\<forall>c \<in> set s. \<not> isspace c \<and> c \<noteq> NUL)"

lemma plain_text_simps [simp]:
  "plain_text []" "plain_text (c # s) \<longleftrightarrow> \<not> isspace c \<and> c \<noteq> NUL \<and> plain_text s"
  by (auto simp: plain_text_def)

lemma only_spaces_plain: "plain_text s \<Longrightarrow> only_spaces s \<longleftrightarrow> s = []"
  by (cases s) auto

lemma skip_spaces_plain: "plain_text s \<Longrightarrow> skip_spaces s = s"
  by (cases s) auto

lemma pton_pad_plain:
  "plain_text s \<Longrightarrow> pton_pad s 2 \<longleftrightarrow> s = [Pad64]"
  "plain_text s \<Longrightarrow> pton_pad s 3 \<longleftrightarrow> s = []"
  by (auto simp: pton_pad_def skip_spaces_plain only_spaces_plain split: list.splits)

text \<open>One letter in each state, with a target.\<close>

lemma pton_letter_0:
  "target \<noteq> 0 \<Longrightarrow> pton_letter (unat v) target targsize m i 0 =
     (if i < targsize then Some (m(target + i := push_bit 2 v), i, 1) else None)"
  by (simp add: pton_letter_def Let_def)

lemma pton_letter_target:
  assumes "target \<noteq> 0" "targsize < 2 ^ 32" "i < targsize"
  shows "pton_letter (unat v) target targsize m i 1 =
      (if i + 1 < targsize then Some (m(target + i := m (target + i) OR drop_bit 4 v,
          target + i + 1 := push_bit 4 (v AND 0x0f)), i + 1, 2) else None)"
    and "pton_letter (unat v) target targsize m i 2 =
      (if i + 1 < targsize then Some (m(target + i := m (target + i) OR drop_bit 2 v,
          target + i + 1 := push_bit 6 (v AND 0x03)), i + 1, 3) else None)"
    and "pton_letter (unat v) target targsize m i 3 = Some (m(target + i := m (target + i) OR v), i + 1, 0)"
proof -
  have "u_int (i + 1) = i + 1" using assms(2,3) by (simp add: u_int_def)
  then show "pton_letter (unat v) target targsize m i 1 =
      (if i + 1 < targsize then Some (m(target + i := m (target + i) OR drop_bit 4 v,
          target + i + 1 := push_bit 4 (v AND 0x0f)), i + 1, 2) else None)"
    "pton_letter (unat v) target targsize m i 2 =
      (if i + 1 < targsize then Some (m(target + i := m (target + i) OR drop_bit 2 v,
          target + i + 1 := push_bit 6 (v AND 0x03)), i + 1, 3) else None)"
    "pton_letter (unat v) target targsize m i 3 = Some (m(target + i := m (target + i) OR v), i + 1, 0)"
    using assms by (simp_all add: pton_letter_def Let_def add.assoc)
qed

text \<open>The scan of \<open>s\<close> from state \<open>st\<close> ends, and the rest of the function accepts.\<close>

definition accepted_from ::
  "string \<Rightarrow> addr \<Rightarrow> nat \<Rightarrow> mem \<Rightarrow> nat \<Rightarrow> nat \<Rightarrow> mem \<Rightarrow> nat \<Rightarrow> bool" where
  "accepted_from s target targsize m i st m' j \<longleftrightarrow>
     (\<exists>st' ch src'. pton_scan s target targsize m i st = ScanEnd m' j st' ch src' \<and>
        pton_accept target m' j st' ch src')"

lemma accepted_from_Nil:
  "accepted_from [] target targsize m i st m' j \<longleftrightarrow> st = 0 \<and> m' = m \<and> j = i"
  by (auto simp: accepted_from_def pton_accept_def)

lemma accepted_from_Cons:
  assumes "plain_text (c # s)" "accepted_from (c # s) target targsize m i st m' j"
  obtains (pad) "c = Pad64" "m' = m" "j = i" "pton_accept target m i st Pad64 s"
    | (letter) v m1 i1 st1 where "unat v < 64" "c = b64_letter v"
        "pton_letter (unat v) target targsize m i st = Some (m1, i1, st1)"
        "accepted_from s target targsize m1 i1 st1 m' j"
proof -
  from assms(1) have "\<not> isspace c" "c \<noteq> NUL" by simp_all
  then show ?thesis
  proof (cases rule: pton_scan_cases)
    case 1
    with assms(2) show ?thesis by (intro pad) (auto simp: accepted_from_def)
  next
    case (2 v)
    with assms(2) letter show ?thesis
      by (auto simp: accepted_from_def pton_scan_letter split: option.splits)
  next
    case 3
    with assms(2) show ?thesis by (simp add: accepted_from_def)
  qed
qed

lemma accepted_from_0:
  assumes "plain_text s" "target \<noteq> 0" "accepted_from s target targsize m i 0 m' j"
  obtains "s = []" "m' = m" "j = i"
    | v s' where "s = b64_letter v # s'" "unat v < 64" "i < targsize" "plain_text s'"
        "accepted_from s' target targsize (m(target + i := push_bit 2 v)) i 1 m' j"
proof (cases s)
  case (Cons c r)
  from assms(1,3) show ?thesis unfolding Cons
    by (cases rule: accepted_from_Cons)
      (use Cons assms that(2) in
        \<open>auto simp: pton_accept_def pton_pad_def pton_letter_0 [simplified] split: if_splits\<close>)
qed (use assms that in \<open>auto simp: accepted_from_Nil\<close>)

lemma accepted_from_1:
  assumes "plain_text s" "target \<noteq> 0" "targsize < 2 ^ 32" "i < targsize" "accepted_from s target targsize m i 1 m' j"
  obtains v s' where "s = b64_letter v # s'" "unat v < 64" "i + 1 < targsize" "plain_text s'"
        "accepted_from s' target targsize (m(target + i := m (target + i) OR drop_bit 4 v,
          target + i + 1 := push_bit 4 (v AND 0x0f))) (i + 1) 2 m' j"
proof (cases s)
  case (Cons c r)
  from assms(1,5) show ?thesis unfolding Cons
    by (cases rule: accepted_from_Cons)
      (use Cons assms that in
        \<open>auto simp: pton_accept_def pton_pad_def pton_letter_target [OF assms(2-4), simplified] split: if_splits\<close>)
qed (use assms in \<open>auto simp: accepted_from_Nil\<close>)

lemma accepted_from_2:
  assumes "plain_text s" "target \<noteq> 0" "targsize < 2 ^ 32" "i < targsize" "accepted_from s target targsize m i 2 m' j"
  obtains "s = [Pad64, Pad64]" "m' = m" "j = i" "m (target + i) = 0"
    | v s' where "s = b64_letter v # s'" "unat v < 64" "i + 1 < targsize" "plain_text s'"
        "accepted_from s' target targsize (m(target + i := m (target + i) OR drop_bit 2 v,
          target + i + 1 := push_bit 6 (v AND 0x03))) (i + 1) 3 m' j"
proof (cases s)
  case (Cons c r)
  from assms(1,5) show ?thesis unfolding Cons
    by (cases rule: accepted_from_Cons)
      (use Cons assms that in
        \<open>auto simp: pton_accept_def pton_pad_plain pton_letter_target [OF assms(2-4), simplified] split: if_splits\<close>)
qed (use assms in \<open>auto simp: accepted_from_Nil\<close>)

lemma accepted_from_3:
  assumes "plain_text s" "target \<noteq> 0" "targsize < 2 ^ 32" "i < targsize" "accepted_from s target targsize m i 3 m' j"
  obtains "s = [Pad64]" "m' = m" "j = i" "m (target + i) = 0"
    | v s' where "s = b64_letter v # s'" "unat v < 64" "plain_text s'"
        "accepted_from s' target targsize (m(target + i := m (target + i) OR v)) (i + 1) 0 m' j"
proof (cases s)
  case (Cons c r)
  from assms(1,5) show ?thesis unfolding Cons
    by (cases rule: accepted_from_Cons)
      (use Cons assms that in
        \<open>auto simp: pton_accept_def pton_pad_plain pton_letter_target [OF assms(2-4), simplified] split: if_splits\<close>)
qed (use assms in \<open>auto simp: accepted_from_Nil\<close>)

lemma accepted_group:
  assumes "plain_text s" "target \<noteq> 0" "targsize < 2 ^ 32" "accepted_from s target targsize m i 0 m' j"
  obtains
    (nil) "s = []" "m' = m" "j = i"
  | (group) a b c s' where "s = b64_letter (b64_out0 a) # b64_letter (b64_out1 a b) #
        b64_letter (b64_out2 b c) # b64_letter (b64_out3 c) # s'" "plain_text s'"
        "accepted_from s' target targsize (mem_store m (target + i) [a, b, c]) (i + 3) 0 m' j"
  | (two) a b where "s = b64_text [a, b]" "m' = mem_store m (target + i) [a, b, 0]" "j = i + 2"
  | (one) a where "s = b64_text [a]" "m' = mem_store m (target + i) [a, 0]" "j = i + 1"
  using assms(1,2,4)
proof (cases rule: accepted_from_0)
  case 1
  then show ?thesis by (rule nil)
next
  case (2 v0 s1)
  let ?a = "\<lambda>v1. push_bit 2 v0 OR drop_bit 4 v1"
  from 2(4) assms(2,3) 2(3,5) show ?thesis
  proof (cases rule: accepted_from_1)
    case (1 v1 s2)
    let ?b = "\<lambda>v2. push_bit 4 (v1 AND 0x0f) OR drop_bit 2 v2"
    have m2: "m(target + i := push_bit 2 v0, target + i := (m(target + i := push_bit 2 v0)) (target + i)
        OR drop_bit 4 v1, target + i + 1 := push_bit 4 (v1 AND 0x0f)) =
        mem_store m (target + i) [?a v1, push_bit 4 (v1 AND 0x0f)]"
      by (simp add: mem_store_Cons)
    have acc2: "accepted_from s2 target targsize
        (mem_store m (target + i) [?a v1, push_bit 4 (v1 AND 0x0f)]) (i + 1) 2 m' j"
      using 1(5) by (simp only: m2)
    from 1(4) assms(2,3) 1(3) acc2 show ?thesis
    proof (cases rule: accepted_from_2)
      case one1: 1
      then have zero: "push_bit 4 (v1 AND 0x0f) = 0"
        by (simp add: mem_store_Cons del: push_bit_and)
      have "s = b64_text [?a v1]"
        using 2 1 one1 b64_split(1) b64_split1 [OF _ _ zero] by simp
      moreover have "m' = mem_store m (target + i) [?a v1, 0]"
        using one1 zero by (simp only:)
      ultimately show ?thesis using one1 by (intro one) simp_all
    next
      case three: (2 v2 s3)
      have m3: "(mem_store m (target + i) [?a v1, push_bit 4 (v1 AND 0x0f)])
          (target + (i + 1) := mem_store m (target + i) [?a v1, push_bit 4 (v1 AND 0x0f)] (target + (i + 1))
             OR drop_bit 2 v2, target + (i + 1) + 1 := push_bit 6 (v2 AND 0x03)) =
          mem_store m (target + i) [?a v1, ?b v2, push_bit 6 (v2 AND 0x03)]"
        by (simp add: mem_store_Cons)
      have acc3: "accepted_from s3 target targsize
          (mem_store m (target + i) [?a v1, ?b v2, push_bit 6 (v2 AND 0x03)]) (i + 1 + 1) 3 m' j"
        using three(5) by (simp only: m3)
      from three(4) assms(2,3) three(3) acc3 show ?thesis
      proof (cases rule: accepted_from_3)
        case two1: 1
        then have zero: "push_bit 6 (v2 AND 0x03) = 0"
          by (simp add: mem_store_Cons del: push_bit_and)
        have "s = b64_text [?a v1, ?b v2]"
          using 2 1 three two1 b64_split(1,2) b64_split2 [OF _ _ zero] by simp
        moreover have "m' = mem_store m (target + i) [?a v1, ?b v2, 0]"
          using two1 zero by (simp only:)
        ultimately show ?thesis using two1 by (intro two) simp_all
      next
        case four: (2 v3 s4)
        let ?c = "push_bit 6 (v2 AND 0x03) OR v3"
        have "(mem_store m (target + i) [?a v1, ?b v2, push_bit 6 (v2 AND 0x03)])
            (target + (i + 1 + 1) := mem_store m (target + i) [?a v1, ?b v2, push_bit 6 (v2 AND 0x03)]
              (target + (i + 1 + 1)) OR v3) = mem_store m (target + i) [?a v1, ?b v2, ?c]"
          by (simp add: mem_store_Cons)
        with four(4) have "accepted_from s4 target targsize
            (mem_store m (target + i) [?a v1, ?b v2, ?c]) (i + 3) 0 m' j"
          by (simp add: numeral_3_eq_3 del: push_bit_and)
        then show ?thesis
          by (intro group [of "?a v1" "?b v2" ?c s4])
            (use 2 1 three four b64_split [of v0 v1 v2 v3] in simp_all)
      qed
    qed
  qed
qed

lemma accepted_is_text:
  "plain_text s \<Longrightarrow> target \<noteq> 0 \<Longrightarrow> targsize < 2 ^ 32 \<Longrightarrow> accepted_from s target targsize m i 0 m' j \<Longrightarrow>
   \<exists>src. s = b64_text src \<and> j = i + length src \<and>
     m' = mem_store m (target + i) (src @ (if length src mod 3 = 0 then [] else [0]))"
proof (induction s arbitrary: m i rule: length_induct)
  case (1 s)
  from "1.prems" show ?case
  proof (cases rule: accepted_group)
    case nil
    then show ?thesis by (intro exI [of _ "[]"]) simp
  next
    case (group a b c s')
    then have "length s' < length s" by simp
    with "1.IH" group(2,3) "1.prems"(2,3) obtain src where src: "s' = b64_text src"
      "j = i + 3 + length src"
      "m' = mem_store (mem_store m (target + i) [a, b, c]) (target + (i + 3))
        (src @ (if length src mod 3 = 0 then [] else [0]))"
      by blast
    have mod3: "Suc (Suc (Suc n)) mod 3 = n mod 3" for n :: nat
      by presburger
    show ?thesis
      using group(1) src mem_store_append [of m "target + i" "[a, b, c]"]
      by (intro exI [of _ "a # b # c # src"]) (simp add: mod3 add.assoc numeral_3_eq_3 [symmetric])
  next
    case (two a b)
    then show ?thesis by (intro exI [of _ "[a, b]"]) simp
  next
    case (one a)
    then show ?thesis by (intro exI [of _ "[a]"]) simp
  qed
qed

section \<open>White space\<close>

abbreviation strip_spaces :: "string \<Rightarrow> string" where
  "strip_spaces \<equiv> filter (\<lambda>c. \<not> isspace c)"

lemma isspace_NUL [simp]: "\<not> isspace NUL"
  by (simp add: isspace_def)

lemma pton_scan_strip:
  "pton_scan (strip_spaces s) target targsize m i st =
     (case pton_scan s target targsize m i st of
        ScanFail m' \<Rightarrow> ScanFail m'
      | ScanEnd m' j st' ch src' \<Rightarrow> ScanEnd m' j st' ch (strip_spaces src'))"
proof (induction s target targsize m i st rule: pton_scan.induct)
  case (2 ch src target targsize m i st)
  then show ?case
    by (cases "ch = NUL"; cases "isspace ch"; cases "ch = Pad64")
      (auto simp: pton_scan.simps(2) split: option.splits)
qed simp

lemma only_spaces_strip: "only_spaces (strip_spaces s) = only_spaces s"
  by (induction s) auto

lemma skip_spaces_strip: "skip_spaces (strip_spaces s) = strip_spaces (skip_spaces s)"
  by (induction s) auto

lemma skip_spaces_head: "skip_spaces s = c # r \<Longrightarrow> \<not> isspace c"
  by (induction s) (auto split: if_splits)

lemma pton_pad_strip: "pton_pad (strip_spaces s) st = pton_pad s st"
  using skip_spaces_head
  by (auto simp: pton_pad_def only_spaces_strip skip_spaces_strip split: list.splits)

lemma pton_strip: "f_b64_pton (strip_spaces s) target targsize m = f_b64_pton s target targsize m"
  by (simp add: f_b64_pton_def pton_scan_strip pton_pad_strip split: pton_scan_result.splits)

lemma pton_accepts_text:
  assumes "NUL \<notin> set s" "target \<noteq> 0" "targsize < 2 ^ 32" "fst (f_b64_pton s target targsize m) \<noteq> -1"
  shows "\<exists>src. strip_spaces s = b64_text src \<and>
    f_b64_pton s target targsize m = (int_of_size (length src),
      mem_store m target (src @ (if length src mod 3 = 0 then [] else [0])))"
proof -
  let ?s = "strip_spaces s"
  have plain: "plain_text ?s" using assms(1) by (auto simp: plain_text_def)
  have "fst (f_b64_pton ?s target targsize m) \<noteq> -1"
    using assms(4) by (subst pton_strip)
  then obtain m' j where acc: "accepted_from ?s target targsize m 0 0 m' j"
    and res: "f_b64_pton ?s target targsize m = (int_of_size j, m')"
    by (auto simp: f_b64_pton_accept accepted_from_def split: pton_scan_result.splits if_splits)
  from accepted_is_text [OF plain assms(2,3) acc] res show ?thesis
    by (auto simp: pton_strip)
qed

section \<open>Bounds\<close>

text \<open>Between the letters of a group the index is that of a byte of the target, also where it wraps.\<close>

lemma pton_letter_frame:
  "pton_letter p target targsize m i st = Some (m', i', st') \<Longrightarrow> (target \<noteq> 0 \<Longrightarrow> st \<noteq> 0 \<Longrightarrow> i < targsize) \<Longrightarrow>
   mem_frame target targsize m m' \<and> (target \<noteq> 0 \<longrightarrow> st' \<noteq> 0 \<longrightarrow> i' < targsize)"
  by (auto simp: pton_letter_def Let_def mem_frame_def split: if_splits)

lemma pton_scan_frame:
  "(target \<noteq> 0 \<Longrightarrow> st \<noteq> 0 \<Longrightarrow> i < targsize) \<Longrightarrow> mem_frame target targsize m (scan_mem (pton_scan s target targsize m i st))"
proof (induction s target targsize m i st rule: pton_scan.induct)
  case (2 ch src target targsize m i st)
  show ?case
  proof (cases "ch = NUL \<or> isspace ch \<or> ch = Pad64")
    case True
    with 2 show ?thesis by (auto simp: pton_scan.simps(2))
  next
    case False
    show ?thesis
    proof (cases "\<exists>p. b64_pos ch = Some p \<and> pton_letter p target targsize m i st \<noteq> None")
      case True
      then obtain p m1 i1 st1 where p: "b64_pos ch = Some p"
        "pton_letter p target targsize m i st = Some (m1, i1, st1)"
        by auto
      note 1 = pton_letter_frame [OF p(2) "2.prems"]
      with p "2.IH"(2) False have "mem_frame target targsize m1 (scan_mem (pton_scan src target targsize m1 i1 st1))"
        by simp
      with p False 1 show ?thesis
        by (auto simp: pton_scan.simps(2) intro: mem_frame_trans)
    qed (use False in \<open>auto simp: pton_scan.simps(2) split: option.splits\<close>)
  qed
qed simp

lemma pton_frame: "mem_frame target targsize m (snd (f_b64_pton s target targsize m))"
  using pton_scan_frame [of target 0 0 targsize m s]
  by (auto simp: f_b64_pton_def split: pton_scan_result.splits)

text \<open>The byte that the check after the pad reads lies inside the target.\<close>

lemma pton_scan_index:
  "target \<noteq> 0 \<Longrightarrow> (st \<noteq> 0 \<longrightarrow> i < targsize) \<Longrightarrow>
   pton_scan s target targsize m i st = ScanEnd m' j st' ch r \<Longrightarrow> st' \<noteq> 0 \<longrightarrow> j < targsize"
proof (induction s target targsize m i st rule: pton_scan.induct)
  case (2 c src target targsize m i st)
  show ?case
  proof (cases "c = NUL \<or> isspace c \<or> c = Pad64")
    case True
    with 2 show ?thesis by (auto simp: pton_scan.simps(2) split: if_splits)
  next
    case False
    with "2.prems"(3) obtain p m1 i1 st1 where p: "b64_pos c = Some p"
      "pton_letter p target targsize m i st = Some (m1, i1, st1)"
      "pton_scan src target targsize m1 i1 st1 = ScanEnd m' j st' ch r"
      by (auto simp: pton_scan.simps(2) split: option.splits)
    with "2.IH"(2) False pton_letter_frame [OF p(2)] "2.prems"(1,2) show ?thesis
      by blast
  qed
qed auto


lemma ntop_groups_length:
  "length acc \<le> targsize \<Longrightarrow> length (snd (snd (ntop_groups src targsize acc))) \<le> targsize"
  by (induction src targsize acc rule: ntop_groups.induct) auto

lemma f_b64_ntop_length: "length (snd (f_b64_ntop src targsize)) \<le> targsize"
  using ntop_groups_length [of "[]" targsize src]
  by (auto simp: f_b64_ntop_def ntop_tail_def Let_def split: prod.splits)

lemma int_of_size_small: "n < 2 ^ 31 \<Longrightarrow> int_of_size n = int n"
  by (simp add: int_of_size_def signed_of_nat signed_take_bit_int_eq_self)

section \<open>Properties\<close>

text \<open>
  C27: \<open>f_b64_ntop\<close> produces exactly the RFC 1521 text of its input (the bits of the input cut
  into sextets, padded with \<open>=\<close>) followed by a NUL when the target has room for both, and
  returns \<open>-1\<close> otherwise.
\<close>

theorem f_b64_ntop_rfc1521:
  "if length (b64_spec src) < targsize
   then f_b64_ntop src targsize = (int_of_size (length (b64_spec src)), b64_spec src @ [NUL])
   else fst (f_b64_ntop src targsize) = -1"
  using f_b64_ntop_eq [of src targsize] by (metis fst_conv)

text \<open>
  C28: decoding what was encoded gives the input back: \<open>f_b64_pton\<close> applied to the output of
  \<open>f_b64_ntop\<close> returns the number of input bytes and leaves exactly them in the target, if the
  target has room for one byte more than the data.
\<close>

theorem f_b64_roundtrip:
  assumes "length (b64_spec src) < textsize" "target \<noteq> 0" "length src < targsize"
    and "length src < 2 ^ 31"
  shows "fst (f_b64_pton (snd (f_b64_ntop src textsize)) target targsize m) = int (length src) \<and>
    mem_load (snd (f_b64_pton (snd (f_b64_ntop src textsize)) target targsize m)) target (length src) = src"
  using pton_text_load [OF assms(2,3), of m] f_b64_ntop_eq [of src textsize] assms
  by (auto simp: b64_text_spec int_of_size_small)

theorem f_b64_roundtrip_witness:
  "fst (f_b64_pton (snd (f_b64_ntop [77, 97] 5)) 100 3 (\<lambda>_. 0)) = int (length [77, 97 :: byte]) \<and>
   mem_load (snd (f_b64_pton (snd (f_b64_ntop [77, 97] 5)) 100 3 (\<lambda>_. 0))) 100
     (length [77, 97 :: byte]) = [77, 97]"
  by (rule f_b64_roundtrip) (simp_all add: b64_text_spec [symmetric])

text \<open>
  C29: the decoder accepts canonical text only. Whatever \<open>f_b64_pton\<close> accepts with a target is,
  white space apart, the RFC 1521 text of the bytes it stores: letters after the pad, a
  truncated group, or non-zero bits under the pad are all refused. The target has less than 4 GiB: the index into it has 32
  bits, and would wrap.
\<close>

theorem f_b64_pton_canonical:
  assumes "NUL \<notin> set s" "target \<noteq> 0" "targsize < 2 ^ 32" "fst (f_b64_pton s target targsize m) \<noteq> -1"
  shows "\<exists>src. strip_spaces s = b64_spec src \<and>
    fst (f_b64_pton s target targsize m) = int_of_size (length src) \<and>
    mem_load (snd (f_b64_pton s target targsize m)) target (length src) = src"
proof -
  from pton_accepts_text [OF assms] obtain src where src: "strip_spaces s = b64_text src"
    and res: "f_b64_pton s target targsize m = (int_of_size (length src),
      mem_store m target (src @ (if length src mod 3 = 0 then [] else [0])))"
    by blast
  have "mem_load (mem_store m target (src @ xs)) target (length src) = src" for xs
    by (rule nth_equalityI) (auto simp: mem_store_def nth_append)
  with src res show ?thesis by (intro exI [of _ src]) (simp add: b64_text_spec)
qed

theorem f_b64_pton_canonical_witness:
  "\<exists>src. strip_spaces ''T W\<newline>E='' = b64_spec src \<and>
    fst (f_b64_pton ''T W\<newline>E='' 100 3 (\<lambda>_. 0)) = int_of_size (length src) \<and>
    mem_load (snd (f_b64_pton ''T W\<newline>E='' 100 3 (\<lambda>_. 0))) 100 (length src) = src"
proof (rule f_b64_pton_canonical)
  show "fst (f_b64_pton ''T W\<newline>E='' 100 3 (\<lambda>_. 0)) \<noteq> -1"
    by (simp add: f_b64_pton_def pton_scan.simps(2) isspace_def b64_pos_def Base64_def Pad64_def upt_rec
      pton_letter_def Let_def u_int_small pton_pad_def int_of_size_def)
qed simp_all

text \<open>White space in the text is ignored, wherever it stands.\<close>

theorem f_b64_pton_whitespace:
  "f_b64_pton (strip_spaces s) target targsize m = f_b64_pton s target targsize m"
  by (rule pton_strip)

text \<open>
  C34: memory safety of the codec. The encoder never produces more than \<open>targsize\<close> characters,
  and the decoder changes no byte outside the \<open>targsize\<close> bytes of its target, whatever the
  text is.
\<close>

theorem f_b64_bounds:
  "length (snd (f_b64_ntop src textsize)) \<le> textsize \<and>
   mem_frame target targsize m (snd (f_b64_pton s target targsize m))"
  using f_b64_ntop_length pton_frame by simp

end
