(* ===== verification/Pb_Common.thy ===== *)
theory Pb_Common
  imports Prelude
begin

text \<open>
  The parts of nanopb that the encoder and the decoder share: the field descriptors of
  \<^verbatim>\<open>pb.h\<close>, the wire types, and the field iterator of \<^verbatim>\<open>pb_common.c\<close>, which walks a
  descriptor array and keeps the addresses of the current field and of its size or presence
  slot. The configuration is the one the project compiles: \<^verbatim>\<open>PB_FIELD_32BIT\<close> is defined,
  \<^verbatim>\<open>PB_ENABLE_MALLOC\<close>, \<^verbatim>\<open>PB_BUFFER_ONLY\<close>, \<^verbatim>\<open>PB_NO_ERRMSG\<close> and
  \<^verbatim>\<open>PB_OLD_CALLBACK_STYLE\<close> are not.
\<close>

unbundle bit_operations_syntax

section \<open>Field types\<close>

abbreviation (input) PB_LTYPE_VARINT :: byte where "PB_LTYPE_VARINT \<equiv> 0x00"
abbreviation (input) PB_LTYPE_UVARINT :: byte where "PB_LTYPE_UVARINT \<equiv> 0x01"
abbreviation (input) PB_LTYPE_SVARINT :: byte where "PB_LTYPE_SVARINT \<equiv> 0x02"
abbreviation (input) PB_LTYPE_FIXED32 :: byte where "PB_LTYPE_FIXED32 \<equiv> 0x03"
abbreviation (input) PB_LTYPE_FIXED64 :: byte where "PB_LTYPE_FIXED64 \<equiv> 0x04"
abbreviation (input) PB_LTYPE_LAST_PACKABLE :: byte where "PB_LTYPE_LAST_PACKABLE \<equiv> 0x04"
abbreviation (input) PB_LTYPE_BYTES :: byte where "PB_LTYPE_BYTES \<equiv> 0x05"
abbreviation (input) PB_LTYPE_STRING :: byte where "PB_LTYPE_STRING \<equiv> 0x06"
abbreviation (input) PB_LTYPE_SUBMESSAGE :: byte where "PB_LTYPE_SUBMESSAGE \<equiv> 0x07"
abbreviation (input) PB_LTYPE_EXTENSION :: byte where "PB_LTYPE_EXTENSION \<equiv> 0x08"
abbreviation (input) PB_LTYPE_FIXED_LENGTH_BYTES :: byte where "PB_LTYPE_FIXED_LENGTH_BYTES \<equiv> 0x09"

abbreviation (input) PB_HTYPE_REQUIRED :: byte where "PB_HTYPE_REQUIRED \<equiv> 0x00"
abbreviation (input) PB_HTYPE_OPTIONAL :: byte where "PB_HTYPE_OPTIONAL \<equiv> 0x10"
abbreviation (input) PB_HTYPE_REPEATED :: byte where "PB_HTYPE_REPEATED \<equiv> 0x20"
abbreviation (input) PB_HTYPE_ONEOF :: byte where "PB_HTYPE_ONEOF \<equiv> 0x30"

abbreviation (input) PB_ATYPE_STATIC :: byte where "PB_ATYPE_STATIC \<equiv> 0x00"
abbreviation (input) PB_ATYPE_POINTER :: byte where "PB_ATYPE_POINTER \<equiv> 0x80"
abbreviation (input) PB_ATYPE_CALLBACK :: byte where "PB_ATYPE_CALLBACK \<equiv> 0x40"

definition PB_ATYPE :: "byte \<Rightarrow> byte" where
  "PB_ATYPE x = x AND 0xC0"

definition PB_HTYPE :: "byte \<Rightarrow> byte" where
  "PB_HTYPE x = x AND 0x30"

definition PB_LTYPE :: "byte \<Rightarrow> byte" where
  "PB_LTYPE x = x AND 0x0F"

text \<open>\<^verbatim>\<open>PB_SIZE_MAX\<close> of the 32-bit \<^verbatim>\<open>pb_size_t\<close>.\<close>

definition PB_SIZE_MAX :: nat where
  "PB_SIZE_MAX = 2 ^ 32 - 1"

text \<open>
  The wire types are the three low bits of a tag; the \<^verbatim>\<open>enum\<close> names four of the eight values.
\<close>

abbreviation (input) PB_WT_VARINT :: nat where "PB_WT_VARINT \<equiv> 0"
abbreviation (input) PB_WT_64BIT :: nat where "PB_WT_64BIT \<equiv> 1"
abbreviation (input) PB_WT_STRING :: nat where "PB_WT_STRING \<equiv> 2"
abbreviation (input) PB_WT_32BIT :: nat where "PB_WT_32BIT \<equiv> 5"

section \<open>Field descriptors\<close>

text \<open>
  \<^verbatim>\<open>struct pb_field_s\<close>. Offsets and sizes are numbers of type \<^verbatim>\<open>pb_size_t\<close> (\<open>size_offset\<close>
  is signed); \<open>f_ptr\<close> is the address of the field table of a submessage or of a default value.
\<close>

record pb_field =
  f_tag :: nat
  f_type :: byte
  f_data_offset :: nat
  f_size_offset :: int
  f_data_size :: nat
  f_array_size :: nat
  f_ptr :: addr

definition PB_LAST_FIELD :: pb_field where
  "PB_LAST_FIELD = \<lparr>f_tag = 0, f_type = 0, f_data_offset = 0, f_size_offset = 0, f_data_size = 0,
     f_array_size = 0, f_ptr = 0\<rparr>"

text \<open>A descriptor array is the list of its entries; the terminator follows the last one.\<close>

definition field_at :: "pb_field list \<Rightarrow> nat \<Rightarrow> pb_field" where
  "field_at fs i = (if i < length fs then fs ! i else PB_LAST_FIELD)"

text \<open>Byte-wise pointer arithmetic with a signed offset.\<close>

definition ptr_add :: "addr \<Rightarrow> int \<Rightarrow> addr" where
  "ptr_add a i = nat (int a + i)"

section \<open>The field iterator\<close>

record pb_field_iter =
  it_start :: "pb_field list"
  it_pos :: nat
  it_required :: nat
  it_dest :: addr
  it_pData :: addr
  it_pSize :: addr

definition it_field :: "pb_field_iter \<Rightarrow> pb_field" where
  "it_field iter = field_at (it_start iter) (it_pos iter)"

definition pb_field_iter_begin :: "pb_field list \<Rightarrow> addr \<Rightarrow> bool \<times> pb_field_iter" where
  "pb_field_iter_begin fs dest =
     (let f = field_at fs 0; pData = dest + f_data_offset f in
      (f_tag f \<noteq> 0,
       \<lparr>it_start = fs, it_pos = 0, it_required = 0, it_dest = dest, it_pData = pData,
        it_pSize = ptr_add pData (f_size_offset f)\<rparr>))"

text \<open>The size by which a field advances the data pointer.\<close>

definition iter_prev_size :: "pb_field \<Rightarrow> nat" where
  "iter_prev_size prev_field =
     (if PB_ATYPE (f_type prev_field) = PB_ATYPE_STATIC
         \<and> PB_HTYPE (f_type prev_field) = PB_HTYPE_REPEATED
      then f_data_size prev_field * f_array_size prev_field
      else if PB_ATYPE (f_type prev_field) = PB_ATYPE_POINTER then 8
      else f_data_size prev_field)"

definition pb_field_iter_next :: "pb_field_iter \<Rightarrow> bool \<times> pb_field_iter" where
  "pb_field_iter_next iter =
     (let prev_field = it_field iter in
      if f_tag prev_field = 0 then (False, iter)
      else
        let pos = Suc (it_pos iter); f = field_at (it_start iter) pos in
        if f_tag f = 0 then (False, snd (pb_field_iter_begin (it_start iter) (it_dest iter)))
        else if PB_HTYPE (f_type prev_field) = PB_HTYPE_ONEOF
            \<and> PB_HTYPE (f_type f) = PB_HTYPE_ONEOF \<and> f_data_offset f = PB_SIZE_MAX
          then (True, iter\<lparr>it_pos := pos\<rparr>)
        else
          let required = (if PB_HTYPE (f_type prev_field) = PB_HTYPE_REQUIRED
                 then Suc (it_required iter) else it_required iter);
              pData = it_pData iter + iter_prev_size prev_field + f_data_offset f in
          (True, iter\<lparr>it_pos := pos, it_required := required, it_pData := pData,
                      it_pSize := ptr_add pData (f_size_offset f)\<rparr>))"

text \<open>
  The searches of the library (\<open>pb_field_iter_find\<close>, \<open>find_extension_field\<close>) step the iterator
  until it is back at the position it started from. The first argument bounds the number of
  steps; \<open>None\<close> means that it ran out.
\<close>

fun iter_search :: "nat \<Rightarrow> (pb_field \<Rightarrow> bool) \<Rightarrow> pb_field_iter \<Rightarrow> nat \<Rightarrow> (bool \<times> pb_field_iter) option" where
  "iter_search 0 match iter start = None"
| "iter_search (Suc n) match iter start =
     (if match (it_field iter) then Some (True, iter)
      else let iter' = snd (pb_field_iter_next iter) in
        if it_pos iter' \<noteq> start then iter_search n match iter' start
        else Some (False, iter'))"

definition pb_field_iter_find :: "pb_field_iter \<Rightarrow> nat \<Rightarrow> (bool \<times> pb_field_iter) option" where
  "pb_field_iter_find iter tag =
     iter_search (Suc (length (it_start iter)))
       (\<lambda>f. f_tag f = tag \<and> PB_LTYPE (f_type f) \<noteq> PB_LTYPE_EXTENSION) iter (it_pos iter)"

text \<open>
  \<^verbatim>\<open>do { body } while (pb_field_iter_next(&iter))\<close>, with the early exit of the loops whose body
  returns: \<open>body\<close> says whether to go on and gives the new state.
\<close>

lemma pb_field_iter_next_True:
  assumes "pb_field_iter_next iter = (True, iter')"
  shows "it_pos iter' = Suc (it_pos iter)" "it_start iter' = it_start iter"
    "it_dest iter' = it_dest iter" "f_tag (it_field iter') \<noteq> 0"
  using assms by (auto simp: pb_field_iter_next_def it_field_def Let_def split: if_splits)

lemma f_tag_length: "f_tag (field_at fs i) \<noteq> 0 \<Longrightarrow> i < length fs"
  by (auto simp: field_at_def PB_LAST_FIELD_def split: if_splits)

function pb_iter_do ::
  "(pb_field_iter \<Rightarrow> 'st \<Rightarrow> (bool \<times> 'st) option) \<Rightarrow> pb_field_iter \<Rightarrow> 'st \<Rightarrow> (bool \<times> 'st) option" where
  "pb_iter_do body iter st =
     (case body iter st of
        None \<Rightarrow> None
      | Some (go, st') \<Rightarrow>
          if go \<and> fst (pb_field_iter_next iter)
          then pb_iter_do body (snd (pb_field_iter_next iter)) st'
          else Some (go, st'))"
  by pat_completeness auto
termination
proof (relation "measure (\<lambda>(body, iter, st). length (it_start iter) - it_pos iter)", simp, clarify)
  fix body :: "pb_field_iter \<Rightarrow> 'st \<Rightarrow> (bool \<times> 'st) option" and iter st st'
  assume "fst (pb_field_iter_next iter)"
  then have nx: "pb_field_iter_next iter = (True, snd (pb_field_iter_next iter))"
    by (metis prod.collapse)
  from pb_field_iter_next_True [OF nx] show
    "((body, snd (pb_field_iter_next iter), st'), body, iter, st)
       \<in> measure (\<lambda>(body, iter, st). length (it_start iter) - it_pos iter)"
    using f_tag_length [of "it_start iter" "it_pos (snd (pb_field_iter_next iter))"]
    by (simp add: it_field_def)
qed

declare pb_iter_do.simps [simp del]

section \<open>Positions of the iterator\<close>

text \<open>The number of entries before the terminator, and the iterator at the k-th of them.\<close>

definition field_count :: "pb_field list \<Rightarrow> nat" where
  "field_count fs = length (takeWhile (\<lambda>f. f_tag f \<noteq> 0) fs)"

primrec iter_at :: "pb_field list \<Rightarrow> addr \<Rightarrow> nat \<Rightarrow> pb_field_iter" where
  "iter_at fs dest 0 = snd (pb_field_iter_begin fs dest)"
| "iter_at fs dest (Suc k) = snd (pb_field_iter_next (iter_at fs dest k))"

lemma field_count_le: "field_count fs \<le> length fs"
  by (simp add: field_count_def length_takeWhile_le)

lemma f_tag_before_count: "k < field_count fs \<Longrightarrow> f_tag (field_at fs k) \<noteq> 0"
  using field_count_le [of fs] nth_mem [of k "takeWhile (\<lambda>f. f_tag f \<noteq> 0) fs"]
  by (auto simp: field_count_def field_at_def takeWhile_nth dest!: set_takeWhileD)

lemma f_tag_at_count: "f_tag (field_at fs (field_count fs)) = 0"
proof (cases "field_count fs < length fs")
  case True
  then show ?thesis
    using nth_length_takeWhile [of "\<lambda>f. f_tag f \<noteq> 0" fs] by (simp add: field_count_def field_at_def)
qed (simp add: field_at_def PB_LAST_FIELD_def)

lemma field_count_pos: "0 < field_count fs \<longleftrightarrow> f_tag (field_at fs 0) \<noteq> 0"
  using f_tag_before_count [of 0 fs] f_tag_at_count [of fs] by (metis gr0I)

lemma Suc_field_count:
  "k < field_count fs \<Longrightarrow> f_tag (field_at fs (Suc k)) \<noteq> 0 \<longleftrightarrow> Suc k < field_count fs"
  using f_tag_before_count [of "Suc k" fs] f_tag_at_count [of fs] by (metis Suc_lessI)

lemma iter_at_start [simp]: "it_start (iter_at fs dest k) = fs"
  by (induction k) (auto simp: pb_field_iter_begin_def pb_field_iter_next_def Let_def)

lemma iter_at_dest [simp]: "it_dest (iter_at fs dest k) = dest"
  by (induction k) (auto simp: pb_field_iter_begin_def pb_field_iter_next_def Let_def)

lemma iter_at_pos: "k < field_count fs \<or> k = 0 \<Longrightarrow> it_pos (iter_at fs dest k) = k"
proof (induction k)
  case 0
  show ?case by (simp add: pb_field_iter_begin_def Let_def)
next
  case (Suc k)
  then show ?case
    using f_tag_before_count [of k fs] f_tag_before_count [of "Suc k" fs]
    by (simp add: pb_field_iter_next_def it_field_def Let_def)
qed

lemma it_field_iter_at: "k < field_count fs \<or> k = 0 \<Longrightarrow> it_field (iter_at fs dest k) = field_at fs k"
  by (simp add: it_field_def iter_at_pos)

text \<open>
  The specification of the step: it moves to the next entry, and from the last one (or on an
  empty table) it comes back to the first.
\<close>

lemma next_iter_at:
  assumes "k < field_count fs"
  shows "pb_field_iter_next (iter_at fs dest k) =
    (if Suc k < field_count fs then (True, iter_at fs dest (Suc k)) else (False, iter_at fs dest 0))"
  using assms f_tag_before_count [OF assms] Suc_field_count [OF assms]
  by (auto simp: pb_field_iter_next_def it_field_def iter_at_pos Let_def)

lemma next_iter_empty:
  "field_count fs = 0 \<Longrightarrow> pb_field_iter_next (iter_at fs dest 0) = (False, iter_at fs dest 0)"
  using field_count_pos [of fs]
  by (auto simp: pb_field_iter_next_def it_field_def pb_field_iter_begin_def Let_def)

declare iter_at.simps(2) [simp del]

text \<open>Iterators that \<open>begin\<close> and \<open>next\<close> produce.\<close>

definition iter_valid :: "pb_field_iter \<Rightarrow> bool" where
  "iter_valid iter \<longleftrightarrow> iter = iter_at (it_start iter) (it_dest iter) (it_pos iter) \<and>
     (it_pos iter < field_count (it_start iter) \<or> it_pos iter = 0)"

lemma iter_valid_at: "k < field_count fs \<or> k = 0 \<Longrightarrow> iter_valid (iter_at fs dest k)"
  by (simp add: iter_valid_def iter_at_pos)

lemma iter_validE:
  assumes "iter_valid iter"
  obtains k where "iter = iter_at (it_start iter) (it_dest iter) k"
    "k < field_count (it_start iter) \<or> k = 0" "it_pos iter = k"
  using assms by (auto simp: iter_valid_def)

lemma iter_valid_begin [simp]: "iter_valid (snd (pb_field_iter_begin fs dest))"
  using iter_valid_at [of 0 fs dest] by simp

lemma iter_valid_next: "iter_valid iter \<Longrightarrow> iter_valid (snd (pb_field_iter_next iter))"
  by (erule iter_validE)
    (metis iter_valid_at next_iter_at next_iter_empty not_gr_zero snd_conv)

lemma required_iter_at:
  "k < field_count fs \<or> k = 0 \<Longrightarrow>
   it_required (iter_at fs dest k) =
     length (filter (\<lambda>f. PB_HTYPE (f_type f) = PB_HTYPE_REQUIRED) (take k fs))"
proof (induction k)
  case 0
  show ?case by (simp add: pb_field_iter_begin_def Let_def)
next
  case (Suc k)
  then have k: "k < field_count fs" and k1: "Suc k < field_count fs" by simp_all
  then have len: "k < length fs" using field_count_le [of fs] by simp
  have IH: "it_required (iter_at fs dest k) =
     length (filter (\<lambda>f. PB_HTYPE (f_type f) = PB_HTYPE_REQUIRED) (take k fs))"
    using Suc k by simp
  show ?case
    using IH k k1 len f_tag_before_count [OF k] f_tag_before_count [OF k1]
    by (auto simp: iter_at.simps(2) pb_field_iter_next_def it_field_def iter_at_pos Let_def take_Suc_conv_app_nth
        field_at_def)
qed

section \<open>Searching\<close>

definition search_from :: "pb_field list \<Rightarrow> nat \<Rightarrow> nat \<Rightarrow> nat" where
  "search_from fs k i = (if k + i < field_count fs then k + i else k + i - field_count fs)"

lemma next_search_from:
  assumes "k < field_count fs" "i < field_count fs"
  shows "snd (pb_field_iter_next (iter_at fs dest (search_from fs k i))) =
     iter_at fs dest (search_from fs k (if Suc i = field_count fs then 0 else Suc i))"
proof -
  let ?j = "search_from fs k i"
  have less: "?j < field_count fs"
    using assms by (auto simp: search_from_def)
  have "search_from fs k (if Suc i = field_count fs then 0 else Suc i) =
      (if Suc ?j < field_count fs then Suc ?j else 0)"
    using assms by (auto simp: search_from_def)
  then show ?thesis
    using next_iter_at [OF less, of dest] by (simp split: if_splits)
qed

lemma iter_search_from:
  assumes k: "k < field_count fs" and "i < field_count fs" "field_count fs - i \<le> n"
  shows "iter_search n P (iter_at fs dest (search_from fs k i)) k =
    (case find (\<lambda>j. P (field_at fs j)) (map (search_from fs k) [i..<field_count fs]) of
       Some j \<Rightarrow> Some (True, iter_at fs dest j)
     | None \<Rightarrow> Some (False, iter_at fs dest k))"
  using assms(2,3)
proof (induction n arbitrary: i)
  case 0
  then show ?case by simp
next
  case (Suc n)
  have less: "search_from fs k i < field_count fs"
    using k Suc.prems by (auto simp: search_from_def)
  have upt: "[i..<field_count fs] = i # [Suc i..<field_count fs]"
    using Suc.prems by (simp add: upt_conv_Cons)
  show ?case
  proof (cases "Suc i = field_count fs")
    case True
    then have "search_from fs k 0 = k" using k by (simp add: search_from_def)
    with True show ?thesis
      using less k Suc.prems by (simp add: upt it_field_iter_at next_search_from iter_at_pos)
  next
    case False
    then have i: "Suc i < field_count fs" using Suc.prems by simp
    have "search_from fs k (Suc i) < field_count fs" "search_from fs k (Suc i) \<noteq> k"
      using k i by (auto simp: search_from_def)
    with False Suc i show ?thesis
      using less k by (simp add: upt it_field_iter_at next_search_from iter_at_pos)
  qed
qed

lemma search_from_range:
  "k < field_count fs \<Longrightarrow> search_from fs k ` {0..<field_count fs} = {0..<field_count fs}"
proof (intro set_eqI iffI)
  fix j assume k: "k < field_count fs" and "j \<in> {0..<field_count fs}"
  then have j: "j < field_count fs" by simp
  then have "search_from fs k (if k \<le> j then j - k else j + field_count fs - k) = j"
    using k by (auto simp: search_from_def)
  moreover have "(if k \<le> j then j - k else j + field_count fs - k) \<in> {0..<field_count fs}"
    using k j by auto
  ultimately show "j \<in> search_from fs k ` {0..<field_count fs}" by (metis imageI)
qed (auto simp: search_from_def)

text \<open>
  A search from a valid iterator always ends, with a valid iterator on the same structure: at a
  matching entry if the table has one, and where it started otherwise.
\<close>

lemma iter_search_spec:
  assumes "iter_valid iter" "field_count (it_start iter) < n" "n \<noteq> 0"
  obtains (found) iter' where
      "iter_search n P iter (it_pos iter) = Some (True, iter')" "iter_valid iter'"
      "it_start iter' = it_start iter" "it_dest iter' = it_dest iter" "P (it_field iter')"
      "it_pos iter' < field_count (it_start iter) \<or> field_count (it_start iter) = 0"
  | (missing) "iter_search n P iter (it_pos iter) = Some (False, iter)"
      "\<forall>j < field_count (it_start iter). \<not> P (field_at (it_start iter) j)"
      "field_count (it_start iter) = 0 \<Longrightarrow> \<not> P (it_field iter)"
proof -
  from assms(1) obtain k where k: "iter = iter_at (it_start iter) (it_dest iter) k"
    "k < field_count (it_start iter) \<or> k = 0" "it_pos iter = k"
    by (rule iter_validE)
  let ?fs = "it_start iter" and ?d = "it_dest iter"
  show ?thesis
  proof (cases "field_count ?fs = 0")
    case True
    with k have iter: "iter = iter_at ?fs ?d 0" "it_pos iter = 0" by auto
    obtain n' where n: "n = Suc n'" using assms(3) by (cases n) auto
    have "snd (pb_field_iter_next iter) = iter"
      using next_iter_empty [OF True, of ?d] iter(1) by simp
    then show ?thesis
      using found [of iter] missing assms(1) True iter(2) unfolding n
      by (cases "P (it_field iter)") auto
  next
    case False
    with k(2) have kc: "k < field_count ?fs" by auto
    have start: "search_from ?fs k 0 = k" using kc by (simp add: search_from_def)
    have res: "iter_search n P iter k =
      (case find (\<lambda>j. P (field_at ?fs j)) (map (search_from ?fs k) [0..<field_count ?fs]) of
         Some j \<Rightarrow> Some (True, iter_at ?fs ?d j)
       | None \<Rightarrow> Some (False, iter_at ?fs ?d k))"
      using iter_search_from [OF kc, of 0 n P ?d] False assms(2) k(1) start by simp
    show ?thesis
    proof (cases "find (\<lambda>j. P (field_at ?fs j)) (map (search_from ?fs k) [0..<field_count ?fs])")
      case None
      then have "\<forall>j < field_count ?fs. \<not> P (field_at ?fs j)"
        using search_from_range [OF kc] by (auto simp: find_None_iff image_def atLeast0LessThan)
      with None res k False show ?thesis by (intro missing) auto
    next
      case (Some j)
      then have "P (field_at ?fs j)" "j \<in> search_from ?fs k ` {0..<field_count ?fs}"
        by (auto simp: find_Some_iff)
      with search_from_range [OF kc] have "j < field_count ?fs" "P (field_at ?fs j)" by auto
      with Some res k(3) show ?thesis
        by (intro found [of "iter_at ?fs ?d j"]) (auto simp: iter_valid_at it_field_iter_at iter_at_pos)
    qed
  qed
qed

end
