(* ===== verification/Pb_Istream.thy ===== *)
theory Pb_Istream
  imports Pb_Common
begin

text \<open>
  The input side of nanopb (\<^verbatim>\<open>pb_decode.c\<close>, stream and helper functions): input streams over a
  memory buffer or over a user's callback, bounded reads, varints, tags, skipping, and the
  substreams that delimit strings and submessages.

  A C function that returns \<^verbatim>\<open>bool\<close> and writes a result through a pointer is a function that
  returns \<open>Some (Some v, st)\<close> for \<^verbatim>\<open>true\<close> with the value \<open>v\<close>, and \<open>Some (None, st)\<close> for
  \<^verbatim>\<open>false\<close>; \<open>st\<close> is the state it leaves in both cases. \<open>None\<close> is a stuck execution.
\<close>

unbundle bit_operations_syntax

section \<open>Results\<close>

type_synonym ('a, 'st) cres = "('a option \<times> 'st) option"

text \<open>\<^verbatim>\<open>if (!r) return false;\<close> and then go on with the value of \<open>r\<close>.\<close>

definition sbind :: "('a, 'st) cres \<Rightarrow> ('a \<Rightarrow> 'st \<Rightarrow> ('b, 'st) cres) \<Rightarrow> ('b, 'st) cres" where
  "sbind r f = (case r of None \<Rightarrow> None | Some (None, st) \<Rightarrow> Some (None, st)
     | Some (Some a, st) \<Rightarrow> f a st)"

lemma sbind_simps [simp]:
  "sbind None f = None" "sbind (Some (None, st)) f = Some (None, st)"
  "sbind (Some (Some a, st)) f = f a st"
  by (simp_all add: sbind_def)

lemma sbind_cong [fundef_cong]:
  "r = r' \<Longrightarrow> (\<And>a st. r' = Some (Some a, st) \<Longrightarrow> f a st = f' a st) \<Longrightarrow> sbind r f = sbind r' f'"
  by (auto simp: sbind_def split: option.splits)

lemma sbind_eq_Some:
  "sbind r f = Some (v, st') \<longleftrightarrow>
     (v = None \<and> r = Some (None, st')) \<or> (\<exists>a st. r = Some (Some a, st) \<and> f a st = Some (v, st'))"
  by (auto simp: sbind_def split: option.splits)

lemma sbind_eq_None:
  "sbind r f = None \<longleftrightarrow> r = None \<or> (\<exists>a st. r = Some (Some a, st) \<and> f a st = None)"
  by (auto simp: sbind_def split: option.splits)

section \<open>Streams\<close>

text \<open>
  The callback and the state of a stream: \<open>buf_read\<close> over the bytes from the state pointer to
  the end of the buffer, or a user's function over a state of the user's. A user's function that
  reports success has filled the buffer it was given.
\<close>

datatype 's istream_src =
    BufSrc "byte list"
  | UserSrc "'s \<Rightarrow> nat \<Rightarrow> bool \<times> byte list \<times> 's" 's

record 's pb_istream =
  is_src :: "'s istream_src"
  is_bytes_left :: nat
  is_errmsg :: "string option"

text \<open>\<^verbatim>\<open>PB_SET_ERROR\<close> keeps the first message.\<close>

definition set_error :: "string \<Rightarrow> 's pb_istream \<Rightarrow> 's pb_istream" where
  "set_error msg stream = stream\<lparr>is_errmsg := (case is_errmsg stream of None \<Rightarrow> Some msg | Some e \<Rightarrow> Some e)\<rparr>"

abbreviation pb_return_error :: "string \<Rightarrow> 's pb_istream \<Rightarrow> ('a, 's pb_istream) cres" where
  "pb_return_error msg stream \<equiv> Some (None, set_error msg stream)"

text \<open>Reading past the end of the buffer is undefined.\<close>

definition buf_read :: "byte list \<Rightarrow> nat \<Rightarrow> (byte list \<times> byte list) option" where
  "buf_read source count = (if count \<le> length source then Some (take count source, drop count source) else None)"

definition fill_buffer :: "nat \<Rightarrow> byte list \<Rightarrow> byte list" where
  "fill_buffer n bs = take n (bs @ replicate n 0)"

definition stream_callback :: "'s istream_src \<Rightarrow> nat \<Rightarrow> (bool \<times> byte list \<times> 's istream_src) option" where
  "stream_callback src count =
     (case src of
        BufSrc source \<Rightarrow> map_option (\<lambda>(bs, rest). (True, bs, BufSrc rest)) (buf_read source count)
      | UserSrc cb u \<Rightarrow> (case cb u count of (ok, bs, u') \<Rightarrow> Some (ok, fill_buffer count bs, UserSrc cb u')))"

text \<open>The part of \<open>pb_read\<close> from the length check on.\<close>

definition pb_read_some :: "'s pb_istream \<Rightarrow> nat \<Rightarrow> (byte list, 's pb_istream) cres" where
  "pb_read_some stream count =
     (if is_bytes_left stream < count then pb_return_error ''end-of-stream'' stream
      else case stream_callback (is_src stream) count of
          None \<Rightarrow> None
        | Some (ok, bs, src') \<Rightarrow>
            let stream' = stream\<lparr>is_src := src'\<rparr> in
            if \<not> ok then pb_return_error ''io error'' stream'
            else Some (Some bs, stream'\<lparr>is_bytes_left := is_bytes_left stream' - count\<rparr>))"

text \<open>Skipping (\<^verbatim>\<open>buf == NULL\<close>) on a user's stream reads sixteen bytes at a time.\<close>

fun pb_read_skip :: "'s pb_istream \<Rightarrow> nat \<Rightarrow> (byte list, 's pb_istream) cres" where
  "pb_read_skip stream count =
     (if count > 16 then sbind (pb_read_some stream 16) (\<lambda>_ stream'. pb_read_skip stream' (count - 16))
      else pb_read_some stream count)"

declare pb_read_skip.simps [simp del]

definition is_buf_stream :: "'s pb_istream \<Rightarrow> bool" where
  "is_buf_stream stream = (case is_src stream of BufSrc _ \<Rightarrow> True | UserSrc _ _ \<Rightarrow> False)"

text \<open>\<open>buf\<close> says whether a buffer was given; the bytes read are the value.\<close>

definition pb_read :: "'s pb_istream \<Rightarrow> bool \<Rightarrow> nat \<Rightarrow> (byte list, 's pb_istream) cres" where
  "pb_read stream buf count =
     (if \<not> buf \<and> \<not> is_buf_stream stream then pb_read_skip stream count
      else pb_read_some stream count)"

definition pb_readbyte :: "'s pb_istream \<Rightarrow> (byte, 's pb_istream) cres" where
  "pb_readbyte stream =
     (if is_bytes_left stream = 0 then pb_return_error ''end-of-stream'' stream
      else case stream_callback (is_src stream) 1 of
          None \<Rightarrow> None
        | Some (ok, bs, src') \<Rightarrow>
            let stream' = stream\<lparr>is_src := src'\<rparr> in
            if \<not> ok then pb_return_error ''io error'' stream'
            else Some (Some (hd bs), stream'\<lparr>is_bytes_left := is_bytes_left stream' - 1\<rparr>))"

definition pb_istream_from_buffer :: "byte list \<Rightarrow> nat \<Rightarrow> 's pb_istream" where
  "pb_istream_from_buffer buf bufsize =
     \<lparr>is_src = BufSrc buf, is_bytes_left = bufsize, is_errmsg = None\<rparr>"

section \<open>Varints\<close>

text \<open>\<^verbatim>\<open>byte & 0x80\<close>\<close>

definition more_bit :: "byte \<Rightarrow> bool" where
  "more_bit b \<longleftrightarrow> b AND 0x80 \<noteq> 0"

function varint32_loop :: "'s pb_istream \<Rightarrow> nat \<Rightarrow> u32 \<Rightarrow> (u32, 's pb_istream) cres" where
  "varint32_loop stream bitpos result =
     (if bitpos \<ge> 32 then pb_return_error ''varint overflow'' stream
      else sbind (pb_readbyte stream) (\<lambda>byte stream.
        let result = result OR push_bit bitpos (ucast (byte AND 0x7F)); bitpos = bitpos + 7 in
        if more_bit byte then varint32_loop stream bitpos result else Some (Some result, stream)))"
  by pat_completeness auto
termination by (relation "measure (\<lambda>(stream, bitpos, result). 32 - bitpos)") auto

declare varint32_loop.simps [simp del]

definition pb_decode_varint32 :: "'s pb_istream \<Rightarrow> (u32, 's pb_istream) cres" where
  "pb_decode_varint32 stream =
     sbind (pb_readbyte stream) (\<lambda>byte stream.
       if \<not> more_bit byte then Some (Some (ucast byte), stream)
       else varint32_loop stream 7 (ucast (byte AND 0x7F)))"

function varint_loop :: "'s pb_istream \<Rightarrow> nat \<Rightarrow> u64 \<Rightarrow> (u64, 's pb_istream) cres" where
  "varint_loop stream bitpos result =
     (if bitpos \<ge> 64 then pb_return_error ''varint overflow'' stream
      else sbind (pb_readbyte stream) (\<lambda>byte stream.
        let result = result OR push_bit bitpos (ucast (byte AND 0x7F)); bitpos = bitpos + 7 in
        if more_bit byte then varint_loop stream bitpos result else Some (Some result, stream)))"
  by pat_completeness auto
termination by (relation "measure (\<lambda>(stream, bitpos, result). 64 - bitpos)") auto

declare varint_loop.simps [simp del]

definition pb_decode_varint :: "'s pb_istream \<Rightarrow> (u64, 's pb_istream) cres" where
  "pb_decode_varint stream = varint_loop stream 0 0"

lemma pb_read_some_left:
  "pb_read_some stream count = Some (Some bs, stream') \<Longrightarrow>
   count \<le> is_bytes_left stream \<and> is_bytes_left stream' = is_bytes_left stream - count"
  by (auto simp: pb_read_some_def Let_def split: if_splits option.splits)

function pb_skip_varint :: "'s pb_istream \<Rightarrow> (unit, 's pb_istream) cres" where
  "pb_skip_varint stream =
     sbind (pb_read stream True 1) (\<lambda>bs stream.
       if more_bit (hd bs) then pb_skip_varint stream else Some (Some (), stream))"
  by pat_completeness auto
termination
  by (relation "measure is_bytes_left") (auto simp: pb_read_def dest!: pb_read_some_left)

declare pb_skip_varint.simps [simp del]

definition pb_skip_string :: "'s pb_istream \<Rightarrow> (unit, 's pb_istream) cres" where
  "pb_skip_string stream =
     sbind (pb_decode_varint32 stream) (\<lambda>length stream.
     sbind (pb_read stream False (unat length)) (\<lambda>_ stream. Some (Some (), stream)))"

section \<open>Tags and skipping\<close>

text \<open>
  \<open>pb_decode_tag\<close> returns \<^verbatim>\<open>true\<close> with a wire type and a tag, or \<^verbatim>\<open>false\<close> with or without
  \<^verbatim>\<open>eof\<close>.
\<close>

datatype tag_result = TagOk nat nat | TagEof | TagFail

definition pb_decode_tag :: "'s pb_istream \<Rightarrow> (tag_result \<times> 's pb_istream) option" where
  "pb_decode_tag stream =
     (case pb_decode_varint32 stream of
        None \<Rightarrow> None
      | Some (None, stream) \<Rightarrow>
          Some (if is_bytes_left stream = 0 then TagEof else TagFail, stream)
      | Some (Some temp, stream) \<Rightarrow>
          if temp = 0 then Some (TagEof, stream)
          else Some (TagOk (unat (temp AND 7)) (unat (drop_bit 3 temp)), stream))"

definition pb_skip_field :: "'s pb_istream \<Rightarrow> nat \<Rightarrow> (unit, 's pb_istream) cres" where
  "pb_skip_field stream wire_type =
     (if wire_type = PB_WT_VARINT then pb_skip_varint stream
      else if wire_type = PB_WT_64BIT then sbind (pb_read stream False 8) (\<lambda>_ stream. Some (Some (), stream))
      else if wire_type = PB_WT_STRING then pb_skip_string stream
      else if wire_type = PB_WT_32BIT then sbind (pb_read stream False 4) (\<lambda>_ stream. Some (Some (), stream))
      else pb_return_error ''invalid wire_type'' stream)"

text \<open>
  \<open>read_raw_value\<close> copies one scalar; the value is the part of the buffer that was filled
  (\<^verbatim>\<open>*size\<close> bytes). The varint loop has read \<open>buf\<close> so far.
\<close>

function raw_varint_loop :: "'s pb_istream \<Rightarrow> nat \<Rightarrow> byte list \<Rightarrow> (byte list, 's pb_istream) cres" where
  "raw_varint_loop stream max_size buf =
     (if Suc (length buf) > max_size then Some (None, stream)
      else sbind (pb_read stream True 1) (\<lambda>bs stream.
        let buf = buf @ [hd bs] in
        if more_bit (hd bs) then raw_varint_loop stream max_size buf else Some (Some buf, stream)))"
  by pat_completeness auto
termination by (relation "measure (\<lambda>(stream, max_size, buf). max_size - length buf)") auto

declare raw_varint_loop.simps [simp del]

definition read_raw_value :: "'s pb_istream \<Rightarrow> nat \<Rightarrow> nat \<Rightarrow> (byte list, 's pb_istream) cres" where
  "read_raw_value stream wire_type max_size =
     (if wire_type = PB_WT_VARINT then raw_varint_loop stream max_size []
      else if wire_type = PB_WT_64BIT then pb_read stream True 8
      else if wire_type = PB_WT_32BIT then pb_read stream True 4
      else pb_return_error ''invalid wire_type'' stream)"

section \<open>Substreams\<close>

definition pb_make_string_substream :: "'s pb_istream \<Rightarrow> ('s pb_istream, 's pb_istream) cres" where
  "pb_make_string_substream stream =
     sbind (pb_decode_varint32 stream) (\<lambda>size stream.
       let substream = stream in
       if is_bytes_left substream < unat size then pb_return_error ''parent stream too short'' stream
       else Some (Some (substream\<lparr>is_bytes_left := unat size\<rparr>),
                  stream\<lparr>is_bytes_left := is_bytes_left stream - unat size\<rparr>))"

text \<open>
  Closing reads what is left of the substream and copies its state and error message back; if
  that read fails the outer stream keeps its old state.
\<close>

definition pb_close_string_substream ::
  "'s pb_istream \<Rightarrow> 's pb_istream \<Rightarrow> (unit, 's pb_istream) cres" where
  "pb_close_string_substream stream substream =
     (let finish = (\<lambda>sub. Some (Some (), stream\<lparr>is_src := is_src sub, is_errmsg := is_errmsg sub\<rparr>)) in
      if is_bytes_left substream \<noteq> 0 then
        (case pb_read substream False (is_bytes_left substream) of
           None \<Rightarrow> None
         | Some (None, _) \<Rightarrow> Some (None, stream)
         | Some (Some _, sub) \<Rightarrow> finish sub)
      else finish substream)"

section \<open>Scalars\<close>

definition pb_decode_svarint :: "'s pb_istream \<Rightarrow> (u64, 's pb_istream) cres" where
  "pb_decode_svarint stream =
     sbind (pb_decode_varint stream) (\<lambda>value stream.
       if value AND 1 \<noteq> 0 then Some (Some (NOT (drop_bit 1 value)), stream)
       else Some (Some (drop_bit 1 value), stream))"

definition pb_decode_fixed32 :: "'s pb_istream \<Rightarrow> (u32, 's pb_istream) cres" where
  "pb_decode_fixed32 stream =
     sbind (pb_read stream True 4) (\<lambda>bytes stream.
       Some (Some (push_bit 0 (ucast (bytes ! 0)) OR push_bit 8 (ucast (bytes ! 1)) OR
         push_bit 16 (ucast (bytes ! 2)) OR push_bit 24 (ucast (bytes ! 3))), stream))"

definition pb_decode_fixed64 :: "'s pb_istream \<Rightarrow> (u64, 's pb_istream) cres" where
  "pb_decode_fixed64 stream =
     sbind (pb_read stream True 8) (\<lambda>bytes stream.
       Some (Some (push_bit 0 (ucast (bytes ! 0)) OR push_bit 8 (ucast (bytes ! 1)) OR
         push_bit 16 (ucast (bytes ! 2)) OR push_bit 24 (ucast (bytes ! 3)) OR
         push_bit 32 (ucast (bytes ! 4)) OR push_bit 40 (ucast (bytes ! 5)) OR
         push_bit 48 (ucast (bytes ! 6)) OR push_bit 56 (ucast (bytes ! 7))), stream))"

section \<open>Buffer streams\<close>

text \<open>The next bytes of a buffer stream are \<open>xs\<close>, and they lie within its limit.\<close>

definition stream_at :: "'s pb_istream \<Rightarrow> byte list \<Rightarrow> bool" where
  "stream_at stream xs \<longleftrightarrow>
     (\<exists>rest. is_src stream = BufSrc (xs @ rest)) \<and> length xs \<le> is_bytes_left stream"

definition advance :: "nat \<Rightarrow> 's pb_istream \<Rightarrow> 's pb_istream" where
  "advance n stream = stream\<lparr>
     is_src := (case is_src stream of BufSrc bs \<Rightarrow> BufSrc (drop n bs) | UserSrc cb u \<Rightarrow> UserSrc cb u),
     is_bytes_left := is_bytes_left stream - n\<rparr>"

lemma advance_0 [simp]: "advance 0 stream = stream"
  by (simp add: advance_def split: istream_src.splits)

lemma advance_advance [simp]: "advance k (advance n stream) = advance (n + k) stream"
  by (simp add: advance_def add.commute split: istream_src.splits)

lemma advance_left [simp]: "is_bytes_left (advance n stream) = is_bytes_left stream - n"
  by (simp add: advance_def)

lemma advance_errmsg [simp]: "is_errmsg (advance n stream) = is_errmsg stream"
  by (simp add: advance_def)

lemma stream_at_left: "stream_at stream xs \<Longrightarrow> length xs \<le> is_bytes_left stream"
  by (simp add: stream_at_def)

lemma stream_at_Nil: "stream_at stream [] \<longleftrightarrow> is_buf_stream stream"
  by (auto simp: stream_at_def is_buf_stream_def split: istream_src.splits)

lemma stream_at_appendD: "stream_at stream (xs @ ys) \<Longrightarrow> stream_at stream xs"
  by (auto simp: stream_at_def)

lemma stream_at_advance: "stream_at stream (xs @ ys) \<Longrightarrow> stream_at (advance (length xs) stream) ys"
  by (auto simp: stream_at_def advance_def)

lemma stream_at_advance_Cons: "stream_at stream (x # ys) \<Longrightarrow> stream_at (advance (Suc 0) stream) ys"
  using stream_at_advance [of stream "[x]" ys] by simp

lemma stream_at_advanceI:
  "stream_at stream (xs @ ys) \<Longrightarrow> length xs = n \<Longrightarrow> stream_at (advance n stream) ys"
  using stream_at_advance by blast

lemma pb_read_some_at: "stream_at stream xs \<Longrightarrow> length xs = n \<Longrightarrow>
   pb_read_some stream n = Some (Some xs, advance n stream)"
  by (auto simp: stream_at_def pb_read_some_def stream_callback_def buf_read_def advance_def Let_def)

lemma stream_at_is_buf: "stream_at stream xs \<Longrightarrow> is_buf_stream stream"
  by (auto simp: stream_at_def is_buf_stream_def)

lemma pb_read_at [stream_simps]: "stream_at stream xs \<Longrightarrow> length xs = n \<Longrightarrow>
   pb_read stream buf n = Some (Some xs, advance n stream)"
  by (simp add: pb_read_def stream_at_is_buf pb_read_some_at)

lemma pb_readbyte_at [stream_simps]: "stream_at stream (x # xs) \<Longrightarrow>
   pb_readbyte stream = Some (Some x, advance (Suc 0) stream)"
  by (auto simp: stream_at_def pb_readbyte_def stream_callback_def buf_read_def advance_def Let_def)

lemma pb_readbyte_eof [stream_simps]: "is_bytes_left stream = 0 \<Longrightarrow>
   pb_readbyte stream = pb_return_error ''end-of-stream'' stream"
  by (simp add: pb_readbyte_def)

lemma stream_at_from_buffer: "stream_at (pb_istream_from_buffer xs (length xs)) xs"
  by (simp add: stream_at_def pb_istream_from_buffer_def)

section \<open>The value of a varint\<close>

text \<open>Little-endian groups of seven bits, in a word of any width.\<close>

primrec varint_digits :: "byte list \<Rightarrow> 'a :: len word" where
  "varint_digits [] = 0"
| "varint_digits (b # bs) = ucast (b AND 0x7F) OR push_bit 7 (varint_digits bs)"

lemma more_bit_iff: "more_bit b \<longleftrightarrow> bit b 7"
proof -
  have "b AND 0x80 = (if bit b 7 then 0x80 else 0)"
    by (rule byte_bits_eqI) (auto simp: bit_simps numeral_2_eq_2 [symmetric] numeral_3_eq_3 [symmetric])
  then show ?thesis by (simp add: more_bit_def)
qed

lemma varint_loop_digits:
  "\<forall>x \<in> set xs. more_bit x \<Longrightarrow> \<not> more_bit b \<Longrightarrow> bitpos + 7 * length xs < 64 \<Longrightarrow>
   stream_at stream (xs @ [b]) \<Longrightarrow>
   varint_loop stream bitpos r =
     Some (Some (r OR push_bit bitpos (varint_digits (xs @ [b]))), advance (Suc (length xs)) stream)"
proof (induction xs arbitrary: stream bitpos r)
  case Nil
  then show ?case
    by (simp add: varint_loop.simps [of stream] stream_simps Let_def)
next
  case (Cons x xs)
  have "stream_at (advance (Suc 0) stream) (xs @ [b])"
    using Cons.prems(4) by (simp add: stream_at_advance_Cons)
  then have "varint_loop (advance (Suc 0) stream) (bitpos + 7) r' =
     Some (Some (r' OR push_bit (bitpos + 7) (varint_digits (xs @ [b]))), advance (Suc (length (x # xs))) stream)" for r'
    using Cons.IH [of "bitpos + 7" "advance (Suc 0) stream" r'] Cons.prems by simp
  then show ?case
    using Cons.prems
    by (simp add: varint_loop.simps [of stream] stream_simps Let_def push_bit_or or.assoc add.commute)
qed

lemma varint_loop_overflow:
  "\<forall>x \<in> set xs. more_bit x \<Longrightarrow> bitpos < 64 \<or> xs = [] \<Longrightarrow> 64 \<le> bitpos + 7 * length xs \<Longrightarrow>
   bitpos + 7 * length xs < 71 \<Longrightarrow> stream_at stream xs \<Longrightarrow>
   varint_loop stream bitpos r = pb_return_error ''varint overflow'' (advance (length xs) stream)"
proof (induction xs arbitrary: stream bitpos r)
  case Nil
  then show ?case by (simp add: varint_loop.simps [of stream])
next
  case (Cons x xs)
  have "stream_at (advance (Suc 0) stream) xs"
    using Cons.prems(5) by (simp add: stream_at_advance_Cons)
  then have "varint_loop (advance (Suc 0) stream) (bitpos + 7) r' =
     pb_return_error ''varint overflow'' (advance (length (x # xs)) stream)" for r'
    using Cons.IH [of "bitpos + 7" "advance (Suc 0) stream" r'] Cons.prems by (cases xs) auto
  then show ?case
    using Cons.prems
    by (simp add: varint_loop.simps [of stream] stream_simps Let_def add.commute)
qed

lemma varint32_loop_digits:
  "\<forall>x \<in> set xs. more_bit x \<Longrightarrow> \<not> more_bit b \<Longrightarrow> bitpos + 7 * length xs < 32 \<Longrightarrow>
   stream_at stream (xs @ [b]) \<Longrightarrow>
   varint32_loop stream bitpos r =
     Some (Some (r OR push_bit bitpos (varint_digits (xs @ [b]))), advance (Suc (length xs)) stream)"
proof (induction xs arbitrary: stream bitpos r)
  case Nil
  then show ?case
    by (simp add: varint32_loop.simps [of stream] stream_simps Let_def)
next
  case (Cons x xs)
  have "stream_at (advance (Suc 0) stream) (xs @ [b])"
    using Cons.prems(4) by (simp add: stream_at_advance_Cons)
  then have "varint32_loop (advance (Suc 0) stream) (bitpos + 7) r' =
     Some (Some (r' OR push_bit (bitpos + 7) (varint_digits (xs @ [b]))), advance (Suc (length (x # xs))) stream)" for r'
    using Cons.IH [of "bitpos + 7" "advance (Suc 0) stream" r'] Cons.prems by simp
  then show ?case
    using Cons.prems
    by (simp add: varint32_loop.simps [of stream] stream_simps Let_def push_bit_or or.assoc add.commute)
qed

lemma varint32_loop_overflow:
  "\<forall>x \<in> set xs. more_bit x \<Longrightarrow> bitpos < 32 \<or> xs = [] \<Longrightarrow> 32 \<le> bitpos + 7 * length xs \<Longrightarrow>
   bitpos + 7 * length xs < 39 \<Longrightarrow> stream_at stream xs \<Longrightarrow>
   varint32_loop stream bitpos r = pb_return_error ''varint overflow'' (advance (length xs) stream)"
proof (induction xs arbitrary: stream bitpos r)
  case Nil
  then show ?case by (simp add: varint32_loop.simps [of stream])
next
  case (Cons x xs)
  have "stream_at (advance (Suc 0) stream) xs"
    using Cons.prems(5) by (simp add: stream_at_advance_Cons)
  then have "varint32_loop (advance (Suc 0) stream) (bitpos + 7) r' =
     pb_return_error ''varint overflow'' (advance (length (x # xs)) stream)" for r'
    using Cons.IH [of "bitpos + 7" "advance (Suc 0) stream" r'] Cons.prems by (cases xs) auto
  then show ?case
    using Cons.prems
    by (simp add: varint32_loop.simps [of stream] stream_simps Let_def add.commute)
qed

lemma pb_decode_varint_digits:
  assumes "\<forall>x \<in> set xs. more_bit x" "\<not> more_bit b" "length xs < 10" "stream_at stream (xs @ [b])"
  shows "pb_decode_varint stream =
    Some (Some (varint_digits (xs @ [b])), advance (Suc (length xs)) stream)"
  using varint_loop_digits [OF assms(1,2) _ assms(4), of 0 0] assms(3)
  by (simp add: pb_decode_varint_def)

lemma pb_decode_varint_overflow:
  assumes "\<forall>x \<in> set xs. more_bit x" "length xs = 10" "stream_at stream xs"
  shows "pb_decode_varint stream = pb_return_error ''varint overflow'' (advance 10 stream)"
  using varint_loop_overflow [OF assms(1) _ _ _ assms(3), of 0 0] assms(2)
  by (simp add: pb_decode_varint_def)

lemma pb_decode_varint32_digits:
  assumes "\<forall>x \<in> set xs. more_bit x" "\<not> more_bit b" "length xs < 5" "stream_at stream (xs @ [b])"
  shows "pb_decode_varint32 stream =
    Some (Some (varint_digits (xs @ [b])), advance (Suc (length xs)) stream)"
proof (cases xs)
  case Nil
  have "b AND 0x7F = b" if "\<not> more_bit b" for b :: byte
    using that by (intro byte_bits_eqI)
      (simp_all add: more_bit_iff bit_simps numeral_2_eq_2 [symmetric] numeral_3_eq_3 [symmetric])
  with Nil assms show ?thesis by (simp add: pb_decode_varint32_def stream_simps)
next
  case (Cons x ys)
  then have "stream_at (advance (Suc 0) stream) (ys @ [b])"
    using assms(4) by (simp add: stream_at_advance_Cons)
  with Cons assms varint32_loop_digits [of ys b 7 "advance (Suc 0) stream" "ucast (x AND 0x7F)"]
  show ?thesis by (simp add: pb_decode_varint32_def stream_simps)
qed

lemma pb_decode_varint32_overflow:
  assumes "\<forall>x \<in> set xs. more_bit x" "length xs = 5" "stream_at stream xs"
  shows "pb_decode_varint32 stream = pb_return_error ''varint overflow'' (advance 5 stream)"
proof -
  obtain x ys where xs: "xs = x # ys" using assms(2) by (cases xs) auto
  then have "stream_at (advance (Suc 0) stream) ys"
    using assms(3) by (simp add: stream_at_advance_Cons)
  with xs assms varint32_loop_overflow [of ys 7 "advance (Suc 0) stream" "ucast (x AND 0x7F)"]
  show ?thesis by (simp add: pb_decode_varint32_def stream_simps)
qed

end
