(* ===== verification/Pb_Ostream.thy ===== *)
theory Pb_Ostream
  imports Pb_Istream
begin

text \<open>
  The output side of nanopb (\<^verbatim>\<open>pb_encode.c\<close>, stream and helper functions): output streams into a
  memory buffer, into a user's callback, or into nothing (a sizing stream, which only counts), and
  the writers of varints, fixed-width numbers, tags and strings.
\<close>

unbundle bit_operations_syntax

section \<open>Streams\<close>

text \<open>
  \<open>NoDst\<close> is a NULL callback. For \<open>buf_write\<close> the state is what has been written through the
  state pointer so far.
\<close>

datatype 's ostream_dst =
    NoDst
  | BufDst "byte list"
  | UserDst "'s \<Rightarrow> byte list \<Rightarrow> bool \<times> 's" 's

record 's pb_ostream =
  os_dst :: "'s ostream_dst"
  os_max_size :: nat
  os_bytes_written :: nat
  os_errmsg :: "string option"

definition oset_error :: "string \<Rightarrow> 's pb_ostream \<Rightarrow> 's pb_ostream" where
  "oset_error msg stream = stream\<lparr>os_errmsg := (case os_errmsg stream of None \<Rightarrow> Some msg | Some e \<Rightarrow> Some e)\<rparr>"

abbreviation pb_oreturn_error :: "string \<Rightarrow> 's pb_ostream \<Rightarrow> ('a, 's pb_ostream) cres" where
  "pb_oreturn_error msg stream \<equiv> Some (None, oset_error msg stream)"

definition PB_OSTREAM_SIZING :: "'s pb_ostream" where
  "PB_OSTREAM_SIZING = \<lparr>os_dst = NoDst, os_max_size = 0, os_bytes_written = 0, os_errmsg = None\<rparr>"

definition pb_ostream_from_buffer :: "nat \<Rightarrow> 's pb_ostream" where
  "pb_ostream_from_buffer bufsize =
     \<lparr>os_dst = BufDst [], os_max_size = bufsize, os_bytes_written = 0, os_errmsg = None\<rparr>"

definition is_sizing :: "'s pb_ostream \<Rightarrow> bool" where
  "is_sizing stream = (case os_dst stream of NoDst \<Rightarrow> True | _ \<Rightarrow> False)"

definition buf_write :: "byte list \<Rightarrow> byte list \<Rightarrow> byte list" where
  "buf_write dest buf = dest @ buf"

text \<open>
  The data is a list of \<open>count\<close> bytes, or \<open>None\<close> for a NULL pointer, which only a sizing stream
  or an empty write may be given.
\<close>

definition pb_write :: "'s pb_ostream \<Rightarrow> byte list option \<Rightarrow> nat \<Rightarrow> (unit, 's pb_ostream) cres" where
  "pb_write stream buf count =
     (let finish = (\<lambda>s. Some (Some (), s\<lparr>os_bytes_written := size_add (os_bytes_written s) count\<rparr>));
          full = os_max_size stream < size_add (os_bytes_written stream) count;
          data = (case buf of Some bs \<Rightarrow> Some bs | None \<Rightarrow> if count = 0 then Some [] else None) in
      case os_dst stream of
        NoDst \<Rightarrow> finish stream
      | BufDst dest \<Rightarrow>
          if full then pb_oreturn_error ''stream full'' stream
          else (case data of None \<Rightarrow> None
                | Some bs \<Rightarrow> finish (stream\<lparr>os_dst := BufDst (buf_write dest bs)\<rparr>))
      | UserDst cb u \<Rightarrow>
          if full then pb_oreturn_error ''stream full'' stream
          else (case data of None \<Rightarrow> None
                | Some bs \<Rightarrow>
                    (case cb u bs of (ok, u') \<Rightarrow>
                       let stream' = stream\<lparr>os_dst := UserDst cb u'\<rparr> in
                       if \<not> ok then pb_oreturn_error ''io error'' stream' else finish stream')))"

section \<open>Numbers\<close>

text \<open>The loop that fills the buffer of \<open>pb_encode_varint\<close>, seven bits at a time.\<close>

function varint_groups :: "u64 \<Rightarrow> byte list" where
  "varint_groups value =
     (if value = 0 then [] else (ucast (value AND 0x7F) OR 0x80) # varint_groups (drop_bit 7 value))"
  by pat_completeness auto
termination
proof (relation "measure unat", simp)
  fix v :: u64
  assume "v \<noteq> 0"
  then have "0 < unat v" by (simp add: unat_gt_0)
  then show "(drop_bit 7 v, v) \<in> measure unat"
    by (simp add: drop_bit_eq_div unat_div)
qed

declare varint_groups.simps [simp del]

definition pb_encode_varint :: "'s pb_ostream \<Rightarrow> u64 \<Rightarrow> (unit, 's pb_ostream) cres" where
  "pb_encode_varint stream value =
     (if value \<le> 0x7F then pb_write stream (Some [ucast value]) 1
      else
        let buffer = varint_groups value; i = length buffer;
            buffer = buffer[i - 1 := buffer ! (i - 1) AND 0x7F] in
        pb_write stream (Some buffer) i)"

text \<open>The signed argument is a two's complement word.\<close>

definition pb_encode_svarint :: "'s pb_ostream \<Rightarrow> u64 \<Rightarrow> (unit, 's pb_ostream) cres" where
  "pb_encode_svarint stream value =
     (let zigzagged = (if sint value < 0 then NOT (push_bit 1 value) else push_bit 1 value) in
      pb_encode_varint stream zigzagged)"

definition pb_encode_fixed32 :: "'s pb_ostream \<Rightarrow> u32 \<Rightarrow> (unit, 's pb_ostream) cres" where
  "pb_encode_fixed32 stream val =
     pb_write stream
       (Some [ucast (val AND 0xFF), ucast (drop_bit 8 val AND 0xFF), ucast (drop_bit 16 val AND 0xFF),
              ucast (drop_bit 24 val AND 0xFF)]) 4"

definition pb_encode_fixed64 :: "'s pb_ostream \<Rightarrow> u64 \<Rightarrow> (unit, 's pb_ostream) cres" where
  "pb_encode_fixed64 stream val =
     pb_write stream
       (Some [ucast (val AND 0xFF), ucast (drop_bit 8 val AND 0xFF), ucast (drop_bit 16 val AND 0xFF),
              ucast (drop_bit 24 val AND 0xFF), ucast (drop_bit 32 val AND 0xFF),
              ucast (drop_bit 40 val AND 0xFF), ucast (drop_bit 48 val AND 0xFF),
              ucast (drop_bit 56 val AND 0xFF)]) 8"

section \<open>Tags and strings\<close>

definition pb_encode_tag :: "'s pb_ostream \<Rightarrow> nat \<Rightarrow> nat \<Rightarrow> (unit, 's pb_ostream) cres" where
  "pb_encode_tag stream wiretype field_number =
     (let tag = push_bit 3 (of_nat field_number :: u64) OR of_nat wiretype in
      pb_encode_varint stream tag)"

definition pb_encode_tag_for_field :: "'s pb_ostream \<Rightarrow> pb_field \<Rightarrow> (unit, 's pb_ostream) cres" where
  "pb_encode_tag_for_field stream field =
     (let lt = PB_LTYPE (f_type field) in
      if lt = PB_LTYPE_VARINT \<or> lt = PB_LTYPE_UVARINT \<or> lt = PB_LTYPE_SVARINT
        then pb_encode_tag stream PB_WT_VARINT (f_tag field)
      else if lt = PB_LTYPE_FIXED32 then pb_encode_tag stream PB_WT_32BIT (f_tag field)
      else if lt = PB_LTYPE_FIXED64 then pb_encode_tag stream PB_WT_64BIT (f_tag field)
      else if lt = PB_LTYPE_BYTES \<or> lt = PB_LTYPE_STRING \<or> lt = PB_LTYPE_SUBMESSAGE
          \<or> lt = PB_LTYPE_FIXED_LENGTH_BYTES
        then pb_encode_tag stream PB_WT_STRING (f_tag field)
      else pb_oreturn_error ''invalid field type'' stream)"

definition pb_encode_string :: "'s pb_ostream \<Rightarrow> byte list option \<Rightarrow> nat \<Rightarrow> (unit, 's pb_ostream) cres" where
  "pb_encode_string stream buffer len =
     sbind (pb_encode_varint stream (of_nat len)) (\<lambda>_ stream. pb_write stream buffer len)"

section \<open>What a writer emits\<close>

text \<open>The stream after \<open>bs\<close> has been written, and the streams that have room for \<open>n\<close> bytes.\<close>

definition emit :: "byte list \<Rightarrow> 's pb_ostream \<Rightarrow> 's pb_ostream" where
  "emit bs stream = stream\<lparr>
     os_dst := (case os_dst stream of BufDst acc \<Rightarrow> BufDst (acc @ bs) | dst \<Rightarrow> dst),
     os_bytes_written := size_add (os_bytes_written stream) (length bs)\<rparr>"

definition has_room :: "'s pb_ostream \<Rightarrow> nat \<Rightarrow> bool" where
  "has_room stream n \<longleftrightarrow> (case os_dst stream of
      NoDst \<Rightarrow> True
    | BufDst acc \<Rightarrow> os_bytes_written stream + n \<le> os_max_size stream \<and> os_max_size stream < 2 ^ 64
    | UserDst _ _ \<Rightarrow> False)"

lemma emit_emit [simp]: "emit cs (emit bs stream) = emit (bs @ cs) stream"
  by (simp add: emit_def size_add_assoc split: ostream_dst.splits)

lemma has_room_mono: "has_room stream n \<Longrightarrow> k \<le> n \<Longrightarrow> has_room stream k"
  by (auto simp: has_room_def split: ostream_dst.splits)

lemma has_room_emit: "has_room stream (length bs + n) \<Longrightarrow> has_room (emit bs stream) n"
  by (auto simp: has_room_def emit_def split: ostream_dst.splits)

lemma pb_write_emit [stream_simps]:
  "has_room stream n \<Longrightarrow> length bs = n \<Longrightarrow> pb_write stream (Some bs) n = Some (Some (), emit bs stream)"
  by (auto simp: pb_write_def has_room_def emit_def buf_write_def Let_def split: ostream_dst.splits)

lemma pb_write_null_emit [stream_simps]:
  "has_room stream 0 \<Longrightarrow> pb_write stream None 0 = Some (Some (), emit [] stream)"
  by (auto simp: pb_write_def has_room_def emit_def buf_write_def Let_def split: ostream_dst.splits)

lemma emit_is_sizing [simp]: "is_sizing (emit bs stream) = is_sizing stream"
  by (auto simp: is_sizing_def emit_def split: ostream_dst.splits)

lemma has_room_sizing: "is_sizing stream \<Longrightarrow> has_room stream n"
  by (auto simp: has_room_def is_sizing_def split: ostream_dst.splits)

section \<open>Varints\<close>

function varint_bytes :: "u64 \<Rightarrow> byte list" where
  "varint_bytes v =
     (if v \<le> 0x7F then [ucast v] else (ucast (v AND 0x7F) OR 0x80) # varint_bytes (drop_bit 7 v))"
  by pat_completeness auto
termination
proof (relation "measure unat", simp)
  fix v :: u64
  assume "\<not> v \<le> 0x7F"
  then have "0 < unat v" by (auto simp: unat_gt_0)
  then show "(drop_bit 7 v, v) \<in> measure unat"
    by (simp add: drop_bit_eq_div unat_div)
qed

declare varint_bytes.simps [simp del]

lemma drop_bit_7_eq_0: "drop_bit 7 v = 0 \<longleftrightarrow> (v :: u64) \<le> 0x7F"
proof -
  have "drop_bit 7 v = 0 \<longleftrightarrow> unat v div 128 = 0"
    by (simp add: drop_bit_eq_div unat_eq_zero [symmetric] unat_div)
  also have "\<dots> \<longleftrightarrow> unat v \<le> unat (0x7F :: u64)" by (simp add: div_eq_0_iff) arith
  finally show ?thesis by (simp only: word_le_nat_alt)
qed

lemma and_7F_small: "v \<le> 0x7F \<Longrightarrow> ucast ((v :: u64) AND 0x7F) = (ucast v :: byte)"
proof -
  assume "v \<le> 0x7F"
  then have "v = take_bit 7 v" using drop_bit_7_eq_0 [of v] bits_ident [of 7 v] by simp
  moreover have "v AND 0x7F = take_bit 7 v" by (simp add: take_bit_eq_mask mask_eq_exp_minus_1)
  ultimately show ?thesis by simp
qed

lemma bit_127_int: "bit (127 :: int) n \<longleftrightarrow> n < 7"
proof -
  have "(127 :: int) = mask 7" by (simp add: mask_eq_exp_minus_1)
  then show ?thesis by (simp only: bit_mask_iff) simp
qed

lemma bit_128_int: "bit (128 :: int) n \<longleftrightarrow> n = 7"
proof -
  have "(128 :: int) = 2 ^ 7" by simp
  then show ?thesis by (simp only: bit_exp_iff) auto
qed

lemma bit_7F: "bit (0x7F :: 'a :: len word) n \<longleftrightarrow> n < 7 \<and> n < LENGTH('a)"
  by (auto simp: bit_127_int)

lemma bit_80: "bit (0x80 :: byte) n \<longleftrightarrow> n = 7"
  by (auto simp: bit_128_int)

lemma bit_small_varint: "v \<le> 0x7F \<Longrightarrow> bit (v :: u64) n \<Longrightarrow> n < 7"
proof (rule ccontr)
  assume v: "v \<le> 0x7F" "bit v n" "\<not> n < 7"
  then have "drop_bit 7 v = 0" by (simp add: drop_bit_7_eq_0)
  then have "\<not> bit (drop_bit 7 v) (n - 7)" by simp
  with v show False by (simp add: bit_drop_bit_eq)
qed

lemma last_group: "(ucast (v AND 0x7F) OR 0x80) AND 0x7F = (ucast ((v :: u64) AND 0x7F) :: byte)"
  by (rule byte_bits_eqI) (simp_all add: bit_simps numeral_2_eq_2 [symmetric] numeral_3_eq_3 [symmetric])

lemma varint_groups_bytes:
  "v \<noteq> 0 \<Longrightarrow> let buffer = varint_groups v; i = length buffer in
     buffer[i - 1 := buffer ! (i - 1) AND 0x7F] = varint_bytes v \<and> i \<noteq> 0"
proof (induction v rule: varint_bytes.induct)
  case (1 v)
  show ?case
  proof (cases "v \<le> 0x7F")
    case True
    then have "drop_bit 7 v = 0" by (simp add: drop_bit_7_eq_0)
    then have "varint_groups v = [ucast (v AND 0x7F) OR 0x80]"
      using "1.prems" by (simp add: varint_groups.simps [of v] varint_groups.simps [of 0])
    with True show ?thesis
      using last_group [of v] and_7F_small [OF True] by (simp add: varint_bytes.simps [of v] Let_def)
  next
    case False
    then have "drop_bit 7 v \<noteq> 0" by (simp add: drop_bit_7_eq_0)
    with False "1.IH" show ?thesis
      using "1.prems" by (auto simp: varint_groups.simps [of v] varint_bytes.simps [of v] Let_def
          nth_Cons split: nat.splits)
  qed
qed

lemma length_varint_groups: "v \<noteq> 0 \<Longrightarrow> length (varint_groups v) = length (varint_bytes v)"
  using varint_groups_bytes [of v] by (metis (no_types, lifting) length_list_update)

lemma pb_encode_varint_bytes:
  "pb_encode_varint stream v = pb_write stream (Some (varint_bytes v)) (length (varint_bytes v))"
proof (cases "v \<le> 0x7F")
  case True
  then show ?thesis by (simp add: pb_encode_varint_def varint_bytes.simps [of v])
next
  case False
  then have "v \<noteq> 0" by auto
  with False show ?thesis
    using varint_groups_bytes [of v] length_varint_groups [of v]
    by (simp add: pb_encode_varint_def Let_def)
qed

lemma pb_encode_varint_emit [stream_simps]:
  "has_room stream (length (varint_bytes v)) \<Longrightarrow>
   pb_encode_varint stream v = Some (Some (), emit (varint_bytes v) stream)"
  by (simp add: pb_encode_varint_bytes pb_write_emit)

lemma varint_bytes_nonempty [simp]: "varint_bytes v \<noteq> []"
  by (simp add: varint_bytes.simps [of v])

lemma varint_bytes_length: "unat v < 2 ^ (7 * n) \<Longrightarrow> 0 < n \<Longrightarrow> length (varint_bytes v) \<le> n"
proof (induction v arbitrary: n rule: varint_bytes.induct)
  case (1 v)
  show ?case
  proof (cases "v \<le> 0x7F")
    case True
    with "1.prems" show ?thesis by (simp add: varint_bytes.simps [of v])
  next
    case False
    then have big: "127 < unat v" by (simp add: word_le_nat_alt)
    have n: "1 < n"
    proof (rule ccontr)
      assume "\<not> 1 < n"
      with "1.prems" have "n = 1" by simp
      with big "1.prems"(1) show False by simp
    qed
    then obtain k where k: "n = Suc k" "0 < k" by (cases n) auto
    have "unat (drop_bit 7 v) < 2 ^ (7 * k)"
      using "1.prems"(1) k by (simp add: drop_bit_eq_div unat_div power_add less_mult_imp_div_less mult.commute)
    with "1.IH" [OF False] k False show ?thesis
      by (simp add: varint_bytes.simps [of v])
  qed
qed

lemma varint_bytes_length_10: "length (varint_bytes v) \<le> 10"
proof (rule varint_bytes_length)
  have "unat v < 2 ^ LENGTH(64)" by (rule unsigned_less)
  then show "unat v < 2 ^ (7 * 10)" by simp
qed simp

lemma varint_bytes_length_5: "unat v < 2 ^ 32 \<Longrightarrow> length (varint_bytes v) \<le> 5"
  by (rule varint_bytes_length) simp_all

text \<open>The bytes of a varint: all but the last one have the continuation bit.\<close>

lemma varint_bytes_shape:
  obtains xs b where "varint_bytes v = xs @ [b]" "\<forall>x \<in> set xs. more_bit x" "\<not> more_bit b"
proof -
  have "\<exists>xs b. varint_bytes v = xs @ [b] \<and> (\<forall>x \<in> set xs. more_bit x) \<and> \<not> more_bit b"
  proof (induction v rule: varint_bytes.induct)
    case (1 v)
    show ?case
    proof (cases "v \<le> 0x7F")
      case True
      then have "drop_bit 7 v = 0" by (simp add: drop_bit_7_eq_0)
      then have "\<not> bit (drop_bit 7 v) 0" by simp
      then have "\<not> more_bit (ucast v)"
        by (simp add: more_bit_iff bit_simps)
      with True show ?thesis
        by (intro exI [of _ "[]"] exI [of _ "ucast v"]) (simp add: varint_bytes.simps [of v])
    next
      case False
      with "1.IH" obtain xs b where "varint_bytes (drop_bit 7 v) = xs @ [b]"
        "\<forall>x \<in> set xs. more_bit x" "\<not> more_bit b" by blast
      moreover have "more_bit (ucast (v AND 0x7F) OR 0x80)"
        by (simp add: more_bit_iff bit_simps)
      ultimately show ?thesis
        using False
        by (intro exI [of _ "(ucast (v AND 0x7F) OR 0x80) # xs"] exI [of _ b])
          (simp add: varint_bytes.simps [of v])
    qed
  qed
  with that show ?thesis by blast
qed

lemma varint_digits_bytes: "varint_digits (varint_bytes v) = (ucast v :: 'a :: len word)"
proof (induction v rule: varint_bytes.induct)
  case (1 v)
  show ?case
  proof (cases "v \<le> 0x7F")
    case True
    then show ?thesis
      by (intro bit_word_eqI)
        (auto simp: varint_bytes.simps [of v] bit_and_iff bit_ucast_iff bit_127_int dest: bit_small_varint)
  next
    case False
    have "ucast ((ucast (v AND 0x7F) OR 0x80 :: byte) AND 0x7F) OR push_bit 7 (ucast (drop_bit 7 v)) =
        (ucast v :: 'a word)"
    proof (rule bit_word_eqI)
      fix n assume "n < LENGTH('a)"
      then show "bit (ucast ((ucast (v AND 0x7F) OR 0x80 :: byte) AND 0x7F) OR
            push_bit 7 (ucast (drop_bit 7 v)) :: 'a word) n =
          bit (ucast v :: 'a word) n"
        by (cases "n < 7")
          (auto simp: bit_and_iff bit_or_iff bit_ucast_iff bit_push_bit_iff bit_drop_bit_eq
            bit_127_int bit_128_int dest: bit_imp_le_length)
    qed
    with "1.IH" [OF False] False show ?thesis
      by (simp only: varint_bytes.simps [of v] if_False varint_digits.simps)
  qed
qed

end
