(* ===== verification/Pb_Codec.thy ===== *)
theory Pb_Codec
  imports Pb_Ostream
begin

text \<open>
  What nanopb's writers emit, its readers read back: the scalar codecs (varint, zigzag, fixed
  width), tags, and the limits of \<open>pb_decode_varint32\<close>.
\<close>

unbundle bit_operations_syntax

section \<open>Varints\<close>

lemma pb_decode_varint_bytes [stream_simps]:
  assumes "stream_at stream (varint_bytes v)"
  shows "pb_decode_varint stream = Some (Some v, advance (length (varint_bytes v)) stream)"
proof -
  obtain xs b where xs: "varint_bytes v = xs @ [b]" "\<forall>x \<in> set xs. more_bit x" "\<not> more_bit b"
    by (rule varint_bytes_shape)
  then have "length xs < 10" using varint_bytes_length_10 [of v] by simp
  with assms xs pb_decode_varint_digits [OF xs(2,3), of stream] varint_digits_bytes [of v, where 'a = 64]
  show ?thesis by simp
qed

lemma pb_decode_varint32_bytes [stream_simps]:
  assumes "stream_at stream (varint_bytes v)" "unat v < 2 ^ 32"
  shows "pb_decode_varint32 stream = Some (Some (ucast v), advance (length (varint_bytes v)) stream)"
proof -
  obtain xs b where xs: "varint_bytes v = xs @ [b]" "\<forall>x \<in> set xs. more_bit x" "\<not> more_bit b"
    by (rule varint_bytes_shape)
  then have "length xs < 5" using varint_bytes_length_5 [OF assms(2)] by simp
  with assms xs pb_decode_varint32_digits [OF xs(2,3), of stream] varint_digits_bytes [of v, where 'a = 32]
  show ?thesis by simp
qed

text \<open>A varint is skipped byte by byte.\<close>

lemma pb_skip_varint_digits:
  "\<forall>x \<in> set xs. more_bit x \<Longrightarrow> \<not> more_bit b \<Longrightarrow> stream_at stream (xs @ [b]) \<Longrightarrow>
   pb_skip_varint stream = Some (Some (), advance (Suc (length xs)) stream)"
proof (induction xs arbitrary: stream)
  case Nil
  then show ?case
    by (simp add: pb_skip_varint.simps [of stream] pb_read_at [of stream "[b]"])
next
  case (Cons x xs)
  have at: "stream_at stream [x]" using Cons.prems(3) stream_at_appendD [of stream "[x]"] by simp
  have "stream_at (advance (Suc 0) stream) (xs @ [b])"
    using Cons.prems(3) by (simp add: stream_at_advance_Cons)
  with Cons show ?case
    by (simp add: pb_skip_varint.simps [of stream] pb_read_at [OF at])
qed

lemma pb_skip_varint_bytes [stream_simps]:
  "stream_at stream (varint_bytes v) \<Longrightarrow>
   pb_skip_varint stream = Some (Some (), advance (length (varint_bytes v)) stream)"
  by (rule varint_bytes_shape [of v]) (simp add: pb_skip_varint_digits)

section \<open>Zigzag\<close>

definition zigzag :: "u64 \<Rightarrow> u64" where
  "zigzag v = (if sint v < 0 then NOT (push_bit 1 v) else push_bit 1 v)"

lemma pb_encode_svarint_zigzag: "pb_encode_svarint stream v = pb_encode_varint stream (zigzag v)"
  by (simp add: pb_encode_svarint_def zigzag_def)

lemma sint_negative_bit: "sint (v :: u64) < 0 \<longleftrightarrow> bit v 63"
  by (simp add: sint_uint signed_take_bit_negative_iff bit_uint_iff)

lemma and_1_bit: "(x :: u64) AND 1 \<noteq> 0 \<longleftrightarrow> bit x 0"
  by (simp add: and_one_eq bit_0 odd_iff_mod_2_eq_one)

lemma zigzag_odd: "zigzag v AND 1 \<noteq> 0 \<longleftrightarrow> bit v 63"
  by (simp add: and_1_bit zigzag_def sint_negative_bit bit_simps del: push_bit_Suc)

lemma unzigzag_negative:
  assumes "bit v 63"
  shows "NOT (drop_bit 1 (NOT (push_bit 1 v))) = (v :: u64)"
proof (rule bit_word_eqI)
  fix n assume n: "n < LENGTH(64)"
  show "bit (NOT (drop_bit 1 (NOT (push_bit 1 v)))) n = bit v n"
    using n assms by (cases "n = 63") (auto simp: bit_simps simp del: push_bit_Suc)
qed

lemma unzigzag_positive:
  assumes "\<not> bit v 63"
  shows "drop_bit 1 (push_bit 1 v) = (v :: u64)"
proof (rule bit_word_eqI)
  fix n assume n: "n < LENGTH(64)"
  show "bit (drop_bit 1 (push_bit 1 v)) n = bit v n"
    using n assms by (cases "n = 63") (auto simp: bit_simps simp del: push_bit_Suc)
qed

lemma zigzag_inverse:
  "(if zigzag v AND 1 \<noteq> 0 then NOT (drop_bit 1 (zigzag v)) else drop_bit 1 (zigzag v)) = v"
  unfolding zigzag_odd
  by (cases "bit v 63")
    (simp_all only: zigzag_def sint_negative_bit unzigzag_negative unzigzag_positive if_True if_False
      not_False_eq_True)

lemma pb_decode_svarint_bytes [stream_simps]:
  assumes "stream_at stream (varint_bytes (zigzag v))"
  shows "pb_decode_svarint stream =
    Some (Some v, advance (length (varint_bytes (zigzag v))) stream)"
  using zigzag_inverse [of v]
  by (simp add: pb_decode_svarint_def pb_decode_varint_bytes [OF assms] split: if_splits)

section \<open>Fixed width\<close>

lemma low_byte: "(ucast (w AND 0xFF) :: byte) = ucast (w :: 'a :: len word)"
proof (rule bit_word_eqI)
  fix n assume "n < LENGTH(8)"
  moreover have "bit (255 :: int) n \<longleftrightarrow> n < 8" by (rule bit_255_int)
  ultimately show "bit (ucast (w AND 0xFF) :: byte) n = bit (ucast w :: byte) n"
    by (auto simp: bit_ucast_iff bit_and_iff dest: bit_imp_le_length)
qed

lemma byte_of_word: "(ucast (w :: 'a :: len word) :: byte) = of_nat (unat w)"
proof -
  have "unat (ucast w :: byte) = unat (of_nat (unat w) :: byte)"
    unfolding unsigned_ucast_eq unat_of_nat_byte by (simp add: take_bit_eq_mod)
  then show ?thesis by (simp only: word_unat_eq_iff)
qed

lemma unat_shift: "unat (drop_bit n (w :: 'a :: len word)) = unat w div 2 ^ n"
  by (subst unat_drop_bit_eq) (simp only: drop_bit_eq_div)

lemma le_bytes_4:
  "le_bytes 4 n = [of_nat n, of_nat (n div 2 ^ 8), of_nat (n div 2 ^ 16), of_nat (n div 2 ^ 24)]"
  by (simp add: div_mult2_eq [symmetric])

lemma le_bytes_8:
  "le_bytes 8 n = [of_nat n, of_nat (n div 2 ^ 8), of_nat (n div 2 ^ 16), of_nat (n div 2 ^ 24),
     of_nat (n div 2 ^ 32), of_nat (n div 2 ^ 40), of_nat (n div 2 ^ 48), of_nat (n div 2 ^ 56)]"
  by (simp add: div_mult2_eq [symmetric])

lemma fixed32_bytes:
  "[ucast (val AND 0xFF), ucast (drop_bit 8 val AND 0xFF), ucast (drop_bit 16 val AND 0xFF),
    ucast (drop_bit 24 val AND 0xFF)] = le_bytes 4 (unat (val :: u32))"
  by (unfold low_byte, unfold byte_of_word unat_shift le_bytes_4, rule refl)

lemma fixed64_bytes:
  "[ucast (val AND 0xFF), ucast (drop_bit 8 val AND 0xFF), ucast (drop_bit 16 val AND 0xFF),
    ucast (drop_bit 24 val AND 0xFF), ucast (drop_bit 32 val AND 0xFF), ucast (drop_bit 40 val AND 0xFF),
    ucast (drop_bit 48 val AND 0xFF), ucast (drop_bit 56 val AND 0xFF)] = le_bytes 8 (unat (val :: u64))"
  by (unfold low_byte, unfold byte_of_word unat_shift le_bytes_8, rule refl)

lemma pb_encode_fixed32_emit [stream_simps]:
  "has_room stream 4 \<Longrightarrow> pb_encode_fixed32 stream val = Some (Some (), emit (le_bytes 4 (unat val)) stream)"
  by (simp only: pb_encode_fixed32_def fixed32_bytes pb_write_emit length_le_bytes)

lemma pb_encode_fixed64_emit [stream_simps]:
  "has_room stream 8 \<Longrightarrow> pb_encode_fixed64 stream val = Some (Some (), emit (le_bytes 8 (unat val)) stream)"
  by (simp only: pb_encode_fixed64_def fixed64_bytes pb_write_emit length_le_bytes)

lemma le_word_4: "push_bit 0 (ucast b0) OR push_bit 8 (ucast b1) OR push_bit 16 (ucast b2) OR
    push_bit 24 (ucast b3) = (le_word [b0, b1, b2, b3] :: u32)"
  by (simp add: push_bit_or or.assoc)

lemma le_word_8: "push_bit 0 (ucast b0) OR push_bit 8 (ucast b1) OR push_bit 16 (ucast b2) OR
    push_bit 24 (ucast b3) OR push_bit 32 (ucast b4) OR push_bit 40 (ucast b5) OR
    push_bit 48 (ucast b6) OR push_bit 56 (ucast b7) =
    (le_word [b0, b1, b2, b3, b4, b5, b6, b7] :: u64)"
  by (simp add: push_bit_or or.assoc)

lemma length_4E: "length xs = 4 \<Longrightarrow> [xs ! 0, xs ! 1, xs ! 2, xs ! 3] = xs"
  by (rule nth_equalityI) (auto simp: less_Suc_eq numeral_eq_Suc)

lemma length_8E: "length xs = 8 \<Longrightarrow> [xs ! 0, xs ! 1, xs ! 2, xs ! 3, xs ! 4, xs ! 5, xs ! 6, xs ! 7] = xs"
  by (rule nth_equalityI) (auto simp: less_Suc_eq numeral_eq_Suc)

lemma pb_decode_fixed32_at [stream_simps]:
  assumes "stream_at stream xs" "length xs = 4"
  shows "pb_decode_fixed32 stream = Some (Some (of_nat (le_nat xs)), advance 4 stream)"
  by (simp only: pb_decode_fixed32_def pb_read_at [OF assms] sbind_simps le_word_4 le_word_le_nat
      length_4E [OF assms(2)])

lemma pb_decode_fixed64_at [stream_simps]:
  assumes "stream_at stream xs" "length xs = 8"
  shows "pb_decode_fixed64 stream = Some (Some (of_nat (le_nat xs)), advance 8 stream)"
  by (simp only: pb_decode_fixed64_def pb_read_at [OF assms] sbind_simps le_word_8 le_word_le_nat
      length_8E [OF assms(2)])

lemma fixed32_roundtrip: "(of_nat (le_nat (le_bytes 4 (unat v))) :: u32) = v"
proof -
  have "unat v < 2 ^ LENGTH(32)" by (rule unsigned_less)
  then show ?thesis by (simp only: le_nat_le_bytes) simp
qed

lemma fixed64_roundtrip: "(of_nat (le_nat (le_bytes 8 (unat v))) :: u64) = v"
proof -
  have "unat v < 2 ^ LENGTH(64)" by (rule unsigned_less)
  then show ?thesis by (simp only: le_nat_le_bytes) simp
qed

section \<open>Tags\<close>

text \<open>The word that \<open>pb_encode_tag\<close> writes, and its decoding.\<close>

definition tag_word :: "nat \<Rightarrow> nat \<Rightarrow> u64" where
  "tag_word wiretype field_number = push_bit 3 (of_nat field_number) OR of_nat wiretype"

lemma tag_word_add:
  assumes "wiretype < 8"
  shows "tag_word wiretype field_number = of_nat (8 * field_number + wiretype)"
proof -
  have "\<not> bit (of_nat wiretype :: u64) n" if "3 \<le> n" for n
  proof -
    have "wiretype div 2 ^ n = 0" using assms that power_increasing [of 3 n "2 :: nat"] by simp
    then have "\<not> bit wiretype n" by (simp add: bit_iff_odd)
    then show ?thesis by (simp add: bit_of_nat_iff)
  qed
  then have "tag_word wiretype field_number = push_bit 3 (of_nat field_number) + of_nat wiretype"
    unfolding tag_word_def
    by (intro disjunctive_add [symmetric]) (auto simp: bit_push_bit_iff)
  then show ?thesis by (simp add: push_bit_eq_mult)
qed

lemma unat_tag_word:
  assumes "wiretype < 8" "field_number < 2 ^ 29"
  shows "unat (tag_word wiretype field_number) = 8 * field_number + wiretype"
  unfolding tag_word_add [OF assms(1)] unat_of_nat
  using assms by simp

lemma pb_encode_tag_emit [stream_simps]:
  "has_room stream (length (varint_bytes (tag_word wt n))) \<Longrightarrow>
   pb_encode_tag stream wt n = Some (Some (), emit (varint_bytes (tag_word wt n)) stream)"
  by (simp add: pb_encode_tag_def tag_word_def pb_encode_varint_emit)

lemma pb_decode_tag_bytes [stream_simps]:
  assumes "stream_at stream (varint_bytes (tag_word wt n))" "wt < 8" "0 < n" "n < 2 ^ 29"
  shows "pb_decode_tag stream =
    Some (TagOk wt n, advance (length (varint_bytes (tag_word wt n))) stream)"
proof -
  have w: "unat (tag_word wt n) = 8 * n + wt" using assms by (intro unat_tag_word)
  then have u: "unat (ucast (tag_word wt n) :: u32) = 8 * n + wt"
    using assms by (simp add: unsigned_ucast_eq take_bit_eq_mod)
  have "unat ((ucast (tag_word wt n) :: u32) AND 7) = unat (take_bit 3 (ucast (tag_word wt n) :: u32))"
    by (simp add: take_bit_eq_mask mask_eq_exp_minus_1)
  also have "\<dots> = wt"
    using assms by (subst unsigned_take_bit_eq) (simp add: u take_bit_eq_mod)
  finally have wt: "unat ((ucast (tag_word wt n) :: u32) AND 7) = wt" .
  have n: "unat (drop_bit 3 (ucast (tag_word wt n) :: u32)) = n"
    using assms by (simp only: unat_shift u) simp
  have "ucast (tag_word wt n) \<noteq> (0 :: u32)"
    using u assms by (metis add_is_0 mult_is_0 neq0_conv unsigned_0 zero_neq_numeral)
  moreover have "unat (tag_word wt n) < 2 ^ 32" using w assms by simp
  ultimately show ?thesis
    using wt n by (simp add: pb_decode_tag_def pb_decode_varint32_bytes [OF assms(1)])
qed

section \<open>Any input\<close>

text \<open>
  The outcome of a varint decoder on a buffer stream that ends with \<open>xs\<close>, for a decoder that takes
  at most \<open>n\<close> bytes.
\<close>

definition varint_outcome :: "nat \<Rightarrow> byte list \<Rightarrow> 's pb_istream \<Rightarrow> ('a :: len word, 's pb_istream) cres" where
  "varint_outcome n xs stream =
     (let k = length (takeWhile more_bit xs) in
      if n \<le> k then pb_return_error ''varint overflow'' (advance n stream)
      else if k = length xs then pb_return_error ''end-of-stream'' (advance k stream)
      else Some (Some (varint_digits (take (Suc k) xs)), advance (Suc k) stream))"

lemma varint_loop_truncated:
  "\<forall>x \<in> set xs. more_bit x \<Longrightarrow> bitpos + 7 * length xs < 64 \<Longrightarrow> stream_at stream xs \<Longrightarrow>
   is_bytes_left stream = length xs \<Longrightarrow>
   varint_loop stream bitpos r = pb_return_error ''end-of-stream'' (advance (length xs) stream)"
proof (induction xs arbitrary: stream bitpos r)
  case Nil
  then show ?case by (simp add: varint_loop.simps [of stream] stream_simps)
next
  case (Cons x xs)
  have "stream_at (advance (Suc 0) stream) xs"
    using Cons.prems(3) by (simp add: stream_at_advance_Cons)
  then have "varint_loop (advance (Suc 0) stream) (bitpos + 7) r' =
     pb_return_error ''end-of-stream'' (advance (length (x # xs)) stream)" for r'
    using Cons.IH [of "bitpos + 7" "advance (Suc 0) stream" r'] Cons.prems by simp
  then show ?case
    using Cons.prems
    by (simp add: varint_loop.simps [of stream] stream_simps Let_def add.commute)
qed

lemma varint32_loop_truncated:
  "\<forall>x \<in> set xs. more_bit x \<Longrightarrow> bitpos + 7 * length xs < 32 \<Longrightarrow> stream_at stream xs \<Longrightarrow>
   is_bytes_left stream = length xs \<Longrightarrow>
   varint32_loop stream bitpos r = pb_return_error ''end-of-stream'' (advance (length xs) stream)"
proof (induction xs arbitrary: stream bitpos r)
  case Nil
  then show ?case by (simp add: varint32_loop.simps [of stream] stream_simps)
next
  case (Cons x xs)
  have "stream_at (advance (Suc 0) stream) xs"
    using Cons.prems(3) by (simp add: stream_at_advance_Cons)
  then have "varint32_loop (advance (Suc 0) stream) (bitpos + 7) r' =
     pb_return_error ''end-of-stream'' (advance (length (x # xs)) stream)" for r'
    using Cons.IH [of "bitpos + 7" "advance (Suc 0) stream" r'] Cons.prems by simp
  then show ?case
    using Cons.prems
    by (simp add: varint32_loop.simps [of stream] stream_simps Let_def add.commute)
qed

text \<open>The three shapes that a byte string can have for a decoder of at most \<open>n\<close> bytes.\<close>

lemma varint_cases:
  fixes xs :: "byte list" and n :: nat
  obtains (overflow) ys zs where "xs = ys @ zs" "length ys = n" "\<forall>x \<in> set ys. more_bit x"
      "n \<le> length (takeWhile more_bit xs)"
  | (truncated) "\<forall>x \<in> set xs. more_bit x" "length xs < n"
      "length (takeWhile more_bit xs) = length xs"
  | (complete) ys b zs where "xs = ys @ b # zs" "\<forall>x \<in> set ys. more_bit x" "\<not> more_bit b"
      "length ys < n" "takeWhile more_bit xs = ys"
proof (cases "n \<le> length (takeWhile more_bit xs)")
  case True
  have "\<forall>x \<in> set (take n (takeWhile more_bit xs)). more_bit x"
    by (meson in_set_takeD set_takeWhileD)
  with True show ?thesis
    by (intro overflow [of "take n (takeWhile more_bit xs)" "drop n (takeWhile more_bit xs) @ dropWhile more_bit xs"])
      (simp_all add: append_assoc [symmetric] del: append_assoc)
next
  case False
  show ?thesis
  proof (cases "dropWhile more_bit xs")
    case Nil
    then have "\<forall>x \<in> set xs. more_bit x" by (simp add: dropWhile_eq_Nil_conv)
    moreover from this have "takeWhile more_bit xs = xs" by simp
    then have len: "length (takeWhile more_bit xs) = length xs" by (rule arg_cong)
    moreover have "length xs < n" using False unfolding len by simp
    ultimately show ?thesis by (intro truncated)
  next
    case (Cons b zs)
    then have "\<not> more_bit b" by (metis hd_dropWhile list.distinct(1) list.sel(1))
    moreover have "xs = takeWhile more_bit xs @ b # zs"
      using Cons by (metis takeWhile_dropWhile_id)
    ultimately show ?thesis
      using False by (intro complete) (auto dest: set_takeWhileD)
  qed
qed

text \<open>
  C30: On any buffer \<open>pb_decode_varint\<close> does exactly what the wire format asks for. It takes bytes up
  to the first one without a continuation bit and returns the little-endian value of their
  seven-bit groups; ten continuation bytes are an overflow, and a buffer that ends inside the
  varint is an end-of-stream error. It never takes a byte beyond the varint.
\<close>

lemma pb_decode_varint_any_input:
  assumes "stream_at stream xs" "is_bytes_left stream = length xs"
  shows "pb_decode_varint stream = varint_outcome 10 xs stream"
proof (cases xs rule: varint_cases [where n = 10])
  case (overflow ys zs)
  then have "stream_at stream ys" using assms(1) stream_at_appendD by blast
  with overflow show ?thesis
    by (simp add: varint_outcome_def pb_decode_varint_overflow Let_def)
next
  case truncated
  then show ?thesis
    using varint_loop_truncated [of xs 0 stream 0] assms
    by (simp add: pb_decode_varint_def varint_outcome_def Let_def)
next
  case (complete ys b zs)
  then have "stream_at stream (ys @ [b])" using assms(1) stream_at_appendD [of stream "ys @ [b]" zs] by simp
  with complete show ?thesis
    by (simp add: varint_outcome_def Let_def pb_decode_varint_digits)
qed

lemma pb_decode_varint_any_input_witness:
  "pb_decode_varint (pb_istream_from_buffer [0xAC, 0x02, 0x07] 3 :: unit pb_istream) =
     Some (Some 300, pb_istream_from_buffer [0x07] 1)
   \<and> pb_decode_varint (pb_istream_from_buffer [0xAC, 0x82] 2 :: unit pb_istream) =
     pb_return_error ''end-of-stream'' (pb_istream_from_buffer [] 0)"
proof -
  have a: "stream_at (pb_istream_from_buffer [0xAC, 0x02, 0x07] 3 :: unit pb_istream) [0xAC, 0x02, 0x07]"
    and b: "stream_at (pb_istream_from_buffer [0xAC, 0x82] 2 :: unit pb_istream) [0xAC, 0x82]"
    by (simp_all add: stream_at_def pb_istream_from_buffer_def)
  show ?thesis
    using pb_decode_varint_any_input [OF a] pb_decode_varint_any_input [OF b]
    by (simp add: pb_istream_from_buffer_def varint_outcome_def more_bit_def advance_def push_bit_eq_mult)
qed

lemma pb_decode_varint32_truncated:
  assumes "\<forall>x \<in> set xs. more_bit x" "length xs < 5" "stream_at stream xs" "is_bytes_left stream = length xs"
  shows "pb_decode_varint32 stream = pb_return_error ''end-of-stream'' (advance (length xs) stream)"
proof (cases xs)
  case Nil
  with assms show ?thesis by (simp add: pb_decode_varint32_def stream_simps)
next
  case (Cons x ys)
  then have "stream_at (advance (Suc 0) stream) ys"
    using assms(3) by (simp add: stream_at_advance_Cons)
  with Cons assms varint32_loop_truncated [of ys 7 "advance (Suc 0) stream" "ucast (x AND 0x7F)"]
  show ?thesis by (simp add: pb_decode_varint32_def stream_simps)
qed

text \<open>
  \<open>pb_decode_varint32\<close> on any buffer: the same as the 64-bit decoder with a limit of five bytes.
  The value is the low 32 bits of the groups: what the fifth byte has above them is dropped
  without an error.
\<close>

lemma pb_decode_varint32_any_input:
  assumes "stream_at stream xs" "is_bytes_left stream = length xs"
  shows "pb_decode_varint32 stream = varint_outcome 5 xs stream"
proof (cases xs rule: varint_cases [where n = 5])
  case (overflow ys zs)
  then have "stream_at stream ys" using assms(1) stream_at_appendD by blast
  with overflow show ?thesis
    by (simp add: varint_outcome_def pb_decode_varint32_overflow Let_def)
next
  case truncated
  then show ?thesis
    using pb_decode_varint32_truncated [of xs stream] assms
    by (simp add: varint_outcome_def Let_def)
next
  case (complete ys b zs)
  then have "stream_at stream (ys @ [b])" using assms(1) stream_at_appendD [of stream "ys @ [b]" zs] by simp
  with complete show ?thesis
    by (simp add: varint_outcome_def Let_def pb_decode_varint32_digits)
qed

lemma pb_decode_varint32_any_input_witness:
  "pb_decode_varint32 (pb_istream_from_buffer [0x80, 0x80, 0x80, 0x80, 0x7F] 5 :: unit pb_istream) =
     Some (Some 0xF0000000, pb_istream_from_buffer [] 0)"
proof -
  have a: "stream_at (pb_istream_from_buffer [0x80, 0x80, 0x80, 0x80, 0x7F] 5 :: unit pb_istream)
      [0x80, 0x80, 0x80, 0x80, 0x7F]"
    by (simp add: stream_at_def pb_istream_from_buffer_def)
  show ?thesis
    using pb_decode_varint32_any_input [OF a]
    by (simp add: pb_istream_from_buffer_def varint_outcome_def more_bit_def advance_def push_bit_eq_mult)
qed

section \<open>Encoders and decoders are inverse\<close>

text \<open>
  The value is written to a fresh buffer of \<open>n\<close> bytes, and read from a stream over what was
  written followed by any other bytes: the reader returns it and stops at the first other byte.
\<close>

definition reads_back ::
  "(unit pb_ostream \<Rightarrow> 'v \<Rightarrow> (unit, unit pb_ostream) cres) \<Rightarrow>
   (unit pb_istream \<Rightarrow> ('v, unit pb_istream) cres) \<Rightarrow> nat \<Rightarrow> 'v \<Rightarrow> byte list \<Rightarrow> bool" where
  "reads_back enc dec n v rest =
     (case enc (pb_ostream_from_buffer n) v of
        Some (Some _, os) \<Rightarrow>
          (case os_dst os of
             BufDst bs \<Rightarrow> os_bytes_written os = length bs \<and> length bs \<le> n \<and> os_errmsg os = None \<and>
               dec (pb_istream_from_buffer (bs @ rest) (length (bs @ rest))) =
                 Some (Some v, pb_istream_from_buffer rest (length rest))
           | _ \<Rightarrow> False)
      | _ \<Rightarrow> False)"

lemma has_room_from_buffer: "has_room (pb_ostream_from_buffer n) k \<longleftrightarrow> k \<le> n \<and> n < 2 ^ 64"
  by (simp add: has_room_def pb_ostream_from_buffer_def)

lemma emit_from_buffer:
  "length bs \<le> n \<Longrightarrow> n < 2 ^ 64 \<Longrightarrow> emit bs (pb_ostream_from_buffer n) =
     \<lparr>os_dst = BufDst bs, os_max_size = n, os_bytes_written = length bs, os_errmsg = None\<rparr>"
  by (simp add: emit_def pb_ostream_from_buffer_def)

lemma stream_at_from_buffer_append:
  "stream_at (pb_istream_from_buffer (bs @ rest) (length (bs @ rest))) bs"
  by (simp add: stream_at_def pb_istream_from_buffer_def)

lemma advance_from_buffer:
  "length bs = k \<Longrightarrow> advance k (pb_istream_from_buffer (bs @ rest) (length (bs @ rest))) =
     pb_istream_from_buffer rest (length rest)"
  by (simp add: advance_def pb_istream_from_buffer_def)

lemma reads_backI:
  assumes "\<And>stream. has_room stream (length bs) \<Longrightarrow> enc stream v = Some (Some (), emit bs stream)"
    and "\<And>stream. stream_at stream bs \<Longrightarrow> dec stream = Some (Some v, advance (length bs) stream)"
    and "length bs \<le> n" "n < 2 ^ 64"
  shows "reads_back enc dec n v rest"
  using assms(3,4)
  by (simp add: reads_back_def assms(1) has_room_from_buffer emit_from_buffer
      assms(2) [OF stream_at_from_buffer_append] advance_from_buffer del: length_append)

text \<open>
  C35: Whatever 64-bit value \<open>pb_encode_varint\<close> writes, into at most ten bytes, \<open>pb_decode_varint\<close>
  reads back, and it leaves the rest of the input alone.
\<close>

lemma pb_varint_roundtrip: "reads_back pb_encode_varint pb_decode_varint 10 v rest"
  by (rule reads_backI [of "varint_bytes v"])
    (simp_all add: pb_encode_varint_emit pb_decode_varint_bytes varint_bytes_length_10)

text \<open>
  The same for signed numbers in zigzag form, for every two's complement value (the most
  negative one included), and for the fixed-width numbers, which take exactly four and eight bytes.
\<close>

lemma pb_scalar_roundtrip:
  "reads_back pb_encode_svarint pb_decode_svarint 10 v rest \<and>
   reads_back pb_encode_fixed32 pb_decode_fixed32 4 w rest \<and>
   reads_back pb_encode_fixed64 pb_decode_fixed64 8 v rest"
proof (intro conjI)
  show "reads_back pb_encode_svarint pb_decode_svarint 10 v rest"
    by (rule reads_backI [of "varint_bytes (zigzag v)"])
      (simp_all add: pb_encode_svarint_zigzag pb_encode_varint_emit pb_decode_svarint_bytes
        varint_bytes_length_10)
  show "reads_back pb_encode_fixed32 pb_decode_fixed32 4 w rest"
    by (rule reads_backI [of "le_bytes 4 (unat w)"])
      (simp_all only: pb_encode_fixed32_emit pb_decode_fixed32_at length_le_bytes fixed32_roundtrip, simp_all)
  show "reads_back pb_encode_fixed64 pb_decode_fixed64 8 v rest"
    by (rule reads_backI [of "le_bytes 8 (unat v)"])
      (simp_all only: pb_encode_fixed64_emit pb_decode_fixed64_at length_le_bytes fixed64_roundtrip, simp_all)
qed

section \<open>Limits of the 32-bit decoder\<close>

lemma varint_bytes_unat_less: "unat v < 2 ^ (7 * length (varint_bytes v))"
proof (induction v rule: varint_bytes.induct)
  case (1 v)
  show ?case
  proof (cases "v \<le> 0x7F")
    case True
    then have "unat v \<le> unat (0x7F :: u64)" by (simp only: word_le_nat_alt)
    with True show ?thesis by (simp add: varint_bytes.simps [of v])
  next
    case False
    let ?n = "7 * length (varint_bytes (drop_bit 7 v))"
    from "1.IH" [OF False] have "unat v div 2 ^ 7 < 2 ^ ?n" by (simp only: unat_shift)
    then have "unat v < 2 ^ ?n * 2 ^ 7" by (subst (asm) div_less_iff_less_mult) simp_all
    with False show ?thesis by (simp add: varint_bytes.simps [of v] power_add mult.commute)
  qed
qed

lemma varint_bytes_length_iff: "0 < n \<Longrightarrow> length (varint_bytes v) \<le> n \<longleftrightarrow> unat v < 2 ^ (7 * n)"
proof
  assume "length (varint_bytes v) \<le> n"
  then have "(2 :: nat) ^ (7 * length (varint_bytes v)) \<le> 2 ^ (7 * n)"
    by (intro power_increasing) simp_all
  with varint_bytes_unat_less [of v] show "unat v < 2 ^ (7 * n)" by linarith
qed (rule varint_bytes_length)

text \<open>
  What \<open>pb_decode_varint32\<close> makes of a varint that \<open>pb_encode_varint\<close> wrote: from \<open>2 ^ 35\<close> on it
  is an overflow, and below that the low 32 bits are returned. So it does not read back a negative
  \<^verbatim>\<open>int32\<close>, which the encoder writes sign-extended in ten bytes, although \<^verbatim>\<open>pb_decode.h\<close> offers it for
  that type; and values between \<open>2 ^ 32\<close> and \<open>2 ^ 35\<close> are truncated without an error.
\<close>

lemma pb_decode_varint32_of_encoded:
  assumes "stream_at stream (varint_bytes v)"
  shows "pb_decode_varint32 stream =
    (if unat v < 2 ^ 35 then Some (Some (ucast v), advance (length (varint_bytes v)) stream)
     else pb_return_error ''varint overflow'' (advance 5 stream))"
proof -
  obtain xs b where xs: "varint_bytes v = xs @ [b]" "\<forall>x \<in> set xs. more_bit x" "\<not> more_bit b"
    by (rule varint_bytes_shape)
  have len: "length (varint_bytes v) \<le> 5 \<longleftrightarrow> unat v < 2 ^ 35"
    using varint_bytes_length_iff [of 5 v] by simp
  show ?thesis
  proof (cases "unat v < 2 ^ 35")
    case True
    with len xs(1) have "length xs < 5" by simp
    with True assms xs pb_decode_varint32_digits [OF xs(2,3), of stream] varint_digits_bytes [of v, where 'a = 32]
    show ?thesis by simp
  next
    case False
    with len xs(1) have "5 \<le> length xs" by simp
    then have "stream_at stream (take 5 xs)"
      using assms xs(1) stream_at_appendD [of stream "take 5 xs" "drop 5 xs @ [b]"]
      by (simp add: append_assoc [symmetric] del: append_assoc)
    moreover have "\<forall>x \<in> set (take 5 xs). more_bit x" using xs(2) by (meson in_set_takeD)
    ultimately show ?thesis
      using False \<open>5 \<le> length xs\<close> pb_decode_varint32_overflow [of "take 5 xs" stream] by simp
  qed
qed

lemma pb_decode_varint32_of_encoded_witness:
  "pb_decode_varint32 (pb_istream_from_buffer (varint_bytes (- 1)) 10 :: unit pb_istream) =
     pb_return_error ''varint overflow'' (advance 5 (pb_istream_from_buffer (varint_bytes (- 1)) 10))"
proof -
  have "stream_at (pb_istream_from_buffer (varint_bytes (- 1)) 10 :: unit pb_istream) (varint_bytes (- 1))"
    using varint_bytes_length_10 [of "- 1"] by (simp add: stream_at_def pb_istream_from_buffer_def)
  moreover have "\<not> unat (- 1 :: u64) < 2 ^ 35" by (simp add: unsigned_minus_1_eq_mask mask_eq_exp_minus_1)
  ultimately show ?thesis by (simp only: pb_decode_varint32_of_encoded if_False)
qed

section \<open>Tags\<close>

text \<open>
  A tag that \<open>pb_encode_tag\<close> writes for a wire type below 8 and a field number of the protocol's
  range (1 to \<open>2 ^ 29 - 1\<close>) is read back by \<open>pb_decode_tag\<close>, which stops right behind it.
\<close>

lemma pb_tag_roundtrip:
  assumes "wiretype < 8" "0 < field_number" "field_number < 2 ^ 29"
    and "has_room os (length (varint_bytes (tag_word wiretype field_number)))"
    and "stream_at is (varint_bytes (tag_word wiretype field_number))"
  shows "pb_encode_tag os wiretype field_number =
      Some (Some (), emit (varint_bytes (tag_word wiretype field_number)) os) \<and>
    pb_decode_tag is =
      Some (TagOk wiretype field_number, advance (length (varint_bytes (tag_word wiretype field_number))) is)"
  using assms by (simp add: pb_encode_tag_emit pb_decode_tag_bytes)

lemma pb_tag_roundtrip_witness:
  "pb_encode_tag (pb_ostream_from_buffer 4 :: unit pb_ostream) 2 5 =
     Some (Some (), \<lparr>os_dst = BufDst [0x2A], os_max_size = 4, os_bytes_written = 1, os_errmsg = None\<rparr>) \<and>
   pb_decode_tag (pb_istream_from_buffer [0x2A, 0x01] 2 :: unit pb_istream) =
     Some (TagOk 2 5, pb_istream_from_buffer [0x01] 1)"
proof -
  have w: "varint_bytes (tag_word 2 5) = [0x2A]"
    by (simp add: tag_word_def varint_bytes.simps push_bit_eq_mult or_numerals)
  have "has_room (pb_ostream_from_buffer 4 :: unit pb_ostream) (length (varint_bytes (tag_word 2 5)))"
    by (simp add: w has_room_from_buffer)
  moreover have "stream_at (pb_istream_from_buffer [0x2A, 0x01] 2 :: unit pb_istream) (varint_bytes (tag_word 2 5))"
    by (simp add: w stream_at_def pb_istream_from_buffer_def)
  ultimately show ?thesis
    using pb_tag_roundtrip [of 2 5 "pb_ostream_from_buffer 4 :: unit pb_ostream"
        "pb_istream_from_buffer [0x2A, 0x01] 2 :: unit pb_istream"]
    by (simp add: w emit_from_buffer advance_def pb_istream_from_buffer_def)
qed

text \<open>
  A stream that ends inside a tag reports the end of the message, not an error: the decoder looks
  only at the number of bytes left.
\<close>

lemma pb_decode_tag_truncated:
  assumes "stream_at stream xs" "is_bytes_left stream = length xs" "\<forall>x \<in> set xs. more_bit x" "length xs \<le> 5"
  shows "\<exists>msg. pb_decode_tag stream = Some (TagEof, set_error msg (advance (length xs) stream))"
proof (cases "length xs = 5")
  case True
  with assms show ?thesis by (auto simp: pb_decode_tag_def pb_decode_varint32_overflow set_error_def)
next
  case False
  with assms show ?thesis by (auto simp: pb_decode_tag_def pb_decode_varint32_truncated set_error_def)
qed

section \<open>Skipping\<close>

text \<open>The values that a wire type admits on the wire.\<close>

definition wire_value :: "nat \<Rightarrow> byte list \<Rightarrow> bool" where
  "wire_value wire_type xs \<longleftrightarrow>
     (wire_type = PB_WT_VARINT \<and> xs \<noteq> [] \<and> (\<forall>x \<in> set (butlast xs). more_bit x) \<and> \<not> more_bit (last xs)) \<or>
     (wire_type = PB_WT_64BIT \<and> length xs = 8) \<or>
     (wire_type = PB_WT_STRING \<and> (\<exists>n bs. xs = varint_bytes n @ bs \<and> length bs = unat n \<and> unat n < 2 ^ 32)) \<or>
     (wire_type = PB_WT_32BIT \<and> length xs = 4)"

lemma pb_read_at_prefix:
  "stream_at stream (xs @ ys) \<Longrightarrow> length xs = n \<Longrightarrow> pb_read stream buf n = Some (Some xs, advance n stream)"
  by (rule pb_read_at) (auto dest: stream_at_appendD)

text \<open>
  C36: \<open>pb_skip_field\<close> on any value of the given wire type consumes exactly the bytes of the value,
  whatever its length, so that the next tag is read from the right place.
\<close>

lemma pb_skip_field_exact:
  assumes "stream_at stream xs" "wire_value wire_type xs"
  shows "pb_skip_field stream wire_type = Some (Some (), advance (length xs) stream)"
  using assms(2) unfolding wire_value_def
proof (elim disjE conjE exE)
  assume "wire_type = PB_WT_VARINT" "xs \<noteq> []" "\<forall>x \<in> set (butlast xs). more_bit x" "\<not> more_bit (last xs)"
  then show ?thesis
    using assms(1) pb_skip_varint_digits [of "butlast xs" "last xs" stream]
    by (simp add: pb_skip_field_def)
next
  fix n bs assume xs: "wire_type = PB_WT_STRING" "xs = varint_bytes n @ bs" "length bs = unat n" "unat n < 2 ^ 32"
  have "unat (ucast n :: u32) = length bs"
    using xs(3,4) by (simp add: unsigned_ucast_eq take_bit_eq_mod)
  moreover have "stream_at (advance (length (varint_bytes n)) stream) bs"
    using assms(1) xs(2) by (simp add: stream_at_advance)
  moreover have "pb_decode_varint32 stream = Some (Some (ucast n), advance (length (varint_bytes n)) stream)"
    using assms(1) xs(2,4) by (simp add: pb_decode_varint32_bytes stream_at_appendD)
  ultimately show ?thesis
    using xs by (simp add: pb_skip_field_def pb_skip_string_def pb_read_at)
qed (simp_all add: pb_skip_field_def pb_read_at [OF assms(1)])

lemma pb_skip_field_exact_witness:
  "pb_skip_field (pb_istream_from_buffer [0x80, 0x80, 0x01, 0x2A] 4 :: unit pb_istream) PB_WT_VARINT =
     Some (Some (), pb_istream_from_buffer [0x2A] 1)"
proof -
  have "stream_at (pb_istream_from_buffer [0x80, 0x80, 0x01, 0x2A] 4 :: unit pb_istream) [0x80, 0x80, 0x01]"
    by (simp add: stream_at_def pb_istream_from_buffer_def)
  from pb_skip_field_exact [OF this, of PB_WT_VARINT] show ?thesis
    by (simp add: wire_value_def more_bit_def pb_istream_from_buffer_def advance_def)
qed

section \<open>Substreams\<close>

text \<open>
  A length-delimited value is read through a substream that holds exactly the announced bytes:
  it starts behind the length, its limit is the length, and the outer stream no longer owns those
  bytes. Closing it after any \<open>k\<close> of them have been read skips the rest, and leaves the outer
  stream right behind the value.
\<close>

lemma pb_substream_exact:
  assumes "stream_at stream (varint_bytes n @ bs)" "length bs = unat n" "unat n < 2 ^ 32" "k \<le> length bs"
  shows "\<exists>substream stream'. pb_make_string_substream stream = Some (Some substream, stream') \<and>
      stream_at substream bs \<and> is_bytes_left substream = length bs \<and>
      is_bytes_left substream + is_bytes_left stream' + length (varint_bytes n) = is_bytes_left stream \<and>
      pb_close_string_substream stream' (advance k substream) =
        Some (Some (), advance (length (varint_bytes n @ bs)) stream)"
proof -
  let ?v = "length (varint_bytes n)"
  have u: "unat (ucast n :: u32) = length bs"
    using assms(2,3) by (simp add: unsigned_ucast_eq take_bit_eq_mod)
  have d: "pb_decode_varint32 stream = Some (Some (ucast n), advance ?v stream)"
    using assms(1,3) by (simp add: pb_decode_varint32_bytes stream_at_appendD)
  obtain rest where src: "is_src stream = BufSrc (varint_bytes n @ bs @ rest)"
    using assms(1) by (auto simp: stream_at_def)
  have left: "?v + length bs \<le> is_bytes_left stream"
    using stream_at_left [OF assms(1)] by simp
  let ?sub = "(advance ?v stream)\<lparr>is_bytes_left := length bs\<rparr>"
  let ?out = "(advance ?v stream)\<lparr>is_bytes_left := is_bytes_left stream - ?v - length bs\<rparr>"
  have make: "pb_make_string_substream stream = Some (Some ?sub, ?out)"
    using left by (simp add: pb_make_string_substream_def d u)
  have at: "stream_at ?sub bs"
    using src by (simp add: stream_at_def advance_def)
  have "stream_at (advance k ?sub) (drop k bs)"
    using at assms(4) by (intro stream_at_advanceI [of ?sub "take k bs"]) simp_all
  then have "pb_read (advance k ?sub) False (length bs - k) = Some (Some (drop k bs), advance (length bs - k) (advance k ?sub))"
    by (rule pb_read_at) simp
  then have close: "pb_close_string_substream ?out (advance k ?sub) = Some (Some (), advance (?v + length bs) stream)"
    using assms(4) left src
    by (auto simp: pb_close_string_substream_def advance_def Let_def split: if_splits)
  show ?thesis
    using make at left close by (intro exI [of _ ?sub] exI [of _ ?out]) simp
qed

lemma pb_substream_exact_witness:
  "\<exists>substream stream'.
     pb_make_string_substream (pb_istream_from_buffer [0x02, 0x61, 0x62, 0x08] 4 :: unit pb_istream) =
       Some (Some substream, stream') \<and> is_bytes_left substream = 2 \<and> is_bytes_left stream' = 1 \<and>
     pb_close_string_substream stream' (advance 1 substream) = Some (Some (), pb_istream_from_buffer [0x08] 1)"
proof -
  have v: "varint_bytes 2 = [0x02]" by (simp add: varint_bytes.simps)
  have "stream_at (pb_istream_from_buffer [0x02, 0x61, 0x62, 0x08] 4 :: unit pb_istream) (varint_bytes 2 @ [0x61, 0x62])"
    by (simp add: v stream_at_def pb_istream_from_buffer_def)
  from pb_substream_exact [OF this, of 1] show ?thesis
    by (auto simp: v advance_def pb_istream_from_buffer_def)
qed

end
