(* ===== verification/Pb_Decode.thy ===== *)
theory Pb_Decode
  imports Pb_Codec
begin

text \<open>
  The message decoder of nanopb (\<^verbatim>\<open>pb_decode.c\<close>): the field decoders, static, packed, oneof,
  callback and extension fields, the default values, and the loop over the fields of a message
  with its check of the required fields. A message structure lives in memory: the decoders get
  the address of the field's data from the iterator and store through it.

  The state is the input stream and the memory. The configuration has no
  \<^verbatim>\<open>PB_ENABLE_MALLOC\<close>: pointer fields are refused with an error, as the code does.
\<close>

unbundle bit_operations_syntax

section \<open>The environment\<close>

text \<open>
  What the pointers in the tables and structures point to: field tables by address, the user's
  field callbacks and extension decoders by the address of their code. A callback gets the
  stream, the field and the address of its argument slot, and may change the stream and the memory.
\<close>

record 's dec_env =
  de_tables :: "addr \<Rightarrow> pb_field list"
  de_callback :: "addr \<Rightarrow> 's pb_istream \<Rightarrow> pb_field \<Rightarrow> addr \<Rightarrow> mem \<Rightarrow> bool \<times> 's pb_istream \<times> mem"
  de_ext_decode :: "addr \<Rightarrow> 's pb_istream \<Rightarrow> addr \<Rightarrow> nat \<Rightarrow> nat \<Rightarrow> mem \<Rightarrow> bool \<times> 's pb_istream \<times> mem"

type_synonym ('a, 's) dres = "('a, 's pb_istream \<times> mem) cres"

text \<open>A stream operation in the larger state, and the outcome of a user's function.\<close>

definition with_mem :: "mem \<Rightarrow> ('a, 's pb_istream) cres \<Rightarrow> ('a, 's) dres" where
  "with_mem m r = map_option (\<lambda>(v, stream). (v, (stream, m))) r"

definition user_result :: "bool \<times> 's pb_istream \<times> mem \<Rightarrow> (unit, 's) dres" where
  "user_result r = (case r of (ok, stream, m) \<Rightarrow> Some (if ok then Some () else None, (stream, m)))"

abbreviation pb_dreturn_error :: "string \<Rightarrow> 's pb_istream \<Rightarrow> mem \<Rightarrow> ('a, 's) dres" where
  "pb_dreturn_error msg stream m \<equiv> Some (None, (set_error msg stream, m))"

abbreviation dreturn :: "'a \<Rightarrow> 's pb_istream \<Rightarrow> mem \<Rightarrow> ('a, 's) dres" where
  "dreturn v stream m \<equiv> Some (Some v, (stream, m))"

text \<open>The cast of a signed number to \<open>n\<close> bytes, and its store.\<close>

definition cast_signed :: "nat \<Rightarrow> int \<Rightarrow> int" where
  "cast_signed n v = signed_take_bit (8 * n - 1) v"

definition store_int :: "mem \<Rightarrow> addr \<Rightarrow> nat \<Rightarrow> int \<Rightarrow> mem" where
  "store_int m a n v = store_nat m a n (nat (v mod 256 ^ n))"

section \<open>Field decoders\<close>

definition pb_dec_varint :: "'s pb_istream \<Rightarrow> pb_field \<Rightarrow> addr \<Rightarrow> mem \<Rightarrow> (unit, 's) dres" where
  "pb_dec_varint stream field dest m =
     sbind (with_mem m (pb_decode_varint stream)) (\<lambda>value (stream, m).
       let svalue = (if f_data_size field = 8 then sint value else sint (ucast value :: u32)) in
       if f_data_size field \<in> {8, 4, 2, 1} then
         let clamped = cast_signed (f_data_size field) svalue;
             m = store_int m dest (f_data_size field) svalue in
         if clamped \<noteq> svalue then pb_dreturn_error ''integer too large'' stream m
         else dreturn () stream m
       else pb_dreturn_error ''invalid data_size'' stream m)"

definition pb_dec_uvarint :: "'s pb_istream \<Rightarrow> pb_field \<Rightarrow> addr \<Rightarrow> mem \<Rightarrow> (unit, 's) dres" where
  "pb_dec_uvarint stream field dest m =
     sbind (with_mem m (pb_decode_varint stream)) (\<lambda>value (stream, m).
       if f_data_size field \<in> {8, 4, 2, 1} then
         let clamped = unat value mod 256 ^ f_data_size field;
             m = store_nat m dest (f_data_size field) (unat value) in
         if clamped \<noteq> unat value then pb_dreturn_error ''integer too large'' stream m
         else dreturn () stream m
       else pb_dreturn_error ''invalid data_size'' stream m)"

definition pb_dec_svarint :: "'s pb_istream \<Rightarrow> pb_field \<Rightarrow> addr \<Rightarrow> mem \<Rightarrow> (unit, 's) dres" where
  "pb_dec_svarint stream field dest m =
     sbind (with_mem m (pb_decode_svarint stream)) (\<lambda>value (stream, m).
       if f_data_size field \<in> {8, 4, 2, 1} then
         let clamped = cast_signed (f_data_size field) (sint value);
             m = store_int m dest (f_data_size field) (sint value) in
         if clamped \<noteq> sint value then pb_dreturn_error ''integer too large'' stream m
         else dreturn () stream m
       else pb_dreturn_error ''invalid data_size'' stream m)"

definition pb_dec_fixed32 :: "'s pb_istream \<Rightarrow> pb_field \<Rightarrow> addr \<Rightarrow> mem \<Rightarrow> (unit, 's) dres" where
  "pb_dec_fixed32 stream field dest m =
     sbind (with_mem m (pb_decode_fixed32 stream)) (\<lambda>value (stream, m).
       dreturn () stream (store_nat m dest 4 (unat value)))"

definition pb_dec_fixed64 :: "'s pb_istream \<Rightarrow> pb_field \<Rightarrow> addr \<Rightarrow> mem \<Rightarrow> (unit, 's) dres" where
  "pb_dec_fixed64 stream field dest m =
     sbind (with_mem m (pb_decode_fixed64 stream)) (\<lambda>value (stream, m).
       dreturn () stream (store_nat m dest 8 (unat value)))"

text \<open>A bytes field is a 32-bit size followed by the data.\<close>

definition pb_dec_bytes :: "'s pb_istream \<Rightarrow> pb_field \<Rightarrow> addr \<Rightarrow> mem \<Rightarrow> (unit, 's) dres" where
  "pb_dec_bytes stream field dest m =
     sbind (with_mem m (pb_decode_varint32 stream)) (\<lambda>size (stream, m).
       if unat size > PB_SIZE_MAX then pb_dreturn_error ''bytes overflow'' stream m
       else
         let alloc_size = size_add (unat size) 4 in
         if unat size > alloc_size then pb_dreturn_error ''size too large'' stream m
         else if PB_ATYPE (f_type field) = PB_ATYPE_POINTER
           then pb_dreturn_error ''no malloc support'' stream m
         else if alloc_size > f_data_size field then pb_dreturn_error ''bytes overflow'' stream m
         else
           let m = store_u32 m dest (unat size) in
           sbind (with_mem m (pb_read stream True (unat size))) (\<lambda>bs (stream, m).
             dreturn () stream (mem_store m (dest + 4) bs)))"

text \<open>The terminator of a string is stored whether or not the read succeeded.\<close>

definition pb_dec_string :: "'s pb_istream \<Rightarrow> pb_field \<Rightarrow> addr \<Rightarrow> mem \<Rightarrow> (unit, 's) dres" where
  "pb_dec_string stream field dest m =
     sbind (with_mem m (pb_decode_varint32 stream)) (\<lambda>size (stream, m).
       let alloc_size = unat (size + 1) in
       if alloc_size < unat size then pb_dreturn_error ''size too large'' stream m
       else if PB_ATYPE (f_type field) = PB_ATYPE_POINTER
         then pb_dreturn_error ''no malloc support'' stream m
       else if alloc_size > f_data_size field then pb_dreturn_error ''string overflow'' stream m
       else
         (case pb_read stream True (unat size) of
            None \<Rightarrow> None
          | Some (None, stream) \<Rightarrow> Some (None, (stream, m(dest + unat size := 0)))
          | Some (Some bs, stream) \<Rightarrow>
              dreturn () stream ((mem_store m dest bs)(dest + unat size := 0))))"

text \<open>
  A submessage: \<open>defaults\<close> is \<open>pb_message_set_to_defaults\<close> and \<open>noinit\<close> is \<open>pb_decode_noinit\<close>,
  both on a smaller fuel.
\<close>

definition pb_dec_submessage ::
  "'s dec_env \<Rightarrow> (pb_field list \<Rightarrow> addr \<Rightarrow> mem \<Rightarrow> mem option) \<Rightarrow>
   (pb_field list \<Rightarrow> addr \<Rightarrow> 's pb_istream \<Rightarrow> mem \<Rightarrow> (unit, 's) dres) \<Rightarrow>
   's pb_istream \<Rightarrow> pb_field \<Rightarrow> addr \<Rightarrow> mem \<Rightarrow> (unit, 's) dres" where
  "pb_dec_submessage env defaults noinit stream field dest m =
     sbind (with_mem m (pb_make_string_substream stream)) (\<lambda>substream (stream, m).
       if f_ptr field = 0 then pb_dreturn_error ''invalid field descriptor'' stream m
       else
         let submsg_fields = de_tables env (f_ptr field) in
         do {
           m \<leftarrow> (if PB_HTYPE (f_type field) = PB_HTYPE_REPEATED
                 then defaults submsg_fields dest m else Some m);
           (status, (substream, m)) \<leftarrow> noinit submsg_fields dest substream m;
           sbind (with_mem m (pb_close_string_substream stream substream)) (\<lambda>_ st. Some (status, st))
         })"

definition pb_dec_fixed_length_bytes ::
  "'s pb_istream \<Rightarrow> pb_field \<Rightarrow> addr \<Rightarrow> mem \<Rightarrow> (unit, 's) dres" where
  "pb_dec_fixed_length_bytes stream field dest m =
     sbind (with_mem m (pb_decode_varint32 stream)) (\<lambda>size (stream, m).
       if unat size > PB_SIZE_MAX then pb_dreturn_error ''bytes overflow'' stream m
       else if size = 0 then dreturn () stream (mem_store m dest (replicate (f_data_size field) 0))
       else if unat size \<noteq> f_data_size field
         then pb_dreturn_error ''incorrect fixed length bytes size'' stream m
       else
         sbind (with_mem m (pb_read stream True (f_data_size field))) (\<lambda>bs (stream, m).
           dreturn () stream (mem_store m dest bs)))"

text \<open>
  The table \<^verbatim>\<open>PB_DECODERS\<close>, applied. Its entry for extensions is NULL and it has no entry above
  9: calling those is undefined.
\<close>

definition pb_decoder ::
  "'s dec_env \<Rightarrow> (pb_field list \<Rightarrow> addr \<Rightarrow> mem \<Rightarrow> mem option) \<Rightarrow>
   (pb_field list \<Rightarrow> addr \<Rightarrow> 's pb_istream \<Rightarrow> mem \<Rightarrow> (unit, 's) dres) \<Rightarrow>
   byte \<Rightarrow> 's pb_istream \<Rightarrow> pb_field \<Rightarrow> addr \<Rightarrow> mem \<Rightarrow> (unit, 's) dres" where
  "pb_decoder env defaults noinit ltype =
     (if ltype = PB_LTYPE_VARINT then pb_dec_varint
      else if ltype = PB_LTYPE_UVARINT then pb_dec_uvarint
      else if ltype = PB_LTYPE_SVARINT then pb_dec_svarint
      else if ltype = PB_LTYPE_FIXED32 then pb_dec_fixed32
      else if ltype = PB_LTYPE_FIXED64 then pb_dec_fixed64
      else if ltype = PB_LTYPE_BYTES then pb_dec_bytes
      else if ltype = PB_LTYPE_STRING then pb_dec_string
      else if ltype = PB_LTYPE_SUBMESSAGE then pb_dec_submessage env defaults noinit
      else if ltype = PB_LTYPE_FIXED_LENGTH_BYTES then pb_dec_fixed_length_bytes
      else (\<lambda>stream field dest m. None))"

end
