(* ===== verification/Pb_Message.thy ===== *)
theory Pb_Message
  imports Pb_Decode
begin

text \<open>
  Fields and messages of nanopb's decoder (\<^verbatim>\<open>pb_decode.c\<close>, "Decode a single field" and "Decode
  all fields"): what happens to a field by its allocation and repetition type, extensions,
  default values, the field loop and the check of the required fields.

  Every definition that can call back into the message decoder takes it as an argument;
  \<open>pb_decode_noinit\<close> ties the knot with a fuel argument that bounds the nesting depth and each of
  the loops over data.
\<close>

unbundle bit_operations_syntax

section \<open>Static fields\<close>

type_synonym 's field_decoder = "'s pb_istream \<Rightarrow> pb_field \<Rightarrow> addr \<Rightarrow> mem \<Rightarrow> (unit, 's) dres"

text \<open>
  The loop over a packed array. It ends with the status of the last item decoder; each turn
  takes at least one byte of the substream, so one more turn than there are bytes is enough fuel.
  The offset of an item, here and below, is computed without a bound, in the source with 32 bits: the same for the arrays
  of a structure of less than 4 GiB.
\<close>

fun packed_loop ::
  "nat \<Rightarrow> 's field_decoder \<Rightarrow> pb_field \<Rightarrow> addr \<Rightarrow> addr \<Rightarrow> 's pb_istream \<Rightarrow> mem \<Rightarrow> (unit, 's) dres" where
  "packed_loop 0 func field pData pSize substream m = None"
| "packed_loop (Suc n) func field pData pSize substream m =
     (if is_bytes_left substream > 0 \<and> load_u32 m pSize < f_array_size field then
        sbind (func substream field (pData + f_data_size field * load_u32 m pSize) m)
          (\<lambda>_ (substream, m).
            packed_loop n func field pData pSize substream
              (store_u32 m pSize (Suc (load_u32 m pSize))))
      else dreturn () substream m)"

definition decode_packed ::
  "'s field_decoder \<Rightarrow> 's pb_istream \<Rightarrow> pb_field \<Rightarrow> addr \<Rightarrow> addr \<Rightarrow> mem \<Rightarrow> (unit, 's) dres" where
  "decode_packed func stream field pData pSize m =
     sbind (with_mem m (pb_make_string_substream stream)) (\<lambda>substream (stream, m).
       do {
         (status, (substream, m)) \<leftarrow>
           packed_loop (Suc (is_bytes_left substream)) func field pData pSize substream m;
         if is_bytes_left substream \<noteq> 0 then pb_dreturn_error ''array overflow'' stream m
         else sbind (with_mem m (pb_close_string_substream stream substream)) (\<lambda>_ st. Some (status, st))
       })"

definition decode_static_field ::
  "'s dec_env \<Rightarrow> (pb_field list \<Rightarrow> addr \<Rightarrow> mem \<Rightarrow> mem option) \<Rightarrow>
   (pb_field list \<Rightarrow> addr \<Rightarrow> 's pb_istream \<Rightarrow> mem \<Rightarrow> (unit, 's) dres) \<Rightarrow>
   's pb_istream \<Rightarrow> nat \<Rightarrow> pb_field_iter \<Rightarrow> mem \<Rightarrow> (unit, 's) dres" where
  "decode_static_field env defaults noinit stream wire_type iter m =
     (let field = it_field iter; type = f_type field;
          func = pb_decoder env defaults noinit (PB_LTYPE type);
          pData = it_pData iter; pSize = it_pSize iter in
      if PB_HTYPE type = PB_HTYPE_REQUIRED then func stream field pData m
      else if PB_HTYPE type = PB_HTYPE_OPTIONAL then
        func stream field pData (if pSize \<noteq> pData then store_bool m pSize True else m)
      else if PB_HTYPE type = PB_HTYPE_REPEATED then
        (if wire_type = PB_WT_STRING \<and> PB_LTYPE type \<le> PB_LTYPE_LAST_PACKABLE
         then decode_packed func stream field pData pSize m
         else if load_u32 m pSize \<ge> f_array_size field
         then pb_dreturn_error ''array overflow'' stream m
         else func stream field (pData + f_data_size field * load_u32 m pSize)
                (store_u32 m pSize (Suc (load_u32 m pSize))))
      else if PB_HTYPE type = PB_HTYPE_ONEOF then
        do {
          m \<leftarrow> (let m = store_u32 m pSize (f_tag field) in
                if PB_LTYPE type = PB_LTYPE_SUBMESSAGE
                then defaults (de_tables env (f_ptr field)) pData
                       (mem_store m pData (replicate (f_data_size field) 0))
                else Some m);
          func stream field pData m
        }
      else pb_dreturn_error ''invalid field type'' stream m)"

section \<open>Pointer and callback fields\<close>

definition decode_pointer_field :: "'s pb_istream \<Rightarrow> mem \<Rightarrow> (unit, 's) dres" where
  "decode_pointer_field stream m = pb_dreturn_error ''no malloc support'' stream m"

text \<open>
  The loop that calls a callback until the substream is used up; nothing makes a callback
  consume data, so the fuel is an argument.
\<close>

fun callback_loop ::
  "nat \<Rightarrow> ('s pb_istream \<Rightarrow> mem \<Rightarrow> (unit, 's) dres) \<Rightarrow> 's pb_istream \<Rightarrow> mem \<Rightarrow> (unit, 's) dres" where
  "callback_loop 0 cb substream m = None"
| "callback_loop (Suc n) cb substream m =
     sbind (cb substream m) (\<lambda>_ (substream, m).
       if is_bytes_left substream \<noteq> 0 then callback_loop n cb substream m
       else dreturn () substream m)"

definition decode_callback_field ::
  "nat \<Rightarrow> 's dec_env \<Rightarrow> 's pb_istream \<Rightarrow> nat \<Rightarrow> pb_field_iter \<Rightarrow> mem \<Rightarrow> (unit, 's) dres" where
  "decode_callback_field n env stream wire_type iter m =
     (let pCallback = it_pData iter; arg = pCallback + 8;
          cb = (\<lambda>substream m. user_result
                  (de_callback env (load_ptr m pCallback) substream (it_field iter) arg m)) in
      if load_ptr m pCallback = 0 then with_mem m (pb_skip_field stream wire_type)
      else if wire_type = PB_WT_STRING then
        sbind (with_mem m (pb_make_string_substream stream)) (\<lambda>substream (stream, m).
          case callback_loop n cb substream m of
            None \<Rightarrow> None
          | Some (None, (_, m)) \<Rightarrow> pb_dreturn_error ''callback failed'' stream m
          | Some (Some _, (substream, m)) \<Rightarrow> with_mem m (pb_close_string_substream stream substream))
      else
        sbind (with_mem m (read_raw_value stream wire_type 10)) (\<lambda>buffer (stream, m).
          do {
            (status, (_, m)) \<leftarrow> cb (pb_istream_from_buffer buffer (length buffer)) m;
            Some (status, (stream, m))
          }))"

definition decode_field ::
  "nat \<Rightarrow> 's dec_env \<Rightarrow> (pb_field list \<Rightarrow> addr \<Rightarrow> mem \<Rightarrow> mem option) \<Rightarrow>
   (pb_field list \<Rightarrow> addr \<Rightarrow> 's pb_istream \<Rightarrow> mem \<Rightarrow> (unit, 's) dres) \<Rightarrow>
   's pb_istream \<Rightarrow> nat \<Rightarrow> pb_field_iter \<Rightarrow> mem \<Rightarrow> (unit, 's) dres" where
  "decode_field n env defaults noinit stream wire_type iter m =
     (let atype = PB_ATYPE (f_type (it_field iter)) in
      if atype = PB_ATYPE_STATIC then decode_static_field env defaults noinit stream wire_type iter m
      else if atype = PB_ATYPE_POINTER then decode_pointer_field stream m
      else if atype = PB_ATYPE_CALLBACK then decode_callback_field n env stream wire_type iter m
      else pb_dreturn_error ''invalid field type'' stream m)"

section \<open>Extensions\<close>

text \<open>
  \<^verbatim>\<open>pb_extension_t\<close> is four slots: \<^verbatim>\<open>type\<close> at 0, \<^verbatim>\<open>dest\<close> at 8, \<^verbatim>\<open>next\<close> at 16, \<^verbatim>\<open>found\<close> at 24;
  \<^verbatim>\<open>pb_extension_type_t\<close> is \<^verbatim>\<open>decode\<close> at 0, \<^verbatim>\<open>encode\<close> at 8, \<^verbatim>\<open>arg\<close> at 16.
\<close>

definition ext_type :: "mem \<Rightarrow> addr \<Rightarrow> addr" where "ext_type m ext = load_ptr m ext"
definition ext_dest :: "mem \<Rightarrow> addr \<Rightarrow> addr" where "ext_dest m ext = load_ptr m (ext + 8)"
definition ext_next :: "mem \<Rightarrow> addr \<Rightarrow> addr" where "ext_next m ext = load_ptr m (ext + 16)"
definition ext_found_slot :: "addr \<Rightarrow> addr" where "ext_found_slot ext = ext + 24"
definition exttype_decode :: "mem \<Rightarrow> addr \<Rightarrow> addr" where "exttype_decode m type = load_ptr m type"
definition exttype_arg :: "mem \<Rightarrow> addr \<Rightarrow> addr" where "exttype_arg m type = load_ptr m (type + 16)"

definition ext_fields :: "'s dec_env \<Rightarrow> mem \<Rightarrow> addr \<Rightarrow> pb_field list" where
  "ext_fields env m ext = de_tables env (exttype_arg m (ext_type m ext))"

definition iter_from_extension :: "'s dec_env \<Rightarrow> mem \<Rightarrow> addr \<Rightarrow> pb_field_iter" where
  "iter_from_extension env m ext =
     (let fs = ext_fields env m ext; dest = ext_dest m ext;
          iter = (snd (pb_field_iter_begin fs dest))\<lparr>it_pData := dest, it_pSize := ext_found_slot ext\<rparr> in
      if PB_ATYPE (f_type (field_at fs 0)) = PB_ATYPE_POINTER then iter\<lparr>it_pData := ext + 8\<rparr>
      else iter)"

definition default_extension_decoder ::
  "nat \<Rightarrow> 's dec_env \<Rightarrow> (pb_field list \<Rightarrow> addr \<Rightarrow> mem \<Rightarrow> mem option) \<Rightarrow>
   (pb_field list \<Rightarrow> addr \<Rightarrow> 's pb_istream \<Rightarrow> mem \<Rightarrow> (unit, 's) dres) \<Rightarrow>
   's pb_istream \<Rightarrow> addr \<Rightarrow> nat \<Rightarrow> nat \<Rightarrow> mem \<Rightarrow> (unit, 's) dres" where
  "default_extension_decoder n env defaults noinit stream ext tag wire_type m =
     (if f_tag (field_at (ext_fields env m ext) 0) \<noteq> tag then dreturn () stream m
      else
        let iter = iter_from_extension env m ext; m = store_bool m (ext_found_slot ext) True in
        decode_field n env defaults noinit stream wire_type iter m)"

text \<open>The walk over the list of extensions (\<open>n\<close> bounds its length), from \<open>extension\<close> on.\<close>

fun extension_loop ::
  "nat \<Rightarrow> nat \<Rightarrow> 's dec_env \<Rightarrow> (pb_field list \<Rightarrow> addr \<Rightarrow> mem \<Rightarrow> mem option) \<Rightarrow>
   (pb_field list \<Rightarrow> addr \<Rightarrow> 's pb_istream \<Rightarrow> mem \<Rightarrow> (unit, 's) dres) \<Rightarrow> nat \<Rightarrow> nat \<Rightarrow> nat \<Rightarrow>
   addr \<Rightarrow> 's pb_istream \<Rightarrow> mem \<Rightarrow> (unit, 's) dres" where
  "extension_loop 0 k env defaults noinit tag wire_type pos extension stream m = None"
| "extension_loop (Suc n) k env defaults noinit tag wire_type pos extension stream m =
     (if extension \<noteq> 0 \<and> pos = is_bytes_left stream then
        sbind (let decode = exttype_decode m (ext_type m extension) in
               if decode \<noteq> 0 then user_result (de_ext_decode env decode stream extension tag wire_type m)
               else default_extension_decoder k env defaults noinit stream extension tag wire_type m)
          (\<lambda>_ (stream, m).
            extension_loop n k env defaults noinit tag wire_type pos (ext_next m extension) stream m)
      else dreturn () stream m)"

definition decode_extension ::
  "nat \<Rightarrow> 's dec_env \<Rightarrow> (pb_field list \<Rightarrow> addr \<Rightarrow> mem \<Rightarrow> mem option) \<Rightarrow>
   (pb_field list \<Rightarrow> addr \<Rightarrow> 's pb_istream \<Rightarrow> mem \<Rightarrow> (unit, 's) dres) \<Rightarrow>
   's pb_istream \<Rightarrow> nat \<Rightarrow> nat \<Rightarrow> pb_field_iter \<Rightarrow> mem \<Rightarrow> (unit, 's) dres" where
  "decode_extension n env defaults noinit stream tag wire_type iter m =
     extension_loop n n env defaults noinit tag wire_type (is_bytes_left stream)
       (load_ptr m (it_pData iter)) stream m"

definition find_extension_field :: "pb_field_iter \<Rightarrow> (bool \<times> pb_field_iter) option" where
  "find_extension_field iter =
     iter_search (Suc (length (it_start iter)))
       (\<lambda>f. PB_LTYPE (f_type f) = PB_LTYPE_EXTENSION) iter (it_pos iter)"

section \<open>Default values\<close>

text \<open>
  \<open>pb_field_set_to_default\<close>, its loop over the extensions, and \<open>pb_message_set_to_defaults\<close> call
  each other; the fuel bounds the depth of the calls and the length of extension lists.
\<close>

fun pb_field_set_to_default :: "nat \<Rightarrow> 's dec_env \<Rightarrow> pb_field_iter \<Rightarrow> mem \<Rightarrow> mem option"
  and ext_set_to_default :: "nat \<Rightarrow> 's dec_env \<Rightarrow> addr \<Rightarrow> mem \<Rightarrow> mem option"
  and pb_message_set_to_defaults :: "nat \<Rightarrow> 's dec_env \<Rightarrow> pb_field list \<Rightarrow> addr \<Rightarrow> mem \<Rightarrow> mem option" where
  "pb_field_set_to_default 0 env iter m = None"
| "pb_field_set_to_default (Suc n) env iter m =
     (let field = it_field iter; type = f_type field; pData = it_pData iter; pSize = it_pSize iter in
      if PB_LTYPE type = PB_LTYPE_EXTENSION then ext_set_to_default n env (load_ptr m pData) m
      else if PB_ATYPE type = PB_ATYPE_STATIC then
        (case (if PB_HTYPE type = PB_HTYPE_OPTIONAL \<and> pSize \<noteq> pData
               then (store_bool m pSize False, True)
               else if PB_HTYPE type = PB_HTYPE_REPEATED \<or> PB_HTYPE type = PB_HTYPE_ONEOF
               then (store_u32 m pSize 0, False)
               else (m, True)) of
           (m, init_data) \<Rightarrow>
             if init_data then
               (if PB_LTYPE type = PB_LTYPE_SUBMESSAGE
                then pb_message_set_to_defaults n env (de_tables env (f_ptr field)) pData m
                else if f_ptr field \<noteq> 0
                then Some (mem_store m pData (mem_load m (f_ptr field) (f_data_size field)))
                else Some (mem_store m pData (replicate (f_data_size field) 0)))
             else Some m)
      else if PB_ATYPE type = PB_ATYPE_POINTER then
        (let m = store_ptr m pData 0 in
         if PB_HTYPE type = PB_HTYPE_REPEATED \<or> PB_HTYPE type = PB_HTYPE_ONEOF
         then Some (store_u32 m pSize 0) else Some m)
      else Some m)"
| "ext_set_to_default 0 env ext m = None"
| "ext_set_to_default (Suc n) env ext m =
     (if ext = 0 then Some m
      else
        let m = store_bool m (ext_found_slot ext) False in
        do {
          m \<leftarrow> pb_field_set_to_default n env (iter_from_extension env m ext) m;
          ext_set_to_default n env (ext_next m ext) m
        })"
| "pb_message_set_to_defaults 0 env fs dest m = None"
| "pb_message_set_to_defaults (Suc n) env fs dest m =
     (case pb_field_iter_begin fs dest of (nonempty, iter) \<Rightarrow>
        if \<not> nonempty then Some m
        else map_option snd
          (pb_iter_do (\<lambda>iter m. map_option (Pair True) (pb_field_set_to_default n env iter m)) iter m))"

section \<open>The field loop\<close>

definition PB_MAX_REQUIRED_FIELDS :: nat where
  "PB_MAX_REQUIRED_FIELDS = 64"

text \<open>\<^verbatim>\<open>fields_seen[index >> 5] |= 1 << (index & 31)\<close> for the required fields that are tracked.\<close>

definition mark_seen :: "pb_field_iter \<Rightarrow> u32 list \<Rightarrow> u32 list" where
  "mark_seen iter seen =
     (if PB_HTYPE (f_type (it_field iter)) = PB_HTYPE_REQUIRED \<and> it_required iter < PB_MAX_REQUIRED_FIELDS
      then seen[it_required iter div 32 :=
             (seen ! (it_required iter div 32)) OR push_bit (it_required iter mod 32) 1]
      else seen)"

text \<open>
  One turn of the loop, for a tag that has been read. The local variables that live across turns
  are the iterator, the bits of the required fields seen, and the start of the extension range.
\<close>

definition decode_one ::
  "nat \<Rightarrow> 's dec_env \<Rightarrow> (pb_field list \<Rightarrow> addr \<Rightarrow> mem \<Rightarrow> mem option) \<Rightarrow>
   (pb_field list \<Rightarrow> addr \<Rightarrow> 's pb_istream \<Rightarrow> mem \<Rightarrow> (unit, 's) dres) \<Rightarrow> nat \<Rightarrow> nat \<Rightarrow>
   pb_field_iter \<times> u32 list \<times> nat \<Rightarrow> 's pb_istream \<Rightarrow> mem \<Rightarrow> (pb_field_iter \<times> u32 list \<times> nat, 's) dres" where
  "decode_one n env defaults noinit wire_type tag vars stream m =
     (case vars of (iter, seen, ext_start) \<Rightarrow>
        do {
          (found, iter) \<leftarrow> pb_field_iter_find iter tag;
          if \<not> found then
            let skip = (\<lambda>vars stream m. sbind (with_mem m (pb_skip_field stream wire_type))
                          (\<lambda>_ (stream, m). dreturn vars stream m)) in
            if tag \<ge> ext_start then
              do {
                (found, iter) \<leftarrow> find_extension_field iter;
                let ext_start = (if \<not> found then 2 ^ 32 - 1 else f_tag (it_field iter));
                if tag \<ge> ext_start then
                  let pos = is_bytes_left stream in
                  sbind (decode_extension n env defaults noinit stream tag wire_type iter m)
                    (\<lambda>_ (stream, m).
                      if pos \<noteq> is_bytes_left stream then dreturn (iter, seen, ext_start) stream m
                      else skip (iter, seen, ext_start) stream m)
                else skip (iter, seen, ext_start) stream m
              }
            else skip (iter, seen, ext_start) stream m
          else
            let seen = mark_seen iter seen in
            sbind (decode_field n env defaults noinit stream wire_type iter m)
              (\<lambda>_ (stream, m). dreturn (iter, seen, ext_start) stream m)
        })"

fun decode_loop ::
  "nat \<Rightarrow> nat \<Rightarrow> 's dec_env \<Rightarrow> (pb_field list \<Rightarrow> addr \<Rightarrow> mem \<Rightarrow> mem option) \<Rightarrow>
   (pb_field list \<Rightarrow> addr \<Rightarrow> 's pb_istream \<Rightarrow> mem \<Rightarrow> (unit, 's) dres) \<Rightarrow>
   pb_field_iter \<times> u32 list \<times> nat \<Rightarrow> 's pb_istream \<Rightarrow> mem \<Rightarrow> (pb_field_iter \<times> u32 list \<times> nat, 's) dres" where
  "decode_loop 0 n env defaults noinit vars stream m = None"
| "decode_loop (Suc k) n env defaults noinit vars stream m =
     (if is_bytes_left stream = 0 then dreturn vars stream m
      else
        (case pb_decode_tag stream of
           None \<Rightarrow> None
         | Some (TagEof, stream) \<Rightarrow> dreturn vars stream m
         | Some (TagFail, stream) \<Rightarrow> Some (None, (stream, m))
         | Some (TagOk wire_type tag, stream) \<Rightarrow>
             sbind (decode_one n env defaults noinit wire_type tag vars stream m)
               (\<lambda>vars (stream, m). decode_loop k n env defaults noinit vars stream m)))"

section \<open>Required fields\<close>

text \<open>
  The number of required fields: the iterator is stepped to its last entry, whose index counts
  the required fields before it.
\<close>

definition count_required :: "pb_field_iter \<Rightarrow> nat option" where
  "count_required iter =
     do {
       (_, (req_field_count, last_type)) \<leftarrow>
         pb_iter_do (\<lambda>iter _. Some (True, (it_required iter, f_type (it_field iter)))) iter (0, 0);
       Some (if PB_HTYPE last_type = PB_HTYPE_REQUIRED \<and> f_tag (field_at (it_start iter) 0) \<noteq> 0
             then Suc req_field_count else req_field_count)
     }"

text \<open>
  The whole words, then the remaining bits. \<^verbatim>\<open>fields_seen\<close> has two entries: reading beyond them
  is undefined, and so is the shift by 32 when no bits remain.
\<close>

fun check_words :: "u32 list \<Rightarrow> nat \<Rightarrow> nat \<Rightarrow> bool option" where
  "check_words seen i 0 = Some True"
| "check_words seen i (Suc n) =
     (if i \<ge> length seen then None
      else if seen ! i \<noteq> NOT 0 then Some False
      else check_words seen (Suc i) n)"

definition check_required :: "u32 list \<Rightarrow> nat \<Rightarrow> bool option" where
  "check_required seen req_field_count =
     (if req_field_count = 0 then Some True
      else
        do {
          ok \<leftarrow> check_words seen 0 (req_field_count div 32);
          if \<not> ok then Some False
          else if req_field_count mod 32 = 0 then None
          else if req_field_count div 32 \<ge> length seen then None
          else Some (seen ! (req_field_count div 32) = drop_bit (32 - req_field_count mod 32) (NOT 0))
        })"

section \<open>Messages\<close>

fun pb_decode_noinit ::
  "nat \<Rightarrow> 's dec_env \<Rightarrow> pb_field list \<Rightarrow> addr \<Rightarrow> 's pb_istream \<Rightarrow> mem \<Rightarrow> (unit, 's) dres" where
  "pb_decode_noinit 0 env fs dest stream m = None"
| "pb_decode_noinit (Suc n) env fs dest stream m =
     sbind (decode_loop n n env (pb_message_set_to_defaults n env) (pb_decode_noinit n env)
              (snd (pb_field_iter_begin fs dest), [0, 0], 0) stream m)
       (\<lambda>(iter, seen, _) (stream, m).
         do {
           req_field_count \<leftarrow> count_required iter;
           ok \<leftarrow> check_required seen req_field_count;
           if ok then dreturn () stream m
           else pb_dreturn_error ''missing required field'' stream m
         })"

definition pb_decode ::
  "nat \<Rightarrow> 's dec_env \<Rightarrow> pb_field list \<Rightarrow> addr \<Rightarrow> 's pb_istream \<Rightarrow> mem \<Rightarrow> (unit, 's) dres" where
  "pb_decode n env fs dest stream m =
     do {
       m \<leftarrow> pb_message_set_to_defaults n env fs dest m;
       pb_decode_noinit n env fs dest stream m
     }"

definition pb_decode_delimited ::
  "nat \<Rightarrow> 's dec_env \<Rightarrow> pb_field list \<Rightarrow> addr \<Rightarrow> 's pb_istream \<Rightarrow> mem \<Rightarrow> (unit, 's) dres" where
  "pb_decode_delimited n env fs dest stream m =
     sbind (with_mem m (pb_make_string_substream stream)) (\<lambda>substream (stream, m).
       do {
         (status, (substream, m)) \<leftarrow> pb_decode n env fs dest substream m;
         sbind (with_mem m (pb_close_string_substream stream substream)) (\<lambda>_ st. Some (status, st))
       })"

end
