(* ===== verification/Pb_Encode.thy ===== *)
theory Pb_Encode
  imports Pb_Codec
begin

text \<open>
  The message encoder of nanopb (\<^verbatim>\<open>pb_encode.c\<close>): the field encoders, arrays and their packing,
  presence of optional and proto3 fields, callbacks, extensions, submessages (whose size is found
  with a sizing stream first) and the loop over the fields. The structure is read from memory at
  the addresses the field iterator computes; the encoder never writes to it, so the state is the
  output stream alone.
\<close>

unbundle bit_operations_syntax

section \<open>The environment\<close>

record 's enc_env =
  ee_tables :: "addr \<Rightarrow> pb_field list"
  ee_callback :: "addr \<Rightarrow> 's pb_ostream \<Rightarrow> pb_field \<Rightarrow> addr \<Rightarrow> mem \<Rightarrow> bool \<times> 's pb_ostream"
  ee_ext_encode :: "addr \<Rightarrow> 's pb_ostream \<Rightarrow> addr \<Rightarrow> mem \<Rightarrow> bool \<times> 's pb_ostream"

type_synonym 's eres = "(unit, 's pb_ostream) cres"

abbreviation ereturn :: "'s pb_ostream \<Rightarrow> 's eres" where
  "ereturn stream \<equiv> Some (Some (), stream)"

definition euser_result :: "bool \<times> 's pb_ostream \<Rightarrow> 's eres" where
  "euser_result r = (case r of (ok, stream) \<Rightarrow> Some (if ok then Some () else None, stream))"

text \<open>A signed load of \<open>n\<close> bytes.\<close>

definition load_int :: "mem \<Rightarrow> addr \<Rightarrow> nat \<Rightarrow> int" where
  "load_int m a n = signed_take_bit (8 * n - 1) (int (load_nat m a n))"

section \<open>Field encoders\<close>

definition pb_enc_varint :: "mem \<Rightarrow> 's pb_ostream \<Rightarrow> pb_field \<Rightarrow> addr \<Rightarrow> 's eres" where
  "pb_enc_varint m stream field src =
     (if f_data_size field \<in> {1, 2, 4, 8}
      then pb_encode_varint stream (word_of_int (load_int m src (f_data_size field)))
      else pb_oreturn_error ''invalid data_size'' stream)"

definition pb_enc_uvarint :: "mem \<Rightarrow> 's pb_ostream \<Rightarrow> pb_field \<Rightarrow> addr \<Rightarrow> 's eres" where
  "pb_enc_uvarint m stream field src =
     (if f_data_size field \<in> {1, 2, 4, 8}
      then pb_encode_varint stream (of_nat (load_nat m src (f_data_size field)))
      else pb_oreturn_error ''invalid data_size'' stream)"

definition pb_enc_svarint :: "mem \<Rightarrow> 's pb_ostream \<Rightarrow> pb_field \<Rightarrow> addr \<Rightarrow> 's eres" where
  "pb_enc_svarint m stream field src =
     (if f_data_size field \<in> {1, 2, 4, 8}
      then pb_encode_svarint stream (word_of_int (load_int m src (f_data_size field)))
      else pb_oreturn_error ''invalid data_size'' stream)"

definition pb_enc_fixed64 :: "mem \<Rightarrow> 's pb_ostream \<Rightarrow> pb_field \<Rightarrow> addr \<Rightarrow> 's eres" where
  "pb_enc_fixed64 m stream field src = pb_encode_fixed64 stream (of_nat (load_nat m src 8))"

definition pb_enc_fixed32 :: "mem \<Rightarrow> 's pb_ostream \<Rightarrow> pb_field \<Rightarrow> addr \<Rightarrow> 's eres" where
  "pb_enc_fixed32 m stream field src = pb_encode_fixed32 stream (of_nat (load_nat m src 4))"

definition pb_enc_bytes :: "mem \<Rightarrow> 's pb_ostream \<Rightarrow> pb_field \<Rightarrow> addr \<Rightarrow> 's eres" where
  "pb_enc_bytes m stream field src =
     (if src = 0 then pb_encode_string stream None 0
      else
        let n = load_u32 m src in
        if PB_ATYPE (f_type field) = PB_ATYPE_STATIC \<and> size_add n 4 > f_data_size field
        then pb_oreturn_error ''bytes size exceeded'' stream
        else pb_encode_string stream (Some (mem_load m (src + 4) n)) n)"

text \<open>
  The length of a string: the loop stops at a zero byte or at \<open>max_size\<close>. For a pointer field
  \<open>max_size\<close> is the largest \<^verbatim>\<open>size_t\<close>, so the search is bounded by the terminator only.
\<close>

function string_length :: "mem \<Rightarrow> addr \<Rightarrow> nat \<Rightarrow> nat \<Rightarrow> nat" where
  "string_length m p max_size len =
     (if len < max_size \<and> m (p + len) \<noteq> 0 then string_length m p max_size (Suc len) else len)"
  by pat_completeness auto
termination by (relation "measure (\<lambda>(m, p, max_size, len). max_size - len)") auto

declare string_length.simps [simp del]

definition pb_enc_string :: "mem \<Rightarrow> 's pb_ostream \<Rightarrow> pb_field \<Rightarrow> addr \<Rightarrow> 's eres" where
  "pb_enc_string m stream field src =
     (let max_size = (if PB_ATYPE (f_type field) = PB_ATYPE_POINTER then 2 ^ 64 - 1 else f_data_size field) in
      if src = 0 then pb_encode_string stream None 0
      else
        let len = string_length m src max_size 0 in
        pb_encode_string stream (Some (mem_load m src len)) len)"

text \<open>
  \<open>pb_encode_submessage\<close>: \<open>encode\<close> is \<open>pb_encode\<close> on the submessage's table and structure.
\<close>

definition pb_encode_submessage :: "('s pb_ostream \<Rightarrow> 's eres) \<Rightarrow> 's pb_ostream \<Rightarrow> 's eres" where
  "pb_encode_submessage encode stream =
     (case encode PB_OSTREAM_SIZING of
        None \<Rightarrow> None
      | Some (None, substream) \<Rightarrow> Some (None, stream\<lparr>os_errmsg := os_errmsg substream\<rparr>)
      | Some (Some _, substream) \<Rightarrow>
          let len = os_bytes_written substream in
          sbind (pb_encode_varint stream (of_nat len)) (\<lambda>_ stream.
            if is_sizing stream then pb_write stream None len
            else if size_add (os_bytes_written stream) len > os_max_size stream
              then pb_oreturn_error ''stream full'' stream
            else
              do {
                (status, substream) \<leftarrow>
                  encode \<lparr>os_dst = os_dst stream, os_max_size = len, os_bytes_written = 0, os_errmsg = None\<rparr>;
                let stream = stream\<lparr>
                  os_bytes_written := size_add (os_bytes_written stream) (os_bytes_written substream),
                  os_dst := os_dst substream, os_errmsg := os_errmsg substream\<rparr>;
                if os_bytes_written substream \<noteq> len
                then pb_oreturn_error ''submsg size changed'' stream
                else Some (status, stream)
              }))"

definition pb_enc_submessage ::
  "'s enc_env \<Rightarrow> (pb_field list \<Rightarrow> addr \<Rightarrow> 's pb_ostream \<Rightarrow> 's eres) \<Rightarrow>
   's pb_ostream \<Rightarrow> pb_field \<Rightarrow> addr \<Rightarrow> 's eres" where
  "pb_enc_submessage env encode stream field src =
     (if f_ptr field = 0 then pb_oreturn_error ''invalid field descriptor'' stream
      else pb_encode_submessage (encode (ee_tables env (f_ptr field)) src) stream)"

definition pb_enc_fixed_length_bytes :: "mem \<Rightarrow> 's pb_ostream \<Rightarrow> pb_field \<Rightarrow> addr \<Rightarrow> 's eres" where
  "pb_enc_fixed_length_bytes m stream field src =
     pb_encode_string stream (Some (mem_load m src (f_data_size field))) (f_data_size field)"

text \<open>The table \<^verbatim>\<open>PB_ENCODERS\<close>, applied; the entry for extensions is NULL.\<close>

definition pb_encoder ::
  "'s enc_env \<Rightarrow> mem \<Rightarrow> (pb_field list \<Rightarrow> addr \<Rightarrow> 's pb_ostream \<Rightarrow> 's eres) \<Rightarrow>
   byte \<Rightarrow> 's pb_ostream \<Rightarrow> pb_field \<Rightarrow> addr \<Rightarrow> 's eres" where
  "pb_encoder env m encode ltype =
     (if ltype = PB_LTYPE_VARINT then pb_enc_varint m
      else if ltype = PB_LTYPE_UVARINT then pb_enc_uvarint m
      else if ltype = PB_LTYPE_SVARINT then pb_enc_svarint m
      else if ltype = PB_LTYPE_FIXED32 then pb_enc_fixed32 m
      else if ltype = PB_LTYPE_FIXED64 then pb_enc_fixed64 m
      else if ltype = PB_LTYPE_BYTES then pb_enc_bytes m
      else if ltype = PB_LTYPE_STRING then pb_enc_string m
      else if ltype = PB_LTYPE_SUBMESSAGE then pb_enc_submessage env encode
      else if ltype = PB_LTYPE_FIXED_LENGTH_BYTES then pb_enc_fixed_length_bytes m
      else (\<lambda>stream field src. None))"

section \<open>Arrays\<close>

text \<open>The \<^verbatim>\<open>for\<close> loop over the elements, \<open>count\<close> of them from address \<open>p\<close> on.\<close>

fun encode_items ::
  "('s pb_ostream \<Rightarrow> addr \<Rightarrow> 's eres) \<Rightarrow> nat \<Rightarrow> nat \<Rightarrow> addr \<Rightarrow> 's pb_ostream \<Rightarrow> 's eres" where
  "encode_items item data_size 0 p stream = ereturn stream"
| "encode_items item data_size (Suc count) p stream =
     sbind (item stream p) (\<lambda>_ stream. encode_items item data_size count (p + data_size) stream)"

definition encode_array ::
  "mem \<Rightarrow> 's pb_ostream \<Rightarrow> pb_field \<Rightarrow> addr \<Rightarrow> nat \<Rightarrow>
   ('s pb_ostream \<Rightarrow> pb_field \<Rightarrow> addr \<Rightarrow> 's eres) \<Rightarrow> 's eres" where
  "encode_array m stream field pData count func =
     (let lt = PB_LTYPE (f_type field); item = (\<lambda>stream p. func stream field p) in
      if count = 0 then ereturn stream
      else if PB_ATYPE (f_type field) \<noteq> PB_ATYPE_POINTER \<and> count > f_array_size field
        then pb_oreturn_error ''array max size exceeded'' stream
      else if lt \<le> PB_LTYPE_LAST_PACKABLE then
        sbind (pb_encode_tag stream PB_WT_STRING (f_tag field)) (\<lambda>_ stream.
          let total =
            (if lt = PB_LTYPE_FIXED32 then Some (Some (4 * count))
             else if lt = PB_LTYPE_FIXED64 then Some (Some (8 * count))
             else (case encode_items item (f_data_size field) count pData PB_OSTREAM_SIZING of
                     None \<Rightarrow> None
                   | Some (None, _) \<Rightarrow> Some None
                   | Some (Some _, sizestream) \<Rightarrow> Some (Some (os_bytes_written sizestream)))) in
          case total of
            None \<Rightarrow> None
          | Some None \<Rightarrow> Some (None, stream)
          | Some (Some len) \<Rightarrow>
              sbind (pb_encode_varint stream (of_nat len)) (\<lambda>_ stream.
                if is_sizing stream then pb_write stream None len
                else encode_items item (f_data_size field) count pData stream))
      else
        encode_items (\<lambda>stream p.
            sbind (pb_encode_tag_for_field stream field) (\<lambda>_ stream.
              if PB_ATYPE (f_type field) = PB_ATYPE_POINTER
                 \<and> (lt = PB_LTYPE_STRING \<or> lt = PB_LTYPE_BYTES)
              then func stream field (load_ptr m p)
              else func stream field p))
          (f_data_size field) count pData stream)"

section \<open>Fields\<close>

text \<open>
  The proto3 test for a zero value. The recursion over submessages takes a fuel that bounds the
  nesting depth; all the other branches look at bytes.
\<close>

fun pb_check_proto3_default_value ::
  "nat \<Rightarrow> 's enc_env \<Rightarrow> mem \<Rightarrow> pb_field \<Rightarrow> addr \<Rightarrow> bool option" where
  "pb_check_proto3_default_value 0 env m field pData = None"
| "pb_check_proto3_default_value (Suc n) env m field pData =
     (let lt = PB_LTYPE (f_type field);
          zero = (\<forall>i \<in> set [0..<f_data_size field]. m (pData + i) = 0) in
      if PB_ATYPE (f_type field) = PB_ATYPE_STATIC then
        (if lt = PB_LTYPE_BYTES then Some (load_u32 m pData = 0)
         else if lt = PB_LTYPE_STRING then Some (m pData = 0)
         else if lt = PB_LTYPE_FIXED_LENGTH_BYTES then Some (f_data_size field = 0)
         else if lt = PB_LTYPE_SUBMESSAGE then
           (case pb_field_iter_begin (ee_tables env (f_ptr field)) pData of (nonempty, iter) \<Rightarrow>
              if nonempty then
                map_option fst
                  (pb_iter_do (\<lambda>iter _. map_option (\<lambda>b. (b, ()))
                     (pb_check_proto3_default_value n env m (it_field iter) (it_pData iter))) iter ())
              else Some True)
         else Some zero)
      else Some zero)"

definition encode_basic_field ::
  "nat \<Rightarrow> 's enc_env \<Rightarrow> mem \<Rightarrow> (pb_field list \<Rightarrow> addr \<Rightarrow> 's pb_ostream \<Rightarrow> 's eres) \<Rightarrow>
   's pb_ostream \<Rightarrow> pb_field \<Rightarrow> addr \<Rightarrow> 's eres" where
  "encode_basic_field n env m encode stream field pData =
     (let func = pb_encoder env m encode (PB_LTYPE (f_type field));
          pSize = ptr_add pData (f_size_offset field);
          explicit = (f_size_offset field \<noteq> 0);
          pointer = (PB_ATYPE (f_type field) = PB_ATYPE_POINTER) in
      do {
        implicit_has \<leftarrow>
          (if explicit then Some True
           else if PB_HTYPE (f_type field) = PB_HTYPE_OPTIONAL
           then map_option Not (pb_check_proto3_default_value n env m field pData)
           else Some True);
        let pData = (if pointer then load_ptr m pData else pData);
        let implicit_has = (if pointer then pData \<noteq> 0 else implicit_has);
        let single = sbind (pb_encode_tag_for_field stream field) (\<lambda>_ stream. func stream field pData);
        if PB_HTYPE (f_type field) = PB_HTYPE_REQUIRED then
          (if pData = 0 then pb_oreturn_error ''missing required field'' stream else single)
        else if PB_HTYPE (f_type field) = PB_HTYPE_OPTIONAL then
          (if (if explicit then load_bool m pSize else implicit_has) then single else ereturn stream)
        else if PB_HTYPE (f_type field) = PB_HTYPE_REPEATED then
          (if explicit then encode_array m stream field pData (load_u32 m pSize) func else None)
        else if PB_HTYPE (f_type field) = PB_HTYPE_ONEOF then
          (if \<not> explicit then None
           else if load_u32 m pSize = f_tag field then single else ereturn stream)
        else pb_oreturn_error ''invalid field type'' stream
      })"

definition encode_callback_field ::
  "'s enc_env \<Rightarrow> mem \<Rightarrow> 's pb_ostream \<Rightarrow> pb_field \<Rightarrow> addr \<Rightarrow> 's eres" where
  "encode_callback_field env m stream field pData =
     (let encode = load_ptr m pData; arg = pData + 8 in
      if encode \<noteq> 0 then
        (case ee_callback env encode stream field arg m of (ok, stream) \<Rightarrow>
           if \<not> ok then pb_oreturn_error ''callback error'' stream else ereturn stream)
      else ereturn stream)"

definition encode_field ::
  "nat \<Rightarrow> 's enc_env \<Rightarrow> mem \<Rightarrow> (pb_field list \<Rightarrow> addr \<Rightarrow> 's pb_ostream \<Rightarrow> 's eres) \<Rightarrow>
   's pb_ostream \<Rightarrow> pb_field \<Rightarrow> addr \<Rightarrow> 's eres" where
  "encode_field n env m encode stream field pData =
     (let atype = PB_ATYPE (f_type field) in
      if atype = PB_ATYPE_STATIC \<or> atype = PB_ATYPE_POINTER
        then encode_basic_field n env m encode stream field pData
      else if atype = PB_ATYPE_CALLBACK then encode_callback_field env m stream field pData
      else pb_oreturn_error ''invalid field type'' stream)"

section \<open>Extensions\<close>

text \<open>The slots of \<^verbatim>\<open>pb_extension_t\<close> and \<^verbatim>\<open>pb_extension_type_t\<close> as in the decoder.\<close>

definition default_extension_encoder ::
  "nat \<Rightarrow> 's enc_env \<Rightarrow> mem \<Rightarrow> (pb_field list \<Rightarrow> addr \<Rightarrow> 's pb_ostream \<Rightarrow> 's eres) \<Rightarrow>
   's pb_ostream \<Rightarrow> addr \<Rightarrow> 's eres" where
  "default_extension_encoder n env m encode stream ext =
     (let field = field_at (ee_tables env (load_ptr m (load_ptr m ext + 16))) 0 in
      if PB_ATYPE (f_type field) = PB_ATYPE_POINTER
      then encode_field n env m encode stream field (ext + 8)
      else encode_field n env m encode stream field (load_ptr m (ext + 8)))"

text \<open>The list of extensions; the first argument bounds its length.\<close>

fun encode_extension_list ::
  "nat \<Rightarrow> nat \<Rightarrow> 's enc_env \<Rightarrow> mem \<Rightarrow> (pb_field list \<Rightarrow> addr \<Rightarrow> 's pb_ostream \<Rightarrow> 's eres) \<Rightarrow>
   's pb_ostream \<Rightarrow> addr \<Rightarrow> 's eres" where
  "encode_extension_list 0 n env m encode stream ext = None"
| "encode_extension_list (Suc k) n env m encode stream ext =
     (if ext = 0 then ereturn stream
      else
        sbind (let enc = load_ptr m (load_ptr m ext + 8) in
               if enc \<noteq> 0 then euser_result (ee_ext_encode env enc stream ext m)
               else default_extension_encoder n env m encode stream ext)
          (\<lambda>_ stream. encode_extension_list k n env m encode stream (load_ptr m (ext + 16))))"

definition encode_extension_field ::
  "nat \<Rightarrow> 's enc_env \<Rightarrow> mem \<Rightarrow> (pb_field list \<Rightarrow> addr \<Rightarrow> 's pb_ostream \<Rightarrow> 's eres) \<Rightarrow>
   's pb_ostream \<Rightarrow> addr \<Rightarrow> 's eres" where
  "encode_extension_field n env m encode stream pData =
     encode_extension_list n n env m encode stream (load_ptr m pData)"

section \<open>Messages\<close>

text \<open>The fuel bounds the nesting depth of submessages and the length of extension lists.\<close>

fun pb_encode ::
  "nat \<Rightarrow> 's enc_env \<Rightarrow> mem \<Rightarrow> pb_field list \<Rightarrow> addr \<Rightarrow> 's pb_ostream \<Rightarrow> 's eres" where
  "pb_encode 0 env m fs src stream = None"
| "pb_encode (Suc n) env m fs src stream =
     (case pb_field_iter_begin fs src of (nonempty, iter) \<Rightarrow>
        if \<not> nonempty then ereturn stream
        else
          map_option (\<lambda>(ok, stream). (if ok then Some () else None, stream))
            (pb_iter_do
              (\<lambda>iter stream.
                map_option (\<lambda>(v, stream). (v \<noteq> None, stream))
                  (if PB_LTYPE (f_type (it_field iter)) = PB_LTYPE_EXTENSION
                   then encode_extension_field n env m (pb_encode n env m) stream (it_pData iter)
                   else encode_field n env m (pb_encode n env m) stream (it_field iter) (it_pData iter)))
              iter stream))"

definition pb_encode_delimited ::
  "nat \<Rightarrow> 's enc_env \<Rightarrow> mem \<Rightarrow> pb_field list \<Rightarrow> addr \<Rightarrow> 's pb_ostream \<Rightarrow> 's eres" where
  "pb_encode_delimited n env m fs src stream = pb_encode_submessage (pb_encode n env m fs src) stream"

definition pb_get_encoded_size ::
  "nat \<Rightarrow> 's enc_env \<Rightarrow> mem \<Rightarrow> pb_field list \<Rightarrow> addr \<Rightarrow> nat option option" where
  "pb_get_encoded_size n env m fs src =
     (case pb_encode n env m fs src (PB_OSTREAM_SIZING :: 's pb_ostream) of
        None \<Rightarrow> None
      | Some (None, _) \<Rightarrow> Some None
      | Some (Some _, stream) \<Rightarrow> Some (Some (os_bytes_written stream)))"

end
