(* ===== verification/Pb_Safety.thy ===== *)
theory Pb_Safety
  imports Pb_Message
begin

text \<open>
  What the decoder does on input that nobody vouches for: with a field table that fits its structure,
  and whatever bytes are in the stream, decoding returns, reads only inside the buffer, and writes only
  inside the structure. The lemmas follow the calls from the stream up to the message.
\<close>

section \<open>Buffer streams that stay in their buffer\<close>

text \<open>
  The limit of the stream lies within its buffer. The spare bytes are those of the buffer behind
  the limit: an operation on a substream must not eat into them, because they belong to the
  outer stream.
\<close>

definition stream_ok :: "'s pb_istream \<Rightarrow> bool" where
  "stream_ok stream \<longleftrightarrow> (\<exists>bs. is_src stream = BufSrc bs \<and> is_bytes_left stream \<le> length bs)"

definition spare :: "'s pb_istream \<Rightarrow> nat" where
  "spare stream = (case is_src stream of BufSrc bs \<Rightarrow> length bs - is_bytes_left stream | UserSrc _ _ \<Rightarrow> 0)"

definition reads_ok :: "'s pb_istream \<Rightarrow> 's pb_istream \<Rightarrow> bool" where
  "reads_ok stream stream' \<longleftrightarrow>
     stream_ok stream' \<and> is_bytes_left stream' \<le> is_bytes_left stream \<and> spare stream \<le> spare stream'"

lemma reads_ok_refl [intro]: "stream_ok stream \<Longrightarrow> reads_ok stream stream"
  by (simp add: reads_ok_def)

lemma reads_ok_trans: "reads_ok s s' \<Longrightarrow> reads_ok s' s'' \<Longrightarrow> reads_ok s s''"
  by (simp add: reads_ok_def)

lemma reads_ok_stream_ok: "reads_ok s s' \<Longrightarrow> stream_ok s'"
  by (simp add: reads_ok_def)

lemma reads_ok_left: "reads_ok s s' \<Longrightarrow> is_bytes_left s' \<le> is_bytes_left s"
  by (simp add: reads_ok_def)

lemma set_error_simps [simp]:
  "is_src (set_error msg s) = is_src s" "is_bytes_left (set_error msg s) = is_bytes_left s"
  by (simp_all add: set_error_def)

lemma reads_ok_set_error [simp]: "reads_ok s (set_error msg s') = reads_ok s s'"
  by (simp add: reads_ok_def stream_ok_def spare_def cong: istream_src.case_cong)

lemma reads_ok_advance: "stream_ok s \<Longrightarrow> n \<le> is_bytes_left s \<Longrightarrow> reads_ok s (advance n s)"
  by (auto simp: reads_ok_def stream_ok_def spare_def advance_def)

lemma stream_ok_at:
  assumes "stream_ok s" "n \<le> is_bytes_left s"
  obtains xs where "stream_at s xs" "length xs = n"
proof -
  obtain bs where "is_src s = BufSrc bs" "is_bytes_left s \<le> length bs"
    using assms(1) by (auto simp: stream_ok_def)
  then have "stream_at s (take n bs)" "length (take n bs) = n"
    using assms(2) by (auto simp: stream_at_def intro: exI [of _ "drop n bs"])
  then show ?thesis by (rule that)
qed

text \<open>
  An operation on an intact stream: it is not stuck, leaves the stream intact, and if it succeeds
  it has taken at least \<open>k\<close> bytes.
\<close>

definition read_ok :: "nat \<Rightarrow> 's pb_istream \<Rightarrow> ('a, 's pb_istream) cres \<Rightarrow> bool" where
  "read_ok k s r \<longleftrightarrow>
     (\<exists>v s'. r = Some (v, s') \<and> reads_ok s s' \<and> (v \<noteq> None \<longrightarrow> is_bytes_left s' + k \<le> is_bytes_left s))"

lemma read_ok_error [simp]: "stream_ok s \<Longrightarrow> read_ok k s (pb_return_error msg s)"
  by (simp add: read_ok_def reads_ok_refl)

lemma read_ok_fail [simp]: "stream_ok s \<Longrightarrow> read_ok k s (Some (None, s))"
  by (simp add: read_ok_def reads_ok_refl)

lemma read_ok_return [simp]: "stream_ok s \<Longrightarrow> read_ok 0 s (Some (Some v, s))"
  by (simp add: read_ok_def reads_ok_refl)

lemma read_ok_mono: "read_ok k s r \<Longrightarrow> j \<le> k \<Longrightarrow> read_ok j s r"
  by (fastforce simp: read_ok_def)

lemma read_ok_sbind:
  assumes "read_ok k s r"
    and "\<And>v s'. r = Some (Some v, s') \<Longrightarrow> stream_ok s' \<Longrightarrow> is_bytes_left s' + k \<le> is_bytes_left s \<Longrightarrow>
      read_ok 0 s' (f v s')"
  shows "read_ok k s (sbind r f)"
proof -
  obtain v s' where r: "r = Some (v, s')" "reads_ok s s'" "v \<noteq> None \<longrightarrow> is_bytes_left s' + k \<le> is_bytes_left s"
    using assms(1) by (auto simp: read_ok_def)
  show ?thesis
  proof (cases v)
    case None
    with r show ?thesis by (simp add: read_ok_def)
  next
    case (Some a)
    with r assms(2) [of a s'] obtain w s'' where "f a s' = Some (w, s'')" "reads_ok s' s''"
      by (auto simp: read_ok_def reads_ok_def)
    with Some r show ?thesis
      by (auto simp: read_ok_def intro: reads_ok_trans dest: reads_ok_left)
  qed
qed

lemma read_ok_advance:
  "stream_ok s \<Longrightarrow> n \<le> is_bytes_left s \<Longrightarrow> k \<le> n \<Longrightarrow> read_ok k s (Some (Some v, advance n s))"
  by (simp add: read_ok_def reads_ok_advance)

lemma is_buf_stream_ok: "stream_ok s \<Longrightarrow> is_buf_stream s"
  by (auto simp: stream_ok_def is_buf_stream_def)

lemma pb_read_cases:
  assumes "stream_ok s"
  obtains (short) "is_bytes_left s < n" "pb_read s buf n = pb_return_error ''end-of-stream'' s"
  | (ok) bs where "n \<le> is_bytes_left s" "length bs = n" "pb_read s buf n = Some (Some bs, advance n s)"
proof (cases "is_bytes_left s < n")
  case True
  then show ?thesis
    using assms by (intro short) (simp_all add: pb_read_def is_buf_stream_ok pb_read_some_def)
next
  case False
  then obtain xs where "stream_at s xs" "length xs = n"
    using stream_ok_at [OF assms, of n] by auto
  with False show ?thesis by (intro ok) (simp_all add: pb_read_at)
qed

lemma read_ok_pb_read: "stream_ok s \<Longrightarrow> read_ok n s (pb_read s buf n)"
  by (rule pb_read_cases [of s n buf]) (simp_all add: read_ok_advance)

lemma pb_read_length: "stream_ok s \<Longrightarrow> pb_read s buf n = Some (Some bs, s') \<Longrightarrow> length bs = n"
  by (rule pb_read_cases [of s n buf]) auto

lemma read_ok_varint_outcome:
  assumes "stream_at s xs" "is_bytes_left s = length xs"
  shows "read_ok 1 s (varint_outcome n xs s)"
proof -
  have ok: "stream_ok s" using assms by (auto simp: stream_ok_def stream_at_def)
  have len: "length (takeWhile more_bit xs) \<le> length xs" by (rule length_takeWhile_le)
  show ?thesis
    using ok len assms(2)
    by (auto simp: varint_outcome_def read_ok_def Let_def intro!: reads_ok_advance)
qed

lemma read_ok_varint: "stream_ok s \<Longrightarrow> read_ok 1 s (pb_decode_varint s)"
  by (rule stream_ok_at [of s "is_bytes_left s"])
    (simp_all add: pb_decode_varint_any_input read_ok_varint_outcome del: One_nat_def)

lemma read_ok_varint32: "stream_ok s \<Longrightarrow> read_ok 1 s (pb_decode_varint32 s)"
  by (rule stream_ok_at [of s "is_bytes_left s"])
    (simp_all add: pb_decode_varint32_any_input read_ok_varint_outcome del: One_nat_def)

lemma read_ok_svarint: "stream_ok s \<Longrightarrow> read_ok 1 s (pb_decode_svarint s)"
  unfolding pb_decode_svarint_def by (rule read_ok_sbind [OF read_ok_varint]) (auto simp: read_ok_def)

lemma read_ok_fixed32: "stream_ok s \<Longrightarrow> read_ok 4 s (pb_decode_fixed32 s)"
  unfolding pb_decode_fixed32_def by (rule read_ok_sbind [OF read_ok_pb_read]) auto

lemma read_ok_fixed64: "stream_ok s \<Longrightarrow> read_ok 8 s (pb_decode_fixed64 s)"
  unfolding pb_decode_fixed64_def by (rule read_ok_sbind [OF read_ok_pb_read]) auto

lemma read_ok_skip_varint: "stream_ok s \<Longrightarrow> read_ok 1 s (pb_skip_varint s)"
proof (induction s rule: pb_skip_varint.induct)
  case (1 s)
  show ?case
    unfolding pb_skip_varint.simps [of s]
    by (rule read_ok_sbind [OF read_ok_pb_read])
      (auto simp del: One_nat_def intro: 1(2) intro!: read_ok_mono [OF 1(1)])
qed

lemma read_ok_skip_field: "stream_ok s \<Longrightarrow> read_ok 0 s (pb_skip_field s wt)"
  unfolding pb_skip_field_def pb_skip_string_def
  by (auto intro!: read_ok_mono [OF read_ok_skip_varint] read_ok_mono [OF read_ok_sbind [OF read_ok_pb_read]]
      read_ok_mono [OF read_ok_sbind [OF read_ok_varint32]])

lemma read_ok_raw_varint: "stream_ok s \<Longrightarrow> read_ok 0 s (raw_varint_loop s k buf)"
proof (induction s k buf rule: raw_varint_loop.induct)
  case (1 s k buf)
  then show ?case
    unfolding raw_varint_loop.simps [of s k buf]
    by (auto simp: Let_def intro!: read_ok_mono [OF read_ok_sbind [OF read_ok_pb_read]])
qed

lemma read_ok_raw_value: "stream_ok s \<Longrightarrow> read_ok 0 s (read_raw_value s wt k)"
  by (auto simp: read_raw_value_def intro: read_ok_raw_varint read_ok_mono [OF read_ok_pb_read])


section \<open>Substreams\<close>

text \<open>What the substream of a value and the outer stream that waits behind it share.\<close>

definition substream_of :: "'s pb_istream \<Rightarrow> 's pb_istream \<Rightarrow> 's pb_istream \<Rightarrow> bool" where
  "substream_of s sub out \<longleftrightarrow> stream_ok sub \<and> reads_ok s out \<and>
     is_bytes_left sub + is_bytes_left out < is_bytes_left s \<and> spare s + is_bytes_left out \<le> spare sub"

lemma make_substream_cases:
  assumes "stream_ok s"
  obtains (fail) s' where "pb_make_string_substream s = Some (None, s')" "reads_ok s s'"
  | (ok) sub out where "pb_make_string_substream s = Some (Some sub, out)" "substream_of s sub out"
proof -
  obtain v s' where v: "pb_decode_varint32 s = Some (v, s')" "reads_ok s s'"
      "v \<noteq> None \<longrightarrow> is_bytes_left s' + 1 \<le> is_bytes_left s"
    using read_ok_varint32 [OF assms] unfolding read_ok_def by blast
  show ?thesis
  proof (cases v)
    case None
    with v show ?thesis by (intro fail) (simp_all add: pb_make_string_substream_def)
  next
    case (Some size)
    show ?thesis
    proof (cases "is_bytes_left s' < unat size")
      case True
      with v Some show ?thesis
        by (intro fail [of "set_error ''parent stream too short'' s'"]) (simp_all add: pb_make_string_substream_def)
    next
      case False
      with v Some show ?thesis
        by (intro ok) (auto simp: pb_make_string_substream_def substream_of_def reads_ok_def stream_ok_def spare_def)
    qed
  qed
qed

lemma close_substream:
  assumes "substream_of s sub out" "reads_ok sub sub'"
  shows "\<exists>fin. pb_close_string_substream out sub' = Some (Some (), fin) \<and> reads_ok s fin \<and>
    is_bytes_left fin < is_bytes_left s"
proof -
  let ?fin = "out\<lparr>is_src := is_src (advance (is_bytes_left sub') sub'), is_errmsg := is_errmsg sub'\<rparr>"
  have ok: "stream_ok sub'" using assms(2) by (rule reads_ok_stream_ok)
  have "pb_close_string_substream out sub' = Some (Some (), ?fin)"
    using ok by (cases rule: pb_read_cases [of sub' "is_bytes_left sub'" False])
      (auto simp: pb_close_string_substream_def Let_def)
  moreover have "reads_ok s ?fin" "is_bytes_left ?fin < is_bytes_left s"
    using assms by (auto simp: substream_of_def reads_ok_def stream_ok_def spare_def advance_def)
  ultimately show ?thesis by blast
qed

section \<open>Decoders that stay in their memory\<close>

text \<open>
  The same for an operation that also changes the memory: it writes only between \<open>a\<close> and \<open>a + n\<close>.
\<close>

definition dec_ok ::
  "addr \<Rightarrow> nat \<Rightarrow> nat \<Rightarrow> 's pb_istream \<Rightarrow> mem \<Rightarrow> ('a, 's) dres \<Rightarrow> bool" where
  "dec_ok a n k s m r \<longleftrightarrow>
     (\<exists>v s' m'. r = Some (v, (s', m')) \<and> reads_ok s s' \<and> mem_frame a n m m' \<and>
        (v \<noteq> None \<longrightarrow> is_bytes_left s' + k \<le> is_bytes_left s))"

lemma dec_ok_mono: "dec_ok a n k s m r \<Longrightarrow> j \<le> k \<Longrightarrow> dec_ok a n j s m r"
  by (fastforce simp: dec_ok_def)

lemma dec_ok_with_mem: "read_ok k s r \<Longrightarrow> dec_ok a n k s m (with_mem m r)"
  by (auto simp: dec_ok_def read_ok_def with_mem_def)

lemma dec_ok_error [simp]: "stream_ok s \<Longrightarrow> dec_ok a n k s m (pb_dreturn_error msg s m)"
  by (simp add: dec_ok_def reads_ok_refl)

lemma dec_ok_return: "stream_ok s \<Longrightarrow> mem_frame a n m m' \<Longrightarrow> dec_ok a n 0 s m (dreturn v s m')"
  by (simp add: dec_ok_def reads_ok_refl)

lemma dec_ok_fail: "stream_ok s \<Longrightarrow> mem_frame a n m m' \<Longrightarrow> dec_ok a n k s m (Some (None, (set_error msg s, m')))"
  by (simp add: dec_ok_def reads_ok_refl)

text \<open>Changing the memory first, and sequential composition.\<close>

lemma dec_ok_frame:
  "dec_ok a n k s m' r \<Longrightarrow> mem_frame a n m m' \<Longrightarrow> dec_ok a n k s m r"
  by (force simp: dec_ok_def intro: mem_frame_trans)

lemma dec_ok_later:
  assumes "dec_ok a n j s' m' r" "reads_ok s s'" "mem_frame a n m m'" "is_bytes_left s' + k \<le> is_bytes_left s"
  shows "dec_ok a n k s m r"
proof -
  obtain v s'' m'' where "r = Some (v, (s'', m''))" "reads_ok s' s''" "mem_frame a n m' m''"
    using assms(1) by (auto simp: dec_ok_def)
  with assms(2-4) show ?thesis
    by (auto simp: dec_ok_def intro: reads_ok_trans mem_frame_trans dest: reads_ok_left)
qed

lemma dec_ok_sbind:
  assumes "dec_ok a n k s m r"
    and "\<And>v s' m'. r = Some (Some v, (s', m')) \<Longrightarrow> stream_ok s' \<Longrightarrow> is_bytes_left s' + k \<le> is_bytes_left s \<Longrightarrow>
      dec_ok a n 0 s' m' (f v (s', m'))"
  shows "dec_ok a n k s m (sbind r f)"
proof -
  obtain v s' m' where r: "r = Some (v, (s', m'))" "reads_ok s s'" "mem_frame a n m m'"
      "v \<noteq> None \<longrightarrow> is_bytes_left s' + k \<le> is_bytes_left s"
    using assms(1) by (auto simp: dec_ok_def)
  show ?thesis
  proof (cases v)
    case None
    with r show ?thesis by (simp add: dec_ok_def)
  next
    case (Some b)
    with r assms(2) [of b s' m'] have "dec_ok a n 0 s' m' (f b (s', m'))"
      by (simp add: reads_ok_stream_ok)
    with Some r show ?thesis by (auto intro: dec_ok_later)
  qed
qed

lemma dec_ok_read:
  assumes "read_ok k s r"
    and "\<And>v s'. r = Some (Some v, s') \<Longrightarrow> stream_ok s' \<Longrightarrow> is_bytes_left s' + k \<le> is_bytes_left s \<Longrightarrow>
      dec_ok a n 0 s' m (f v (s', m))"
  shows "dec_ok a n k s m (sbind (with_mem m r) f)"
proof (rule dec_ok_sbind [OF dec_ok_with_mem [OF assms(1)]])
  fix v s' m'
  assume "with_mem m r = Some (Some v, (s', m'))" "stream_ok s'" "is_bytes_left s' + k \<le> is_bytes_left s"
  then show "dec_ok a n 0 s' m' (f v (s', m'))"
    using assms(2) [of v s'] by (auto simp: with_mem_def)
qed

text \<open>A store inside the range.\<close>

lemma dec_ok_store:
  "stream_ok s \<Longrightarrow> a \<le> b \<Longrightarrow> b + length bs \<le> a + n \<Longrightarrow> dec_ok a n 0 s m (dreturn v s (mem_store m b bs))"
  by (simp add: dec_ok_return mem_frame_store)

text \<open>A field decoder that is given \<open>data_size\<close> bytes at \<open>dest\<close>.\<close>

definition decoder_ok :: "addr \<Rightarrow> nat \<Rightarrow> nat \<Rightarrow> 's field_decoder \<Rightarrow> pb_field \<Rightarrow> addr \<Rightarrow> bool" where
  "decoder_ok a n b func field dest \<longleftrightarrow>
     (\<forall>s m. stream_ok s \<longrightarrow> is_bytes_left s \<le> b \<longrightarrow> dec_ok a n 1 s m (func s field dest m))"

lemma store_int_frame: "a \<le> b \<Longrightarrow> b + k \<le> a + n \<Longrightarrow> mem_frame a n m (store_int m b k v)"
  by (simp add: store_int_def store_nat_def mem_frame_store)

lemma store_nat_frame: "a \<le> b \<Longrightarrow> b + k \<le> a + n \<Longrightarrow> mem_frame a n m (store_nat m b k v)"
  by (simp add: store_nat_def mem_frame_store)

lemma store_bool_frame: "a \<le> b \<Longrightarrow> b + 1 \<le> a + n \<Longrightarrow> mem_frame a n m (store_bool m b v)"
  by (simp add: store_bool_def mem_frame_store)

lemma dec_varint_ok:
  "a \<le> dest \<Longrightarrow> dest + f_data_size field \<le> a + n \<Longrightarrow> decoder_ok a n b pb_dec_varint field dest"
  unfolding decoder_ok_def pb_dec_varint_def Let_def
  by (intro allI impI dec_ok_read [OF read_ok_varint])
    (auto simp del: One_nat_def intro!: dec_ok_fail dec_ok_return store_int_frame)

lemma dec_svarint_ok:
  "a \<le> dest \<Longrightarrow> dest + f_data_size field \<le> a + n \<Longrightarrow> decoder_ok a n b pb_dec_svarint field dest"
  unfolding decoder_ok_def pb_dec_svarint_def Let_def
  by (intro allI impI dec_ok_read [OF read_ok_svarint])
    (auto simp del: One_nat_def intro!: dec_ok_fail dec_ok_return store_int_frame)

lemma dec_uvarint_ok:
  "a \<le> dest \<Longrightarrow> dest + f_data_size field \<le> a + n \<Longrightarrow> decoder_ok a n b pb_dec_uvarint field dest"
  unfolding decoder_ok_def pb_dec_uvarint_def Let_def
  by (intro allI impI dec_ok_read [OF read_ok_varint])
    (auto simp del: One_nat_def intro!: dec_ok_fail dec_ok_return store_nat_frame)

lemma dec_fixed32_ok:
  "a \<le> dest \<Longrightarrow> dest + f_data_size field \<le> a + n \<Longrightarrow> 4 \<le> f_data_size field \<Longrightarrow>
   decoder_ok a n b pb_dec_fixed32 field dest"
  unfolding decoder_ok_def pb_dec_fixed32_def
  by (intro allI impI dec_ok_read [OF read_ok_mono [OF read_ok_fixed32]])
    (auto intro!: dec_ok_return store_nat_frame)

lemma dec_fixed64_ok:
  "a \<le> dest \<Longrightarrow> dest + f_data_size field \<le> a + n \<Longrightarrow> 8 \<le> f_data_size field \<Longrightarrow>
   decoder_ok a n b pb_dec_fixed64 field dest"
  unfolding decoder_ok_def pb_dec_fixed64_def
  by (intro allI impI dec_ok_read [OF read_ok_mono [OF read_ok_fixed64]])
    (auto intro!: dec_ok_return store_nat_frame)

lemma dec_bytes_ok:
  assumes "a \<le> dest" "dest + f_data_size field \<le> a + n"
  shows "decoder_ok a n b pb_dec_bytes field dest"
proof -
  have "dec_ok a n 0 s m
      (if f_data_size field < size_add (unat v) 4 then pb_dreturn_error msg s m
       else sbind (with_mem (store_u32 m dest (unat v)) (pb_read s True (unat v)))
         (\<lambda>bs (s, m). dreturn () s (mem_store m (dest + 4) bs)))"
    if s: "stream_ok s" for s :: "'a pb_istream" and m and v :: u32 and msg
  proof (cases "f_data_size field < size_add (unat v) 4")
    case False
    have "size_add (unat v) 4 = unat v + 4" using unat_u32_less [of v] by simp
    with False have v: "unat v + 4 \<le> f_data_size field" by simp
    have "dec_ok a n 0 s (store_u32 m dest (unat v))
       (sbind (with_mem (store_u32 m dest (unat v)) (pb_read s True (unat v)))
         (\<lambda>bs (s, m). dreturn () s (mem_store m (dest + 4) bs)))"
      using assms v s
      by (auto intro!: dec_ok_mono [OF dec_ok_read [OF read_ok_pb_read]] dec_ok_store
          dest: pb_read_length)
    from dec_ok_frame [OF this store_nat_frame [of a dest 4 n m]] False assms v show ?thesis by simp
  qed (simp add: s)
  then show ?thesis
    unfolding decoder_ok_def pb_dec_bytes_def Let_def
    by (intro allI impI dec_ok_read [OF read_ok_varint32]) auto
qed


lemma mem_frame_upd: "a \<le> x \<Longrightarrow> x < a + n \<Longrightarrow> mem_frame a n m (m(x := v))"
  by (auto simp: mem_frame_def)

lemma dec_string_ok:
  assumes "a \<le> dest" "dest + f_data_size field \<le> a + n"
  shows "decoder_ok a n b pb_dec_string field dest"
proof -
  have "dec_ok a n 0 s m
      (case pb_read s True (unat v) of
         None \<Rightarrow> None
       | Some (None, s) \<Rightarrow> Some (None, (s, m(dest + unat v := 0)))
       | Some (Some bs, s) \<Rightarrow> dreturn () s ((mem_store m dest bs)(dest + unat v := 0)))"
    if s: "stream_ok s" "unat (v + 1) \<le> f_data_size field" "unat v \<le> unat (v + 1)"
    for s :: "'a pb_istream" and m and v :: u32
  proof -
    have "unat (v + 1) \<noteq> unat v" by (simp only: word_unat_eq_iff [symmetric]) simp
    with s have v: "unat v < f_data_size field" by linarith
    then have frame: "mem_frame a n m (m(dest + unat v := 0))" for m
      using assms by (intro mem_frame_upd) simp_all
    show ?thesis
    proof (cases rule: pb_read_cases [OF s(1), of "unat v" True])
      case 1
      with frame show ?thesis by (simp add: dec_ok_fail s(1))
    next
      case (2 bs)
      have "mem_frame a n m (mem_store m dest bs)"
        using assms v 2(2) by (intro mem_frame_store) simp_all
      with 2 frame [of "mem_store m dest bs"] show ?thesis
        by (auto simp: dec_ok_def reads_ok_advance [OF s(1)] intro: mem_frame_trans)
    qed
  qed
  then show ?thesis
    unfolding decoder_ok_def pb_dec_string_def Let_def
    by (intro allI impI dec_ok_read [OF read_ok_varint32]) auto
qed

lemma dec_fixed_length_bytes_ok:
  assumes "a \<le> dest" "dest + f_data_size field \<le> a + n"
  shows "decoder_ok a n b pb_dec_fixed_length_bytes field dest"
proof -
  have "dec_ok a n 0 s m (sbind (with_mem m (pb_read s True (f_data_size field)))
         (\<lambda>bs (s, m). dreturn () s (mem_store m dest bs)))"
    if s: "stream_ok s" for s :: "'a pb_istream" and m
    using assms s
    by (auto intro!: dec_ok_mono [OF dec_ok_read [OF read_ok_pb_read]] dec_ok_store dest: pb_read_length)
  then show ?thesis
    using assms unfolding decoder_ok_def pb_dec_fixed_length_bytes_def
    by (intro allI impI dec_ok_read [OF read_ok_varint32]) (auto intro!: dec_ok_store)
qed

text \<open>What a submessage field needs from the two message functions, for streams below \<open>b\<close> bytes.\<close>

definition submessage_ok ::
  "addr \<Rightarrow> nat \<Rightarrow> nat \<Rightarrow> (pb_field list \<Rightarrow> addr \<Rightarrow> mem \<Rightarrow> mem option) \<Rightarrow>
   (pb_field list \<Rightarrow> addr \<Rightarrow> 's pb_istream \<Rightarrow> mem \<Rightarrow> (unit, 's) dres) \<Rightarrow> pb_field list \<Rightarrow> addr \<Rightarrow> bool" where
  "submessage_ok a n b defaults noinit fs dest \<longleftrightarrow>
     (\<forall>m. \<exists>m'. defaults fs dest m = Some m' \<and> mem_frame a n m m') \<and>
     (\<forall>s m. stream_ok s \<longrightarrow> is_bytes_left s < b \<longrightarrow> dec_ok a n 0 s m (noinit fs dest s m))"

lemma dec_submessage_ok:
  assumes "f_ptr field \<noteq> 0" "submessage_ok a n b defaults noinit (de_tables env (f_ptr field)) dest"
  shows "decoder_ok a n b (pb_dec_submessage env defaults noinit) field dest"
  unfolding decoder_ok_def
proof (intro allI impI)
  fix s :: "'a pb_istream" and m
  let ?fs = "de_tables env (f_ptr field)"
  assume s: "stream_ok s" "is_bytes_left s \<le> b"
  show "dec_ok a n 1 s m (pb_dec_submessage env defaults noinit s field dest m)"
  proof (cases rule: make_substream_cases [OF s(1)])
    case (1 s')
    then show ?thesis by (simp add: pb_dec_submessage_def with_mem_def dec_ok_def)
  next
    case (2 sub out)
    then have sub: "stream_ok sub" "is_bytes_left sub < b"
      using s(2) by (auto simp: substream_of_def)
    obtain m1 where m1: "(if PB_HTYPE (f_type field) = PB_HTYPE_REPEATED then defaults ?fs dest m else Some m) = Some m1"
        "mem_frame a n m m1"
    proof -
      from assms(2) obtain m' where "defaults ?fs dest m = Some m'" "mem_frame a n m m'"
        unfolding submessage_ok_def by blast
      then show thesis
        using that [of m] that [of m'] by (cases "PB_HTYPE (f_type field) = PB_HTYPE_REPEATED") auto
    qed
    from assms(2) sub have "dec_ok a n 0 sub m1 (noinit ?fs dest sub m1)" by (simp add: submessage_ok_def)
    then obtain v sub' m2 where no: "noinit ?fs dest sub m1 = Some (v, (sub', m2))" "reads_ok sub sub'"
        "mem_frame a n m1 m2"
      by (auto simp: dec_ok_def)
    from close_substream [OF 2(2) no(2)] obtain fin
      where "pb_close_string_substream out sub' = Some (Some (), fin)" "reads_ok s fin"
        "is_bytes_left fin < is_bytes_left s" by blast
    with 2 m1 no assms(1) show ?thesis
      by (auto simp: pb_dec_submessage_def with_mem_def dec_ok_def Let_def intro: mem_frame_trans)
  qed
qed

section \<open>Fields\<close>

definition field_items :: "pb_field \<Rightarrow> nat" where
  "field_items f = (if PB_HTYPE (f_type f) = PB_HTYPE_REPEATED then f_array_size f else 1)"

text \<open>
  The slots of a field lie between \<open>a\<close> and \<open>a + n\<close>, and its type is one that the library can decode.
  A submessage is \<open>static\<close> or a callback.
\<close>

definition field_ok :: "addr \<Rightarrow> nat \<Rightarrow> pb_field \<Rightarrow> addr \<Rightarrow> addr \<Rightarrow> bool" where
  "field_ok a n f pData pSize \<longleftrightarrow>
     PB_LTYPE (f_type f) \<le> PB_LTYPE_FIXED_LENGTH_BYTES \<and> PB_LTYPE (f_type f) \<noteq> PB_LTYPE_EXTENSION \<and>
     (PB_ATYPE (f_type f) = PB_ATYPE_STATIC \<longrightarrow>
        a \<le> pData \<and> pData + f_data_size f * field_items f \<le> a + n \<and>
        (PB_LTYPE (f_type f) = PB_LTYPE_FIXED32 \<longrightarrow> 4 \<le> f_data_size f) \<and>
        (PB_LTYPE (f_type f) = PB_LTYPE_FIXED64 \<longrightarrow> 8 \<le> f_data_size f) \<and>
        (PB_LTYPE (f_type f) = PB_LTYPE_SUBMESSAGE \<longrightarrow> f_ptr f \<noteq> 0) \<and>
        (PB_HTYPE (f_type f) = PB_HTYPE_OPTIONAL \<and> pSize \<noteq> pData \<longrightarrow> a \<le> pSize \<and> pSize + 1 \<le> a + n)) \<and>
     (PB_ATYPE (f_type f) = PB_ATYPE_POINTER \<longrightarrow> a \<le> pData \<and> pData + 8 \<le> a + n) \<and>
     (PB_ATYPE (f_type f) \<in> {PB_ATYPE_STATIC, PB_ATYPE_POINTER} \<and>
        PB_HTYPE (f_type f) \<in> {PB_HTYPE_REPEATED, PB_HTYPE_ONEOF} \<longrightarrow> a \<le> pSize \<and> pSize + 4 \<le> a + n)"

lemma ltype_cases:
  assumes "(l :: byte) \<le> PB_LTYPE_FIXED_LENGTH_BYTES" "l \<noteq> PB_LTYPE_EXTENSION"
  shows "l \<in> {PB_LTYPE_VARINT, PB_LTYPE_UVARINT, PB_LTYPE_SVARINT, PB_LTYPE_FIXED32, PB_LTYPE_FIXED64,
    PB_LTYPE_BYTES, PB_LTYPE_STRING, PB_LTYPE_SUBMESSAGE, PB_LTYPE_FIXED_LENGTH_BYTES}"
proof -
  have le: "unat l \<le> 9" using assms(1) by (simp add: word_le_nat_alt)
  have "unat l \<noteq> 8"
  proof
    assume "unat l = 8"
    then have "(of_nat (unat l) :: byte) = of_nat 8" by (rule arg_cong)
    with assms(2) show False by simp
  qed
  with le have "unat l \<in> {0, 1, 2, 3, 4, 5, 6, 7, 9}" by auto
  then have "(of_nat (unat l) :: byte) \<in> of_nat ` {0, 1, 2, 3, 4, 5, 6, 7, 9}" by (rule imageI)
  then show ?thesis by simp
qed

lemma pb_decoder_ok:
  assumes f: "field_ok a n f pData pSize" "PB_ATYPE (f_type f) = PB_ATYPE_STATIC" and i: "i < field_items f"
    and sub: "PB_LTYPE (f_type f) = PB_LTYPE_SUBMESSAGE \<Longrightarrow>
      submessage_ok a n b defaults noinit (de_tables env (f_ptr f)) (pData + f_data_size f * i)"
  shows "decoder_ok a n b (pb_decoder env defaults noinit (PB_LTYPE (f_type f))) f (pData + f_data_size f * i)"
proof -
  let ?d = "pData + f_data_size f * i"
  have "f_data_size f * Suc i \<le> f_data_size f * field_items f" using i by (intro mult_le_mono2) simp
  then have room: "a \<le> ?d" "?d + f_data_size f \<le> a + n"
    using f by (auto simp: field_ok_def)
  have "PB_LTYPE (f_type f) \<in> {PB_LTYPE_VARINT, PB_LTYPE_UVARINT, PB_LTYPE_SVARINT, PB_LTYPE_FIXED32, PB_LTYPE_FIXED64,
    PB_LTYPE_BYTES, PB_LTYPE_STRING, PB_LTYPE_SUBMESSAGE, PB_LTYPE_FIXED_LENGTH_BYTES}"
    using f(1) by (intro ltype_cases) (auto simp: field_ok_def)
  moreover have "PB_LTYPE (f_type f) = PB_LTYPE_FIXED32 \<Longrightarrow> 4 \<le> f_data_size f"
    "PB_LTYPE (f_type f) = PB_LTYPE_FIXED64 \<Longrightarrow> 8 \<le> f_data_size f"
    "PB_LTYPE (f_type f) = PB_LTYPE_SUBMESSAGE \<Longrightarrow> f_ptr f \<noteq> 0"
    using f by (simp_all add: field_ok_def)
  ultimately show ?thesis
    using sub room
    by (elim insertE emptyE)
      (simp_all add: pb_decoder_def dec_varint_ok dec_uvarint_ok dec_svarint_ok dec_fixed32_ok
        dec_fixed64_ok dec_bytes_ok dec_string_ok dec_fixed_length_bytes_ok dec_submessage_ok)
qed

lemma packed_loop_ok:
  assumes "\<And>i. i < f_array_size f \<Longrightarrow> decoder_ok a n b func f (pData + f_data_size f * i)"
    and "a \<le> pSize" "pSize + 4 \<le> a + n"
  shows "stream_ok sub \<Longrightarrow> is_bytes_left sub < k \<Longrightarrow> is_bytes_left sub \<le> b \<Longrightarrow>
    dec_ok a n 0 sub m (packed_loop k func f pData pSize sub m)"
proof (induction k arbitrary: sub m)
  case 0
  then show ?case by simp
next
  case (Suc k)
  show ?case
  proof (cases "is_bytes_left sub > 0 \<and> load_u32 m pSize < f_array_size f")
    case True
    then have "dec_ok a n 1 sub m (func sub f (pData + f_data_size f * load_u32 m pSize) m)"
      using assms(1) Suc.prems by (simp add: decoder_ok_def)
    then have "dec_ok a n 1 sub m (packed_loop (Suc k) func f pData pSize sub m)"
      using True Suc.prems
      by (auto intro!: dec_ok_sbind dec_ok_frame [OF Suc.IH] store_nat_frame assms(2,3) simp del: One_nat_def)
    then show ?thesis by (rule dec_ok_mono) simp
  next
    case False
    then show ?thesis using Suc.prems by (auto intro: dec_ok_return)
  qed
qed

lemma decode_packed_ok:
  assumes "\<And>i. i < f_array_size f \<Longrightarrow> decoder_ok a n b func f (pData + f_data_size f * i)"
    and "a \<le> pSize" "pSize + 4 \<le> a + n" and s: "stream_ok s" "is_bytes_left s \<le> b"
  shows "dec_ok a n 1 s m (decode_packed func s f pData pSize m)"
proof (cases rule: make_substream_cases [OF s(1)])
  case (1 s')
  then show ?thesis by (simp add: decode_packed_def with_mem_def dec_ok_def)
next
  case (2 sub out)
  then have sub: "stream_ok sub" "is_bytes_left sub \<le> b" "reads_ok s out" "is_bytes_left out + 1 \<le> is_bytes_left s"
    using s(2) by (auto simp: substream_of_def)
  with packed_loop_ok [OF assms(1-3), where k = "Suc (is_bytes_left sub)" and sub = sub and m = m]
  obtain v sub' m' where loop: "packed_loop (Suc (is_bytes_left sub)) func f pData pSize sub m = Some (v, (sub', m'))"
      "reads_ok sub sub'" "mem_frame a n m m'"
    by (auto simp: dec_ok_def)
  from close_substream [OF 2(2) loop(2)] obtain fin
    where "pb_close_string_substream out sub' = Some (Some (), fin)" "reads_ok s fin"
      "is_bytes_left fin < is_bytes_left s" by blast
  with 2 loop sub show ?thesis
    by (auto simp: decode_packed_def with_mem_def dec_ok_def simp del: packed_loop.simps)
qed

text \<open>What a static submessage field needs at each of its items.\<close>

definition items_ok ::
  "addr \<Rightarrow> nat \<Rightarrow> nat \<Rightarrow> 's dec_env \<Rightarrow> (pb_field list \<Rightarrow> addr \<Rightarrow> mem \<Rightarrow> mem option) \<Rightarrow>
   (pb_field list \<Rightarrow> addr \<Rightarrow> 's pb_istream \<Rightarrow> mem \<Rightarrow> (unit, 's) dres) \<Rightarrow> pb_field \<Rightarrow> addr \<Rightarrow> bool" where
  "items_ok a n b env defaults noinit f pData \<longleftrightarrow>
     (PB_ATYPE (f_type f) = PB_ATYPE_STATIC \<longrightarrow> PB_LTYPE (f_type f) = PB_LTYPE_SUBMESSAGE \<longrightarrow>
       (\<forall>i < field_items f.
         submessage_ok a n b defaults noinit (de_tables env (f_ptr f)) (pData + f_data_size f * i)))"

lemma decode_static_field_ok:
  assumes f: "field_ok a n (it_field iter) (it_pData iter) (it_pSize iter)"
      "PB_ATYPE (f_type (it_field iter)) = PB_ATYPE_STATIC"
    and sub: "items_ok a n b env defaults noinit (it_field iter) (it_pData iter)"
    and s: "stream_ok s" "is_bytes_left s \<le> b"
  shows "dec_ok a n 1 s m (decode_static_field env defaults noinit s wt iter m)"
proof -
  let ?f = "it_field iter" and ?p = "it_pData iter" and ?z = "it_pSize iter"
  let ?func = "pb_decoder env defaults noinit (PB_LTYPE (f_type ?f))"
  have func: "decoder_ok a n b ?func ?f (?p + f_data_size ?f * i)" if "i < field_items ?f" for i
    using f that sub by (intro pb_decoder_ok) (simp_all add: items_ok_def)
  have item: "dec_ok a n 1 s m (?func s ?f (?p + f_data_size ?f * i) m)" if "i < field_items ?f" for i m
    using func [OF that] s by (simp add: decoder_ok_def)
  have one: "dec_ok a n 1 s m (?func s ?f ?p m)" if "PB_HTYPE (f_type ?f) \<noteq> PB_HTYPE_REPEATED" for m
    using item [of 0] that by (simp add: field_items_def)
  have slot: "mem_frame a n m (store_u32 m ?z v)"
    if "PB_HTYPE (f_type ?f) \<in> {PB_HTYPE_REPEATED, PB_HTYPE_ONEOF}" for m v
    using f that by (intro store_nat_frame) (auto simp: field_ok_def)
  consider "PB_HTYPE (f_type ?f) = PB_HTYPE_REQUIRED" | "PB_HTYPE (f_type ?f) = PB_HTYPE_OPTIONAL"
    | "PB_HTYPE (f_type ?f) = PB_HTYPE_REPEATED" | "PB_HTYPE (f_type ?f) = PB_HTYPE_ONEOF"
    | "PB_HTYPE (f_type ?f) \<notin> {PB_HTYPE_REQUIRED, PB_HTYPE_OPTIONAL, PB_HTYPE_REPEATED, PB_HTYPE_ONEOF}"
    by auto
  then show ?thesis
  proof cases
    case 1
    then show ?thesis using one by (simp add: decode_static_field_def Let_def)
  next
    case 2
    have "mem_frame a n m (if ?z \<noteq> ?p then store_bool m ?z True else m)"
      using f 2 by (auto simp: field_ok_def intro!: store_bool_frame)
    with 2 show ?thesis
      by (auto simp: decode_static_field_def Let_def simp del: One_nat_def intro!: dec_ok_frame [OF one])
  next
    case 3
    have "dec_ok a n 1 s m (decode_packed ?func s ?f ?p ?z m)"
      using f 3 func s by (intro decode_packed_ok) (simp_all add: field_ok_def field_items_def)
    with 3 slot s show ?thesis
      by (auto simp: decode_static_field_def Let_def field_items_def simp del: One_nat_def
          intro!: dec_ok_frame [OF item])
  next
    case 4
    have "\<exists>m'. (if PB_LTYPE (f_type ?f) = PB_LTYPE_SUBMESSAGE
        then defaults (de_tables env (f_ptr ?f)) ?p (mem_store m1 ?p (replicate (f_data_size ?f) 0)) else Some m1) = Some m'
        \<and> mem_frame a n m1 m'" for m1
    proof (cases "PB_LTYPE (f_type ?f) = PB_LTYPE_SUBMESSAGE")
      case True
      have "submessage_ok a n b defaults noinit (de_tables env (f_ptr ?f)) (?p + f_data_size ?f * 0)"
        using sub f(2) True 4 by (simp add: items_ok_def field_items_def)
      moreover have "mem_frame a n m1 (mem_store m1 ?p (replicate (f_data_size ?f) 0))"
        using f 4 by (intro mem_frame_store) (simp_all add: field_ok_def field_items_def)
      ultimately show ?thesis
        using True by (simp add: submessage_ok_def) (meson mem_frame_trans)
    qed auto
    from this [of "store_u32 m ?z (f_tag ?f)"] obtain m' where m':
      "(if PB_LTYPE (f_type ?f) = PB_LTYPE_SUBMESSAGE
        then defaults (de_tables env (f_ptr ?f)) ?p
          (mem_store (store_u32 m ?z (f_tag ?f)) ?p (replicate (f_data_size ?f) 0))
        else Some (store_u32 m ?z (f_tag ?f))) = Some m'" "mem_frame a n (store_u32 m ?z (f_tag ?f)) m'"
      by blast
    have "dec_ok a n 1 s m (?func s ?f ?p m')"
      using 4 one [of m'] m'(2) slot [of m "f_tag ?f"] by (auto intro: dec_ok_frame mem_frame_trans)
    with 4 m' show ?thesis by (simp add: decode_static_field_def Let_def del: One_nat_def)
  next
    case 5
    with s show ?thesis by (simp add: decode_static_field_def Let_def)
  qed
qed

text \<open>
  The contract of a user's callback: it stays inside the substream it gets and inside the structure,
  and if it succeeds it has taken something of what was left.
\<close>

definition callbacks_ok :: "addr \<Rightarrow> nat \<Rightarrow> 's dec_env \<Rightarrow> bool" where
  "callbacks_ok a n env \<longleftrightarrow> (\<forall>fn s field arg m. stream_ok s \<longrightarrow>
     (case de_callback env fn s field arg m of (ok, s', m') \<Rightarrow>
        reads_ok s s' \<and> mem_frame a n m m' \<and> (ok \<longrightarrow> is_bytes_left s' < is_bytes_left s \<or> is_bytes_left s' = 0)))"

lemma callbacks_okE:
  assumes "callbacks_ok a n env" "stream_ok s"
  obtains ok s' m' where "de_callback env fn s field arg m = (ok, s', m')" "reads_ok s s'" "mem_frame a n m m'"
    "ok \<Longrightarrow> is_bytes_left s' < is_bytes_left s \<or> is_bytes_left s' = 0"
proof -
  obtain ok s' m' where r: "de_callback env fn s field arg m = (ok, s', m')"
    by (cases "de_callback env fn s field arg m") auto
  from assms(1) [unfolded callbacks_ok_def, rule_format, OF assms(2), where fn = fn and field = field and arg = arg and m = m] r that
  show ?thesis by auto
qed

lemma callback_loop_ok:
  assumes "callbacks_ok a n env"
  shows "stream_ok sub \<Longrightarrow> is_bytes_left sub < k \<Longrightarrow>
    dec_ok a n 0 sub m (callback_loop k (\<lambda>sub m. user_result (de_callback env (fn m) sub field arg m)) sub m)"
proof (induction k arbitrary: sub m)
  case 0
  then show ?case by simp
next
  case (Suc k)
  obtain ok s' m' where r: "de_callback env (fn m) sub field arg m = (ok, s', m')" "reads_ok sub s'" "mem_frame a n m m'"
    "ok \<Longrightarrow> is_bytes_left s' < is_bytes_left sub \<or> is_bytes_left s' = 0"
    by (rule callbacks_okE [OF assms Suc.prems(1), where fn = "fn m" and field = field and arg = arg and m = m]) blast
  show ?case
  proof (cases "ok \<and> is_bytes_left s' \<noteq> 0")
    case True
    with r Suc.prems have "dec_ok a n 0 s' m'
        (callback_loop k (\<lambda>sub m. user_result (de_callback env (fn m) sub field arg m)) s' m')"
      by (intro Suc.IH) (auto dest: reads_ok_stream_ok)
    with True r show ?thesis by (auto simp: user_result_def dest: reads_ok_left intro: dec_ok_later)
  next
    case False
    with r show ?thesis by (auto simp: user_result_def dec_ok_def dest: reads_ok_left)
  qed
qed

lemma decode_callback_field_ok:
  assumes cb: "callbacks_ok a n env" and s: "stream_ok s" "is_bytes_left s \<le> k"
  shows "dec_ok a n 0 s m (decode_callback_field k env s wt iter m)"
proof -
  let ?cb = "\<lambda>sub m'. user_result (de_callback env (load_ptr m' (it_pData iter)) sub (it_field iter) (it_pData iter + 8) m')"
  have skip: "dec_ok a n 0 s m (with_mem m (pb_skip_field s wt))"
    by (rule dec_ok_with_mem [OF read_ok_skip_field [OF s(1)]])
  have raw: "dec_ok a n 0 s m (sbind (with_mem m (read_raw_value s wt 10)) (\<lambda>buffer (stream, m').
      do { (status, (_, m')) \<leftarrow> ?cb (pb_istream_from_buffer buffer (length buffer)) m'; Some (status, (stream, m')) }))"
  proof (rule dec_ok_read [OF read_ok_raw_value [OF s(1)]])
    fix buffer s' assume s': "stream_ok s'"
    have "stream_ok (pb_istream_from_buffer buffer (length buffer) :: 'a pb_istream)"
      by (simp add: stream_ok_def pb_istream_from_buffer_def)
    then obtain ok sub' m' where "de_callback env (load_ptr m (it_pData iter)) (pb_istream_from_buffer buffer (length buffer))
        (it_field iter) (it_pData iter + 8) m = (ok, sub', m')" "mem_frame a n m m'"
      by (rule callbacks_okE [OF cb, where fn = "load_ptr m (it_pData iter)" and field = "it_field iter"
            and arg = "it_pData iter + 8" and m = m]) blast
    with s' show "dec_ok a n 0 s' m (case (s', m) of (stream, m') \<Rightarrow>
        do { (status, (_, m')) \<leftarrow> ?cb (pb_istream_from_buffer buffer (length buffer)) m'; Some (status, (stream, m')) })"
      by (auto simp: user_result_def dec_ok_def)
  qed
  have str: "dec_ok a n 0 s m (sbind (with_mem m (pb_make_string_substream s)) (\<lambda>substream (stream, m).
          case callback_loop k ?cb substream m of
            None \<Rightarrow> None
          | Some (None, (_, m)) \<Rightarrow> pb_dreturn_error ''callback failed'' stream m
          | Some (Some _, (substream, m)) \<Rightarrow> with_mem m (pb_close_string_substream stream substream)))"
  proof (cases rule: make_substream_cases [OF s(1)])
    case (1 s')
    then show ?thesis by (simp add: with_mem_def dec_ok_def)
  next
    case (2 sub out)
    then have sub: "stream_ok sub" "is_bytes_left sub < k" "reads_ok s out"
      using s(2) by (auto simp: substream_of_def)
    with callback_loop_ok [OF cb, where fn = "\<lambda>m. load_ptr m (it_pData iter)"]
    obtain v sub' m' where loop: "callback_loop k ?cb sub m = Some (v, (sub', m'))" "reads_ok sub sub'" "mem_frame a n m m'"
      by (fastforce simp: dec_ok_def)
    from close_substream [OF 2(2) loop(2)] obtain fin
      where "pb_close_string_substream out sub' = Some (Some (), fin)" "reads_ok s fin" by blast
    with 2 loop sub show ?thesis
      by (cases v) (auto simp: with_mem_def dec_ok_def dest: reads_ok_left)
  qed
  from skip raw str show ?thesis
    unfolding decode_callback_field_def Let_def by simp
qed

lemma decode_field_ok:
  assumes f: "field_ok a n (it_field iter) (it_pData iter) (it_pSize iter)"
    and sub: "items_ok a n b env defaults noinit (it_field iter) (it_pData iter)"
    and cb: "callbacks_ok a n env" and s: "stream_ok s" "is_bytes_left s \<le> b" "is_bytes_left s \<le> k"
  shows "dec_ok a n 0 s m (decode_field k env defaults noinit s wt iter m)"
  using decode_static_field_ok [OF f _ sub s(1,2), of m wt] decode_callback_field_ok [OF cb s(1,3), of m wt iter] s(1)
  by (auto simp: decode_field_def Let_def decode_pointer_field_def intro: dec_ok_mono simp del: One_nat_def)

section \<open>Walking over a table\<close>

lemma begin_iter_at: "pb_field_iter_begin fs dest = (0 < field_count fs, iter_at fs dest 0)"
  by (simp add: field_count_pos pb_field_iter_begin_def Let_def)

declare iter_at.simps(1) [simp del]

text \<open>An invariant of the loop body holds at the end of the loop, which is reached.\<close>

lemma pb_iter_do_invariant:
  assumes "k < field_count fs" "P st"
    and "\<And>j st. k \<le> j \<Longrightarrow> j < field_count fs \<Longrightarrow> P st \<Longrightarrow>
      \<exists>go st'. body (iter_at fs dest j) st = Some (go, st') \<and> P st'"
  shows "\<exists>go st'. pb_iter_do body (iter_at fs dest k) st = Some (go, st') \<and> P st'"
  using assms
proof (induction "field_count fs - k" arbitrary: k st)
  case 0
  then show ?case by simp
next
  case (Suc x)
  obtain go st' where b: "body (iter_at fs dest k) st = Some (go, st')" "P st'"
    using Suc.prems(3) [of k st] Suc.prems(1,2) by auto
  show ?case
  proof (cases "go \<and> Suc k < field_count fs")
    case True
    have "\<exists>go st''. pb_iter_do body (iter_at fs dest (Suc k)) st' = Some (go, st'') \<and> P st''"
      using True b(2) Suc.hyps(2) Suc.prems(3) by (intro Suc.hyps(1)) auto
    with True b Suc.prems(1) show ?thesis
      by (simp add: pb_iter_do.simps [of body "iter_at fs dest k" st] next_iter_at)
  next
    case False
    with b Suc.prems(1) show ?thesis
      by (auto simp: pb_iter_do.simps [of body "iter_at fs dest k" st] next_iter_at)
  qed
qed

text \<open>A body that never leaves the loop and overwrites the state: the last entry decides.\<close>

lemma pb_iter_do_last:
  "k < field_count fs \<Longrightarrow> pb_iter_do (\<lambda>iter _. Some (True, g iter)) (iter_at fs dest k) st =
     Some (True, g (iter_at fs dest (field_count fs - 1)))"
proof (induction "field_count fs - k" arbitrary: k st)
  case (Suc x)
  show ?case
  proof (cases "Suc k < field_count fs")
    case True
    with Suc show ?thesis
      by (simp add: pb_iter_do.simps [of _ "iter_at fs dest k" st] next_iter_at)
  next
    case False
    then have "field_count fs - 1 = k" using Suc.prems by simp
    with False Suc.prems show ?thesis
      by (simp only:) (simp add: pb_iter_do.simps [of _ "iter_at fs dest k" st] next_iter_at)
  qed
qed simp

section \<open>Required fields\<close>

definition required_total :: "pb_field list \<Rightarrow> nat" where
  "required_total fs =
     length (filter (\<lambda>f. PB_HTYPE (f_type f) = PB_HTYPE_REQUIRED) (take (field_count fs) fs))"

lemma count_required_valid:
  assumes "iter_valid iter"
  shows "count_required iter = Some (required_total (it_start iter))"
proof -
  let ?fs = "it_start iter" and ?d = "it_dest iter"
  obtain k where k: "iter = iter_at ?fs ?d k" "k < field_count ?fs \<or> k = 0"
    using assms by (rule iter_validE)
  show ?thesis
  proof (cases "field_count ?fs = 0")
    case True
    with k have "iter = iter_at ?fs ?d 0" by simp
    then have "fst (pb_field_iter_next iter) = False" "it_required iter = 0"
      using next_iter_empty [OF True, of ?d] required_iter_at [of 0 ?fs ?d] by (metis fst_conv, metis list.size(3) filter.simps(1) take_0)
    with True show ?thesis
      using f_tag_at_count [of ?fs]
      by (simp add: count_required_def pb_iter_do.simps [of _ iter] required_total_def)
  next
    case False
    let ?l = "field_count ?fs - 1"
    have l: "?l < field_count ?fs" "Suc ?l = field_count ?fs" using False by simp_all
    have kl: "k < field_count ?fs" using k(2) False by auto
    have len: "?l < length ?fs" using l(1) field_count_le [of ?fs] by linarith
    have f: "field_at ?fs ?l = ?fs ! ?l" using len by (simp add: field_at_def)
    have "take (field_count ?fs) ?fs = take ?l ?fs @ [?fs ! ?l]"
      using take_Suc_conv_app_nth [OF len] l(2) by simp
    moreover have "f_tag (field_at ?fs 0) \<noteq> 0" using False field_count_pos [of ?fs] by simp
    ultimately show ?thesis
      using pb_iter_do_last [OF kl, of "\<lambda>iter. (it_required iter, f_type (it_field iter))" ?d "(0, 0)"] k(1) l(1) f
      by (simp add: count_required_def required_total_def required_iter_at it_field_iter_at)
  qed
qed

section \<open>Default values\<close>

lemma field_ok_mono:
  assumes "field_ok a n f p z" "a' \<le> a" "a + n \<le> a' + n'"
  shows "field_ok a' n' f p z"
proof -
  have "a \<le> x \<Longrightarrow> a' \<le> x" "x \<le> a + n \<Longrightarrow> x \<le> a' + n'" for x
    using assms(2,3) by simp_all
  with assms(1) show ?thesis unfolding field_ok_def by blast
qed

text \<open>
  A field table fits a structure of \<open>sz\<close> bytes at \<open>dest\<close>: every slot is inside, submessages are nested
  less than \<open>d\<close> deep and fit the place they have, there are fewer than 64 required fields and not
  exactly 32, and the table has a proper terminator.
\<close>

primrec table_ok :: "nat \<Rightarrow> 's dec_env \<Rightarrow> pb_field list \<Rightarrow> addr \<Rightarrow> nat \<Rightarrow> bool" where
  "table_ok 0 env fs dest sz = False"
| "table_ok (Suc d) env fs dest sz \<longleftrightarrow>
     (field_count fs = 0 \<longrightarrow> field_at fs 0 = PB_LAST_FIELD) \<and>
     required_total fs < 64 \<and> required_total fs \<noteq> 32 \<and>
     (\<forall>k < field_count fs.
        let iter = iter_at fs dest k; f = field_at fs k; pData = it_pData iter in
        field_ok dest sz f pData (it_pSize iter) \<and>
        (PB_ATYPE (f_type f) = PB_ATYPE_STATIC \<longrightarrow> PB_LTYPE (f_type f) = PB_LTYPE_SUBMESSAGE \<longrightarrow>
          (\<forall>i < field_items f.
             table_ok d env (de_tables env (f_ptr f)) (pData + f_data_size f * i) (f_data_size f))))"

lemma item_range:
  assumes "field_ok a n f p z" "PB_ATYPE (f_type f) = PB_ATYPE_STATIC" "i < field_items f"
  shows "a \<le> p + f_data_size f * i" "p + f_data_size f * i + f_data_size f \<le> a + n"
proof -
  have "f_data_size f * Suc i \<le> f_data_size f * field_items f" using assms(3) by (intro mult_le_mono2) simp
  with assms(1,2) show "a \<le> p + f_data_size f * i" "p + f_data_size f * i + f_data_size f \<le> a + n"
    by (auto simp: field_ok_def)
qed

lemma field_default_ok:
  assumes f: "field_ok a n (it_field iter) (it_pData iter) (it_pSize iter)"
    and sub: "PB_ATYPE (f_type (it_field iter)) = PB_ATYPE_STATIC \<Longrightarrow>
      PB_LTYPE (f_type (it_field iter)) = PB_LTYPE_SUBMESSAGE \<Longrightarrow>
      PB_HTYPE (f_type (it_field iter)) \<noteq> PB_HTYPE_REPEATED \<Longrightarrow>
      \<forall>m. \<exists>m'. pb_message_set_to_defaults k env (de_tables env (f_ptr (it_field iter))) (it_pData iter) m = Some m' \<and>
        mem_frame a n m m'"
  shows "\<exists>m'. pb_field_set_to_default (Suc k) env iter m = Some m' \<and> mem_frame a n m m'"
proof -
  let ?f = "it_field iter" and ?p = "it_pData iter" and ?z = "it_pSize iter"
  have ext: "PB_LTYPE (f_type ?f) \<noteq> PB_LTYPE_EXTENSION" using f by (simp add: field_ok_def)
  consider (static) "PB_ATYPE (f_type ?f) = PB_ATYPE_STATIC" | (pointer) "PB_ATYPE (f_type ?f) = PB_ATYPE_POINTER"
    | (other) "PB_ATYPE (f_type ?f) \<noteq> PB_ATYPE_STATIC" "PB_ATYPE (f_type ?f) \<noteq> PB_ATYPE_POINTER" by auto
  then show ?thesis
  proof cases
    case static
    have init: "\<exists>m'. (if PB_LTYPE (f_type ?f) = PB_LTYPE_SUBMESSAGE
          then pb_message_set_to_defaults k env (de_tables env (f_ptr ?f)) ?p m1
          else if f_ptr ?f \<noteq> 0 then Some (mem_store m1 ?p (mem_load m1 (f_ptr ?f) (f_data_size ?f)))
          else Some (mem_store m1 ?p (replicate (f_data_size ?f) 0))) = Some m' \<and> mem_frame a n m1 m'"
      if h: "PB_HTYPE (f_type ?f) \<noteq> PB_HTYPE_REPEATED" for m1
    proof (cases "PB_LTYPE (f_type ?f) = PB_LTYPE_SUBMESSAGE")
      case True
      then show ?thesis using sub [OF static True h] by simp
    next
      case False
      have "a \<le> ?p \<and> ?p + f_data_size ?f \<le> a + n"
        using f static h by (simp add: field_ok_def field_items_def)
      with False show ?thesis by (simp add: mem_frame_store)
    qed
    let ?c = "if PB_HTYPE (f_type ?f) = PB_HTYPE_OPTIONAL \<and> ?z \<noteq> ?p then (store_bool m ?z False, True)
          else if PB_HTYPE (f_type ?f) = PB_HTYPE_REPEATED \<or> PB_HTYPE (f_type ?f) = PB_HTYPE_ONEOF
          then (store_u32 m ?z 0, False) else (m, True)"
    obtain m1 b where c: "?c = (m1, b)" by (rule prod.exhaust)
    have m1: "mem_frame a n m m1" "b \<Longrightarrow> PB_HTYPE (f_type ?f) \<noteq> PB_HTYPE_REPEATED"
      using f static c
      by (auto simp: field_ok_def split: if_splits intro!: store_bool_frame store_nat_frame)
    with init [of m1] ext static show ?thesis
      unfolding pb_field_set_to_default.simps(2) Let_def c
      by (cases b) (auto intro: mem_frame_trans)
  next
    case pointer
    have p: "mem_frame a n m1 (store_ptr m1 ?p 0)" for m1
      using f pointer by (auto simp: field_ok_def intro!: store_nat_frame)
    have z: "mem_frame a n m1 (store_u32 m1 ?z 0)"
      if "PB_HTYPE (f_type ?f) = PB_HTYPE_REPEATED \<or> PB_HTYPE (f_type ?f) = PB_HTYPE_ONEOF" for m1
      using f pointer that by (auto simp: field_ok_def intro!: store_nat_frame)
    from ext pointer p z show ?thesis
      unfolding pb_field_set_to_default.simps(2) Let_def by (auto intro: mem_frame_trans)
  next
    case other
    with ext show ?thesis unfolding pb_field_set_to_default.simps(2) Let_def by simp
  qed
qed


lemma defaults_ok:
  "table_ok d env fs dest sz \<Longrightarrow> 2 * d \<le> n \<Longrightarrow>
   \<exists>m'. pb_message_set_to_defaults n env fs dest m = Some m' \<and> mem_frame dest sz m m'"
proof (induction d arbitrary: fs dest sz n m)
  case 0
  then show ?case by simp
next
  case (Suc d)
  from Suc.prems(2) have "n = Suc (Suc (n - 2))" "2 * d \<le> n - 2" by simp_all
  then obtain n' where n: "n = Suc (Suc n')" "2 * d \<le> n'" by (rule that)
  show ?case
  proof (cases "0 < field_count fs")
    case False
    then show ?thesis by (simp add: n(1) begin_iter_at)
  next
    case True
    have body: "\<exists>go m'. map_option (Pair True) (pb_field_set_to_default (Suc n') env (iter_at fs dest j) m1) = Some (go, m')
        \<and> mem_frame dest sz m m'"
      if j: "j < field_count fs" and m1: "mem_frame dest sz m m1" for j m1
    proof -
      let ?i = "iter_at fs dest j"
      have f: "field_ok dest sz (field_at fs j) (it_pData ?i) (it_pSize ?i)"
        and sub: "PB_ATYPE (f_type (field_at fs j)) = PB_ATYPE_STATIC \<Longrightarrow>
          PB_LTYPE (f_type (field_at fs j)) = PB_LTYPE_SUBMESSAGE \<Longrightarrow> i < field_items (field_at fs j) \<Longrightarrow>
          table_ok d env (de_tables env (f_ptr (field_at fs j))) (it_pData ?i + f_data_size (field_at fs j) * i)
            (f_data_size (field_at fs j))" for i
        using Suc.prems(1) j unfolding table_ok.simps Let_def by blast+
      have "\<exists>m'. pb_field_set_to_default (Suc n') env ?i m1 = Some m' \<and> mem_frame dest sz m1 m'"
      proof (rule field_default_ok)
        show "field_ok dest sz (it_field ?i) (it_pData ?i) (it_pSize ?i)"
          using f j by (simp add: it_field_iter_at)
      next
        assume a: "PB_ATYPE (f_type (it_field ?i)) = PB_ATYPE_STATIC"
          "PB_LTYPE (f_type (it_field ?i)) = PB_LTYPE_SUBMESSAGE"
          "PB_HTYPE (f_type (it_field ?i)) \<noteq> PB_HTYPE_REPEATED"
        with j have z: "0 < field_items (field_at fs j)" by (simp add: it_field_iter_at field_items_def)
        show "\<forall>m. \<exists>m'. pb_message_set_to_defaults n' env (de_tables env (f_ptr (it_field ?i))) (it_pData ?i) m = Some m'
            \<and> mem_frame dest sz m m'"
        proof
          fix m
          have "table_ok d env (de_tables env (f_ptr (field_at fs j))) (it_pData ?i) (f_data_size (field_at fs j))"
            using sub [OF _ _ z] a j by (simp add: it_field_iter_at)
          from Suc.IH [OF this n(2), of m] obtain m' where
            "pb_message_set_to_defaults n' env (de_tables env (f_ptr (field_at fs j))) (it_pData ?i) m = Some m'"
            "mem_frame (it_pData ?i) (f_data_size (field_at fs j)) m m'" by blast
          moreover have "dest \<le> it_pData ?i" "it_pData ?i + f_data_size (field_at fs j) \<le> dest + sz"
            using item_range [OF f _ z] a j by (simp_all add: it_field_iter_at)
          ultimately show "\<exists>m'. pb_message_set_to_defaults n' env (de_tables env (f_ptr (it_field ?i))) (it_pData ?i) m = Some m'
            \<and> mem_frame dest sz m m'"
            using j by (auto simp: it_field_iter_at intro: mem_frame_mono)
        qed
      qed
      with m1 show ?thesis by (auto intro: mem_frame_trans)
    qed
    then have "\<exists>go m'. pb_iter_do (\<lambda>iter m. map_option (Pair True) (pb_field_set_to_default (Suc n') env iter m))
        (iter_at fs dest 0) m = Some (go, m') \<and> mem_frame dest sz m m'"
      using True by (intro pb_iter_do_invariant) auto
    then obtain go m' where it: "pb_iter_do (\<lambda>iter m. map_option (Pair True) (pb_field_set_to_default (Suc n') env iter m))
        (iter_at fs dest 0) m = Some (go, m')" "mem_frame dest sz m m'" by blast
    have "pb_message_set_to_defaults n env fs dest m = Some m'"
      using True unfolding n(1) pb_message_set_to_defaults.simps(2) begin_iter_at by (simp add: it(1) del: pb_field_set_to_default.simps)
    with it(2) show ?thesis by blast
  qed
qed

section \<open>The field loop\<close>

text \<open>Every field of the message is one that can be decoded into the range.\<close>

definition fields_ok ::
  "addr \<Rightarrow> nat \<Rightarrow> nat \<Rightarrow> 's dec_env \<Rightarrow> (pb_field list \<Rightarrow> addr \<Rightarrow> mem \<Rightarrow> mem option) \<Rightarrow>
   (pb_field list \<Rightarrow> addr \<Rightarrow> 's pb_istream \<Rightarrow> mem \<Rightarrow> (unit, 's) dres) \<Rightarrow> pb_field list \<Rightarrow> addr \<Rightarrow> bool" where
  "fields_ok a n b env defaults noinit fs dest \<longleftrightarrow>
     (field_count fs = 0 \<longrightarrow> field_at fs 0 = PB_LAST_FIELD) \<and> a \<le> dest \<and> dest \<le> a + n \<and>
     (\<forall>k < field_count fs. let iter = iter_at fs dest k in
        field_ok a n (field_at fs k) (it_pData iter) (it_pSize iter) \<and>
        items_ok a n b env defaults noinit (field_at fs k) (it_pData iter))"

lemma PB_LAST_FIELD_types [simp]:
  "PB_ATYPE 0 = 0" "PB_HTYPE 0 = 0" "PB_LTYPE 0 = 0"
  by (simp_all add: PB_ATYPE_def PB_HTYPE_def PB_LTYPE_def)

lemma field_ok_last: "a \<le> p \<Longrightarrow> p \<le> a + n \<Longrightarrow> field_ok a n PB_LAST_FIELD p z"
  by (simp add: field_ok_def PB_LAST_FIELD_def)

lemma fields_ok_iter:
  assumes "fields_ok a n b env defaults noinit fs dest" "iter_valid iter" "it_start iter = fs" "it_dest iter = dest"
  shows "field_ok a n (it_field iter) (it_pData iter) (it_pSize iter)"
    and "items_ok a n b env defaults noinit (it_field iter) (it_pData iter)"
proof -
  obtain k where k: "iter = iter_at fs dest k" "k < field_count fs \<or> k = 0"
    using assms(2-4) by (metis iter_validE)
  show "field_ok a n (it_field iter) (it_pData iter) (it_pSize iter)"
    "items_ok a n b env defaults noinit (it_field iter) (it_pData iter)"
  proof (atomize (full), cases "k < field_count fs")
    case True
    with assms(1) k show "field_ok a n (it_field iter) (it_pData iter) (it_pSize iter) \<and>
        items_ok a n b env defaults noinit (it_field iter) (it_pData iter)"
      by (auto simp: fields_ok_def it_field_iter_at Let_def)
  next
    case False
    with k assms(1) have z: "k = 0" "field_count fs = 0" "field_at fs 0 = PB_LAST_FIELD" "a \<le> dest" "dest \<le> a + n"
      by (auto simp: fields_ok_def)
    then have "it_field iter = PB_LAST_FIELD" "it_pData iter = dest"
      using k by (simp_all add: it_field_iter_at iter_at.simps(1) pb_field_iter_begin_def it_field_def Let_def)
        (simp_all add: PB_LAST_FIELD_def)
    with z show "field_ok a n (it_field iter) (it_pData iter) (it_pSize iter) \<and>
        items_ok a n b env defaults noinit (it_field iter) (it_pData iter)"
      by (simp add: field_ok_last items_ok_def) (simp add: PB_LAST_FIELD_def)
  qed
qed

text \<open>The local variables of the loop.\<close>

definition vars_ok :: "pb_field list \<Rightarrow> addr \<Rightarrow> pb_field_iter \<times> u32 list \<times> nat \<Rightarrow> bool" where
  "vars_ok fs dest vars \<longleftrightarrow> (case vars of (iter, seen, ext_start) \<Rightarrow>
     iter_valid iter \<and> it_start iter = fs \<and> it_dest iter = dest \<and> length seen = 2)"

lemma length_mark_seen [simp]: "length (mark_seen iter seen) = length seen"
  by (simp add: mark_seen_def)

lemma pb_field_iter_find_valid:
  assumes "iter_valid iter"
  obtains found iter' where "pb_field_iter_find iter tag = Some (found, iter')" "iter_valid iter'"
    "it_start iter' = it_start iter" "it_dest iter' = it_dest iter"
  by (rule iter_search_spec [OF assms, where n = "Suc (length (it_start iter))" and
        P = "\<lambda>f. f_tag f = tag \<and> PB_LTYPE (f_type f) \<noteq> PB_LTYPE_EXTENSION"])
    (use field_count_le [of "it_start iter"] assms that in \<open>auto simp: pb_field_iter_find_def\<close>)

text \<open>Tables without extension fields.\<close>

lemma find_extension_field_none:
  assumes f: "fields_ok a n b env defaults noinit fs dest" and i: "iter_valid iter" "it_start iter = fs" "it_dest iter = dest"
  shows "find_extension_field iter = Some (False, iter)"
proof (rule iter_search_spec [OF i(1), where n = "Suc (length (it_start iter))" and
        P = "\<lambda>f. PB_LTYPE (f_type f) = PB_LTYPE_EXTENSION"])
  fix iter'
  assume "iter_valid iter'" "it_start iter' = it_start iter" "it_dest iter' = it_dest iter"
    "PB_LTYPE (f_type (it_field iter')) = PB_LTYPE_EXTENSION"
  moreover from this have "field_ok a n (it_field iter') (it_pData iter') (it_pSize iter')"
    using i by (intro fields_ok_iter(1) [OF f]) simp_all
  ultimately show ?thesis by (simp add: field_ok_def)
qed (use field_count_le [of fs] i in \<open>auto simp: find_extension_field_def\<close>)

lemma decode_tag_ok:
  assumes "stream_ok s"
  obtains (ok) wt tag s' where "pb_decode_tag s = Some (TagOk wt tag, s')" "stream_ok s'" "reads_ok s s'"
      "is_bytes_left s' < is_bytes_left s" "tag < 2 ^ 29" "wt < 8"
  | (stop) r s' where "pb_decode_tag s = Some (r, s')" "r = TagEof \<or> r = TagFail" "reads_ok s s'"
proof -
  obtain v s' where v: "pb_decode_varint32 s = Some (v, s')" "reads_ok s s'"
      "v \<noteq> None \<longrightarrow> is_bytes_left s' + 1 \<le> is_bytes_left s"
    using read_ok_varint32 [OF assms] unfolding read_ok_def by blast
  show ?thesis
  proof (cases v)
    case None
    with v show ?thesis
      by (intro stop [of "if is_bytes_left s' = 0 then TagEof else TagFail" s']) (auto simp: pb_decode_tag_def)
  next
    case (Some temp)
    have "unat (drop_bit 3 temp) = unat temp div 8" unfolding unat_drop_bit_eq by (simp add: drop_bit_eq_div)
    then have "unat (drop_bit 3 temp) < 2 ^ 29" using unat_u32_less [of temp] by simp
    moreover have "unat (temp AND 7) < 8"
    proof -
      have "unat (temp AND 7) \<le> unat (7 :: u32)" unfolding word_le_nat_alt [symmetric] by (rule word_and_le1)
      then show ?thesis by simp
    qed
    ultimately show ?thesis
      using Some v ok [of "unat (temp AND 7)" "unat (drop_bit 3 temp)" s'] stop [of TagEof s']
      by (cases "temp = 0") (auto simp: pb_decode_tag_def dest: reads_ok_stream_ok)
  qed
qed

text \<open>One turn of the loop keeps the variables in order and the memory and the stream intact.\<close>

lemma decode_one_ok:
  assumes f: "fields_ok a n b env defaults noinit fs dest" and cb: "callbacks_ok a n env"
    and v: "vars_ok fs dest vars" and s: "stream_ok s" "is_bytes_left s \<le> b" "is_bytes_left s \<le> k"
    and tag: "tag < 2 ^ 29"
  shows "dec_ok a n 0 s m (decode_one k env defaults noinit wt tag vars s m)"
    and "decode_one k env defaults noinit wt tag vars s m = Some (Some vars', st) \<Longrightarrow> vars_ok fs dest vars'"
proof -
  obtain iter seen ext where vars: "vars = (iter, seen, ext)" by (rule prod_cases3)
  with v have i: "iter_valid iter" "it_start iter = fs" "it_dest iter = dest" "length seen = 2"
    by (auto simp: vars_ok_def)
  obtain found iter' where find: "pb_field_iter_find iter tag = Some (found, iter')" "iter_valid iter'"
      "it_start iter' = fs" "it_dest iter' = dest"
    using i by (metis pb_field_iter_find_valid)
  define skip where "skip = (\<lambda>(vars :: pb_field_iter \<times> u32 list \<times> nat) (stream :: 'a pb_istream) m.
    sbind (with_mem m (pb_skip_field stream wt)) (\<lambda>_ (stream, m). dreturn vars stream m))"
  have skip_ok: "dec_ok a n 0 s m (skip vars s m)" for vars
    unfolding skip_def
    by (rule dec_ok_read [OF read_ok_skip_field [OF s(1)]]) (auto intro: dec_ok_return)
  have skip_vars: "skip vars s m = Some (Some vars', st) \<Longrightarrow> vars' = vars" for vars vars' st
    by (auto simp: skip_def sbind_eq_Some)
  have one: "decode_one k env defaults noinit wt tag vars s m =
     (if \<not> found then skip (iter', seen, if tag \<ge> ext then 2 ^ 32 - 1 else ext) s m
      else sbind (decode_field k env defaults noinit s wt iter' m)
        (\<lambda>_ (stream, m). dreturn (iter', mark_seen iter' seen, ext) stream m))"
    using find_extension_field_none [OF f find(2-4)] tag
    by (simp add: decode_one_def vars find(1) skip_def Let_def)
  have field: "dec_ok a n 0 s m (sbind (decode_field k env defaults noinit s wt iter' m)
        (\<lambda>_ (stream, m). dreturn (iter', mark_seen iter' seen, ext) stream m))"
    by (rule dec_ok_sbind [OF decode_field_ok [OF fields_ok_iter [OF f find(2-4)] cb s]])
      (auto intro: dec_ok_return)
  from one skip_ok field show "dec_ok a n 0 s m (decode_one k env defaults noinit wt tag vars s m)"
    by simp
  show "vars_ok fs dest vars'" if "decode_one k env defaults noinit wt tag vars s m = Some (Some vars', st)"
    using that i(4) find(2-4) unfolding one
    by (auto split: if_splits dest!: skip_vars simp: sbind_eq_Some vars_ok_def)
qed

lemma decode_loop_ok:
  assumes f: "fields_ok a n b env defaults noinit fs dest" and cb: "callbacks_ok a n env" and k: "b \<le> k"
  shows "vars_ok fs dest vars \<Longrightarrow> stream_ok s \<Longrightarrow> is_bytes_left s \<le> b \<Longrightarrow> is_bytes_left s < j \<Longrightarrow>
    dec_ok a n 0 s m (decode_loop j k env defaults noinit vars s m) \<and>
    (\<forall>vars' st. decode_loop j k env defaults noinit vars s m = Some (Some vars', st) \<longrightarrow> vars_ok fs dest vars')"
proof (induction j arbitrary: vars s m)
  case 0
  then show ?case by simp
next
  case (Suc j)
  show ?case
  proof (cases "is_bytes_left s = 0")
    case True
    with Suc.prems show ?thesis by (auto intro: dec_ok_return)
  next
    case False
    show ?thesis
    proof (cases rule: decode_tag_ok [OF Suc.prems(2)])
      case (1 wt tag s')
      have l: "is_bytes_left s' \<le> b" "is_bytes_left s' \<le> k" "is_bytes_left s' < j"
        using 1 Suc.prems k by simp_all
      let ?r = "decode_one k env defaults noinit wt tag vars s' m"
      let ?c = "sbind ?r (\<lambda>vars (stream, m). decode_loop j k env defaults noinit vars stream m)"
      have one: "dec_ok a n 0 s' m ?r" "\<And>vars' st. ?r = Some (Some vars', st) \<Longrightarrow> vars_ok fs dest vars'"
        using decode_one_ok [OF f cb Suc.prems(1) 1(2) l(1,2) 1(5)] by blast+
      have IH: "dec_ok a n 0 s'' m' (decode_loop j k env defaults noinit vars' s'' m') \<and>
        (\<forall>vars'' st. decode_loop j k env defaults noinit vars' s'' m' = Some (Some vars'', st) \<longrightarrow> vars_ok fs dest vars'')"
        if "?r = Some (Some vars', (s'', m'))" for vars' s'' m'
      proof (rule Suc.IH)
        show "vars_ok fs dest vars'" using one(2) that by blast
        show "stream_ok s''" "is_bytes_left s'' \<le> b" "is_bytes_left s'' < j"
          using one(1) that l by (auto simp: dec_ok_def dest: reads_ok_stream_ok reads_ok_left)
      qed
      have "dec_ok a n 0 s' m ?c"
        by (rule dec_ok_sbind [OF one(1)]) (use IH in auto)
      then have "dec_ok a n 0 s m ?c"
        using 1 by (auto intro: dec_ok_later)
      moreover have "\<forall>vars' st. ?c = Some (Some vars', st) \<longrightarrow> vars_ok fs dest vars'"
        using IH by (auto simp: sbind_eq_Some)
      ultimately show ?thesis using False 1(1) by simp
    next
      case (2 r s')
      then show ?thesis
        using False Suc.prems(1) by (auto simp: dec_ok_def dest: reads_ok_left)
    qed
  qed
qed

section \<open>Whole messages\<close>

lemma check_words_total: "i + c \<le> length seen \<Longrightarrow> \<exists>ok. check_words seen i c = Some ok"
  by (induction c arbitrary: i) (auto split: if_splits)

lemma check_required_total:
  assumes "length seen = 2" "c < 64" "c \<noteq> 32"
  shows "\<exists>ok. check_required seen c = Some ok"
proof -
  have "c div 32 < 2" "c = 0 \<or> c mod 32 \<noteq> 0" using assms(2,3) by (auto simp: less_mult_imp_div_less)
  moreover from this obtain ok where "check_words seen 0 (c div 32) = Some ok"
    using check_words_total [of 0 "c div 32" seen] assms(1) by auto
  ultimately show ?thesis using assms(1) by (auto simp: check_required_def)
qed

lemma decode_message_ok:
  assumes "table_ok d env fs dest sz" "a \<le> dest" "dest + sz \<le> a + n" "callbacks_ok a n env"
    and "stream_ok s" "is_bytes_left s + 2 * d < k"
  shows "dec_ok a n 0 s m (pb_decode_noinit k env fs dest s m)"
  using assms
proof (induction d arbitrary: fs dest sz s k m)
  case 0
  then show ?case by simp
next
  case (Suc d)
  from Suc.prems(6) obtain k' where k: "k = Suc k'" "is_bytes_left s + 2 * d + 2 \<le> k'" by (cases k) auto
  let ?defaults = "pb_message_set_to_defaults k' env" and ?noinit = "pb_decode_noinit k' env"
  let ?b = "is_bytes_left s"
  have sub: "submessage_ok a n ?b ?defaults ?noinit (de_tables env (f_ptr f)) q"
    if "table_ok d env (de_tables env (f_ptr f)) q z" "a \<le> q" "q + z \<le> a + n" for f q z
  proof -
    have "dec_ok a n 0 s' m (?noinit (de_tables env (f_ptr f)) q s' m)"
      if "stream_ok s'" "is_bytes_left s' < ?b" for s' m
      using that k by (intro Suc.IH [OF \<open>table_ok d env _ q z\<close> \<open>a \<le> q\<close> \<open>q + z \<le> a + n\<close> Suc.prems(4)]) simp_all
    moreover have "\<exists>m'. ?defaults (de_tables env (f_ptr f)) q m = Some m' \<and> mem_frame a n m m'" for m
      using defaults_ok [OF that(1), of k' m] k(2) that(2,3) by (auto intro: mem_frame_mono)
    ultimately show ?thesis by (simp add: submessage_ok_def)
  qed
  have "fields_ok a n ?b env ?defaults ?noinit fs dest"
    unfolding fields_ok_def Let_def
  proof (intro conjI allI impI)
    show "field_at fs 0 = PB_LAST_FIELD" if "field_count fs = 0" using Suc.prems(1) that by simp
    show "a \<le> dest" "dest \<le> a + n" using Suc.prems(2,3) by simp_all
  next
    fix j assume j: "j < field_count fs"
    let ?f = "field_at fs j" and ?i = "iter_at fs dest j"
    from Suc.prems(1) j have f: "field_ok dest sz ?f (it_pData ?i) (it_pSize ?i)"
      unfolding table_ok.simps Let_def by blast
    with Suc.prems(2,3) show "field_ok a n ?f (it_pData ?i) (it_pSize ?i)"
      by (intro field_ok_mono [OF f]) simp_all
    show "items_ok a n ?b env ?defaults ?noinit ?f (it_pData ?i)"
      unfolding items_ok_def
    proof (intro allI impI)
      fix i assume at: "PB_ATYPE (f_type ?f) = PB_ATYPE_STATIC" "PB_LTYPE (f_type ?f) = PB_LTYPE_SUBMESSAGE"
        "i < field_items ?f"
      then have "table_ok d env (de_tables env (f_ptr ?f)) (it_pData ?i + f_data_size ?f * i) (f_data_size ?f)"
        using Suc.prems(1) j unfolding table_ok.simps Let_def by blast
      moreover have "a \<le> it_pData ?i + f_data_size ?f * i"
        using item_range(1) [OF f at(1,3)] Suc.prems(2) by (rule le_trans [rotated])
      moreover have "it_pData ?i + f_data_size ?f * i + f_data_size ?f \<le> a + n"
        using item_range(2) [OF f at(1,3)] Suc.prems(3) by (rule le_trans)
      ultimately show "submessage_ok a n ?b ?defaults ?noinit (de_tables env (f_ptr ?f)) (it_pData ?i + f_data_size ?f * i)"
        by (rule sub)
    qed
  qed
  note f = this
  have v: "vars_ok fs dest (snd (pb_field_iter_begin fs dest), [0, 0], 0)"
    by (simp add: vars_ok_def begin_iter_at iter_valid_at)
  have l: "?b \<le> k'" "?b < k'" using k(2) by simp_all
  from decode_loop_ok [OF f Suc.prems(4) l(1) v Suc.prems(5) order_refl l(2), of m]
  have loop: "dec_ok a n 0 s m (decode_loop k' k' env ?defaults ?noinit (snd (pb_field_iter_begin fs dest), [0, 0], 0) s m)"
      "\<And>vars' st. decode_loop k' k' env ?defaults ?noinit (snd (pb_field_iter_begin fs dest), [0, 0], 0) s m =
         Some (Some vars', st) \<Longrightarrow> vars_ok fs dest vars'"
    by blast+
  show ?case
    unfolding k(1) pb_decode_noinit.simps(2)
  proof (rule dec_ok_sbind [OF loop(1)])
    fix vars s' m'
    assume r: "decode_loop k' k' env ?defaults ?noinit (snd (pb_field_iter_begin fs dest), [0, 0], 0) s m =
        Some (Some vars, (s', m'))" and s': "stream_ok s'"
    obtain iter seen ext where vars: "vars = (iter, seen, ext)" by (rule prod_cases3)
    with loop(2) [OF r] have i: "iter_valid iter" "it_start iter = fs" "length seen = 2"
      by (auto simp: vars_ok_def)
    have "required_total fs < 64" "required_total fs \<noteq> 32" using Suc.prems(1) by simp_all
    with check_required_total [OF i(3)] obtain ok where "check_required seen (required_total fs) = Some ok" by blast
    with i s' show "dec_ok a n 0 s' m' ((case vars of (iter, seen, _) \<Rightarrow> \<lambda>(stream, m).
         do {
           req_field_count \<leftarrow> count_required iter;
           ok \<leftarrow> check_required seen req_field_count;
           if ok then dreturn () stream m
           else pb_dreturn_error ''missing required field'' stream m
         }) (s', m'))"
      by (simp add: vars count_required_valid dec_ok_return)
  qed
qed

text \<open>
  C5: Memory safety and termination of the decoder. Take a field table that fits the structure
  of \<open>sz\<close> bytes at \<open>dest\<close> and nests submessages less than \<open>d\<close> deep, callbacks that keep to their contract,
  and any bytes at all in a buffer of at least \<open>bufsize\<close> bytes. Then \<open>pb_decode\<close> returns, with success or an
  error, for every fuel from \<open>bufsize + 2 * d + 1\<close> on; it is never stuck, so it never reads beyond the buffer; it
  changes no byte outside the structure; and the stream it leaves is still inside its buffer.
\<close>

lemma pb_decode_safe:
  assumes "table_ok d env fs dest sz" "callbacks_ok dest sz env"
    and "bufsize \<le> length buf" "bufsize + 2 * d < k"
  shows "\<exists>v s' m'. pb_decode k env fs dest (pb_istream_from_buffer buf bufsize) m = Some (v, (s', m')) \<and>
    mem_frame dest sz m m' \<and> stream_ok s' \<and> is_bytes_left s' \<le> bufsize"
proof -
  let ?s = "pb_istream_from_buffer buf bufsize :: 'a pb_istream"
  have s: "stream_ok ?s" "is_bytes_left ?s = bufsize"
    using assms(3) by (simp_all add: stream_ok_def pb_istream_from_buffer_def)
  obtain m1 where m1: "pb_message_set_to_defaults k env fs dest m = Some m1" "mem_frame dest sz m m1"
    using defaults_ok [OF assms(1), of k m] assms(4) by auto
  have "dec_ok dest sz 0 ?s m1 (pb_decode_noinit k env fs dest ?s m1)"
    using assms s by (intro decode_message_ok [OF assms(1)]) simp_all
  from dec_ok_frame [OF this m1(2)] obtain v s' m' where
    "pb_decode_noinit k env fs dest ?s m1 = Some (v, (s', m'))" "reads_ok ?s s'" "mem_frame dest sz m m'"
    unfolding dec_ok_def by blast
  with m1(1) s(2) show ?thesis
    by (simp add: pb_decode_def reads_ok_def)
qed

text \<open>
  \<^verbatim>\<open>struct { uint32_t id; pb_size_t count; struct { uint32_t id; } item[2]; }\<close> with a required
  \<^verbatim>\<open>id\<close> in both.
\<close>

definition item_fields :: "pb_field list" where
  "item_fields = [\<lparr>f_tag = 1, f_type = 0x01, f_data_offset = 0, f_size_offset = 0, f_data_size = 4,
     f_array_size = 0, f_ptr = 0\<rparr>]"

definition group_fields :: "pb_field list" where
  "group_fields = item_fields @ [\<lparr>f_tag = 2, f_type = 0x27, f_data_offset = 4, f_size_offset = -4, f_data_size = 4,
     f_array_size = 2, f_ptr = 1\<rparr>]"

definition group_env :: "unit dec_env" where
  "group_env = \<lparr>de_tables = (\<lambda>p. if p = 1 then item_fields else []),
     de_callback = (\<lambda>_ s _ _ m. (False, s, m)), de_ext_decode = (\<lambda>_ s _ _ _ m. (False, s, m))\<rparr>"

lemma table_ok_group: "table_ok 2 group_env group_fields 100 16"
proof -
  have c: "field_count group_fields = 2" "field_count item_fields = 1" by code_simp+
  have lt: "k < 2 \<longleftrightarrow> k = 0 \<or> k = 1" for k :: nat by auto
  have item: "table_ok (Suc 0) group_env item_fields p 4" if "p = 108 \<or> p = 112" for p
  proof -
    have r: "required_total item_fields = 1" by code_simp
    have "field_ok p 4 (field_at item_fields 0) (it_pData (iter_at item_fields p 0)) (it_pSize (iter_at item_fields p 0))"
      using that by (elim disjE; simp only:) code_simp+
    moreover have "PB_LTYPE (f_type (field_at item_fields 0)) \<noteq> PB_LTYPE_SUBMESSAGE" by code_simp
    ultimately show ?thesis by (simp add: c r)
  qed
  have r: "required_total group_fields = 1" by code_simp
  have f0: "field_ok 100 16 (field_at group_fields 0) (it_pData (iter_at group_fields 100 0)) (it_pSize (iter_at group_fields 100 0))"
    and f1: "field_ok 100 16 (field_at group_fields 1) (it_pData (iter_at group_fields 100 1)) (it_pSize (iter_at group_fields 100 1))"
    by code_simp+
  have l0: "PB_LTYPE (f_type (field_at group_fields 0)) \<noteq> PB_LTYPE_SUBMESSAGE"
    and i1: "field_items (field_at group_fields 1) = 2" "de_tables group_env (f_ptr (field_at group_fields 1)) = item_fields"
      "f_data_size (field_at group_fields 1) = 4" "it_pData (iter_at group_fields 100 1) = 108"
    by code_simp+
  have "table_ok (Suc (Suc 0)) group_env group_fields 100 16"
    unfolding table_ok.simps(2) [of "Suc 0"] Let_def c(1) lt
    using f0 f1 l0 item [of 108] item [of 112]
    by (simp add: r i1 lt imp_disjL all_conj_distrib del: table_ok.simps One_nat_def)
  then show ?thesis by (simp add: numeral_2_eq_2)
qed

lemma pb_decode_safe_witness:
  "\<exists>v s' m'. pb_decode 13 group_env group_fields 100 (pb_istream_from_buffer [0x08, 0x07, 0x12, 0x02, 0x08, 0xFF, 0x12, 0x05] 8)
      (\<lambda>_. 0) = Some (v, (s', m')) \<and> mem_frame 100 16 (\<lambda>_. 0) m'"
proof -
  have "callbacks_ok 100 16 group_env"
    by (auto simp: callbacks_ok_def group_env_def)
  then show ?thesis
    using pb_decode_safe [OF table_ok_group, of 8 "[0x08, 0x07, 0x12, 0x02, 0x08, 0xFF, 0x12, 0x05]" 13 "\<lambda>_. 0"] by auto
qed

end
