(* ===== verification/Pb_Total.thy ===== *)
theory Pb_Total
  imports Pb_Safety
begin

text \<open>
  The fuel of the decoder. Every definition that takes fuel, or is given a function that takes fuel,
  keeps its result when it gets more; with the bounds of \<^verbatim>\<open>Pb_Safety\<close> that makes decoding a total
  function of its input.
\<close>

section \<open>Results that more fuel does not change\<close>

definition below :: "'a option \<Rightarrow> 'a option \<Rightarrow> bool" where
  "below r r' \<longleftrightarrow> r = None \<or> r = r'"

named_theorems below_intros \<open>operations that respect the order of results\<close>

lemma below_refl [below_intros]: "below r r"
  by (simp add: below_def)

lemma below_None [below_intros]: "below None r"
  by (simp add: below_def)

lemma below_Some: "below r r' \<Longrightarrow> r = Some x \<Longrightarrow> r' = Some x"
  by (auto simp: below_def)

lemma below_trans: "below r r' \<Longrightarrow> below r' r'' \<Longrightarrow> below r r''"
  by (auto simp: below_def)

lemma below_bind [below_intros]:
  assumes "below r r'" "\<And>a. below (f a) (g a)"
  shows "below (Option.bind r f) (Option.bind r' g)"
proof (cases r)
  case (Some a)
  moreover from this have "r' = Some a" using assms(1) by (simp add: below_def)
  ultimately show ?thesis using assms(2) [of a] by (simp add: below_def)
qed (simp add: below_def)

lemma below_sbind [below_intros]:
  "below r r' \<Longrightarrow> (\<And>a st. below (f a st) (g a st)) \<Longrightarrow> below (sbind r f) (sbind r' g)"
  by (auto simp: below_def sbind_def split: option.splits)

lemma below_if [below_intros]:
  "below r r' \<Longrightarrow> below q q' \<Longrightarrow> below (if b then r else q) (if b then r' else q')"
  by simp

lemma below_let [below_intros]: "(\<And>x. below (f x) (g x)) \<Longrightarrow> below (let x = v in f x) (let x = v in g x)"
  by simp

lemma below_prod [below_intros]:
  "(\<And>x y. below (f x y) (g x y)) \<Longrightarrow> below (case p of (x, y) \<Rightarrow> f x y) (case p of (x, y) \<Rightarrow> g x y)"
  by (cases p) simp

lemma below_prod_app [below_intros]:
  "(\<And>x y. below (f x y z) (g x y z)) \<Longrightarrow>
   below ((case p of (x, y) \<Rightarrow> f x y) z) ((case p of (x, y) \<Rightarrow> g x y) z)"
  by (cases p) simp

lemma below_map_option [below_intros]: "below r r' \<Longrightarrow> below (map_option f r) (map_option f r')"
  by (auto simp: below_def)

lemma below_case_option:
  assumes "below r r'" "\<And>a. below (f a) (g a)"
  shows "below (case r of None \<Rightarrow> None | Some a \<Rightarrow> f a) (case r' of None \<Rightarrow> None | Some a \<Rightarrow> g a)"
proof (cases r)
  case (Some a)
  moreover from this have "r' = Some a" using assms(1) by (simp add: below_def)
  ultimately show ?thesis using assms(2) [of a] by (simp add: below_def)
qed (simp add: below_def)

text \<open>The two functions that a decoder is given.\<close>

definition funs_below ::
  "(pb_field list \<Rightarrow> addr \<Rightarrow> mem \<Rightarrow> mem option) \<Rightarrow>
   (pb_field list \<Rightarrow> addr \<Rightarrow> 's pb_istream \<Rightarrow> mem \<Rightarrow> (unit, 's) dres) \<Rightarrow>
   (pb_field list \<Rightarrow> addr \<Rightarrow> mem \<Rightarrow> mem option) \<Rightarrow>
   (pb_field list \<Rightarrow> addr \<Rightarrow> 's pb_istream \<Rightarrow> mem \<Rightarrow> (unit, 's) dres) \<Rightarrow> bool" where
  "funs_below defaults noinit defaults' noinit' \<longleftrightarrow>
     (\<forall>fs a m. below (defaults fs a m) (defaults' fs a m)) \<and>
     (\<forall>fs a s m. below (noinit fs a s m) (noinit' fs a s m))"

lemma funs_belowD:
  assumes "funs_below defaults noinit defaults' noinit'"
  shows "below (defaults fs a m) (defaults' fs a m)" "below (noinit fs a s m) (noinit' fs a s m)"
  using assms by (auto simp: funs_below_def)

lemma pb_decoder_below:
  assumes "funs_below d r d' r'"
  shows "below (pb_decoder env d r t s f a m) (pb_decoder env d' r' t s f a m)"
  unfolding pb_decoder_def pb_dec_submessage_def Let_def
  by (auto intro!: below_intros funs_belowD [OF assms])

lemma packed_loop_below:
  "(\<And>s a m. below (func s f a m) (func' s f a m)) \<Longrightarrow>
   below (packed_loop k func f p z s m) (packed_loop k func' f p z s m)"
proof (induction k arbitrary: s m)
  case (Suc k)
  then show ?case unfolding packed_loop.simps by (intro below_intros Suc.IH Suc.prems)
qed (simp add: below_refl)

lemma decode_static_field_below:
  assumes "funs_below d r d' r'"
  shows "below (decode_static_field env d r s wt iter m) (decode_static_field env d' r' s wt iter m)"
  unfolding decode_static_field_def decode_packed_def Let_def
  by (intro below_intros packed_loop_below pb_decoder_below [OF assms] funs_belowD [OF assms])

lemma callback_loop_below: "k \<le> k' \<Longrightarrow> below (callback_loop k cb s m) (callback_loop k' cb s m)"
proof (induction k arbitrary: k' s m)
  case (Suc k)
  then obtain j where j: "k' = Suc j" "k \<le> j" by (cases k') auto
  show ?case
    unfolding j(1) callback_loop.simps by (intro below_intros Suc.IH j(2))
qed (simp add: below_None)

lemma decode_callback_field_below:
  "k \<le> k' \<Longrightarrow> below (decode_callback_field k env s wt iter m) (decode_callback_field k' env s wt iter m)"
  unfolding decode_callback_field_def Let_def
  by (intro below_intros below_case_option callback_loop_below)

lemma decode_field_below:
  assumes "funs_below d r d' r'" "k \<le> k'"
  shows "below (decode_field k env d r s wt iter m) (decode_field k' env d' r' s wt iter m)"
  unfolding decode_field_def Let_def
  by (intro below_intros decode_static_field_below decode_callback_field_below assms)

lemma extension_loop_below:
  assumes "funs_below d r d' r'" "k \<le> k'"
  shows "j \<le> j' \<Longrightarrow> below (extension_loop j k env d r tag wt pos ext s m) (extension_loop j' k' env d' r' tag wt pos ext s m)"
proof (induction j arbitrary: j' ext s m)
  case (Suc j)
  then obtain i where i: "j' = Suc i" "j \<le> i" by (cases j') auto
  show ?case
    unfolding i(1) extension_loop.simps default_extension_decoder_def
    by (intro below_intros Suc.IH i(2) decode_field_below assms)
qed (simp add: below_None)

lemma decode_one_below:
  assumes "funs_below d r d' r'" "k \<le> k'"
  shows "below (decode_one k env d r wt tag vars s m) (decode_one k' env d' r' wt tag vars s m)"
  unfolding decode_one_def decode_extension_def
  by (intro below_intros extension_loop_below decode_field_below assms)

lemma decode_loop_below:
  assumes "funs_below d r d' r'" "k \<le> k'"
  shows "j \<le> j' \<Longrightarrow> below (decode_loop j k env d r vars s m) (decode_loop j' k' env d' r' vars s m)"
proof (induction j arbitrary: j' vars s m)
  case (Suc j)
  then obtain i where i: "j' = Suc i" "j \<le> i" by (cases j') auto
  have "below (case p of None \<Rightarrow> None | Some (TagEof, stream) \<Rightarrow> dreturn vars stream m
         | Some (TagFail, stream) \<Rightarrow> Some (None, (stream, m))
         | Some (TagOk wire_type tag, stream) \<Rightarrow>
             sbind (decode_one k env d r wire_type tag vars stream m)
               (\<lambda>vars (stream, m). decode_loop j k env d r vars stream m))
      (case p of None \<Rightarrow> None | Some (TagEof, stream) \<Rightarrow> dreturn vars stream m
         | Some (TagFail, stream) \<Rightarrow> Some (None, (stream, m))
         | Some (TagOk wire_type tag, stream) \<Rightarrow>
             sbind (decode_one k' env d' r' wire_type tag vars stream m)
               (\<lambda>vars (stream, m). decode_loop i k' env d' r' vars stream m))" for p
    by (cases p rule: option.exhaust; simp add: below_refl split: prod.split tag_result.split)
      (intro allI impI below_intros decode_one_below assms Suc.IH i(2))
  then show ?case
    unfolding i(1) decode_loop.simps by (intro below_intros)
qed (simp add: below_None)

lemma pb_iter_do_below:
  "(\<And>iter st. below (b iter st) (b' iter st)) \<Longrightarrow> below (pb_iter_do b iter st) (pb_iter_do b' iter st)"
proof (induction b iter st rule: pb_iter_do.induct)
  case (1 b iter st)
  show ?case
  proof (cases "b iter st")
    case None
    then show ?thesis by (simp add: pb_iter_do.simps [of b iter st] below_None)
  next
    case (Some p)
    obtain go st' where p: "p = (go, st')" by (cases p)
    have b': "b' iter st = Some (go, st')" using "1.prems" [of iter st] Some p by (auto simp: below_def)
    have "below (pb_iter_do b (snd (pb_field_iter_next iter)) st') (pb_iter_do b' (snd (pb_field_iter_next iter)) st')"
      if "go \<and> fst (pb_field_iter_next iter)"
      using "1.IH" [OF Some p [symmetric] that] "1.prems" by blast
    with Some p b' show ?thesis
      by (simp add: pb_iter_do.simps [of b iter st] pb_iter_do.simps [of b' iter st] below_refl)
  qed
qed

lemma defaults_below:
  "below (pb_field_set_to_default k env iter m) (pb_field_set_to_default (Suc k) env iter m)"
  "below (ext_set_to_default k env ext m) (ext_set_to_default (Suc k) env ext m)"
  "below (pb_message_set_to_defaults k env fs dest m) (pb_message_set_to_defaults (Suc k) env fs dest m)"
proof (induction k arbitrary: iter ext fs dest m)
  case 0
  show "below (pb_field_set_to_default 0 env iter m) (pb_field_set_to_default (Suc 0) env iter m)" for iter m
    by (simp add: below_None)
  show "below (ext_set_to_default 0 env ext m) (ext_set_to_default (Suc 0) env ext m)" for ext m
    by (simp add: below_None)
  show "below (pb_message_set_to_defaults 0 env fs dest m) (pb_message_set_to_defaults (Suc 0) env fs dest m)" for fs dest m
    by (simp add: below_None)
next
  case (Suc k)
  show "below (pb_field_set_to_default (Suc k) env iter m) (pb_field_set_to_default (Suc (Suc k)) env iter m)" for iter m
    unfolding pb_field_set_to_default.simps(2) [of k env iter m] pb_field_set_to_default.simps(2) [of "Suc k" env iter m]
    by (intro below_intros Suc)
  show "below (ext_set_to_default (Suc k) env ext m) (ext_set_to_default (Suc (Suc k)) env ext m)" for ext m
    unfolding ext_set_to_default.simps(2) [of k env ext m] ext_set_to_default.simps(2) [of "Suc k" env ext m]
    by (intro below_intros Suc)
  show "below (pb_message_set_to_defaults (Suc k) env fs dest m) (pb_message_set_to_defaults (Suc (Suc k)) env fs dest m)" for fs dest m
    unfolding pb_message_set_to_defaults.simps(2) [of k env fs dest m] pb_message_set_to_defaults.simps(2) [of "Suc k" env fs dest m]
    by (intro below_intros Suc pb_iter_do_below)
qed

lemma noinit_below:
  "below (pb_decode_noinit k env fs dest s m) (pb_decode_noinit (Suc k) env fs dest s m)"
proof (induction k arbitrary: fs dest s m)
  case (Suc k)
  have "funs_below (pb_message_set_to_defaults k env) (pb_decode_noinit k env)
      (pb_message_set_to_defaults (Suc k) env) (pb_decode_noinit (Suc k) env)"
    unfolding funs_below_def using defaults_below(3) Suc by blast
  then show ?case
    unfolding pb_decode_noinit.simps(2) [of k] pb_decode_noinit.simps(2) [of "Suc k"]
    by (intro below_intros decode_loop_below) simp_all
qed (simp add: below_None)

lemma pb_decode_below:
  "k \<le> k' \<Longrightarrow> below (pb_decode k env fs dest s m) (pb_decode k' env fs dest s m)"
proof (induction k' rule: dec_induct)
  case (step j)
  have "below (pb_decode j env fs dest s m) (pb_decode (Suc j) env fs dest s m)"
    unfolding pb_decode_def by (intro below_intros defaults_below noinit_below)
  with step show ?case by (blast intro: below_trans)
qed (rule below_refl)


text \<open>
  C16: The fuel of the model is no part of the behaviour. With a table that fits its structure and callbacks
  that keep to their contract there is one result, the same for every fuel that covers the input and the
  nesting depth: the decoder terminates on every input.
\<close>

lemma pb_decode_terminates:
  assumes "table_ok d env fs dest sz" "callbacks_ok dest sz env" "bufsize \<le> length buf"
  shows "\<exists>r. \<forall>k > bufsize + 2 * d. pb_decode k env fs dest (pb_istream_from_buffer buf bufsize) m = Some r"
proof -
  let ?k = "Suc (bufsize + 2 * d)"
  have "pb_decode ?k env fs dest (pb_istream_from_buffer buf bufsize) m \<noteq> None"
  proof -
    let ?s = "pb_istream_from_buffer buf bufsize :: 'a pb_istream"
    have s: "stream_ok ?s" "is_bytes_left ?s = bufsize"
      using assms(3) by (simp_all add: stream_ok_def pb_istream_from_buffer_def)
    obtain m1 where "pb_message_set_to_defaults ?k env fs dest m = Some m1"
      using defaults_ok [OF assms(1), of ?k m] by auto
    moreover have "dec_ok dest sz 0 ?s m1 (pb_decode_noinit ?k env fs dest ?s m1)"
      using assms s by (intro decode_message_ok [OF assms(1)]) simp_all
    ultimately show ?thesis by (auto simp: pb_decode_def dec_ok_def)
  qed
  then obtain r where r: "pb_decode ?k env fs dest (pb_istream_from_buffer buf bufsize) m = Some r" by blast
  have "pb_decode k env fs dest (pb_istream_from_buffer buf bufsize) m = Some r" if "bufsize + 2 * d < k" for k
    using that by (intro below_Some [OF pb_decode_below r]) simp
  then show ?thesis by blast
qed

lemma pb_decode_terminates_witness:
  "\<exists>r. \<forall>k > 12. pb_decode k group_env group_fields 100
      (pb_istream_from_buffer [0x08, 0x07, 0x12, 0x02, 0x08, 0xFF, 0x12, 0x05] 8) (\<lambda>_. 0) = Some r"
proof -
  have "callbacks_ok 100 16 group_env"
    by (auto simp: callbacks_ok_def group_env_def)
  then show ?thesis
    using pb_decode_terminates [OF table_ok_group, of 8 "[0x08, 0x07, 0x12, 0x02, 0x08, 0xFF, 0x12, 0x05]" "\<lambda>_. 0"] by auto
qed

end
