(* ===== verification/Pb_Fields.thy ===== *)
theory Pb_Fields
  imports Pb_Total
begin

text \<open>
  What the field loop of the decoder promises to its callers: the check of the required fields, unknown
  fields, and how the end of a message is recognised.
\<close>

unbundle bit_operations_syntax

section \<open>Required fields\<close>

lemma check_words_iff:
  assumes "i + c \<le> length seen"
  shows "check_words seen i c = Some (\<forall>j. i \<le> j \<longrightarrow> j < i + c \<longrightarrow> seen ! j = NOT 0)"
  using assms
proof (induction c arbitrary: i)
  case (Suc c)
  have "(\<forall>j. i \<le> j \<longrightarrow> j < i + Suc c \<longrightarrow> seen ! j = NOT 0) \<longleftrightarrow>
      seen ! i = NOT 0 \<and> (\<forall>j. Suc i \<le> j \<longrightarrow> j < Suc i + c \<longrightarrow> seen ! j = NOT 0)"
    by (auto simp: Suc_le_eq) (metis Suc_leI le_neq_implies_less)
  with Suc show ?case by simp
qed auto

lemma word_ones_iff: "(w :: u32) = NOT 0 \<longleftrightarrow> (\<forall>i < 32. bit w i)"
proof
  assume "\<forall>i < 32. bit w i"
  then show "w = NOT 0" by (intro bit_word_eqI) simp
qed simp

lemma word_low_ones_iff:
  assumes "0 < r" "r < 32" "\<And>i. bit w i \<Longrightarrow> i < r"
  shows "(w :: u32) = drop_bit (32 - r) (NOT 0) \<longleftrightarrow> (\<forall>i < r. bit w i)"
proof
  assume "\<forall>i < r. bit w i"
  with assms show "w = drop_bit (32 - r) (NOT 0)"
    by (intro bit_word_eqI) (auto simp: bit_drop_bit_eq bit_not_iff bit_mask_iff)
next
  assume "w = drop_bit (32 - r) (NOT 0)"
  with assms(1,2) show "\<forall>i < r. bit w i" by (auto simp: bit_drop_bit_eq bit_not_iff bit_mask_iff)
qed

text \<open>The required fields that have been seen, by their index.\<close>

definition seen_set :: "u32 list \<Rightarrow> nat set" where
  "seen_set seen = {i. i < 64 \<and> bit (seen ! (i div 32)) (i mod 32)}"

lemma mark_seen_set:
  assumes "length seen = 2"
  shows "seen_set (mark_seen iter seen) =
    (if PB_HTYPE (f_type (it_field iter)) = PB_HTYPE_REQUIRED \<and> it_required iter < 64
     then insert (it_required iter) (seen_set seen) else seen_set seen)"
proof (cases "PB_HTYPE (f_type (it_field iter)) = PB_HTYPE_REQUIRED \<and> it_required iter < 64")
  case True
  let ?r = "it_required iter"
  have len: "?r div 32 < length seen" using True assms by auto
  have "bit (mark_seen iter seen ! (i div 32)) (i mod 32) \<longleftrightarrow> i = ?r \<or> bit (seen ! (i div 32)) (i mod 32)" for i
  proof (cases "i div 32 = ?r div 32")
    case eq: True
    have "i mod 32 = ?r mod 32 \<longleftrightarrow> i = ?r" using eq by (metis div_mult_mod_eq)
    then show ?thesis
      using True eq len by (auto simp: mark_seen_def PB_MAX_REQUIRED_FIELDS_def bit_or_iff bit_push_bit_iff bit_1_iff bit_exp_iff)
  next
    case False
    then show ?thesis by (auto simp: mark_seen_def)
  qed
  with True show ?thesis by (auto simp: seen_set_def)
next
  case False
  then show ?thesis by (auto simp: mark_seen_def PB_MAX_REQUIRED_FIELDS_def)
qed

text \<open>The first \<open>c\<close> fields have been seen if whole words and the bits below \<open>r\<close> of the next one are set.\<close>

lemma seen_words:
  assumes "c = 32 * q + r" "r < 32" "c \<le> 64"
  shows "({..<c} \<subseteq> seen_set seen) \<longleftrightarrow> (\<forall>j < q. seen ! j = NOT 0) \<and> (\<forall>i < r. bit (seen ! q) i)"
proof -
  have "({..<c} \<subseteq> seen_set seen) \<longleftrightarrow> (\<forall>i < c. bit (seen ! (i div 32)) (i mod 32))"
    using assms(3) by (auto simp: seen_set_def)
  also have "\<dots> \<longleftrightarrow> (\<forall>j < q. \<forall>i < 32. bit (seen ! j) i) \<and> (\<forall>i < r. bit (seen ! q) i)"
  proof safe
    fix j i assume all: "\<forall>i < c. bit (seen ! (i div 32)) (i mod 32)" and ji: "j < q" "i < (32 :: nat)"
    have "32 * j + i < c" using ji assms(1) by linarith
    moreover have "(32 * j + i) div 32 = j" "(32 * j + i) mod 32 = i" using ji(2) by auto
    ultimately show "bit (seen ! j) i" using all by metis
  next
    fix i assume all: "\<forall>i < c. bit (seen ! (i div 32)) (i mod 32)" and i: "i < r"
    have "32 * q + i < c" using i assms(1) by linarith
    moreover have "(32 * q + i) div 32 = q" "(32 * q + i) mod 32 = i" using i assms(2) by auto
    ultimately show "bit (seen ! q) i" using all by metis
  next
    fix i assume words: "\<forall>j < q. \<forall>i < 32. bit (seen ! j) i" and rest: "\<forall>i < r. bit (seen ! q) i" and i: "i < c"
    show "bit (seen ! (i div 32)) (i mod 32)"
    proof (cases "i div 32 < q")
      case True
      with words show ?thesis by simp
    next
      case False
      have "i div 32 \<le> q" using i assms(1,2) by (metis add.commute div_le_mono div_less div_mult_self2 add_0 less_imp_le zero_neq_numeral)
      with False have "i div 32 = q" by simp
      moreover from this have "i mod 32 < r" using i assms(1) by (metis div_mult_mod_eq mult.commute nat_add_left_cancel_less)
      ultimately show ?thesis using rest by simp
    qed
  qed
  finally show ?thesis by (simp only: word_ones_iff)
qed

text \<open>
  C31: The check of the required fields for every number \<open>c\<close> of them up to 64, the number that is tracked. It is exact: the bit
  tests over whole words and the shifted mask for the remaining ones pass if and only if each of the \<open>c\<close> fields has been seen.
  Only when there are 32 or 64 of them and all have been seen it has no defined result: the mask is then shifted by the
  width of its type, and with 64 it is compared with a word behind the array.
\<close>

lemma check_required_exact:
  assumes "length seen = 2" "seen_set seen \<subseteq> {..<c}" "c \<le> 64"
  shows "check_required seen c =
    (if c \<in> {32, 64} \<and> {..<c} \<subseteq> seen_set seen then None else Some ({..<c} \<subseteq> seen_set seen))"
proof (cases "c mod 32 = 0")
  case True
  then obtain k where k: "c = 32 * k + 0" by (auto simp: mod_eq_0_iff_dvd)
  with assms(3) have "k \<le> 2" "c \<in> {32, 64} \<longleftrightarrow> k \<noteq> 0" by auto
  moreover have "({..<c} \<subseteq> seen_set seen) \<longleftrightarrow> (\<forall>j < k. seen ! j = NOT 0)"
    using seen_words [OF k _ assms(3), of seen] by simp
  ultimately show ?thesis
    using k assms(1) by (simp add: check_required_def check_words_iff)
next
  case False
  let ?q = "c div 32" and ?r = "c mod 32"
  have "c \<noteq> 0" "c \<noteq> 32" "c \<noteq> 64" using False by auto
  with assms(3) have c: "c \<noteq> 0" "c \<noteq> 32" "c \<noteq> 64" "c < 2 * 32" by simp_all
  have q: "?q < 2" "0 < ?r" "?r < 32" "c = 32 * ?q + ?r" using c(4) False by (simp_all only: less_mult_imp_div_less) simp_all
  have low: "i < ?r" if "bit (seen ! ?q) i" for i
  proof -
    have "i < 32" using that by (auto dest: bit_imp_le_length)
    then have "(32 * ?q + i) div 32 = ?q" "(32 * ?q + i) mod 32 = i" "32 * ?q + i < 64" using q(1) by auto
    with that have "32 * ?q + i \<in> seen_set seen" by (simp add: seen_set_def)
    then have "32 * ?q + i < c" using assms(2) by auto
    with q(4) show ?thesis by linarith
  qed
  have "({..<c} \<subseteq> seen_set seen) \<longleftrightarrow> (\<forall>j < ?q. seen ! j = NOT 0) \<and> seen ! ?q = drop_bit (32 - ?r) (NOT 0)"
    using seen_words [OF q(4,3) assms(3)] word_low_ones_iff [OF q(2,3) low] by blast
  then show ?thesis
    using q c assms(1) by (simp add: check_required_def check_words_iff)
qed

lemma check_required_exact_witness:
  "check_required [0xFFFFFFFF, 3] 34 = Some ({..<34} \<subseteq> seen_set [0xFFFFFFFF, 3])"
proof -
  have "i < 34" if "i \<in> seen_set [0xFFFFFFFF, 3]" for i
  proof (rule ccontr)
    assume "\<not> i < 34"
    with that have i: "32 \<le> i" "i < 64" "2 \<le> i - 32" "bit ([0xFFFFFFFF, 3 :: u32] ! (i div 32)) (i mod 32)"
      by (auto simp: seen_set_def)
    then have "i div 32 = 1" "i mod 32 = i - 32" using le_mod_geq [of 32 i] by auto
    with i have "bit (3 :: u32) (i - 32)" by simp
    moreover have "(3 :: u32) = mask 2" by (simp add: mask_eq_exp_minus_1)
    ultimately show False using i(3) by (simp only: bit_mask_iff) auto
  qed
  then have "seen_set [0xFFFFFFFF, 3] \<subseteq> {..<34}" by auto
  from check_required_exact [OF _ this] show ?thesis by simp
qed

section \<open>Unknown fields\<close>

lemma find_missing:
  assumes "iter_valid iter" "\<forall>j. \<not> P (field_at (it_start iter) j)"
  shows "iter_search (Suc (length (it_start iter))) P iter (it_pos iter) = Some (False, iter)"
proof (rule iter_search_spec [OF assms(1), where n = "Suc (length (it_start iter))" and P = P])
  fix iter' assume "it_start iter' = it_start iter" "P (it_field iter')"
  with assms(2) show ?thesis by (simp add: it_field_def)
qed (use field_count_le [of "it_start iter"] in simp_all)

text \<open>The loop variables after an unknown field: only the start of the extension range has moved.\<close>

definition no_extensions :: "nat \<Rightarrow> pb_field_iter \<times> u32 list \<times> nat \<Rightarrow> pb_field_iter \<times> u32 list \<times> nat" where
  "no_extensions tag vars = (case vars of (iter, seen, ext_start) \<Rightarrow>
     (iter, seen, if tag \<ge> ext_start then 2 ^ 32 - 1 else ext_start))"

lemma decode_one_unknown:
  assumes "iter_valid iter" "\<forall>j. f_tag (field_at (it_start iter) j) \<noteq> tag"
    and "\<forall>j. PB_LTYPE (f_type (field_at (it_start iter) j)) \<noteq> PB_LTYPE_EXTENSION" "tag < 2 ^ 29"
  shows "decode_one n env defaults noinit wt tag (iter, seen, ext) s m =
    sbind (with_mem m (pb_skip_field s wt)) (\<lambda>_ (s, m). dreturn (no_extensions tag (iter, seen, ext)) s m)"
  using find_missing [OF assms(1), of "\<lambda>f. f_tag f = tag \<and> PB_LTYPE (f_type f) \<noteq> PB_LTYPE_EXTENSION"]
    find_missing [OF assms(1), of "\<lambda>f. PB_LTYPE (f_type f) = PB_LTYPE_EXTENSION"] assms(2-4)
  by (simp add: decode_one_def pb_field_iter_find_def find_extension_field_def no_extensions_def Let_def)

text \<open>
  C32: A field that the table does not know is passed over, whatever its wire type and its size: the loop goes on
  right behind it with the same memory and the same record of required fields. So a message with fields from a
  newer schema is decoded like the message without them.
\<close>

lemma decode_loop_unknown_field:
  assumes "iter_valid iter" "\<forall>j. f_tag (field_at (it_start iter) j) \<noteq> tag"
    and "\<forall>j. PB_LTYPE (f_type (field_at (it_start iter) j)) \<noteq> PB_LTYPE_EXTENSION"
    and "wt < 8" "tag < 2 ^ 29" "wire_value wt xs"
    and "stream_at s (varint_bytes (tag_word wt tag) @ xs)"
  shows "decode_loop (Suc k) n env defaults noinit (iter, seen, ext) s m =
    decode_loop k n env defaults noinit (no_extensions tag (iter, seen, ext))
      (advance (length (varint_bytes (tag_word wt tag) @ xs)) s) m"
proof -
  let ?t = "varint_bytes (tag_word wt tag)"
  have "tag \<noteq> 0" using assms(2) by (metis f_tag_at_count)
  then have tag: "pb_decode_tag s = Some (TagOk wt tag, advance (length ?t) s)"
    using assms by (intro pb_decode_tag_bytes) (auto dest: stream_at_appendD)
  have "stream_at (advance (length ?t) s) xs" using assms(7) by (rule stream_at_advance)
  from pb_skip_field_exact [OF this assms(6)]
  have skip: "pb_skip_field (advance (length ?t) s) wt = Some (Some (), advance (length (?t @ xs)) s)" by simp
  have "?t \<noteq> []" by (rule varint_bytes_shape [of "tag_word wt tag"]) auto
  with stream_at_left [OF assms(7)] have "is_bytes_left s \<noteq> 0" by (cases ?t) auto
  then show ?thesis
    by (simp only: decode_loop.simps(2) if_False tag option.case prod.case tag_result.case
        decode_one_unknown [OF assms(1-3) assms(5)] skip with_mem_def option.map sbind_simps)
qed

lemma iter_valid_item: "iter_valid (iter_at item_fields 100 0)"
  by (simp add: iter_valid_at)

lemma field_at_item: "field_at item_fields j = PB_LAST_FIELD \<or> field_at item_fields j = item_fields ! 0"
  by (simp add: field_at_def item_fields_def)

lemma item_fields_facts:
  "f_tag (field_at item_fields j) \<noteq> 5" "PB_LTYPE (f_type (field_at item_fields j)) \<noteq> PB_LTYPE_EXTENSION"
  using field_at_item [of j] by (auto simp: item_fields_def PB_LAST_FIELD_def PB_LTYPE_def)

lemma tag_5_string: "varint_bytes (tag_word 2 5) = [0x2A]"
  by (simp add: tag_word_def varint_bytes.simps push_bit_eq_mult or_numerals)

lemma decode_loop_unknown_field_witness:
  "decode_loop 5 4 group_env (\<lambda>_ _ _. None) (\<lambda>_ _ _ _. None) (iter_at item_fields 100 0, [0, 0], 0)
      (pb_istream_from_buffer [0x2A, 0x02, 0x61, 0x62, 0x08, 0x01] 6) (\<lambda>_. 0) =
   decode_loop 4 4 group_env (\<lambda>_ _ _. None) (\<lambda>_ _ _ _. None) (iter_at item_fields 100 0, [0, 0], 2 ^ 32 - 1)
      (pb_istream_from_buffer [0x08, 0x01] 2) (\<lambda>_. 0)"
proof -
  let ?s = "pb_istream_from_buffer [0x2A, 0x02, 0x61, 0x62, 0x08, 0x01] 6 :: unit pb_istream"
  have w: "wire_value 2 [0x02, 0x61, 0x62]"
    unfolding wire_value_def
    by (intro disjI2 disjI1 conjI exI [of _ 2] exI [of _ "[0x61, 0x62]"]) (simp_all add: varint_bytes.simps)
  have "stream_at ?s (varint_bytes (tag_word 2 5) @ [0x02, 0x61, 0x62])"
    by (simp add: tag_5_string stream_at_def pb_istream_from_buffer_def)
  then have "decode_loop (Suc 4) 4 group_env (\<lambda>_ _ _. None) (\<lambda>_ _ _ _. None) (iter_at item_fields 100 0, [0, 0], 0) ?s (\<lambda>_. 0) =
    decode_loop 4 4 group_env (\<lambda>_ _ _. None) (\<lambda>_ _ _ _. None) (no_extensions 5 (iter_at item_fields 100 0, [0, 0], 0))
      (advance (length (varint_bytes (tag_word 2 5) @ [0x02, 0x61, 0x62])) ?s) (\<lambda>_. 0)"
    using item_fields_facts w by (intro decode_loop_unknown_field iter_valid_item) simp_all
  then show ?thesis
    by (simp add: tag_5_string no_extensions_def advance_def pb_istream_from_buffer_def del: decode_loop.simps)
qed

text \<open>
  An unknown field with one of the four wire types that are not values (the group types 3 and 4, and
  6 and 7) stops the decoder with an error right behind its tag.
\<close>

lemma decode_loop_bad_wire_type:
  assumes "iter_valid iter" "\<forall>j. f_tag (field_at (it_start iter) j) \<noteq> tag"
    and "\<forall>j. PB_LTYPE (f_type (field_at (it_start iter) j)) \<noteq> PB_LTYPE_EXTENSION"
    and "wt \<in> {3, 4, 6, 7}" "tag < 2 ^ 29" "stream_at s (varint_bytes (tag_word wt tag))"
  shows "decode_loop (Suc k) n env defaults noinit (iter, seen, ext) s m =
    pb_dreturn_error ''invalid wire_type'' (advance (length (varint_bytes (tag_word wt tag))) s) m"
proof -
  let ?t = "varint_bytes (tag_word wt tag)"
  have "tag \<noteq> 0" using assms(2) by (metis f_tag_at_count)
  then have tag: "pb_decode_tag s = Some (TagOk wt tag, advance (length ?t) s)"
    using assms by (intro pb_decode_tag_bytes) auto
  have skip: "pb_skip_field s' wt = pb_return_error ''invalid wire_type'' s'" for s' :: "'a pb_istream"
    using assms(4) by (auto simp: pb_skip_field_def)
  have "?t \<noteq> []" by (rule varint_bytes_shape [of "tag_word wt tag"]) auto
  with stream_at_left [OF assms(6)] have "is_bytes_left s \<noteq> 0" by (cases ?t) auto
  then show ?thesis
    by (simp only: decode_loop.simps(2) if_False tag option.case prod.case tag_result.case
        decode_one_unknown [OF assms(1-3) assms(5)] skip with_mem_def option.map sbind_simps)
qed

lemma decode_loop_bad_wire_type_witness:
  "decode_loop 1 0 group_env (\<lambda>_ _ _. None) (\<lambda>_ _ _ _. None) (iter_at item_fields 100 0, [0, 0], 0)
      (pb_istream_from_buffer [0x2B] 1) (\<lambda>_. 0) =
    pb_dreturn_error ''invalid wire_type'' (pb_istream_from_buffer [] 0) (\<lambda>_. 0)"
proof -
  have t: "varint_bytes (tag_word 3 5) = [0x2B]"
    by (simp add: tag_word_def varint_bytes.simps push_bit_eq_mult or_numerals)
  have "stream_at (pb_istream_from_buffer [0x2B] 1 :: unit pb_istream) (varint_bytes (tag_word 3 5))"
    by (simp add: t stream_at_def pb_istream_from_buffer_def)
  then have "decode_loop (Suc 0) 0 group_env (\<lambda>_ _ _. None) (\<lambda>_ _ _ _. None) (iter_at item_fields 100 0, [0, 0], 0)
      (pb_istream_from_buffer [0x2B] 1) (\<lambda>_. 0) =
    pb_dreturn_error ''invalid wire_type'' (advance (length (varint_bytes (tag_word 3 5))) (pb_istream_from_buffer [0x2B] 1)) (\<lambda>_. 0)"
    using item_fields_facts by (intro decode_loop_bad_wire_type iter_valid_item) simp_all
  then show ?thesis
    by (simp add: t advance_def pb_istream_from_buffer_def del: decode_loop.simps)
qed

section \<open>The end of a message\<close>

text \<open>
  The loop takes a tag that is cut off by the end of the stream for the end of the message. So with
  no required fields \<open>pb_decode_noinit\<close> reports success for up to five bytes that all have the continuation bit,
  which are not the encoding of any message.
\<close>

lemma pb_decode_truncated_tag_accepted:
  assumes "xs \<noteq> []" "\<forall>x \<in> set xs. more_bit x" "length xs \<le> 5"
    and "stream_at s xs" "is_bytes_left s = length xs" "required_total fs = 0"
  shows "\<exists>msg. pb_decode_noinit (Suc (Suc k)) env fs dest s m =
    dreturn () (set_error msg (advance (length xs) s)) m"
proof -
  obtain msg where tag: "pb_decode_tag s = Some (TagEof, set_error msg (advance (length xs) s))"
    using pb_decode_tag_truncated [OF assms(4,5,2,3)] by blast
  have "is_bytes_left s \<noteq> 0" using assms(1,5) by simp
  then have loop: "decode_loop (Suc k) n env defaults noinit vars s m =
      dreturn vars (set_error msg (advance (length xs) s)) m" for n defaults noinit and vars :: "pb_field_iter \<times> u32 list \<times> nat"
    by (simp add: tag)
  have "count_required (iter_at fs dest 0) = Some 0"
    using count_required_valid [of "iter_at fs dest 0"] assms(6) by (simp add: iter_valid_at)
  then have "pb_decode_noinit (Suc (Suc k)) env fs dest s m = dreturn () (set_error msg (advance (length xs) s)) m"
    unfolding pb_decode_noinit.simps(2) [of "Suc k"] loop begin_iter_at by (simp add: check_required_def)
  then show ?thesis by blast
qed
lemma pb_decode_truncated_tag_accepted_witness:
  "\<exists>msg. pb_decode_noinit 2 group_env [] 100 (pb_istream_from_buffer [0xFF, 0x80] 2) (\<lambda>_. 0) =
    dreturn () (set_error msg (pb_istream_from_buffer [] 0)) (\<lambda>_. 0)"
proof -
  let ?s = "pb_istream_from_buffer [0xFF, 0x80] 2 :: unit pb_istream"
  have "stream_at ?s [0xFF, 0x80]" "is_bytes_left ?s = length [0xFF, 0x80 :: byte]"
    by (simp_all add: stream_at_def pb_istream_from_buffer_def)
  moreover have "\<forall>x \<in> set [0xFF, 0x80 :: byte]. more_bit x" by (simp add: more_bit_def)
  moreover have "required_total [] = 0" by (simp add: required_total_def)
  ultimately have "\<exists>msg. pb_decode_noinit (Suc (Suc 0)) group_env [] 100 ?s (\<lambda>_. 0) =
      dreturn () (set_error msg (advance (length [0xFF, 0x80 :: byte]) ?s)) (\<lambda>_. 0)"
    by (intro pb_decode_truncated_tag_accepted) simp_all
  then show ?thesis
    by (simp add: advance_def pb_istream_from_buffer_def numeral_2_eq_2 del: pb_decode_noinit.simps)
qed

end
