(* ===== verification/Pb_Wire.thy ===== *)
theory Pb_Wire
  imports Pb_Encode Pb_Safety
begin

text \<open>
  The specification of the encoder: \<open>message_wire\<close> gives the bytes of a structure in memory by the rules of
  the wire format, one equation per kind of field, and the encoder of \<^verbatim>\<open>Pb_Encode\<close> is proved to write them, on
  sizing streams and into buffers, and to fail on a buffer that is too small.
\<close>
unbundle bit_operations_syntax

section \<open>The bytes of a message\<close>

text \<open>A length-delimited value, and the zero-terminated string in the first \<open>k\<close> bytes at \<open>p\<close>.\<close>

definition delimited :: "byte list \<Rightarrow> byte list" where
  "delimited bs = varint_bytes (of_nat (length bs)) @ bs"

definition c_string :: "mem \<Rightarrow> addr \<Rightarrow> nat \<Rightarrow> byte list" where
  "c_string m p k = takeWhile (\<lambda>b. b \<noteq> 0) (mem_load m p k)"

definition item_wire ::
  "'s enc_env \<Rightarrow> mem \<Rightarrow> (pb_field list \<Rightarrow> addr \<Rightarrow> byte list option) \<Rightarrow> pb_field \<Rightarrow> addr \<Rightarrow> byte list option" where
  "item_wire env m sub f p =
     (let lt = PB_LTYPE (f_type f); n = f_data_size f; int_size = (n = 1 \<or> n = 2 \<or> n = 4 \<or> n = 8) in
      if lt = PB_LTYPE_VARINT then
        (if int_size then Some (varint_bytes (word_of_int (load_int m p n))) else None)
      else if lt = PB_LTYPE_UVARINT then
        (if int_size then Some (varint_bytes (of_nat (load_nat m p n))) else None)
      else if lt = PB_LTYPE_SVARINT then
        (if int_size then Some (varint_bytes (zigzag (word_of_int (load_int m p n)))) else None)
      else if lt = PB_LTYPE_FIXED32 then Some (mem_load m p 4)
      else if lt = PB_LTYPE_FIXED64 then Some (mem_load m p 8)
      else if lt = PB_LTYPE_BYTES then
        (if p = 0 then Some (delimited [])
         else if PB_ATYPE (f_type f) = PB_ATYPE_STATIC \<and> n < load_u32 m p + 4 then None
         else Some (delimited (mem_load m (p + 4) (load_u32 m p))))
      else if lt = PB_LTYPE_STRING then
        (if p = 0 then Some (delimited [])
         else Some (delimited (c_string m p (if PB_ATYPE (f_type f) = PB_ATYPE_POINTER then 2 ^ 64 - 1 else n))))
      else if lt = PB_LTYPE_SUBMESSAGE then
        (if f_ptr f = 0 then None else map_option delimited (sub (ee_tables env (f_ptr f)) p))
      else if lt = PB_LTYPE_FIXED_LENGTH_BYTES then Some (delimited (mem_load m p n))
      else None)"

definition ltype_wire :: "byte \<Rightarrow> nat option" where
  "ltype_wire lt =
     (if lt = PB_LTYPE_VARINT \<or> lt = PB_LTYPE_UVARINT \<or> lt = PB_LTYPE_SVARINT then Some PB_WT_VARINT
      else if lt = PB_LTYPE_FIXED32 then Some PB_WT_32BIT
      else if lt = PB_LTYPE_FIXED64 then Some PB_WT_64BIT
      else if lt = PB_LTYPE_BYTES \<or> lt = PB_LTYPE_STRING \<or> lt = PB_LTYPE_SUBMESSAGE
          \<or> lt = PB_LTYPE_FIXED_LENGTH_BYTES then Some PB_WT_STRING
      else None)"

definition tagged_wire :: "pb_field \<Rightarrow> byte list option \<Rightarrow> byte list option" where
  "tagged_wire f r =
     do {
       wt \<leftarrow> ltype_wire (PB_LTYPE (f_type f));
       bs \<leftarrow> r;
       Some (varint_bytes (tag_word wt (f_tag f)) @ bs)
     }"

text \<open>The elements of an array one behind the other.\<close>

primrec items_wire :: "(addr \<Rightarrow> byte list option) \<Rightarrow> nat \<Rightarrow> nat \<Rightarrow> addr \<Rightarrow> byte list option" where
  "items_wire item sz 0 p = Some []"
| "items_wire item sz (Suc count) p =
     do { bs \<leftarrow> item p; rest \<leftarrow> items_wire item sz count (p + sz); Some (bs @ rest) }"

definition array_wire ::
  "'s enc_env \<Rightarrow> mem \<Rightarrow> (pb_field list \<Rightarrow> addr \<Rightarrow> byte list option) \<Rightarrow> pb_field \<Rightarrow> addr \<Rightarrow> nat \<Rightarrow> byte list option" where
  "array_wire env m sub f p count =
     (let lt = PB_LTYPE (f_type f); pointer = (PB_ATYPE (f_type f) = PB_ATYPE_POINTER) in
      if count = 0 then Some []
      else if \<not> pointer \<and> count > f_array_size f then None
      else if lt \<le> PB_LTYPE_LAST_PACKABLE then
        do {
          bs \<leftarrow> items_wire (item_wire env m sub f) (f_data_size f) count p;
          Some (varint_bytes (tag_word PB_WT_STRING (f_tag f)) @ delimited bs)
        }
      else
        items_wire (\<lambda>q. tagged_wire f (item_wire env m sub f
             (if pointer \<and> (lt = PB_LTYPE_STRING \<or> lt = PB_LTYPE_BYTES) then load_ptr m q else q)))
          (f_data_size f) count p)"

text \<open>Which fields are present, by repetition rule; \<open>z\<close> is the address of the size or presence slot.\<close>

definition field_wire ::
  "nat \<Rightarrow> 's enc_env \<Rightarrow> mem \<Rightarrow> (pb_field list \<Rightarrow> addr \<Rightarrow> byte list option) \<Rightarrow> pb_field \<Rightarrow> addr \<Rightarrow> byte list option" where
  "field_wire n env m sub f p =
     (let z = ptr_add p (f_size_offset f); explicit = (f_size_offset f \<noteq> 0);
          pointer = (PB_ATYPE (f_type f) = PB_ATYPE_POINTER);
          q = (if pointer then load_ptr m p else p);
          single = tagged_wire f (item_wire env m sub f q) in
      if PB_LTYPE (f_type f) = PB_LTYPE_EXTENSION then (if n \<noteq> 0 \<and> load_ptr m p = 0 then Some [] else None)
      else if PB_ATYPE (f_type f) = PB_ATYPE_CALLBACK then (if load_ptr m p = 0 then Some [] else None)
      else if \<not> pointer \<and> PB_ATYPE (f_type f) \<noteq> PB_ATYPE_STATIC then None
      else if PB_HTYPE (f_type f) = PB_HTYPE_REQUIRED then (if q = 0 then None else single)
      else if PB_HTYPE (f_type f) = PB_HTYPE_OPTIONAL then
        (if explicit then (if load_bool m z then single else Some [])
         else do {
           zero \<leftarrow> pb_check_proto3_default_value n env m f p;
           if (if pointer then q = 0 else zero) then Some [] else single
         })
      else if PB_HTYPE (f_type f) = PB_HTYPE_REPEATED then
        (if explicit then array_wire env m sub f q (load_u32 m z) else None)
      else if \<not> explicit then None
      else if load_u32 m z = f_tag f then single
      else Some [])"

text \<open>The fields from the \<open>k\<close>-th on, and a whole message.\<close>

definition fields_wire :: "(nat \<Rightarrow> byte list option) \<Rightarrow> nat list \<Rightarrow> byte list option" where
  "fields_wire field ks = map_option concat (those (map field ks))"

fun message_wire :: "nat \<Rightarrow> 's enc_env \<Rightarrow> mem \<Rightarrow> pb_field list \<Rightarrow> addr \<Rightarrow> byte list option" where
  "message_wire 0 env m fs src = None"
| "message_wire (Suc n) env m fs src =
     fields_wire (\<lambda>k. field_wire n env m (message_wire n env m) (field_at fs k) (it_pData (iter_at fs src k)))
       [0..<field_count fs]"

section \<open>Operations that write given bytes\<close>

text \<open>
  On every stream that has room for them, a sizing stream or a buffer, \<open>f\<close> succeeds and writes exactly
  the bytes \<open>bs\<close>; on a buffer that has not, it fails.
\<close>

definition ready :: "'s pb_ostream \<Rightarrow> nat \<Rightarrow> bool" where
  "ready stream n \<longleftrightarrow> has_room stream n \<and> os_errmsg stream = None \<and> os_bytes_written stream < 2 ^ 64"

definition short_of :: "'s pb_ostream \<Rightarrow> nat \<Rightarrow> bool" where
  "short_of stream n \<longleftrightarrow> (\<exists>acc. os_dst stream = BufDst acc) \<and> os_errmsg stream = None \<and>
     os_bytes_written stream \<le> os_max_size stream \<and> os_max_size stream < os_bytes_written stream + n \<and>
     os_bytes_written stream + n < 2 ^ 64"

definition writes :: "('s pb_ostream \<Rightarrow> 's eres) \<Rightarrow> byte list \<Rightarrow> bool" where
  "writes f bs \<longleftrightarrow>
     (\<forall>stream. ready stream (length bs) \<longrightarrow> f stream = ereturn (emit bs stream)) \<and>
     (\<forall>stream. short_of stream (length bs) \<longrightarrow> (\<exists>stream'. f stream = Some (None, stream')))"

lemma ready_has_room: "ready stream n \<Longrightarrow> has_room stream n"
  by (simp add: ready_def)

lemma ready_append: "ready stream (length (xs @ ys)) \<Longrightarrow> ready stream (length xs)"
  by (auto simp: ready_def intro: has_room_mono)

lemma ready_emit: "ready stream (length (xs @ ys)) \<Longrightarrow> ready (emit xs stream) (length ys)"
  using size_add_less [of "os_bytes_written stream" "length xs"]
  by (auto simp: ready_def emit_def has_room_def split: ostream_dst.splits)

lemma emit_Nil: "ready s n \<Longrightarrow> emit [] s = s"
  by (simp add: ready_def emit_def split: ostream_dst.splits)

lemma writesI:
  "(\<And>stream. ready stream (length bs) \<Longrightarrow> f stream = ereturn (emit bs stream)) \<Longrightarrow>
   (\<And>stream. short_of stream (length bs) \<Longrightarrow> \<exists>stream'. f stream = Some (None, stream')) \<Longrightarrow> writes f bs"
  by (simp add: writes_def)

lemma writesD: "writes f bs \<Longrightarrow> ready stream (length bs) \<Longrightarrow> f stream = ereturn (emit bs stream)"
  by (simp add: writes_def)

lemma writes_shortD: "writes f bs \<Longrightarrow> short_of stream (length bs) \<Longrightarrow> \<exists>stream'. f stream = Some (None, stream')"
  by (simp add: writes_def)

text \<open>A buffer that is short of two pieces is short of the first, or of the second once it has the first.\<close>

lemma short_of_append:
  assumes "short_of stream (length (xs @ ys))"
  obtains "short_of stream (length xs)" | "ready stream (length xs)" "short_of (emit xs stream) (length ys)"
proof (cases "os_max_size stream < os_bytes_written stream + length xs")
  case True
  with assms that(1) show ?thesis by (auto simp: short_of_def)
next
  case False
  with assms that(2) show ?thesis by (auto simp: short_of_def ready_def has_room_def emit_def)
qed

lemma not_short_of_0 [simp]: "\<not> short_of s 0"
  by (auto simp: short_of_def)

lemma writes_return: "writes ereturn []"
  by (rule writesI) (simp_all add: emit_Nil)

lemma writes_sbind:
  assumes "writes f xs" "writes g ys"
  shows "writes (\<lambda>s. sbind (f s) (\<lambda>_ s. g s)) (xs @ ys)"
proof (rule writesI)
  fix s :: "'a pb_ostream"
  assume "ready s (length (xs @ ys))"
  then show "sbind (f s) (\<lambda>_ s. g s) = ereturn (emit (xs @ ys) s)"
    by (simp add: writesD [OF assms(1) ready_append] writesD [OF assms(2) ready_emit])
next
  fix s :: "'a pb_ostream"
  assume "short_of s (length (xs @ ys))"
  then show "\<exists>s'. sbind (f s) (\<lambda>_ s. g s) = Some (None, s')"
  proof (cases rule: short_of_append)
    case 1
    with writes_shortD [OF assms(1)] show ?thesis by fastforce
  next
    case 2
    with writesD [OF assms(1)] writes_shortD [OF assms(2)] show ?thesis by fastforce
  qed
qed

lemma writes_pb_write: "length bs = n \<Longrightarrow> writes (\<lambda>s. pb_write s (Some bs) n) bs"
proof (rule writesI)
  fix s :: "'a pb_ostream"
  assume "length bs = n" "short_of s (length bs)"
  then show "\<exists>s'. pb_write s (Some bs) n = Some (None, s')"
    by (auto simp: short_of_def pb_write_def Let_def)
qed (simp add: pb_write_emit ready_has_room)

lemma writes_varint: "writes (\<lambda>s. pb_encode_varint s v) (varint_bytes v)"
  unfolding pb_encode_varint_bytes by (rule writes_pb_write) simp

lemma writes_tag: "writes (\<lambda>s. pb_encode_tag s wt n) (varint_bytes (tag_word wt n))"
  using writes_varint [of "tag_word wt n"] by (simp add: pb_encode_tag_def tag_word_def Let_def)

lemma writes_tag_for_field:
  "ltype_wire (PB_LTYPE (f_type f)) = Some wt \<Longrightarrow>
   writes (\<lambda>s. pb_encode_tag_for_field s f) (varint_bytes (tag_word wt (f_tag f)))"
  using writes_tag [of wt "f_tag f"]
  by (auto simp: pb_encode_tag_for_field_def ltype_wire_def Let_def split: if_splits)

lemma writes_string: "writes (\<lambda>s. pb_encode_string s (Some bs) (length bs)) (delimited bs)"
  unfolding pb_encode_string_def delimited_def by (intro writes_sbind writes_varint writes_pb_write refl)

lemma writes_string_length: "length bs = n \<Longrightarrow> writes (\<lambda>s. pb_encode_string s (Some bs) n) (delimited bs)"
  using writes_string by blast

lemma writes_null_string: "writes (\<lambda>s. pb_encode_string s None 0) (delimited [])"
proof -
  have "writes (\<lambda>s. pb_write s None 0) []"
    by (rule writesI) (simp_all add: pb_write_null_emit ready_has_room)
  from writes_sbind [OF writes_varint [of 0] this] show ?thesis
    unfolding pb_encode_string_def delimited_def by simp
qed

text \<open>A sizing stream may be told a number of bytes without the bytes.\<close>

lemma pb_write_sizing: "is_sizing s \<Longrightarrow> pb_write s buf (length bs) = ereturn (emit bs s)"
  by (auto simp: is_sizing_def pb_write_def emit_def Let_def split: ostream_dst.splits)

lemma ready_sizing: "ready PB_OSTREAM_SIZING n"
  by (simp add: ready_def has_room_def PB_OSTREAM_SIZING_def)

lemma sizing_written:
  assumes "writes f bs" "length bs < 2 ^ 64"
  shows "\<exists>s. f PB_OSTREAM_SIZING = ereturn s \<and> os_bytes_written s = length bs"
  using writesD [OF assms(1) ready_sizing] assms(2) by (auto simp: emit_def PB_OSTREAM_SIZING_def)

text \<open>
  A submessage is encoded twice: once to learn its size, once for its bytes. If both runs write the
  same, the size check succeeds.
\<close>

lemma writes_submessage:
  assumes "writes encode bs" "length bs < 2 ^ 64"
  shows "writes (pb_encode_submessage encode) (delimited bs)"
proof (rule writesI)
  fix s :: "'a pb_ostream"
  assume s: "ready s (length (delimited bs))"
  let ?v = "varint_bytes (of_nat (length bs))"
  obtain sub where sub: "encode PB_OSTREAM_SIZING = ereturn sub" "os_bytes_written sub = length bs"
    using sizing_written [OF assms] by blast
  have len: "pb_encode_varint s (of_nat (length bs)) = ereturn (emit ?v s)"
    using s unfolding delimited_def by (rule writesD [OF writes_varint ready_append])
  have rest: "ready (emit ?v s) (length bs)" using s unfolding delimited_def by (rule ready_emit)
  show "pb_encode_submessage encode s = ereturn (emit (delimited bs) s)"
  proof (cases "is_sizing s")
    case True
    then show ?thesis
      by (simp add: pb_encode_submessage_def sub len pb_write_sizing delimited_def)
  next
    case False
    then obtain acc where acc: "os_dst s = BufDst acc"
      using s by (cases "os_dst s") (auto simp: ready_def has_room_def is_sizing_def)
    let ?s = "emit ?v s"
    have fit: "os_bytes_written ?s + length bs \<le> os_max_size ?s" "os_max_size ?s < 2 ^ 64"
      using rest acc by (auto simp: ready_def has_room_def emit_def)
    let ?sub = "\<lparr>os_dst = os_dst ?s, os_max_size = length bs, os_bytes_written = 0, os_errmsg = None\<rparr>"
    have "encode ?sub = ereturn (emit bs ?sub)"
      using assms acc by (intro writesD) (auto simp: ready_def has_room_def emit_def)
    moreover have "size_add (os_bytes_written ?s) (length bs) \<le> os_max_size ?s" using fit by simp
    moreover have "emit bs ?s = ?s\<lparr>os_bytes_written := size_add (os_bytes_written ?s) (length bs),
        os_dst := os_dst (emit bs ?sub), os_errmsg := None\<rparr>"
      using acc s by (simp add: emit_def ready_def)
    ultimately show ?thesis
      using False assms(2) acc s
      by (simp add: pb_encode_submessage_def sub len delimited_def not_less Let_def del: emit_emit)
        (cases s, simp add: emit_def ready_def size_add_assoc)
  qed
next
  fix s :: "'a pb_ostream"
  assume s: "short_of s (length (delimited bs))"
  let ?v = "varint_bytes (of_nat (length bs))"
  obtain sub where sub: "encode PB_OSTREAM_SIZING = ereturn sub" "os_bytes_written sub = length bs"
    using sizing_written [OF assms] by blast
  from s show "\<exists>s'. pb_encode_submessage encode s = Some (None, s')"
    unfolding delimited_def
  proof (cases rule: short_of_append)
    case 1
    from writes_shortD [OF writes_varint this] sub show ?thesis by (auto simp: pb_encode_submessage_def)
  next
    case 2
    then have "\<not> is_sizing (emit ?v s)" "os_max_size (emit ?v s) < size_add (os_bytes_written (emit ?v s)) (length bs)"
      by (auto simp: short_of_def is_sizing_def split: ostream_dst.splits)
    with writesD [OF writes_varint 2(1)] sub show ?thesis by (simp add: pb_encode_submessage_def)
  qed
qed

section \<open>The encoder writes the bytes of the message\<close>

lemma string_length_upto:
  "j \<le> k \<Longrightarrow> string_length m p k j = j + length (takeWhile (\<lambda>b. b \<noteq> 0) (mem_load m (p + j) (k - j)))"
proof (induction m p k j rule: string_length.induct)
  case (1 m p k j)
  show ?case
  proof (cases "j < k")
    case True
    then have "mem_load m (p + j) (k - j) = m (p + j) # mem_load m (p + Suc j) (k - Suc j)"
      using mem_load_Suc [of m "p + j" "k - Suc j"] by (simp add: Suc_diff_Suc)
    with True 1 show ?thesis by (simp add: string_length.simps [of m p k j])
  next
    case False
    with "1.prems" have "j = k" by simp
    then show ?thesis by (simp add: string_length.simps [of m p k k])
  qed
qed

lemma takeWhile_mem_load: "takeWhile P (mem_load m p k) = mem_load m p (length (takeWhile P (mem_load m p k)))"
proof (rule nth_equalityI)
  fix i assume i: "i < length (takeWhile P (mem_load m p k))"
  moreover have "length (takeWhile P (mem_load m p k)) \<le> k"
    using length_takeWhile_le [of P "mem_load m p k"] by simp
  ultimately show "takeWhile P (mem_load m p k) ! i = mem_load m p (length (takeWhile P (mem_load m p k))) ! i"
    using takeWhile_nth [OF i] by simp
qed simp

lemma c_string_load: "mem_load m p (string_length m p k 0) = c_string m p k"
  using string_length_upto [of 0 k m p] takeWhile_mem_load [of "\<lambda>b. b \<noteq> 0" m p k] by (simp add: c_string_def)

lemma length_c_string: "length (c_string m p k) = string_length m p k 0"
  by (simp add: c_string_load [symmetric])

text \<open>What a submessage has to satisfy: the encoder for it writes its bytes, if they can be counted.\<close>

definition submessages_write ::
  "(pb_field list \<Rightarrow> addr \<Rightarrow> 's pb_ostream \<Rightarrow> 's eres) \<Rightarrow> (pb_field list \<Rightarrow> addr \<Rightarrow> byte list option) \<Rightarrow> bool" where
  "submessages_write encode sub \<longleftrightarrow>
     (\<forall>fs p bs. sub fs p = Some bs \<longrightarrow> length bs < 2 ^ 64 \<longrightarrow> writes (encode fs p) bs)"

lemma word_of_nat_load4: "unat (of_nat (load_nat m p 4) :: u32) = load_nat m p 4"
  using load_nat_less [of m p 4] by (simp add: unat_of_nat)

lemma word_of_nat_load8: "unat (of_nat (load_nat m p 8) :: u64) = load_nat m p 8"
  using load_nat_less [of m p 8] by (simp add: unat_of_nat)

lemma le_bytes_load: "le_bytes n (load_nat m p n) = mem_load m p n"
  by (simp add: load_nat_def le_bytes_le_nat)

lemma writes_fixed32: "writes (\<lambda>s. pb_enc_fixed32 m s f p) (mem_load m p 4)"
  unfolding pb_enc_fixed32_def pb_encode_fixed32_def fixed32_bytes word_of_nat_load4 le_bytes_load
  by (rule writes_pb_write) simp

lemma writes_fixed64: "writes (\<lambda>s. pb_enc_fixed64 m s f p) (mem_load m p 8)"
  unfolding pb_enc_fixed64_def pb_encode_fixed64_def fixed64_bytes word_of_nat_load8 le_bytes_load
  by (rule writes_pb_write) simp

lemma size_add_u32: "size_add (load_u32 m p) 4 = load_u32 m p + 4"
  using load_nat_less [of m p 4] by simp

lemma item_wire_writes:
  assumes sub: "submessages_write encode sub" and w: "item_wire env m sub f p = Some bs" "length bs < 2 ^ 64"
  shows "writes (\<lambda>s. pb_encoder env m encode (PB_LTYPE (f_type f)) s f p) bs"
proof -
  let ?lt = "PB_LTYPE (f_type f)"
  consider "?lt \<in> {PB_LTYPE_VARINT, PB_LTYPE_UVARINT, PB_LTYPE_SVARINT}"
    | "?lt = PB_LTYPE_FIXED32" | "?lt = PB_LTYPE_FIXED64" | "?lt = PB_LTYPE_BYTES" | "?lt = PB_LTYPE_STRING"
    | "?lt = PB_LTYPE_SUBMESSAGE" | "?lt = PB_LTYPE_FIXED_LENGTH_BYTES"
    using w(1) by (auto simp: item_wire_def Let_def split: if_splits)
  then show ?thesis
  proof cases
    case 1
    with w(1) show ?thesis
      by (auto simp: item_wire_def pb_encoder_def pb_enc_varint_def pb_enc_uvarint_def pb_enc_svarint_def
          pb_encode_svarint_zigzag Let_def writes_varint split: if_splits)
  next
    case 2
    with w(1) show ?thesis by (auto simp: item_wire_def pb_encoder_def writes_fixed32 Let_def)
  next
    case 3
    with w(1) show ?thesis by (auto simp: item_wire_def pb_encoder_def writes_fixed64 Let_def)
  next
    case 4
    with w(1) show ?thesis
      by (auto simp: item_wire_def pb_encoder_def pb_enc_bytes_def size_add_u32 Let_def writes_null_string
          writes_string_length split: if_splits)
  next
    case 5
    with w(1) show ?thesis
      by (auto simp: item_wire_def pb_encoder_def pb_enc_string_def c_string_load Let_def writes_null_string
          writes_string_length length_c_string simp del: power_numeral split: if_splits)
  next
    case 6
    with w(1) obtain xs where xs: "f_ptr f \<noteq> 0" "sub (ee_tables env (f_ptr f)) p = Some xs" "bs = delimited xs"
      by (auto simp: item_wire_def Let_def split: if_splits)
    with w(2) have "length xs < 2 ^ 64" by (simp add: delimited_def)
    with sub xs have "writes (encode (ee_tables env (f_ptr f)) p) xs" by (simp add: submessages_write_def)
    from writes_submessage [OF this \<open>length xs < 2 ^ 64\<close>] 6 xs show ?thesis
      by (simp add: pb_encoder_def pb_enc_submessage_def)
  next
    case 7
    with w(1) show ?thesis
      by (auto simp: item_wire_def pb_encoder_def pb_enc_fixed_length_bytes_def Let_def writes_string_length)
  qed
qed

lemma items_wire_writes:
  assumes "\<And>p bs. item p = Some bs \<Longrightarrow> length bs < 2 ^ 64 \<Longrightarrow> writes (\<lambda>s. enc s p) bs"
  shows "items_wire item sz count p = Some bs \<Longrightarrow> length bs < 2 ^ 64 \<Longrightarrow> writes (\<lambda>s. encode_items enc sz count p s) bs"
proof (induction count arbitrary: p bs)
  case 0
  then show ?case using writes_return by simp
next
  case (Suc count)
  then obtain xs ys where w: "item p = Some xs" "items_wire item sz count (p + sz) = Some ys" "bs = xs @ ys"
    by (auto simp: bind_Some_eq)
  with Suc.prems(2) show ?case
    using writes_sbind [OF assms [OF w(1)] Suc.IH [OF w(2)]] by simp
qed

lemma items_wire_length:
  "(\<And>p bs. item p = Some bs \<Longrightarrow> length bs = k) \<Longrightarrow> items_wire item sz count p = Some bs \<Longrightarrow> length bs = k * count"
proof (induction count arbitrary: p bs)
  case (Suc count)
  then show ?case by (fastforce simp: bind_Some_eq)
qed simp

text \<open>Writing the length of an array and then, unless the stream only counts, its elements.\<close>

lemma writes_counted:
  assumes "writes enc bs"
  shows "writes (\<lambda>s. sbind (pb_encode_varint s (of_nat (length bs))) (\<lambda>_ s.
    if is_sizing s then pb_write s None (length bs) else enc s)) (delimited bs)"
proof -
  have "writes (\<lambda>s. if is_sizing s then pb_write s None (length bs) else enc s) bs"
  proof (rule writesI)
    fix s :: "'a pb_ostream"
    assume "short_of s (length bs)"
    moreover from this have "\<not> is_sizing s" by (auto simp: short_of_def is_sizing_def)
    ultimately show "\<exists>s'. (if is_sizing s then pb_write s None (length bs) else enc s) = Some (None, s')"
      using writes_shortD [OF assms] by simp
  qed (simp add: pb_write_sizing writesD [OF assms])
  from writes_sbind [OF writes_varint this] show ?thesis unfolding delimited_def .
qed

lemma array_wire_writes:
  assumes sub: "submessages_write encode sub" and w: "array_wire env m sub f p count = Some bs" "length bs < 2 ^ 64"
  shows "writes (\<lambda>s. encode_array m s f p count (pb_encoder env m encode (PB_LTYPE (f_type f)))) bs"
proof -
  let ?lt = "PB_LTYPE (f_type f)" and ?func = "pb_encoder env m encode (PB_LTYPE (f_type f))"
  have item: "writes (\<lambda>s. ?func s f q) xs" if "item_wire env m sub f q = Some xs" "length xs < 2 ^ 64" for q xs
    using item_wire_writes [OF sub that] .
  consider "count = 0" | (packed) "count \<noteq> 0" "?lt \<le> PB_LTYPE_LAST_PACKABLE"
    | (each) "count \<noteq> 0" "\<not> ?lt \<le> PB_LTYPE_LAST_PACKABLE" by blast
  then show ?thesis
  proof cases
    case 1
    with w(1) show ?thesis using writes_return by (simp add: array_wire_def encode_array_def)
  next
    case packed
    with w(1) obtain xs where xs: "\<not> (PB_ATYPE (f_type f) \<noteq> PB_ATYPE_POINTER \<and> f_array_size f < count)"
        "items_wire (item_wire env m sub f) (f_data_size f) count p = Some xs"
        "bs = varint_bytes (tag_word PB_WT_STRING (f_tag f)) @ delimited xs"
      by (auto simp: array_wire_def Let_def bind_Some_eq split: if_splits)
    have len: "length xs < 2 ^ 64" using w(2) xs(3) by (simp add: delimited_def)
    have enc: "writes (\<lambda>s. encode_items (\<lambda>s p. ?func s f p) (f_data_size f) count p s) xs"
      using items_wire_writes [OF item xs(2) len] .
    obtain ss where ss: "encode_items (\<lambda>s p. ?func s f p) (f_data_size f) count p PB_OSTREAM_SIZING = ereturn ss"
        "os_bytes_written ss = length xs"
      using sizing_written [OF enc len] by blast
    have "length xs = 4 * count" if "?lt = PB_LTYPE_FIXED32"
      using xs(2) that by (intro items_wire_length [where item = "item_wire env m sub f"]) (auto simp: item_wire_def Let_def)
    moreover have "length xs = 8 * count" if "?lt = PB_LTYPE_FIXED64"
      using xs(2) that by (intro items_wire_length [where item = "item_wire env m sub f"]) (auto simp: item_wire_def Let_def)
    ultimately have total: "(if ?lt = PB_LTYPE_FIXED32 then Some (Some (4 * count))
             else if ?lt = PB_LTYPE_FIXED64 then Some (Some (8 * count))
             else (case encode_items (\<lambda>s p. ?func s f p) (f_data_size f) count p PB_OSTREAM_SIZING of
                     None \<Rightarrow> None
                   | Some (None, _) \<Rightarrow> Some None
                   | Some (Some _, sizestream) \<Rightarrow> Some (Some (os_bytes_written sizestream)))) = Some (Some (length xs))"
      using ss by simp
    have "encode_array m s f p count ?func = sbind (pb_encode_tag s PB_WT_STRING (f_tag f)) (\<lambda>_ s.
        sbind (pb_encode_varint s (of_nat (length xs))) (\<lambda>_ s.
          if is_sizing s then pb_write s None (length xs)
          else encode_items (\<lambda>s p. ?func s f p) (f_data_size f) count p s))" for s
      using packed xs(1) unfolding encode_array_def Let_def total by auto
    with writes_sbind [OF writes_tag writes_counted [OF enc]] xs(3) show ?thesis by simp
  next
    case each
    let ?deref = "PB_ATYPE (f_type f) = PB_ATYPE_POINTER \<and> (?lt = PB_LTYPE_STRING \<or> ?lt = PB_LTYPE_BYTES)"
    from each w(1) have xs: "\<not> (PB_ATYPE (f_type f) \<noteq> PB_ATYPE_POINTER \<and> f_array_size f < count)"
        "items_wire (\<lambda>q. tagged_wire f (item_wire env m sub f (if ?deref then load_ptr m q else q))) (f_data_size f) count p = Some bs"
      by (auto simp: array_wire_def Let_def split: if_splits)
    have one: "writes (\<lambda>s. sbind (pb_encode_tag_for_field s f) (\<lambda>_ s.
        if ?deref then ?func s f (load_ptr m q) else ?func s f q)) ys"
      if y: "tagged_wire f (item_wire env m sub f (if ?deref then load_ptr m q else q)) = Some ys" "length ys < 2 ^ 64" for q ys
    proof -
      from y obtain wt zs where z: "ltype_wire ?lt = Some wt" "item_wire env m sub f (if ?deref then load_ptr m q else q) = Some zs"
          "ys = varint_bytes (tag_word wt (f_tag f)) @ zs"
        by (auto simp: tagged_wire_def bind_Some_eq)
      have "writes (\<lambda>s. ?func s f (if ?deref then load_ptr m q else q)) zs"
        using item [OF z(2)] y(2) z(3) by simp
      from writes_sbind [OF writes_tag_for_field [OF z(1)] this] z(3) show ?thesis by (simp add: if_distrib)
    qed
    have "writes (\<lambda>s. encode_items (\<lambda>s q. sbind (pb_encode_tag_for_field s f) (\<lambda>_ s.
        if ?deref then ?func s f (load_ptr m q) else ?func s f q)) (f_data_size f) count p s) bs"
      by (rule items_wire_writes [OF _ xs(2) w(2)]) (rule one)
    moreover have "encode_array m s f p count ?func = encode_items (\<lambda>s q. sbind (pb_encode_tag_for_field s f) (\<lambda>_ s.
        if ?deref then ?func s f (load_ptr m q) else ?func s f q)) (f_data_size f) count p s" for s
      using each xs(1) unfolding encode_array_def Let_def by auto
    ultimately show ?thesis by simp
  qed
qed

lemma PB_HTYPE_cases: "PB_HTYPE x \<in> {PB_HTYPE_REQUIRED, PB_HTYPE_OPTIONAL, PB_HTYPE_REPEATED, PB_HTYPE_ONEOF}"
proof -
  have "PB_HTYPE x = (if bit x 4 then 0x10 else 0) OR (if bit x 5 then 0x20 else 0)"
    unfolding PB_HTYPE_def
    by (rule byte_bits_eqI) (auto simp: bit_simps numeral_2_eq_2 [symmetric] numeral_3_eq_3 [symmetric])
  then show ?thesis by (cases "bit x 4"; cases "bit x 5") (simp_all add: or_numerals)
qed

lemma field_wire_writes:
  assumes sub: "submessages_write encode sub" and w: "field_wire n env m sub f p = Some bs" "length bs < 2 ^ 64"
    and lt: "PB_LTYPE (f_type f) \<noteq> PB_LTYPE_EXTENSION"
  shows "writes (\<lambda>s. encode_field n env m encode s f p) bs"
proof -
  let ?q = "if PB_ATYPE (f_type f) = PB_ATYPE_POINTER then load_ptr m p else p"
  let ?func = "pb_encoder env m encode (PB_LTYPE (f_type f))"
  have single: "writes (\<lambda>s. sbind (pb_encode_tag_for_field s f) (\<lambda>_ s. ?func s f ?q)) bs"
    if "tagged_wire f (item_wire env m sub f ?q) = Some bs"
  proof -
    from that obtain wt zs where z: "ltype_wire (PB_LTYPE (f_type f)) = Some wt" "item_wire env m sub f ?q = Some zs"
        "bs = varint_bytes (tag_word wt (f_tag f)) @ zs"
      by (auto simp: tagged_wire_def bind_Some_eq)
    have "writes (\<lambda>s. ?func s f ?q) zs"
      using item_wire_writes [OF sub z(2)] w(2) z(3) by simp
    from writes_sbind [OF writes_tag_for_field [OF z(1)] this] z(3) show ?thesis by simp
  qed
  consider (cb) "PB_ATYPE (f_type f) = PB_ATYPE_CALLBACK" "load_ptr m p = 0" "bs = []"
    | (basic) "PB_ATYPE (f_type f) = PB_ATYPE_STATIC \<or> PB_ATYPE (f_type f) = PB_ATYPE_POINTER"
    using w(1) lt by (auto simp: field_wire_def Let_def split: if_splits)
  then show ?thesis
  proof cases
    case cb
    then show ?thesis using writes_return by (simp add: encode_field_def encode_callback_field_def Let_def)
  next
    case basic
    then have cb: "PB_ATYPE (f_type f) \<noteq> PB_ATYPE_CALLBACK" by auto
    have field: "encode_field n env m encode s f p = encode_basic_field n env m encode s f p" for s
      using basic by (auto simp: encode_field_def Let_def)
    let ?ht = "PB_HTYPE (f_type f)"
    consider (req) "?ht = PB_HTYPE_REQUIRED" | (opt) "?ht = PB_HTYPE_OPTIONAL" | (rep) "?ht = PB_HTYPE_REPEATED"
      | (one) "?ht = PB_HTYPE_ONEOF" using PB_HTYPE_cases [of "f_type f"] by auto
    then show ?thesis
    proof cases
      case req
      with w(1) lt cb basic have "?q \<noteq> 0" "tagged_wire f (item_wire env m sub f ?q) = Some bs"
        by (auto simp: field_wire_def Let_def split: if_splits)
      with req single show ?thesis by (simp add: field encode_basic_field_def Let_def)
    next
      case opt
      show ?thesis
      proof (cases "f_size_offset f \<noteq> 0")
        case True
        with opt w(1) lt cb basic single writes_return show ?thesis
          by (auto simp: field encode_basic_field_def field_wire_def Let_def split: if_splits)
      next
        case False
        with opt w(1) lt cb basic obtain zero where z: "pb_check_proto3_default_value n env m f p = Some zero"
            "(if (if PB_ATYPE (f_type f) = PB_ATYPE_POINTER then ?q = 0 else zero) then Some []
              else tagged_wire f (item_wire env m sub f ?q)) = Some bs"
          by (auto simp: field_wire_def Let_def bind_Some_eq split: if_splits)
        with opt False single writes_return show ?thesis
          by (auto simp: field encode_basic_field_def Let_def split: if_splits)
      qed
    next
      case rep
      with w(1) lt cb basic have "f_size_offset f \<noteq> 0"
          "array_wire env m sub f ?q (load_u32 m (ptr_add p (f_size_offset f))) = Some bs"
        by (auto simp: field_wire_def Let_def split: if_splits)
      with rep array_wire_writes [OF sub this(2) w(2)] show ?thesis
        by (simp add: field encode_basic_field_def Let_def)
    next
      case one
      with w(1) lt cb basic single writes_return show ?thesis
        by (auto simp: field encode_basic_field_def field_wire_def Let_def split: if_splits)
    qed
  qed
qed


lemma fields_wire_Nil: "fields_wire field [] = Some []"
  by (simp add: fields_wire_def)

lemma fields_wire_Cons:
  "fields_wire field (k # ks) = Some bs \<longleftrightarrow>
     (\<exists>xs ys. field k = Some xs \<and> fields_wire field ks = Some ys \<and> bs = xs @ ys)"
  by (auto simp: fields_wire_def split: option.splits)

text \<open>The loop over the fields writes the fields one behind the other.\<close>

lemma iter_do_writes:
  assumes "\<And>k bs. k < field_count fs \<Longrightarrow> field k = Some bs \<Longrightarrow> length bs < 2 ^ 64 \<Longrightarrow>
      writes (enc (iter_at fs src k)) bs"
  shows "k < field_count fs \<Longrightarrow> fields_wire field [k..<field_count fs] = Some bs \<Longrightarrow> length bs < 2 ^ 64 \<Longrightarrow>
    writes (\<lambda>s. map_option (\<lambda>(ok, stream). (if ok then Some () else None, stream))
      (pb_iter_do (\<lambda>iter s. map_option (\<lambda>(v, s). (v \<noteq> None, s)) (enc iter s)) (iter_at fs src k) s)) bs"
proof (induction "field_count fs - k" arbitrary: k bs)
  case 0
  then show ?case by simp
next
  case (Suc x)
  let ?body = "\<lambda>iter s. map_option (\<lambda>(v, s). (v \<noteq> None, s)) (enc iter s)"
  let ?res = "map_option (\<lambda>(ok, stream). (if ok then Some () else None, stream))"
  define body where "body = ?body"
  have "[k..<field_count fs] = k # [Suc k..<field_count fs]" using Suc.prems(1) by (simp add: upt_rec)
  with Suc.prems(2) obtain xs ys where w: "field k = Some xs" "fields_wire field [Suc k..<field_count fs] = Some ys" "bs = xs @ ys"
    by (auto simp: fields_wire_Cons)
  have enc: "writes (enc (iter_at fs src k)) xs" using assms Suc.prems w by simp
  define rest where "rest = (\<lambda>s. if Suc k < field_count fs then ?res (pb_iter_do body (iter_at fs src (Suc k)) s) else ereturn s)"
  have "writes rest ys"
  proof (cases "Suc k < field_count fs")
    case True
    with Suc.hyps Suc.prems(3) w show ?thesis by (simp add: rest_def body_def)
  next
    case False
    then have "ys = []" using w(2) by (simp add: fields_wire_Nil)
    with False show ?thesis using writes_return by (simp add: rest_def)
  qed
  from writes_sbind [OF enc this] have "writes (\<lambda>s. sbind (enc (iter_at fs src k) s) (\<lambda>_ s. rest s)) bs" using w(3) by simp
  moreover have "?res (pb_iter_do body (iter_at fs src k) s) = sbind (enc (iter_at fs src k) s) (\<lambda>_ s. rest s)" for s
  proof (cases "enc (iter_at fs src k) s")
    case None
    then have "body (iter_at fs src k) s = None" by (simp add: body_def)
    with None show ?thesis by (simp add: pb_iter_do.simps [of body "iter_at fs src k" s])
  next
    case (Some r)
    obtain v s' where "r = (v, s')" by (rule prod.exhaust)
    with Some have "body (iter_at fs src k) s = Some (v \<noteq> None, s')" by (simp add: body_def)
    with Some \<open>r = (v, s')\<close> Suc.prems(1) show ?thesis
      by (cases v) (simp_all add: pb_iter_do.simps [of body "iter_at fs src k" s] next_iter_at rest_def)
  qed
  ultimately show ?case by (simp only: body_def)
qed

lemma message_wire_writes:
  "message_wire n env m fs src = Some bs \<Longrightarrow> length bs < 2 ^ 64 \<Longrightarrow> writes (pb_encode n env m fs src) bs"
proof (induction n arbitrary: fs src bs)
  case 0
  then show ?case by simp
next
  case (Suc n)
  have sub: "submessages_write (pb_encode n env m) (message_wire n env m)"
    using Suc.IH by (simp add: submessages_write_def)
  show ?case
  proof (cases "0 < field_count fs")
    case False
    then have "bs = []" using Suc.prems(1) by (simp add: fields_wire_Nil)
    moreover have "pb_encode (Suc n) env m fs src = ereturn"
      by (rule ext) (simp only: pb_encode.simps(2) begin_iter_at False prod.case simp_thms if_True)
    ultimately show ?thesis using writes_return by simp
  next
    case True
    define enc where "enc = (\<lambda>iter s. if PB_LTYPE (f_type (it_field iter)) = PB_LTYPE_EXTENSION
        then encode_extension_field n env m (pb_encode n env m) s (it_pData iter)
        else encode_field n env m (pb_encode n env m) s (it_field iter) (it_pData iter))"
    have "writes (enc (iter_at fs src k)) xs"
      if k: "k < field_count fs" and w: "field_wire n env m (message_wire n env m) (field_at fs k) (it_pData (iter_at fs src k)) = Some xs"
        "length xs < 2 ^ 64" for k xs
    proof (cases "PB_LTYPE (f_type (field_at fs k)) = PB_LTYPE_EXTENSION")
      case True
      then have "n \<noteq> 0" "load_ptr m (it_pData (iter_at fs src k)) = 0" "xs = []"
        using w by (auto simp: field_wire_def Let_def split: if_splits)
      then show ?thesis
        using True k writes_return by (cases n) (simp_all add: enc_def it_field_iter_at encode_extension_field_def)
    next
      case False
      with field_wire_writes [OF sub w False] k show ?thesis by (simp add: enc_def it_field_iter_at)
    qed
    from iter_do_writes [where enc = enc and src = src and
        field = "\<lambda>k. field_wire n env m (message_wire n env m) (field_at fs k) (it_pData (iter_at fs src k))", OF this True]
      Suc.prems
    have "writes (\<lambda>s. map_option (\<lambda>(ok, stream). (if ok then Some () else None, stream))
        (pb_iter_do (\<lambda>iter s. map_option (\<lambda>(v, s). (v \<noteq> None, s)) (enc iter s)) (iter_at fs src 0) s)) bs" by simp
    moreover have "pb_encode (Suc n) env m fs src s = map_option (\<lambda>(ok, stream). (if ok then Some () else None, stream))
        (pb_iter_do (\<lambda>iter s. map_option (\<lambda>(v, s). (v \<noteq> None, s)) (enc iter s)) (iter_at fs src 0) s)" for s
      by (simp only: pb_encode.simps(2) begin_iter_at True prod.case simp_thms if_False enc_def)
    ultimately show ?thesis by simp
  qed
qed

section \<open>Refinement\<close>

text \<open>
  C7: The encoder refines the specification \<open>message_wire\<close>, which says field by field what the bytes of a
  structure are and knows no streams, limits or sizing passes. Into a buffer that is large enough
  \<open>pb_encode\<close> writes exactly those bytes, and \<open>pb_get_encoded_size\<close>, which only counts, gives their number.
\<close>

lemma pb_encode_refines_wire:
  assumes "message_wire n env m fs src = Some bs" "length bs \<le> bufsize" "bufsize < 2 ^ 64"
  shows "pb_encode n env m fs src (pb_ostream_from_buffer bufsize) =
      ereturn \<lparr>os_dst = BufDst bs, os_max_size = bufsize, os_bytes_written = length bs, os_errmsg = None\<rparr> \<and>
    pb_get_encoded_size n env m fs src = Some (Some (length bs))"
proof -
  have w: "writes (pb_encode n env m fs src) bs" and len: "length bs < 2 ^ 64"
    using assms by (auto intro: message_wire_writes)
  have "pb_encode n env m fs src (pb_ostream_from_buffer bufsize) = ereturn (emit bs (pb_ostream_from_buffer bufsize))"
    using assms(2,3) by (intro writesD [OF w]) (simp add: ready_def has_room_def pb_ostream_from_buffer_def)
  moreover from sizing_written [OF w len] have "pb_get_encoded_size n env m fs src = Some (Some (length bs))"
    by (auto simp: pb_get_encoded_size_def)
  ultimately show ?thesis using len by (simp add: emit_def pb_ostream_from_buffer_def)
qed

text \<open>
  If the buffer is smaller than the message, \<open>pb_encode\<close> returns \<^verbatim>\<open>false\<close>, at whatever field
  and in whatever submessage the space runs out. The same holds for \<open>pb_encode_delimited\<close>, which puts the length in
  front: it succeeds exactly when there is room for the length as well.
\<close>

lemma pb_encode_too_small:
  assumes "message_wire n env m fs src = Some bs" "length (delimited bs) < 2 ^ 64" "bufsize < 2 ^ 64"
  shows "(bufsize < length bs \<longrightarrow>
      (\<exists>stream. pb_encode n env m fs src (pb_ostream_from_buffer bufsize) = Some (None, stream))) \<and>
    (if bufsize < length (delimited bs)
     then \<exists>stream. pb_encode_delimited n env m fs src (pb_ostream_from_buffer bufsize) = Some (None, stream)
     else pb_encode_delimited n env m fs src (pb_ostream_from_buffer bufsize) =
       ereturn \<lparr>os_dst = BufDst (delimited bs), os_max_size = bufsize,
         os_bytes_written = length (delimited bs), os_errmsg = None\<rparr>)"
proof -
  let ?s = "pb_ostream_from_buffer bufsize :: 'a pb_ostream"
  have len: "length bs < 2 ^ 64" using assms(2) by (simp add: delimited_def)
  have w: "writes (pb_encode n env m fs src) bs" using assms(1) len by (rule message_wire_writes)
  have d: "writes (pb_encode_delimited n env m fs src) (delimited bs)"
    unfolding pb_encode_delimited_def using w len by (rule writes_submessage)
  have short: "short_of ?s k" if "bufsize < k" "k < 2 ^ 64" for k
    using that by (simp add: short_of_def pb_ostream_from_buffer_def)
  have ready: "ready ?s k" if "k \<le> bufsize" for k
    using that assms(3) by (simp add: ready_def has_room_def pb_ostream_from_buffer_def)
  have "emit (delimited bs) ?s = \<lparr>os_dst = BufDst (delimited bs), os_max_size = bufsize,
         os_bytes_written = length (delimited bs), os_errmsg = None\<rparr>"
    using assms(2) by (simp add: emit_def pb_ostream_from_buffer_def)
  then show ?thesis
    using writes_shortD [OF w short] writes_shortD [OF d short] writesD [OF d ready] len assms(2) by auto
qed

text \<open>The structure of the example, with \<^verbatim>\<open>id = 7\<close> and two items \<^verbatim>\<open>300\<close> and \<^verbatim>\<open>0\<close>.\<close>

definition group_mem :: mem where
  "group_mem = (\<lambda>_. 0)(100 := 7, 104 := 2, 108 := 0x2C, 109 := 1)"

definition group_enc_env :: "unit enc_env" where
  "group_enc_env = \<lparr>ee_tables = (\<lambda>p. if p = 1 then item_fields else []),
     ee_callback = (\<lambda>_ s _ _ _. (False, s)), ee_ext_encode = (\<lambda>_ s _ _. (False, s))\<rparr>"

lemma group_wire: "message_wire 2 group_enc_env group_mem group_fields 100 =
    Some [0x08, 0x07, 0x12, 0x03, 0x08, 0xAC, 0x02, 0x12, 0x02, 0x08, 0x00]"
  by code_simp

lemma pb_encode_refines_wire_witness:
  "pb_encode 2 group_enc_env group_mem group_fields 100 (pb_ostream_from_buffer 16) =
     ereturn \<lparr>os_dst = BufDst [0x08, 0x07, 0x12, 0x03, 0x08, 0xAC, 0x02, 0x12, 0x02, 0x08, 0x00], os_max_size = 16,
       os_bytes_written = 11, os_errmsg = None\<rparr> \<and>
   pb_get_encoded_size 2 group_enc_env group_mem group_fields 100 = Some (Some 11)"
  using pb_encode_refines_wire [OF group_wire, of 16] by simp

lemma pb_encode_too_small_witness:
  "(\<exists>stream. pb_encode 2 group_enc_env group_mem group_fields 100 (pb_ostream_from_buffer 10) = Some (None, stream)) \<and>
   (\<exists>stream. pb_encode_delimited 2 group_enc_env group_mem group_fields 100 (pb_ostream_from_buffer 11) = Some (None, stream))"
proof -
  have v: "varint_bytes 11 = [11]" by (simp add: varint_bytes.simps)
  show ?thesis
    using pb_encode_too_small [OF group_wire, of 10] pb_encode_too_small [OF group_wire, of 11]
    by (simp add: delimited_def v)
qed

end
