(* ===== verification/Pb_Roundtrip.thy ===== *)
theory Pb_Roundtrip
  imports Pb_Wire
begin

text \<open>
  What the encoder writes, the decoder reads back. The contract of a field type is the locale \<open>item_codec\<close>, and
  \<open>packable_codec\<close> for the types whose arrays are packed; the loops over arrays are proved once inside them, and
  they are interpreted on the eight decoders of \<^verbatim>\<open>PB_DECODERS\<close> that are not for submessages.
\<close>
unbundle bit_operations_syntax

section \<open>Numbers in memory\<close>

abbreviation int_sized :: "pb_field \<Rightarrow> bool" where
  "int_sized f \<equiv> f_data_size f = 1 \<or> f_data_size f = 2 \<or> f_data_size f = 4 \<or> f_data_size f = 8"

lemma load_nat_u64: "n \<le> 8 \<Longrightarrow> load_nat m p n < 2 ^ 64"
proof -
  assume "n \<le> 8"
  then have "(256 :: nat) ^ n \<le> 256 ^ 8" by (intro power_increasing) simp_all
  with load_nat_less [of m p n] show ?thesis by simp
qed

lemma store_load_nat: "store_nat m' d n (load_nat m p n) = mem_store m' d (mem_load m p n)"
  by (simp add: store_nat_def le_bytes_load)

lemma pow_256: "(256 :: 'a :: comm_semiring_1) ^ n = 2 ^ (8 * n)"
proof -
  have "(256 :: 'a) = 2 ^ 8" by simp
  then show ?thesis by (simp only: power_mult)
qed

lemma store_load_int:
  assumes "0 < n"
  shows "store_int m' d n (load_int m p n) = mem_store m' d (mem_load m p n)"
proof -
  have "load_int m p n mod 256 ^ n = take_bit (8 * n) (signed_take_bit (8 * n - 1) (int (load_nat m p n)))"
    by (simp add: load_int_def take_bit_eq_mod pow_256)
  also have "\<dots> = take_bit (8 * n) (int (load_nat m p n))"
    using assms by (subst take_bit_signed_take_bit) simp_all
  also have "\<dots> = int (load_nat m p n)"
    using load_nat_less [of m p n] by (simp add: take_bit_eq_mod pow_256 flip: of_nat_power)
  finally show ?thesis by (simp add: store_int_def store_load_nat)
qed

lemma cast_load_int: "cast_signed n (load_int m p n) = load_int m p n"
  by (simp add: cast_signed_def load_int_def signed_take_bit_signed_take_bit)

lemma sint_load_int:
  assumes "0 < n" "n \<le> 8"
  shows "sint (word_of_int (load_int m p n) :: u64) = load_int m p n"
proof -
  have "min 63 (8 * n - 1) = 8 * n - 1" using assms by (intro min_absorb2) simp
  then show ?thesis by (simp add: load_int_def signed_of_int)
qed

lemma sint32_load_int:
  assumes "0 < n" "n \<le> 4"
  shows "sint (ucast (word_of_int (load_int m p n) :: u64) :: u32) = load_int m p n"
proof -
  have "sint (ucast (word_of_int (load_int m p n) :: u64) :: u32) =
      signed_take_bit 31 (take_bit 64 (load_int m p n))"
    by (simp add: signed_ucast_eq unsigned_of_int signed_of_int)
  also have "\<dots> = signed_take_bit 31 (load_int m p n)"
    by (simp add: signed_take_bit_take_bit)
  also have "\<dots> = load_int m p n"
  proof -
    have "min 31 (8 * n - 1) = 8 * n - 1" using assms by (intro min_absorb2) simp
    then show ?thesis by (simp add: load_int_def)
  qed
  finally show ?thesis .
qed

section \<open>Stores that do not meet\<close>

lemma mem_store_commute:
  "disjoint_ranges a (length xs) b (length ys) \<Longrightarrow>
   mem_store (mem_store m a xs) b ys = mem_store (mem_store m b ys) a xs"
  by (auto simp: mem_store_def disjoint_ranges_def fun_eq_iff)

lemma store_nat_commute:
  "disjoint_ranges a (length xs) b n \<Longrightarrow>
   mem_store (store_nat m b n v) a xs = store_nat (mem_store m a xs) b n v"
  unfolding store_nat_def by (rule mem_store_commute [symmetric]) simp

lemma store_nat_twice: "store_nat (store_nat m b n v) b n w = store_nat m b n w"
  by (simp add: store_nat_def mem_store_store)

lemma store_nat_same: "store_nat m b n (load_nat m b n) = m"
  by (simp add: store_load_nat)

lemma load_nat_mem_store: "disjoint_ranges a (length xs) b n \<Longrightarrow> load_nat (mem_store m a xs) b n = load_nat m b n"
  by (simp add: load_nat_def mem_load_store_disjoint)

section \<open>A delimited value is read through a substream\<close>

lemma delimited_substream:
  assumes "stream_at s (delimited bs)" "length bs < 2 ^ 32"
  obtains sub out where "pb_make_string_substream s = Some (Some sub, out)" "stream_at sub bs" "is_bytes_left sub = length bs"
    "pb_close_string_substream out (advance (length bs) sub) = Some (Some (), advance (length (delimited bs)) s)"
proof -
  let ?v = "varint_bytes (of_nat (length bs))"
  let ?sub = "(advance (length ?v) s)\<lparr>is_bytes_left := length bs\<rparr>"
  let ?out = "(advance (length ?v) s)\<lparr>is_bytes_left := is_bytes_left s - length ?v - length bs\<rparr>"
  have u64: "unat (of_nat (length bs) :: u64) = length bs" using assms(2) by (simp add: unat_of_nat)
  have u32: "unat (ucast (of_nat (length bs) :: u64) :: u32) = length bs"
    using assms(2) by (simp add: unsigned_ucast_eq u64 take_bit_eq_mod)
  have at: "stream_at s (?v @ bs)" using assms(1) by (simp add: delimited_def)
  have d: "pb_decode_varint32 s = Some (Some (ucast (of_nat (length bs) :: u64)), advance (length ?v) s)"
    using at assms(2) by (intro pb_decode_varint32_bytes) (auto simp: u64 dest: stream_at_appendD)
  have left: "length ?v + length bs \<le> is_bytes_left s" using stream_at_left [OF at] by simp
  obtain rest where src: "is_src s = BufSrc (?v @ bs @ rest)" using at by (auto simp: stream_at_def)
  have "pb_make_string_substream s = Some (Some ?sub, ?out)"
    using left by (simp add: pb_make_string_substream_def d u32)
  moreover have "stream_at ?sub bs" using src by (simp add: stream_at_def advance_def)
  moreover have "pb_close_string_substream ?out (advance (length bs) ?sub) = Some (Some (), advance (length (delimited bs)) s)"
    using left src by (simp add: pb_close_string_substream_def delimited_def advance_def)
  ultimately show ?thesis by (intro that) simp_all
qed

section \<open>Items\<close>

text \<open>The items of an array one behind the other.\<close>

primrec items_bytes :: "(addr \<Rightarrow> byte list) \<Rightarrow> nat \<Rightarrow> nat \<Rightarrow> addr \<Rightarrow> byte list" where
  "items_bytes item sz 0 p = []"
| "items_bytes item sz (Suc count) p = item p @ items_bytes item sz count (p + sz)"

lemma items_wire_bytes:
  "(\<And>i. i < count \<Longrightarrow> item (p + sz * i) = Some (item' (p + sz * i))) \<Longrightarrow>
   items_wire item sz count p = Some (items_bytes item' sz count p)"
proof (induction count arbitrary: p)
  case (Suc count)
  have "items_wire item sz count (p + sz) = Some (items_bytes item' sz count (p + sz))"
    by (rule Suc.IH) (use Suc.prems [of "Suc i" for i] in \<open>simp add: algebra_simps\<close>)
  with Suc.prems [of 0] show ?case by simp
qed simp

text \<open>
  The contract of a field type: under \<open>ok\<close>, the decoder applied to the bytes \<open>wire\<close> of the item at \<open>p\<close>
  consumes them and stores \<open>image\<close> at the address it is given.
\<close>

locale item_codec =
  fixes ok :: "mem \<Rightarrow> pb_field \<Rightarrow> addr \<Rightarrow> bool"
    and wire :: "mem \<Rightarrow> pb_field \<Rightarrow> addr \<Rightarrow> byte list"
    and image :: "mem \<Rightarrow> pb_field \<Rightarrow> addr \<Rightarrow> byte list"
    and dec :: "'s field_decoder"
  assumes dec_wire: "ok m f p \<Longrightarrow> stream_at s (wire m f p) \<Longrightarrow>
      dec s f d m' = dreturn () (advance (length (wire m f p)) s) (mem_store m' d (image m f p))"
    and wire_nonempty: "ok m f p \<Longrightarrow> wire m f p \<noteq> []"

text \<open>Types whose arrays may be packed: an item is the \<open>data_size\<close> bytes of memory that it came from.\<close>

locale packable_codec = item_codec +
  assumes image_load: "ok m f p \<Longrightarrow> image m f p = mem_load m p (f_data_size f)"
begin

text \<open>The loop over a packed array fills the rest of the array and advances the count.\<close>

lemma packed_loop_items:
  assumes sep: "disjoint_ranges q (f_data_size f * f_array_size f) z 4" and n: "f_array_size f < 2 ^ 32"
  shows "\<lbrakk>\<And>i. i < count \<Longrightarrow> ok m f (p + f_data_size f * i); c + count \<le> f_array_size f; load_u32 m' z = c;
     stream_at s (items_bytes (wire m f) (f_data_size f) count p);
     is_bytes_left s = length (items_bytes (wire m f) (f_data_size f) count p); count < k\<rbrakk> \<Longrightarrow>
   packed_loop k dec f q z s m' = dreturn () (advance (length (items_bytes (wire m f) (f_data_size f) count p)) s)
     (store_u32 (mem_store m' (q + f_data_size f * c) (mem_load m p (f_data_size f * count))) z (c + count))"
proof (induction count arbitrary: p c m' s k)
  case 0
  then obtain k' where "k = Suc k'" by (cases k) auto
  with 0 show ?case using store_nat_same [of m' z 4] by simp
next
  case (Suc count)
  let ?n = "f_data_size f"
  let ?w = "wire m f p" and ?r = "items_bytes (wire m f) ?n count (p + ?n)"
  obtain k' where k: "k = Suc k'" "count < k'" using Suc.prems(6) by (cases k) auto
  have ok: "ok m f p" using Suc.prems(1) [of 0] by simp
  have at: "stream_at s (?w @ ?r)" "is_bytes_left s = length (?w @ ?r)" using Suc.prems(4,5) by simp_all
  have fits: "?n * c + ?n * Suc count \<le> ?n * f_array_size f"
    using Suc.prems(2) by (simp only: add_mult_distrib2 [symmetric] mult_le_mono2)
  let ?m1 = "mem_store m' (q + ?n * c) (mem_load m p ?n)"
  have sep1: "disjoint_ranges (q + ?n * c) j z 4" if "j \<le> ?n * Suc count" for j
    using sep fits that by (auto simp: disjoint_ranges_def)
  have c1: "load_u32 ?m1 z = c" using Suc.prems(3) sep1 [of ?n] by (simp add: load_nat_mem_store)
  have "dec s f (q + ?n * c) m' = dreturn () (advance (length ?w) s) ?m1"
    using at(1) ok by (simp add: dec_wire image_load stream_at_appendD)
  moreover have "0 < is_bytes_left s" "c < f_array_size f"
    using at(2) wire_nonempty [OF ok] Suc.prems(2) by auto
  ultimately have step: "packed_loop k dec f q z s m' = packed_loop k' dec f q z (advance (length ?w) s) (store_u32 ?m1 z (Suc c))"
    using Suc.prems(3) c1 by (simp add: k(1))
  have "packed_loop k' dec f q z (advance (length ?w) s) (store_u32 ?m1 z (Suc c)) =
    dreturn () (advance (length ?r) (advance (length ?w) s))
      (store_u32 (mem_store (store_u32 ?m1 z (Suc c)) (q + ?n * Suc c) (mem_load m (p + ?n) (?n * count))) z (Suc c + count))"
  proof (rule Suc.IH)
    show "ok m f (p + ?n + ?n * i)" if "i < count" for i
      using Suc.prems(1) [of "Suc i"] that by (simp add: algebra_simps)
    show "Suc c + count \<le> f_array_size f" using Suc.prems(2) by simp
    show "load_u32 (store_u32 ?m1 z (Suc c)) z = Suc c"
      using Suc.prems(2) n by (simp add: load_store_nat)
    show "stream_at (advance (length ?w) s) ?r" using at(1) by (rule stream_at_advance)
    show "is_bytes_left (advance (length ?w) s) = length ?r" using at(2) by simp
    show "count < k'" using k(2) .
  qed
  also have "mem_store (store_u32 ?m1 z (Suc c)) (q + ?n * Suc c) (mem_load m (p + ?n) (?n * count)) =
      store_u32 (mem_store ?m1 (q + ?n * Suc c) (mem_load m (p + ?n) (?n * count))) z (Suc c)"
    using sep fits by (intro store_nat_commute) (auto simp: disjoint_ranges_def)
  also have "mem_store ?m1 (q + ?n * Suc c) (mem_load m (p + ?n) (?n * count)) =
      mem_store m' (q + ?n * c) (mem_load m p (?n * Suc count))"
    using mem_store_append [of m' "q + ?n * c" "mem_load m p ?n" "mem_load m (p + ?n) (?n * count)"]
      mem_load_add [of m p ?n "?n * count"] by (simp add: algebra_simps)
  finally show ?case unfolding step by (simp add: store_nat_twice)
qed

lemma decode_packed_items:
  assumes "disjoint_ranges q (f_data_size f * f_array_size f) z 4" "f_array_size f < 2 ^ 32"
    and "\<And>i. i < count \<Longrightarrow> ok m f (p + f_data_size f * i)" "count \<le> f_array_size f" "load_u32 m' z = 0"
    and "stream_at s (delimited (items_bytes (wire m f) (f_data_size f) count p))"
    and "length (items_bytes (wire m f) (f_data_size f) count p) < 2 ^ 32"
  shows "decode_packed dec s f q z m' =
    dreturn () (advance (length (delimited (items_bytes (wire m f) (f_data_size f) count p))) s)
      (store_u32 (mem_store m' q (mem_load m p (f_data_size f * count))) z count)"
proof -
  let ?bs = "items_bytes (wire m f) (f_data_size f) count p"
  obtain sub out where sub: "pb_make_string_substream s = Some (Some sub, out)" "stream_at sub ?bs"
      "is_bytes_left sub = length ?bs"
      "pb_close_string_substream out (advance (length ?bs) sub) = Some (Some (), advance (length (delimited ?bs)) s)"
    by (rule delimited_substream [OF assms(6,7)])
  have "count \<le> length ?bs"
    using assms(3)
  proof (induction count arbitrary: p)
    case (Suc count)
    have "count \<le> length (items_bytes (wire m f) (f_data_size f) count (p + f_data_size f))"
      by (rule Suc.IH) (use Suc.prems [of "Suc i" for i] in \<open>simp add: algebra_simps\<close>)
    moreover have "0 < length (wire m f p)" using wire_nonempty Suc.prems [of 0] by simp
    ultimately show ?case by (simp only: items_bytes.simps length_append)
  qed simp
  then have "packed_loop (Suc (is_bytes_left sub)) dec f q z sub m' = dreturn () (advance (length ?bs) sub)
      (store_u32 (mem_store m' (q + f_data_size f * 0) (mem_load m p (f_data_size f * count))) z (0 + count))"
    using assms(3-5) sub(2,3) by (intro packed_loop_items [OF assms(1,2)]) simp_all
  with sub show ?thesis
    by (simp add: decode_packed_def with_mem_def del: packed_loop.simps)
qed

end


section \<open>The field types of the library\<close>

lemma advance_simps: "is_bytes_left (advance n s) = is_bytes_left s - n"
  by simp

interpretation varint: packable_codec "\<lambda>m f p. int_sized f"
  "\<lambda>m f p. varint_bytes (word_of_int (load_int m p (f_data_size f)))" "\<lambda>m f p. mem_load m p (f_data_size f)" pb_dec_varint
proof unfold_locales
  fix m p m' d and f :: pb_field and s :: "'a pb_istream"
  let ?v = "load_int m p (f_data_size f)"
  assume f: "int_sized f" and at: "stream_at s (varint_bytes (word_of_int ?v))"
  have n: "0 < f_data_size f" using f by auto
  have "(if f_data_size f = 8 then sint (word_of_int ?v :: u64) else sint (ucast (word_of_int ?v :: u64) :: u32)) = ?v"
    using f by (cases "f_data_size f = 8") (auto simp: sint_load_int sint32_load_int)
  with f show "pb_dec_varint s f d m' = dreturn () (advance (length (varint_bytes (word_of_int ?v))) s)
      (mem_store m' d (mem_load m p (f_data_size f)))"
    using store_load_int [OF n, of m' d m p]
    unfolding pb_dec_varint_def Let_def pb_decode_varint_bytes [OF at] with_mem_def
    by (auto simp: cast_load_int)
qed simp_all

interpretation uvarint: packable_codec "\<lambda>m f p. int_sized f"
  "\<lambda>m f p. varint_bytes (of_nat (load_nat m p (f_data_size f)))" "\<lambda>m f p. mem_load m p (f_data_size f)" pb_dec_uvarint
proof unfold_locales
  fix m p m' d and f :: pb_field and s :: "'a pb_istream"
  let ?v = "load_nat m p (f_data_size f)"
  assume f: "int_sized f" and at: "stream_at s (varint_bytes (of_nat ?v))"
  have "?v < 2 ^ 64" using f by (intro load_nat_u64) auto
  then have v: "unat (of_nat ?v :: u64) = ?v" by (rule unat_u64_of_nat)
  have "?v mod 256 ^ f_data_size f = ?v" using load_nat_less by simp
  with f show "pb_dec_uvarint s f d m' = dreturn () (advance (length (varint_bytes (of_nat ?v))) s)
      (mem_store m' d (mem_load m p (f_data_size f)))"
    unfolding pb_dec_uvarint_def Let_def pb_decode_varint_bytes [OF at] with_mem_def
    by (auto simp: v store_load_nat simp del: unsigned_of_nat)
qed simp_all

interpretation svarint: packable_codec "\<lambda>m f p. int_sized f"
  "\<lambda>m f p. varint_bytes (zigzag (word_of_int (load_int m p (f_data_size f))))" "\<lambda>m f p. mem_load m p (f_data_size f)" pb_dec_svarint
proof unfold_locales
  fix m p m' d and f :: pb_field and s :: "'a pb_istream"
  let ?v = "load_int m p (f_data_size f)"
  assume f: "int_sized f" and at: "stream_at s (varint_bytes (zigzag (word_of_int ?v)))"
  have n: "0 < f_data_size f" "f_data_size f \<le> 8" using f by auto
  show "pb_dec_svarint s f d m' = dreturn () (advance (length (varint_bytes (zigzag (word_of_int ?v)))) s)
      (mem_store m' d (mem_load m p (f_data_size f)))"
    using f store_load_int [OF n(1), of m' d m p]
    unfolding pb_dec_svarint_def Let_def pb_decode_svarint_bytes [OF at] with_mem_def
    by (auto simp: cast_load_int sint_load_int [OF n])
qed simp_all

interpretation fixed32: packable_codec "\<lambda>m f p. f_data_size f = 4" "\<lambda>m f p. mem_load m p 4"
  "\<lambda>m f p. mem_load m p (f_data_size f)" pb_dec_fixed32
proof unfold_locales
  fix m p m' d and f :: pb_field and s :: "'a pb_istream"
  assume f: "f_data_size f = 4" and at: "stream_at s (mem_load m p 4)"
  have "unat (of_nat (le_nat (mem_load m p 4)) :: u32) = load_nat m p 4"
    unfolding load_nat_def [symmetric] by (rule word_of_nat_load4)
  then show "pb_dec_fixed32 s f d m' = dreturn () (advance (length (mem_load m p 4)) s)
      (mem_store m' d (mem_load m p (f_data_size f)))"
    unfolding pb_dec_fixed32_def pb_decode_fixed32_at [OF at length_mem_load] with_mem_def
    by (simp add: f store_load_nat del: unsigned_of_nat)
qed (auto simp: mem_load_def)

interpretation fixed64: packable_codec "\<lambda>m f p. f_data_size f = 8" "\<lambda>m f p. mem_load m p 8"
  "\<lambda>m f p. mem_load m p (f_data_size f)" pb_dec_fixed64
proof unfold_locales
  fix m p m' d and f :: pb_field and s :: "'a pb_istream"
  assume f: "f_data_size f = 8" and at: "stream_at s (mem_load m p 8)"
  have "unat (of_nat (le_nat (mem_load m p 8)) :: u64) = load_nat m p 8"
    unfolding load_nat_def [symmetric] by (rule word_of_nat_load8)
  then show "pb_dec_fixed64 s f d m' = dreturn () (advance (length (mem_load m p 8)) s)
      (mem_store m' d (mem_load m p (f_data_size f)))"
    unfolding pb_dec_fixed64_def pb_decode_fixed64_at [OF at length_mem_load] with_mem_def
    by (simp add: f store_load_nat del: unsigned_of_nat)
qed (auto simp: mem_load_def)

text \<open>The length in front of bytes and strings, as the decoder gets it.\<close>

lemma decode_length:
  assumes "stream_at s (delimited bs)" "length bs < 2 ^ 32"
  shows "\<exists>n :: u32. unat n = length bs \<and>
    pb_decode_varint32 s = Some (Some n, advance (length (varint_bytes (of_nat (length bs)))) s)"
proof -
  have u64: "unat (of_nat (length bs) :: u64) = length bs" using assms(2) by (simp add: unat_of_nat)
  have "unat (ucast (of_nat (length bs) :: u64) :: u32) = length bs"
    using assms(2) by (simp add: unsigned_ucast_eq u64 take_bit_eq_mod)
  moreover have "pb_decode_varint32 s = Some (Some (ucast (of_nat (length bs) :: u64)), advance (length (varint_bytes (of_nat (length bs)))) s)"
    using assms by (intro pb_decode_varint32_bytes) (auto simp: u64 delimited_def dest: stream_at_appendD)
  ultimately show ?thesis by blast
qed

lemma stream_at_body: "stream_at s (delimited bs) \<Longrightarrow> stream_at (advance (length (varint_bytes (of_nat (length bs)))) s) bs"
  unfolding delimited_def by (rule stream_at_advance)

interpretation bytes: item_codec
  "\<lambda>m f p. PB_ATYPE (f_type f) = PB_ATYPE_STATIC \<and> load_u32 m p + 4 \<le> f_data_size f"
  "\<lambda>m f p. delimited (mem_load m (p + 4) (load_u32 m p))" "\<lambda>m f p. mem_load m p (4 + load_u32 m p)" pb_dec_bytes
proof unfold_locales
  fix m p m' d and f :: pb_field and s :: "'a pb_istream"
  let ?k = "load_u32 m p" and ?bs = "mem_load m (p + 4) (load_u32 m p)"
  assume f: "PB_ATYPE (f_type f) = PB_ATYPE_STATIC \<and> ?k + 4 \<le> f_data_size f" and at: "stream_at s (delimited ?bs)"
  have k: "?k < 2 ^ 32" using load_nat_less [of m p 4] by simp
  obtain n :: u32 where n: "unat n = ?k"
      "pb_decode_varint32 s = Some (Some n, advance (length (varint_bytes (of_nat ?k))) s)"
    using decode_length [OF at] k by auto
  have body: "pb_read (advance (length (varint_bytes (of_nat ?k))) s) True ?k =
      Some (Some ?bs, advance (length (delimited ?bs)) s)"
    using pb_read_at [OF stream_at_body [OF at], of ?k True] by (simp add: delimited_def)
  have "mem_store (store_u32 m' d ?k) (d + 4) ?bs = mem_store m' d (mem_load m p (4 + ?k))"
    using mem_store_append [of m' d "mem_load m p 4" ?bs] mem_load_add [of m p 4 ?k]
    by (simp add: store_load_nat)
  then show "pb_dec_bytes s f d m' = dreturn () (advance (length (delimited ?bs)) s) (mem_store m' d (mem_load m p (4 + ?k)))"
    using f k by (simp add: pb_dec_bytes_def n with_mem_def PB_SIZE_MAX_def body)
qed (simp add: delimited_def)

interpretation fixed_length: item_codec "\<lambda>m f p. f_data_size f < 2 ^ 32"
  "\<lambda>m f p. delimited (mem_load m p (f_data_size f))" "\<lambda>m f p. mem_load m p (f_data_size f)" pb_dec_fixed_length_bytes
proof unfold_locales
  fix m p m' d and f :: pb_field and s :: "'a pb_istream"
  let ?k = "f_data_size f" and ?bs = "mem_load m p (f_data_size f)"
  assume k: "?k < 2 ^ 32" and at: "stream_at s (delimited ?bs)"
  obtain n :: u32 where n: "unat n = ?k"
      "pb_decode_varint32 s = Some (Some n, advance (length (varint_bytes (of_nat ?k))) s)"
    using decode_length [OF at] k by auto
  have body: "pb_read (advance (length (varint_bytes (of_nat ?k))) s) True ?k =
      Some (Some ?bs, advance (length (delimited ?bs)) s)"
    using pb_read_at [OF stream_at_body [OF at], of ?k True] by (simp add: delimited_def)
  have "?k = 0" if "n = 0" using n(1) that by simp
  then show "pb_dec_fixed_length_bytes s f d m' = dreturn () (advance (length (delimited ?bs)) s) (mem_store m' d ?bs)"
    using k n body by (auto simp: pb_dec_fixed_length_bytes_def with_mem_def PB_SIZE_MAX_def delimited_def)
qed (simp add: delimited_def)

interpretation string: item_codec
  "\<lambda>m f p. PB_ATYPE (f_type f) = PB_ATYPE_STATIC \<and> length (c_string m p (f_data_size f)) < f_data_size f \<and> f_data_size f < 2 ^ 32"
  "\<lambda>m f p. delimited (c_string m p (f_data_size f))" "\<lambda>m f p. c_string m p (f_data_size f) @ [0]" pb_dec_string
proof unfold_locales
  fix m p m' d and f :: pb_field and s :: "'a pb_istream"
  let ?bs = "c_string m p (f_data_size f)"
  let ?k = "length ?bs"
  assume f: "PB_ATYPE (f_type f) = PB_ATYPE_STATIC \<and> ?k < f_data_size f \<and> f_data_size f < 2 ^ 32"
    and at: "stream_at s (delimited ?bs)"
  then have k: "?k < 2 ^ 32 - 1" by simp
  obtain n :: u32 where n: "unat n = ?k"
      "pb_decode_varint32 s = Some (Some n, advance (length (varint_bytes (of_nat ?k))) s)"
    using decode_length [OF at] k by auto
  have n1: "unat (n + 1) = ?k + 1" using n(1) k by (simp add: unat_word_ariths)
  have body: "pb_read (advance (length (varint_bytes (of_nat ?k))) s) True ?k =
      Some (Some ?bs, advance (length (delimited ?bs)) s)"
    using pb_read_at [OF stream_at_body [OF at], of ?k True] by (simp add: delimited_def)
  have "(mem_store m' d ?bs)(d + ?k := 0) = mem_store m' d (?bs @ [0])"
    using mem_store_append [of m' d ?bs "[0]"] by (simp add: mem_store_single)
  then show "pb_dec_string s f d m' = dreturn () (advance (length (delimited ?bs)) s) (mem_store m' d (?bs @ [0]))"
    using f n1 by (simp add: pb_dec_string_def n with_mem_def body)
qed (simp add: delimited_def)


section \<open>Round trips\<close>

text \<open>What a decoder stores for an item, and when the decoder has the place for what the encoder takes.\<close>

definition item_image :: "mem \<Rightarrow> pb_field \<Rightarrow> addr \<Rightarrow> byte list" where
  "item_image m f p =
     (if PB_LTYPE (f_type f) = PB_LTYPE_BYTES then mem_load m p (4 + load_u32 m p)
      else if PB_LTYPE (f_type f) = PB_LTYPE_STRING then c_string m p (f_data_size f) @ [0]
      else mem_load m p (f_data_size f))"

definition item_fits :: "mem \<Rightarrow> pb_field \<Rightarrow> addr \<Rightarrow> bool" where
  "item_fits m f p \<longleftrightarrow>
     (let lt = PB_LTYPE (f_type f) in
      (lt = PB_LTYPE_VARINT \<or> lt = PB_LTYPE_UVARINT \<or> lt = PB_LTYPE_SVARINT) \<and> int_sized f \<or>
      lt = PB_LTYPE_FIXED32 \<and> f_data_size f = 4 \<or>
      lt = PB_LTYPE_FIXED64 \<and> f_data_size f = 8 \<or>
      lt = PB_LTYPE_BYTES \<and> load_u32 m p + 4 \<le> f_data_size f \<or>
      lt = PB_LTYPE_STRING \<and> 0 \<in> set (mem_load m p (f_data_size f)) \<and> f_data_size f < 2 ^ 32 \<or>
      lt = PB_LTYPE_FIXED_LENGTH_BYTES \<and> f_data_size f < 2 ^ 32)"

lemma c_string_terminated: "0 \<in> set (mem_load m p k) \<Longrightarrow> length (c_string m p k) < k"
proof -
  assume "0 \<in> set (mem_load m p k)"
  then have "takeWhile (\<lambda>b. b \<noteq> 0) (mem_load m p k) \<noteq> mem_load m p k" by (auto simp: takeWhile_eq_all_conv)
  then have "length (takeWhile (\<lambda>b. b \<noteq> 0) (mem_load m p k)) \<noteq> length (mem_load m p k)"
    by (metis takeWhile_eq_take take_all order_refl)
  with length_takeWhile_le [of "\<lambda>b. b \<noteq> 0" "mem_load m p k"] show ?thesis by (simp add: c_string_def)
qed

lemma no_submessages: "submessages_write encode (\<lambda>_ _. None)"
  by (simp add: submessages_write_def)

lemma item_fits_wire:
  assumes "PB_ATYPE (f_type f) = PB_ATYPE_STATIC" "item_fits m f p" "p \<noteq> 0"
  obtains xs where "item_wire env m (\<lambda>_ _. None) f p = Some xs" "length xs < 2 ^ 64"
    "\<And>s q m'. stream_at s xs \<Longrightarrow> pb_decoder env' defaults noinit (PB_LTYPE (f_type f)) s f q m' =
      dreturn () (advance (length xs) s) (mem_store m' q (item_image m f p))"
proof -
  let ?lt = "PB_LTYPE (f_type f)"
  have varint_short: "length (varint_bytes v) < 2 ^ 64" for v using varint_bytes_length_10 [of v] by simp
  have short: "length (delimited bs) < 2 ^ 64" if "length bs < 2 ^ 32" for bs
    using that varint_bytes_length_10 [of "of_nat (length bs)"] by (simp add: delimited_def)
  consider (v) "?lt = PB_LTYPE_VARINT" "int_sized f" | (u) "?lt = PB_LTYPE_UVARINT" "int_sized f"
    | (z) "?lt = PB_LTYPE_SVARINT" "int_sized f" | (f4) "?lt = PB_LTYPE_FIXED32" "f_data_size f = 4"
    | (f8) "?lt = PB_LTYPE_FIXED64" "f_data_size f = 8" | (b) "?lt = PB_LTYPE_BYTES" "load_u32 m p + 4 \<le> f_data_size f"
    | (s) "?lt = PB_LTYPE_STRING" "0 \<in> set (mem_load m p (f_data_size f))" "f_data_size f < 2 ^ 32"
    | (fl) "?lt = PB_LTYPE_FIXED_LENGTH_BYTES" "f_data_size f < 2 ^ 32"
    using assms(2) by (auto simp: item_fits_def Let_def)
  then show ?thesis
  proof cases
    case v
    show ?thesis
      by (rule that [of "varint_bytes (word_of_int (load_int m p (f_data_size f)))"])
        (use v varint_short varint.dec_wire in \<open>simp_all add: item_wire_def item_image_def pb_decoder_def Let_def\<close>)
  next
    case u
    show ?thesis
      by (rule that [of "varint_bytes (of_nat (load_nat m p (f_data_size f)))"])
        (use u varint_short uvarint.dec_wire in \<open>simp_all add: item_wire_def item_image_def pb_decoder_def Let_def\<close>)
  next
    case z
    show ?thesis
      by (rule that [of "varint_bytes (zigzag (word_of_int (load_int m p (f_data_size f))))"])
        (use z varint_short svarint.dec_wire in \<open>simp_all add: item_wire_def item_image_def pb_decoder_def Let_def\<close>)
  next
    case f4
    show ?thesis
      by (rule that [of "mem_load m p 4"])
        (use f4 fixed32.dec_wire [of f] in \<open>simp_all add: item_wire_def item_image_def pb_decoder_def Let_def\<close>)
  next
    case f8
    show ?thesis
      by (rule that [of "mem_load m p 8"])
        (use f8 fixed64.dec_wire [of f] in \<open>simp_all add: item_wire_def item_image_def pb_decoder_def Let_def\<close>)
  next
    case b
    have k: "load_u32 m p < 2 ^ 32" using load_nat_less [of m p 4] by simp
    show ?thesis
      by (rule that [of "delimited (mem_load m (p + 4) (load_u32 m p))"])
        (use b k assms(1,3) short bytes.dec_wire [OF conjI [OF assms(1) b(2)]] in \<open>simp_all add: item_wire_def item_image_def pb_decoder_def Let_def\<close>)
  next
    case s
    have k: "length (c_string m p (f_data_size f)) < f_data_size f" using s(2) by (rule c_string_terminated)
    show ?thesis
      by (rule that [of "delimited (c_string m p (f_data_size f))"])
        (use s(1,3) k assms(1,3) short string.dec_wire [OF conjI [OF assms(1) conjI [OF k s(3)]]] in \<open>simp_all add: item_wire_def item_image_def pb_decoder_def Let_def\<close>)
  next
    case fl
    show ?thesis
      by (rule that [of "delimited (mem_load m p (f_data_size f))"])
        (use fl short fixed_length.dec_wire in \<open>simp_all add: item_wire_def item_image_def pb_decoder_def Let_def\<close>)
  qed
qed

text \<open>
  C23: Every value of a static field other than a submessage survives encoding and decoding. For each of the
  eight field types there is a string of bytes that the encoder writes for the item at \<open>p\<close>, on any stream that has
  room; and when the decoder finds it on its stream it consumes it exactly and leaves at \<open>q\<close> the memory of the
  item: the integer in its width, the size and the bytes, the string with its terminator.
\<close>

lemma pb_item_roundtrip:
  assumes "PB_ATYPE (f_type f) = PB_ATYPE_STATIC" "item_fits m f p" "p \<noteq> 0"
  shows "\<exists>xs. (\<forall>os. ready os (length xs) \<longrightarrow>
       pb_encoder env m encode (PB_LTYPE (f_type f)) os f p = ereturn (emit xs os)) \<and>
    (\<forall>s q m'. stream_at s xs \<longrightarrow>
       pb_decoder env' defaults noinit (PB_LTYPE (f_type f)) s f q m' =
         dreturn () (advance (length xs) s) (mem_store m' q (item_image m f p)))"
proof -
  obtain xs where xs: "item_wire env m (\<lambda>_ _. None) f p = Some xs" "length xs < 2 ^ 64"
    "\<And>s q m'. stream_at s xs \<Longrightarrow> pb_decoder env' defaults noinit (PB_LTYPE (f_type f)) s f q m' =
      dreturn () (advance (length xs) s) (mem_store m' q (item_image m f p))"
    by (rule item_fits_wire [OF assms, where env = env and env' = env' and defaults = defaults and noinit = noinit]) blast
  from writesD [OF item_wire_writes [OF no_submessages xs(1,2)]] xs(3) show ?thesis by blast
qed

lemma pb_item_roundtrip_witness:
  "\<exists>xs. pb_encoder group_enc_env group_mem (\<lambda>_ _ _. None) PB_LTYPE_UVARINT PB_OSTREAM_SIZING (hd item_fields) 108 =
      ereturn (emit xs PB_OSTREAM_SIZING) \<and>
    pb_decoder group_env (\<lambda>_ _ _. None) (\<lambda>_ _ _ _. None) PB_LTYPE_UVARINT (pb_istream_from_buffer xs (length xs)) (hd item_fields) 200 (\<lambda>_. 0) =
      dreturn () (advance (length xs) (pb_istream_from_buffer xs (length xs))) (mem_store (\<lambda>_. 0) 200 [0x2C, 1, 0, 0])"
proof -
  have f: "PB_ATYPE (f_type (hd item_fields)) = PB_ATYPE_STATIC" "item_fits group_mem (hd item_fields) 108"
      "PB_LTYPE (f_type (hd item_fields)) = PB_LTYPE_UVARINT" "item_image group_mem (hd item_fields) 108 = [0x2C, 1, 0, 0]"
    by code_simp+
  from pb_item_roundtrip [OF f(1,2), of group_enc_env "\<lambda>_ _ _. None" group_env "\<lambda>_ _ _. None" "\<lambda>_ _ _ _. None"]
  obtain xs where "\<forall>os. ready os (length xs) \<longrightarrow>
      pb_encoder group_enc_env group_mem (\<lambda>_ _ _. None) PB_LTYPE_UVARINT os (hd item_fields) 108 = ereturn (emit xs os)"
    "\<forall>s q m'. stream_at s xs \<longrightarrow> pb_decoder group_env (\<lambda>_ _ _. None) (\<lambda>_ _ _ _. None) PB_LTYPE_UVARINT s (hd item_fields) q m' =
      dreturn () (advance (length xs) s) (mem_store m' q [0x2C, 1, 0, 0])"
    unfolding f(3,4) by auto
  then show ?thesis using stream_at_from_buffer ready_sizing by blast
qed

section \<open>Packed arrays\<close>

lemma items_bytes_length: "(\<And>q. length (item q) \<le> 10) \<Longrightarrow> length (items_bytes item sz count p) \<le> 10 * count"
proof (induction count arbitrary: p)
  case (Suc count)
  have "length (items_bytes item sz count (p + sz)) \<le> 10 * count" using Suc by blast
  with Suc.prems [of p] show ?case by simp
qed simp

definition packable :: "pb_field \<Rightarrow> bool" where
  "packable f \<longleftrightarrow>
     (let lt = PB_LTYPE (f_type f) in
      (lt = PB_LTYPE_VARINT \<or> lt = PB_LTYPE_UVARINT \<or> lt = PB_LTYPE_SVARINT) \<and> int_sized f \<or>
      lt = PB_LTYPE_FIXED32 \<and> f_data_size f = 4 \<or> lt = PB_LTYPE_FIXED64 \<and> f_data_size f = 8)"

lemma packable_items:
  assumes "packable f" "disjoint_ranges q (f_data_size f * f_array_size f) z 4" "f_array_size f < 2 ^ 32"
    and "count \<le> f_array_size f" "load_u32 m' z = 0" "10 * count < 2 ^ 32"
  obtains item where "\<And>q. item_wire env m sub f q = Some (item q)" "\<And>q. length (item q) \<le> 10"
    "\<And>s. stream_at s (delimited (items_bytes item (f_data_size f) count p)) \<Longrightarrow>
      decode_packed (pb_decoder env' defaults noinit (PB_LTYPE (f_type f))) s f q z m' =
        dreturn () (advance (length (delimited (items_bytes item (f_data_size f) count p))) s)
          (store_u32 (mem_store m' q (mem_load m p (f_data_size f * count))) z count)"
proof -
  let ?lt = "PB_LTYPE (f_type f)" and ?n = "f_data_size f"
  have len: "length (items_bytes item ?n count p) < 2 ^ 32" if "\<And>q. length (item q) \<le> 10" for item
    using items_bytes_length [of item ?n count p] that assms(6) by fastforce
  consider (v) "?lt = PB_LTYPE_VARINT" "int_sized f" | (u) "?lt = PB_LTYPE_UVARINT" "int_sized f"
    | (z) "?lt = PB_LTYPE_SVARINT" "int_sized f" | (f4) "?lt = PB_LTYPE_FIXED32" "?n = 4"
    | (f8) "?lt = PB_LTYPE_FIXED64" "?n = 8"
    using assms(1) by (auto simp: packable_def Let_def)
  then show ?thesis
  proof cases
    case v
    show ?thesis
    proof (rule that [of "\<lambda>q. varint_bytes (word_of_int (load_int m q ?n))"])
      show "decode_packed (pb_decoder env' defaults noinit ?lt) s f q z m' =
          dreturn () (advance (length (delimited (items_bytes (\<lambda>q. varint_bytes (word_of_int (load_int m q ?n))) ?n count p))) s)
            (store_u32 (mem_store m' q (mem_load m p (?n * count))) z count)"
        if "stream_at s (delimited (items_bytes (\<lambda>q. varint_bytes (word_of_int (load_int m q ?n))) ?n count p))" for s
        using varint.decode_packed_items [OF assms(2,3) _ assms(4,5) that len] v varint_bytes_length_10
        by (simp add: pb_decoder_def)
    qed (use v varint_bytes_length_10 in \<open>simp_all add: item_wire_def Let_def\<close>)
  next
    case u
    show ?thesis
    proof (rule that [of "\<lambda>q. varint_bytes (of_nat (load_nat m q ?n))"])
      show "decode_packed (pb_decoder env' defaults noinit ?lt) s f q z m' =
          dreturn () (advance (length (delimited (items_bytes (\<lambda>q. varint_bytes (of_nat (load_nat m q ?n))) ?n count p))) s)
            (store_u32 (mem_store m' q (mem_load m p (?n * count))) z count)"
        if "stream_at s (delimited (items_bytes (\<lambda>q. varint_bytes (of_nat (load_nat m q ?n))) ?n count p))" for s
        using uvarint.decode_packed_items [OF assms(2,3) _ assms(4,5) that len] u varint_bytes_length_10
        by (simp add: pb_decoder_def)
    qed (use u varint_bytes_length_10 in \<open>simp_all add: item_wire_def Let_def\<close>)
  next
    case z
    show ?thesis
    proof (rule that [of "\<lambda>q. varint_bytes (zigzag (word_of_int (load_int m q ?n)))"])
      show "decode_packed (pb_decoder env' defaults noinit ?lt) s f q z m' =
          dreturn () (advance (length (delimited (items_bytes (\<lambda>q. varint_bytes (zigzag (word_of_int (load_int m q ?n)))) ?n count p))) s)
            (store_u32 (mem_store m' q (mem_load m p (?n * count))) z count)"
        if "stream_at s (delimited (items_bytes (\<lambda>q. varint_bytes (zigzag (word_of_int (load_int m q ?n)))) ?n count p))" for s
        using svarint.decode_packed_items [OF assms(2,3) _ assms(4,5) that len] z varint_bytes_length_10
        by (simp add: pb_decoder_def)
    qed (use z varint_bytes_length_10 in \<open>simp_all add: item_wire_def Let_def\<close>)
  next
    case f4
    show ?thesis
    proof (rule that [of "\<lambda>q. mem_load m q 4"])
      show "decode_packed (pb_decoder env' defaults noinit ?lt) s f q z m' =
          dreturn () (advance (length (delimited (items_bytes (\<lambda>q. mem_load m q 4) ?n count p))) s)
            (store_u32 (mem_store m' q (mem_load m p (?n * count))) z count)"
        if "stream_at s (delimited (items_bytes (\<lambda>q. mem_load m q 4) ?n count p))" for s
        using fixed32.decode_packed_items [OF assms(2,3) _ assms(4,5) that len] f4 by (simp add: pb_decoder_def)
    qed (use f4 in \<open>simp_all add: item_wire_def Let_def\<close>)
  next
    case f8
    show ?thesis
    proof (rule that [of "\<lambda>q. mem_load m q 8"])
      show "decode_packed (pb_decoder env' defaults noinit ?lt) s f q z m' =
          dreturn () (advance (length (delimited (items_bytes (\<lambda>q. mem_load m q 8) ?n count p))) s)
            (store_u32 (mem_store m' q (mem_load m p (?n * count))) z count)"
        if "stream_at s (delimited (items_bytes (\<lambda>q. mem_load m q 8) ?n count p))" for s
        using fixed64.decode_packed_items [OF assms(2,3) _ assms(4,5) that len] f8 by (simp add: pb_decoder_def)
    qed (use f8 in \<open>simp_all add: item_wire_def Let_def\<close>)
  qed
qed

text \<open>
  C24: A packed array survives encoding and decoding. What \<open>encode_array\<close> writes for the \<open>count\<close> items at \<open>p\<close>
  is a tag of wire type 2 and a delimited string; and \<open>decode_static_field\<close>, which is called behind the tag, takes
  exactly that string, fills the array at the field's data address with the memory of the items, and sets the size
  slot to \<open>count\<close>. This is so for all five packable types, in every width of the array's integers.
\<close>

lemma pb_packed_roundtrip:
  assumes f: "packable f" "PB_ATYPE (f_type f) = PB_ATYPE_STATIC" "PB_HTYPE (f_type f) = PB_HTYPE_REPEATED"
    and count: "0 < count" "count \<le> f_array_size f" "f_array_size f < 2 ^ 32" "10 * count < 2 ^ 32"
    and iter: "it_field iter = f" "load_u32 m' (it_pSize iter) = 0"
      "disjoint_ranges (it_pData iter) (f_data_size f * f_array_size f) (it_pSize iter) 4"
  shows "\<exists>xs. (\<forall>os. ready os (length (varint_bytes (tag_word PB_WT_STRING (f_tag f)) @ xs)) \<longrightarrow>
       encode_array m os f p count (pb_encoder env m encode (PB_LTYPE (f_type f))) =
         ereturn (emit (varint_bytes (tag_word PB_WT_STRING (f_tag f)) @ xs) os)) \<and>
    (\<forall>s. stream_at s xs \<longrightarrow> decode_static_field env' defaults noinit s PB_WT_STRING iter m' =
       dreturn () (advance (length xs) s)
         (store_u32 (mem_store m' (it_pData iter) (mem_load m p (f_data_size f * count))) (it_pSize iter) count))"
proof -
  have lt: "PB_LTYPE (f_type f) \<le> PB_LTYPE_LAST_PACKABLE"
    using f(1) by (auto simp: packable_def Let_def)
  obtain item where item: "\<And>q. item_wire env m (\<lambda>_ _. None) f q = Some (item q)" "\<And>q. length (item q) \<le> 10"
    "\<And>s. stream_at s (delimited (items_bytes item (f_data_size f) count p)) \<Longrightarrow>
      decode_packed (pb_decoder env' defaults noinit (PB_LTYPE (f_type f))) s f (it_pData iter) (it_pSize iter) m' =
        dreturn () (advance (length (delimited (items_bytes item (f_data_size f) count p))) s)
          (store_u32 (mem_store m' (it_pData iter) (mem_load m p (f_data_size f * count))) (it_pSize iter) count)"
    by (rule packable_items [OF f(1) iter(3) count(3,2) iter(2) count(4), where env = env and sub = "\<lambda>_ _. None" and
          env' = env' and defaults = defaults and noinit = noinit and m = m and p = p]) blast
  let ?xs = "items_bytes item (f_data_size f) count p"
  have len: "length ?xs \<le> 10 * count" using item(2) by (rule items_bytes_length)
  have "array_wire env m (\<lambda>_ _. None) f p count = Some (varint_bytes (tag_word PB_WT_STRING (f_tag f)) @ delimited ?xs)"
    using items_wire_bytes [of count "item_wire env m (\<lambda>_ _. None) f" p "f_data_size f" item] item(1) lt count(1,2) f(2)
    by (simp add: array_wire_def Let_def)
  moreover have "length (varint_bytes (tag_word PB_WT_STRING (f_tag f)) @ delimited ?xs) < 2 ^ 64"
    using len count(4) varint_bytes_length_10 [of "tag_word PB_WT_STRING (f_tag f)"] varint_bytes_length_10 [of "of_nat (length ?xs)"]
    by (simp add: delimited_def)
  ultimately have "writes (\<lambda>os. encode_array m os f p count (pb_encoder env m encode (PB_LTYPE (f_type f))))
      (varint_bytes (tag_word PB_WT_STRING (f_tag f)) @ delimited ?xs)"
    by (rule array_wire_writes [OF no_submessages])
  moreover have "decode_static_field env' defaults noinit s PB_WT_STRING iter m' =
      decode_packed (pb_decoder env' defaults noinit (PB_LTYPE (f_type f))) s f (it_pData iter) (it_pSize iter) m'" for s
    using f(3) lt iter(1) by (simp add: decode_static_field_def Let_def)
  ultimately show ?thesis
    using item(3) by (intro exI [of _ "delimited ?xs"] conjI allI impI) (auto intro: writesD)
qed

text \<open>Three 16-bit integers, \<^verbatim>\<open>1\<close>, \<^verbatim>\<open>-1\<close> and \<^verbatim>\<open>-32768\<close>, as a packed array of a structure with its count in front.\<close>

definition packed_field :: pb_field where
  "packed_field = \<lparr>f_tag = 3, f_type = 0x20, f_data_offset = 4, f_size_offset = -4, f_data_size = 2,
     f_array_size = 8, f_ptr = 0\<rparr>"

definition packed_mem :: mem where
  "packed_mem = (\<lambda>_. 0)(100 := 3, 104 := 1, 106 := 0xFF, 107 := 0xFF, 109 := 0x80)"

lemma pb_packed_roundtrip_witness:
  "\<exists>xs. encode_array packed_mem PB_OSTREAM_SIZING packed_field 104 3 (pb_encoder group_enc_env packed_mem (\<lambda>_ _ _. None) 0) =
      ereturn (emit (varint_bytes (tag_word PB_WT_STRING 3) @ xs) PB_OSTREAM_SIZING) \<and>
    decode_static_field group_env (\<lambda>_ _ _. None) (\<lambda>_ _ _ _. None) (pb_istream_from_buffer xs (length xs)) PB_WT_STRING
        (iter_at [packed_field] 200 0) (\<lambda>_. 0) =
      dreturn () (advance (length xs) (pb_istream_from_buffer xs (length xs)))
        (store_u32 (mem_store (\<lambda>_. 0) 204 [1, 0, 0xFF, 0xFF, 0, 0x80]) 200 3)"
proof -
  let ?i = "iter_at [packed_field] 200 0"
  have f: "packable packed_field" "PB_ATYPE (f_type packed_field) = PB_ATYPE_STATIC"
      "PB_HTYPE (f_type packed_field) = PB_HTYPE_REPEATED" "(3 :: nat) \<le> f_array_size packed_field"
      "it_field ?i = packed_field" "load_u32 (\<lambda>_. 0) (it_pSize ?i) = 0"
      "disjoint_ranges (it_pData ?i) (f_data_size packed_field * f_array_size packed_field) (it_pSize ?i) 4"
      "PB_LTYPE (f_type packed_field) = 0" "f_tag packed_field = 3" "it_pData ?i = 204" "it_pSize ?i = 200"
      "mem_load packed_mem 104 (f_data_size packed_field * 3) = [1, 0, 0xFF, 0xFF, 0, 0x80]"
    by code_simp+
  have small: "f_array_size packed_field < 2 ^ 32" by (simp add: packed_field_def)
  from pb_packed_roundtrip [OF f(1-3) _ f(4) small _ f(5-7), of packed_mem 104 group_enc_env "\<lambda>_ _ _. None" group_env
      "\<lambda>_ _ _. None" "\<lambda>_ _ _ _. None"]
  obtain xs where "\<forall>os. ready os (length (varint_bytes (tag_word PB_WT_STRING 3) @ xs)) \<longrightarrow>
      encode_array packed_mem os packed_field 104 3 (pb_encoder group_enc_env packed_mem (\<lambda>_ _ _. None) 0) =
        ereturn (emit (varint_bytes (tag_word PB_WT_STRING 3) @ xs) os)"
    "\<forall>s. stream_at s xs \<longrightarrow> decode_static_field group_env (\<lambda>_ _ _. None) (\<lambda>_ _ _ _. None) s PB_WT_STRING ?i (\<lambda>_. 0) =
      dreturn () (advance (length xs) s) (store_u32 (mem_store (\<lambda>_. 0) 204 [1, 0, 0xFF, 0xFF, 0, 0x80]) 200 3)"
    unfolding f(8-12) by auto
  then show ?thesis using stream_at_from_buffer ready_sizing by blast
qed

end
