(* ===== verification/Zip_Io.thy ===== *)
theory Zip_Io
  imports Prelude
begin

text \<open>
  The file layer of minizip (\<^verbatim>\<open>ioapi.c\<close>, \<^verbatim>\<open>ioapi.h\<close>): the tables of function pointers through which
  \<^verbatim>\<open>unzip.c\<close> and \<^verbatim>\<open>zip.c\<close> reach a file, the calls that choose between their 64-bit and 32-bit
  entries, and the functions over \<^verbatim>\<open>stdio\<close> that fill the tables by default, with the part of
  \<^verbatim>\<open>stdio\<close> they use. \<^verbatim>\<open>uLong\<close>, \<^verbatim>\<open>long\<close> and \<^verbatim>\<open>ZPOS64_T\<close> are 64 bits wide. \<^verbatim>\<open>malloc\<close> does not fail.
\<close>

section \<open>Constants\<close>

abbreviation (input) ZLIB_FILEFUNC_SEEK_SET :: int where "ZLIB_FILEFUNC_SEEK_SET \<equiv> 0"
abbreviation (input) ZLIB_FILEFUNC_SEEK_CUR :: int where "ZLIB_FILEFUNC_SEEK_CUR \<equiv> 1"
abbreviation (input) ZLIB_FILEFUNC_SEEK_END :: int where "ZLIB_FILEFUNC_SEEK_END \<equiv> 2"
abbreviation (input) ZLIB_FILEFUNC_MODE_READ :: u32 where "ZLIB_FILEFUNC_MODE_READ \<equiv> 1"
abbreviation (input) ZLIB_FILEFUNC_MODE_WRITE :: u32 where "ZLIB_FILEFUNC_MODE_WRITE \<equiv> 2"
abbreviation (input) ZLIB_FILEFUNC_MODE_READWRITEFILTER :: u32 where "ZLIB_FILEFUNC_MODE_READWRITEFILTER \<equiv> 3"
abbreviation (input) ZLIB_FILEFUNC_MODE_EXISTING :: u32 where "ZLIB_FILEFUNC_MODE_EXISTING \<equiv> 4"
abbreviation (input) ZLIB_FILEFUNC_MODE_CREATE :: u32 where "ZLIB_FILEFUNC_MODE_CREATE \<equiv> 8"

section \<open>Function tables\<close>

text \<open>
  The functions of a table act on a world \<open>'w\<close>, which holds what \<^verbatim>\<open>opaque\<close> and the file streams
  point to. A read gives its return value and the bytes it stored. A NULL entry is \<open>None\<close>.
\<close>

type_synonym 'w open_func = "'w \<Rightarrow> string option \<Rightarrow> u32 \<Rightarrow> addr \<times> 'w"
type_synonym 'w opendisk_func = "'w \<Rightarrow> addr \<Rightarrow> int \<Rightarrow> u32 \<Rightarrow> addr \<times> 'w"
type_synonym 'w read_func = "'w \<Rightarrow> addr \<Rightarrow> u64 \<Rightarrow> u64 \<times> byte list \<times> 'w"
type_synonym 'w write_func = "'w \<Rightarrow> addr \<Rightarrow> byte list \<Rightarrow> u64 \<Rightarrow> u64 \<times> 'w"
type_synonym 'w tell_func = "'w \<Rightarrow> addr \<Rightarrow> u64 \<times> 'w"
type_synonym 'w seek_func = "'w \<Rightarrow> addr \<Rightarrow> u64 \<Rightarrow> int \<Rightarrow> int \<times> 'w"
type_synonym 'w status_func = "'w \<Rightarrow> addr \<Rightarrow> int \<times> 'w"

record 'w zlib_filefunc_def =
  zopen_file :: "'w open_func"
  zopendisk_file :: "'w opendisk_func"
  zread_file :: "'w read_func"
  zwrite_file :: "'w write_func"
  ztell_file :: "'w tell_func"
  zseek_file :: "'w seek_func"
  zclose_file :: "'w status_func"
  zerror_file :: "'w status_func"

record 'w zlib_filefunc64_def =
  zopen64_file :: "'w open_func option"
  zopendisk64_file :: "'w opendisk_func option"
  zread64_file :: "'w read_func"
  zwrite64_file :: "'w write_func"
  ztell64_file :: "'w tell_func option"
  zseek64_file :: "'w seek_func option"
  zclose64_file :: "'w status_func"
  zerror64_file :: "'w status_func"

text \<open>The 32-bit entries are called only when the 64-bit ones are NULL; a NULL call is undefined.\<close>

record 'w zlib_filefunc64_32_def =
  zfile_func64 :: "'w zlib_filefunc64_def"
  zopen32_file :: "'w open_func option"
  zopendisk32_file :: "'w opendisk_func option"
  ztell32_file :: "'w tell_func option"
  zseek32_file :: "'w seek_func option"

definition call_zopen64 :: "'w zlib_filefunc64_32_def \<Rightarrow> string option \<Rightarrow> u32 \<Rightarrow> 'w \<Rightarrow> (addr \<times> 'w) option" where
  "call_zopen64 pfilefunc filename mode w =
     (case zopen64_file (zfile_func64 pfilefunc) of
        Some f \<Rightarrow> Some (f w filename mode)
      | None \<Rightarrow> map_option (\<lambda>f. f w filename mode) (zopen32_file pfilefunc))"

definition call_zopendisk64 ::
  "'w zlib_filefunc64_32_def \<Rightarrow> addr \<Rightarrow> int \<Rightarrow> u32 \<Rightarrow> 'w \<Rightarrow> (addr \<times> 'w) option" where
  "call_zopendisk64 pfilefunc filestream number_disk mode w =
     (case zopendisk64_file (zfile_func64 pfilefunc) of
        Some f \<Rightarrow> Some (f w filestream number_disk mode)
      | None \<Rightarrow> map_option (\<lambda>f. f w filestream number_disk mode) (zopendisk32_file pfilefunc))"

text \<open>The truncation to \<^verbatim>\<open>uLong\<close> loses nothing, so its test is never true.\<close>

definition call_zseek64 ::
  "'w zlib_filefunc64_32_def \<Rightarrow> addr \<Rightarrow> u64 \<Rightarrow> int \<Rightarrow> 'w \<Rightarrow> (int \<times> 'w) option" where
  "call_zseek64 pfilefunc filestream offset origin w =
     (case zseek64_file (zfile_func64 pfilefunc) of
        Some f \<Rightarrow> Some (f w filestream offset origin)
      | None \<Rightarrow>
          let offsetTruncated = (ucast offset :: u64) in
          if offsetTruncated \<noteq> offset then Some (-1, w)
          else map_option (\<lambda>f. f w filestream offsetTruncated origin) (zseek32_file pfilefunc))"

text \<open>The test looks at \<^verbatim>\<open>zseek64_file\<close>, the call goes to \<^verbatim>\<open>ztell64_file\<close>.\<close>

definition call_ztell64 :: "'w zlib_filefunc64_32_def \<Rightarrow> addr \<Rightarrow> 'w \<Rightarrow> (u64 \<times> 'w) option" where
  "call_ztell64 pfilefunc filestream w =
     (case zseek64_file (zfile_func64 pfilefunc) of
        Some _ \<Rightarrow> map_option (\<lambda>f. f w filestream) (ztell64_file (zfile_func64 pfilefunc))
      | None \<Rightarrow>
          map_option (\<lambda>f. case f w filestream of (tell, w) \<Rightarrow>
              (if tell = 0xffffffff then - 1 else tell, w))
            (ztell32_file pfilefunc))"

definition fill_zlib_filefunc64_32_def_from_filefunc32 ::
  "'w zlib_filefunc_def \<Rightarrow> 'w zlib_filefunc64_32_def" where
  "fill_zlib_filefunc64_32_def_from_filefunc32 p =
     \<lparr>zfile_func64 =
        \<lparr>zopen64_file = None, zopendisk64_file = None, zread64_file = zread_file p,
         zwrite64_file = zwrite_file p, ztell64_file = None, zseek64_file = None,
         zclose64_file = zclose_file p, zerror64_file = zerror_file p\<rparr>,
      zopen32_file = Some (zopen_file p), zopendisk32_file = Some (zopendisk_file p),
      ztell32_file = Some (ztell_file p), zseek32_file = Some (zseek_file p)\<rparr>"

section \<open>Files\<close>

text \<open>
  What the default functions use of \<^verbatim>\<open>stdio\<close>, on regular files: named contents, and open streams
  with a name, a position, the right to write, and an error flag. A stream is created by
  \<open>file_build_ioposix\<close> together with the name it was opened under.
\<close>

record open_file =
  of_name :: string
  of_pos :: nat
  of_write :: bool
  of_error :: bool

record stdio =
  sd_files :: "string \<Rightarrow> byte list option"
  sd_open :: "addr \<Rightarrow> open_file option"
  sd_next :: addr

definition file_content :: "stdio \<Rightarrow> open_file \<Rightarrow> byte list" where
  "file_content w f = (case sd_files w (of_name f) of Some c \<Rightarrow> c | None \<Rightarrow> [])"

definition file_build_ioposix :: "stdio \<Rightarrow> string \<Rightarrow> bool \<Rightarrow> addr \<times> stdio" where
  "file_build_ioposix w filename writable =
     (Suc (sd_next w),
      w\<lparr>sd_open := (sd_open w)(Suc (sd_next w) \<mapsto>
            \<lparr>of_name = filename, of_pos = 0, of_write = writable, of_error = False\<rparr>),
        sd_next := Suc (sd_next w)\<rparr>)"

text \<open>\<^verbatim>\<open>fopen\<close> with \<^verbatim>\<open>"rb"\<close>, \<^verbatim>\<open>"r+b"\<close> and \<^verbatim>\<open>"wb"\<close>.\<close>

datatype fopen_mode = Fopen_rb | Fopen_rplus | Fopen_wb

definition fopen_build :: "stdio \<Rightarrow> string \<Rightarrow> fopen_mode \<Rightarrow> addr \<times> stdio" where
  "fopen_build w filename mode_fopen =
     (case mode_fopen of
        Fopen_wb \<Rightarrow> file_build_ioposix (w\<lparr>sd_files := (sd_files w)(filename \<mapsto> [])\<rparr>) filename True
      | m \<Rightarrow> if sd_files w filename = None then (0, w)
             else file_build_ioposix w filename (m = Fopen_rplus))"

definition mode_fopen :: "u32 \<Rightarrow> fopen_mode option" where
  "mode_fopen mode =
     (if and mode ZLIB_FILEFUNC_MODE_READWRITEFILTER = ZLIB_FILEFUNC_MODE_READ then Some Fopen_rb
      else if and mode ZLIB_FILEFUNC_MODE_EXISTING \<noteq> 0 then Some Fopen_rplus
      else if and mode ZLIB_FILEFUNC_MODE_CREATE \<noteq> 0 then Some Fopen_wb
      else None)"

definition fopen_file_func :: "stdio open_func" where
  "fopen_file_func w filename mode =
     (case (filename, mode_fopen mode) of
        (Some name, Some m) \<Rightarrow> fopen_build w name m
      | _ \<Rightarrow> (0, w))"

definition fopen64_file_func :: "stdio open_func" where
  "fopen64_file_func w filename mode =
     (case (filename, mode_fopen mode) of
        (Some name, Some m) \<Rightarrow> fopen_build w name m
      | _ \<Rightarrow> (0, w))"

section \<open>Names of the parts of a spanned archive\<close>

text \<open>\<^verbatim>\<open>"%02d"\<close>\<close>

fun decimal :: "nat \<Rightarrow> string" where
  "decimal n = (if n < 10 then [char_of (48 + n)] else decimal (n div 10) @ [char_of (48 + n mod 10)])"

declare decimal.simps [simp del]

definition decimal02 :: "int \<Rightarrow> string" where
  "decimal02 i =
     (if i < 0 then CHR ''-'' # decimal (nat (- i))
      else if i < 10 then CHR ''0'' # decimal (nat i) else decimal (nat i))"

text \<open>
  The name of a part: the extension (from the last dot on) is replaced by \<^verbatim>\<open>.z01\<close>, \<^verbatim>\<open>.z02\<close> and so
  on, cut to the room that the old name had. \<open>None\<close> if the name has no dot.
\<close>

definition disk_filename :: "string \<Rightarrow> int \<Rightarrow> string option" where
  "disk_filename filename number_disk =
     (if CHR ''.'' \<notin> set filename then None
      else
        let i = length filename - Suc (length (takeWhile (\<lambda>c. c \<noteq> CHR ''.'') (rev filename))) in
        Some (take i filename @
              take (length filename - i) (''.z'' @ decimal02 (number_disk + 1))))"

definition fopendisk64_file_func :: "stdio opendisk_func" where
  "fopendisk64_file_func w stream number_disk mode =
     (case sd_open w stream of
        None \<Rightarrow> (0, w)
      | Some f \<Rightarrow>
          (case disk_filename (of_name f) number_disk of
             None \<Rightarrow> (0, w)
           | Some name \<Rightarrow> fopen64_file_func w (Some name) mode))"

definition fopendisk_file_func :: "stdio opendisk_func" where
  "fopendisk_file_func w stream number_disk mode =
     (case sd_open w stream of
        None \<Rightarrow> (0, w)
      | Some f \<Rightarrow>
          (case disk_filename (of_name f) number_disk of
             None \<Rightarrow> (0, w)
           | Some name \<Rightarrow> fopen_file_func w (Some name) mode))"

section \<open>Reading, writing and seeking\<close>

text \<open>
  A stream that is not open stands for NULL: the functions return \<open>-1\<close> for it. (Using a stream
  after it was closed is undefined in C.)
\<close>

definition set_file :: "stdio \<Rightarrow> addr \<Rightarrow> open_file \<Rightarrow> stdio" where
  "set_file w stream f = w\<lparr>sd_open := (sd_open w)(stream \<mapsto> f)\<rparr>"

text \<open>Reading does not look at the rights of the stream: the library reads only from streams that were opened to be read.\<close>

definition fread_file_func :: "stdio read_func" where
  "fread_file_func w stream n =
     (case sd_open w stream of
        None \<Rightarrow> (- 1, [], w)
      | Some f \<Rightarrow>
          let bs = take (unat n) (drop (of_pos f) (file_content w f)) in
          (of_nat (length bs), bs, set_file w stream (f\<lparr>of_pos := of_pos f + length bs\<rparr>)))"

text \<open>A write at a position beyond the end fills the gap with zeros.\<close>

definition write_at :: "byte list \<Rightarrow> nat \<Rightarrow> byte list \<Rightarrow> byte list" where
  "write_at c pos bs = take pos (c @ replicate (pos - length c) 0) @ bs @ drop (pos + length bs) c"

definition fwrite_file_func :: "stdio write_func" where
  "fwrite_file_func w stream buf n =
     (case sd_open w stream of
        None \<Rightarrow> (- 1, w)
      | Some f \<Rightarrow>
          let bs = take (unat n) buf in
          if \<not> of_write f then (0, set_file w stream (f\<lparr>of_error := True\<rparr>))
          else
            (of_nat (length bs),
             set_file (w\<lparr>sd_files := (sd_files w)(of_name f \<mapsto> write_at (file_content w f) (of_pos f) bs)\<rparr>)
               stream (f\<lparr>of_pos := of_pos f + length bs\<rparr>)))"

definition ftell_file_func :: "stdio tell_func" where
  "ftell_file_func w stream =
     (case sd_open w stream of None \<Rightarrow> (- 1, w) | Some f \<Rightarrow> (of_nat (of_pos f), w))"

definition ftell64_file_func :: "stdio tell_func" where
  "ftell64_file_func w stream =
     (case sd_open w stream of None \<Rightarrow> (- 1, w) | Some f \<Rightarrow> (of_nat (of_pos f), w))"

text \<open>\<^verbatim>\<open>fseeko\<close> takes a signed offset and refuses positions before the start of the file.\<close>

definition fseeko :: "stdio \<Rightarrow> addr \<Rightarrow> open_file \<Rightarrow> int \<Rightarrow> int \<Rightarrow> int \<times> stdio" where
  "fseeko w stream f offset base =
     (if base + offset < 0 then (-1, w)
      else (0, set_file w stream (f\<lparr>of_pos := nat (base + offset)\<rparr>)))"

definition fseek64_file_func :: "stdio seek_func" where
  "fseek64_file_func w stream offset origin =
     (case sd_open w stream of
        None \<Rightarrow> (-1, w)
      | Some f \<Rightarrow>
          if origin = ZLIB_FILEFUNC_SEEK_CUR then fseeko w stream f (sint offset) (int (of_pos f))
          else if origin = ZLIB_FILEFUNC_SEEK_END
            then fseeko w stream f (sint offset) (int (length (file_content w f)))
          else if origin = ZLIB_FILEFUNC_SEEK_SET then fseeko w stream f (sint offset) 0
          else (-1, w))"

definition fseek_file_func :: "stdio seek_func" where
  "fseek_file_func w stream offset origin =
     (case sd_open w stream of
        None \<Rightarrow> (-1, w)
      | Some f \<Rightarrow>
          if origin = ZLIB_FILEFUNC_SEEK_CUR then fseeko w stream f (sint offset) (int (of_pos f))
          else if origin = ZLIB_FILEFUNC_SEEK_END
            then fseeko w stream f (sint offset) (int (length (file_content w f)))
          else if origin = ZLIB_FILEFUNC_SEEK_SET then fseeko w stream f (sint offset) 0
          else (-1, w))"

definition fclose_file_func :: "stdio status_func" where
  "fclose_file_func w stream =
     (case sd_open w stream of
        None \<Rightarrow> (-1, w)
      | Some _ \<Rightarrow> (0, w\<lparr>sd_open := (sd_open w)(stream := None)\<rparr>))"

definition ferror_file_func :: "stdio status_func" where
  "ferror_file_func w stream =
     (case sd_open w stream of None \<Rightarrow> (-1, w) | Some f \<Rightarrow> (if of_error f then 1 else 0, w))"

definition fill_fopen_filefunc :: "stdio zlib_filefunc_def" where
  "fill_fopen_filefunc =
     \<lparr>zopen_file = fopen_file_func, zopendisk_file = fopendisk_file_func,
      zread_file = fread_file_func, zwrite_file = fwrite_file_func, ztell_file = ftell_file_func,
      zseek_file = fseek_file_func, zclose_file = fclose_file_func, zerror_file = ferror_file_func\<rparr>"

definition fill_fopen64_filefunc :: "stdio zlib_filefunc64_def" where
  "fill_fopen64_filefunc =
     \<lparr>zopen64_file = Some fopen64_file_func, zopendisk64_file = Some fopendisk64_file_func,
      zread64_file = fread_file_func, zwrite64_file = fwrite_file_func,
      ztell64_file = Some ftell64_file_func, zseek64_file = Some fseek64_file_func,
      zclose64_file = fclose_file_func, zerror64_file = ferror_file_func\<rparr>"

end
