(* ===== verification/Zip_Central.thy ===== *)
theory Zip_Central
  imports Zip_Io
begin

text \<open>
  The first half of \<^verbatim>\<open>unzip.c\<close>: the readers of little-endian numbers, dates, the search for the end of
  the central directory (plain and zip64), opening an archive, and the description of the current
  file from its central directory record.

  The C functions return an error code and store results through pointers; a model returns them
  with the new world. \<open>None\<close> is a call of a NULL function pointer, or the end of the fuel of a loop.
\<close>

unbundle bit_operations_syntax

section \<open>Error codes\<close>

text \<open>The code for the end of a file is the code for success.\<close>

abbreviation (input) UNZ_OK :: int where "UNZ_OK \<equiv> 0"
abbreviation (input) UNZ_EOF :: int where "UNZ_EOF \<equiv> 0"
abbreviation (input) UNZ_END_OF_LIST_OF_FILE :: int where "UNZ_END_OF_LIST_OF_FILE \<equiv> -100"
abbreviation (input) UNZ_ERRNO :: int where "UNZ_ERRNO \<equiv> -1"
abbreviation (input) UNZ_PARAMERROR :: int where "UNZ_PARAMERROR \<equiv> -102"
abbreviation (input) UNZ_BADZIPFILE :: int where "UNZ_BADZIPFILE \<equiv> -103"
abbreviation (input) UNZ_INTERNALERROR :: int where "UNZ_INTERNALERROR \<equiv> -104"
abbreviation (input) UNZ_CRCERROR :: int where "UNZ_CRCERROR \<equiv> -105"

section \<open>Dates\<close>

record tm_unz =
  tm_sec :: u32
  tm_min :: u32
  tm_hour :: u32
  tm_mday :: u32
  tm_mon :: u32
  tm_year :: u32

definition zero_tm :: tm_unz where
  "zero_tm = \<lparr>tm_sec = 0, tm_min = 0, tm_hour = 0, tm_mday = 0, tm_mon = 0, tm_year = 0\<rparr>"

definition unz64local_DosDateToTmuDate :: "u64 \<Rightarrow> tm_unz" where
  "unz64local_DosDateToTmuDate ulDosDate =
     (let uDate = drop_bit 16 ulDosDate;
          ptm = \<lparr>tm_sec = ucast (2 * (ulDosDate AND 0x1f)),
                 tm_min = ucast ((ulDosDate AND 0x7E0) div 0x20),
                 tm_hour = ucast ((ulDosDate AND 0xF800) div 0x800),
                 tm_mday = ucast (uDate AND 0x1f),
                 tm_mon = ucast ((uDate AND 0x1E0) div 0x20 - 1),
                 tm_year = ucast ((uDate AND 0x0FE00) div 0x0200 + 1980)\<rparr> in
      if \<not> (0 \<le> tm_mon ptm \<and> tm_mon ptm \<le> 11) \<or>
         \<not> (1 \<le> tm_mday ptm \<and> tm_mday ptm \<le> 31) \<or>
         \<not> (0 \<le> tm_hour ptm \<and> tm_hour ptm \<le> 23) \<or>
         \<not> (0 \<le> tm_min ptm \<and> tm_min ptm \<le> 59) \<or>
         \<not> (0 \<le> tm_sec ptm \<and> tm_sec ptm \<le> 59)
      then zero_tm else ptm)"

section \<open>Numbers\<close>

definition zread64 :: "'w zlib_filefunc64_32_def \<Rightarrow> addr \<Rightarrow> u64 \<Rightarrow> 'w \<Rightarrow> u64 \<times> byte list \<times> 'w" where
  "zread64 ff filestream n w = zread64_file (zfile_func64 ff) w filestream n"

definition zerror64 :: "'w zlib_filefunc64_32_def \<Rightarrow> addr \<Rightarrow> 'w \<Rightarrow> int \<times> 'w" where
  "zerror64 ff filestream w = zerror64_file (zfile_func64 ff) w filestream"

definition zclose64 :: "'w zlib_filefunc64_32_def \<Rightarrow> addr \<Rightarrow> 'w \<Rightarrow> int \<times> 'w" where
  "zclose64 ff filestream w = zclose64_file (zfile_func64 ff) w filestream"

text \<open>What a read of \<open>n\<close> bytes leaves in the buffer: bytes it did not store are taken to be 0.\<close>

definition buffer_of :: "nat \<Rightarrow> byte list \<Rightarrow> byte list" where
  "buffer_of n bs = take n (bs @ replicate n 0)"

definition unz64local_getByte :: "'w zlib_filefunc64_32_def \<Rightarrow> addr \<Rightarrow> 'w \<Rightarrow> int \<times> byte \<times> 'w" where
  "unz64local_getByte ff filestream w =
     (case zread64 ff filestream 1 w of (err, bs, w) \<Rightarrow>
        if err = 1 then (UNZ_OK, hd (buffer_of 1 bs), w)
        else (case zerror64 ff filestream w of (e, w) \<Rightarrow>
                (if e \<noteq> 0 then UNZ_ERRNO else UNZ_EOF, 0, w)))"

text \<open>
  \<open>unz64local_getShort\<close>, \<open>getLong\<close> and \<open>getLong64\<close> are the same code for two, four and eight bytes: a
  byte is read only if the one before it was, and its bits are put in at the next position.
\<close>

fun get_le :: "'w zlib_filefunc64_32_def \<Rightarrow> addr \<Rightarrow> nat \<Rightarrow> nat \<Rightarrow> u64 \<Rightarrow> 'w \<Rightarrow> int \<times> u64 \<times> 'w" where
  "get_le ff filestream 0 shift x w = (UNZ_OK, x, w)"
| "get_le ff filestream (Suc n) shift x w =
     (case unz64local_getByte ff filestream w of (err, i, w) \<Rightarrow>
        if err = UNZ_OK then get_le ff filestream n (shift + 8) (x OR push_bit shift (ucast i)) w
        else (err, 0, w))"

definition unz64local_getShort :: "'w zlib_filefunc64_32_def \<Rightarrow> addr \<Rightarrow> 'w \<Rightarrow> int \<times> u64 \<times> 'w" where
  "unz64local_getShort ff filestream w = get_le ff filestream 2 0 0 w"

definition unz64local_getLong :: "'w zlib_filefunc64_32_def \<Rightarrow> addr \<Rightarrow> 'w \<Rightarrow> int \<times> u64 \<times> 'w" where
  "unz64local_getLong ff filestream w = get_le ff filestream 4 0 0 w"

definition unz64local_getLong64 :: "'w zlib_filefunc64_32_def \<Rightarrow> addr \<Rightarrow> 'w \<Rightarrow> int \<times> u64 \<times> 'w" where
  "unz64local_getLong64 ff filestream w = get_le ff filestream 8 0 0 w"

text \<open>\<^verbatim>\<open>if (get(..., &x) != UNZ_OK) err = UNZ_ERRNO;\<close> with the error code and the world as the state.\<close>

definition checked :: "('w \<Rightarrow> int \<times> u64 \<times> 'w) \<Rightarrow> int \<times> 'w \<Rightarrow> u64 \<times> int \<times> 'w" where
  "checked get st =
     (case st of (err, w) \<Rightarrow>
        (case get w of (e, x, w) \<Rightarrow> (x, if e \<noteq> UNZ_OK then UNZ_ERRNO else err, w)))"

section \<open>The end of the central directory\<close>

text \<open>The backward scan of the block read from \<open>read_pos\<close> on, for the magic number.\<close>

definition is_magic :: "u64 \<Rightarrow> byte list \<Rightarrow> nat \<Rightarrow> bool" where
  "is_magic magic buf i \<longleftrightarrow>
     buf ! i = ucast magic \<and> buf ! (i + 1) = ucast (drop_bit 8 magic) \<and>
     buf ! (i + 2) = ucast (drop_bit 16 magic) \<and> buf ! (i + 3) = ucast (drop_bit 24 magic)"

abbreviation (input) ENDHEADERMAGIC :: u64 where "ENDHEADERMAGIC \<equiv> 0x06054b50"
abbreviation (input) ZIP64ENDHEADERMAGIC :: u64 where "ZIP64ENDHEADERMAGIC \<equiv> 0x06064b50"
abbreviation (input) ZIP64ENDLOCHEADERMAGIC :: u64 where "ZIP64ENDLOCHEADERMAGIC \<equiv> 0x07064b50"
abbreviation (input) CENTRALHEADERMAGIC :: u64 where "CENTRALHEADERMAGIC \<equiv> 0x02014b50"
abbreviation (input) LOCALHEADERMAGIC :: u64 where "LOCALHEADERMAGIC \<equiv> 0x04034b50"
abbreviation (input) BUFREADCOMMENT :: u64 where "BUFREADCOMMENT \<equiv> 0x400"

fun find_magic :: "byte list \<Rightarrow> nat \<Rightarrow> nat option" where
  "find_magic buf 0 = None"
| "find_magic buf (Suc i) = (if is_magic ENDHEADERMAGIC buf i then Some i else find_magic buf i)"

text \<open>
  The loop over blocks of 1028 bytes, from the end of the file backwards; the fuel is the number of
  turns. \<open>pos_found\<close> is 0 as long as nothing was found.
\<close>

fun search_blocks ::
  "nat \<Rightarrow> 'w zlib_filefunc64_32_def \<Rightarrow> addr \<Rightarrow> u64 \<Rightarrow> u64 \<Rightarrow> u64 \<Rightarrow> 'w \<Rightarrow> (u64 \<times> 'w) option" where
  "search_blocks 0 ff filestream file_size max_back back_read w = None"
| "search_blocks (Suc n) ff filestream file_size max_back back_read w =
     (if \<not> back_read < max_back then Some (0, w)
      else
        let back_read = (if back_read + BUFREADCOMMENT > max_back then max_back
                         else back_read + BUFREADCOMMENT);
            read_pos = file_size - back_read;
            read_size = (if BUFREADCOMMENT + 4 < file_size - read_pos then BUFREADCOMMENT + 4
                         else file_size - read_pos) in
        do {
          (e, w) \<leftarrow> call_zseek64 ff filestream read_pos ZLIB_FILEFUNC_SEEK_SET w;
          if e \<noteq> 0 then Some (0, w)
          else
            (case zread64 ff filestream read_size w of (n_read, bs, w) \<Rightarrow>
               if n_read \<noteq> read_size then Some (0, w)
               else
                 let pos_found = (case find_magic (buffer_of (unat read_size) bs) (unat read_size - 3) of
                                    Some i \<Rightarrow> read_pos + of_nat i | None \<Rightarrow> 0) in
                 if pos_found \<noteq> 0 then Some (pos_found, w)
                 else search_blocks n ff filestream file_size max_back back_read w)
        })"

definition unz64local_SearchCentralDir ::
  "'w zlib_filefunc64_32_def \<Rightarrow> addr \<Rightarrow> 'w \<Rightarrow> (u64 \<times> 'w) option" where
  "unz64local_SearchCentralDir ff filestream w =
     do {
       (e, w) \<leftarrow> call_zseek64 ff filestream 0 ZLIB_FILEFUNC_SEEK_END w;
       if e \<noteq> 0 then Some (0, w)
       else
         do {
           (file_size, w) \<leftarrow> call_ztell64 ff filestream w;
           let max_back = (if 0xffff > file_size then file_size else 0xffff);
           search_blocks 66 ff filestream file_size max_back 4 w
         }
     }"

definition unz64local_SearchCentralDir64 ::
  "'w zlib_filefunc64_32_def \<Rightarrow> addr \<Rightarrow> u64 \<Rightarrow> 'w \<Rightarrow> (u64 \<times> 'w) option" where
  "unz64local_SearchCentralDir64 ff filestream endcentraloffset w =
     do {
       (e, w) \<leftarrow> call_zseek64 ff filestream (endcentraloffset - 0x14) ZLIB_FILEFUNC_SEEK_SET w;
       if e \<noteq> 0 then Some (0, w) else
       (case unz64local_getLong ff filestream w of (e, uL, w) \<Rightarrow>
       if e \<noteq> UNZ_OK \<or> uL \<noteq> ZIP64ENDLOCHEADERMAGIC then Some (0, w) else
       (case unz64local_getLong ff filestream w of (e, uL, w) \<Rightarrow>
       if e \<noteq> UNZ_OK then Some (0, w) else
       (case unz64local_getLong64 ff filestream w of (e, offset, w) \<Rightarrow>
       if e \<noteq> UNZ_OK then Some (0, w) else
       (case unz64local_getLong ff filestream w of (e, uL, w) \<Rightarrow>
       if e \<noteq> UNZ_OK then Some (0, w) else
       do {
         (e, w) \<leftarrow> call_zseek64 ff filestream offset ZLIB_FILEFUNC_SEEK_SET w;
         if e \<noteq> 0 then Some (0, w) else
         (case unz64local_getLong ff filestream w of (e, uL, w) \<Rightarrow>
          if e \<noteq> UNZ_OK \<or> uL \<noteq> ZIP64ENDHEADERMAGIC then Some (0, w) else Some (offset, w))
       }))))
     }"

section \<open>The archive\<close>

record unz_global_info64 =
  number_entry :: u64
  number_disk_with_CD :: u64
  size_comment :: u64

record unz_file_info64 =
  fi_version :: u64
  fi_version_needed :: u64
  fi_flag :: u64
  fi_compression_method :: u64
  fi_dosDate :: u64
  fi_crc :: u64
  fi_compressed_size :: u64
  fi_uncompressed_size :: u64
  fi_size_filename :: u64
  fi_size_file_extra :: u64
  fi_size_file_comment :: u64
  fi_disk_num_start :: u64
  fi_internal_fa :: u64
  fi_external_fa :: u64
  fi_tmu_date :: tm_unz
  fi_disk_offset :: u64
  fi_size_file_extra_internal :: u64

definition zero_file_info :: unz_file_info64 where
  "zero_file_info = \<lparr>fi_version = 0, fi_version_needed = 0, fi_flag = 0, fi_compression_method = 0,
     fi_dosDate = 0, fi_crc = 0, fi_compressed_size = 0, fi_uncompressed_size = 0,
     fi_size_filename = 0, fi_size_file_extra = 0, fi_size_file_comment = 0, fi_disk_num_start = 0,
     fi_internal_fa = 0, fi_external_fa = 0, fi_tmu_date = zero_tm, fi_disk_offset = 0,
     fi_size_file_extra_internal = 0\<rparr>"

record unz_file_info64_internal =
  offset_curfile :: u64
  fi_byte_before_the_zipfile :: u64

text \<open>
  The state of \<^verbatim>\<open>zlib\<close>'s \<^verbatim>\<open>z_stream\<close> that \<^verbatim>\<open>unzip.c\<close> touches. \<open>next_in\<close> is an offset into the read
  buffer, \<open>None\<close> for NULL; \<open>'z\<close> is what \<^verbatim>\<open>zlib\<close> keeps behind it. The fields \<^verbatim>\<open>next_out\<close> and \<^verbatim>\<open>avail_out\<close>
  live only during a read and are variables there. Of \<^verbatim>\<open>read_buffer\<close> the bytes are kept.
\<close>

record 'z file_in_zip64_read_info_s =
  read_buffer :: "byte list"
  zs_next_in :: "nat option"
  zs_avail_in :: u32
  zs_total_out :: u64
  zs_state :: 'z
  pos_in_zipfile :: u64
  stream_initialised :: u64
  offset_local_extrafield :: u64
  size_local_extrafield :: u32
  pos_local_extrafield :: u64
  total_out_64 :: u64
  ri_crc32 :: u64
  crc32_wait :: u64
  rest_read_compressed :: u64
  rest_read_uncompressed :: u64
  ri_filestream :: addr
  ri_compression_method :: u64
  ri_byte_before_the_zipfile :: u64
  ri_raw :: bool

text \<open>
  \<open>us_keys\<close> and \<open>us_pcrc_32_tab\<close> are the decryption keys and the CRC table (\<open>None\<close> for NULL). The
  pointer to the archive's structure is the structure itself, and \<open>None\<close> for NULL.
\<close>

record ('w, 'z) unz64_s =
  z_filefunc :: "'w zlib_filefunc64_32_def"
  filestream :: addr
  filestream_with_CD :: addr
  gi :: unz_global_info64
  byte_before_the_zipfile :: u64
  num_file :: u64
  pos_in_central_dir :: u64
  current_file_ok :: bool
  central_pos :: u64
  number_disk :: u64
  size_central_dir :: u64
  offset_central_dir :: u64
  cur_file_info :: unz_file_info64
  cur_file_info_internal :: unz_file_info64_internal
  pfile_in_zip_read :: "'z file_in_zip64_read_info_s option"
  isZip64 :: bool
  us_keys :: "u64 \<times> u64 \<times> u64"
  us_pcrc_32_tab :: "(nat \<Rightarrow> u64) option"

section \<open>The central directory record of the current file\<close>

text \<open>\<^verbatim>\<open>if (lSeek != 0) { if (ZSEEK64(..., lSeek, SEEK_CUR) == 0) lSeek = 0; else err = UNZ_ERRNO; }\<close>\<close>

definition seek_forward ::
  "'w zlib_filefunc64_32_def \<Rightarrow> addr \<Rightarrow> u64 \<Rightarrow> int \<Rightarrow> 'w \<Rightarrow> (u64 \<times> int \<times> 'w) option" where
  "seek_forward ff h lSeek err w =
     (if lSeek \<noteq> 0 then
        do {
          (e, w) \<leftarrow> call_zseek64 ff h lSeek ZLIB_FILEFUNC_SEEK_CUR w;
          Some (if e = 0 then (0, err, w) else (lSeek, UNZ_ERRNO, w))
        }
      else Some (lSeek, err, w))"

text \<open>
  \<^verbatim>\<open>if (... > 0 && ... > 0) if (ZREAD64(..., n) != n) err = UNZ_ERRNO;\<close> with the bytes that were stored.
\<close>

definition read_part ::
  "'w zlib_filefunc64_32_def \<Rightarrow> addr \<Rightarrow> bool \<Rightarrow> u64 \<Rightarrow> int \<Rightarrow> 'w \<Rightarrow> byte list \<times> int \<times> 'w" where
  "read_part ff h wanted n err w =
     (if wanted then
        (case zread64 ff h n w of (k, bs, w) \<Rightarrow> (take (unat n) bs, if k \<noteq> n then UNZ_ERRNO else err, w))
      else ([], err, w))"

text \<open>The loop over the extra fields; every turn adds at least four to \<open>acc\<close>.\<close>

fun extra_fields ::
  "nat \<Rightarrow> 'w zlib_filefunc64_32_def \<Rightarrow> addr \<Rightarrow> u64 \<Rightarrow> unz_file_info64 \<Rightarrow> u64 \<Rightarrow> int \<Rightarrow> 'w \<Rightarrow>
   (unz_file_info64 \<times> u64 \<times> int \<times> 'w) option" where
  "extra_fields 0 ff h acc fi offset err w = None"
| "extra_fields (Suc n) ff h acc fi offset err w =
     (if err \<noteq> UNZ_ERRNO \<and> acc < fi_size_file_extra fi then
        let (headerid, st) = checked (unz64local_getShort ff h) (err, w);
            (datasize, err, w) = checked (unz64local_getShort ff h) st in
        if headerid = 0x0001 then
          let fi = fi\<lparr>fi_size_file_extra_internal := fi_size_file_extra_internal fi + (2 + 2 + datasize)\<rparr>;
              (usize, err, w) =
                (if fi_uncompressed_size fi = 0xffffffff then checked (unz64local_getLong64 ff h) (err, w)
                 else (fi_uncompressed_size fi, err, w));
              (csize, err, w) =
                (if fi_compressed_size fi = 0xffffffff then checked (unz64local_getLong64 ff h) (err, w)
                 else (fi_compressed_size fi, err, w));
              (offset', err, w) =
                (if offset = 0xffffffff then checked (unz64local_getLong64 ff h) (err, w)
                 else (offset, err, w));
              (disk, err, w) =
                (if fi_disk_num_start fi = 0xffffffff then checked (unz64local_getLong ff h) (err, w)
                 else (fi_disk_num_start fi, err, w)) in
          extra_fields n ff h (acc + (2 + 2 + datasize))
            (fi\<lparr>fi_uncompressed_size := usize, fi_compressed_size := csize,
                fi_disk_offset := (if offset = 0xffffffff then offset' else fi_disk_offset fi),
                fi_disk_num_start := disk\<rparr>)
            offset' err w
        else
          do {
            (e, w) \<leftarrow> call_zseek64 ff h datasize ZLIB_FILEFUNC_SEEK_CUR w;
            extra_fields n ff h (acc + (2 + 2 + datasize)) fi offset (if e \<noteq> 0 then UNZ_ERRNO else err) w
          }
      else Some (fi, offset, err, w))"

text \<open>The fixed part of the record, after its magic number: forty-two bytes.\<close>

definition read_central_fields ::
  "'w zlib_filefunc64_32_def \<Rightarrow> addr \<Rightarrow> int \<times> 'w \<Rightarrow> unz_file_info64 \<times> u64 \<times> int \<times> 'w" where
  "read_central_fields ff h st =
     (let (version, st) = checked (unz64local_getShort ff h) st;
          (version_needed, st) = checked (unz64local_getShort ff h) st;
          (flag, st) = checked (unz64local_getShort ff h) st;
          (compression_method, st) = checked (unz64local_getShort ff h) st;
          (dosDate, st) = checked (unz64local_getLong ff h) st;
          (crc, st) = checked (unz64local_getLong ff h) st;
          (csize, st) = checked (unz64local_getLong ff h) st;
          (usize, st) = checked (unz64local_getLong ff h) st;
          (size_filename, st) = checked (unz64local_getShort ff h) st;
          (size_file_extra, st) = checked (unz64local_getShort ff h) st;
          (size_file_comment, st) = checked (unz64local_getShort ff h) st;
          (disk_num_start, st) = checked (unz64local_getShort ff h) st;
          (internal_fa, st) = checked (unz64local_getShort ff h) st;
          (external_fa, st) = checked (unz64local_getLong ff h) st;
          (uL, err, w) = checked (unz64local_getLong ff h) st in
      (\<lparr>fi_version = version, fi_version_needed = version_needed, fi_flag = flag,
        fi_compression_method = compression_method, fi_dosDate = dosDate, fi_crc = crc,
        fi_compressed_size = csize, fi_uncompressed_size = usize, fi_size_filename = size_filename,
        fi_size_file_extra = size_file_extra, fi_size_file_comment = size_file_comment,
        fi_disk_num_start = disk_num_start, fi_internal_fa = internal_fa, fi_external_fa = external_fa,
        fi_tmu_date = unz64local_DosDateToTmuDate dosDate, fi_disk_offset = uL,
        fi_size_file_extra_internal = 0\<rparr>, uL, err, w))"

text \<open>
  A caller's buffer is given by its size, \<open>None\<close> for NULL. What is stored in it are the bytes of the
  field that fit, with the terminating 0 of the file name and the comment where there is room.
\<close>

record info_buffers =
  ib_filename :: "byte list"
  ib_extrafield :: "byte list"
  ib_comment :: "byte list"

definition part_length :: "u64 \<Rightarrow> u64 \<Rightarrow> u64" where
  "part_length field_size buffer_size = (if field_size < buffer_size then field_size else buffer_size)"

definition terminated :: "u64 \<Rightarrow> u64 \<Rightarrow> byte list \<Rightarrow> byte list" where
  "terminated field_size buffer_size bs =
     (if field_size < buffer_size then buffer_of (unat field_size) bs @ [0] else bs)"

text \<open>The stages of \<open>GetCurrentFileInfoInternal\<close> after the fixed part; \<open>lSeek\<close> is what is left to skip.\<close>

definition info_filename ::
  "'w zlib_filefunc64_32_def \<Rightarrow> addr \<Rightarrow> unz_file_info64 \<Rightarrow> u64 option \<Rightarrow> u64 \<Rightarrow> int \<Rightarrow> 'w \<Rightarrow>
   byte list \<times> u64 \<times> int \<times> 'w" where
  "info_filename ff h fi filename lSeek err w =
     (let lSeek = lSeek + fi_size_filename fi in
      case filename of
        Some filename_size \<Rightarrow>
          if err = UNZ_OK then
            let bytes_to_read = part_length (fi_size_filename fi) filename_size;
                (bs, err, w) = read_part ff h (fi_size_filename fi > 0 \<and> filename_size > 0) bytes_to_read err w in
            (terminated (fi_size_filename fi) filename_size bs, lSeek - bytes_to_read, err, w)
          else ([], lSeek, err, w)
      | None \<Rightarrow> ([], lSeek, err, w))"

definition info_extrafield ::
  "'w zlib_filefunc64_32_def \<Rightarrow> addr \<Rightarrow> unz_file_info64 \<Rightarrow> u64 option \<Rightarrow> u64 \<Rightarrow> int \<Rightarrow> 'w \<Rightarrow>
   (byte list \<times> u64 \<times> int \<times> 'w) option" where
  "info_extrafield ff h fi extrafield lSeek err w =
     (case (if err = UNZ_OK then extrafield else None) of
        Some extrafield_size \<Rightarrow>
          let bytes_to_read = part_length (fi_size_file_extra fi) extrafield_size in
          do {
            (lSeek, err, w) \<leftarrow> seek_forward ff h lSeek err w;
            let (bs, err, w) = read_part ff h (fi_size_file_extra fi > 0 \<and> extrafield_size > 0) bytes_to_read err w;
            Some (bs, lSeek + (fi_size_file_extra fi - bytes_to_read), err, w)
          }
      | None \<Rightarrow> Some ([], lSeek + fi_size_file_extra fi, err, w))"

text \<open>The extra fields are parsed from their start again. A 16-bit size is at most 16383 turns.\<close>

definition info_parse_extra ::
  "'w zlib_filefunc64_32_def \<Rightarrow> addr \<Rightarrow> unz_file_info64 \<Rightarrow> u64 \<Rightarrow> u64 \<Rightarrow> int \<Rightarrow> 'w \<Rightarrow>
   (unz_file_info64 \<times> u64 \<times> u64 \<times> int \<times> 'w) option" where
  "info_parse_extra ff h fi offset lSeek err w =
     (if err = UNZ_OK \<and> fi_size_file_extra fi \<noteq> 0 then
        do {
          (lSeek, err, w) \<leftarrow> seek_forward ff h lSeek err w;
          (current_pos, w) \<leftarrow> call_ztell64 ff h w;
          let err = (if current_pos < fi_size_file_extra fi then UNZ_ERRNO else err);
          (e, w) \<leftarrow> call_zseek64 ff h (current_pos - fi_size_file_extra fi) ZLIB_FILEFUNC_SEEK_SET w;
          (fi, offset, err, w) \<leftarrow>
            extra_fields (unat (fi_size_file_extra fi) div 4 + 2) ff h 0 fi offset (if e \<noteq> 0 then UNZ_ERRNO else err) w;
          Some (fi, offset, lSeek, err, w)
        }
      else Some (fi, offset, lSeek, err, w))"

definition info_comment ::
  "'w zlib_filefunc64_32_def \<Rightarrow> addr \<Rightarrow> unz_file_info64 \<Rightarrow> u64 option \<Rightarrow> u64 \<Rightarrow> int \<Rightarrow> 'w \<Rightarrow>
   (byte list \<times> int \<times> 'w) option" where
  "info_comment ff h fi comment lSeek err w =
     (case (if err = UNZ_OK then comment else None) of
        Some comment_size \<Rightarrow>
          let bytes_to_read = part_length (fi_size_file_comment fi) comment_size in
          do {
            (_, err, w) \<leftarrow> seek_forward ff h lSeek err w;
            let (bs, err, w) = read_part ff h (fi_size_file_comment fi > 0 \<and> comment_size > 0) bytes_to_read err w;
            Some (terminated (fi_size_file_comment fi) comment_size bs, err, w)
          }
      | None \<Rightarrow> Some ([], err, w))"

definition unz64local_GetCurrentFileInfoInternal ::
  "('w, 'z) unz64_s \<Rightarrow> u64 option \<Rightarrow> u64 option \<Rightarrow> u64 option \<Rightarrow> 'w \<Rightarrow>
   (int \<times> unz_file_info64 \<times> unz_file_info64_internal \<times> info_buffers \<times> 'w) option" where
  "unz64local_GetCurrentFileInfoInternal s filename extrafield comment w =
     (let ff = z_filefunc s; h = filestream_with_CD s in
      do {
        (e, w) \<leftarrow> call_zseek64 ff h (pos_in_central_dir s + byte_before_the_zipfile s) ZLIB_FILEFUNC_SEEK_SET w;
        let (err, w) =
          (if e \<noteq> 0 then (UNZ_ERRNO, w)
           else (case unz64local_getLong ff h w of (e, uMagic, w) \<Rightarrow>
                   (if e \<noteq> UNZ_OK then UNZ_ERRNO
                    else if uMagic \<noteq> CENTRALHEADERMAGIC then UNZ_BADZIPFILE else UNZ_OK, w)));
        let (fi, offset, err, w) = read_central_fields ff h (err, w);
        let (name, lSeek, err, w) = info_filename ff h fi filename 0 err w;
        (extra, lSeek, err, w) \<leftarrow> info_extrafield ff h fi extrafield lSeek err w;
        (fi, offset, lSeek, err, w) \<leftarrow> info_parse_extra ff h fi offset lSeek err w;
        let before = (if fi_disk_num_start fi = number_disk_with_CD (gi s)
                      then byte_before_the_zipfile s else 0);
        (cmt, err, w) \<leftarrow> info_comment ff h fi comment lSeek err w;
        Some (err, fi, \<lparr>offset_curfile = offset, fi_byte_before_the_zipfile = before\<rparr>,
          \<lparr>ib_filename = name, ib_extrafield = extra, ib_comment = cmt\<rparr>, w)
      })"

section \<open>Moving through the archive\<close>

text \<open>
  The results of a failed read are not stored: the archive keeps the description it had. The
  moves differ in the position and the number of the file they go to.
\<close>

definition load_current_file ::
  "('w, 'z) unz64_s \<Rightarrow> u64 option \<Rightarrow> u64 option \<Rightarrow> u64 option \<Rightarrow> 'w \<Rightarrow>
   (int \<times> info_buffers \<times> ('w, 'z) unz64_s \<times> 'w) option" where
  "load_current_file s filename extrafield comment w =
     do {
       (err, fi, fii, bufs, w) \<leftarrow> unz64local_GetCurrentFileInfoInternal s filename extrafield comment w;
       let s = (if err = UNZ_OK then s\<lparr>cur_file_info := fi, cur_file_info_internal := fii\<rparr> else s);
       Some (err, bufs, s\<lparr>current_file_ok := (err = UNZ_OK)\<rparr>, w)
     }"

definition unzGoToFirstFile2 ::
  "('w, 'z) unz64_s \<Rightarrow> u64 option \<Rightarrow> u64 option \<Rightarrow> u64 option \<Rightarrow> 'w \<Rightarrow>
   (int \<times> info_buffers \<times> ('w, 'z) unz64_s \<times> 'w) option" where
  "unzGoToFirstFile2 s filename extrafield comment w =
     load_current_file (s\<lparr>pos_in_central_dir := offset_central_dir s, num_file := 0\<rparr>)
       filename extrafield comment w"

definition unzGoToFirstFile :: "('w, 'z) unz64_s \<Rightarrow> 'w \<Rightarrow> (int \<times> ('w, 'z) unz64_s \<times> 'w) option" where
  "unzGoToFirstFile s w =
     map_option (\<lambda>(err, _, s, w). (err, s, w)) (unzGoToFirstFile2 s None None None w)"

definition no_buffers :: info_buffers where
  "no_buffers = \<lparr>ib_filename = [], ib_extrafield = [], ib_comment = []\<rparr>"

definition unzGoToNextFile2 ::
  "('w, 'z) unz64_s \<Rightarrow> u64 option \<Rightarrow> u64 option \<Rightarrow> u64 option \<Rightarrow> 'w \<Rightarrow>
   (int \<times> info_buffers \<times> ('w, 'z) unz64_s \<times> 'w) option" where
  "unzGoToNextFile2 s filename extrafield comment w =
     (if \<not> current_file_ok s then Some (UNZ_END_OF_LIST_OF_FILE, no_buffers, s, w)
      else if number_entry (gi s) \<noteq> 0xffff \<and> num_file s + 1 = number_entry (gi s)
        then Some (UNZ_END_OF_LIST_OF_FILE, no_buffers, s, w)
      else
        let fi = cur_file_info s in
        load_current_file
          (s\<lparr>pos_in_central_dir := pos_in_central_dir s +
               (0x2e + fi_size_filename fi + fi_size_file_extra fi + fi_size_file_comment fi),
             num_file := num_file s + 1\<rparr>)
          filename extrafield comment w)"

definition unzGoToNextFile :: "('w, 'z) unz64_s \<Rightarrow> 'w \<Rightarrow> (int \<times> ('w, 'z) unz64_s \<times> 'w) option" where
  "unzGoToNextFile s w =
     map_option (\<lambda>(err, _, s, w). (err, s, w)) (unzGoToNextFile2 s None None None w)"

text \<open>The string in a buffer ends at its first zero byte.\<close>

definition c_string :: "byte list \<Rightarrow> byte list" where
  "c_string bs = takeWhile (\<lambda>b. b \<noteq> 0) bs"

text \<open>
  The loop of \<open>unzLocateFile\<close>. \<open>compare\<close> is the caller's function or \<^verbatim>\<open>strcmp\<close>; the buffer for the
  names has 257 bytes of which 256 are announced, and its last byte is taken to be 0. The fuel
  bounds the number of files.
\<close>

fun locate_loop ::
  "nat \<Rightarrow> (byte list \<Rightarrow> int) \<Rightarrow> int \<Rightarrow> byte list \<Rightarrow> ('w, 'z) unz64_s \<Rightarrow> 'w \<Rightarrow>
   (int \<times> ('w, 'z) unz64_s \<times> 'w) option" where
  "locate_loop 0 compare err name s w = None"
| "locate_loop (Suc n) compare err name s w =
     (if err \<noteq> UNZ_OK then Some (err, s, w)
      else if compare (c_string name) = 0 then Some (UNZ_OK, s, w)
      else
        do {
          (err, bufs, s, w) \<leftarrow> unzGoToNextFile2 s (Some 256) None None w;
          locate_loop n compare err (ib_filename bufs) s w
        })"

definition unzLocateFile ::
  "nat \<Rightarrow> ('w, 'z) unz64_s \<Rightarrow> byte list \<Rightarrow> (byte list \<Rightarrow> byte list \<Rightarrow> int) \<Rightarrow> 'w \<Rightarrow>
   (int \<times> ('w, 'z) unz64_s \<times> 'w) option" where
  "unzLocateFile n s name compare w =
     (if length name \<ge> 256 then Some (UNZ_PARAMERROR, s, w)
      else if \<not> current_file_ok s then Some (UNZ_END_OF_LIST_OF_FILE, s, w)
      else
        do {
          (err, bufs, s', w) \<leftarrow> unzGoToFirstFile2 s (Some 256) None None w;
          (err, s', w) \<leftarrow> locate_loop n (\<lambda>cur. compare cur name) err (ib_filename bufs) s' w;
          Some (err,
            if err = UNZ_OK then s'
            else s'\<lparr>num_file := num_file s, pos_in_central_dir := pos_in_central_dir s,
                    cur_file_info := cur_file_info s, cur_file_info_internal := cur_file_info_internal s\<rparr>, w)
        })"

text \<open>The public views of the record; the 32-bit one hides the extra fields handled internally.\<close>

definition unzGetCurrentFileInfo64 ::
  "('w, 'z) unz64_s \<Rightarrow> u64 option \<Rightarrow> u64 option \<Rightarrow> u64 option \<Rightarrow> 'w \<Rightarrow>
   (int \<times> unz_file_info64 \<times> info_buffers \<times> 'w) option" where
  "unzGetCurrentFileInfo64 s filename extrafield comment w =
     map_option (\<lambda>(err, fi, _, bufs, w). (err, fi, bufs, w))
       (unz64local_GetCurrentFileInfoInternal s filename extrafield comment w)"

definition unzGetCurrentFileInfo ::
  "('w, 'z) unz64_s \<Rightarrow> u64 option \<Rightarrow> u64 option \<Rightarrow> u64 option \<Rightarrow> 'w \<Rightarrow>
   (int \<times> unz_file_info64 \<times> info_buffers \<times> 'w) option" where
  "unzGetCurrentFileInfo s filename extrafield comment w =
     map_option (\<lambda>(err, fi, _, bufs, w).
         (err, fi\<lparr>fi_size_file_extra := fi_size_file_extra fi - fi_size_file_extra_internal fi\<rparr>, bufs, w))
       (unz64local_GetCurrentFileInfoInternal s filename extrafield comment w)"

record unz64_file_pos =
  pos_in_zip_directory :: u64
  num_of_file :: u64

definition unzGetFilePos64 :: "('w, 'z) unz64_s \<Rightarrow> int \<times> unz64_file_pos option" where
  "unzGetFilePos64 s =
     (if \<not> current_file_ok s then (UNZ_END_OF_LIST_OF_FILE, None)
      else (UNZ_OK, Some \<lparr>pos_in_zip_directory = pos_in_central_dir s, num_of_file = num_file s\<rparr>))"

definition unzGoToFilePos64 ::
  "('w, 'z) unz64_s \<Rightarrow> unz64_file_pos \<Rightarrow> 'w \<Rightarrow> (int \<times> ('w, 'z) unz64_s \<times> 'w) option" where
  "unzGoToFilePos64 s file_pos w =
     map_option (\<lambda>(err, _, s, w). (err, s, w))
       (load_current_file
         (s\<lparr>pos_in_central_dir := pos_in_zip_directory file_pos, num_file := num_of_file file_pos\<rparr>)
         None None None w)"

definition unzGetOffset64 :: "('w, 'z) unz64_s \<Rightarrow> u64" where
  "unzGetOffset64 s =
     (if \<not> current_file_ok s then 0
      else if number_entry (gi s) \<noteq> 0 \<and> number_entry (gi s) \<noteq> 0xffff \<and> num_file s = number_entry (gi s) then 0
      else pos_in_central_dir s)"

definition unzSetOffset64 :: "('w, 'z) unz64_s \<Rightarrow> u64 \<Rightarrow> 'w \<Rightarrow> (int \<times> ('w, 'z) unz64_s \<times> 'w) option" where
  "unzSetOffset64 s pos w =
     map_option (\<lambda>(err, _, s, w). (err, s, w))
       (load_current_file (s\<lparr>pos_in_central_dir := pos, num_file := number_entry (gi s)\<rparr>) None None None w)"

text \<open>
  The first versions of these functions. An \<^verbatim>\<open>uLong\<close> has 64 bits, so that the casts from and to
  \<^verbatim>\<open>ZPOS64_T\<close> keep the value and \<^verbatim>\<open>unz_file_pos\<close> is \<^verbatim>\<open>unz64_file_pos\<close> again; \<open>None\<close> is a NULL position.
\<close>

definition unzGetFilePos :: "('w, 'z) unz64_s \<Rightarrow> int \<times> unz64_file_pos option" where
  "unzGetFilePos s = unzGetFilePos64 s"

definition unzGoToFilePos ::
  "('w, 'z) unz64_s \<Rightarrow> unz64_file_pos option \<Rightarrow> 'w \<Rightarrow> (int \<times> ('w, 'z) unz64_s \<times> 'w) option" where
  "unzGoToFilePos s file_pos w =
     (case file_pos of
        None \<Rightarrow> Some (UNZ_PARAMERROR, s, w)
      | Some pos \<Rightarrow>
          unzGoToFilePos64 s \<lparr>pos_in_zip_directory = pos_in_zip_directory pos, num_of_file = num_of_file pos\<rparr> w)"

definition unzGetOffset :: "('w, 'z) unz64_s \<Rightarrow> u64" where
  "unzGetOffset s = unzGetOffset64 s"

definition unzSetOffset :: "('w, 'z) unz64_s \<Rightarrow> u64 \<Rightarrow> 'w \<Rightarrow> (int \<times> ('w, 'z) unz64_s \<times> 'w) option" where
  "unzSetOffset s pos w = unzSetOffset64 s pos w"

section \<open>Opening an archive\<close>

text \<open>The fields of the end record that the search found, and what is checked on the way.\<close>

record end_record =
  er_number_disk :: u64
  er_gi :: unz_global_info64
  er_size_central_dir :: u64
  er_offset_central_dir :: u64

definition read_end_record ::
  "'w zlib_filefunc64_32_def \<Rightarrow> addr \<Rightarrow> int \<times> 'w \<Rightarrow> end_record \<times> int \<times> 'w" where
  "read_end_record ff h st =
     (let (uL, st) = checked (unz64local_getLong ff h) st;
          (disk, st) = checked (unz64local_getShort ff h) st;
          (disk_CD, st) = checked (unz64local_getShort ff h) st;
          (entries, st) = checked (unz64local_getShort ff h) st;
          (number_entry_CD, err, w) = checked (unz64local_getShort ff h) st;
          err = (if number_entry_CD \<noteq> entries then UNZ_BADZIPFILE else err);
          (cd_size, st) = checked (unz64local_getLong ff h) (err, w);
          (cd_offset, st) = checked (unz64local_getLong ff h) st;
          (comment, err, w) = checked (unz64local_getShort ff h) st in
      (\<lparr>er_number_disk = disk,
        er_gi = \<lparr>number_entry = entries, number_disk_with_CD = disk_CD, size_comment = comment\<rparr>,
        er_size_central_dir = cd_size, er_offset_central_dir = cd_offset\<rparr>, err, w))"

definition read_end_record64 ::
  "'w zlib_filefunc64_32_def \<Rightarrow> addr \<Rightarrow> end_record \<Rightarrow> int \<times> 'w \<Rightarrow> end_record \<times> int \<times> 'w" where
  "read_end_record64 ff h er st =
     (let (uL, st) = checked (unz64local_getLong ff h) st;
          (uL64, st) = checked (unz64local_getLong64 ff h) st;
          (uL, st) = checked (unz64local_getShort ff h) st;
          (uL, st) = checked (unz64local_getShort ff h) st;
          (disk, st) = checked (unz64local_getLong ff h) st;
          (disk_CD, st) = checked (unz64local_getLong ff h) st;
          (entries, st) = checked (unz64local_getLong64 ff h) st;
          (number_entry_CD, err, w) = checked (unz64local_getLong64 ff h) st;
          err = (if number_entry_CD \<noteq> entries then UNZ_BADZIPFILE else err);
          (cd_size, st) = checked (unz64local_getLong64 ff h) (err, w);
          (cd_offset, err, w) = checked (unz64local_getLong64 ff h) st in
      (er\<lparr>er_number_disk := disk,
          er_gi := (er_gi er)\<lparr>number_entry := entries, number_disk_with_CD := disk_CD\<rparr>,
          er_size_central_dir := cd_size, er_offset_central_dir := cd_offset\<rparr>, err, w))"

text \<open>The test for zip64 as the source has it: the size of the directory is compared with \<^verbatim>\<open>0xffff\<close>.\<close>

definition wants_zip64 :: "end_record \<Rightarrow> bool" where
  "wants_zip64 er \<longleftrightarrow> number_entry (er_gi er) = 0xffff \<or> er_size_central_dir er = 0xffff \<or>
     er_offset_central_dir er = 0xffffffff"

text \<open>The position of the directory's end, the end record and the error code.\<close>

definition find_central_dir ::
  "'w zlib_filefunc64_32_def \<Rightarrow> addr \<Rightarrow> 'w \<Rightarrow> (u64 \<times> end_record \<times> bool \<times> int \<times> 'w) option" where
  "find_central_dir ff h w =
     (let none = \<lparr>er_number_disk = 0, er_gi = \<lparr>number_entry = 0, number_disk_with_CD = 0, size_comment = 0\<rparr>,
                  er_size_central_dir = 0, er_offset_central_dir = 0\<rparr> in
      do {
        (pos, w) \<leftarrow> unz64local_SearchCentralDir ff h w;
        if pos = 0 then Some (pos, none, False, UNZ_ERRNO, w)
        else
          do {
            (e, w) \<leftarrow> call_zseek64 ff h pos ZLIB_FILEFUNC_SEEK_SET w;
            let (er, err, w) = read_end_record ff h (if e \<noteq> 0 then UNZ_ERRNO else UNZ_OK, w);
            if err = UNZ_OK \<and> wants_zip64 er then
              do {
                (pos, w) \<leftarrow> unz64local_SearchCentralDir64 ff h pos w;
                if pos = 0 then Some (pos, er, False, UNZ_BADZIPFILE, w)
                else
                  do {
                    (e, w) \<leftarrow> call_zseek64 ff h pos ZLIB_FILEFUNC_SEEK_SET w;
                    let (er, err, w) = read_end_record64 ff h er (if e \<noteq> 0 then UNZ_ERRNO else err, w);
                    Some (pos, er, True, err, w)
                  }
              }
            else Some (pos, er, False, err, w)
          }
      })"

text \<open>
  \<open>unzOpenInternal\<close> gives the archive or \<open>None\<close> for NULL. Fields that the C structure leaves
  uninitialised until the first file is read are 0.
\<close>

definition unzOpenInternal ::
  "string option \<Rightarrow> 'w zlib_filefunc64_32_def \<Rightarrow> 'w \<Rightarrow> (('w, 'z) unz64_s option \<times> 'w) option" where
  "unzOpenInternal path ff w =
     (let mode = ZLIB_FILEFUNC_MODE_READ OR ZLIB_FILEFUNC_MODE_EXISTING in
      do {
        (h, w) \<leftarrow> call_zopen64 ff path mode w;
        if h = 0 then Some (None, w)
        else
          do {
            (pos, er, zip64, err, w) \<leftarrow> find_central_dir ff h w;
            let err = (if err = UNZ_OK \<and> pos < er_offset_central_dir er + er_size_central_dir er
                       then UNZ_BADZIPFILE else err);
            if err \<noteq> UNZ_OK then Some (None, snd (zclose64 ff h w))
            else
              do {
                (h', w) \<leftarrow> (if number_disk_with_CD (er_gi er) = 0 then call_zopen64 ff path mode w else Some (0, w));
                let s = \<lparr>z_filefunc = ff, filestream = (if h' \<noteq> 0 then h' else h), filestream_with_CD = h,
                  gi = er_gi er,
                  byte_before_the_zipfile = pos - (er_offset_central_dir er + er_size_central_dir er),
                  num_file = 0, pos_in_central_dir = 0, current_file_ok = False, central_pos = pos,
                  number_disk = er_number_disk er, size_central_dir = er_size_central_dir er,
                  offset_central_dir = er_offset_central_dir er, cur_file_info = zero_file_info,
                  cur_file_info_internal = \<lparr>offset_curfile = 0, fi_byte_before_the_zipfile = 0\<rparr>,
                  pfile_in_zip_read = None, isZip64 = zip64, us_keys = (0, 0, 0), us_pcrc_32_tab = None\<rparr>;
                (_, s, w) \<leftarrow> unzGoToFirstFile s w;
                Some (Some s, w)
              }
          }
      })"

definition unzOpen2 :: "string option \<Rightarrow> 'w zlib_filefunc_def \<Rightarrow> 'w \<Rightarrow> (('w, 'z) unz64_s option \<times> 'w) option" where
  "unzOpen2 path ff32 w = unzOpenInternal path (fill_zlib_filefunc64_32_def_from_filefunc32 ff32) w"

definition table64 :: "'w zlib_filefunc64_def \<Rightarrow> 'w zlib_filefunc64_32_def" where
  "table64 ff64 = \<lparr>zfile_func64 = ff64, zopen32_file = None, zopendisk32_file = None, ztell32_file = None,
     zseek32_file = None\<rparr>"

definition unzOpen2_64 :: "string option \<Rightarrow> 'w zlib_filefunc64_def \<Rightarrow> 'w \<Rightarrow> (('w, 'z) unz64_s option \<times> 'w) option" where
  "unzOpen2_64 path ff64 w = unzOpenInternal path (table64 ff64) w"

definition unzOpen64 :: "string option \<Rightarrow> stdio \<Rightarrow> ((stdio, 'z) unz64_s option \<times> stdio) option" where
  "unzOpen64 path w = unzOpenInternal path (table64 fill_fopen64_filefunc) w"

definition unzOpen :: "string option \<Rightarrow> stdio \<Rightarrow> ((stdio, 'z) unz64_s option \<times> stdio) option" where
  "unzOpen path w = unzOpenInternal path (table64 fill_fopen64_filefunc) w"

section \<open>Global information and disks\<close>

definition unzGetGlobalInfo64 :: "('w, 'z) unz64_s \<Rightarrow> int \<times> unz_global_info64" where
  "unzGetGlobalInfo64 s = (UNZ_OK, gi s)"

text \<open>The first version fills a structure of \<^verbatim>\<open>uLong\<close>s, which have 64 bits too.\<close>

definition unzGetGlobalInfo :: "('w, 'z) unz64_s \<Rightarrow> int \<times> unz_global_info64" where
  "unzGetGlobalInfo s =
     (UNZ_OK, \<lparr>number_entry = number_entry (gi s), number_disk_with_CD = number_disk_with_CD (gi s),
               size_comment = size_comment (gi s)\<rparr>)"

text \<open>
  The comment is stored in a buffer of \<open>comment_size\<close> bytes that is not NULL; what is stored are
  the bytes read and a terminator where there is room.
\<close>

definition unzGetGlobalComment :: "('w, 'z) unz64_s \<Rightarrow> u64 \<Rightarrow> 'w \<Rightarrow> (int \<times> byte list \<times> 'w) option" where
  "unzGetGlobalComment s comment_size w =
     (let bytes_to_read = (if comment_size > size_comment (gi s) then size_comment (gi s) else comment_size) in
      do {
        (e, w) \<leftarrow> call_zseek64 (z_filefunc s) (filestream_with_CD s) (central_pos s + 22) ZLIB_FILEFUNC_SEEK_SET w;
        if e \<noteq> 0 then Some (UNZ_ERRNO, [], w)
        else
          (case read_part (z_filefunc s) (filestream_with_CD s) (bytes_to_read > 0) bytes_to_read UNZ_OK w of
             (bs, err, w) \<Rightarrow>
               if err \<noteq> UNZ_OK then Some (UNZ_ERRNO, bs, w)
               else Some (uint bytes_to_read, terminated (size_comment (gi s)) comment_size bs, w))
      })"

definition unzGoToNextDisk :: "('w, 'z) unz64_s \<Rightarrow> 'w \<Rightarrow> (int \<times> ('w, 'z) unz64_s \<times> 'w) option" where
  "unzGoToNextDisk s w =
     (let number_disk_next =
        (case pfile_in_zip_read s of
           Some p \<Rightarrow> if rest_read_uncompressed p > 0 then number_disk s + 1
                     else fi_disk_num_start (cur_file_info s)
         | None \<Rightarrow> fi_disk_num_start (cur_file_info s)) in
      if number_disk_next \<noteq> number_disk s then
        let w = (if filestream s \<noteq> 0 \<and> filestream s \<noteq> filestream_with_CD s
                 then snd (zclose64 (z_filefunc s) (filestream s) w) else w) in
        do {
          (h, w) \<leftarrow>
            (if number_disk_next = number_disk_with_CD (gi s) then Some (filestream_with_CD s, w)
             else call_zopendisk64 (z_filefunc s) (filestream_with_CD s)
                    (sint (ucast number_disk_next :: u32))
                    (ZLIB_FILEFUNC_MODE_READ OR ZLIB_FILEFUNC_MODE_EXISTING) w);
          if h = 0 then Some (UNZ_ERRNO, s\<lparr>filestream := h\<rparr>, w)
          else Some (UNZ_OK, s\<lparr>filestream := h, number_disk := number_disk_next\<rparr>, w)
        }
      else Some (UNZ_OK, s, w))"

end
