(* ===== verification/Zip_Crypt.thy ===== *)
theory Zip_Crypt
  imports Prelude
begin

text \<open>
  The traditional PKWARE stream cipher of minizip (\<^verbatim>\<open>crypt.h\<close>). The three keys are of type
  \<^verbatim>\<open>unsigned long\<close>, 64 bits wide; the CRC table is \<^verbatim>\<open>zlib\<close>'s and a parameter. A byte of plain text is
  an \<^verbatim>\<open>int\<close> in the C functions, of which only the low eight bits are used.
\<close>

unbundle bit_operations_syntax

type_synonym keys = "u64 \<times> u64 \<times> u64"

definition CRC32 :: "(nat \<Rightarrow> u64) \<Rightarrow> u64 \<Rightarrow> u32 \<Rightarrow> u64" where
  "CRC32 pcrc_32_tab c b =
     pcrc_32_tab (unat ((ucast c XOR b) AND (0xff :: u32))) XOR drop_bit 8 c"

definition decrypt_byte :: "keys \<Rightarrow> byte" where
  "decrypt_byte pkeys =
     (case pkeys of (_, _, k2) \<Rightarrow>
        let temp = (ucast k2 AND 0xffff) OR (2 :: u32) in
        ucast (drop_bit 8 (temp * (temp XOR 1)) AND 0xff))"

definition update_keys :: "(nat \<Rightarrow> u64) \<Rightarrow> keys \<Rightarrow> u32 \<Rightarrow> keys" where
  "update_keys pcrc_32_tab pkeys c =
     (case pkeys of (k0, k1, k2) \<Rightarrow>
        let k0 = CRC32 pcrc_32_tab k0 c;
            k1 = k1 + (k0 AND 0xff);
            k1 = k1 * 134775813 + 1;
            keyshift = ucast (drop_bit 24 k1);
            k2 = CRC32 pcrc_32_tab k2 keyshift in
        (k0, k1, k2))"

text \<open>\<^verbatim>\<open>(int)*passwd\<close> extends the sign of a \<^verbatim>\<open>char\<close>.\<close>

definition init_keys :: "(nat \<Rightarrow> u64) \<Rightarrow> byte list \<Rightarrow> keys" where
  "init_keys pcrc_32_tab passwd =
     foldl (\<lambda>pkeys c. update_keys pcrc_32_tab pkeys (scast c)) (305419896, 591751049, 878082192)
       (takeWhile (\<lambda>c. c \<noteq> 0) passwd)"

definition zdecode :: "(nat \<Rightarrow> u64) \<Rightarrow> keys \<Rightarrow> byte \<Rightarrow> byte \<times> keys" where
  "zdecode pcrc_32_tab pkeys c =
     (let c = c XOR decrypt_byte pkeys in (c, update_keys pcrc_32_tab pkeys (ucast c)))"

definition zencode :: "(nat \<Rightarrow> u64) \<Rightarrow> keys \<Rightarrow> byte \<Rightarrow> byte \<times> keys" where
  "zencode pcrc_32_tab pkeys c =
     (let t = decrypt_byte pkeys in (t XOR c, update_keys pcrc_32_tab pkeys (ucast c)))"

text \<open>The loops that decode and encode a buffer in place.\<close>

fun zdecode_all :: "(nat \<Rightarrow> u64) \<Rightarrow> keys \<Rightarrow> byte list \<Rightarrow> byte list \<times> keys" where
  "zdecode_all tab ks [] = ([], ks)"
| "zdecode_all tab ks (c # cs) =
     (case zdecode tab ks c of (d, ks) \<Rightarrow> case zdecode_all tab ks cs of (ds, ks) \<Rightarrow> (d # ds, ks))"

fun zencode_all :: "(nat \<Rightarrow> u64) \<Rightarrow> keys \<Rightarrow> byte list \<Rightarrow> byte list \<times> keys" where
  "zencode_all tab ks [] = ([], ks)"
| "zencode_all tab ks (c # cs) =
     (case zencode tab ks c of (d, ks) \<Rightarrow> case zencode_all tab ks cs of (ds, ks) \<Rightarrow> (d # ds, ks))"

text \<open>
  The header of an encrypted file: ten random bytes (the values of \<^verbatim>\<open>rand()\<close> are \<open>rnd\<close>) encoded
  twice, and the high half of the CRC. It is not written if the buffer has no room for it.
\<close>

definition crypthead ::
  "(nat \<Rightarrow> u64) \<Rightarrow> byte list \<Rightarrow> nat \<Rightarrow> (nat \<Rightarrow> u32) \<Rightarrow> u64 \<Rightarrow> keys \<Rightarrow> byte list \<times> keys" where
  "crypthead tab passwd bufSize rnd crcForCrypting pkeys =
     (if bufSize < 12 then ([], pkeys)
      else
        let (header, _) = zencode_all tab (init_keys tab passwd)
              (map (\<lambda>n. ucast (drop_bit 7 (rnd n) AND 0xff)) [0..<10]) in
        zencode_all tab (init_keys tab passwd)
          (header @ [ucast (drop_bit 16 crcForCrypting), ucast (drop_bit 24 crcForCrypting)]))"

section \<open>Decoding inverts encoding\<close>

lemma zdecode_zencode: "zencode tab ks c = (d, ks') \<Longrightarrow> zdecode tab ks d = (c, ks')"
  by (auto simp: zencode_def zdecode_def Let_def xor.assoc xor.left_commute)

lemma zdecode_all_zencode_all: "zencode_all tab ks cs = (ds, ks') \<Longrightarrow> zdecode_all tab ks ds = (cs, ks')"
  by (induction cs arbitrary: ks ds) (auto split: prod.splits dest!: zdecode_zencode)

lemma length_zencode_all: "length (fst (zencode_all tab ks cs)) = length cs"
  by (induction cs arbitrary: ks) (auto split: prod.splits, metis fst_conv)

lemma zencode_all_append:
  "zencode_all tab ks (cs @ cs') =
     (case zencode_all tab ks cs of (ds, ks) \<Rightarrow> case zencode_all tab ks cs' of (ds', ks) \<Rightarrow> (ds @ ds', ks))"
  by (induction cs arbitrary: ks) (auto split: prod.splits)

text \<open>
  C38: A reader that knows the password recovers what was encrypted: it decodes the twelve bytes of
  the header (its last byte is the high byte of the CRC, the check of the password) and
  then every byte of the data, in the same key state as the writer at each byte.
\<close>

lemma zip_crypt_roundtrip:
  "let (head, ks) = crypthead tab passwd 12 rnd crc ks0; (cipher, ks1) = zencode_all tab ks plain;
       (head', ks') = zdecode_all tab (init_keys tab passwd) head; (plain', ks1') = zdecode_all tab ks' cipher in
   length head = 12 \<and> length cipher = length plain \<and> ks' = ks \<and> ks1' = ks1 \<and> plain' = plain \<and>
   head' ! 11 = ucast (drop_bit 24 crc) \<and> head' ! 10 = ucast (drop_bit 16 crc)"
proof -
  obtain header k where h: "zencode_all tab (init_keys tab passwd)
      (map (\<lambda>n. ucast (drop_bit 7 (rnd n) AND 0xff)) [0..<10]) = (header, k)" by (rule prod.exhaust)
  let ?hd = "header @ [ucast (drop_bit 16 crc), ucast (drop_bit 24 crc)] :: byte list"
  have len: "length header = 10"
    using length_zencode_all [of tab "init_keys tab passwd"
        "map (\<lambda>n. ucast (drop_bit 7 (rnd n) AND 0xff)) [0..<10]"] h by simp
  obtain head ks where e: "zencode_all tab (init_keys tab passwd) ?hd = (head, ks)" by (rule prod.exhaust)
  obtain cipher ks1 where c: "zencode_all tab ks plain = (cipher, ks1)" by (rule prod.exhaust)
  have "length head = 12"
    using length_zencode_all [of tab "init_keys tab passwd" ?hd] e len by simp
  moreover have "length cipher = length plain" using length_zencode_all [of tab ks plain] c by simp
  ultimately show ?thesis
    using h e c len zdecode_all_zencode_all [OF e] zdecode_all_zencode_all [OF c]
    by (simp add: crypthead_def nth_append)
qed

section \<open>Keys of 64 bits\<close>

text \<open>
  The cipher is defined on 32-bit keys. With a CRC table of 32-bit entries the first and the
  third key stay below \<open>2 ^ 32\<close>, and of the second one only bits that its low 32 bits determine
  are ever used: the wide keys do not change the cipher.
\<close>

definition CRC32_32 :: "(nat \<Rightarrow> u32) \<Rightarrow> u32 \<Rightarrow> u32 \<Rightarrow> u32" where
  "CRC32_32 tab c b = tab (unat ((c XOR b) AND 0xff)) XOR drop_bit 8 c"

definition update_keys_32 :: "(nat \<Rightarrow> u32) \<Rightarrow> u32 \<times> u32 \<times> u32 \<Rightarrow> byte \<Rightarrow> u32 \<times> u32 \<times> u32" where
  "update_keys_32 tab pkeys c =
     (case pkeys of (k0, k1, k2) \<Rightarrow>
        let k0 = CRC32_32 tab k0 (ucast c);
            k1 = (k1 + (k0 AND 0xff)) * 134775813 + 1;
            k2 = CRC32_32 tab k2 (drop_bit 24 k1) in
        (k0, k1, k2))"

definition decrypt_byte_32 :: "u32 \<times> u32 \<times> u32 \<Rightarrow> byte" where
  "decrypt_byte_32 pkeys =
     (case pkeys of (_, _, k2) \<Rightarrow>
        let temp = (k2 AND 0xffff) OR 2 in ucast (drop_bit 8 (temp * (temp XOR 1))))"

fun zencode_all_32 :: "(nat \<Rightarrow> u32) \<Rightarrow> u32 \<times> u32 \<times> u32 \<Rightarrow> byte list \<Rightarrow> byte list" where
  "zencode_all_32 tab ks [] = []"
| "zencode_all_32 tab ks (c # cs) = (decrypt_byte_32 ks XOR c) # zencode_all_32 tab (update_keys_32 tab ks c) cs"

definition keys_agree :: "keys \<Rightarrow> u32 \<times> u32 \<times> u32 \<Rightarrow> bool" where
  "keys_agree ks ks' \<longleftrightarrow> (case (ks, ks') of ((k0, k1, k2), (l0, l1, l2)) \<Rightarrow>
     k0 = ucast l0 \<and> ucast k1 = l1 \<and> k2 = ucast l2)"

lemma CRC32_wide:
  assumes "\<And>i. tab i = ucast (tab32 i)"
    and "\<And>i. i < 8 \<Longrightarrow> bit b i = bit b' i"
  shows "CRC32 tab (ucast c) b = ucast (CRC32_32 tab32 c b')"
proof -
  have "(ucast (ucast c :: u64) XOR b) AND (0xff :: u32) = (c XOR b') AND 0xff"
  proof (rule bit_word_eqI)
    fix n assume "n < LENGTH(32)"
    moreover have "bit (255 :: int) n \<longleftrightarrow> n < 8" by (rule bit_255_int)
    ultimately show "bit ((ucast (ucast c :: u64) XOR b) AND (0xff :: u32)) n = bit ((c XOR b') AND 0xff) n"
      using assms(2) [of n] by (auto simp: bit_simps)
  qed
  then show ?thesis
    by (intro bit_word_eqI) (auto simp: CRC32_def CRC32_32_def assms(1) bit_simps dest: bit_imp_le_length)
qed

lemma ucast_ring:
  "(ucast (a + b :: u64) :: u32) = ucast a + ucast b" "(ucast (a * b :: u64) :: u32) = ucast a * ucast b"
  by (simp_all add: word_uint_eq_iff unsigned_ucast_eq uint_word_ariths take_bit_eq_mod mod_simps mod_mod_cancel)

lemma update_keys_wide:
  assumes "keys_agree ks ks'" "\<And>i. i < 8 \<Longrightarrow> bit b i = bit c i"
  shows "keys_agree (update_keys (\<lambda>i. ucast (tab i)) ks b) (update_keys_32 tab ks' c)"
proof -
  obtain k0 k1 k2 l0 l1 l2 where k: "ks = (k0, k1, k2)" "ks' = (l0, l1, l2)"
    "k0 = ucast l0" "ucast k1 = l1" "k2 = ucast l2"
    using assms(1) by (cases ks; cases ks') (auto simp: keys_agree_def)
  let ?m0 = "CRC32_32 tab l0 (ucast c)" and ?n0 = "CRC32 (\<lambda>i. ucast (tab i)) k0 b"
  let ?m1 = "(l1 + (?m0 AND 0xff)) * 134775813 + 1" and ?n1 = "(k1 + (?n0 AND 0xff)) * 134775813 + 1"
  have 0: "?n0 = ucast ?m0"
    unfolding k(3) by (rule CRC32_wide) (use assms(2) in \<open>auto simp: bit_simps\<close>)
  have low: "ucast (ucast x AND 0xff :: u64) = (x AND 0xff :: u32)" for x :: u32
    by (intro bit_word_eqI) (auto simp: bit_simps)
  have 1: "ucast ?n1 = ?m1"
    by (simp only: ucast_ring 0 low k(4)) simp
  have "CRC32 (\<lambda>i. ucast (tab i)) (ucast l2) (ucast (drop_bit 24 ?n1)) = ucast (CRC32_32 tab l2 (drop_bit 24 ?m1))"
  proof (rule CRC32_wide)
    fix i :: nat assume "i < 8"
    then show "bit (ucast (drop_bit 24 ?n1) :: u32) i = bit (drop_bit 24 ?m1) i"
      unfolding 1 [symmetric] by (simp only: bit_ucast_iff bit_drop_bit_eq) (simp add: bit_simps)
  qed simp
  with 0 1 k show ?thesis
    by (simp add: keys_agree_def update_keys_def update_keys_32_def Let_def)
qed

lemma decrypt_byte_wide: "keys_agree ks ks' \<Longrightarrow> decrypt_byte ks = decrypt_byte_32 ks'"
proof -
  assume "keys_agree ks ks'"
  then obtain k0 k1 l0 l1 l2 where k: "ks = (k0, k1, ucast l2)" "ks' = (l0, l1, l2)"
    by (cases ks; cases ks') (auto simp: keys_agree_def)
  have u: "ucast (ucast l2 :: u64) = l2" by (intro bit_word_eqI) (simp add: bit_simps)
  have "ucast (x AND 0xff) = (ucast x :: byte)" for x :: u32
  proof (rule bit_word_eqI)
    fix n assume "n < LENGTH(8)"
    moreover have "bit (255 :: int) n \<longleftrightarrow> n < 8" by (rule bit_255_int)
    ultimately show "bit (ucast (x AND 0xff) :: byte) n = bit (ucast x :: byte) n"
      by (auto simp: bit_ucast_iff bit_and_iff dest: bit_imp_le_length)
  qed
  then show ?thesis by (simp add: k u decrypt_byte_def decrypt_byte_32_def Let_def)
qed

lemma zencode_all_wide:
  "keys_agree ks ks' \<Longrightarrow> fst (zencode_all (\<lambda>i. ucast (tab i)) ks cs) = zencode_all_32 tab ks' cs"
proof (induction cs arbitrary: ks ks')
  case (Cons c cs)
  have "keys_agree (update_keys (\<lambda>i. ucast (tab i)) ks (ucast c)) (update_keys_32 tab ks' c)"
    by (rule update_keys_wide [OF Cons.prems]) (auto simp: bit_simps)
  from Cons.IH [OF this] Cons.prems show ?case
    by (auto simp: zencode_def decrypt_byte_wide Let_def split: prod.splits)
qed simp

definition init_keys_32 :: "(nat \<Rightarrow> u32) \<Rightarrow> byte list \<Rightarrow> u32 \<times> u32 \<times> u32" where
  "init_keys_32 tab passwd =
     foldl (update_keys_32 tab) (305419896, 591751049, 878082192) (takeWhile (\<lambda>c. c \<noteq> 0) passwd)"

lemma init_keys_wide: "keys_agree (init_keys (\<lambda>i. ucast (tab i)) passwd) (init_keys_32 tab passwd)"
proof -
  have "keys_agree ks ks' \<Longrightarrow>
      keys_agree (foldl (\<lambda>pkeys c. update_keys (\<lambda>i. ucast (tab i)) pkeys (scast c)) ks cs)
        (foldl (update_keys_32 tab) ks' cs)" for ks ks' and cs :: "byte list"
  proof (induction cs arbitrary: ks ks')
    case (Cons c cs)
    have "keys_agree (update_keys (\<lambda>i. ucast (tab i)) ks (scast c)) (update_keys_32 tab ks' c)"
      by (rule update_keys_wide [OF Cons.prems]) (auto simp: bit_simps)
    from Cons.IH [OF this] show ?case by simp
  qed simp
  then show ?thesis by (simp add: init_keys_def init_keys_32_def keys_agree_def)
qed

text \<open>
  The 64-bit keys of the source give the cipher of the format: for every CRC table of 32-bit
  entries, password and text, the bytes are those that 32-bit keys give.
\<close>

lemma zip_crypt_wide_keys:
  "fst (zencode_all (\<lambda>i. ucast (tab i)) (init_keys (\<lambda>i. ucast (tab i)) passwd) plain) =
     zencode_all_32 tab (init_keys_32 tab passwd) plain"
  by (rule zencode_all_wide) (rule init_keys_wide)

end
