(* ===== verification/Zip_Extract.thy ===== *)
theory Zip_Extract
  imports Zip_Central Zip_Crypt
begin

text \<open>
  The second half of \<^verbatim>\<open>unzip.c\<close>: opening the current file (with the check of its local header and
  the decryption header), reading, seeking and closing it. \<^verbatim>\<open>zlib\<close> is a parameter: its functions
  are the fields of a record. \<^verbatim>\<open>HAVE_AES\<close> and \<^verbatim>\<open>HAVE_BZIP2\<close> are not defined, \<^verbatim>\<open>NOUNCRYPT\<close> is not either.
\<close>

unbundle bit_operations_syntax

section \<open>zlib\<close>

text \<open>
  \<open>zl_inflate\<close> gets its state, the input that is available and the room for output, and returns its
  code, the number of bytes taken, the bytes produced, whether it set a message, and the new state.
\<close>

record 'z zlib_fns =
  zl_inflateInit2 :: "int \<times> 'z"
  zl_inflate :: "'z \<Rightarrow> byte list \<Rightarrow> u32 \<Rightarrow> int \<times> nat \<times> byte list \<times> bool \<times> 'z"
  zl_crc32 :: "u64 \<Rightarrow> byte list \<Rightarrow> u64"
  zl_crc_table :: "nat \<Rightarrow> u64"

abbreviation (input) Z_OK :: int where "Z_OK \<equiv> 0"
abbreviation (input) Z_STREAM_END :: int where "Z_STREAM_END \<equiv> 1"
abbreviation (input) Z_DATA_ERROR :: int where "Z_DATA_ERROR \<equiv> -3"
abbreviation (input) Z_DEFLATED :: u64 where "Z_DEFLATED \<equiv> 8"
abbreviation (input) Z_BZIP2ED :: u64 where "Z_BZIP2ED \<equiv> 12"
abbreviation (input) UNZ_BUFSIZE :: nat where "UNZ_BUFSIZE \<equiv> 65536"

section \<open>The local header\<close>

text \<open>
  \<open>st\<close> is the error code and the world. A field that was read is compared with the central
  directory only while there is no error; sizes and CRC are not compared if flag bit 3 says that
  they follow the data.
\<close>

definition unz64local_CheckCurrentFileCoherencyHeader ::
  "('w, 'z) unz64_s \<Rightarrow> 'w \<Rightarrow> (int \<times> u32 \<times> u64 \<times> u32 \<times> ('w, 'z) unz64_s \<times> 'w) option" where
  "unz64local_CheckCurrentFileCoherencyHeader s w =
     do {
       (err, s, w) \<leftarrow> unzGoToNextDisk s w;
       if err \<noteq> UNZ_OK then Some (err, 0, 0, 0, s, w)
       else
         let ff = z_filefunc s; h = filestream s; fi = cur_file_info s; fii = cur_file_info_internal s in
         do {
           (e, w) \<leftarrow> call_zseek64 ff h (offset_curfile fii + fi_byte_before_the_zipfile fii) ZLIB_FILEFUNC_SEEK_SET w;
           if e \<noteq> 0 then Some (UNZ_ERRNO, 0, 0, 0, s, w)
           else
             let (e, uMagic, w) = unz64local_getLong ff h w;
                 err = (if e \<noteq> UNZ_OK then UNZ_ERRNO
                        else if uMagic \<noteq> LOCALHEADERMAGIC then UNZ_BADZIPFILE else UNZ_OK);
                 (uL, st) = checked (unz64local_getShort ff h) (err, w);
                 (uFlags, st) = checked (unz64local_getShort ff h) st;
                 (uL, err, w) = checked (unz64local_getShort ff h) st;
                 err = (if err = UNZ_OK \<and> uL \<noteq> fi_compression_method fi then UNZ_BADZIPFILE else err);
                 compression_method = fi_compression_method fi;
                 err = (if err = UNZ_OK \<and> compression_method \<noteq> 0 \<and> compression_method \<noteq> Z_DEFLATED
                        then UNZ_BADZIPFILE else err);
                 (uL, st) = checked (unz64local_getLong ff h) (err, w);
                 (uL, err, w) = checked (unz64local_getLong ff h) st;
                 err = (if err = UNZ_OK \<and> uL \<noteq> fi_crc fi \<and> uFlags AND 8 = 0 then UNZ_BADZIPFILE else err);
                 (uL, err, w) = checked (unz64local_getLong ff h) (err, w);
                 err = (if uL \<noteq> 0xffffffff \<and> err = UNZ_OK \<and> uL \<noteq> fi_compressed_size fi \<and> uFlags AND 8 = 0
                        then UNZ_BADZIPFILE else err);
                 (uL, err, w) = checked (unz64local_getLong ff h) (err, w);
                 err = (if uL \<noteq> 0xffffffff \<and> err = UNZ_OK \<and> uL \<noteq> fi_uncompressed_size fi \<and> uFlags AND 8 = 0
                        then UNZ_BADZIPFILE else err);
                 (size_filename, err, w) = checked (unz64local_getShort ff h) (err, w);
                 err = (if err = UNZ_OK \<and> size_filename \<noteq> fi_size_filename fi then UNZ_BADZIPFILE else err);
                 (size_extra_field, err, w) = checked (unz64local_getShort ff h) (err, w) in
             Some (err, ucast size_filename + ucast size_extra_field,
               offset_curfile fii + 0x1e + size_filename, ucast size_extra_field, s, w)
         }
     }"

section \<open>Opening and closing the current file\<close>

definition unzCloseCurrentFile :: "('w, 'z) unz64_s \<Rightarrow> int \<times> ('w, 'z) unz64_s" where
  "unzCloseCurrentFile s =
     (case pfile_in_zip_read s of
        None \<Rightarrow> (UNZ_PARAMERROR, s)
      | Some p \<Rightarrow>
          (if rest_read_uncompressed p = 0 \<and> \<not> ri_raw p \<and> ri_crc32 p \<noteq> crc32_wait p
           then UNZ_CRCERROR else UNZ_OK,
           s\<lparr>pfile_in_zip_read := None\<rparr>))"

text \<open>The level as \<^verbatim>\<open>unzOpenCurrentFile3\<close> reports it.\<close>

definition file_level :: "u64 \<Rightarrow> nat" where
  "file_level flag =
     (if flag AND 6 = 6 then 1 else if flag AND 6 = 4 then 2 else if flag AND 6 = 2 then 9 else 6)"

text \<open>
  The result holds the error code, the method and level (stored only when the local header was
  right), and the archive. \<open>heap\<close> is what the fresh read buffer happens to hold.
\<close>

definition open_read_info ::
  "'z zlib_fns \<Rightarrow> ('w, 'z) unz64_s \<Rightarrow> byte list \<Rightarrow> u32 \<Rightarrow> u64 \<Rightarrow> u32 \<Rightarrow> bool \<Rightarrow>
   int \<times> 'z file_in_zip64_read_info_s" where
  "open_read_info zl s heap iSizeVar offset_extra size_extra raw =
     (let fi = cur_file_info s; (e, z) = zl_inflateInit2 zl;
          inflate = (\<not> raw \<and> fi_compression_method fi = Z_DEFLATED) in
      (if inflate then e else Z_OK,
       \<lparr>read_buffer = buffer_of UNZ_BUFSIZE heap, zs_next_in = None, zs_avail_in = 0, zs_total_out = 0,
        zs_state = z,
        pos_in_zipfile = offset_curfile (cur_file_info_internal s) + 0x1e + ucast iSizeVar,
        stream_initialised = (if inflate then Z_DEFLATED else 0),
        offset_local_extrafield = offset_extra, size_local_extrafield = size_extra,
        pos_local_extrafield = 0, total_out_64 = 0, ri_crc32 = 0, crc32_wait = fi_crc fi,
        rest_read_compressed = fi_compressed_size fi, rest_read_uncompressed = fi_uncompressed_size fi,
        ri_filestream = filestream s, ri_compression_method = fi_compression_method fi,
        ri_byte_before_the_zipfile =
          (if number_disk s = number_disk_with_CD (gi s) then byte_before_the_zipfile s else 0),
        ri_raw = (raw \<or> fi_compression_method fi = Z_BZIP2ED)\<rparr>))"

definition unzOpenCurrentFile3 ::
  "'z zlib_fns \<Rightarrow> byte list \<Rightarrow> ('w, 'z) unz64_s \<Rightarrow> bool \<Rightarrow> byte list option \<Rightarrow> 'w \<Rightarrow>
   (int \<times> (u64 \<times> nat) option \<times> ('w, 'z) unz64_s \<times> 'w) option" where
  "unzOpenCurrentFile3 zl heap s raw password w =
     (if \<not> current_file_ok s then Some (UNZ_PARAMERROR, None, s, w)
      else
        let s = (if pfile_in_zip_read s \<noteq> None then snd (unzCloseCurrentFile s) else s) in
        do {
          (err, iSizeVar, offset_extra, size_extra, s, w) \<leftarrow> unz64local_CheckCurrentFileCoherencyHeader s w;
          if err \<noteq> UNZ_OK then Some (UNZ_BADZIPFILE, None, s, w)
          else
            let fi = cur_file_info s; info = Some (fi_compression_method fi, file_level (fi_flag fi)) in
            (case open_read_info zl s heap iSizeVar offset_extra size_extra raw of (err, p) \<Rightarrow>
               if err \<noteq> Z_OK then Some (err, info, s, w)
               else
                 let s = s\<lparr>pfile_in_zip_read := Some p, us_pcrc_32_tab := None\<rparr> in
                 (case (if fi_flag fi AND 1 \<noteq> 0 then password else None) of
                    None \<Rightarrow> Some (UNZ_OK, info, s, w)
                  | Some pw \<Rightarrow>
                      do {
                        (e, w) \<leftarrow> call_zseek64 (z_filefunc s) (filestream s)
                                 (pos_in_zipfile p + ri_byte_before_the_zipfile p) ZLIB_FILEFUNC_SEEK_SET w;
                        if e \<noteq> 0 then Some (UNZ_INTERNALERROR, info, s, w)
                        else
                          let ks = init_keys (zl_crc_table zl) pw;
                              s = s\<lparr>us_pcrc_32_tab := Some (zl_crc_table zl), us_keys := ks\<rparr> in
                          (case zread64 (z_filefunc s) (filestream s) 12 w of (n, source, w) \<Rightarrow>
                             if n < 12 then Some (UNZ_INTERNALERROR, info, s, w)
                             else
                               Some (UNZ_OK, info,
                                 s\<lparr>us_keys := snd (zdecode_all (zl_crc_table zl) ks (buffer_of 12 source)),
                                   pfile_in_zip_read :=
                                     Some (p\<lparr>rest_read_compressed := rest_read_compressed p - 12,
                                             pos_in_zipfile := pos_in_zipfile p + 12\<rparr>)\<rparr>, w))
                      }))
        })"

definition unzOpenCurrentFile ::
  "'z zlib_fns \<Rightarrow> byte list \<Rightarrow> ('w, 'z) unz64_s \<Rightarrow> 'w \<Rightarrow> (int \<times> ('w, 'z) unz64_s \<times> 'w) option" where
  "unzOpenCurrentFile zl heap s w =
     map_option (\<lambda>(err, _, s, w). (err, s, w)) (unzOpenCurrentFile3 zl heap s False None w)"

definition unzOpenCurrentFilePassword ::
  "'z zlib_fns \<Rightarrow> byte list \<Rightarrow> ('w, 'z) unz64_s \<Rightarrow> byte list option \<Rightarrow> 'w \<Rightarrow> (int \<times> ('w, 'z) unz64_s \<times> 'w) option" where
  "unzOpenCurrentFilePassword zl heap s password w =
     map_option (\<lambda>(err, _, s, w). (err, s, w)) (unzOpenCurrentFile3 zl heap s False password w)"

definition unzOpenCurrentFile2 ::
  "'z zlib_fns \<Rightarrow> byte list \<Rightarrow> ('w, 'z) unz64_s \<Rightarrow> bool \<Rightarrow> 'w \<Rightarrow>
   (int \<times> (u64 \<times> nat) option \<times> ('w, 'z) unz64_s \<times> 'w) option" where
  "unzOpenCurrentFile2 zl heap s raw w = unzOpenCurrentFile3 zl heap s raw None w"

definition unzClose :: "('w, 'z) unz64_s \<Rightarrow> 'w \<Rightarrow> int \<times> 'w" where
  "unzClose s w =
     (let w = (if filestream s \<noteq> 0 \<and> filestream s \<noteq> filestream_with_CD s
               then snd (zclose64 (z_filefunc s) (filestream s) w) else w);
          w = (if filestream_with_CD s \<noteq> 0
               then snd (zclose64 (z_filefunc s) (filestream_with_CD s) w) else w) in
      (UNZ_OK, w))"

section \<open>Reading\<close>

text \<open>
  The loop that fills the read buffer: it reads at the position in the archive, and goes on with
  the next disk where a disk ends. \<open>Inl\<close> is an early return with an error. The fuel bounds the
  number of reads.
\<close>

definition buffer_write :: "byte list \<Rightarrow> nat \<Rightarrow> byte list \<Rightarrow> byte list" where
  "buffer_write buf off bs = take off buf @ bs @ drop (off + length bs) buf"

fun fill_loop ::
  "nat \<Rightarrow> ('w, 'z) unz64_s \<Rightarrow> 'z file_in_zip64_read_info_s \<Rightarrow> nat \<Rightarrow> u64 \<Rightarrow> u64 \<Rightarrow> 'w \<Rightarrow>
   ((int + unit) \<times> ('w, 'z) unz64_s \<times> 'z file_in_zip64_read_info_s \<times> 'w) option" where
  "fill_loop 0 s p bytes_not_read bytes_to_read tot w = None"
| "fill_loop (Suc n) s p bytes_not_read bytes_to_read tot w =
     (if tot = bytes_to_read then Some (Inr (), s, p, w)
      else
        do {
          (e, w) \<leftarrow> call_zseek64 (z_filefunc s) (ri_filestream p)
                   (pos_in_zipfile p + ri_byte_before_the_zipfile p) ZLIB_FILEFUNC_SEEK_SET w;
          if e \<noteq> 0 then Some (Inl UNZ_ERRNO, s, p, w)
          else
            (case zread64 (z_filefunc s) (ri_filestream p) (bytes_to_read - tot) w of
               (bytes_read, bs, w) \<Rightarrow>
                 let p = p\<lparr>read_buffer := buffer_write (read_buffer p) (bytes_not_read + unat tot)
                              (take (unat (bytes_to_read - tot)) bs),
                           pos_in_zipfile := pos_in_zipfile p + bytes_read\<rparr>;
                     tot = tot + bytes_read in
                 if bytes_read \<noteq> 0 then fill_loop n s p bytes_not_read bytes_to_read tot w
                 else
                   (case zerror64 (z_filefunc s) (ri_filestream p) w of (e, w) \<Rightarrow>
                      if e \<noteq> 0 then Some (Inl UNZ_ERRNO, s, p, w)
                      else
                        do {
                          (err, s, w) \<leftarrow> unzGoToNextDisk (s\<lparr>pfile_in_zip_read := Some p\<rparr>) w;
                          if err \<noteq> UNZ_OK then Some (Inl err, s, p, w)
                          else
                            fill_loop n s (p\<lparr>pos_in_zipfile := 0, ri_filestream := filestream s\<rparr>)
                              bytes_not_read bytes_to_read tot w
                        }))
        })"

text \<open>
  The refill when no input is left. What lies between \<^verbatim>\<open>next_in\<close> and the end of the buffer is moved
  to its front with \<^verbatim>\<open>memcpy\<close>, which is undefined if the two overlap.
\<close>

definition unread_bytes :: "'z file_in_zip64_read_info_s \<Rightarrow> nat" where
  "unread_bytes p = (case zs_next_in p of None \<Rightarrow> 0 | Some i \<Rightarrow> UNZ_BUFSIZE - i)"

definition move_unread :: "'z file_in_zip64_read_info_s \<Rightarrow> byte list option" where
  "move_unread p =
     (case zs_next_in p of
        None \<Rightarrow> Some (read_buffer p)
      | Some i \<Rightarrow>
          if UNZ_BUFSIZE - i > 0 \<and> i < UNZ_BUFSIZE - i then None
          else Some (buffer_write (read_buffer p) 0 (drop i (read_buffer p))))"

definition refill ::
  "nat \<Rightarrow> ('w, 'z) unz64_s \<Rightarrow> 'z file_in_zip64_read_info_s \<Rightarrow> 'w \<Rightarrow>
   ((int + unit) \<times> ('w, 'z) unz64_s \<times> 'z file_in_zip64_read_info_s \<times> 'w) option" where
  "refill n s p w =
     (let bytes_not_read = unread_bytes p;
          bytes_to_read = (if rest_read_compressed p < of_nat (UNZ_BUFSIZE - bytes_not_read)
                           then ucast (ucast (rest_read_compressed p) :: u32)
                           else of_nat (UNZ_BUFSIZE - bytes_not_read)) in
      do {
        buf \<leftarrow> move_unread p;
        (r, s, p, w) \<leftarrow> fill_loop n s (p\<lparr>read_buffer := buf\<rparr>) bytes_not_read bytes_to_read 0 w;
        case r of
          Inl e \<Rightarrow> Some (Inl e, s, p, w)
        | Inr _ \<Rightarrow>
            let (buf, ks) =
              (case us_pcrc_32_tab s of
                 Some tab \<Rightarrow>
                   if fi_flag (cur_file_info s) AND 1 \<noteq> 0 then
                     (case zdecode_all tab (us_keys s) (take (unat bytes_to_read) (read_buffer p)) of
                        (ds, ks) \<Rightarrow> (buffer_write (read_buffer p) 0 ds, ks))
                   else (read_buffer p, us_keys s)
               | None \<Rightarrow> (read_buffer p, us_keys s)) in
            Some (Inr (), s\<lparr>us_keys := ks\<rparr>,
              p\<lparr>read_buffer := buf, rest_read_compressed := rest_read_compressed p - bytes_to_read,
                zs_next_in := Some 0, zs_avail_in := of_nat bytes_not_read + ucast bytes_to_read\<rparr>, w)
      })"

text \<open>
  One turn of the outer loop after the refill: a copy for stored and raw data, \<^verbatim>\<open>inflate\<close>
  otherwise. The result is an early return, or the end of the loop by \<^verbatim>\<open>break\<close>, or the next turn.
\<close>

datatype 'a turn = Return int 'a | Break int 'a | Next 'a

definition copy_turn ::
  "'z zlib_fns \<Rightarrow> 'z file_in_zip64_read_info_s \<Rightarrow> u32 \<Rightarrow> u32 \<Rightarrow> byte list \<Rightarrow>
   ('z file_in_zip64_read_info_s \<times> u32 \<times> u32 \<times> byte list) turn" where
  "copy_turn zl p avail_out read out =
     (if zs_avail_in p = 0 \<and> rest_read_compressed p = 0
      then Return (if read = 0 then UNZ_EOF else sint read) (p, avail_out, read, out)
      else
        let copy = (if avail_out < zs_avail_in p then avail_out else zs_avail_in p);
            i = (case zs_next_in p of Some i \<Rightarrow> i | None \<Rightarrow> 0);
            bs = take (unat copy) (drop i (read_buffer p)) in
        Next (p\<lparr>total_out_64 := total_out_64 p + ucast copy,
                rest_read_uncompressed := rest_read_uncompressed p - ucast copy,
                ri_crc32 := zl_crc32 zl (ri_crc32 p) bs,
                zs_avail_in := zs_avail_in p - copy,
                zs_next_in := Some (i + unat copy),
                zs_total_out := zs_total_out p + ucast copy\<rparr>,
              avail_out - copy, read + copy, out @ bs))"

definition inflate_turn ::
  "'z zlib_fns \<Rightarrow> 'z file_in_zip64_read_info_s \<Rightarrow> u32 \<Rightarrow> u32 \<Rightarrow> byte list \<Rightarrow>
   ('z file_in_zip64_read_info_s \<times> u32 \<times> u32 \<times> byte list) turn" where
  "inflate_turn zl p avail_out read out =
     (let i = (case zs_next_in p of Some i \<Rightarrow> i | None \<Rightarrow> 0);
          (err, used, bs, msg, z) =
            zl_inflate zl (zs_state p) (take (unat (zs_avail_in p)) (drop i (read_buffer p))) avail_out;
          err = (if err \<ge> 0 \<and> msg then Z_DATA_ERROR else err);
          p = p\<lparr>zs_state := z, zs_next_in := Some (i + used), zs_avail_in := zs_avail_in p - of_nat used,
                zs_total_out := zs_total_out p + of_nat (length bs),
                total_out_64 := total_out_64 p + of_nat (length bs),
                rest_read_uncompressed := rest_read_uncompressed p - of_nat (length bs),
                ri_crc32 := zl_crc32 zl (ri_crc32 p) bs\<rparr>;
          avail_out = avail_out - of_nat (length bs); read = read + of_nat (length bs);
          out = out @ bs in
      if err = Z_STREAM_END then Return (if read = 0 then UNZ_EOF else sint read) (p, avail_out, read, out)
      else if err \<noteq> Z_OK then Break err (p, avail_out, read, out)
      else Next (p, avail_out, read, out))"

text \<open>The outer loop; \<open>k\<close> bounds its turns and \<open>n\<close> the reads of a refill.\<close>

fun read_loop ::
  "nat \<Rightarrow> nat \<Rightarrow> 'z zlib_fns \<Rightarrow> ('w, 'z) unz64_s \<Rightarrow> 'z file_in_zip64_read_info_s \<Rightarrow> u32 \<Rightarrow> u32 \<Rightarrow> byte list \<Rightarrow> 'w \<Rightarrow>
   (int \<times> byte list \<times> ('w, 'z) unz64_s \<times> 'w) option" where
  "read_loop 0 n zl s p avail_out read out w = None"
| "read_loop (Suc k) n zl s p avail_out read out w =
     (if avail_out = 0 then Some (sint read, out, s\<lparr>pfile_in_zip_read := Some p\<rparr>, w)
      else
        do {
          (r, s, p, w) \<leftarrow> (if zs_avail_in p = 0 then refill n s p w else Some (Inr (), s, p, w));
          case r of
            Inl e \<Rightarrow> Some (e, out, s\<lparr>pfile_in_zip_read := Some p\<rparr>, w)
          | Inr _ \<Rightarrow>
              (case (if ri_compression_method p = 0 \<or> ri_raw p then copy_turn zl p avail_out read out
                     else if ri_compression_method p = Z_BZIP2ED then Next (p, avail_out, read, out)
                     else inflate_turn zl p avail_out read out) of
                 Return e (p, _, _, out) \<Rightarrow> Some (e, out, s\<lparr>pfile_in_zip_read := Some p\<rparr>, w)
               | Break e (p, _, _, out) \<Rightarrow> Some (e, out, s\<lparr>pfile_in_zip_read := Some p\<rparr>, w)
               | Next (p, avail_out, read, out) \<Rightarrow> read_loop k n zl s p avail_out read out w)
        })"

definition unzReadCurrentFile ::
  "nat \<Rightarrow> nat \<Rightarrow> 'z zlib_fns \<Rightarrow> ('w, 'z) unz64_s \<Rightarrow> u32 \<Rightarrow> 'w \<Rightarrow> (int \<times> byte list \<times> ('w, 'z) unz64_s \<times> 'w) option" where
  "unzReadCurrentFile k n zl s len w =
     (case pfile_in_zip_read s of
        None \<Rightarrow> Some (UNZ_PARAMERROR, [], s, w)
      | Some p \<Rightarrow>
          if len = 0 then Some (0, [], s, w)
          else
            let avail_out =
              (if ri_raw p then
                 (if ucast len > rest_read_compressed p + ucast (zs_avail_in p)
                  then ucast (rest_read_compressed p) + zs_avail_in p else len)
               else (if ucast len > rest_read_uncompressed p then ucast (rest_read_uncompressed p) else len)) in
            read_loop k n zl s p avail_out 0 [] w)"

section \<open>Positions in the current file\<close>

definition unzGetCurrentFileZStreamPos64 :: "('w, 'z) unz64_s \<Rightarrow> u64" where
  "unzGetCurrentFileZStreamPos64 s =
     (case pfile_in_zip_read s of None \<Rightarrow> 0
      | Some p \<Rightarrow> pos_in_zipfile p + ri_byte_before_the_zipfile p)"

text \<open>\<open>len\<close> is the size of the buffer, \<open>None\<close> for a NULL buffer.\<close>

definition unzGetLocalExtrafield ::
  "('w, 'z) unz64_s \<Rightarrow> u32 option \<Rightarrow> 'w \<Rightarrow> (int \<times> byte list \<times> 'w) option" where
  "unzGetLocalExtrafield s len w =
     (case pfile_in_zip_read s of
        None \<Rightarrow> Some (UNZ_PARAMERROR, [], w)
      | Some p \<Rightarrow>
          let size_to_read = ucast (size_local_extrafield p) - pos_local_extrafield p in
          (case len of
             None \<Rightarrow> Some (sint (ucast size_to_read :: u32), [], w)
           | Some len \<Rightarrow>
               let read_now = (if ucast len > size_to_read then ucast size_to_read else len) in
               if read_now = 0 then Some (0, [], w)
               else
                 do {
                   (e, w) \<leftarrow> call_zseek64 (z_filefunc s) (ri_filestream p)
                            (offset_local_extrafield p + pos_local_extrafield p) ZLIB_FILEFUNC_SEEK_SET w;
                   if e \<noteq> 0 then Some (UNZ_ERRNO, [], w)
                   else
                     (case zread64 (z_filefunc s) (ri_filestream p) (ucast read_now) w of (n, bs, w) \<Rightarrow>
                        if n \<noteq> ucast read_now then Some (UNZ_ERRNO, bs, w)
                        else Some (sint read_now, bs, w))
                 }))"

definition unztell64 :: "('w, 'z) unz64_s \<Rightarrow> u64" where
  "unztell64 s = (case pfile_in_zip_read s of None \<Rightarrow> - 1 | Some p \<Rightarrow> total_out_64 p)"

text \<open>\<^verbatim>\<open>z_off_t\<close> is signed, with 64 bits.\<close>

definition unztell :: "('w, 'z) unz64_s \<Rightarrow> int" where
  "unztell s = (case pfile_in_zip_read s of None \<Rightarrow> UNZ_PARAMERROR | Some p \<Rightarrow> sint (zs_total_out p))"

definition unzeof :: "('w, 'z) unz64_s \<Rightarrow> int" where
  "unzeof s = (case pfile_in_zip_read s of None \<Rightarrow> UNZ_PARAMERROR
     | Some p \<Rightarrow> if rest_read_uncompressed p = 0 then 1 else 0)"

text \<open>\<^verbatim>\<open>next_in\<close> moves by the difference of two 64-bit numbers, modulo the width of a pointer.\<close>

definition move_ptr :: "nat option \<Rightarrow> u64 \<Rightarrow> nat option" where
  "move_ptr ptr d = map_option (\<lambda>i. unat (of_nat i + d)) ptr"

definition unzseek64 :: "('w, 'z) unz64_s \<Rightarrow> u64 \<Rightarrow> int \<Rightarrow> int \<times> ('w, 'z) unz64_s" where
  "unzseek64 s offset origin =
     (case pfile_in_zip_read s of
        None \<Rightarrow> (UNZ_ERRNO, s)
      | Some p \<Rightarrow>
          if ri_compression_method p \<noteq> 0 then (UNZ_ERRNO, s)
          else if origin \<notin> {0, 1, 2} then (UNZ_PARAMERROR, s)
          else
            let csize = fi_compressed_size (cur_file_info s);
                position = (if origin = 0 then offset else if origin = 1 then total_out_64 p + offset
                            else csize + offset) in
            if position > csize then (UNZ_PARAMERROR, s)
            else
              let stream_pos_end = pos_in_zipfile p;
                  stream_pos_begin = (if stream_pos_end > of_nat UNZ_BUFSIZE
                                      then stream_pos_end - of_nat UNZ_BUFSIZE else 0);
                  isWithinBuffer = (zs_avail_in p \<noteq> 0 \<and>
                    (rest_read_compressed p \<noteq> 0 \<or> csize < of_nat UNZ_BUFSIZE) \<and>
                    position \<ge> stream_pos_begin \<and> position < stream_pos_end);
                  p' = (if isWithinBuffer then
                          p\<lparr>zs_next_in := move_ptr (zs_next_in p) (position - total_out_64 p),
                            zs_avail_in := ucast (stream_pos_end - position)\<rparr>
                        else
                          p\<lparr>zs_avail_in := 0, zs_next_in := None,
                            pos_in_zipfile := offset_local_extrafield p + position,
                            rest_read_compressed := csize - position\<rparr>) in
              (UNZ_OK, s\<lparr>pfile_in_zip_read := Some (p'\<lparr>
                 rest_read_uncompressed := rest_read_uncompressed p - (position - total_out_64 p),
                 zs_total_out := position, total_out_64 := position\<rparr>)\<rparr>))"

definition unzseek :: "('w, 'z) unz64_s \<Rightarrow> int \<Rightarrow> int \<Rightarrow> int \<times> ('w, 'z) unz64_s" where
  "unzseek s offset origin = unzseek64 s (of_int offset) origin"

end
