(* ===== verification/Zip_Read.thy ===== *)
theory Zip_Read
  imports Zip_Central
begin

text \<open>
  What the readers of \<^verbatim>\<open>unzip.c\<close> return, proved once for every table of file functions that behaves
  like a file: the interface \<open>zip_file\<close>. The functions of \<^verbatim>\<open>ioapi.c\<close> over \<^verbatim>\<open>stdio\<close> provide it, through
  the 64-bit table and through the 32-bit one.
\<close>

unbundle bit_operations_syntax

section \<open>What the search looks for\<close>

lemma find_magic_spec:
  "case find_magic buf n of
     Some i \<Rightarrow> i < n \<and> is_magic ENDHEADERMAGIC buf i \<and> (\<forall>j. i < j \<longrightarrow> j < n \<longrightarrow> \<not> is_magic ENDHEADERMAGIC buf j)
   | None \<Rightarrow> \<forall>j < n. \<not> is_magic ENDHEADERMAGIC buf j"
  by (induction n) (auto simp: less_Suc_eq split: option.splits)

lemma is_magic_part:
  "j + 3 < n \<Longrightarrow> q + n \<le> length c \<Longrightarrow> is_magic magic (take n (drop q c)) j = is_magic magic c (q + j)"
  by (simp add: is_magic_def add.assoc)

text \<open>
  What the search for the end of the central directory is to find: the last place in the last
  65535 bytes of the file, other than its start, where the magic number stands; 0 if there is none.
\<close>

definition end_record_at :: "byte list \<Rightarrow> nat \<Rightarrow> bool" where
  "end_record_at c r \<longleftrightarrow>
     (r \<noteq> 0 \<longrightarrow> r + 4 \<le> length c \<and> length c \<le> r + 0xffff \<and> is_magic ENDHEADERMAGIC c r) \<and>
     (\<forall>i. r < i \<longrightarrow> i + 4 \<le> length c \<longrightarrow> length c \<le> i + 0xffff \<longrightarrow> \<not> is_magic ENDHEADERMAGIC c i)"

section \<open>The interface\<close>

text \<open>
  \<open>view w h\<close> is the contents of the file behind the stream \<open>h\<close> and the position in it. Positions
  below \<open>bound\<close> are reported by the tell function.
\<close>

locale zip_file =
  fixes ff :: "'w zlib_filefunc64_32_def"
    and view :: "'w \<Rightarrow> addr \<Rightarrow> (byte list \<times> nat) option"
    and bound :: nat
  assumes zread_law: "view w h = Some (c, p) \<Longrightarrow>
      \<exists>w'. zread64 ff h n w =
             (of_nat (length (take (unat n) (drop p c))), take (unat n) (drop p c), w') \<and>
           view w' h = Some (c, p + length (take (unat n) (drop p c)))"
    and zseek_set_law: "view w h = Some (c, p) \<Longrightarrow> unat off < 2 ^ 63 \<Longrightarrow>
      \<exists>w'. call_zseek64 ff h off ZLIB_FILEFUNC_SEEK_SET w = Some (0, w') \<and> view w' h = Some (c, unat off)"
    and zseek_end_law: "view w h = Some (c, p) \<Longrightarrow>
      \<exists>w'. call_zseek64 ff h 0 ZLIB_FILEFUNC_SEEK_END w = Some (0, w') \<and> view w' h = Some (c, length c)"
    and ztell_law: "view w h = Some (c, p) \<Longrightarrow> p < bound \<Longrightarrow> call_ztell64 ff h w = Some (of_nat p, w)"
    and zerror_law: "view w h = Some (c, p) \<Longrightarrow> zerror64 ff h w = (0, w)"
    and bound_le: "bound \<le> 2 ^ 63"
begin

text \<open>A byte behind the end of the file is read as 0, without an error.\<close>

lemma getByte_view:
  assumes "view w h = Some (c, p)"
  shows "\<exists>w'. unz64local_getByte ff h w = (UNZ_OK, if p < length c then c ! p else 0, w') \<and>
    view w' h = Some (c, if p < length c then Suc p else p)"
proof -
  obtain w' where r: "zread64 ff h 1 w = (of_nat (length (take 1 (drop p c))), take 1 (drop p c), w')"
    "view w' h = Some (c, p + length (take 1 (drop p c)))"
    using zread_law [OF assms, of 1] by auto
  show ?thesis
  proof (cases "p < length c")
    case True
    then have "take 1 (drop p c) = [c ! p]" by (simp add: take_Suc hd_drop_conv_nth)
    with True r show ?thesis by (simp add: unz64local_getByte_def buffer_of_def)
  next
    case False
    with r zerror_law [OF r(2)] show ?thesis by (simp add: unz64local_getByte_def)
  qed
qed

lemma get_le_view:
  assumes "view w h = Some (c, p)"
  shows "\<exists>w'. get_le ff h n shift x w = (UNZ_OK, x OR push_bit shift (le_word (take n (drop p c))), w') \<and>
    view w' h = Some (c, p + length (take n (drop p c)))"
  using assms
proof (induction n arbitrary: shift x w p)
  case 0
  then show ?case by simp
next
  case (Suc n)
  let ?b = "if p < length c then c ! p else 0" and ?q = "if p < length c then Suc p else p"
  obtain w1 where b: "unz64local_getByte ff h w = (UNZ_OK, ?b, w1)" "view w1 h = Some (c, ?q)"
    using getByte_view [OF Suc.prems] by auto
  from Suc.IH [OF b(2), of "shift + 8" "x OR push_bit shift (ucast ?b)"] obtain w' where
    w': "get_le ff h n (shift + 8) (x OR push_bit shift (ucast ?b)) w1 =
      (UNZ_OK, (x OR push_bit shift (ucast ?b)) OR push_bit (shift + 8) (le_word (take n (drop ?q c))), w')"
      "view w' h = Some (c, ?q + length (take n (drop ?q c)))" by auto
  have "le_word (take (Suc n) (drop p c)) = ucast ?b OR push_bit 8 (le_word (take n (drop ?q c)) :: u64)"
  proof (cases "p < length c")
    case True
    then have "take (Suc n) (drop p c) = c ! p # take n (drop (Suc p) c)"
      by (simp add: Cons_nth_drop_Suc [symmetric])
    with True show ?thesis by simp
  qed simp
  moreover have "p + length (take (Suc n) (drop p c)) = ?q + length (take n (drop ?q c))" by auto
  ultimately show ?case
    using b(1) w' by (simp add: push_bit_or or.assoc add.commute)
qed

lemma getShort_view:
  "view w h = Some (c, p) \<Longrightarrow> \<exists>w'. unz64local_getShort ff h w = (UNZ_OK, le_word (take 2 (drop p c)), w') \<and>
     view w' h = Some (c, p + length (take 2 (drop p c)))"
  using get_le_view [of w h c p 2 0 0] by (simp add: unz64local_getShort_def)

lemma getLong_view:
  "view w h = Some (c, p) \<Longrightarrow> \<exists>w'. unz64local_getLong ff h w = (UNZ_OK, le_word (take 4 (drop p c)), w') \<and>
     view w' h = Some (c, p + length (take 4 (drop p c)))"
  using get_le_view [of w h c p 4 0 0] by (simp add: unz64local_getLong_def)

lemma getLong64_view:
  "view w h = Some (c, p) \<Longrightarrow> \<exists>w'. unz64local_getLong64 ff h w = (UNZ_OK, le_word (take 8 (drop p c)), w') \<and>
     view w' h = Some (c, p + length (take 8 (drop p c)))"
  using get_le_view [of w h c p 8 0 0] by (simp add: unz64local_getLong64_def)

text \<open>The invariant of the search: what lies behind \<open>length c - b\<close> has been looked at.\<close>

lemma search_blocks_view:
  assumes "view w h = Some (c, p)" "length c < 2 ^ 63" "M = min 0xffff (length c)" "4 \<le> b" "b \<le> M \<or> b = 4"
    and "\<And>i. 0 < i \<Longrightarrow> i + 4 \<le> length c \<Longrightarrow> length c \<le> i + b \<Longrightarrow> b = 4 \<or> \<not> is_magic ENDHEADERMAGIC c i"
    and "M \<le> b + 1024 * (n - 1)" "0 < n"
  shows "\<exists>r w' q. search_blocks n ff h (of_nat (length c)) (of_nat M) (of_nat b) w = Some (of_nat r, w') \<and>
    end_record_at c r \<and> view w' h = Some (c, q)"
  using assms
proof (induction n arbitrary: w p b)
  case 0
  then show ?case by simp
next
  case (Suc n)
  let ?N = "length c"
  have small: "M < 2 ^ 64" "?N < 2 ^ 64" "M \<le> ?N" "M \<le> 0xffff" "b < 2 ^ 64"
    using Suc.prems(2,3,5) by auto
  show ?case
  proof (cases "b < M")
    case False
    then have "\<not> (of_nat b :: u64) < of_nat M" using small by (simp add: u64_of_nat_less)
    moreover have "end_record_at c 0"
      unfolding end_record_at_def using False Suc.prems(3,5,6) by (auto simp: min_def split: if_splits)
    ultimately show ?thesis
      using Suc.prems(1) by (intro exI [of _ 0]) auto
  next
    case True
    define b' where "b' = (if M < b + 1024 then M else b + 1024)"
    define rs where "rs = (if 1028 < b' then 1028 else b')"
    have b': "b < b'" "b' \<le> M" "b' \<le> b + 1024" "4 \<le> b'" using True Suc.prems(4) by (auto simp: b'_def)
    have rs: "rs \<le> b'" "rs \<le> 1028" "4 \<le> rs" "rs = b' \<or> rs = 1028" using b' by (auto simp: rs_def)
    have lt: "(of_nat b :: u64) < of_nat M" using True small by (simp add: u64_of_nat_less)
    have wb: "(if (of_nat b :: u64) + 0x400 > of_nat M then of_nat M else of_nat b + 0x400) = of_nat b'"
    proof -
      have "(of_nat b :: u64) + 0x400 = of_nat (b + 1024)" by simp
      then show ?thesis using small True u64_of_nat_less [of M "b + 1024"] by (simp add: b'_def)
    qed
    have wp: "(of_nat ?N :: u64) - of_nat b' = of_nat (?N - b')" using b' small by (simp add: of_nat_diff)
    have wr: "(if 0x400 + 4 < (of_nat ?N :: u64) - of_nat (?N - b') then 0x400 + 4
        else of_nat ?N - of_nat (?N - b')) = (of_nat rs :: u64)"
    proof -
      have d: "(of_nat ?N :: u64) - of_nat (?N - b') = of_nat b'" using b' small by (simp add: of_nat_diff)
      show ?thesis unfolding d using b' small u64_of_nat_less [of 1028 b'] by (auto simp: rs_def)
    qed
    let ?q = "?N - b'"
    let ?bs = "take rs (drop ?q c)"
    have len: "length ?bs = rs" using rs b' small by simp
    have urs: "unat (of_nat rs :: u64) = rs" "unat (of_nat ?q :: u64) = ?q"
      using rs small by (auto intro!: unat_u64_of_nat)
    have q63: "?q < 2 ^ 63" using Suc.prems(2) by simp
    obtain w1 where w1: "call_zseek64 ff h (of_nat ?q) ZLIB_FILEFUNC_SEEK_SET w = Some (0, w1)"
      "view w1 h = Some (c, ?q)"
      using zseek_set_law [OF Suc.prems(1), of "of_nat ?q"] unfolding urs(2) using q63 by auto
    obtain w2 where w2: "zread64 ff h (of_nat rs) w1 = (of_nat rs, ?bs, w2)" "view w2 h = Some (c, ?q + rs)"
      using zread_law [OF w1(2), of "of_nat rs"] urs len by auto
    have buf: "buffer_of rs ?bs = ?bs" using len by (simp add: buffer_of_def)
    let ?pos = "case find_magic ?bs (rs - 3) of Some i \<Rightarrow> of_nat ?q + of_nat i | None \<Rightarrow> (0 :: u64)"
    have step: "search_blocks (Suc n) ff h (of_nat ?N) (of_nat M) (of_nat b) w =
        (if ?pos \<noteq> 0 then Some (?pos, w2)
         else search_blocks n ff h (of_nat ?N) (of_nat M) (of_nat b') w2)"
      unfolding search_blocks.simps(2) Let_def wb wp wr using lt w1(1) w2(1) by (simp add: urs buf)
    have part: "is_magic ENDHEADERMAGIC ?bs j = is_magic ENDHEADERMAGIC c (?q + j)" if "j < rs - 3" for j
      using that rs b' small by (intro is_magic_part) auto
    have behind: "\<not> is_magic ENDHEADERMAGIC c i" if "0 < i" "?q + (rs - 3) \<le> i" "i + 4 \<le> ?N" for i
    proof -
      have "rs = 1028" using that rs b' small by auto
      then have "?N \<le> i + b" "b \<noteq> 4" using that b' small by auto
      with Suc.prems(6) that show ?thesis by blast
    qed
    show ?thesis
    proof (cases "find_magic ?bs (rs - 3)")
      case (Some j)
      then have j: "j < rs - 3" "is_magic ENDHEADERMAGIC c (?q + j)"
        "\<And>k. j < k \<Longrightarrow> k < rs - 3 \<Longrightarrow> \<not> is_magic ENDHEADERMAGIC c (?q + k)"
        using find_magic_spec [where buf = ?bs and n = "rs - 3"] part by auto
      have above: "\<not> is_magic ENDHEADERMAGIC c i" if "?q + j < i" "i + 4 \<le> ?N" for i
        using behind [of i] j(3) [of "i - ?q"] that by (cases "?q + (rs - 3) \<le> i") auto
      have pos: "?pos = of_nat (?q + j)" using Some by simp
      have qj: "?q + j + 4 \<le> ?N" using j(1) rs b' small by auto
      show ?thesis
      proof (cases "?q + j = 0")
        case False
        then have "(of_nat (?q + j) :: u64) \<noteq> 0"
          using u64_of_nat_eq [of "?q + j" 0] qj small by simp
        moreover have "end_record_at c (?q + j)"
          unfolding end_record_at_def using j(2) above qj b' small by auto
        ultimately show ?thesis
          using step pos w2(2) by (intro exI [of _ "?q + j"]) simp
      next
        case True
        have "0 < n" "M \<le> b' + 1024 * (n - 1)"
          using Suc.prems(7) \<open>b < M\<close> by (cases n; auto simp: b'_def)+
        with Suc.IH [OF w2(2) Suc.prems(2,3), of b'] step pos True b' above show ?thesis
          by auto
      qed
    next
      case None
      then have none: "\<not> is_magic ENDHEADERMAGIC c i" if "0 < i" "?N \<le> i + b'" "i + 4 \<le> ?N" for i
        using find_magic_spec [where buf = ?bs and n = "rs - 3"] part [of "i - ?q"] behind [of i] that b' small
        by (cases "?q + (rs - 3) \<le> i") auto
      have "0 < n" "M \<le> b' + 1024 * (n - 1)"
        using Suc.prems(7) \<open>b < M\<close> by (cases n; auto simp: b'_def)+
      with Suc.IH [OF w2(2) Suc.prems(2,3), of b'] step None b' none show ?thesis
        by auto
    qed
  qed
qed

end

section \<open>The end of the central directory\<close>

text \<open>The number of \<open>n\<close> bytes at position \<open>q\<close>, and the end record at \<open>r\<close>.\<close>

definition file_number :: "byte list \<Rightarrow> nat \<Rightarrow> nat \<Rightarrow> u64" where
  "file_number c q n = le_word (take n (drop q c))"

definition end_record_of :: "byte list \<Rightarrow> nat \<Rightarrow> end_record" where
  "end_record_of c r =
     \<lparr>er_number_disk = file_number c (r + 4) 2,
      er_gi = \<lparr>number_entry = file_number c (r + 8) 2, number_disk_with_CD = file_number c (r + 6) 2,
               size_comment = file_number c (r + 20) 2\<rparr>,
      er_size_central_dir = file_number c (r + 12) 4,
      er_offset_central_dir = file_number c (r + 16) 4\<rparr>"

context zip_file begin

lemma checked_short_view:
  "view w h = Some (c, p) \<Longrightarrow> p + 2 \<le> length c \<Longrightarrow>
   \<exists>w'. checked (unz64local_getShort ff h) (err, w) = (file_number c p 2, err, w') \<and> view w' h = Some (c, p + 2)"
  using getShort_view [of w h c p] by (auto simp: checked_def file_number_def)

lemma checked_long_view:
  "view w h = Some (c, p) \<Longrightarrow> p + 4 \<le> length c \<Longrightarrow>
   \<exists>w'. checked (unz64local_getLong ff h) (err, w) = (file_number c p 4, err, w') \<and> view w' h = Some (c, p + 4)"
  using getLong_view [of w h c p] by (auto simp: checked_def file_number_def)

lemma read_end_record_view:
  assumes "view w h = Some (c, r)" "r + 22 \<le> length c"
  shows "\<exists>w'. read_end_record ff h (err, w) =
      (end_record_of c r,
       if file_number c (r + 10) 2 \<noteq> file_number c (r + 8) 2 then UNZ_BADZIPFILE else err, w') \<and>
    view w' h = Some (c, r + 22)"
proof -
  let ?err = "if file_number c (r + 10) 2 \<noteq> file_number c (r + 8) 2 then UNZ_BADZIPFILE else err"
  obtain w1 where 1: "checked (unz64local_getLong ff h) (err, w) = (file_number c r 4, err, w1)"
    "view w1 h = Some (c, r + 4)"
    using checked_long_view [OF assms(1), of err] assms(2) by auto
  obtain w2 where 2: "checked (unz64local_getShort ff h) (err, w1) = (file_number c (r + 4) 2, err, w2)"
    "view w2 h = Some (c, r + 6)"
    using checked_short_view [OF 1(2), of err] assms(2) by auto
  obtain w3 where 3: "checked (unz64local_getShort ff h) (err, w2) = (file_number c (r + 6) 2, err, w3)"
    "view w3 h = Some (c, r + 8)"
    using checked_short_view [OF 2(2), of err] assms(2) by auto
  obtain w4 where 4: "checked (unz64local_getShort ff h) (err, w3) = (file_number c (r + 8) 2, err, w4)"
    "view w4 h = Some (c, r + 10)"
    using checked_short_view [OF 3(2), of err] assms(2) by auto
  obtain w5 where 5: "checked (unz64local_getShort ff h) (err, w4) = (file_number c (r + 10) 2, err, w5)"
    "view w5 h = Some (c, r + 12)"
    using checked_short_view [OF 4(2), of err] assms(2) by auto
  obtain w6 where 6: "checked (unz64local_getLong ff h) (?err, w5) = (file_number c (r + 12) 4, ?err, w6)"
    "view w6 h = Some (c, r + 16)"
    using checked_long_view [OF 5(2), of ?err] assms(2) by auto
  obtain w7 where 7: "checked (unz64local_getLong ff h) (?err, w6) = (file_number c (r + 16) 4, ?err, w7)"
    "view w7 h = Some (c, r + 20)"
    using checked_long_view [OF 6(2), of ?err] assms(2) by auto
  obtain w8 where 8: "checked (unz64local_getShort ff h) (?err, w7) = (file_number c (r + 20) 2, ?err, w8)"
    "view w8 h = Some (c, r + 22)"
    using checked_short_view [OF 7(2), of ?err] assms(2) by auto
  show ?thesis
    using 6(1) 7(1) 8 by (simp add: read_end_record_def end_record_of_def 1(1) 2(1) 3(1) 4(1) 5(1) Let_def)
qed

lemma SearchCentralDir_view:
  assumes "view w h = Some (c, p)" "length c < bound"
  shows "\<exists>r w' q. unz64local_SearchCentralDir ff h w = Some (of_nat r, w') \<and>
    end_record_at c r \<and> view w' h = Some (c, q)"
proof -
  have small: "length c < 2 ^ 63" using assms(2) bound_le by simp
  obtain w1 where 1: "call_zseek64 ff h 0 ZLIB_FILEFUNC_SEEK_END w = Some (0, w1)" "view w1 h = Some (c, length c)"
    using zseek_end_law [OF assms(1)] by auto
  have 2: "call_ztell64 ff h w1 = Some (of_nat (length c), w1)"
    using ztell_law [OF 1(2) assms(2)] .
  have m: "(if 0xffff > (of_nat (length c) :: u64) then of_nat (length c) else 0xffff) = of_nat (min 0xffff (length c))"
    using u64_of_nat_less [of "length c" "0xffff"] small by (auto simp: min_def)
  from search_blocks_view [OF 1(2) small refl, of 4 66] show ?thesis
    by (simp add: unz64local_SearchCentralDir_def 1(1) 2 m [simplified] del: search_blocks.simps)
qed

lemma SearchCentralDir64_view:
  assumes "view w h = Some (c, p)" "20 \<le> r" "r < 2 ^ 63" "file_number c (r - 20) 4 \<noteq> ZIP64ENDLOCHEADERMAGIC"
  shows "\<exists>w' q. unz64local_SearchCentralDir64 ff h (of_nat r) w = Some (0, w') \<and> view w' h = Some (c, q)"
proof -
  have off: "(of_nat r :: u64) - 0x14 = of_nat (r - 20)" using assms(2) by (simp add: of_nat_diff)
  have u: "unat (of_nat (r - 20) :: u64) = r - 20" using assms(3) by (intro unat_u64_of_nat) simp
  obtain w1 where 1: "call_zseek64 ff h (of_nat (r - 20)) ZLIB_FILEFUNC_SEEK_SET w = Some (0, w1)"
    "view w1 h = Some (c, r - 20)"
    using zseek_set_law [OF assms(1), of "of_nat (r - 20)"] le_less_trans [OF diff_le_self assms(3)] unfolding u
    by blast
  from getLong_view [OF 1(2)] assms(4) show ?thesis
    unfolding unz64local_SearchCentralDir64_def off by (auto simp: 1(1) file_number_def)
qed

lemma find_central_dir_view:
  assumes "view w h = Some (c, p)" "length c < bound"
    and "end_record_at c r" "20 \<le> r" "r + 22 \<le> length c"
    and "file_number c (r - 20) 4 \<noteq> ZIP64ENDLOCHEADERMAGIC"
  shows "\<exists>w' q. find_central_dir ff h w =
    (if file_number c (r + 10) 2 \<noteq> file_number c (r + 8) 2
     then Some (of_nat r, end_record_of c r, False, UNZ_BADZIPFILE, w')
     else if wants_zip64 (end_record_of c r) then Some (0, end_record_of c r, False, UNZ_BADZIPFILE, w')
     else Some (of_nat r, end_record_of c r, False, UNZ_OK, w')) \<and>
    view w' h = Some (c, q)"
proof -
  have small: "r < 2 ^ 63" using assms(2,5) bound_le by simp
  obtain r' w1 q where "unz64local_SearchCentralDir ff h w = Some (of_nat r', w1)" "end_record_at c r'"
    "view w1 h = Some (c, q)"
    using SearchCentralDir_view [OF assms(1,2)] by blast
  moreover from this(2) assms(3,4) have "r' = r"
    by (metis end_record_at_def linorder_neqE_nat not_numeral_le_zero gr0_implies_Suc less_nat_zero_code)
  ultimately have 1: "unz64local_SearchCentralDir ff h w = Some (of_nat r, w1)" "view w1 h = Some (c, q)" by simp_all
  have u: "unat (of_nat r :: u64) = r" using small by (intro unat_u64_of_nat) simp
  then have r0: "(of_nat r :: u64) \<noteq> 0" using assms(4) by auto
  obtain w2 where 2: "call_zseek64 ff h (of_nat r) ZLIB_FILEFUNC_SEEK_SET w1 = Some (0, w2)" "view w2 h = Some (c, r)"
    using zseek_set_law [OF 1(2), of "of_nat r"] small unfolding u by auto
  obtain w3 where 3: "read_end_record ff h (UNZ_OK, w2) = (end_record_of c r,
      if file_number c (r + 10) 2 \<noteq> file_number c (r + 8) 2 then UNZ_BADZIPFILE else UNZ_OK, w3)"
    "view w3 h = Some (c, r + 22)"
    using read_end_record_view [OF 2(2) assms(5), of UNZ_OK] by auto
  obtain w4 q4 where 4: "unz64local_SearchCentralDir64 ff h (of_nat r) w3 = Some (0, w4)" "view w4 h = Some (c, q4)"
    using SearchCentralDir64_view [OF 3(2) assms(4) small assms(6)] by auto
  show ?thesis
    using 3 4(2) by (auto simp: find_central_dir_def 1(1) r0 2(1) 4(1) Let_def)
qed

end

section \<open>The providers\<close>

text \<open>What a stream over \<^verbatim>\<open>stdio\<close> shows: nothing once it has an error.\<close>

definition stdio_view :: "stdio \<Rightarrow> addr \<Rightarrow> (byte list \<times> nat) option" where
  "stdio_view w h = (case sd_open w h of
     Some f \<Rightarrow> if of_error f then None else Some (file_content w f, of_pos f) | None \<Rightarrow> None)"

lemma stdio_view_Some:
  "stdio_view w h = Some (c, p) \<longleftrightarrow>
     (\<exists>f. sd_open w h = Some f \<and> \<not> of_error f \<and> c = file_content w f \<and> p = of_pos f)"
  by (auto simp: stdio_view_def split: option.splits if_splits)

lemma stdio_view_set_file:
  "stdio_view (set_file w h f) h = (if of_error f then None else Some (file_content w f, of_pos f))"
  by (simp add: stdio_view_def set_file_def file_content_def)

lemma file_content_pos [simp]: "file_content w (f\<lparr>of_pos := p\<rparr>) = file_content w f"
  by (simp add: file_content_def)

lemma sint_u64_small: "unat (off :: u64) < 2 ^ 63 \<Longrightarrow> sint off = int (unat off)"
proof -
  assume "unat off < 2 ^ 63"
  then have "int (unat off) < int (2 ^ 63)" by (simp only: of_nat_less_iff)
  then have "uint off < 2 ^ 63" by (simp only: uint_nat of_nat_power of_nat_numeral)
  then have "signed_take_bit 63 (uint off) = uint off"
    using order_trans [OF _ uint_ge_0, of "- (2 ^ 63)" off] by (intro signed_take_bit_int_eq_self) simp_all
  then show ?thesis by (simp add: sint_uint)
qed

text \<open>The two tables that \<^verbatim>\<open>ioapi.c\<close> fills.\<close>

interpretation stdio64: zip_file "table64 fill_fopen64_filefunc" stdio_view "2 ^ 63"
proof
  fix w :: stdio and h :: addr and c :: "byte list" and p :: nat
  assume "stdio_view w h = Some (c, p)"
  then obtain f where f: "sd_open w h = Some f" "\<not> of_error f" "c = file_content w f" "p = of_pos f"
    by (auto simp: stdio_view_Some)
  note tables = table64_def fill_fopen64_filefunc_def zread64_def zerror64_def call_zseek64_def call_ztell64_def
  show "\<exists>w'. zread64 (table64 fill_fopen64_filefunc) h n w =
      (of_nat (length (take (unat n) (drop p c))), take (unat n) (drop p c), w') \<and>
      stdio_view w' h = Some (c, p + length (take (unat n) (drop p c)))" for n
    using f by (simp add: tables fread_file_func_def stdio_view_set_file Let_def)
  show "\<exists>w'. call_zseek64 (table64 fill_fopen64_filefunc) h off 0 w = Some (0, w') \<and>
      stdio_view w' h = Some (c, unat off)" if "unat off < 2 ^ 63" for off :: u64
    using f sint_u64_small [OF that] by (simp add: tables fseek64_file_func_def fseeko_def stdio_view_set_file)
  show "\<exists>w'. call_zseek64 (table64 fill_fopen64_filefunc) h 0 2 w = Some (0, w') \<and>
      stdio_view w' h = Some (c, length c)"
    using f by (simp add: tables fseek64_file_func_def fseeko_def stdio_view_set_file)
  show "call_ztell64 (table64 fill_fopen64_filefunc) h w = Some (of_nat p, w)"
    using f by (simp add: tables ftell64_file_func_def)
  show "zerror64 (table64 fill_fopen64_filefunc) h w = (0, w)"
    using f by (simp add: tables ferror_file_func_def)
qed simp

interpretation stdio32: zip_file "fill_zlib_filefunc64_32_def_from_filefunc32 fill_fopen_filefunc" stdio_view "2 ^ 32 - 1"
proof
  fix w :: stdio and h :: addr and c :: "byte list" and p :: nat
  assume "stdio_view w h = Some (c, p)"
  then obtain f where f: "sd_open w h = Some f" "\<not> of_error f" "c = file_content w f" "p = of_pos f"
    by (auto simp: stdio_view_Some)
  note tables = fill_zlib_filefunc64_32_def_from_filefunc32_def fill_fopen_filefunc_def zread64_def zerror64_def
    call_zseek64_def call_ztell64_def
  let ?ff = "fill_zlib_filefunc64_32_def_from_filefunc32 fill_fopen_filefunc"
  show "\<exists>w'. zread64 ?ff h n w =
      (of_nat (length (take (unat n) (drop p c))), take (unat n) (drop p c), w') \<and>
      stdio_view w' h = Some (c, p + length (take (unat n) (drop p c)))" for n
    using f by (simp add: tables fread_file_func_def stdio_view_set_file Let_def)
  show "\<exists>w'. call_zseek64 ?ff h off 0 w = Some (0, w') \<and> stdio_view w' h = Some (c, unat off)"
    if "unat off < 2 ^ 63" for off :: u64
    using f sint_u64_small [OF that] by (simp add: tables fseek_file_func_def fseeko_def stdio_view_set_file)
  show "\<exists>w'. call_zseek64 ?ff h 0 2 w = Some (0, w') \<and> stdio_view w' h = Some (c, length c)"
    using f by (simp add: tables fseek_file_func_def fseeko_def stdio_view_set_file)
  show "call_ztell64 ?ff h w = Some (of_nat p, w)" if "p < 2 ^ 32 - 1"
    using f that u64_of_nat_eq [of p "0xffffffff"] by (simp add: tables ftell_file_func_def)
  show "zerror64 ?ff h w = (0, w)"
    using f by (simp add: tables ferror_file_func_def)
qed simp

section \<open>Properties\<close>

text \<open>
  Reading a header from a file that ends too early is not an error: the readers of numbers take
  every byte behind the end of the file for 0 and report success, because the code for the end of a
  file is the code for success. Within the file they return the little-endian number at the
  position and advance past it.
\<close>

lemma unz_numbers_of_file:
  assumes "stdio_view w h = Some (c, p)"
  shows "(\<exists>w'. unz64local_getShort (table64 fill_fopen64_filefunc) h w = (UNZ_OK, le_word (take 2 (drop p c)), w') \<and>
      stdio_view w' h = Some (c, p + length (take 2 (drop p c)))) \<and>
    (\<exists>w'. unz64local_getLong (table64 fill_fopen64_filefunc) h w = (UNZ_OK, le_word (take 4 (drop p c)), w') \<and>
      stdio_view w' h = Some (c, p + length (take 4 (drop p c)))) \<and>
    (\<exists>w'. unz64local_getLong64 (table64 fill_fopen64_filefunc) h w = (UNZ_OK, le_word (take 8 (drop p c)), w') \<and>
      stdio_view w' h = Some (c, p + length (take 8 (drop p c))))"
  using stdio64.getShort_view [OF assms] stdio64.getLong_view [OF assms] stdio64.getLong64_view [OF assms] by blast

definition one_file :: "byte list \<Rightarrow> stdio" where
  "one_file c = \<lparr>sd_files = [''a.zip'' \<mapsto> c],
     sd_open = [1 \<mapsto> \<lparr>of_name = ''a.zip'', of_pos = 0, of_write = False, of_error = False\<rparr>], sd_next = 1\<rparr>"

lemma stdio_view_one_file: "stdio_view (one_file c) 1 = Some (c, 0)"
  by (simp add: stdio_view_def one_file_def file_content_def)

lemma unz_numbers_of_file_witness:
  "\<exists>w'. unz64local_getLong (table64 fill_fopen64_filefunc) 1 (one_file [0x50, 0x4b]) = (UNZ_OK, 0x4b50, w')"
  using unz_numbers_of_file [OF stdio_view_one_file, of "[0x50, 0x4b]"]
  by (auto simp: push_bit_eq_mult or_numerals)

text \<open>
  C39: The search for the end of the central directory ends, whatever the file holds, and finds the
  last place in the last 65535 bytes where the magic number stands, or 0. The blocks of 1028
  bytes leave no gap. It is so for both tables of file functions; the 32-bit one is good for files of less
  than \<open>2 ^ 32 - 1\<close> bytes. A record at the very start of the file, as an empty archive has it, is
  not found.
\<close>

lemma unz_search_finds_last_record:
  assumes "stdio_view w h = Some (c, p)"
  shows "(length c < 2 ^ 63 \<longrightarrow>
      (\<exists>r w' q. unz64local_SearchCentralDir (table64 fill_fopen64_filefunc) h w = Some (of_nat r, w') \<and>
         end_record_at c r \<and> stdio_view w' h = Some (c, q))) \<and>
    (length c < 2 ^ 32 - 1 \<longrightarrow>
      (\<exists>r w' q. unz64local_SearchCentralDir
           (fill_zlib_filefunc64_32_def_from_filefunc32 fill_fopen_filefunc) h w = Some (of_nat r, w') \<and>
         end_record_at c r \<and> stdio_view w' h = Some (c, q)))"
  using stdio64.SearchCentralDir_view [OF assms] stdio32.SearchCentralDir_view [OF assms] by blast

lemma end_record_at_unique: "end_record_at c r \<Longrightarrow> end_record_at c r' \<Longrightarrow> r = r'"
  unfolding end_record_at_def by (metis linorder_neqE_nat not_less0)

text \<open>Twenty bytes and an end record whose directory size is \<open>n\<close>.\<close>

definition small_archive :: "byte list \<Rightarrow> byte list" where
  "small_archive n = replicate 20 0 @ [0x50, 0x4b, 0x05, 0x06] @ replicate 8 0 @ n @ replicate 6 0"

lemma end_record_at_small: "end_record_at (small_archive [0xff, 0xff, 0, 0]) 20"
proof -
  have c: "small_archive [0xff, 0xff, 0, 0] =
    [0, 0, 0, 0, 0, 0, 0, 0, 0, 0, 0, 0, 0, 0, 0, 0, 0, 0, 0, 0, 0x50, 0x4b, 0x05, 0x06, 0, 0, 0, 0, 0, 0, 0, 0,
     0xff, 0xff, 0, 0, 0, 0, 0, 0, 0, 0]"
    by (simp add: small_archive_def numeral_eq_Suc)
  have no: "\<forall>i \<in> set [21..<39]. \<not> is_magic ENDHEADERMAGIC (small_archive [0xff, 0xff, 0, 0]) i"
    unfolding c by code_simp
  have "is_magic ENDHEADERMAGIC (small_archive [0xff, 0xff, 0, 0]) 20" unfolding c by code_simp
  moreover have "\<not> is_magic ENDHEADERMAGIC (small_archive [0xff, 0xff, 0, 0]) i" if "20 < i" "i \<le> 38" for i
  proof -
    have "i \<in> set [21..<39]" unfolding set_upt using that by simp
    with no show ?thesis by (rule bspec)
  qed
  moreover have "length (small_archive [0xff, 0xff, 0, 0]) = 42" unfolding c by simp
  ultimately show ?thesis by (simp add: end_record_at_def)
qed

lemma unz_search_finds_last_record_witness:
  "\<exists>w'. unz64local_SearchCentralDir (table64 fill_fopen64_filefunc) 1 (one_file (small_archive [0xff, 0xff, 0, 0])) =
     Some (20, w')"
proof -
  have "length (small_archive [0xff, 0xff, 0, 0]) < 2 ^ 63" by (simp add: small_archive_def)
  with unz_search_finds_last_record [OF stdio_view_one_file, of "small_archive [0xff, 0xff, 0, 0]"]
  obtain r w' where "unz64local_SearchCentralDir (table64 fill_fopen64_filefunc) 1
      (one_file (small_archive [0xff, 0xff, 0, 0])) = Some (of_nat r, w')"
    "end_record_at (small_archive [0xff, 0xff, 0, 0]) r" by blast
  with end_record_at_unique [OF end_record_at_small] show ?thesis by force
qed

end
