(* ===== verification/Zip_Blocks.thy ===== *)
theory Zip_Blocks
  imports Zip_Extract Zip_Read
begin

text \<open>
  The tools of the archive writer \<^verbatim>\<open>zip.c\<close>: the linked list of blocks in which the central directory is
  kept until the archive is closed, the date of an entry, and the writers and readers of
  little-endian numbers.
\<close>

unbundle bit_operations_syntax

section \<open>Constants\<close>

abbreviation (input) ZIP_OK :: int where "ZIP_OK \<equiv> 0"
abbreviation (input) ZIP_EOF :: int where "ZIP_EOF \<equiv> 0"
abbreviation (input) ZIP_ERRNO :: int where "ZIP_ERRNO \<equiv> -1"
abbreviation (input) ZIP_PARAMERROR :: int where "ZIP_PARAMERROR \<equiv> -102"
abbreviation (input) ZIP_BADZIPFILE :: int where "ZIP_BADZIPFILE \<equiv> -103"
abbreviation (input) ZIP_INTERNALERROR :: int where "ZIP_INTERNALERROR \<equiv> -104"
abbreviation (input) SIZEDATA_INDATABLOCK :: nat where "SIZEDATA_INDATABLOCK \<equiv> 4080"
abbreviation (input) DISKHEADERMAGIC :: u64 where "DISKHEADERMAGIC \<equiv> 0x08074b50"

section \<open>The blocks of the central directory\<close>

text \<open>
  A list of blocks, from \<^verbatim>\<open>first_block\<close> to \<^verbatim>\<open>last_block\<close>; the empty list is the pair of NULL pointers. What
  \<^verbatim>\<open>malloc\<close> leaves in the data of a new block is taken to be 0: it is written before it is read. The
  two counters are at most 4080.
\<close>

record linkedlist_datablock_internal =
  avail_in_this_block :: nat
  filled_in_this_block :: nat
  block_data :: "byte list"

type_synonym linkedlist_data = "linkedlist_datablock_internal list"

definition allocate_new_datablock :: linkedlist_datablock_internal where
  "allocate_new_datablock =
     \<lparr>avail_in_this_block = SIZEDATA_INDATABLOCK, filled_in_this_block = 0,
      block_data = replicate SIZEDATA_INDATABLOCK 0\<rparr>"

definition init_linkedlist :: linkedlist_data where
  "init_linkedlist = []"

definition free_linkedlist :: "linkedlist_data \<Rightarrow> linkedlist_data" where
  "free_linkedlist ll = []"

text \<open>One turn of the copying loop, on the last block.\<close>

definition fill_block ::
  "linkedlist_datablock_internal \<Rightarrow> byte list \<Rightarrow> linkedlist_datablock_internal \<times> byte list" where
  "fill_block ldi from_copy =
     (let copy_this = (if avail_in_this_block ldi < length from_copy then avail_in_this_block ldi
                       else length from_copy) in
      (ldi\<lparr>block_data := buffer_write (block_data ldi) (filled_in_this_block ldi) (take copy_this from_copy),
           filled_in_this_block := filled_in_this_block ldi + copy_this,
           avail_in_this_block := avail_in_this_block ldi - copy_this\<rparr>,
       drop copy_this from_copy))"

text \<open>The blocks before the last one, the last one, and the bytes that are left.\<close>

function fill_blocks ::
  "linkedlist_data \<Rightarrow> linkedlist_datablock_internal \<Rightarrow> byte list \<Rightarrow> linkedlist_data" where
  "fill_blocks prev ldi from_copy =
     (if from_copy = [] then prev @ [ldi]
      else
        let (prev, ldi) = (if avail_in_this_block ldi = 0 then (prev @ [ldi], allocate_new_datablock)
                           else (prev, ldi));
            (ldi, from_copy) = fill_block ldi from_copy in
        fill_blocks prev ldi from_copy)"
  by pat_completeness auto
termination
  by (relation "measure (\<lambda>(_, _, bs). length bs)")
    (auto simp: fill_block_def allocate_new_datablock_def Let_def split: if_splits)

declare fill_blocks.simps [simp del]

text \<open>\<open>buf\<close> are the \<^verbatim>\<open>len\<close> bytes.\<close>

definition add_data_in_datablock :: "linkedlist_data \<Rightarrow> byte list \<Rightarrow> int \<times> linkedlist_data" where
  "add_data_in_datablock ll buf =
     (let ll = (if ll = [] then [allocate_new_datablock] else ll) in
      (ZIP_OK, fill_blocks (butlast ll) (last ll) buf))"

subsection \<open>What the list holds\<close>

definition block_bytes :: "linkedlist_datablock_internal \<Rightarrow> byte list" where
  "block_bytes ldi = take (filled_in_this_block ldi) (block_data ldi)"

definition blocks_bytes :: "linkedlist_data \<Rightarrow> byte list" where
  "blocks_bytes ll = concat (map block_bytes ll)"

definition block_ok :: "linkedlist_datablock_internal \<Rightarrow> bool" where
  "block_ok ldi \<longleftrightarrow> filled_in_this_block ldi + avail_in_this_block ldi = SIZEDATA_INDATABLOCK \<and>
     length (block_data ldi) = SIZEDATA_INDATABLOCK"

text \<open>Every block but the last one is full.\<close>

definition blocks_ok :: "linkedlist_data \<Rightarrow> bool" where
  "blocks_ok ll \<longleftrightarrow> (\<forall>ldi \<in> set ll. block_ok ldi) \<and> (\<forall>ldi \<in> set (butlast ll). avail_in_this_block ldi = 0)"

lemma block_ok_new [simp]: "block_ok allocate_new_datablock"
  by (simp add: block_ok_def allocate_new_datablock_def)

lemma block_bytes_new [simp]: "block_bytes allocate_new_datablock = []"
  by (simp add: block_bytes_def allocate_new_datablock_def)

lemma blocks_bytes_append [simp]: "blocks_bytes (xs @ ys) = blocks_bytes xs @ blocks_bytes ys"
  by (simp add: blocks_bytes_def)

lemma blocks_bytes_simps [simp]: "blocks_bytes [] = []" "blocks_bytes (b # ll) = block_bytes b @ blocks_bytes ll"
  by (simp_all add: blocks_bytes_def)

lemma fill_block_ok:
  assumes "block_ok ldi" "fill_block ldi bs = (ldi', bs')"
  shows "block_ok ldi'" "block_bytes ldi' @ bs' = block_bytes ldi @ bs" "bs' \<noteq> [] \<Longrightarrow> avail_in_this_block ldi' = 0"
proof -
  have "SIZEDATA_INDATABLOCK - filled_in_this_block ldi = avail_in_this_block ldi"
    using assms(1) by (auto simp: block_ok_def)
  with assms show "block_ok ldi'" "block_bytes ldi' @ bs' = block_bytes ldi @ bs"
    "bs' \<noteq> [] \<Longrightarrow> avail_in_this_block ldi' = 0"
    by (auto simp: fill_block_def block_ok_def block_bytes_def buffer_write_def Let_def split: if_splits)
qed

lemma fill_blocks_ok:
  "blocks_ok (prev @ [ldi]) \<Longrightarrow>
   blocks_ok (fill_blocks prev ldi bs) \<and>
   blocks_bytes (fill_blocks prev ldi bs) = blocks_bytes prev @ block_bytes ldi @ bs"
proof (induction prev ldi bs rule: fill_blocks.induct)
  case (1 prev ldi bs)
  obtain prev1 ldi1 where p: "(if avail_in_this_block ldi = 0 then (prev @ [ldi], allocate_new_datablock)
      else (prev, ldi)) = (prev1, ldi1)" by (rule prod.exhaust)
  obtain ldi2 bs' where f: "fill_block ldi1 bs = (ldi2, bs')" by (rule prod.exhaust)
  have ok1: "blocks_ok (prev1 @ [ldi1])" "blocks_bytes prev1 @ block_bytes ldi1 = blocks_bytes prev @ block_bytes ldi"
    using "1.prems" p by (auto simp: blocks_ok_def butlast_append split: if_splits)
  have b1: "block_ok ldi1" using ok1(1) by (simp add: blocks_ok_def)
  have ok2: "blocks_ok (prev1 @ [ldi2])"
    using ok1(1) fill_block_ok(1) [OF b1 f] by (auto simp: blocks_ok_def butlast_append)
  have step: "fill_blocks prev ldi bs = fill_blocks prev1 ldi2 bs'" if "bs \<noteq> []"
    using that p f by (subst fill_blocks.simps) simp
  show ?case
  proof (cases "bs = []")
    case True
    with "1.prems" show ?thesis by (simp add: fill_blocks.simps)
  next
    case False
    have "blocks_ok (fill_blocks prev1 ldi2 bs') \<and>
      blocks_bytes (fill_blocks prev1 ldi2 bs') = blocks_bytes prev1 @ block_bytes ldi2 @ bs'"
      by (rule "1.IH" [OF False p [symmetric] refl f [symmetric] refl ok2])
    moreover have "blocks_bytes prev1 @ block_bytes ldi2 @ bs' = blocks_bytes prev @ block_bytes ldi @ bs"
      unfolding fill_block_ok(2) [OF b1 f] using ok1(2) by (metis append_assoc)
    ultimately show ?thesis unfolding step [OF False] by simp
  qed
qed

section \<open>Dates\<close>

record tm_zip =
  tz_sec :: u32
  tz_min :: u32
  tz_hour :: u32
  tz_mday :: u32
  tz_mon :: u32
  tz_year :: u32

definition zip64local_TmzDateToDosDate :: "tm_zip \<Rightarrow> u64" where
  "zip64local_TmzDateToDosDate ptm =
     (if \<not> (1980 \<le> tz_year ptm \<and> tz_year ptm \<le> 2107 \<or> 0 \<le> tz_year ptm \<and> tz_year ptm \<le> 207) \<or>
         \<not> (0 \<le> tz_mon ptm \<and> tz_mon ptm \<le> 11) \<or>
         \<not> (1 \<le> tz_mday ptm \<and> tz_mday ptm \<le> 31) \<or>
         \<not> (0 \<le> tz_hour ptm \<and> tz_hour ptm \<le> 23) \<or>
         \<not> (0 \<le> tz_min ptm \<and> tz_min ptm \<le> 59) \<or>
         \<not> (0 \<le> tz_sec ptm \<and> tz_sec ptm \<le> 59)
      then 0
      else
        let year = (ucast (tz_year ptm) :: u64);
            year = (if year \<ge> 1980 then year - 1980 else if year \<ge> 80 then year - 80 else year + 20) in
        push_bit 16 (ucast (tz_mday ptm + 32 * (tz_mon ptm + 1)) + 512 * year) OR
        (ucast (tz_sec ptm div 2 + 32 * tz_min ptm) + 2048 * ucast (tz_hour ptm)))"

section \<open>Writing numbers\<close>

text \<open>The bytes that the loop stores, and what is left of the number.\<close>

fun split_bytes :: "nat \<Rightarrow> u64 \<Rightarrow> byte list \<times> u64" where
  "split_bytes 0 x = ([], x)"
| "split_bytes (Suc n) x =
     (case split_bytes n (drop_bit 8 x) of (buf, x') \<Rightarrow> (ucast (x AND 0xff) # buf, x'))"

definition zip64local_putValue_inmemory :: "u64 \<Rightarrow> nat \<Rightarrow> byte list" where
  "zip64local_putValue_inmemory x nbByte =
     (case split_bytes nbByte x of (buf, x) \<Rightarrow> if x \<noteq> 0 then replicate nbByte 0xff else buf)"

definition zwrite64 :: "'w zlib_filefunc64_32_def \<Rightarrow> addr \<Rightarrow> byte list \<Rightarrow> u64 \<Rightarrow> 'w \<Rightarrow> u64 \<times> 'w" where
  "zwrite64 ff h buf n w = zwrite64_file (zfile_func64 ff) w h buf n"

definition zip64local_putValue ::
  "'w zlib_filefunc64_32_def \<Rightarrow> addr \<Rightarrow> u64 \<Rightarrow> nat \<Rightarrow> 'w \<Rightarrow> int \<times> 'w" where
  "zip64local_putValue ff h x nbByte w =
     (let buf = (case split_bytes nbByte x of (buf, x) \<Rightarrow> if x \<noteq> 0 then replicate nbByte 0xff else buf) in
      (case zwrite64 ff h buf (of_nat nbByte) w of (n, w) \<Rightarrow>
         (if n \<noteq> of_nat nbByte then ZIP_ERRNO else ZIP_OK, w)))"

section \<open>Reading numbers\<close>

text \<open>\<open>pi\<close> is the variable behind the pointer: at the end of the file it keeps its value.\<close>

definition zip64local_getByte :: "'w zlib_filefunc64_32_def \<Rightarrow> addr \<Rightarrow> byte \<Rightarrow> 'w \<Rightarrow> int \<times> byte \<times> 'w" where
  "zip64local_getByte ff h pi w =
     (case zread64 ff h 1 w of (err, bs, w) \<Rightarrow>
        if err = 1 then (ZIP_OK, hd (buffer_of 1 bs), w)
        else (case zerror64 ff h w of (e, w) \<Rightarrow>
                (if e \<noteq> 0 then ZIP_ERRNO else ZIP_EOF, pi, w)))"

text \<open>
  \<open>zip64local_getShort\<close>, \<open>getLong\<close> and \<open>getLong64\<close> are the same code for two, four and eight bytes,
  with one variable \<open>i\<close> for all of them; on an error the result is 0.
\<close>

fun zget_le :: "'w zlib_filefunc64_32_def \<Rightarrow> addr \<Rightarrow> nat \<Rightarrow> nat \<Rightarrow> byte \<Rightarrow> u64 \<Rightarrow> 'w \<Rightarrow> int \<times> u64 \<times> 'w" where
  "zget_le ff h 0 shift i x w = (ZIP_OK, x, w)"
| "zget_le ff h (Suc n) shift i x w =
     (case zip64local_getByte ff h i w of (err, i, w) \<Rightarrow>
        if err = ZIP_OK then zget_le ff h n (shift + 8) i (x + push_bit shift (ucast i)) w
        else (err, 0, w))"

definition zip64local_getShort :: "'w zlib_filefunc64_32_def \<Rightarrow> addr \<Rightarrow> 'w \<Rightarrow> int \<times> u64 \<times> 'w" where
  "zip64local_getShort ff h w = zget_le ff h 2 0 0 0 w"

definition zip64local_getLong :: "'w zlib_filefunc64_32_def \<Rightarrow> addr \<Rightarrow> 'w \<Rightarrow> int \<times> u64 \<times> 'w" where
  "zip64local_getLong ff h w = zget_le ff h 4 0 0 0 w"

definition zip64local_getLong64 :: "'w zlib_filefunc64_32_def \<Rightarrow> addr \<Rightarrow> 'w \<Rightarrow> int \<times> u64 \<times> 'w" where
  "zip64local_getLong64 ff h w = zget_le ff h 8 0 0 0 w"

section \<open>Properties\<close>

lemma add_data_ok:
  assumes "blocks_ok ll"
  shows "\<exists>ll'. add_data_in_datablock ll buf = (ZIP_OK, ll') \<and> blocks_ok ll' \<and>
    blocks_bytes ll' = blocks_bytes ll @ buf"
proof (cases "ll = []")
  case True
  then show ?thesis
    using fill_blocks_ok [of "[]" allocate_new_datablock buf]
    by (auto simp: add_data_in_datablock_def blocks_ok_def)
next
  case False
  then have ll: "butlast ll @ [last ll] = ll" by simp
  have "blocks_bytes ll = blocks_bytes (butlast ll) @ block_bytes (last ll)"
    by (subst ll [symmetric]) (simp del: append_butlast_last_id)
  with fill_blocks_ok [of "butlast ll" "last ll" buf] assms False show ?thesis
    by (simp add: add_data_in_datablock_def)
qed

text \<open>
  The blocks together hold exactly the bytes that were added, in order: adding data never
  fails (memory does not run out), appends it to what is there, and keeps the invariant that every
  block but the last one is full and that the two counters of a block add up to its size.
\<close>

lemma add_data_in_datablock_appends:
  assumes "blocks_ok ll"
  shows "\<exists>ll'. add_data_in_datablock ll buf = (ZIP_OK, ll') \<and> blocks_ok ll' \<and>
    blocks_bytes ll' = blocks_bytes ll @ buf"
  by (rule add_data_ok [OF assms])

lemma split_bytes_eq: "split_bytes n x = (le_bytes n (unat x), drop_bit (8 * n) x)"
proof (induction n arbitrary: x)
  case 0
  then show ?case by simp
next
  case (Suc n)
  have "(ucast (x AND 0xff) :: byte) = of_nat (unat x)"
    by (rule bit_word_eqI) (auto simp: bit_simps bit_255_int numeral_eq_Suc)
  moreover have "unat (drop_bit 8 x) = unat x div 256" unfolding unat_drop_bit_eq by (simp add: drop_bit_eq_div)
  ultimately show ?case by (simp add: Suc.IH drop_bit_drop_bit add.commute)
qed

subsection \<open>Dates\<close>

definition tm_valid :: "tm_zip \<Rightarrow> bool" where
  "tm_valid t \<longleftrightarrow>
     (unat (tz_year t) \<le> 207 \<or> 1980 \<le> unat (tz_year t) \<and> unat (tz_year t) \<le> 2107) \<and> unat (tz_mon t) \<le> 11 \<and>
     1 \<le> unat (tz_mday t) \<and> unat (tz_mday t) \<le> 31 \<and> unat (tz_hour t) \<le> 23 \<and>
     unat (tz_min t) \<le> 59 \<and> unat (tz_sec t) \<le> 59"

definition full_year :: "nat \<Rightarrow> nat" where
  "full_year y = (if 1980 \<le> y then y else if 80 \<le> y then y + 1900 else y + 2000)"

lemma unat_mask_part: "unat (drop_bit k (x :: u64) AND mask m) = unat x div 2 ^ k mod 2 ^ m"
  by (simp only: take_bit_eq_mask [symmetric] unsigned_take_bit_eq unat_drop_bit_eq)
    (simp only: drop_bit_eq_div take_bit_eq_mod)

lemma word_bits_div: "((x :: u64) AND push_bit k (mask m)) div 2 ^ k = drop_bit k x AND mask m"
  by (rule bit_word_eqI) (auto simp: drop_bit_eq_div [symmetric] bit_simps dest: bit_imp_le_length)

lemma unat_masked_part:
  "M = push_bit k (mask m) \<Longrightarrow> D = 2 ^ k \<Longrightarrow> unat (((x :: u64) AND M) div D) = unat x div 2 ^ k mod 2 ^ m"
  by (simp only: word_bits_div unat_mask_part)

lemma unat_masked:
  "unat ((x :: u64) AND 0x1f) = unat x mod 32"
  "unat (((x :: u64) AND 0x7E0) div 0x20) = unat x div 32 mod 64"
  "unat (((x :: u64) AND 0xF800) div 0x800) = unat x div 2048 mod 32"
  "unat (((x :: u64) AND 0x1E0) div 0x20) = unat x div 32 mod 16"
  "unat (((x :: u64) AND 0xFE00) div 0x200) = unat x div 512 mod 128"
      apply (use unat_mask_part [of 0 x 5] in \<open>simp add: mask_eq_exp_minus_1\<close>)
     apply (subst unat_masked_part [where k = 5 and m = 6]; simp add: mask_eq_exp_minus_1 push_bit_eq_mult)
    apply (subst unat_masked_part [where k = 11 and m = 5]; simp add: mask_eq_exp_minus_1 push_bit_eq_mult)
   apply (subst unat_masked_part [where k = 5 and m = 4]; simp add: mask_eq_exp_minus_1 push_bit_eq_mult)
  apply (subst unat_masked_part [where k = 9 and m = 7]; simp add: mask_eq_exp_minus_1 push_bit_eq_mult)
  done

lemma unat_ucast_u32: "unat (ucast (x :: u32) :: u64) = unat x"
proof -
  have "unat x < 2 ^ LENGTH(32)" by (rule unsigned_less)
  then show ?thesis by (simp add: unsigned_ucast_eq take_bit_nat_eq_self)
qed

lemma ucast_u32_of_nat: "n < 2 ^ 32 \<Longrightarrow> (ucast (of_nat n :: u32) :: u64) = of_nat n"
  by (simp add: unsigned_of_nat take_bit_nat_eq_self)

lemma TmzDate_word:
  assumes "tm_valid t"
  shows "zip64local_TmzDateToDosDate t =
    push_bit 16 (of_nat (unat (tz_mday t) + 32 * (unat (tz_mon t) + 1) + 512 * (full_year (unat (tz_year t)) - 1980))) OR
    of_nat (unat (tz_sec t) div 2 + 32 * unat (tz_min t) + 2048 * unat (tz_hour t))"
proof -
  let ?d = "unat (tz_mday t)" and ?o = "unat (tz_mon t)" and ?y = "unat (tz_year t)"
  let ?s = "unat (tz_sec t)" and ?i = "unat (tz_min t)" and ?h = "unat (tz_hour t)"
  define n where "n = full_year ?y - 1980"
  note v = assms [unfolded tm_valid_def]
  have "tz_mday t + 32 * (tz_mon t + 1) = of_nat (?d + 32 * (?o + 1))" by simp
  moreover have "?d + 32 * (?o + 1) < 2 ^ 32" using v by simp
  ultimately have A: "(ucast (tz_mday t + 32 * (tz_mon t + 1)) :: u64) = of_nat (?d + 32 * (?o + 1))"
    by (simp only: ucast_u32_of_nat)
  have "tz_sec t div 2 + 32 * tz_min t = of_nat (?s div 2 + 32 * ?i)"
    by (simp add: word_unat_eq_iff unat_div unat_word_ariths unat_of_nat mod_simps)
  moreover have "?s div 2 + 32 * ?i < 2 ^ 32" using v by (auto intro: le_less_trans [of _ "59 + 32 * 59"])
  ultimately have B: "(ucast (tz_sec t div 2 + 32 * tz_min t) :: u64) = of_nat (?s div 2 + 32 * ?i)"
    by (simp only: ucast_u32_of_nat)
  have C: "(ucast (tz_hour t) :: u64) = of_nat ?h" by simp
  have y64: "(ucast (tz_year t) :: u64) = of_nat ?y" by simp
  have Y: "(if ucast (tz_year t) \<ge> (1980 :: u64) then ucast (tz_year t) - 1980
      else if ucast (tz_year t) \<ge> (80 :: u64) then ucast (tz_year t) - 80 else ucast (tz_year t) + 20) =
      (of_nat n :: u64)"
    unfolding y64 n_def using v by (auto simp: full_year_def word_le_nat_alt unat_ucast_u32 of_nat_diff)
  have ok: "\<not> (\<not> (1980 \<le> tz_year t \<and> tz_year t \<le> 2107 \<or> 0 \<le> tz_year t \<and> tz_year t \<le> 207) \<or>
         \<not> (0 \<le> tz_mon t \<and> tz_mon t \<le> 11) \<or> \<not> (1 \<le> tz_mday t \<and> tz_mday t \<le> 31) \<or>
         \<not> (0 \<le> tz_hour t \<and> tz_hour t \<le> 23) \<or> \<not> (0 \<le> tz_min t \<and> tz_min t \<le> 59) \<or>
         \<not> (0 \<le> tz_sec t \<and> tz_sec t \<le> 59))"
    using v by (simp add: word_le_nat_alt) blast
  show ?thesis
    unfolding zip64local_TmzDateToDosDate_def Let_def Y A B C n_def [symmetric] using ok by (simp add: algebra_simps)
qed

lemma unat_TmzDate:
  assumes "tm_valid t"
  shows "unat (zip64local_TmzDateToDosDate t) =
    65536 * (unat (tz_mday t) + 32 * (unat (tz_mon t) + 1) + 512 * (full_year (unat (tz_year t)) - 1980)) +
    (unat (tz_sec t) div 2 + 32 * unat (tz_min t) + 2048 * unat (tz_hour t))"
proof -
  define a where "a = unat (tz_mday t) + 32 * (unat (tz_mon t) + 1) + 512 * (full_year (unat (tz_year t)) - 1980)"
  define b where "b = unat (tz_sec t) div 2 + 32 * unat (tz_min t) + 2048 * unat (tz_hour t)"
  have a: "a < 65536" using assms by (auto simp: a_def tm_valid_def full_year_def)
  have b: "b < 65536" using assms by (auto simp: b_def tm_valid_def)
  have "push_bit 16 (of_nat a :: u64) OR of_nat b = push_bit 16 (of_nat a) + of_nat b"
  proof (rule disjunctive_add [symmetric])
    fix n
    have "take_bit 16 b = b" using b by (simp add: take_bit_nat_eq_self)
    then have "\<not> bit b n" if "16 \<le> n" using that by (metis bit_take_bit_iff not_le)
    then show "\<not> bit (push_bit 16 (of_nat a :: u64)) n \<or> \<not> bit (of_nat b :: u64) n"
      by (auto simp: bit_simps)
  qed
  also have "\<dots> = of_nat (65536 * a + b)" by (simp add: push_bit_eq_mult)
  finally have "zip64local_TmzDateToDosDate t = of_nat (65536 * a + b)"
    unfolding TmzDate_word [OF assms] a_def [symmetric] b_def [symmetric] .
  moreover have "unat (of_nat (65536 * a + b) :: u64) = 65536 * a + b"
    using a b by (intro unat_u64_of_nat) simp
  ultimately show ?thesis by (simp only: a_def b_def)
qed

lemma TmzDate_invalid: "\<not> tm_valid t \<Longrightarrow> zip64local_TmzDateToDosDate t = 0"
  unfolding zip64local_TmzDateToDosDate_def tm_valid_def by (auto simp: word_le_nat_alt)

lemma u32_eqI: "unat (x :: u64) < 2 ^ 32 \<Longrightarrow> unat x = unat y \<Longrightarrow> (ucast x :: u32) = y"
  by (simp add: word_unat_eq_iff unsigned_ucast_eq take_bit_nat_eq_self)

lemma low_part: "q < m \<Longrightarrow> (q + m * k) mod m = (q :: nat)"
  by simp

lemma high_part: "q < m \<Longrightarrow> (q + m * k) div m = (k :: nat)"
  by simp

text \<open>
  C37: The date of an entry survives in the archive: what the reader makes of the number that the
  writer stores is the date, with the year written out (two-digit years count from 2000 up to 79
  and from 1900 after that) and the seconds rounded down to an even number. A date with a field
  out of range is stored as 0, and read as all zeros.
\<close>

lemma zip_date_roundtrip:
  "unz64local_DosDateToTmuDate (zip64local_TmzDateToDosDate t) =
     (if tm_valid t
      then \<lparr>tm_sec = of_nat (2 * (unat (tz_sec t) div 2)), tm_min = tz_min t, tm_hour = tz_hour t, tm_mday = tz_mday t,
            tm_mon = tz_mon t, tm_year = of_nat (full_year (unat (tz_year t)))\<rparr>
      else zero_tm)"
proof (cases "tm_valid t")
  case False
  then show ?thesis by (simp add: TmzDate_invalid unz64local_DosDateToTmuDate_def zero_tm_def Let_def)
next
  case True
  let ?d = "unat (tz_mday t)" and ?o = "unat (tz_mon t)" and ?y = "unat (tz_year t)"
  let ?s = "unat (tz_sec t)" and ?i = "unat (tz_min t)" and ?h = "unat (tz_hour t)"
  define D where "D = zip64local_TmzDateToDosDate t"
  define a where "a = ?d + 32 * (?o + 1) + 512 * (full_year ?y - 1980)"
  define b where "b = ?s div 2 + 32 * ?i + 2048 * ?h"
  note v = True [unfolded tm_valid_def]
  have b: "b < 65536" using v by (auto simp: b_def)
  have D: "unat D = 65536 * a + b" unfolding D_def unat_TmzDate [OF True] a_def b_def ..
  have U: "unat (drop_bit 16 D) = a"
    unfolding unat_drop_bit_eq D using b by (simp add: drop_bit_eq_div)
  have Q: "?s div 2 < 32" "?i < 64" "?h < 32" "?d < 32" "?o + 1 < 16" "full_year ?y - 1980 < 128" "1980 \<le> full_year ?y"
    "full_year ?y < 2 ^ 32"
    using v by (auto simp: full_year_def)
  have N: "unat D = ?s div 2 + 32 * (?i + 64 * (?h + 32 * a))" by (simp add: D b_def)
  have a: "a = ?d + 32 * ((?o + 1) + 16 * (full_year ?y - 1980))" by (simp add: a_def)
  have div: "unat D div 2048 = unat D div 32 div 64" "a div 512 = a div 32 div 16"
    by (simp_all add: div_mult2_eq [symmetric])
  have low: "unat D mod 32 = ?s div 2" "unat D div 32 mod 64 = ?i" "unat D div 2048 mod 32 = ?h"
    unfolding div unfolding N by (simp_all only: low_part [OF Q(1)] high_part [OF Q(1)] low_part [OF Q(2)] high_part [OF Q(2)]
        low_part [OF Q(3)])
  have high: "a mod 32 = ?d" "a div 32 mod 16 = ?o + 1" "a div 512 mod 128 = full_year ?y - 1980"
    unfolding div unfolding a by (simp_all only: low_part [OF Q(4)] high_part [OF Q(4)] low_part [OF Q(5)] high_part [OF Q(5)]
        mod_less [OF Q(6)])
  note parts = low high
  have "(ucast (2 * (D AND 0x1f)) :: u32) = of_nat (2 * (?s div 2))"
    using Q by (intro u32_eqI) (simp_all add: unat_word_ariths unat_masked parts unat_of_nat)
  moreover have "(ucast ((D AND 0x7E0) div 0x20) :: u32) = tz_min t"
    using Q by (intro u32_eqI) (simp_all add: unat_masked parts)
  moreover have "(ucast ((D AND 0xF800) div 0x800) :: u32) = tz_hour t"
    using Q by (intro u32_eqI) (simp_all add: unat_masked parts)
  moreover have "(ucast (drop_bit 16 D AND 0x1f) :: u32) = tz_mday t"
    using Q by (intro u32_eqI) (simp_all add: unat_masked U parts)
  moreover have "(ucast ((drop_bit 16 D AND 0x1E0) div 0x20 - 1) :: u32) = tz_mon t"
  proof -
    have "unat ((drop_bit 16 D AND 0x1E0) div 0x20) = ?o + 1" by (simp only: unat_masked U parts)
    moreover have "?o + 1 < 2 ^ 64" using Q(5) by simp
    ultimately have "(drop_bit 16 D AND 0x1E0) div 0x20 = of_nat (?o + 1)"
      by (simp only: word_unat_eq_iff unat_u64_of_nat)
    then have "(drop_bit 16 D AND 0x1E0) div 0x20 - 1 = of_nat ?o" by simp
    moreover have "unat (ucast (tz_mon t) :: u64) = ?o" by (rule unat_ucast_u32)
    ultimately show ?thesis using Q by (intro u32_eqI) simp_all
  qed
  moreover have "(ucast ((drop_bit 16 D AND 0x0FE00) div 0x0200 + 1980) :: u32) = of_nat (full_year ?y)"
    using Q by (intro u32_eqI) (simp_all add: unat_word_ariths(1) unat_masked(5) U parts unat_of_nat)
  moreover have "of_nat (2 * (?s div 2)) \<le> (59 :: u32)"
  proof -
    have "2 * (?s div 2) \<le> 59" using v by auto
    then show ?thesis by (auto simp: word_le_nat_alt unat_of_nat simp del: of_nat_mult)
  qed
  moreover have "tz_mon t \<le> 11" "1 \<le> tz_mday t" "tz_mday t \<le> 31"
    "tz_hour t \<le> 23" "tz_min t \<le> 59"
    using v by (simp_all add: word_le_nat_alt)
  ultimately show ?thesis
    using True unfolding D_def [symmetric] by (simp add: unz64local_DosDateToTmuDate_def Let_def)
qed

section \<open>Numbers in files\<close>

lemma length_putValue_inmemory [simp]: "length (zip64local_putValue_inmemory x n) = n"
  by (simp add: zip64local_putValue_inmemory_def split_bytes_eq)

lemma putValue_bytes:
  "zip64local_putValue_inmemory x n = (if unat x < 256 ^ n then le_bytes n (unat x) else replicate n 0xff)"
proof -
  have "drop_bit (8 * n) x = 0 \<longleftrightarrow> unat x < 256 ^ n"
  proof -
    have "unat (drop_bit (8 * n) x) = unat x div 256 ^ n"
      unfolding unat_drop_bit_eq by (simp add: drop_bit_eq_div power_mult)
    then have "drop_bit (8 * n) x = 0 \<longleftrightarrow> unat x div 256 ^ n = 0" by (simp add: word_unat_eq_iff)
    then show ?thesis by (simp add: div_eq_0_iff)
  qed
  then show ?thesis by (simp add: zip64local_putValue_inmemory_def split_bytes_eq)
qed

lemma write_at_length: "length (write_at c p bs) = max (length c) (p + length bs)"
  by (simp add: write_at_def)

lemma write_at_end: "write_at c (length c) bs = c @ bs"
  by (simp add: write_at_def)

lemma write_at_part: "p \<le> length c \<Longrightarrow> take (length bs) (drop p (write_at c p bs)) = bs"
  by (simp add: write_at_def)

text \<open>
  An interface for writing: a write stores its bytes at the position of the stream, and closing the
  stream leaves the contents behind (\<open>stored\<close>).
\<close>

locale zip_out = zip_file ff view bound
  for ff :: "'w zlib_filefunc64_32_def" and view :: "'w \<Rightarrow> addr \<Rightarrow> (byte list \<times> nat) option" and bound :: nat +
  fixes stored :: "'w \<Rightarrow> byte list"
  assumes zwrite_law: "view w h = Some (c, p) \<Longrightarrow> unat n \<le> length bs \<Longrightarrow>
      \<exists>w'. zwrite64 ff h bs n w = (n, w') \<and> view w' h = Some (write_at c p (take (unat n) bs), p + unat n)"
    and zclose_law: "view w h = Some (c, p) \<Longrightarrow> \<exists>w'. zclose64 ff h w = (0, w') \<and> stored w' = c"
begin

lemma putValue_view:
  assumes "view w h = Some (c, p)" "n < 2 ^ 64"
  shows "\<exists>w'. zip64local_putValue ff h x n w = (ZIP_OK, w') \<and>
    view w' h = Some (write_at c p (zip64local_putValue_inmemory x n), p + n)"
proof -
  obtain w' where w': "zwrite64 ff h (zip64local_putValue_inmemory x n) (of_nat n) w = (of_nat n, w')"
    "view w' h = Some (write_at c p (zip64local_putValue_inmemory x n), p + n)"
    using zwrite_law [OF assms(1), of "of_nat n" "zip64local_putValue_inmemory x n"] assms(2)
    by (auto simp: unat_u64_of_nat)
  then show ?thesis
    by (simp add: zip64local_putValue_def zip64local_putValue_inmemory_def Let_def)
qed

end

definition stdio_named :: "string \<Rightarrow> stdio \<Rightarrow> addr \<Rightarrow> (byte list \<times> nat) option" where
  "stdio_named name w h = (case sd_open w h of
     Some f \<Rightarrow> if of_error f \<or> \<not> of_write f \<or> of_name f \<noteq> name then None else Some (file_content w f, of_pos f)
   | None \<Rightarrow> None)"

lemma stdio_named_Some:
  "stdio_named name w h = Some (c, p) \<longleftrightarrow>
     (\<exists>f. sd_open w h = Some f \<and> \<not> of_error f \<and> of_write f \<and> of_name f = name \<and> c = file_content w f \<and> p = of_pos f)"
  by (auto simp: stdio_named_def split: option.splits if_splits)

lemma stdio_named_set_file:
  "stdio_named name (set_file w h f) h =
     (if of_error f \<or> \<not> of_write f \<or> of_name f \<noteq> name then None else Some (file_content w f, of_pos f))"
  by (simp add: stdio_named_def set_file_def file_content_def)

lemma file_content_upd [simp]:
  "of_name f = name \<Longrightarrow> file_content (w\<lparr>sd_files := (sd_files w)(name \<mapsto> c)\<rparr>) f = c"
  by (simp add: file_content_def)

definition stdio_stored :: "string \<Rightarrow> stdio \<Rightarrow> byte list" where
  "stdio_stored name w = (case sd_files w name of Some c \<Rightarrow> c | None \<Rightarrow> [])"

interpretation stdio_out64: zip_out "table64 fill_fopen64_filefunc" "stdio_named name" "2 ^ 63" "stdio_stored name"
  for name :: string
proof
  fix w :: stdio and h :: addr and c :: "byte list" and p :: nat
  assume "stdio_named name w h = Some (c, p)"
  then obtain f where f: "sd_open w h = Some f" "\<not> of_error f" "of_write f" "of_name f = name"
    "c = file_content w f" "p = of_pos f"
    by (auto simp: stdio_named_Some)
  note tables = table64_def fill_fopen64_filefunc_def zread64_def zerror64_def call_zseek64_def call_ztell64_def
    zwrite64_def zclose64_def
  show "\<exists>w'. zread64 (table64 fill_fopen64_filefunc) h n w =
      (of_nat (length (take (unat n) (drop p c))), take (unat n) (drop p c), w') \<and>
      stdio_named name w' h = Some (c, p + length (take (unat n) (drop p c)))" for n
    using f by (simp add: tables fread_file_func_def stdio_named_set_file Let_def)
  show "\<exists>w'. call_zseek64 (table64 fill_fopen64_filefunc) h off 0 w = Some (0, w') \<and>
      stdio_named name w' h = Some (c, unat off)" if "unat off < 2 ^ 63" for off :: u64
    using f sint_u64_small [OF that] by (simp add: tables fseek64_file_func_def fseeko_def stdio_named_set_file)
  show "\<exists>w'. call_zseek64 (table64 fill_fopen64_filefunc) h 0 2 w = Some (0, w') \<and>
      stdio_named name w' h = Some (c, length c)"
    using f by (simp add: tables fseek64_file_func_def fseeko_def stdio_named_set_file)
  show "call_ztell64 (table64 fill_fopen64_filefunc) h w = Some (of_nat p, w)"
    using f by (simp add: tables ftell64_file_func_def)
  show "zerror64 (table64 fill_fopen64_filefunc) h w = (0, w)"
    using f by (simp add: tables ferror_file_func_def)
  show "\<exists>w'. zwrite64 (table64 fill_fopen64_filefunc) h bs n w = (n, w') \<and>
      stdio_named name w' h = Some (write_at c p (take (unat n) bs), p + unat n)" if "unat n \<le> length bs" for n :: u64 and bs
  proof -
    have "of_nat (unat n) = n" by simp
    with f that show ?thesis
      by (simp add: tables fwrite_file_func_def stdio_named_set_file Let_def)
  qed
  show "\<exists>w'. zclose64 (table64 fill_fopen64_filefunc) h w = (0, w') \<and> stdio_stored name w' = c"
    using f by (simp add: tables fclose_file_func_def stdio_stored_def file_content_def)
qed simp

interpretation stdio_out32: zip_out "fill_zlib_filefunc64_32_def_from_filefunc32 fill_fopen_filefunc" "stdio_named name" "2 ^ 32 - 1"
  "stdio_stored name"
  for name :: string
proof
  fix w :: stdio and h :: addr and c :: "byte list" and p :: nat
  assume "stdio_named name w h = Some (c, p)"
  then obtain f where f: "sd_open w h = Some f" "\<not> of_error f" "of_write f" "of_name f = name"
    "c = file_content w f" "p = of_pos f"
    by (auto simp: stdio_named_Some)
  note tables = fill_zlib_filefunc64_32_def_from_filefunc32_def fill_fopen_filefunc_def zread64_def zerror64_def call_zseek64_def call_ztell64_def
    zwrite64_def zclose64_def
  let ?ff = "fill_zlib_filefunc64_32_def_from_filefunc32 fill_fopen_filefunc"
  show "\<exists>w'. zread64 ?ff h n w =
      (of_nat (length (take (unat n) (drop p c))), take (unat n) (drop p c), w') \<and>
      stdio_named name w' h = Some (c, p + length (take (unat n) (drop p c)))" for n
    using f by (simp add: tables fread_file_func_def stdio_named_set_file Let_def)
  show "\<exists>w'. call_zseek64 ?ff h off 0 w = Some (0, w') \<and>
      stdio_named name w' h = Some (c, unat off)" if "unat off < 2 ^ 63" for off :: u64
    using f sint_u64_small [OF that] by (simp add: tables fseek_file_func_def fseeko_def stdio_named_set_file)
  show "\<exists>w'. call_zseek64 ?ff h 0 2 w = Some (0, w') \<and>
      stdio_named name w' h = Some (c, length c)"
    using f by (simp add: tables fseek_file_func_def fseeko_def stdio_named_set_file)
  show "call_ztell64 ?ff h w = Some (of_nat p, w)" if "p < 2 ^ 32 - 1"
    using f that u64_of_nat_eq [of p "0xffffffff"] by (simp add: tables ftell_file_func_def)
  show "zerror64 ?ff h w = (0, w)"
    using f by (simp add: tables ferror_file_func_def)
  show "\<exists>w'. zwrite64 ?ff h bs n w = (n, w') \<and>
      stdio_named name w' h = Some (write_at c p (take (unat n) bs), p + unat n)" if "unat n \<le> length bs" for n :: u64 and bs
  proof -
    have "of_nat (unat n) = n" by simp
    with f that show ?thesis
      by (simp add: tables fwrite_file_func_def stdio_named_set_file Let_def)
  qed
  show "\<exists>w'. zclose64 ?ff h w = (0, w') \<and> stdio_stored name w' = c"
    using f by (simp add: tables fclose_file_func_def stdio_stored_def file_content_def)
qed simp

text \<open>
  A number that was written is what both pairs of readers find, \<open>unzip.c\<close>'s and \<open>zip.c\<close>'s.
\<close>

lemma le_word_Cons_add: "le_word (b # bs) = ucast b + push_bit 8 (le_word bs :: u64)"
proof -
  have "ucast b OR push_bit 8 (le_word bs :: u64) = ucast b + push_bit 8 (le_word bs)"
  proof (rule disjunctive_add [symmetric])
    fix n
    show "\<not> bit (ucast b :: u64) n \<or> \<not> bit (push_bit 8 (le_word bs) :: u64) n"
      by (auto simp: bit_simps dest: bit_imp_le_length)
  qed
  then show ?thesis by simp
qed

lemma push_bit_distrib: "push_bit n (a + b :: u64) = push_bit n a + push_bit n b"
  by (simp add: push_bit_eq_mult distrib_right)

context zip_file begin

lemma zget_le_view:
  assumes "view w h = Some (c, p)" "p + n \<le> length c"
  shows "\<exists>w'. zget_le ff h n shift i x w = (ZIP_OK, x + push_bit shift (le_word (take n (drop p c))), w') \<and>
    view w' h = Some (c, p + n)"
  using assms
proof (induction n arbitrary: shift i x w p)
  case 0
  then show ?case by simp
next
  case (Suc n)
  have t: "take (unat (1 :: u64)) (drop p c) = [c ! p]"
    using Suc.prems(2) by (simp add: take_Suc hd_drop_conv_nth)
  obtain w1 where r: "zread64 ff h 1 w = (1, [c ! p], w1)" "view w1 h = Some (c, Suc p)"
    using zread_law [OF Suc.prems(1), of 1] unfolding t by auto
  then have b: "zip64local_getByte ff h i w = (ZIP_OK, c ! p, w1)"
    by (simp add: zip64local_getByte_def buffer_of_def)
  obtain w2 where w2: "zget_le ff h n (shift + 8) (c ! p) (x + push_bit shift (ucast (c ! p))) w1 =
      (ZIP_OK, x + push_bit shift (ucast (c ! p)) + push_bit (shift + 8) (le_word (take n (drop (Suc p) c))), w2)"
    "view w2 h = Some (c, Suc p + n)"
    using Suc.IH [OF r(2), of "shift + 8" "c ! p" "x + push_bit shift (ucast (c ! p))"] Suc.prems(2) by auto
  have d: "take (Suc n) (drop p c) = c ! p # take n (drop (Suc p) c)"
    using Suc.prems(2) by (simp add: Cons_nth_drop_Suc [symmetric])
  have "push_bit shift (le_word (take (Suc n) (drop p c))) =
      push_bit shift (ucast (c ! p)) + push_bit (shift + 8) (le_word (take n (drop (Suc p) c)) :: u64)"
    unfolding d le_word_Cons_add push_bit_distrib by (simp add: add.commute)
  with b w2 show ?case by (simp add: add.assoc)
qed

lemmas zgetLong_view = zget_le_view [of _ _ _ _ 4 0 0 0, folded zip64local_getLong_def, simplified]
lemmas zgetShort_view = zget_le_view [of _ _ _ _ 2 0 0 0, folded zip64local_getShort_def, simplified]
lemmas zgetLong64_view = zget_le_view [of _ _ _ _ 8 0 0 0, folded zip64local_getLong64_def, simplified]

end

lemma le_nat_ff: "le_nat (replicate n 0xff) = 256 ^ n - 1"
proof (induction n)
  case (Suc n)
  obtain m where "(256 :: nat) ^ n = Suc m" by (cases "(256 :: nat) ^ n") auto
  with Suc show ?case by simp
qed simp

lemma le_word_putValue:
  assumes "n \<le> 8"
  shows "le_word (zip64local_putValue_inmemory x n) = (if unat x < 256 ^ n then x else of_nat (256 ^ n - 1))"
  using assms by (simp add: putValue_bytes le_word_le_nat le_nat_le_bytes_exact le_nat_ff)

text \<open>
  A number survives in the archive: after the writer has put it into a file with \<open>n\<close> bytes, the
  rest of the file is as before, and from where it stands the reader of \<open>unzip.c\<close> and that of
  \<open>zip.c\<close> both get it back, if it fits into the \<open>n\<close> bytes; else they get the largest number of
  \<open>n\<close> bytes, which for sizes and offsets says that the zip64 field holds the value.
\<close>

lemma zip_number_roundtrip:
  assumes "stdio_named name w h = Some (c, p)" "p \<le> length c" "p < 2 ^ 63" "n \<le> 8"
  shows "\<exists>w1 w2. zip64local_putValue (table64 fill_fopen64_filefunc) h x n w = (ZIP_OK, w1) \<and>
    stdio_named name w1 h = Some (write_at c p (zip64local_putValue_inmemory x n), p + n) \<and>
    call_zseek64 (table64 fill_fopen64_filefunc) h (of_nat p) ZLIB_FILEFUNC_SEEK_SET w1 = Some (0, w2) \<and>
    (let v = (if unat x < 256 ^ n then x else of_nat (256 ^ n - 1)) in
     (\<exists>w3. get_le (table64 fill_fopen64_filefunc) h n 0 0 w2 = (UNZ_OK, v, w3)) \<and>
     (\<exists>w3. zget_le (table64 fill_fopen64_filefunc) h n 0 0 0 w2 = (ZIP_OK, v, w3)))"
proof -
  let ?ff = "table64 fill_fopen64_filefunc" and ?bs = "zip64local_putValue_inmemory x n"
  have u: "unat (of_nat p :: u64) = p" using assms(3) by (intro unat_u64_of_nat) simp
  obtain w1 where 1: "zip64local_putValue ?ff h x n w = (ZIP_OK, w1)"
    "stdio_named name w1 h = Some (write_at c p ?bs, p + n)"
    using stdio_out64.putValue_view [OF assms(1), of n x] assms(4) by auto
  obtain w2 where 2: "call_zseek64 ?ff h (of_nat p) ZLIB_FILEFUNC_SEEK_SET w1 = Some (0, w2)"
    "stdio_named name w2 h = Some (write_at c p ?bs, p)"
    using stdio_out64.zseek_set_law [OF 1(2), of "of_nat p"] assms(3) unfolding u by blast
  have "take n (drop p (write_at c p ?bs)) = ?bs" using write_at_part [OF assms(2), of ?bs] by simp
  moreover have "p + n \<le> length (write_at c p ?bs)" by (simp add: write_at_length)
  ultimately have
    "\<exists>w3. get_le ?ff h n 0 0 w2 = (UNZ_OK, le_word ?bs, w3)" "\<exists>w3. zget_le ?ff h n 0 0 0 w2 = (ZIP_OK, le_word ?bs, w3)"
    using stdio_out64.get_le_view [OF 2(2), of n 0 0] stdio_out64.zget_le_view [OF 2(2), of n 0 0 0] by auto
  then show ?thesis
    unfolding le_word_putValue [OF assms(4)] Let_def using 1 2(1) by blast
qed

definition new_file :: "byte list \<Rightarrow> stdio" where
  "new_file c = \<lparr>sd_files = [''a.zip'' \<mapsto> c],
     sd_open = [1 \<mapsto> \<lparr>of_name = ''a.zip'', of_pos = 0, of_write = True, of_error = False\<rparr>], sd_next = 1\<rparr>"

lemma stdio_named_new_file: "stdio_named ''a.zip'' (new_file c) 1 = Some (c, 0)"
  by (simp add: stdio_named_def new_file_def file_content_def)

lemma zip_number_roundtrip_witness:
  "\<exists>w1. zip64local_putValue (table64 fill_fopen64_filefunc) 1 0x12345 2 (new_file [7, 7, 7]) = (ZIP_OK, w1) \<and>
     stdio_named ''a.zip'' w1 1 = Some ([0xff, 0xff, 7], 2)"
proof -
  have two: "replicate 2 b = [b, b]" for b :: byte by (simp add: numeral_2_eq_2)
  have "zip64local_putValue_inmemory 0x12345 2 = [0xff, 0xff]" unfolding putValue_bytes two by simp
  then have "write_at [7, 7, 7] 0 (zip64local_putValue_inmemory 0x12345 2) = [0xff, 0xff, 7]"
    by (simp add: write_at_def)
  moreover have "\<exists>w1. zip64local_putValue (table64 fill_fopen64_filefunc) 1 0x12345 2 (new_file [7, 7, 7]) = (ZIP_OK, w1) \<and>
     stdio_named ''a.zip'' w1 1 = Some (write_at [7, 7, 7] 0 (zip64local_putValue_inmemory 0x12345 2), 0 + 2)"
    using zip_number_roundtrip [OF stdio_named_new_file, of "[7, 7, 7]" 2 "0x12345"] by fastforce
  ultimately show ?thesis by (simp only: add_0)
qed

lemma blocks_ok_Nil: "blocks_ok []"
  by (simp add: blocks_ok_def)

lemma add_data_in_datablock_appends_witness:
  "\<exists>ll'. add_data_in_datablock init_linkedlist (replicate 5000 7) = (ZIP_OK, ll') \<and> blocks_ok ll' \<and>
     blocks_bytes ll' = replicate 5000 7"
  using add_data_in_datablock_appends [OF blocks_ok_Nil, of "replicate 5000 7"] by (simp add: init_linkedlist_def)

end
