(* ===== verification/Zip_Write.thy ===== *)
theory Zip_Write
  imports Zip_Blocks
begin

text \<open>
  The archive writer \<^verbatim>\<open>zip.c\<close>: opening an archive (a new one, after other data, or an existing one
  whose central directory is read back), adding entries, writing their data, closing entries and
  the archive, and the disks of a spanned archive. \<^verbatim>\<open>zlib\<close> is a parameter. \<^verbatim>\<open>HAVE_AES\<close> and
  \<^verbatim>\<open>HAVE_BZIP2\<close> are not defined, \<^verbatim>\<open>NOCRYPT\<close> is not either, and memory does not run out.

  Operations return \<open>None\<close> where the C code calls a NULL function pointer, has undefined behaviour
  (a NULL password, a write outside of a block), or where the fuel of a loop ends.
\<close>

unbundle bit_operations_syntax

section \<open>zlib\<close>

text \<open>
  \<open>zd_deflateInit2\<close> gets the level, the window bits, the memory level and the strategy and returns its code,
  the data type and the state. \<open>zd_deflate\<close> gets the state, the input that is available, the room for
  output and whether to finish; it returns its code, the number of bytes taken, the bytes produced,
  the data type and the new state.
\<close>

record 'z zip_zlib_fns = "'z zlib_fns" +
  zd_deflateInit2 :: "int \<Rightarrow> int \<Rightarrow> int \<Rightarrow> int \<Rightarrow> int \<times> int \<times> 'z"
  zd_deflate :: "'z \<Rightarrow> byte list \<Rightarrow> u32 \<Rightarrow> bool \<Rightarrow> int \<times> nat \<times> byte list \<times> int \<times> 'z"
  zd_deflateEnd :: "'z \<Rightarrow> int"

abbreviation (input) Z_BINARY :: int where "Z_BINARY \<equiv> 0"
abbreviation (input) Z_ASCII :: int where "Z_ASCII \<equiv> 1"
abbreviation (input) Z_BUFSIZE :: nat where "Z_BUFSIZE \<equiv> 65536"
abbreviation (input) APPEND_STATUS_CREATE :: int where "APPEND_STATUS_CREATE \<equiv> 0"
abbreviation (input) APPEND_STATUS_CREATEAFTER :: int where "APPEND_STATUS_CREATEAFTER \<equiv> 1"
abbreviation (input) APPEND_STATUS_ADDINZIP :: int where "APPEND_STATUS_ADDINZIP \<equiv> 2"

section \<open>The state\<close>

text \<open>
  The entry that is being written. The first six fields are those of its \<^verbatim>\<open>z_stream\<close>: \<open>next_out\<close> is an
  offset into the write buffer, the input lives only during a call, \<open>'z\<close> is what \<^verbatim>\<open>zlib\<close> keeps.
\<close>

record 'z curfile64_info =
  ci_avail_out :: u32
  ci_next_out :: nat
  ci_total_in :: u64
  ci_total_out :: u64
  ci_data_type :: int
  ci_zstate :: 'z
  ci_stream_initialised :: int
  ci_pos_in_buffered_data :: u32
  ci_pos_local_header :: u64
  ci_central_header :: "byte list"
  ci_size_centralextra :: u64
  ci_size_centralheader :: u64
  ci_size_centralextrafree :: u64
  ci_size_comment :: u64
  ci_flag :: u64
  ci_method :: int
  ci_compression_method :: int
  ci_raw :: bool
  ci_buffered_data :: "byte list"
  ci_dosDate :: u64
  ci_crc32 :: u64
  ci_zip64 :: bool
  ci_number_disk :: u64
  ci_pos_zip64extrainfo :: u64
  ci_total_compressed :: u64
  ci_total_uncompressed :: u64
  ci_keys :: keys
  ci_pcrc_32_tab :: "nat \<Rightarrow> u64"
  ci_crypt_header_size :: u64

text \<open>The archive. The comment is the C string without its terminator, \<open>None\<close> for NULL.\<close>

record ('w, 'z) zip64_internal =
  zi_z_filefunc :: "'w zlib_filefunc64_32_def"
  zi_filestream :: addr
  zi_filestream_with_CD :: addr
  zi_central_dir :: linkedlist_data
  zi_in_opened_file_inzip :: bool
  zi_append :: int
  zi_ci :: "'z curfile64_info"
  zi_begin_pos :: u64
  zi_add_position_when_writting_offset :: u64
  zi_number_entry :: u64
  zi_disk_size :: u64
  zi_number_disk :: u64
  zi_number_disk_with_CD :: u64
  zi_globalcomment :: "byte list option"

record zip_fileinfo =
  zf_tmz_date :: tm_zip
  zf_dosDate :: u64
  zf_internal_fa :: u64
  zf_external_fa :: u64

section \<open>Disks\<close>

definition zipGetDiskSizeAvailable :: "('w, 'z) zip64_internal \<Rightarrow> 'w \<Rightarrow> (u64 \<times> 'w) option" where
  "zipGetDiskSizeAvailable zi w =
     do {
       (_, w) \<leftarrow> call_zseek64 (zi_z_filefunc zi) (zi_filestream zi) 0 ZLIB_FILEFUNC_SEEK_END w;
       (current_disk_size, w) \<leftarrow> call_ztell64 (zi_z_filefunc zi) (zi_filestream zi) w;
       Some (zi_disk_size zi - current_disk_size, w)
     }"

definition zipGoToSpecificDisk ::
  "('w, 'z) zip64_internal \<Rightarrow> int \<Rightarrow> bool \<Rightarrow> 'w \<Rightarrow> (int \<times> ('w, 'z) zip64_internal \<times> 'w) option" where
  "zipGoToSpecificDisk zi num_disk open_existing w =
     (if zi_disk_size zi = 0 then Some (ZIP_OK, zi, w)
      else
        let w = (if zi_filestream zi \<noteq> 0 \<and> zi_filestream zi \<noteq> zi_filestream_with_CD zi
                 then snd (zclose64 (zi_z_filefunc zi) (zi_filestream zi) w) else w) in
        do {
          (h, w) \<leftarrow> call_zopendisk64 (zi_z_filefunc zi) (zi_filestream_with_CD zi) num_disk
            (if open_existing
             then ZLIB_FILEFUNC_MODE_READ OR ZLIB_FILEFUNC_MODE_WRITE OR ZLIB_FILEFUNC_MODE_EXISTING
             else ZLIB_FILEFUNC_MODE_READ OR ZLIB_FILEFUNC_MODE_WRITE OR ZLIB_FILEFUNC_MODE_CREATE) w;
          Some (if h = 0 then ZIP_ERRNO else ZIP_OK, zi\<lparr>zi_filestream := h\<rparr>, w)
        })"

text \<open>An existing part of an archive that files are added to, or else a new one.\<close>

definition open_disk ::
  "('w, 'z) zip64_internal \<Rightarrow> int \<Rightarrow> 'w \<Rightarrow> (int \<times> ('w, 'z) zip64_internal \<times> 'w) option" where
  "open_disk zi number_disk_next w =
     do {
       (err, zi, w) \<leftarrow> zipGoToSpecificDisk zi number_disk_next (zi_append zi = APPEND_STATUS_ADDINZIP) w;
       if err = ZIP_ERRNO \<and> zi_append zi = APPEND_STATUS_ADDINZIP
       then zipGoToSpecificDisk zi number_disk_next False w
       else Some (err, zi, w)
     }"

text \<open>\<^verbatim>\<open>(int)\<close> of an \<^verbatim>\<open>uLong\<close>\<close>

definition int_of_uLong :: "u64 \<Rightarrow> int" where
  "int_of_uLong x = sint (ucast x :: u32)"

definition zipGoToFirstDisk ::
  "('w, 'z) zip64_internal \<Rightarrow> 'w \<Rightarrow> (int \<times> ('w, 'z) zip64_internal \<times> 'w) option" where
  "zipGoToFirstDisk zi w =
     (if zi_disk_size zi = 0 then Some (ZIP_OK, zi, w)
      else
        let number_disk_next =
              (if zi_number_disk_with_CD zi > 0 then int_of_uLong (zi_number_disk_with_CD zi) - 1 else 0) in
        do {
          (err, zi, w) \<leftarrow> open_disk zi number_disk_next w;
          let zi = (if err = ZIP_OK then zi\<lparr>zi_number_disk := of_int number_disk_next\<rparr> else zi);
          (_, w) \<leftarrow> call_zseek64 (zi_z_filefunc zi) (zi_filestream zi) 0 ZLIB_FILEFUNC_SEEK_END w;
          Some (err, zi, w)
        })"

text \<open>The loop goes on while a disk is full; the fuel bounds the number of disks tried.\<close>

fun next_disk_loop ::
  "nat \<Rightarrow> ('w, 'z) zip64_internal \<Rightarrow> int \<Rightarrow> 'w \<Rightarrow> (int \<times> ('w, 'z) zip64_internal \<times> 'w) option" where
  "next_disk_loop 0 zi number_disk_next w = None"
| "next_disk_loop (Suc n) zi number_disk_next w =
     do {
       (err, zi, w) \<leftarrow> open_disk zi number_disk_next w;
       if err \<noteq> ZIP_OK then Some (err, zi, w)
       else
         do {
           (size_available_in_disk, w) \<leftarrow> zipGetDiskSizeAvailable zi w;
           let zi = zi\<lparr>zi_number_disk := of_int number_disk_next,
                       zi_number_disk_with_CD := of_int number_disk_next + 1\<rparr>;
           if size_available_in_disk \<le> 0 then next_disk_loop n zi (number_disk_next + 1) w
           else Some (ZIP_OK, zi, w)
         }
     }"

definition zipGoToNextDisk ::
  "nat \<Rightarrow> ('w, 'z) zip64_internal \<Rightarrow> 'w \<Rightarrow> (int \<times> ('w, 'z) zip64_internal \<times> 'w) option" where
  "zipGoToNextDisk n zi w =
     (if zi_disk_size zi = 0 then Some (ZIP_OK, zi, w)
      else next_disk_loop n zi (int_of_uLong (zi_number_disk zi) + 1) w)"

section \<open>Sequences of writes\<close>

text \<open>
  \<^verbatim>\<open>if (err == ZIP_OK) err = zip64local_putValue(...)\<close>, and the same for the bytes of a name or an
  extra field, which are written only if there are any; the error code and the world are the state.
\<close>

definition put_next ::
  "'w zlib_filefunc64_32_def \<Rightarrow> addr \<Rightarrow> u64 \<Rightarrow> nat \<Rightarrow> int \<times> 'w \<Rightarrow> int \<times> 'w" where
  "put_next ff h x nbByte st =
     (case st of (err, w) \<Rightarrow> if err = ZIP_OK then zip64local_putValue ff h x nbByte w else (err, w))"

definition write_next ::
  "'w zlib_filefunc64_32_def \<Rightarrow> addr \<Rightarrow> byte list \<Rightarrow> u32 \<Rightarrow> int \<times> 'w \<Rightarrow> int \<times> 'w" where
  "write_next ff h bs size_bs st =
     (case st of (err, w) \<Rightarrow>
        if err = ZIP_OK \<and> size_bs > 0
        then (case zwrite64 ff h bs (ucast size_bs) w of (n, w) \<Rightarrow>
                (if n \<noteq> ucast size_bs then ZIP_ERRNO else err, w))
        else (err, w))"

section \<open>Writing the data of an entry\<close>

text \<open>
  The loop that writes the buffer, part by part if the disks are limited. The first component of the result tells
  whether the function returned early, with an error of the disks. After a change of disk
  \<open>size_available\<close> is still 0, so that the turn writes nothing. The fuel bounds the turns.
\<close>

fun flush_loop ::
  "nat \<Rightarrow> ('w, 'z) zip64_internal \<Rightarrow> u32 \<Rightarrow> u32 \<Rightarrow> 'w \<Rightarrow>
   (bool \<times> int \<times> ('w, 'z) zip64_internal \<times> 'w) option" where
  "flush_loop 0 zi write total_written w = None"
| "flush_loop (Suc n) zi write total_written w =
     do {
       (early, err, max_write, zi, w) \<leftarrow>
         (if zi_disk_size zi > 0 then
            do {
              (size_available, w) \<leftarrow> zipGetDiskSizeAvailable zi w;
              (err, zi, w) \<leftarrow> (if size_available = 0 then zipGoToNextDisk (Suc n) zi w else Some (ZIP_OK, zi, w));
              Some (err \<noteq> ZIP_OK, err,
                if size_available < ucast write then ucast size_available else write, zi, w)
            }
          else Some (False, ZIP_OK, write, zi, w));
       if early then Some (True, err, zi, w)
       else
         (case zwrite64 (zi_z_filefunc zi) (zi_filestream zi)
                 (drop (unat total_written) (ci_buffered_data (zi_ci zi))) (ucast max_write) w of (written, w) \<Rightarrow>
          case zerror64 (zi_z_filefunc zi) (zi_filestream zi) w of (e, w) \<Rightarrow>
            if e \<noteq> 0 then Some (False, ZIP_ERRNO, zi, w)
            else
              let total_written = total_written + ucast written; write = write - ucast written in
              if write > 0 then flush_loop n zi write total_written w else Some (False, err, zi, w))
     }"

text \<open>The bytes of the buffer are encrypted in place.\<close>

definition encrypt_buffer :: "'z curfile64_info \<Rightarrow> 'z curfile64_info" where
  "encrypt_buffer ci =
     (if ci_flag ci AND 1 \<noteq> 0 then
        let n = unat (ci_pos_in_buffered_data ci) in
        (case zencode_all (ci_pcrc_32_tab ci) (ci_keys ci) (take n (ci_buffered_data ci)) of (bs, ks) \<Rightarrow>
           ci\<lparr>ci_buffered_data := bs @ drop n (ci_buffered_data ci), ci_keys := ks\<rparr>)
      else ci)"

definition zip64FlushWriteBuffer ::
  "nat \<Rightarrow> ('w, 'z) zip64_internal \<Rightarrow> 'w \<Rightarrow> (int \<times> ('w, 'z) zip64_internal \<times> 'w) option" where
  "zip64FlushWriteBuffer n zi w =
     (let zi = zi\<lparr>zi_ci := encrypt_buffer (zi_ci zi)\<rparr> in
      do {
        (early, err, zi, w) \<leftarrow> flush_loop n zi (ci_pos_in_buffered_data (zi_ci zi)) 0 w;
        if early then Some (err, zi, w)
        else
          let ci = zi_ci zi in
          Some (err,
            zi\<lparr>zi_ci := ci\<lparr>ci_total_compressed := ci_total_compressed ci + ucast (ci_pos_in_buffered_data ci),
                            ci_total_uncompressed := ci_total_uncompressed ci + ci_total_in ci,
                            ci_total_in := 0, ci_pos_in_buffered_data := 0\<rparr>\<rparr>, w)
      })"

text \<open>\<^verbatim>\<open>if (avail_out == 0)\<close>: the buffer is written and empty again.\<close>

definition make_room ::
  "nat \<Rightarrow> int \<Rightarrow> ('w, 'z) zip64_internal \<Rightarrow> 'w \<Rightarrow> (int \<times> ('w, 'z) zip64_internal \<times> 'w) option" where
  "make_room n err zi w =
     (if ci_avail_out (zi_ci zi) = 0 then
        do {
          (e, zi, w) \<leftarrow> zip64FlushWriteBuffer n zi w;
          Some (if e = ZIP_ERRNO then ZIP_ERRNO else err,
            zi\<lparr>zi_ci := (zi_ci zi)\<lparr>ci_avail_out := of_nat Z_BUFSIZE, ci_next_out := 0\<rparr>\<rparr>, w)
        }
      else Some (err, zi, w))"

text \<open>A call of \<^verbatim>\<open>deflate\<close>: its code, what is left of the input, and the entry.\<close>

definition run_deflate ::
  "'z zip_zlib_fns \<Rightarrow> 'z curfile64_info \<Rightarrow> byte list \<Rightarrow> bool \<Rightarrow> int \<times> byte list \<times> 'z curfile64_info" where
  "run_deflate zl ci input finish =
     (case zd_deflate zl (ci_zstate ci) input (ci_avail_out ci) finish of (err, consumed, out, data_type, z) \<Rightarrow>
        (err, drop consumed input,
         ci\<lparr>ci_buffered_data := buffer_write (ci_buffered_data ci) (ci_next_out ci) out,
            ci_avail_out := ci_avail_out ci - of_nat (length out), ci_next_out := ci_next_out ci + length out,
            ci_total_in := ci_total_in ci + of_nat consumed, ci_total_out := ci_total_out ci + of_nat (length out),
            ci_data_type := data_type, ci_zstate := z,
            ci_pos_in_buffered_data := ci_pos_in_buffered_data ci + of_nat (length out)\<rparr>))"

definition copy_stored :: "'z curfile64_info \<Rightarrow> byte list \<Rightarrow> byte list \<times> 'z curfile64_info" where
  "copy_stored ci input =
     (let copy_this = (if (of_nat (length input) :: u32) < ci_avail_out ci then of_nat (length input) else ci_avail_out ci);
          n = unat copy_this in
      (drop n input,
       ci\<lparr>ci_buffered_data := buffer_write (ci_buffered_data ci) (ci_next_out ci) (take n input),
          ci_avail_out := ci_avail_out ci - copy_this, ci_next_out := ci_next_out ci + n,
          ci_total_in := ci_total_in ci + ucast copy_this, ci_total_out := ci_total_out ci + ucast copy_this,
          ci_pos_in_buffered_data := ci_pos_in_buffered_data ci + copy_this\<rparr>))"

text \<open>The loop over the input; the fuel bounds the turns.\<close>

fun write_loop ::
  "nat \<Rightarrow> 'z zip_zlib_fns \<Rightarrow> ('w, 'z) zip64_internal \<Rightarrow> byte list \<Rightarrow> 'w \<Rightarrow>
   (int \<times> ('w, 'z) zip64_internal \<times> 'w) option" where
  "write_loop 0 zl zi input w = None"
| "write_loop (Suc n) zl zi input w =
     (if input = [] then Some (ZIP_OK, zi, w)
      else
        do {
          (err, zi, w) \<leftarrow> make_room (Suc n) ZIP_OK zi w;
          if err \<noteq> ZIP_OK then Some (err, zi, w)
          else if ci_compression_method (zi_ci zi) = 8 \<and> \<not> ci_raw (zi_ci zi) then
            (case run_deflate zl (zi_ci zi) input False of (err, input, ci) \<Rightarrow>
               if err \<noteq> ZIP_OK then Some (err, zi\<lparr>zi_ci := ci\<rparr>, w)
               else write_loop n zl (zi\<lparr>zi_ci := ci\<rparr>) input w)
          else
            (case copy_stored (zi_ci zi) input of (input, ci) \<Rightarrow>
               write_loop n zl (zi\<lparr>zi_ci := ci\<rparr>) input w)
        })"

text \<open>\<open>buf\<close> are the \<^verbatim>\<open>len\<close> bytes.\<close>

definition zipWriteInFileInZip ::
  "nat \<Rightarrow> 'z zip_zlib_fns \<Rightarrow> ('w, 'z) zip64_internal \<Rightarrow> byte list \<Rightarrow> 'w \<Rightarrow>
   (int \<times> ('w, 'z) zip64_internal \<times> 'w) option" where
  "zipWriteInFileInZip n zl zi buf w =
     (if \<not> zi_in_opened_file_inzip zi then Some (ZIP_PARAMERROR, zi, w)
      else
        let ci = zi_ci zi; zi = zi\<lparr>zi_ci := ci\<lparr>ci_crc32 := zl_crc32 zl (ci_crc32 ci) buf\<rparr>\<rparr> in
        write_loop n zl zi buf w)"

section \<open>Closing an entry\<close>

text \<open>
  The loop that finishes the compression, until \<^verbatim>\<open>deflate\<close> returns something else than success. An
  error of the write buffer is overwritten by the code of \<^verbatim>\<open>deflate\<close>.
\<close>

fun finish_loop ::
  "nat \<Rightarrow> 'z zip_zlib_fns \<Rightarrow> ('w, 'z) zip64_internal \<Rightarrow> 'w \<Rightarrow> (int \<times> ('w, 'z) zip64_internal \<times> 'w) option" where
  "finish_loop 0 zl zi w = None"
| "finish_loop (Suc n) zl zi w =
     do {
       (_, zi, w) \<leftarrow> make_room (Suc n) ZIP_OK zi w;
       (case run_deflate zl (zi_ci zi) [] True of (err, _, ci) \<Rightarrow>
          if err = ZIP_OK then finish_loop n zl (zi\<lparr>zi_ci := ci\<rparr>) w
          else Some (err, zi\<lparr>zi_ci := ci\<rparr>, w))
     }"

text \<open>The data that is still in the buffer is written, and the compression ended.\<close>

definition finish_data ::
  "nat \<Rightarrow> 'z zip_zlib_fns \<Rightarrow> ('w, 'z) zip64_internal \<Rightarrow> 'w \<Rightarrow> (int \<times> ('w, 'z) zip64_internal \<times> 'w) option" where
  "finish_data n zl zi w =
     (let deflated = (\<not> ci_raw (zi_ci zi) \<and> ci_compression_method (zi_ci zi) = 8) in
      do {
        (err, zi, w) \<leftarrow> (if deflated then finish_loop n zl zi w else Some (ZIP_OK, zi, w));
        let err = (if err = Z_STREAM_END then ZIP_OK else err);
        (err, zi, w) \<leftarrow>
          (if ci_pos_in_buffered_data (zi_ci zi) > 0 \<and> err = ZIP_OK then
             do {
               (e, zi, w) \<leftarrow> zip64FlushWriteBuffer n zi w;
               Some (if e = ZIP_ERRNO then ZIP_ERRNO else err, zi, w)
             }
           else Some (err, zi, w));
        if deflated then
          Some (if err = ZIP_OK then zd_deflateEnd zl (ci_zstate (zi_ci zi)) else err,
            zi\<lparr>zi_ci := (zi_ci zi)\<lparr>ci_stream_initialised := 0\<rparr>\<rparr>, w)
        else Some (err, zi, w)
      })"

text \<open>The record for the central directory: an update of the block at an offset.\<close>

definition put_header :: "nat \<Rightarrow> u64 \<Rightarrow> nat \<Rightarrow> 'z curfile64_info \<Rightarrow> 'z curfile64_info" where
  "put_header off x nbByte ci =
     ci\<lparr>ci_central_header := buffer_write (ci_central_header ci) off (zip64local_putValue_inmemory x nbByte)\<rparr>"

definition update_central_header :: "u64 \<Rightarrow> u64 \<Rightarrow> u64 \<Rightarrow> 'z curfile64_info \<Rightarrow> 'z curfile64_info" where
  "update_central_header crc compressed_size uncompressed_size ci =
     (let invalidValue = 0xffffffff;
          ci = (if compressed_size \<ge> 0xffffffff \<or> uncompressed_size \<ge> 0xffffffff \<or> ci_pos_local_header ci \<ge> 0xffffffff
                then put_header 6 45 2 (put_header 4 45 2 ci) else ci);
          ci = put_header 16 crc 4 ci;
          ci = put_header 20 (if compressed_size \<ge> 0xffffffff then invalidValue else compressed_size) 4 ci;
          ci = (if ci_data_type ci = Z_ASCII then put_header 36 (of_int Z_ASCII) 2 ci else ci) in
      put_header 24 (if uncompressed_size \<ge> 0xffffffff then invalidValue else uncompressed_size) 4 ci)"

text \<open>The size of the zip64 field's data, and the field, for which 32 bytes were kept free.\<close>

definition zip64_datasize :: "u64 \<Rightarrow> u64 \<Rightarrow> 'z curfile64_info \<Rightarrow> u64" where
  "zip64_datasize compressed_size uncompressed_size ci =
     (if uncompressed_size \<ge> 0xffffffff then 8 else 0) + (if compressed_size \<ge> 0xffffffff then 8 else 0) +
     (if ci_pos_local_header ci \<ge> 0xffffffff then 8 else 0)"

definition add_zip64_field :: "u64 \<Rightarrow> u64 \<Rightarrow> 'z curfile64_info \<Rightarrow> 'z curfile64_info" where
  "add_zip64_field compressed_size uncompressed_size ci =
     (let datasize = zip64_datasize compressed_size uncompressed_size ci;
          p = unat (ci_size_centralheader ci);
          ci = put_header p 0x0001 2 ci;
          ci = put_header (p + 2) datasize 2 ci;
          (p, ci) = (p + 4, ci);
          (p, ci) = (if uncompressed_size \<ge> 0xffffffff then (p + 8, put_header p uncompressed_size 8 ci) else (p, ci));
          (p, ci) = (if compressed_size \<ge> 0xffffffff then (p + 8, put_header p compressed_size 8 ci) else (p, ci));
          (p, ci) = (if ci_pos_local_header ci \<ge> 0xffffffff then (p + 8, put_header p (ci_pos_local_header ci) 8 ci)
                     else (p, ci));
          ci = ci\<lparr>ci_size_centralextrafree := ci_size_centralextrafree ci - (datasize + 4),
                  ci_size_centralheader := ci_size_centralheader ci + (datasize + 4),
                  ci_size_centralextra := ci_size_centralextra ci + (datasize + 4)\<rparr> in
      put_header 30 (ci_size_centralextra ci) 2 ci)"

text \<open>The comment moves over what is left of the free bytes; the copy goes upwards.\<close>

definition restore_comment :: "'z curfile64_info \<Rightarrow> 'z curfile64_info" where
  "restore_comment ci =
     (let n = unat (ci_size_centralheader ci); k = unat (ci_size_comment ci) in
      ci\<lparr>ci_central_header := buffer_write (ci_central_header ci) n
           (take k (drop (n + unat (ci_size_centralextrafree ci)) (ci_central_header ci))),
         ci_size_centralheader := ci_size_centralheader ci + ci_size_comment ci\<rparr>)"

text \<open>The sizes and the CRC are put into the local header, on the disk where it is.\<close>

definition update_local_header ::
  "('w, 'z) zip64_internal \<Rightarrow> u64 \<Rightarrow> u64 \<Rightarrow> u64 \<Rightarrow> 'w \<Rightarrow> (int \<times> ('w, 'z) zip64_internal \<times> 'w) option" where
  "update_local_header zi crc compressed_size uncompressed_size w =
     do {
       (cur_pos_inzip, w) \<leftarrow> call_ztell64 (zi_z_filefunc zi) (zi_filestream zi) w;
       let cur_number_disk = zi_number_disk zi;
       let ci = zi_ci zi;
       (err, zi, w) \<leftarrow>
         (if ci_number_disk ci \<noteq> cur_number_disk
          then zipGoToSpecificDisk zi (int_of_uLong (ci_number_disk ci)) True w else Some (ZIP_OK, zi, w));
       let ff = zi_z_filefunc zi;
       let h = zi_filestream zi;
       (e, w) \<leftarrow> call_zseek64 ff h (ci_pos_local_header ci + 14) ZLIB_FILEFUNC_SEEK_SET w;
       let (err, w) = put_next ff h crc 4 (if e \<noteq> 0 then ZIP_ERRNO else err, w);
       (err, w) \<leftarrow>
         (if uncompressed_size \<ge> 0xffffffff \<or> compressed_size \<ge> 0xffffffff then
            if ci_pos_zip64extrainfo ci > 0 then
              do {
                (e, w) \<leftarrow> call_zseek64 ff h (ci_pos_zip64extrainfo ci + 4) ZLIB_FILEFUNC_SEEK_SET w;
                Some (put_next ff h compressed_size 8
                       (put_next ff h uncompressed_size 8 (if e \<noteq> 0 then ZIP_ERRNO else err, w)))
              }
            else Some (ZIP_BADZIPFILE, w)
          else Some (put_next ff h uncompressed_size 4 (put_next ff h compressed_size 4 (err, w))));
       (err, zi, w) \<leftarrow>
         (if ci_number_disk ci \<noteq> cur_number_disk
          then zipGoToSpecificDisk zi (int_of_uLong cur_number_disk) True w else Some (err, zi, w));
       (e, w) \<leftarrow> call_zseek64 (zi_z_filefunc zi) (zi_filestream zi) cur_pos_inzip ZLIB_FILEFUNC_SEEK_SET w;
       Some (if e \<noteq> 0 then ZIP_ERRNO else err, zi, w)
     }"

definition zipCloseFileInZipRaw64 ::
  "nat \<Rightarrow> 'z zip_zlib_fns \<Rightarrow> ('w, 'z) zip64_internal \<Rightarrow> u64 \<Rightarrow> u64 \<Rightarrow> 'w \<Rightarrow>
   (int \<times> ('w, 'z) zip64_internal \<times> 'w) option" where
  "zipCloseFileInZipRaw64 n zl zi uncompressed_size crc w =
     (if \<not> zi_in_opened_file_inzip zi then Some (ZIP_PARAMERROR, zi, w)
      else
        do {
          (err, zi, w) \<leftarrow> finish_data n zl zi w;
          let ci = zi_ci zi;
          let crc = (if ci_raw ci then crc else ci_crc32 ci);
          let uncompressed_size = (if ci_raw ci then uncompressed_size else ci_total_uncompressed ci);
          let compressed_size = ci_total_compressed ci + ci_crypt_header_size ci;
          let ci = update_central_header crc compressed_size uncompressed_size ci;
          let datasize = zip64_datasize compressed_size uncompressed_size ci;
          let zi = zi\<lparr>zi_ci := ci\<rparr>;
          if datasize > 0 \<and> datasize + 4 > ci_size_centralextrafree ci then Some (ZIP_BADZIPFILE, zi, w)
          else
            let ci = restore_comment (if datasize > 0 then add_zip64_field compressed_size uncompressed_size ci else ci);
                (err, dir) =
                  (if err = ZIP_OK
                   then add_data_in_datablock (zi_central_dir zi)
                          (take (unat (ci_size_centralheader ci)) (ci_central_header ci))
                   else (err, zi_central_dir zi));
                zi = zi\<lparr>zi_ci := ci, zi_central_dir := dir\<rparr> in
            do {
              (err, zi, w) \<leftarrow>
                (if err = ZIP_OK then update_local_header zi crc compressed_size uncompressed_size w
                 else Some (err, zi, w));
              Some (err, zi\<lparr>zi_number_entry := zi_number_entry zi + 1, zi_in_opened_file_inzip := False\<rparr>, w)
            }
        })"

definition zipCloseFileInZipRaw ::
  "nat \<Rightarrow> 'z zip_zlib_fns \<Rightarrow> ('w, 'z) zip64_internal \<Rightarrow> u64 \<Rightarrow> u64 \<Rightarrow> 'w \<Rightarrow>
   (int \<times> ('w, 'z) zip64_internal \<times> 'w) option" where
  "zipCloseFileInZipRaw n zl zi uncompressed_size crc w = zipCloseFileInZipRaw64 n zl zi uncompressed_size crc w"

definition zipCloseFileInZip ::
  "nat \<Rightarrow> 'z zip_zlib_fns \<Rightarrow> ('w, 'z) zip64_internal \<Rightarrow> 'w \<Rightarrow> (int \<times> ('w, 'z) zip64_internal \<times> 'w) option" where
  "zipCloseFileInZip n zl zi w = zipCloseFileInZipRaw n zl zi 0 0 w"

section \<open>Adding an entry\<close>

text \<open>The arguments of \<open>zipOpenNewFileInZip4_64\<close>; the extra fields are shorter than \<open>2 ^ 32\<close>.\<close>

record new_file_args =
  na_filename :: "byte list option"
  na_zipfi :: "zip_fileinfo option"
  na_extrafield_local :: "byte list"
  na_extrafield_global :: "byte list"
  na_comment :: "byte list option"
  na_method :: int
  na_level :: int
  na_raw :: bool
  na_windowBits :: int
  na_memLevel :: int
  na_strategy :: int
  na_password :: "byte list option"
  na_crcForCrypting :: u64
  na_versionMadeBy :: u64
  na_flagBase :: u64
  na_zip64 :: bool

definition entry_filename :: "new_file_args \<Rightarrow> byte list" where
  "entry_filename a = (case na_filename a of None \<Rightarrow> [0x2d] | Some name \<Rightarrow> name)"

definition entry_comment :: "new_file_args \<Rightarrow> byte list" where
  "entry_comment a = (case na_comment a of None \<Rightarrow> [] | Some cmt \<Rightarrow> cmt)"

definition entry_flag :: "new_file_args \<Rightarrow> u64" where
  "entry_flag a =
     (let flag = na_flagBase a;
          flag = (if na_level a = 8 \<or> na_level a = 9 then flag OR 2 else flag);
          flag = (if na_level a = 2 then flag OR 4 else flag);
          flag = (if na_level a = 1 then flag OR 6 else flag) in
      if na_password a \<noteq> None then flag OR 1 else flag)"

definition entry_dosDate :: "new_file_args \<Rightarrow> u64" where
  "entry_dosDate a =
     (case na_zipfi a of
        None \<Rightarrow> 0
      | Some zipfi \<Rightarrow> if zf_dosDate zipfi \<noteq> 0 then zf_dosDate zipfi
                     else zip64local_TmzDateToDosDate (zf_tmz_date zipfi))"

definition start_entry :: "new_file_args \<Rightarrow> 'z curfile64_info \<Rightarrow> 'z curfile64_info" where
  "start_entry a ci =
     ci\<lparr>ci_dosDate := entry_dosDate a, ci_method := na_method a, ci_compression_method := na_method a,
        ci_crc32 := 0, ci_stream_initialised := 0, ci_pos_in_buffered_data := 0, ci_raw := na_raw a,
        ci_flag := entry_flag a\<rparr>"

text \<open>
  The room on the current disk. Whether zip64 needs room is taken from the entry before this one. The error codes are
  overwritten later.
\<close>

definition find_disk ::
  "nat \<Rightarrow> ('w, 'z) zip64_internal \<Rightarrow> u32 \<Rightarrow> u32 \<Rightarrow> 'w \<Rightarrow> (('w, 'z) zip64_internal \<times> 'w) option" where
  "find_disk n zi size_filename size_extrafield_local w =
     (if zi_disk_size zi > 0 then
        let w = (if zi_number_disk zi = 0 \<and> zi_number_entry zi = 0
                 then snd (zip64local_putValue (zi_z_filefunc zi) (zi_filestream zi) DISKHEADERMAGIC 4 w) else w) in
        do {
          (size_available, w) \<leftarrow> zipGetDiskSizeAvailable zi w;
          let size_needed = (ucast (30 + size_filename + size_extrafield_local) :: u64) +
                            (if ci_zip64 (zi_ci zi) then 20 else 0);
          if size_available < size_needed
          then map_option (\<lambda>(_, zi, w). (zi, w)) (zipGoToNextDisk n zi w) else Some (zi, w)
        }
      else Some (zi, w))"

text \<open>
  The new block, after all its parts were written: the fixed part, the name, the extra field, the 32
  free bytes (which are taken to be 0) and the comment.
\<close>

definition central_header_fixed ::
  "new_file_args \<Rightarrow> u32 \<Rightarrow> u32 \<Rightarrow> u32 \<Rightarrow> u64 \<Rightarrow> 'z curfile64_info \<Rightarrow> byte list" where
  "central_header_fixed a size_filename size_extrafield_global size_cmt add_position ci =
     (let put = zip64local_putValue_inmemory in
      put CENTRALHEADERMAGIC 4 @ put (na_versionMadeBy a) 2 @ put 20 2 @ put (ci_flag ci) 2 @
      put (of_int (ci_method ci)) 2 @ put (ci_dosDate ci) 4 @ put 0 4 @ put 0 4 @ put 0 4 @
      put (ucast size_filename) 2 @ put (ucast size_extrafield_global) 2 @ put (ucast size_cmt) 2 @
      put (ci_number_disk ci) 2 @
      put (case na_zipfi a of None \<Rightarrow> 0 | Some zipfi \<Rightarrow> zf_internal_fa zipfi) 2 @
      put (case na_zipfi a of None \<Rightarrow> 0 | Some zipfi \<Rightarrow> zf_external_fa zipfi) 4 @
      put (if ci_pos_local_header ci \<ge> 0xffffffff then 0xffffffff
           else ci_pos_local_header ci - add_position) 4)"

definition start_central_header ::
  "new_file_args \<Rightarrow> u32 \<Rightarrow> u32 \<Rightarrow> ('w, 'z) zip64_internal \<Rightarrow> 'z curfile64_info" where
  "start_central_header a size_filename size_cmt zi =
     (let ci = zi_ci zi;
          size_extrafield_global = of_nat (length (na_extrafield_global a)) :: u32;
          ci = ci\<lparr>ci_size_comment := ucast size_cmt,
                  ci_size_centralheader := ucast (0x2e + size_filename + size_extrafield_global),
                  ci_size_centralextra := ucast size_extrafield_global, ci_size_centralextrafree := 32,
                  ci_number_disk := zi_number_disk zi\<rparr> in
      ci\<lparr>ci_central_header :=
           central_header_fixed a size_filename size_extrafield_global size_cmt
             (zi_add_position_when_writting_offset zi) ci @
           take (unat size_filename) (entry_filename a) @ na_extrafield_global a @ replicate 32 0 @
           take (unat size_cmt) (entry_comment a),
         ci_zip64 := na_zip64 a, ci_total_compressed := 0, ci_total_uncompressed := 0,
         ci_pos_zip64extrainfo := 0\<rparr>)"

definition write_local_header ::
  "new_file_args \<Rightarrow> u32 \<Rightarrow> 'w zlib_filefunc64_32_def \<Rightarrow> addr \<Rightarrow> 'z curfile64_info \<Rightarrow> 'w \<Rightarrow> int \<times> 'w" where
  "write_local_header a size_filename ff h ci w =
     (let size_extrafield_local = of_nat (length (na_extrafield_local a)) :: u32;
          unknown = (if ci_zip64 ci then 0xFFFFFFFF else 0);
          st = put_next ff h LOCALHEADERMAGIC 4 (ZIP_OK, w);
          st = put_next ff h (if ci_zip64 ci then 45 else 20) 2 st;
          st = put_next ff h (ci_flag ci) 2 st;
          st = put_next ff h (of_int (ci_method ci)) 2 st;
          st = put_next ff h (ci_dosDate ci) 4 st;
          st = put_next ff h 0 4 st;
          st = put_next ff h unknown 4 st;
          st = put_next ff h unknown 4 st;
          st = put_next ff h (ucast size_filename) 2 st;
          st = put_next ff h (ucast size_extrafield_local + (if ci_zip64 ci then 20 else 0)) 2 st;
          st = write_next ff h (entry_filename a) size_filename st in
      write_next ff h (na_extrafield_local a) size_extrafield_local st)"

text \<open>The zip64 field; only the code of its last write counts.\<close>

definition write_zip64_field ::
  "('w, 'z) zip64_internal \<Rightarrow> int \<Rightarrow> 'w \<Rightarrow> (int \<times> ('w, 'z) zip64_internal \<times> 'w) option" where
  "write_zip64_field zi err w =
     (if err = ZIP_OK \<and> ci_zip64 (zi_ci zi) then
        let ff = zi_z_filefunc zi; h = zi_filestream zi in
        do {
          (pos, w) \<leftarrow> call_ztell64 ff h w;
          let (_, w) = zip64local_putValue ff h 1 2 w;
          let (_, w) = zip64local_putValue ff h 16 2 w;
          let (_, w) = zip64local_putValue ff h 0 8 w;
          let (err, w) = zip64local_putValue ff h 0 8 w;
          Some (err, zi\<lparr>zi_ci := (zi_ci zi)\<lparr>ci_pos_zip64extrainfo := pos\<rparr>\<rparr>, w)
        }
      else Some (err, zi, w))"

definition start_stream :: "'z zip_zlib_fns \<Rightarrow> new_file_args \<Rightarrow> int \<Rightarrow> 'z curfile64_info \<Rightarrow> int \<times> 'z curfile64_info" where
  "start_stream zl a err ci =
     (let ci = ci\<lparr>ci_avail_out := of_nat Z_BUFSIZE, ci_next_out := 0, ci_total_in := 0, ci_total_out := 0,
                  ci_data_type := Z_BINARY\<rparr> in
      if err = ZIP_OK \<and> \<not> ci_raw ci \<and> na_method a = 8 then
        (case zd_deflateInit2 zl (na_level a) (if na_windowBits a > 0 then - na_windowBits a else na_windowBits a)
                (na_memLevel a) (na_strategy a) of (err, data_type, z) \<Rightarrow>
           (err, ci\<lparr>ci_data_type := data_type, ci_zstate := z,
                    ci_stream_initialised := (if err = Z_OK then 8 else ci_stream_initialised ci)\<rparr>))
      else (err, ci))"

text \<open>\<open>rnd\<close> are the values of \<^verbatim>\<open>rand()\<close>. A flag that asks for encryption without a password is undefined.\<close>

definition start_crypt ::
  "'z zip_zlib_fns \<Rightarrow> (nat \<Rightarrow> u32) \<Rightarrow> new_file_args \<Rightarrow> ('w, 'z) zip64_internal \<Rightarrow> int \<Rightarrow> 'w \<Rightarrow>
   (int \<times> ('w, 'z) zip64_internal \<times> 'w) option" where
  "start_crypt zl rnd a zi err w =
     (let ci = (zi_ci zi)\<lparr>ci_crypt_header_size := 0\<rparr> in
      if err = Z_OK \<and> ci_flag ci AND 1 \<noteq> 0 then
        (case na_password a of
           None \<Rightarrow> None
         | Some password \<Rightarrow>
             (case crypthead (zl_crc_table zl) password 12 rnd (na_crcForCrypting a) (ci_keys ci) of (bufHead, ks) \<Rightarrow>
              case zwrite64 (zi_z_filefunc zi) (zi_filestream zi) bufHead (of_nat (length bufHead)) w of (k, w) \<Rightarrow>
                Some (if k \<noteq> of_nat (length bufHead) then ZIP_ERRNO else err,
                  zi\<lparr>zi_ci := ci\<lparr>ci_pcrc_32_tab := zl_crc_table zl, ci_keys := ks,
                                  ci_crypt_header_size := of_nat (length bufHead)\<rparr>\<rparr>, w)))
      else Some (err, zi\<lparr>zi_ci := ci\<rparr>, w))"

text \<open>Sizes whose sum does not fit into 32 bits would be written outside of the block.\<close>

definition zipOpenNewFileInZip4_64 ::
  "nat \<Rightarrow> 'z zip_zlib_fns \<Rightarrow> (nat \<Rightarrow> u32) \<Rightarrow> ('w, 'z) zip64_internal \<Rightarrow> new_file_args \<Rightarrow> 'w \<Rightarrow>
   (int \<times> ('w, 'z) zip64_internal \<times> 'w) option" where
  "zipOpenNewFileInZip4_64 n zl rnd zi a w =
     (if na_method a \<noteq> 0 \<and> na_method a \<noteq> 8 then Some (ZIP_PARAMERROR, zi, w)
      else
        do {
          (err, zi, w) \<leftarrow> (if zi_in_opened_file_inzip zi then zipCloseFileInZip n zl zi w else Some (ZIP_OK, zi, w));
          if err \<noteq> ZIP_OK then Some (err, zi, w)
          else
            let size_cmt = of_nat (length (entry_comment a)) :: u32;
                size_filename = of_nat (length (entry_filename a)) :: u32;
                zi = zi\<lparr>zi_ci := start_entry a (zi_ci zi)\<rparr> in
            do {
              (zi, w) \<leftarrow> find_disk n zi size_filename (of_nat (length (na_extrafield_local a))) w;
              (pos, w) \<leftarrow> call_ztell64 (zi_z_filefunc zi) (zi_filestream zi) w;
              let zi = zi\<lparr>zi_ci := (zi_ci zi)\<lparr>ci_pos_local_header := pos\<rparr>\<rparr>;
              if 46 + unat size_filename + length (na_extrafield_global a) \<ge> 2 ^ 32 then None
              else
                let zi = zi\<lparr>zi_ci := start_central_header a size_filename size_cmt zi\<rparr>;
                    (err, w) = write_local_header a size_filename (zi_z_filefunc zi) (zi_filestream zi) (zi_ci zi) w in
                do {
                  (err, zi, w) \<leftarrow> write_zip64_field zi err w;
                  let (err, ci) = start_stream zl a err (zi_ci zi);
                  (err, zi, w) \<leftarrow> start_crypt zl rnd a (zi\<lparr>zi_ci := ci\<rparr>) err w;
                  Some (err, if err = Z_OK then zi\<lparr>zi_in_opened_file_inzip := True\<rparr> else zi, w)
                }
            }
        })"

definition zipOpenNewFileInZip4 ::
  "nat \<Rightarrow> 'z zip_zlib_fns \<Rightarrow> (nat \<Rightarrow> u32) \<Rightarrow> ('w, 'z) zip64_internal \<Rightarrow> byte list option \<Rightarrow> zip_fileinfo option \<Rightarrow>
   byte list \<Rightarrow> byte list \<Rightarrow> byte list option \<Rightarrow> int \<Rightarrow> int \<Rightarrow> bool \<Rightarrow> int \<Rightarrow> int \<Rightarrow> int \<Rightarrow> byte list option \<Rightarrow> u64 \<Rightarrow> u64 \<Rightarrow> u64 \<Rightarrow>
   'w \<Rightarrow> (int \<times> ('w, 'z) zip64_internal \<times> 'w) option" where
  "zipOpenNewFileInZip4 n zl rnd zi filename zipfi extrafield_local extrafield_global cmt method level raw windowBits
     memLevel strategy password crcForCrypting versionMadeBy flagBase w =
     zipOpenNewFileInZip4_64 n zl rnd zi
       \<lparr>na_filename = filename, na_zipfi = zipfi, na_extrafield_local = extrafield_local,
        na_extrafield_global = extrafield_global, na_comment = cmt, na_method = method, na_level = level,
        na_raw = raw, na_windowBits = windowBits, na_memLevel = memLevel, na_strategy = strategy,
        na_password = password, na_crcForCrypting = crcForCrypting, na_versionMadeBy = versionMadeBy,
        na_flagBase = flagBase, na_zip64 = False\<rparr> w"

text \<open>\<^verbatim>\<open>VERSIONMADEBY\<close> is 0.\<close>

definition zipOpenNewFileInZip3_64 ::
  "nat \<Rightarrow> 'z zip_zlib_fns \<Rightarrow> (nat \<Rightarrow> u32) \<Rightarrow> ('w, 'z) zip64_internal \<Rightarrow> byte list option \<Rightarrow> zip_fileinfo option \<Rightarrow>
   byte list \<Rightarrow> byte list \<Rightarrow> byte list option \<Rightarrow> int \<Rightarrow> int \<Rightarrow> bool \<Rightarrow> int \<Rightarrow> int \<Rightarrow> int \<Rightarrow> byte list option \<Rightarrow> u64 \<Rightarrow> bool \<Rightarrow>
   'w \<Rightarrow> (int \<times> ('w, 'z) zip64_internal \<times> 'w) option" where
  "zipOpenNewFileInZip3_64 n zl rnd zi filename zipfi extrafield_local extrafield_global cmt method level raw windowBits
     memLevel strategy password crcForCrypting zip64 w =
     zipOpenNewFileInZip4_64 n zl rnd zi
       \<lparr>na_filename = filename, na_zipfi = zipfi, na_extrafield_local = extrafield_local,
        na_extrafield_global = extrafield_global, na_comment = cmt, na_method = method, na_level = level,
        na_raw = raw, na_windowBits = windowBits, na_memLevel = memLevel, na_strategy = strategy,
        na_password = password, na_crcForCrypting = crcForCrypting, na_versionMadeBy = 0,
        na_flagBase = 0, na_zip64 = zip64\<rparr> w"

definition zipOpenNewFileInZip3 ::
  "nat \<Rightarrow> 'z zip_zlib_fns \<Rightarrow> (nat \<Rightarrow> u32) \<Rightarrow> ('w, 'z) zip64_internal \<Rightarrow> byte list option \<Rightarrow> zip_fileinfo option \<Rightarrow>
   byte list \<Rightarrow> byte list \<Rightarrow> byte list option \<Rightarrow> int \<Rightarrow> int \<Rightarrow> bool \<Rightarrow> int \<Rightarrow> int \<Rightarrow> int \<Rightarrow> byte list option \<Rightarrow> u64 \<Rightarrow>
   'w \<Rightarrow> (int \<times> ('w, 'z) zip64_internal \<times> 'w) option" where
  "zipOpenNewFileInZip3 n zl rnd zi filename zipfi extrafield_local extrafield_global cmt method level raw windowBits
     memLevel strategy password crcForCrypting w =
     zipOpenNewFileInZip4_64 n zl rnd zi
       \<lparr>na_filename = filename, na_zipfi = zipfi, na_extrafield_local = extrafield_local,
        na_extrafield_global = extrafield_global, na_comment = cmt, na_method = method, na_level = level,
        na_raw = raw, na_windowBits = windowBits, na_memLevel = memLevel, na_strategy = strategy,
        na_password = password, na_crcForCrypting = crcForCrypting, na_versionMadeBy = 0,
        na_flagBase = 0, na_zip64 = False\<rparr> w"

text \<open>\<^verbatim>\<open>-MAX_WBITS\<close> is \<open>-15\<close>, \<^verbatim>\<open>DEF_MEM_LEVEL\<close> 8 and \<^verbatim>\<open>Z_DEFAULT_STRATEGY\<close> 0.\<close>

definition zipOpenNewFileInZip2_64 ::
  "nat \<Rightarrow> 'z zip_zlib_fns \<Rightarrow> (nat \<Rightarrow> u32) \<Rightarrow> ('w, 'z) zip64_internal \<Rightarrow> byte list option \<Rightarrow> zip_fileinfo option \<Rightarrow>
   byte list \<Rightarrow> byte list \<Rightarrow> byte list option \<Rightarrow> int \<Rightarrow> int \<Rightarrow> bool \<Rightarrow> bool \<Rightarrow>
   'w \<Rightarrow> (int \<times> ('w, 'z) zip64_internal \<times> 'w) option" where
  "zipOpenNewFileInZip2_64 n zl rnd zi filename zipfi extrafield_local extrafield_global cmt method level raw zip64 w =
     zipOpenNewFileInZip4_64 n zl rnd zi
       \<lparr>na_filename = filename, na_zipfi = zipfi, na_extrafield_local = extrafield_local,
        na_extrafield_global = extrafield_global, na_comment = cmt, na_method = method, na_level = level,
        na_raw = raw, na_windowBits = - 15, na_memLevel = 8, na_strategy = 0, na_password = None,
        na_crcForCrypting = 0, na_versionMadeBy = 0, na_flagBase = 0, na_zip64 = zip64\<rparr> w"

definition zipOpenNewFileInZip2 ::
  "nat \<Rightarrow> 'z zip_zlib_fns \<Rightarrow> (nat \<Rightarrow> u32) \<Rightarrow> ('w, 'z) zip64_internal \<Rightarrow> byte list option \<Rightarrow> zip_fileinfo option \<Rightarrow>
   byte list \<Rightarrow> byte list \<Rightarrow> byte list option \<Rightarrow> int \<Rightarrow> int \<Rightarrow> bool \<Rightarrow>
   'w \<Rightarrow> (int \<times> ('w, 'z) zip64_internal \<times> 'w) option" where
  "zipOpenNewFileInZip2 n zl rnd zi filename zipfi extrafield_local extrafield_global cmt method level raw w =
     zipOpenNewFileInZip4_64 n zl rnd zi
       \<lparr>na_filename = filename, na_zipfi = zipfi, na_extrafield_local = extrafield_local,
        na_extrafield_global = extrafield_global, na_comment = cmt, na_method = method, na_level = level,
        na_raw = raw, na_windowBits = - 15, na_memLevel = 8, na_strategy = 0, na_password = None,
        na_crcForCrypting = 0, na_versionMadeBy = 0, na_flagBase = 0, na_zip64 = False\<rparr> w"

definition zipOpenNewFileInZip64 ::
  "nat \<Rightarrow> 'z zip_zlib_fns \<Rightarrow> (nat \<Rightarrow> u32) \<Rightarrow> ('w, 'z) zip64_internal \<Rightarrow> byte list option \<Rightarrow> zip_fileinfo option \<Rightarrow>
   byte list \<Rightarrow> byte list \<Rightarrow> byte list option \<Rightarrow> int \<Rightarrow> int \<Rightarrow> bool \<Rightarrow>
   'w \<Rightarrow> (int \<times> ('w, 'z) zip64_internal \<times> 'w) option" where
  "zipOpenNewFileInZip64 n zl rnd zi filename zipfi extrafield_local extrafield_global cmt method level zip64 w =
     zipOpenNewFileInZip4_64 n zl rnd zi
       \<lparr>na_filename = filename, na_zipfi = zipfi, na_extrafield_local = extrafield_local,
        na_extrafield_global = extrafield_global, na_comment = cmt, na_method = method, na_level = level,
        na_raw = False, na_windowBits = - 15, na_memLevel = 8, na_strategy = 0, na_password = None,
        na_crcForCrypting = 0, na_versionMadeBy = 0, na_flagBase = 0, na_zip64 = zip64\<rparr> w"

definition zipOpenNewFileInZip ::
  "nat \<Rightarrow> 'z zip_zlib_fns \<Rightarrow> (nat \<Rightarrow> u32) \<Rightarrow> ('w, 'z) zip64_internal \<Rightarrow> byte list option \<Rightarrow> zip_fileinfo option \<Rightarrow>
   byte list \<Rightarrow> byte list \<Rightarrow> byte list option \<Rightarrow> int \<Rightarrow> int \<Rightarrow>
   'w \<Rightarrow> (int \<times> ('w, 'z) zip64_internal \<times> 'w) option" where
  "zipOpenNewFileInZip n zl rnd zi filename zipfi extrafield_local extrafield_global cmt method level w =
     zipOpenNewFileInZip4_64 n zl rnd zi
       \<lparr>na_filename = filename, na_zipfi = zipfi, na_extrafield_local = extrafield_local,
        na_extrafield_global = extrafield_global, na_comment = cmt, na_method = method, na_level = level,
        na_raw = False, na_windowBits = - 15, na_memLevel = 8, na_strategy = 0, na_password = None,
        na_crcForCrypting = 0, na_versionMadeBy = 0, na_flagBase = 0, na_zip64 = False\<rparr> w"

section \<open>Closing the archive\<close>

text \<open>All blocks are counted, those that could not be written too.\<close>

fun write_blocks ::
  "'w zlib_filefunc64_32_def \<Rightarrow> addr \<Rightarrow> linkedlist_data \<Rightarrow> u64 \<Rightarrow> int \<times> 'w \<Rightarrow> u64 \<times> int \<times> 'w" where
  "write_blocks ff h [] size_centraldir st = (size_centraldir, st)"
| "write_blocks ff h (ldi # ll) size_centraldir (err, w) =
     (let filled = of_nat (filled_in_this_block ldi) :: u64;
          (err, w) =
            (if err = ZIP_OK \<and> filled > 0
             then (case zwrite64 ff h (block_data ldi) filled w of (write, w) \<Rightarrow>
                     (if write \<noteq> filled then ZIP_ERRNO else err, w))
             else (err, w)) in
      write_blocks ff h ll (size_centraldir + filled) (err, w))"

definition write_zip64_end ::
  "('w, 'z) zip64_internal \<Rightarrow> u64 \<Rightarrow> u64 \<Rightarrow> 'w \<Rightarrow> (int \<times> 'w) option" where
  "write_zip64_end zi centraldir_pos_inzip size_centraldir w =
     (let ff = zi_z_filefunc zi; h = zi_filestream zi; disk = zi_number_disk_with_CD zi;
          add_position = zi_add_position_when_writting_offset zi in
      do {
        (zip64eocd_pos_inzip, w) \<leftarrow> call_ztell64 ff h w;
        let st = put_next ff h ZIP64ENDHEADERMAGIC 4 (ZIP_OK, w);
        let st = put_next ff h 44 8 st;
        let st = put_next ff h 45 2 st;
        let st = put_next ff h 45 2 st;
        let st = put_next ff h disk 4 st;
        let st = put_next ff h disk 4 st;
        let st = put_next ff h (zi_number_entry zi) 8 st;
        let st = put_next ff h (zi_number_entry zi) 8 st;
        let st = put_next ff h size_centraldir 8 st;
        let st = put_next ff h (centraldir_pos_inzip - add_position) 8 st;
        let st = put_next ff h ZIP64ENDLOCHEADERMAGIC 4 st;
        let st = put_next ff h disk 4 st;
        let st = put_next ff h (zip64eocd_pos_inzip - add_position) 8 st;
        Some (put_next ff h (disk + 1) 4 st)
      })"

definition write_end ::
  "('w, 'z) zip64_internal \<Rightarrow> u64 \<Rightarrow> u64 \<Rightarrow> byte list option \<Rightarrow> int \<times> 'w \<Rightarrow> int \<times> 'w" where
  "write_end zi centraldir_pos_inzip size_centraldir global_comment st =
     (let ff = zi_z_filefunc zi; h = zi_filestream zi; disk = zi_number_disk_with_CD zi;
          entries = (if zi_number_entry zi \<ge> 0xffff then 0xffff else zi_number_entry zi);
          pos = centraldir_pos_inzip - zi_add_position_when_writting_offset zi;
          cmt = (case global_comment of None \<Rightarrow> [] | Some c \<Rightarrow> c);
          size_global_comment = of_nat (length cmt) :: u32;
          st = put_next ff h ENDHEADERMAGIC 4 st;
          st = put_next ff h disk 2 st;
          st = put_next ff h disk 2 st;
          st = put_next ff h entries 2 st;
          st = put_next ff h entries 2 st;
          st = put_next ff h size_centraldir 4 st;
          st = put_next ff h (if pos \<ge> 0xffffffff then 0xffffffff else pos) 4 st;
          st = put_next ff h (ucast size_global_comment) 2 st in
      write_next ff h cmt size_global_comment st)"

text \<open>
  \<open>write_zip64_end\<close> starts with its own error code: an error before it is forgotten. The archive is
  freed, so that only the code and the world are left.
\<close>

definition zipClose ::
  "nat \<Rightarrow> 'z zip_zlib_fns \<Rightarrow> ('w, 'z) zip64_internal \<Rightarrow> byte list option \<Rightarrow> 'w \<Rightarrow> (int \<times> 'w) option" where
  "zipClose n zl zi global_comment w =
     do {
       (err, zi, w) \<leftarrow> (if zi_in_opened_file_inzip zi then zipCloseFileInZip n zl zi w else Some (ZIP_OK, zi, w));
       let global_comment = (case global_comment of None \<Rightarrow> zi_globalcomment zi | c \<Rightarrow> c);
       let (err, zi, w) =
         (if zi_filestream zi \<noteq> zi_filestream_with_CD zi then
            (case zclose64 (zi_z_filefunc zi) (zi_filestream zi) w of (e, w) \<Rightarrow>
               (if e \<noteq> 0 \<and> err = ZIP_OK then ZIP_ERRNO else err,
                zi\<lparr>zi_number_disk_with_CD := (if zi_disk_size zi > 0 then zi_number_disk zi + 1
                                              else zi_number_disk_with_CD zi),
                   zi_filestream := zi_filestream_with_CD zi\<rparr>, w))
          else (err, zi, w));
       let ff = zi_z_filefunc zi;
       let h = zi_filestream zi;
       (centraldir_pos_inzip, w) \<leftarrow> call_ztell64 ff h w;
       let (size_centraldir, err, w) =
         (if err = ZIP_OK then write_blocks ff h (zi_central_dir zi) 0 (err, w) else (0, err, w));
       let pos = centraldir_pos_inzip - zi_add_position_when_writting_offset zi;
       st \<leftarrow> (if pos \<ge> 0xffffffff \<or> zi_number_entry zi > 0xffff
              then write_zip64_end zi centraldir_pos_inzip size_centraldir w else Some (err, w));
       let (err, w) = write_end zi centraldir_pos_inzip size_centraldir global_comment st;
       (case zclose64 ff h w of (e, w) \<Rightarrow> Some (if e \<noteq> 0 \<and> err = ZIP_OK then ZIP_ERRNO else err, w))
     }"

section \<open>Opening an archive\<close>

text \<open>The search is the loop of \<open>unz64local_SearchCentralDir\<close>.\<close>

definition zip64local_SearchCentralDir ::
  "'w zlib_filefunc64_32_def \<Rightarrow> addr \<Rightarrow> 'w \<Rightarrow> (u64 \<times> 'w) option" where
  "zip64local_SearchCentralDir ff h w =
     do {
       (e, w) \<leftarrow> call_zseek64 ff h 0 ZLIB_FILEFUNC_SEEK_END w;
       if e \<noteq> 0 then Some (0, w)
       else
         do {
           (file_size, w) \<leftarrow> call_ztell64 ff h w;
           let max_back = (if 0xffff > file_size then file_size else 0xffff);
           search_blocks 66 ff h file_size max_back 4 w
         }
     }"

definition zip64local_SearchCentralDir64 ::
  "'w zlib_filefunc64_32_def \<Rightarrow> addr \<Rightarrow> u64 \<Rightarrow> 'w \<Rightarrow> (u64 \<times> 'w) option" where
  "zip64local_SearchCentralDir64 ff h endcentraloffset w =
     do {
       (e, w) \<leftarrow> call_zseek64 ff h (endcentraloffset - 0x14) ZLIB_FILEFUNC_SEEK_SET w;
       if e \<noteq> 0 then Some (0, w) else
       (case zip64local_getLong ff h w of (e, uL, w) \<Rightarrow>
       if e \<noteq> ZIP_OK \<or> uL \<noteq> ZIP64ENDLOCHEADERMAGIC then Some (0, w) else
       (case zip64local_getLong ff h w of (e, uL, w) \<Rightarrow>
       if e \<noteq> ZIP_OK then Some (0, w) else
       (case zip64local_getLong64 ff h w of (e, offset, w) \<Rightarrow>
       if e \<noteq> ZIP_OK then Some (0, w) else
       (case zip64local_getLong ff h w of (e, uL, w) \<Rightarrow>
       if e \<noteq> ZIP_OK then Some (0, w) else
       do {
         (e, w) \<leftarrow> call_zseek64 ff h offset ZLIB_FILEFUNC_SEEK_SET w;
         if e \<noteq> 0 then Some (0, w) else
         (case zip64local_getLong ff h w of (e, uL, w) \<Rightarrow>
          if e \<noteq> ZIP_OK \<or> uL \<noteq> ZIP64ENDHEADERMAGIC then Some (0, w) else Some (offset, w))
       }))))
     }"

text \<open>
  What is read of the end of an existing archive: the position of its end record, the numbers of the
  disks, the number of entries, the size and the offset of the directory, and the size of the comment.
\<close>

record zip_end =
  ze_central_pos :: u64
  ze_number_disk :: u64
  ze_number_disk_with_CD :: u64
  ze_number_entry_CD :: u64
  ze_size_central_dir :: u64
  ze_offset_central_dir :: u64
  ze_size_comment :: u64

definition read_zip64_end ::
  "'w zlib_filefunc64_32_def \<Rightarrow> addr \<Rightarrow> zip_end \<Rightarrow> int \<Rightarrow> 'w \<Rightarrow> (zip_end \<times> int \<times> 'w) option" where
  "read_zip64_end ff h ze err w =
     do {
       (central_pos, w) \<leftarrow> zip64local_SearchCentralDir64 ff h (ze_central_pos ze) w;
       if central_pos = 0 then Some (ze\<lparr>ze_central_pos := 0\<rparr>, ZIP_BADZIPFILE, w)
       else
         do {
           (e, w) \<leftarrow> call_zseek64 ff h central_pos ZLIB_FILEFUNC_SEEK_SET w;
           let (uL, st) = checked (zip64local_getLong ff h) (if e \<noteq> 0 then ZIP_ERRNO else err, w);
           let (sizeEndOfCentralDirectory, st) = checked (zip64local_getLong64 ff h) st;
           let (uL, st) = checked (zip64local_getShort ff h) st;
           let (uL, st) = checked (zip64local_getShort ff h) st;
           let (disk, st) = checked (zip64local_getLong ff h) st;
           let (disk_CD, st) = checked (zip64local_getLong ff h) st;
           let (entries, st) = checked (zip64local_getLong64 ff h) st;
           let (number_entry_CD, err, w) = checked (zip64local_getLong64 ff h) st;
           let err = (if number_entry_CD \<noteq> entries then ZIP_BADZIPFILE else err);
           let (cd_size, st) = checked (zip64local_getLong64 ff h) (err, w);
           let (cd_offset, err, w) = checked (zip64local_getLong64 ff h) st;
           Some (ze\<lparr>ze_central_pos := central_pos, ze_number_disk := disk, ze_number_disk_with_CD := disk_CD,
                    ze_number_entry_CD := number_entry_CD, ze_size_central_dir := cd_size,
                    ze_offset_central_dir := cd_offset\<rparr>, err, w)
         }
     }"

definition read_zip_end ::
  "'w zlib_filefunc64_32_def \<Rightarrow> addr \<Rightarrow> 'w \<Rightarrow> (zip_end \<times> int \<times> 'w) option" where
  "read_zip_end ff h w =
     do {
       (central_pos, w) \<leftarrow> zip64local_SearchCentralDir ff h w;
       (e, w) \<leftarrow> call_zseek64 ff h central_pos ZLIB_FILEFUNC_SEEK_SET w;
       let (uL, st) = checked (zip64local_getLong ff h) (if e \<noteq> 0 then ZIP_ERRNO else ZIP_OK, w);
       let (disk, st) = checked (zip64local_getShort ff h) st;
       let (disk_CD, st) = checked (zip64local_getShort ff h) st;
       let (entries, st) = checked (zip64local_getShort ff h) st;
       let (number_entry_CD, err, w) = checked (zip64local_getShort ff h) st;
       let err = (if number_entry_CD \<noteq> entries then ZIP_BADZIPFILE else err);
       let (cd_size, st) = checked (zip64local_getLong ff h) (err, w);
       let (cd_offset, st) = checked (zip64local_getLong ff h) st;
       let (cmt, err, w) = checked (zip64local_getShort ff h) st;
       let ze = \<lparr>ze_central_pos = central_pos, ze_number_disk = disk, ze_number_disk_with_CD = disk_CD,
                 ze_number_entry_CD = number_entry_CD, ze_size_central_dir = cd_size,
                 ze_offset_central_dir = cd_offset, ze_size_comment = cmt\<rparr>;
       (ze, err, w) \<leftarrow>
         (if err = ZIP_OK \<and> (number_entry_CD = 0xffff \<or> cd_offset = 0xffffffff)
          then read_zip64_end ff h ze err w else Some (ze, err, w));
       Some (ze,
         if err = ZIP_OK \<and> ze_central_pos ze < ze_offset_central_dir ze + ze_size_central_dir ze
         then ZIP_BADZIPFILE else err, w)
     }"

text \<open>The central directory goes into the list of blocks, at most 4080 bytes at a time.\<close>

function load_central_dir ::
  "'w zlib_filefunc64_32_def \<Rightarrow> addr \<Rightarrow> nat \<Rightarrow> linkedlist_data \<Rightarrow> int \<times> 'w \<Rightarrow> linkedlist_data \<times> int \<times> 'w" where
  "load_central_dir ff h size_central_dir_to_read ll (err, w) =
     (if \<not> (size_central_dir_to_read > 0 \<and> err = ZIP_OK) then (ll, err, w)
      else
        let read_this = (if SIZEDATA_INDATABLOCK > size_central_dir_to_read then size_central_dir_to_read
                         else SIZEDATA_INDATABLOCK) in
        (case zread64 ff h (of_nat read_this) w of (k, bs, w) \<Rightarrow>
           let (err, ll) = (if k \<noteq> of_nat read_this then (ZIP_ERRNO, ll)
                            else add_data_in_datablock ll (buffer_of read_this bs)) in
           load_central_dir ff h (size_central_dir_to_read - read_this) ll (err, w)))"
  by pat_completeness auto
termination
  by (relation "measure (\<lambda>(_, _, m, _). m)") (auto simp: Let_def split: if_splits)

declare load_central_dir.simps [simp del]

text \<open>
  A read that returns more than was asked for (as a failed one does) would put the terminator outside
  of the block. The stream is left where the central directory began: the archive will be
  overwritten from there on.
\<close>

definition load_archive ::
  "('w, 'z) zip64_internal \<Rightarrow> zip_end \<Rightarrow> 'w \<Rightarrow> (int \<times> ('w, 'z) zip64_internal \<times> 'w) option" where
  "load_archive zi ze w =
     (let ff = zi_z_filefunc zi; h = zi_filestream zi;
          byte_before_the_zipfile = ze_central_pos ze - (ze_offset_central_dir ze + ze_size_central_dir ze);
          start = ze_offset_central_dir ze + byte_before_the_zipfile in
      do {
        (cmt, w) \<leftarrow>
          (if ze_size_comment ze > 0
           then (case zread64 ff h (ze_size_comment ze) w of (k, bs, w) \<Rightarrow>
                   if k > ze_size_comment ze then None
                   else Some (Some (c_string (take (unat k) bs)), w))
           else Some (None, w));
        (e, w) \<leftarrow> call_zseek64 ff h start ZLIB_FILEFUNC_SEEK_SET w;
        let (ll, err, w) =
          load_central_dir ff h (unat (ze_size_central_dir ze)) (zi_central_dir zi) (if e \<noteq> 0 then ZIP_ERRNO else ZIP_OK, w);
        (e, w) \<leftarrow> call_zseek64 ff h start ZLIB_FILEFUNC_SEEK_SET w;
        Some (if e \<noteq> 0 then ZIP_ERRNO else err,
          zi\<lparr>zi_globalcomment := cmt, zi_central_dir := ll, zi_begin_pos := byte_before_the_zipfile,
             zi_add_position_when_writting_offset := byte_before_the_zipfile,
             zi_number_entry := ze_number_entry_CD ze, zi_number_disk := ze_number_disk ze,
             zi_number_disk_with_CD := ze_number_disk_with_CD ze\<rparr>, w)
      })"

text \<open>
  \<open>zipOpen4\<close> gives the archive, with \<^verbatim>\<open>*globalcomment\<close> in its comment, or \<open>None\<close> for NULL. \<open>ci\<close> is what the
  memory for the current entry happens to hold.
\<close>

definition zipOpen4 ::
  "'z curfile64_info \<Rightarrow> string option \<Rightarrow> int \<Rightarrow> u64 \<Rightarrow> 'w zlib_filefunc64_32_def \<Rightarrow> 'w \<Rightarrow>
   (('w, 'z) zip64_internal option \<times> 'w) option" where
  "zipOpen4 ci pathname append_status disk_size ff w =
     do {
       (h, w) \<leftarrow> call_zopen64 ff pathname
         (if append_status = APPEND_STATUS_CREATE
          then ZLIB_FILEFUNC_MODE_READ OR ZLIB_FILEFUNC_MODE_WRITE OR ZLIB_FILEFUNC_MODE_CREATE
          else ZLIB_FILEFUNC_MODE_READ OR ZLIB_FILEFUNC_MODE_WRITE OR ZLIB_FILEFUNC_MODE_EXISTING) w;
       if h = 0 then Some (None, w)
       else if append_status = APPEND_STATUS_CREATEAFTER \<and> disk_size > 0 then Some (None, w)
       else
         do {
           w \<leftarrow> (if append_status = APPEND_STATUS_CREATEAFTER
                 then map_option snd (call_zseek64 ff h 0 ZLIB_FILEFUNC_SEEK_END w) else Some w);
           (begin_pos, w) \<leftarrow> call_ztell64 ff h w;
           let zi = \<lparr>zi_z_filefunc = ff, zi_filestream = h, zi_filestream_with_CD = h,
             zi_central_dir = init_linkedlist, zi_in_opened_file_inzip = False, zi_append = append_status,
             zi_ci = ci\<lparr>ci_stream_initialised := 0\<rparr>, zi_begin_pos = begin_pos,
             zi_add_position_when_writting_offset = 0, zi_number_entry = 0, zi_disk_size = disk_size,
             zi_number_disk = 0, zi_number_disk_with_CD = 0, zi_globalcomment = None\<rparr>;
           (zi, w) \<leftarrow>
             (if append_status = APPEND_STATUS_ADDINZIP then
                do {
                  (ze, err, w) \<leftarrow> read_zip_end ff h w;
                  if err \<noteq> ZIP_OK then Some (None, snd (zclose64 ff h w))
                  else
                    do {
                      (err, zi, w) \<leftarrow> load_archive zi ze w;
                      Some (if err \<noteq> ZIP_OK then None else Some zi, w)
                    }
                }
              else Some (Some zi, w));
           (case zi of
              None \<Rightarrow> Some (None, w)
            | Some zi \<Rightarrow>
                do {
                  (_, zi, w) \<leftarrow> zipGoToFirstDisk zi w;
                  Some (Some zi, w)
                })
         }
     }"

text \<open>With a NULL table of functions, that of \<open>fill_fopen64_filefunc\<close> is used.\<close>

definition zipOpen2 ::
  "'z curfile64_info \<Rightarrow> string option \<Rightarrow> int \<Rightarrow> 'w zlib_filefunc_def \<Rightarrow> 'w \<Rightarrow>
   (('w, 'z) zip64_internal option \<times> 'w) option" where
  "zipOpen2 ci pathname append_status ff32 w =
     zipOpen4 ci pathname append_status 0 (fill_zlib_filefunc64_32_def_from_filefunc32 ff32) w"

definition zipOpen2_64 ::
  "'z curfile64_info \<Rightarrow> string option \<Rightarrow> int \<Rightarrow> 'w zlib_filefunc64_def \<Rightarrow> 'w \<Rightarrow>
   (('w, 'z) zip64_internal option \<times> 'w) option" where
  "zipOpen2_64 ci pathname append_status ff64 w = zipOpen4 ci pathname append_status 0 (table64 ff64) w"

definition zipOpen3 ::
  "'z curfile64_info \<Rightarrow> string option \<Rightarrow> int \<Rightarrow> u64 \<Rightarrow> 'w zlib_filefunc_def \<Rightarrow> 'w \<Rightarrow>
   (('w, 'z) zip64_internal option \<times> 'w) option" where
  "zipOpen3 ci pathname append_status disk_size ff32 w =
     zipOpen4 ci pathname append_status disk_size (fill_zlib_filefunc64_32_def_from_filefunc32 ff32) w"

definition zipOpen3_64 ::
  "'z curfile64_info \<Rightarrow> string option \<Rightarrow> int \<Rightarrow> u64 \<Rightarrow> 'w zlib_filefunc64_def \<Rightarrow> 'w \<Rightarrow>
   (('w, 'z) zip64_internal option \<times> 'w) option" where
  "zipOpen3_64 ci pathname append_status disk_size ff64 w = zipOpen4 ci pathname append_status disk_size (table64 ff64) w"

definition zipOpen ::
  "'z curfile64_info \<Rightarrow> string option \<Rightarrow> int \<Rightarrow> stdio \<Rightarrow> ((stdio, 'z) zip64_internal option \<times> stdio) option" where
  "zipOpen ci pathname append_status w = zipOpen4 ci pathname append_status 0 (table64 fill_fopen64_filefunc) w"

definition zipOpen64 ::
  "'z curfile64_info \<Rightarrow> string option \<Rightarrow> int \<Rightarrow> stdio \<Rightarrow> ((stdio, 'z) zip64_internal option \<times> stdio) option" where
  "zipOpen64 ci pathname append_status w = zipOpen4 ci pathname append_status 0 (table64 fill_fopen64_filefunc) w"

end
