(* ===== verification/Zip_Archive.thy ===== *)
theory Zip_Archive
  imports Zip_Write
begin

text \<open>
  What the writer of archives leaves in a file, proved for every table of file functions that
  behaves like a file (the interface \<open>zip_out\<close>): the end of an archive, the headers and the data of a
  stored entry; and what \<open>unzip.c\<close> makes of it.
\<close>

unbundle bit_operations_syntax

section \<open>Sequences of writes\<close>

text \<open>
  No error yet, and since the position \<open>p\<close> of a file with the contents \<open>c\<close> the bytes \<open>bs\<close> were written.
\<close>

definition st_at ::
  "('w \<Rightarrow> addr \<Rightarrow> (byte list \<times> nat) option) \<Rightarrow> addr \<Rightarrow> byte list \<Rightarrow> nat \<Rightarrow> byte list \<Rightarrow> int \<times> 'w \<Rightarrow> bool" where
  "st_at view h c p bs st \<longleftrightarrow>
     p \<le> length c \<and> fst st = ZIP_OK \<and> view (snd st) h = Some (write_at c p bs, p + length bs)"

lemma write_at_Nil: "p \<le> length c \<Longrightarrow> write_at c p [] = c"
  by (simp add: write_at_def)

lemma write_at_append:
  "p \<le> length c \<Longrightarrow> write_at (write_at c p a) (p + length a) b = write_at c p (a @ b)"
  by (simp add: write_at_def ac_simps)

lemma write_at_inner:
  "p \<le> length c \<Longrightarrow> length b' = length b \<Longrightarrow>
   write_at (write_at c p (a @ b @ d)) (p + length a) b' = write_at c p (a @ b' @ d)"
  by (simp add: write_at_def ac_simps)

lemma st_at_start: "view w h = Some (c, p) \<Longrightarrow> p \<le> length c \<Longrightarrow> st_at view h c p [] (ZIP_OK, w)"
  by (simp add: st_at_def write_at_Nil)

lemma st_at_cases:
  "st_at view h c p bs st \<Longrightarrow>
   (\<And>w. st = (ZIP_OK, w) \<Longrightarrow> view w h = Some (write_at c p bs, p + length bs) \<Longrightarrow> p \<le> length c \<Longrightarrow> thesis) \<Longrightarrow> thesis"
  by (cases st) (auto simp: st_at_def)

context zip_out begin

lemma st_at_write:
  assumes "st_at view h c p bs (ZIP_OK, w)" "unat n \<le> length d"
  shows "\<exists>w'. zwrite64 ff h d n w = (n, w') \<and> st_at view h c p (bs @ take (unat n) d) (ZIP_OK, w')"
proof -
  have v: "view w h = Some (write_at c p bs, p + length bs)" and p: "p \<le> length c"
    using assms(1) by (auto simp: st_at_def)
  from zwrite_law [OF v assms(2)] show ?thesis
    using assms(2) p by (auto simp: st_at_def write_at_append add.assoc min_def)
qed

lemma st_at_put:
  assumes "st_at view h c p bs st" "n < 2 ^ 64"
  shows "st_at view h c p (bs @ zip64local_putValue_inmemory x n) (put_next ff h x n st)"
  using assms(1)
proof (rule st_at_cases)
  fix w
  assume v: "st = (ZIP_OK, w)" "view w h = Some (write_at c p bs, p + length bs)" "p \<le> length c"
  from putValue_view [OF v(2) assms(2), of x] v show ?thesis
    by (auto simp: put_next_def st_at_def write_at_append add.assoc)
qed

lemma st_at_write_next:
  assumes "st_at view h c p bs st" "unat n \<le> length d"
  shows "st_at view h c p (bs @ take (unat n) d) (write_next ff h d n st)"
  using assms(1)
proof (rule st_at_cases)
  fix w
  assume v: "st = (ZIP_OK, w)" "view w h = Some (write_at c p bs, p + length bs)" "p \<le> length c"
  show ?thesis
  proof (cases "n > 0")
    case True
    have u: "unat (ucast n :: u64) = unat n" by (rule unat_ucast_u32)
    have "st_at view h c p bs (ZIP_OK, w)" using assms(1) v(1) by simp
    from st_at_write [OF this, of "ucast n" d] assms(2) True v(1) show ?thesis
      unfolding u by (auto simp: write_next_def)
  next
    case False
    then have "n = 0" by (simp add: word_gt_0)
    with assms(1) v(1) show ?thesis by (simp add: write_next_def)
  qed
qed

end

section \<open>The end of an archive\<close>

text \<open>The bytes that \<^verbatim>\<open>zipClose\<close> writes, with its conditions; what the format asks for is \<open>format_tail\<close> below.\<close>

definition end_bytes :: "u64 \<Rightarrow> u64 \<Rightarrow> u64 \<Rightarrow> u64 \<Rightarrow> byte list \<Rightarrow> byte list" where
  "end_bytes disk entries size_dir pos cmt =
     (let put = zip64local_putValue_inmemory in
      put ENDHEADERMAGIC 4 @ put disk 2 @ put disk 2 @
      put (if entries \<ge> 0xffff then 0xffff else entries) 2 @
      put (if entries \<ge> 0xffff then 0xffff else entries) 2 @ put size_dir 4 @
      put (if pos \<ge> 0xffffffff then 0xffffffff else pos) 4 @ put (of_nat (length cmt)) 2 @ cmt)"

definition end64_bytes :: "u64 \<Rightarrow> u64 \<Rightarrow> u64 \<Rightarrow> u64 \<Rightarrow> u64 \<Rightarrow> byte list" where
  "end64_bytes disk entries size_dir pos end_pos =
     (let put = zip64local_putValue_inmemory in
      put ZIP64ENDHEADERMAGIC 4 @ put 44 8 @ put 45 2 @ put 45 2 @ put disk 4 @ put disk 4 @
      put entries 8 @ put entries 8 @ put size_dir 8 @ put pos 8 @
      put ZIP64ENDLOCHEADERMAGIC 4 @ put disk 4 @ put end_pos 8 @ put (disk + 1) 4)"

text \<open>
  What the code lets follow the last entry when the stream is at the position \<open>p\<close>: the central directory, the zip64 records
  under the condition of the code, the end record and the comment.
\<close>

definition archive_tail :: "byte list \<Rightarrow> u64 \<Rightarrow> u64 \<Rightarrow> u64 \<Rightarrow> nat \<Rightarrow> byte list \<Rightarrow> byte list" where
  "archive_tail dir disk entries add_position p cmt =
     (let pos = of_nat p - add_position; end_pos = of_nat (p + length dir) - add_position in
      dir @ (if pos \<ge> 0xffffffff \<or> entries > 0xffff
             then end64_bytes disk entries (of_nat (length dir)) pos end_pos else []) @
      end_bytes disk entries (of_nat (length dir)) pos cmt)"

definition archive_end :: "('w, 'z) zip64_internal \<Rightarrow> nat \<Rightarrow> byte list \<Rightarrow> byte list" where
  "archive_end zi p cmt =
     archive_tail (blocks_bytes (zi_central_dir zi)) (zi_number_disk_with_CD zi) (zi_number_entry zi)
       (zi_add_position_when_writting_offset zi) p cmt"

text \<open>
  What the format asks for (4.3.14 to 4.3.16 and 4.4.1.4 of its specification): a number that does not fit its field is
  replaced by the largest value of the field, and then, and only then, the zip64 records hold it. \<open>pos\<close> is the offset of the
  directory in the archive; the comment has a length of two bytes.
\<close>

definition format_end :: "nat \<Rightarrow> nat \<Rightarrow> nat \<Rightarrow> nat \<Rightarrow> byte list \<Rightarrow> byte list" where
  "format_end disk entries size_dir pos cmt =
     le_bytes 4 0x06054b50 @ le_bytes 2 disk @ le_bytes 2 disk @ le_bytes 2 (min entries 0xffff) @
     le_bytes 2 (min entries 0xffff) @ le_bytes 4 (min size_dir 0xffffffff) @ le_bytes 4 (min pos 0xffffffff) @
     le_bytes 2 (length cmt) @ cmt"

definition format_end64 :: "nat \<Rightarrow> nat \<Rightarrow> nat \<Rightarrow> nat \<Rightarrow> byte list" where
  "format_end64 disk entries size_dir pos =
     le_bytes 4 0x06064b50 @ le_bytes 8 44 @ le_bytes 2 45 @ le_bytes 2 45 @ le_bytes 4 disk @ le_bytes 4 disk @
     le_bytes 8 entries @ le_bytes 8 entries @ le_bytes 8 size_dir @ le_bytes 8 pos @
     le_bytes 4 0x07064b50 @ le_bytes 4 disk @ le_bytes 8 (pos + size_dir) @ le_bytes 4 (disk + 1)"

definition format_tail :: "byte list \<Rightarrow> nat \<Rightarrow> nat \<Rightarrow> nat \<Rightarrow> byte list \<Rightarrow> byte list" where
  "format_tail dir disk entries pos cmt =
     dir @
     (if 0xffff \<le> entries \<or> 0xffffffff \<le> length dir \<or> 0xffffffff \<le> pos then format_end64 disk entries (length dir) pos else []) @
     format_end disk entries (length dir) pos cmt"

lemma putValue_of_nat: "n < 256 ^ k \<Longrightarrow> n < 2 ^ 64 \<Longrightarrow> zip64local_putValue_inmemory (of_nat n) k = le_bytes k n"
  by (simp add: putValue_bytes unat_u64_of_nat)

text \<open>
  The code keeps to it below 4 GiB for the directory, on fewer than 65535 disks, except with exactly 65535 entries: it writes
  the mark then, but not the zip64 records.
\<close>

lemma archive_tail_format:
  assumes "entries < 2 ^ 64" "entries \<noteq> 0xffff" "length dir < 0xffffffff" "A \<le> p" "p + length dir < 2 ^ 63"
    "disk < 0xffff" "length cmt < 0x10000"
  shows "archive_tail dir (of_nat disk) (of_nat entries) (of_nat A) p cmt = format_tail dir disk entries (p - A) cmt"
proof -
  have pos: "of_nat p - of_nat A = (of_nat (p - A) :: u64)"
    "of_nat (p + length dir) - of_nat A = (of_nat (p - A + length dir) :: u64)"
    using assms(4) by (simp_all add: of_nat_diff)
  have marks: "(of_nat entries :: u64) \<ge> 0xffff \<longleftrightarrow> 0xffff \<le> entries" "(of_nat entries :: u64) > 0xffff \<longleftrightarrow> 0xffff \<le> entries"
    "(of_nat (p - A) :: u64) \<ge> 0xffffffff \<longleftrightarrow> 0xffffffff \<le> p - A"
    using assms(1,2,5) by (auto simp: word_le_nat_alt word_less_nat_alt unat_u64_of_nat)
  have put: "put (if 0xffff \<le> entries then 0xffff else of_nat entries) 2 = le_bytes 2 (min entries 0xffff)"
    "put (if 0xffffffff \<le> p - A then 0xffffffff else of_nat (p - A)) 4 = le_bytes 4 (min (p - A) 0xffffffff)"
    if "put = zip64local_putValue_inmemory" for put
    using putValue_of_nat [of "min entries 0xffff" 2] putValue_of_nat [of "min (p - A) 0xffffffff" 4]
    unfolding that by (auto simp: min_def split: if_splits)
  have disk: "of_nat disk + 1 = (of_nat (disk + 1) :: u64)" by simp
  have size: "min (length dir) 0xffffffff = length dir" using assms(3) by simp
  have E: "end_bytes (of_nat disk) (of_nat entries) (of_nat (length dir)) (of_nat (p - A)) cmt =
      format_end disk entries (length dir) (p - A) cmt"
    unfolding end_bytes_def Let_def marks put [OF refl] format_end_def size
    using assms(3,6,7) by (simp add: putValue_bytes unat_u64_of_nat del: le_bytes_numeral)
  have last: "zip64local_putValue_inmemory (of_nat (disk + 1)) 4 = le_bytes 4 (disk + 1)"
    "zip64local_putValue_inmemory (of_nat (p - A + length dir)) 8 = le_bytes 8 (p - A + length dir)"
    by (rule putValue_of_nat; use assms(5,6) in simp)+
  have small: "p - A < 2 ^ 64" using assms(5) by simp
  have E64: "end64_bytes (of_nat disk) (of_nat entries) (of_nat (length dir)) (of_nat (p - A)) (of_nat (p - A + length dir)) =
      format_end64 disk entries (length dir) (p - A)"
    unfolding end64_bytes_def Let_def format_end64_def disk last
    using assms(1,3,6) small by (simp add: putValue_bytes unat_u64_of_nat del: le_bytes_numeral of_nat_add)
  show ?thesis
    unfolding archive_tail_def format_tail_def Let_def pos marks E E64 using assms(3) by auto
qed

text \<open>With exactly 65535 entries the archive is not what the format asks for.\<close>

lemma archive_tail_65535:
  "archive_tail dir disk 0xffff add p cmt \<noteq> format_tail dir d 0xffff pos cmt" if "of_nat p - add < (0xffffffff :: u64)"
proof
  assume "archive_tail dir disk 0xffff add p cmt = format_tail dir d 0xffff pos cmt"
  then have "length (archive_tail dir disk 0xffff add p cmt) = length (format_tail dir d 0xffff pos cmt)" by simp
  moreover have "\<not> 0xffffffff \<le> (of_nat p - add :: u64)" using that by simp
  ultimately show False
    by (simp add: archive_tail_def format_tail_def format_end_def format_end64_def end_bytes_def Let_def not_le)
qed

lemma st_at_eqI: "st_at view h c p bs' st \<Longrightarrow> bs' = bs \<Longrightarrow> st_at view h c p bs st"
  by simp

context zip_out begin

lemma write_end_at:
  assumes "st_at view h c p bs st" "zi_z_filefunc zi = ff" "zi_filestream zi = h" "length cmt < 2 ^ 32"
    and "(case gc of None \<Rightarrow> [] | Some c \<Rightarrow> c) = cmt"
  shows "st_at view h c p
    (bs @ end_bytes (zi_number_disk_with_CD zi) (zi_number_entry zi) size_dir
       (pos - zi_add_position_when_writting_offset zi) cmt)
    (write_end zi pos size_dir gc st)"
proof -
  have gc: "(case gc of None \<Rightarrow> [] | Some c \<Rightarrow> c) = cmt" using assms(5) .
  have n: "unat (of_nat (length cmt) :: u32) = length cmt" using assms(4) by (simp add: unat_of_nat)
  have u: "(ucast (of_nat (length cmt) :: u32) :: u64) = of_nat (length cmt)"
    using assms(4) by (rule ucast_u32_of_nat)
  show ?thesis
    unfolding write_end_def Let_def end_bytes_def assms(2,3) gc u
    by (rule st_at_eqI, rule st_at_write_next, (rule st_at_put)+, rule assms(1)) (simp_all add: n)
qed

lemma write_blocks_at:
  assumes "st_at view h c p bs (ZIP_OK, w)" "\<forall>ldi \<in> set ll. block_ok ldi"
  shows "\<exists>w'. write_blocks ff h ll k (ZIP_OK, w) = (k + of_nat (length (blocks_bytes ll)), ZIP_OK, w') \<and>
    st_at view h c p (bs @ blocks_bytes ll) (ZIP_OK, w')"
  using assms
proof (induction ll arbitrary: bs k w)
  case Nil
  then show ?case by simp
next
  case (Cons ldi ll)
  let ?n = "of_nat (filled_in_this_block ldi) :: u64"
  have ok: "filled_in_this_block ldi \<le> 4080" "length (block_data ldi) = 4080"
    using Cons.prems(2) by (auto simp: block_ok_def)
  have n: "unat ?n = filled_in_this_block ldi" using ok by (intro unat_u64_of_nat) simp
  have len: "length (block_bytes ldi) = filled_in_this_block ldi" using ok by (simp add: block_bytes_def)
  have "\<exists>w1. (if ?n > 0 then (case zwrite64 ff h (block_data ldi) ?n w of (write, w) \<Rightarrow>
            (if write \<noteq> ?n then ZIP_ERRNO else ZIP_OK, w)) else (ZIP_OK, w)) = (ZIP_OK, w1) \<and>
      st_at view h c p (bs @ block_bytes ldi) (ZIP_OK, w1)"
  proof (cases "?n > 0")
    case True
    with st_at_write [OF Cons.prems(1), of ?n "block_data ldi"] ok n show ?thesis
      by (auto simp: block_bytes_def)
  next
    case False
    then have "filled_in_this_block ldi = 0" using n unfolding word_gt_0 by simp
    with Cons.prems(1) show ?thesis by (simp add: block_bytes_def)
  qed
  then obtain w1 where w1: "(if ?n > 0 then (case zwrite64 ff h (block_data ldi) ?n w of (write, w) \<Rightarrow>
            (if write \<noteq> ?n then ZIP_ERRNO else ZIP_OK, w)) else (ZIP_OK, w)) = (ZIP_OK, w1)"
    "st_at view h c p (bs @ block_bytes ldi) (ZIP_OK, w1)" by blast
  from Cons.IH [OF w1(2), of "k + ?n"] Cons.prems(2) w1(1) show ?case
    by (auto simp: Let_def len add.assoc)
qed


lemma write_zip64_end_at:
  assumes "st_at view h c p bs (ZIP_OK, w)" "zi_z_filefunc zi = ff" "zi_filestream zi = h" "p + length bs < bound"
  shows "\<exists>st. write_zip64_end zi pos size_dir w = Some st \<and>
    st_at view h c p
      (bs @ end64_bytes (zi_number_disk_with_CD zi) (zi_number_entry zi) size_dir
         (pos - zi_add_position_when_writting_offset zi)
         (of_nat (p + length bs) - zi_add_position_when_writting_offset zi)) st"
proof -
  have v: "view w h = Some (write_at c p bs, p + length bs)" using assms(1) by (simp add: st_at_def)
  show ?thesis
    unfolding write_zip64_end_def Let_def assms(2,3) ztell_law [OF v assms(4)] end64_bytes_def
    by (simp, rule st_at_eqI, (rule st_at_put)+, rule assms(1)) simp_all
qed

lemma zipClose_view:
  assumes "view w (zi_filestream zi) = Some (c, p)" "p \<le> length c"
    and "p + length (blocks_bytes (zi_central_dir zi)) < bound"
    and "zi_z_filefunc zi = ff" "zi_filestream_with_CD zi = zi_filestream zi"
    and "\<not> zi_in_opened_file_inzip zi" "blocks_ok (zi_central_dir zi)" "length cmt < 2 ^ 32"
    and "(case gc of None \<Rightarrow> (case zi_globalcomment zi of None \<Rightarrow> [] | Some c \<Rightarrow> c) | Some c \<Rightarrow> c) = cmt"
  shows "\<exists>w'. zipClose n zl zi gc w = Some (ZIP_OK, w') \<and>
    stored w' = write_at c p (archive_end zi p cmt)"
proof -
  let ?h = "zi_filestream zi" and ?D = "blocks_bytes (zi_central_dir zi)"
  let ?add = "zi_add_position_when_writting_offset zi" and ?disk = "zi_number_disk_with_CD zi"
  let ?gc = "case gc of None \<Rightarrow> zi_globalcomment zi | c \<Rightarrow> c"
  have gc: "(case ?gc of None \<Rightarrow> [] | Some c \<Rightarrow> c) = cmt" using assms(9) by (cases gc) auto
  have t: "call_ztell64 ff ?h w = Some (of_nat p, w)" using assms(3) by (intro ztell_law [OF assms(1)]) simp
  have s: "st_at view ?h c p [] (ZIP_OK, w)" by (rule st_at_start) (rule assms(1,2))+
  obtain w1 where w1: "write_blocks ff ?h (zi_central_dir zi) 0 (ZIP_OK, w) = (of_nat (length ?D), ZIP_OK, w1)"
    "st_at view ?h c p ?D (ZIP_OK, w1)"
    using write_blocks_at [OF s, of "zi_central_dir zi" 0] assms(7)
    by (auto simp: blocks_ok_def)
  let ?z64 = "of_nat p - ?add \<ge> 0xffffffff \<or> zi_number_entry zi > 0xffff"
  let ?bs = "if ?z64 then end64_bytes ?disk (zi_number_entry zi) (of_nat (length ?D)) (of_nat p - ?add)
      (of_nat (p + length ?D) - ?add) else []"
  obtain st where st: "(if ?z64 then write_zip64_end zi (of_nat p) (of_nat (length ?D)) w1 else Some (ZIP_OK, w1)) = Some st"
    "st_at view ?h c p (?D @ ?bs) st"
  proof (cases ?z64)
    case True
    obtain st where "write_zip64_end zi (of_nat p) (of_nat (length ?D)) w1 = Some st"
      "st_at view ?h c p (?D @ end64_bytes ?disk (zi_number_entry zi) (of_nat (length ?D)) (of_nat p - ?add)
        (of_nat (p + length ?D) - ?add)) st"
      using write_zip64_end_at [OF w1(2) assms(4) refl assms(3), where pos = "of_nat p" and size_dir = "of_nat (length ?D)"]
      by blast
    then show ?thesis by (intro that [of st]) (simp_all only: if_P [OF True])
  next
    case False
    have "st_at view ?h c p (?D @ []) (ZIP_OK, w1)" using w1(2) by simp
    then show ?thesis by (intro that [of "(ZIP_OK, w1)"]) (simp_all only: if_not_P [OF False])
  qed
  have "st_at view ?h c p (archive_end zi p cmt) (write_end zi (of_nat p) (of_nat (length ?D)) ?gc st)"
    by (rule st_at_eqI [OF write_end_at [OF st(2) assms(4) refl assms(8) gc]])
      (simp only: archive_end_def archive_tail_def Let_def append_assoc)
  then obtain w2 where w2: "write_end zi (of_nat p) (of_nat (length ?D)) ?gc st = (ZIP_OK, w2)"
    "view w2 ?h = Some (write_at c p (archive_end zi p cmt), p + length (archive_end zi p cmt))"
    by (rule st_at_cases)
  obtain w3 where w3: "zclose64 ff ?h w2 = (0, w3)" "stored w3 = write_at c p (archive_end zi p cmt)"
    using zclose_law [OF w2(2)] by blast
  show ?thesis
    by (simp only: zipClose_def Let_def assms(4,5,6) t w1(1) st(1) w2(1) w3 if_False if_True refl Option.bind.simps
        prod.case option.case simp_thms) (use w3(2) in blast)
qed

end

section \<open>The end of the archive as it is read\<close>

lemma file_number_append: "length c = q \<Longrightarrow> file_number (c @ d) (q + k) n = file_number d k n"
  by (simp add: file_number_def)

lemma is_magic_append: "i = length c + j \<Longrightarrow> is_magic m (c @ d) i = is_magic m d j"
  by (simp add: is_magic_def nth_append)

lemma length_end_bytes [simp]: "length (end_bytes disk entries size_dir pos cmt) = 22 + length cmt"
  by (simp add: end_bytes_def Let_def)

lemma le_word_putValue_less: "n \<le> 8 \<Longrightarrow> unat x < 256 ^ n \<Longrightarrow> le_word (zip64local_putValue_inmemory x n) = x"
  by (simp add: le_word_putValue)

lemma end_bytes_numbers:
  assumes "disk < 0x10000" "entries \<le> 0xffff" "size_dir < 0x100000000" "pos < 0xffffffff" "length cmt < 65536"
  defines "E \<equiv> end_bytes disk entries size_dir pos cmt"
  shows "file_number E 4 2 = disk" "file_number E 6 2 = disk" "file_number E 8 2 = entries"
    "file_number E 10 2 = entries" "file_number E 12 4 = size_dir" "file_number E 16 4 = pos"
    "file_number E 20 2 = of_nat (length cmt)"
proof -
  define put where "put = zip64local_putValue_inmemory"
  have e: "(if entries \<ge> 0xffff then 0xffff else entries) = entries" using assms(2) by auto
  have q: "(if pos \<ge> 0xffffffff then 0xffffffff else pos) = pos" using assms(4) by auto
  have E: "E = put ENDHEADERMAGIC 4 @ put disk 2 @ put disk 2 @ put entries 2 @ put entries 2 @ put size_dir 4 @
      put pos 4 @ put (of_nat (length cmt)) 2 @ cmt"
    unfolding E_def end_bytes_def Let_def e q put_def ..
  have b: "unat disk < 256 ^ 2" "unat entries < 256 ^ 2" "unat size_dir < 256 ^ 4" "unat pos < 256 ^ 4"
    "unat (of_nat (length cmt) :: u64) < 256 ^ 2"
    using assms(1-5) by (simp_all add: word_less_nat_alt word_le_nat_alt unat_u64_of_nat)
  show "file_number E 4 2 = disk" "file_number E 6 2 = disk" "file_number E 8 2 = entries"
    "file_number E 10 2 = entries" "file_number E 12 4 = size_dir" "file_number E 16 4 = pos"
    "file_number E 20 2 = of_nat (length cmt)"
    unfolding E put_def file_number_def using b by (simp_all add: le_word_putValue_less)
qed

lemma is_magic_end_bytes: "is_magic ENDHEADERMAGIC (end_bytes disk entries size_dir pos cmt) 0"
  by (simp add: is_magic_def end_bytes_def Let_def zip64local_putValue_inmemory_def split_bytes_eq)

text \<open>The end record that describes the archive, and when it can be found from the end of the file.\<close>

definition tail_record :: "byte list \<Rightarrow> u64 \<Rightarrow> u64 \<Rightarrow> u64 \<Rightarrow> nat \<Rightarrow> byte list \<Rightarrow> end_record" where
  "tail_record dir disk entries add_position p cmt =
     \<lparr>er_number_disk = disk,
      er_gi = \<lparr>number_entry = entries, number_disk_with_CD = disk, size_comment = of_nat (length cmt)\<rparr>,
      er_size_central_dir = of_nat (length dir), er_offset_central_dir = of_nat p - add_position\<rparr>"

definition plain_tail :: "byte list \<Rightarrow> u64 \<Rightarrow> u64 \<Rightarrow> u64 \<Rightarrow> nat \<Rightarrow> byte list \<Rightarrow> bool" where
  "plain_tail dir disk entries add_position p cmt \<longleftrightarrow>
     disk < 0x10000 \<and> entries \<le> 0xffff \<and> length dir < 2 ^ 32 \<and> of_nat p - add_position < 0xffffffff \<and>
     length cmt \<le> 65513 \<and>
     (let E = end_bytes disk entries (of_nat (length dir)) (of_nat p - add_position) cmt in
      \<forall>i \<in> {1..18 + length cmt}. \<not> is_magic ENDHEADERMAGIC E i)"

definition end_record_for :: "('w, 'z) zip64_internal \<Rightarrow> nat \<Rightarrow> byte list \<Rightarrow> end_record" where
  "end_record_for zi p cmt =
     tail_record (blocks_bytes (zi_central_dir zi)) (zi_number_disk_with_CD zi) (zi_number_entry zi)
       (zi_add_position_when_writting_offset zi) p cmt"

definition plain_end :: "('w, 'z) zip64_internal \<Rightarrow> nat \<Rightarrow> byte list \<Rightarrow> bool" where
  "plain_end zi p cmt \<longleftrightarrow>
     plain_tail (blocks_bytes (zi_central_dir zi)) (zi_number_disk_with_CD zi) (zi_number_entry zi)
       (zi_add_position_when_writting_offset zi) p cmt"

lemma plain_tail_record:
  assumes "plain_tail dir disk entries add (length c) cmt" "0 < length c + length dir"
  defines "r \<equiv> length c + length dir" and "C \<equiv> c @ archive_tail dir disk entries add (length c) cmt"
  shows "end_record_at C r"
    and "end_record_of C r = tail_record dir disk entries add (length c) cmt"
    and "file_number C (r + 10) 2 = file_number C (r + 8) 2"
    and "length C = r + 22 + length cmt"
    and "C = c @ dir @ drop r C"
proof -
  let ?pos = "of_nat (length c) - add"
  define E where "E = end_bytes disk entries (of_nat (length dir)) ?pos cmt"
  note p = assms(1) [unfolded plain_tail_def Let_def, folded E_def]
  have "\<not> (?pos \<ge> 0xffffffff \<or> entries > 0xffff)" using p by auto
  then have C: "C = (c @ dir) @ E"
    by (simp add: C_def archive_tail_def Let_def E_def)
  have r: "length (c @ dir) = r" by (simp add: r_def)
  have lenE: "length E = 22 + length cmt" by (simp add: E_def)
  show "length C = r + 22 + length cmt"
    unfolding C length_append [of "c @ dir"] r lenE by simp
  show "C = c @ dir @ drop r C" unfolding C r [symmetric] by simp
  have "(of_nat (length dir) :: u64) < 0x100000000"
    using p u64_of_nat_less [of "length dir" "0x100000000"] by simp
  note nums = end_bytes_numbers [of disk entries "of_nat (length dir)" ?pos cmt, folded E_def, OF _ _ this]
  have n: "file_number E 4 2 = disk" "file_number E 6 2 = disk"
    "file_number E 8 2 = entries" "file_number E 10 2 = entries"
    "file_number E 12 4 = of_nat (length dir)" "file_number E 16 4 = ?pos" "file_number E 20 2 = of_nat (length cmt)"
    using nums p by simp_all
  show "end_record_of C r = tail_record dir disk entries add (length c) cmt"
    unfolding C end_record_of_def tail_record_def file_number_append [OF r] n ..
  show "file_number C (r + 10) 2 = file_number C (r + 8) 2"
    unfolding C file_number_append [OF r] n ..
  show "end_record_at C r"
    unfolding C end_record_at_def
  proof (intro conjI impI allI)
    show "is_magic ENDHEADERMAGIC ((c @ dir) @ E) r"
      using is_magic_append [of r "c @ dir" 0] r is_magic_end_bytes by (simp add: E_def)
    show "r + 4 \<le> length ((c @ dir) @ E)" "length ((c @ dir) @ E) \<le> r + 0xffff"
      using p unfolding length_append [of "c @ dir"] r lenE by simp_all
    fix i
    assume i: "r < i" "i + 4 \<le> length ((c @ dir) @ E)"
    then have "i = length (c @ dir) + (i - r)" "i - r \<in> {1..18 + length cmt}"
      unfolding length_append [of "c @ dir"] r lenE by auto
    then show "\<not> is_magic ENDHEADERMAGIC ((c @ dir) @ E) i" using p is_magic_append by metis
  qed
qed

text \<open>
  C33: Closing an archive leaves in the file, from the position of the stream on, the central
  directory (the bytes of all blocks), the zip64 records if the offset of the directory or the number of entries
  asks for them, the end record and the comment; the call succeeds, through both tables of file functions.
\<close>

lemma zip_close_writes_end:
  assumes "stdio_named name w (zi_filestream zi) = Some (c, p)" "p \<le> length c"
    and "zi_filestream_with_CD zi = zi_filestream zi" "\<not> zi_in_opened_file_inzip zi"
    and "blocks_ok (zi_central_dir zi)" "length cmt < 2 ^ 32"
    and "(case gc of None \<Rightarrow> (case zi_globalcomment zi of None \<Rightarrow> [] | Some c \<Rightarrow> c) | Some c \<Rightarrow> c) = cmt"
  shows "(zi_z_filefunc zi = table64 fill_fopen64_filefunc \<longrightarrow>
      p + length (blocks_bytes (zi_central_dir zi)) < 2 ^ 63 \<longrightarrow>
      (\<exists>w'. zipClose n zl zi gc w = Some (ZIP_OK, w') \<and>
         stdio_stored name w' = write_at c p (archive_end zi p cmt))) \<and>
    (zi_z_filefunc zi = fill_zlib_filefunc64_32_def_from_filefunc32 fill_fopen_filefunc \<longrightarrow>
      p + length (blocks_bytes (zi_central_dir zi)) < 2 ^ 32 - 1 \<longrightarrow>
      (\<exists>w'. zipClose n zl zi gc w = Some (ZIP_OK, w') \<and>
         stdio_stored name w' = write_at c p (archive_end zi p cmt)))"
  using stdio_out64.zipClose_view [OF assms(1,2) _ _ assms(3-7)] stdio_out32.zipClose_view [OF assms(1,2) _ _ assms(3-7)]
  by blast


subsection \<open>Witnesses\<close>

text \<open>
  A \<^verbatim>\<open>zlib\<close> to evaluate with: the CRC-32 of the zip format, computed bit by bit, and a stream that
  copies its input.
\<close>

primrec crc_bits :: "nat \<Rightarrow> u64 \<Rightarrow> u64" where
  "crc_bits 0 c = c" |
  "crc_bits (Suc n) c = crc_bits n (if bit c 0 then drop_bit 1 c XOR 0xedb88320 else drop_bit 1 c)"

definition example_crc32 :: "u64 \<Rightarrow> byte list \<Rightarrow> u64" where
  "example_crc32 c bs =
     foldl (\<lambda>c b. drop_bit 8 c XOR crc_bits 8 ((c XOR ucast b) AND 0xff)) (c XOR 0xffffffff) bs XOR 0xffffffff"

definition example_zl :: "unit zip_zlib_fns" where
  "example_zl =
     \<lparr>zl_inflateInit2 = (0, ()),
      zl_inflate = (\<lambda>_ bs room. let n = min (length bs) (unat room) in (0, n, take n bs, False, ())),
      zl_crc32 = example_crc32, zl_crc_table = (\<lambda>i. crc_bits 8 (of_nat i)),
      zd_deflateInit2 = (\<lambda>_ _ _ _. (0, 0, ())),
      zd_deflate = (\<lambda>_ bs room finish. let n = min (length bs) (unat room) in
        (if finish \<and> n = length bs then 1 else 0, n, take n bs, 0, ())),
      zd_deflateEnd = (\<lambda>_. 0)\<rparr>"

lemma example_crc32_append: "example_crc32 (example_crc32 c xs) ys = example_crc32 c (xs @ ys)"
  by (simp add: example_crc32_def xor.assoc)

definition example_ci :: "unit curfile64_info" where
  "example_ci =
     \<lparr>ci_avail_out = 0, ci_next_out = 0, ci_total_in = 0, ci_total_out = 0, ci_data_type = 0, ci_zstate = (),
      ci_stream_initialised = 0, ci_pos_in_buffered_data = 0, ci_pos_local_header = 0, ci_central_header = [],
      ci_size_centralextra = 0, ci_size_centralheader = 0, ci_size_centralextrafree = 0, ci_size_comment = 0,
      ci_flag = 0, ci_method = 0, ci_compression_method = 0, ci_raw = False, ci_buffered_data = replicate 65536 0,
      ci_dosDate = 0, ci_crc32 = 0, ci_zip64 = False, ci_number_disk = 0, ci_pos_zip64extrainfo = 0,
      ci_total_compressed = 0, ci_total_uncompressed = 0, ci_keys = (0, 0, 0), ci_pcrc_32_tab = (\<lambda>_. 0),
      ci_crypt_header_size = 0\<rparr>"

definition example_zi :: "u64 \<Rightarrow> (stdio, unit) zip64_internal" where
  "example_zi entries =
     \<lparr>zi_z_filefunc = table64 fill_fopen64_filefunc, zi_filestream = 1, zi_filestream_with_CD = 1,
      zi_central_dir = init_linkedlist, zi_in_opened_file_inzip = False, zi_append = 0, zi_ci = example_ci,
      zi_begin_pos = 0, zi_add_position_when_writting_offset = 0, zi_number_entry = entries, zi_disk_size = 0,
      zi_number_disk = 0, zi_number_disk_with_CD = 0, zi_globalcomment = None\<rparr>"

definition end_of_file :: "byte list \<Rightarrow> stdio" where
  "end_of_file c = \<lparr>sd_files = [''a.zip'' \<mapsto> c],
     sd_open = [1 \<mapsto> \<lparr>of_name = ''a.zip'', of_pos = length c, of_write = True, of_error = False\<rparr>], sd_next = 1\<rparr>"

lemma stdio_named_end_of_file: "stdio_named ''a.zip'' (end_of_file c) 1 = Some (c, length c)"
  by (simp add: stdio_named_def end_of_file_def file_content_def)

lemma example_zi_facts:
  "zi_filestream (example_zi k) = 1" "zi_filestream_with_CD (example_zi k) = zi_filestream (example_zi k)"
  "\<not> zi_in_opened_file_inzip (example_zi k)" "blocks_ok (zi_central_dir (example_zi k))"
  "blocks_bytes (zi_central_dir (example_zi k)) = []" "zi_globalcomment (example_zi k) = None"
  "zi_z_filefunc (example_zi k) = table64 fill_fopen64_filefunc"
  by (simp_all add: example_zi_def init_linkedlist_def blocks_ok_def)

lemma zip_close_writes_end_witness:
  "\<exists>w'. zipClose 5 example_zl (example_zi 3) (Some [65]) (end_of_file [1, 2, 3]) = Some (ZIP_OK, w') \<and>
     stdio_stored ''a.zip'' w' = write_at [1, 2, 3] 3 (archive_end (example_zi 3) 3 [65])"
  using zip_close_writes_end [of "''a.zip''" "end_of_file [1, 2, 3]" "example_zi 3" "[1, 2, 3]" 3 "[65]" "Some [65]" 5 example_zl]
    stdio_named_end_of_file [of "[1, 2, 3]"] example_zi_facts [of 3] by simp

lemma le_word_zeros: "le_word (replicate n 0) = 0"
  by (induction n) auto

lemma plain_end_example: "plain_end (example_zi 0xffff) 20 []"
proof -
  have two: "replicate 2 b = [b, b]" for b :: byte by (simp add: numeral_2_eq_2)
  have E: "end_bytes 0 0xffff 0 20 [] = [0x50, 0x4b, 5, 6, 0, 0, 0, 0, 0xff, 0xff, 0xff, 0xff, 0, 0, 0, 0, 20, 0, 0, 0, 0, 0]"
    by (simp add: end_bytes_def putValue_bytes Let_def two)
  have "\<forall>i \<in> set [1..<19]. \<not> is_magic ENDHEADERMAGIC (end_bytes 0 0xffff 0 20 []) i"
    unfolding E by code_simp
  then have "\<forall>i \<in> {1..18}. \<not> is_magic ENDHEADERMAGIC (end_bytes 0 0xffff 0 20 []) i"
    by (simp add: atLeastLessThanSuc_atLeastAtMost [symmetric])
  then show ?thesis by (simp add: plain_end_def plain_tail_def example_zi_def init_linkedlist_def)
qed


end
