(* ===== verification/Zip_Entry.thy ===== *)
theory Zip_Entry
  imports Zip_Archive
begin

text \<open>
  The life of an entry of an archive: opening it, writing its data in any number of parts through the
  buffer of 65536 bytes, and closing it. For a stored entry (no compression, no password, no zip64, one disk) the file and
  the central directory are described byte by byte.
\<close>

unbundle bit_operations_syntax

section \<open>What an entry looks like\<close>

definition local_header :: "new_file_args \<Rightarrow> u64 \<Rightarrow> u64 \<Rightarrow> byte list" where
  "local_header a crc data_size =
     (let put = zip64local_putValue_inmemory in
      put LOCALHEADERMAGIC 4 @ put 20 2 @ put (entry_flag a) 2 @ put (of_int (na_method a)) 2 @
      put (entry_dosDate a) 4 @ put crc 4 @ put data_size 4 @ put data_size 4 @
      put (of_nat (length (entry_filename a))) 2 @ put (of_nat (length (na_extrafield_local a))) 2 @
      entry_filename a @ na_extrafield_local a)"

definition central_record :: "new_file_args \<Rightarrow> u64 \<Rightarrow> u64 \<Rightarrow> u64 \<Rightarrow> u64 \<Rightarrow> byte list" where
  "central_record a disk offset crc data_size =
     (let put = zip64local_putValue_inmemory in
      put CENTRALHEADERMAGIC 4 @ put (na_versionMadeBy a) 2 @ put 20 2 @ put (entry_flag a) 2 @
      put (of_int (na_method a)) 2 @ put (entry_dosDate a) 4 @ put crc 4 @ put data_size 4 @ put data_size 4 @
      put (of_nat (length (entry_filename a))) 2 @ put (of_nat (length (na_extrafield_global a))) 2 @
      put (of_nat (length (entry_comment a))) 2 @ put disk 2 @
      put (case na_zipfi a of None \<Rightarrow> 0 | Some zipfi \<Rightarrow> zf_internal_fa zipfi) 2 @
      put (case na_zipfi a of None \<Rightarrow> 0 | Some zipfi \<Rightarrow> zf_external_fa zipfi) 4 @ put offset 4 @
      entry_filename a @ na_extrafield_global a @ entry_comment a)"

text \<open>A stored entry whose parts have sizes that fit their fields.\<close>

definition stored_args :: "new_file_args \<Rightarrow> bool" where
  "stored_args a \<longleftrightarrow> na_method a = 0 \<and> \<not> na_raw a \<and> \<not> na_zip64 a \<and> entry_flag a AND 1 = 0 \<and>
     length (entry_filename a) < 65536 \<and> length (na_extrafield_local a) < 65536 \<and>
     length (na_extrafield_global a) < 65536 \<and> length (entry_comment a) < 65536"

text \<open>An archive between two entries, on one disk.\<close>

definition archive_ready :: "'w zlib_filefunc64_32_def \<Rightarrow> ('w, 'z) zip64_internal \<Rightarrow> bool" where
  "archive_ready ff zi \<longleftrightarrow> zi_z_filefunc zi = ff \<and> zi_disk_size zi = 0 \<and> \<not> zi_in_opened_file_inzip zi \<and>
     blocks_ok (zi_central_dir zi) \<and> length (ci_buffered_data (zi_ci zi)) = Z_BUFSIZE"

section \<open>Opening\<close>

text \<open>The entry as opening it at the position \<open>p\<close> leaves it.\<close>

definition opened_ci :: "new_file_args \<Rightarrow> ('w, 'z) zip64_internal \<Rightarrow> nat \<Rightarrow> 'z curfile64_info" where
  "opened_ci a zi p =
     (start_central_header a (of_nat (length (entry_filename a))) (of_nat (length (entry_comment a)))
        (zi\<lparr>zi_ci := (start_entry a (zi_ci zi))\<lparr>ci_pos_local_header := of_nat p\<rparr>\<rparr>))
     \<lparr>ci_avail_out := of_nat Z_BUFSIZE, ci_next_out := 0, ci_total_in := 0, ci_total_out := 0,
      ci_data_type := Z_BINARY, ci_crypt_header_size := 0\<rparr>"

lemma opened_ci_simps:
  "ci_avail_out (opened_ci a zi p) = of_nat Z_BUFSIZE" "ci_next_out (opened_ci a zi p) = 0"
  "ci_total_in (opened_ci a zi p) = 0" "ci_pos_in_buffered_data (opened_ci a zi p) = 0"
  "ci_data_type (opened_ci a zi p) = Z_BINARY" "ci_pos_local_header (opened_ci a zi p) = of_nat p"
  "ci_size_centralextrafree (opened_ci a zi p) = 32"
  "ci_size_comment (opened_ci a zi p) = ucast (of_nat (length (entry_comment a)) :: u32)"
  "ci_size_centralheader (opened_ci a zi p) =
     ucast (0x2e + of_nat (length (entry_filename a)) + of_nat (length (na_extrafield_global a)) :: u32)"
  "ci_flag (opened_ci a zi p) = entry_flag a" "ci_method (opened_ci a zi p) = na_method a"
  "ci_compression_method (opened_ci a zi p) = na_method a" "ci_raw (opened_ci a zi p) = na_raw a"
  "ci_buffered_data (opened_ci a zi p) = ci_buffered_data (zi_ci zi)" "ci_crc32 (opened_ci a zi p) = 0"
  "ci_zip64 (opened_ci a zi p) = na_zip64 a" "ci_number_disk (opened_ci a zi p) = zi_number_disk zi"
  "ci_pos_zip64extrainfo (opened_ci a zi p) = 0" "ci_total_compressed (opened_ci a zi p) = 0"
  "ci_total_uncompressed (opened_ci a zi p) = 0" "ci_crypt_header_size (opened_ci a zi p) = 0"
  "ci_dosDate (opened_ci a zi p) = entry_dosDate a"
  by (simp_all add: opened_ci_def start_central_header_def start_entry_def Let_def)

lemma ucast_length_u32: "length xs < 65536 \<Longrightarrow> (ucast (of_nat (length xs) :: u32) :: u64) = of_nat (length xs)"
  by (rule ucast_u32_of_nat) simp

lemma unat_length_u32: "length xs < 65536 \<Longrightarrow> unat (of_nat (length xs) :: u32) = length xs"
  by (simp add: unat_of_nat)

lemma opened_central_header:
  assumes "stored_args a" "of_nat p < (0xffffffff :: u64)"
  shows "\<exists>A B. length A = 16 \<and> length B = 18 \<and>
    ci_central_header (opened_ci a zi p) =
      A @ zip64local_putValue_inmemory 0 4 @ zip64local_putValue_inmemory 0 4 @ zip64local_putValue_inmemory 0 4 @ B @
      (entry_filename a @ na_extrafield_global a) @ replicate 32 0 @ entry_comment a \<and>
    (\<forall>crc data_size. central_record a (zi_number_disk zi)
        (of_nat p - zi_add_position_when_writting_offset zi) crc data_size =
      A @ zip64local_putValue_inmemory crc 4 @ zip64local_putValue_inmemory data_size 4 @
      zip64local_putValue_inmemory data_size 4 @ B @ (entry_filename a @ na_extrafield_global a) @ entry_comment a)"
proof -
  let ?put = zip64local_putValue_inmemory
  let ?A = "?put CENTRALHEADERMAGIC 4 @ ?put (na_versionMadeBy a) 2 @ ?put 20 2 @ ?put (entry_flag a) 2 @
      ?put (of_int (na_method a)) 2 @ ?put (entry_dosDate a) 4"
  let ?B = "?put (of_nat (length (entry_filename a))) 2 @ ?put (of_nat (length (na_extrafield_global a))) 2 @
      ?put (of_nat (length (entry_comment a))) 2 @ ?put (zi_number_disk zi) 2 @
      ?put (case na_zipfi a of None \<Rightarrow> 0 | Some zipfi \<Rightarrow> zf_internal_fa zipfi) 2 @
      ?put (case na_zipfi a of None \<Rightarrow> 0 | Some zipfi \<Rightarrow> zf_external_fa zipfi) 4 @
      ?put (of_nat p - zi_add_position_when_writting_offset zi) 4"
  note l = assms(1) [unfolded stored_args_def]
  have "\<not> of_nat p \<ge> (0xffffffff :: u64)" using assms(2) by simp
  then show ?thesis
    using l by (intro exI [of _ ?A] exI [of _ ?B])
      (simp add: opened_ci_def start_central_header_def start_entry_def central_header_fixed_def central_record_def
        Let_def ucast_length_u32 unat_length_u32)
qed

context zip_out begin

lemma write_local_header_at:
  assumes "st_at view h c p [] (ZIP_OK, w)" "stored_args a"
    and "\<not> ci_zip64 ci" "ci_flag ci = entry_flag a" "ci_method ci = na_method a" "ci_dosDate ci = entry_dosDate a"
  shows "st_at view h c p (local_header a 0 0) (write_local_header a (of_nat (length (entry_filename a))) ff h ci w)"
proof -
  note l = assms(2) [unfolded stored_args_def]
  show ?thesis
    unfolding write_local_header_def local_header_def Let_def assms(4-6)
    by (rule st_at_eqI, rule st_at_write_next, rule st_at_write_next, (rule st_at_put)+, rule assms(1))
      (use l assms(3) in \<open>simp_all add: ucast_length_u32 unat_length_u32\<close>)
qed

lemma open_entry:
  assumes "view w (zi_filestream zi) = Some (c, p)" "p \<le> length c" "p < bound" "archive_ready ff zi" "stored_args a"
  shows "\<exists>w'. zipOpenNewFileInZip4_64 n zl rnd zi a w =
      Some (ZIP_OK, zi\<lparr>zi_ci := opened_ci a zi p, zi_in_opened_file_inzip := True\<rparr>, w') \<and>
    st_at view (zi_filestream zi) c p (local_header a 0 0) (ZIP_OK, w')"
proof -
  note r = assms(4) [unfolded archive_ready_def] and l = assms(5) [unfolded stored_args_def]
  let ?h = "zi_filestream zi" and ?sf = "of_nat (length (entry_filename a)) :: u32"
  have s: "st_at view ?h c p [] (ZIP_OK, w)" by (rule st_at_start) (rule assms(1,2))+
  have t: "call_ztell64 ff ?h w = Some (of_nat p, w)" by (rule ztell_law [OF assms(1,3)])
  define ci1 where "ci1 = start_central_header a ?sf (of_nat (length (entry_comment a)))
        (zi\<lparr>zi_ci := (start_entry a (zi_ci zi))\<lparr>ci_pos_local_header := of_nat p\<rparr>\<rparr>)"
  have ci1: "\<not> ci_zip64 ci1" "ci_flag ci1 = entry_flag a" "ci_method ci1 = na_method a"
    "ci_dosDate ci1 = entry_dosDate a" "ci_raw ci1 = na_raw a"
    using l by (simp_all add: ci1_def start_central_header_def start_entry_def Let_def)
  obtain w1 where w1: "write_local_header a ?sf ff ?h ci1 w = (ZIP_OK, w1)"
    "st_at view ?h c p (local_header a 0 0) (ZIP_OK, w1)"
    using write_local_header_at [OF s assms(5) ci1(1-4)] by (auto simp: st_at_def) (metis prod.collapse)
  have fit: "\<not> 46 + unat ?sf + length (na_extrafield_global a) \<ge> 2 ^ 32"
    using l by (simp add: unat_length_u32)
  have o: "opened_ci a zi p = ci1\<lparr>ci_avail_out := of_nat Z_BUFSIZE, ci_next_out := 0, ci_total_in := 0, ci_total_out := 0,
      ci_data_type := Z_BINARY, ci_crypt_header_size := 0\<rparr>"
    by (simp add: opened_ci_def ci1_def)
  have "zipOpenNewFileInZip4_64 n zl rnd zi a w =
      Some (ZIP_OK, zi\<lparr>zi_ci := opened_ci a zi p, zi_in_opened_file_inzip := True\<rparr>, w1)"
    unfolding zipOpenNewFileInZip4_64_def
    using r l t w1(1) fit ci1
    by (simp add: find_disk_def Let_def write_zip64_field_def start_stream_def start_crypt_def ci1_def [symmetric] o)
  with w1(2) show ?thesis by blast
qed

end

section \<open>Writing\<close>

text \<open>
  The invariant while data is written: a first part of the data is in the file after the header, the
  rest in the buffer, and the counters say so.
\<close>

definition wipe :: "('w, 'z) zip64_internal \<Rightarrow> ('w, 'z) zip64_internal" where
  "wipe zi = zi\<lparr>zi_ci := (zi_ci zi)\<lparr>ci_avail_out := 0, ci_next_out := 0, ci_total_in := 0, ci_total_out := 0,
     ci_pos_in_buffered_data := 0, ci_buffered_data := [], ci_crc32 := 0, ci_total_compressed := 0,
     ci_total_uncompressed := 0\<rparr>\<rparr>"

definition buffer_at :: "'z curfile64_info \<Rightarrow> byte list \<Rightarrow> bool" where
  "buffer_at ci pending \<longleftrightarrow>
     length pending \<le> Z_BUFSIZE \<and> take (length pending) (ci_buffered_data ci) = pending \<and>
     length (ci_buffered_data ci) = Z_BUFSIZE \<and> ci_avail_out ci = of_nat (Z_BUFSIZE - length pending) \<and>
     ci_next_out ci = length pending \<and> ci_pos_in_buffered_data ci = of_nat (length pending) \<and>
     ci_total_in ci = of_nat (length pending)"

definition writing ::
  "('w \<Rightarrow> addr \<Rightarrow> (byte list \<times> nat) option) \<Rightarrow> byte list \<Rightarrow> nat \<Rightarrow> byte list \<Rightarrow> ('w, 'z) zip64_internal \<Rightarrow>
   byte list \<Rightarrow> ('w, 'z) zip64_internal \<Rightarrow> 'w \<Rightarrow> bool" where
  "writing view c p hdr zi0 bytes zi w \<longleftrightarrow> wipe zi = wipe zi0 \<and>
     (\<exists>flushed pending. bytes = flushed @ pending \<and> buffer_at (zi_ci zi) pending \<and>
        st_at view (zi_filestream zi0) c p (hdr @ flushed) (ZIP_OK, w) \<and>
        ci_total_compressed (zi_ci zi) = of_nat (length flushed) \<and>
        ci_total_uncompressed (zi_ci zi) = of_nat (length flushed))"

lemma wipe_fields:
  shows
    "zi_z_filefunc (wipe zi) = zi_z_filefunc zi" "zi_filestream (wipe zi) = zi_filestream zi"
    "zi_filestream_with_CD (wipe zi) = zi_filestream_with_CD zi" "zi_central_dir (wipe zi) = zi_central_dir zi"
    "zi_in_opened_file_inzip (wipe zi) = zi_in_opened_file_inzip zi"
    "zi_number_entry (wipe zi) = zi_number_entry zi" "zi_disk_size (wipe zi) = zi_disk_size zi"
    "zi_number_disk (wipe zi) = zi_number_disk zi"
    "zi_add_position_when_writting_offset (wipe zi) = zi_add_position_when_writting_offset zi"
    "zi_number_disk_with_CD (wipe zi) = zi_number_disk_with_CD zi"
    "zi_globalcomment (wipe zi) = zi_globalcomment zi" "ci_flag (zi_ci (wipe zi)) = ci_flag (zi_ci zi)"
    "ci_compression_method (zi_ci (wipe zi)) = ci_compression_method (zi_ci zi)"
    "ci_raw (zi_ci (wipe zi)) = ci_raw (zi_ci zi)"
    "ci_central_header (zi_ci (wipe zi)) = ci_central_header (zi_ci zi)"
    "ci_size_centralheader (zi_ci (wipe zi)) = ci_size_centralheader (zi_ci zi)"
    "ci_size_centralextrafree (zi_ci (wipe zi)) = ci_size_centralextrafree (zi_ci zi)"
    "ci_size_comment (zi_ci (wipe zi)) = ci_size_comment (zi_ci zi)"
    "ci_data_type (zi_ci (wipe zi)) = ci_data_type (zi_ci zi)"
    "ci_pos_local_header (zi_ci (wipe zi)) = ci_pos_local_header (zi_ci zi)"
    "ci_number_disk (zi_ci (wipe zi)) = ci_number_disk (zi_ci zi)"
    "ci_crypt_header_size (zi_ci (wipe zi)) = ci_crypt_header_size (zi_ci zi)"
  by (simp_all add: wipe_def)

lemma wipe_eq:
  assumes "wipe zi = wipe zi0"
  shows "zi_z_filefunc zi = zi_z_filefunc zi0" "zi_filestream zi = zi_filestream zi0"
    "zi_filestream_with_CD zi = zi_filestream_with_CD zi0" "zi_central_dir zi = zi_central_dir zi0"
    "zi_in_opened_file_inzip zi = zi_in_opened_file_inzip zi0" "zi_number_entry zi = zi_number_entry zi0"
    "zi_disk_size zi = zi_disk_size zi0" "zi_number_disk zi = zi_number_disk zi0"
    "zi_add_position_when_writting_offset zi = zi_add_position_when_writting_offset zi0"
    "zi_number_disk_with_CD zi = zi_number_disk_with_CD zi0" "zi_globalcomment zi = zi_globalcomment zi0"
    "ci_flag (zi_ci zi) = ci_flag (zi_ci zi0)" "ci_compression_method (zi_ci zi) = ci_compression_method (zi_ci zi0)"
    "ci_raw (zi_ci zi) = ci_raw (zi_ci zi0)" "ci_central_header (zi_ci zi) = ci_central_header (zi_ci zi0)"
    "ci_size_centralheader (zi_ci zi) = ci_size_centralheader (zi_ci zi0)"
    "ci_size_centralextrafree (zi_ci zi) = ci_size_centralextrafree (zi_ci zi0)"
    "ci_size_comment (zi_ci zi) = ci_size_comment (zi_ci zi0)" "ci_data_type (zi_ci zi) = ci_data_type (zi_ci zi0)"
    "ci_pos_local_header (zi_ci zi) = ci_pos_local_header (zi_ci zi0)"
    "ci_number_disk (zi_ci zi) = ci_number_disk (zi_ci zi0)"
    "ci_crypt_header_size (zi_ci zi) = ci_crypt_header_size (zi_ci zi0)"
  by (metis assms wipe_fields)+

text \<open>The entry is stored, on one disk and not encrypted.\<close>

definition plain_entry :: "'w zlib_filefunc64_32_def \<Rightarrow> ('w, 'z) zip64_internal \<Rightarrow> bool" where
  "plain_entry ff zi \<longleftrightarrow> zi_z_filefunc zi = ff \<and> zi_disk_size zi = 0 \<and> zi_in_opened_file_inzip zi \<and>
     ci_flag (zi_ci zi) AND 1 = 0 \<and> ci_compression_method (zi_ci zi) = 0 \<and> \<not> ci_raw (zi_ci zi)"

lemma plain_entry_wipe:
  assumes "wipe zi = wipe zi0"
  shows "plain_entry ff zi0 \<Longrightarrow> plain_entry ff zi"
  unfolding plain_entry_def wipe_eq [OF assms] .

context zip_out begin

lemma flush_view:
  assumes "st_at view (zi_filestream zi) c p bs (ZIP_OK, w)" "plain_entry ff zi"
    and "ci_pos_in_buffered_data (zi_ci zi) = of_nat k" "k \<le> Z_BUFSIZE"
    and "length (ci_buffered_data (zi_ci zi)) = Z_BUFSIZE"
  shows "\<exists>w'. zip64FlushWriteBuffer (Suc n) zi w =
      Some (ZIP_OK,
        zi\<lparr>zi_ci := (zi_ci zi)\<lparr>ci_total_compressed := ci_total_compressed (zi_ci zi) + of_nat k,
             ci_total_uncompressed := ci_total_uncompressed (zi_ci zi) + ci_total_in (zi_ci zi),
             ci_total_in := 0, ci_pos_in_buffered_data := 0\<rparr>\<rparr>, w') \<and>
    st_at view (zi_filestream zi) c p (bs @ take k (ci_buffered_data (zi_ci zi))) (ZIP_OK, w')"
proof -
  note e = assms(2) [unfolded plain_entry_def]
  have enc: "encrypt_buffer (zi_ci zi) = zi_ci zi" using e by (simp add: encrypt_buffer_def)
  have k: "(ucast (of_nat k :: u32) :: u64) = of_nat k" using assms(4) by (intro ucast_u32_of_nat) simp
  have k2: "(ucast (of_nat k :: u64) :: u32) = of_nat k"
    using assms(4) by (simp add: unsigned_of_nat take_bit_nat_eq_self)
  have u: "unat (of_nat k :: u64) = k" using assms(4) by (intro unat_u64_of_nat) simp
  obtain w1 where w1: "zwrite64 ff (zi_filestream zi) (ci_buffered_data (zi_ci zi)) (of_nat k) w = (of_nat k, w1)"
    "st_at view (zi_filestream zi) c p (bs @ take k (ci_buffered_data (zi_ci zi))) (ZIP_OK, w1)"
    using st_at_write [OF assms(1), of "of_nat k" "ci_buffered_data (zi_ci zi)"] u assms(4,5) by auto
  obtain x where "view w1 (zi_filestream zi) = Some x" using w1(2) by (auto simp: st_at_def)
  then have z: "zerror64 ff (zi_filestream zi) w1 = (0, w1)" by (cases x) (auto dest: zerror_law)
  have loop: "flush_loop (Suc n) zi (of_nat k) 0 w = Some (False, ZIP_OK, zi, w1)"
    using e w1(1) z by (simp add: k k2 Let_def)
  show ?thesis
    using w1(2) loop by (simp add: zip64FlushWriteBuffer_def enc Let_def assms(3) k del: flush_loop.simps)
qed

lemma make_room_view:
  assumes "writing view c p hdr zi0 bytes zi w" "plain_entry ff zi0"
  shows "\<exists>zi' w'. make_room (Suc n) ZIP_OK zi w = Some (ZIP_OK, zi', w') \<and>
    writing view c p hdr zi0 bytes zi' w' \<and> ci_avail_out (zi_ci zi') \<noteq> 0 \<and>
    ci_crc32 (zi_ci zi') = ci_crc32 (zi_ci zi)"
proof (cases "ci_avail_out (zi_ci zi) = 0")
  case False
  with assms(1) show ?thesis by (simp add: make_room_def)
next
  case True
  obtain flushed pending where b: "bytes = flushed @ pending" "buffer_at (zi_ci zi) pending"
    "st_at view (zi_filestream zi0) c p (hdr @ flushed) (ZIP_OK, w)"
    "ci_total_compressed (zi_ci zi) = of_nat (length flushed)" "ci_total_uncompressed (zi_ci zi) = of_nat (length flushed)"
    and wipe: "wipe zi = wipe zi0" using assms(1) by (auto simp: writing_def)
  note w = wipe_eq [OF wipe] and b2 = b(2) [unfolded buffer_at_def]
  have s: "st_at view (zi_filestream zi) c p (hdr @ flushed) (ZIP_OK, w)" using b(3) w(2) by simp
  obtain w' where f: "zip64FlushWriteBuffer (Suc n) zi w =
      Some (ZIP_OK,
        zi\<lparr>zi_ci := (zi_ci zi)\<lparr>ci_total_compressed := ci_total_compressed (zi_ci zi) + of_nat (length pending),
             ci_total_uncompressed := ci_total_uncompressed (zi_ci zi) + ci_total_in (zi_ci zi),
             ci_total_in := 0, ci_pos_in_buffered_data := 0\<rparr>\<rparr>, w')"
    "st_at view (zi_filestream zi) c p ((hdr @ flushed) @ take (length pending) (ci_buffered_data (zi_ci zi))) (ZIP_OK, w')"
    using flush_view [OF s plain_entry_wipe [OF wipe assms(2)], of "length pending" n] b2 by blast
  let ?zi = "zi\<lparr>zi_ci := (zi_ci zi)\<lparr>ci_total_compressed := ci_total_compressed (zi_ci zi) + of_nat (length pending),
       ci_total_uncompressed := ci_total_uncompressed (zi_ci zi) + ci_total_in (zi_ci zi), ci_total_in := 0,
       ci_pos_in_buffered_data := 0, ci_avail_out := of_nat Z_BUFSIZE, ci_next_out := 0\<rparr>\<rparr>"
  have "make_room (Suc n) ZIP_OK zi w = Some (ZIP_OK, ?zi, w')" using True f(1) by (simp add: make_room_def)
  moreover have "writing view c p hdr zi0 bytes ?zi w'"
  proof -
    have "wipe ?zi = wipe zi0" using wipe by (simp add: wipe_def)
    moreover have "st_at view (zi_filestream zi0) c p (hdr @ bytes) (ZIP_OK, w')" using f(2) w(2) b(1) b2 by simp
    moreover have "buffer_at (zi_ci ?zi) []" using b2 by (simp add: buffer_at_def)
    ultimately show ?thesis
      unfolding writing_def using b b2
      by (intro conjI, simp) (rule exI [of _ bytes], rule exI [of _ "[]"], simp)
  qed
  ultimately show ?thesis by simp
qed

lemma copy_view:
  assumes "writing view c p hdr zi0 bytes zi w" "ci_avail_out (zi_ci zi) \<noteq> 0" "input \<noteq> []" "length input < 2 ^ 32"
  shows "\<exists>k ci. 0 < k \<and> k \<le> length input \<and> copy_stored (zi_ci zi) input = (drop k input, ci) \<and>
    writing view c p hdr zi0 (bytes @ take k input) (zi\<lparr>zi_ci := ci\<rparr>) w \<and> ci_crc32 ci = ci_crc32 (zi_ci zi)"
proof -
  obtain flushed pending where b: "bytes = flushed @ pending" "buffer_at (zi_ci zi) pending"
    "st_at view (zi_filestream zi0) c p (hdr @ flushed) (ZIP_OK, w)"
    "ci_total_compressed (zi_ci zi) = of_nat (length flushed)" "ci_total_uncompressed (zi_ci zi) = of_nat (length flushed)"
    and wipe: "wipe zi = wipe zi0" using assms(1) by (auto simp: writing_def)
  note b2 = b(2) [unfolded buffer_at_def]
  define room where "room = Z_BUFSIZE - length pending"
  define k where "k = (if length input < room then length input else room)"
  have room: "ci_avail_out (zi_ci zi) = of_nat room" "room \<le> 65536" using b2 by (simp_all add: room_def)
  have "room \<noteq> 0" using room(1) assms(2) by (cases room) auto
  then have k: "0 < k" "k \<le> length input" "k \<le> room" "k \<le> 65536"
    using assms(3) room(2) by (auto simp: k_def)
  have copy: "(if (of_nat (length input) :: u32) < ci_avail_out (zi_ci zi) then of_nat (length input)
      else ci_avail_out (zi_ci zi)) = (of_nat k :: u32)"
    using room(2) assms(4) unfolding room(1) k_def by (simp add: word_less_nat_alt unat_of_nat)
  have u: "unat (of_nat k :: u32) = k" "(ucast (of_nat k :: u32) :: u64) = of_nat k"
    using k(4) by (simp add: unat_of_nat) (intro ucast_u32_of_nat, use k(4) in simp)
  define ci where "ci = (zi_ci zi)\<lparr>
       ci_buffered_data := buffer_write (ci_buffered_data (zi_ci zi)) (ci_next_out (zi_ci zi)) (take k input),
       ci_avail_out := ci_avail_out (zi_ci zi) - of_nat k, ci_next_out := ci_next_out (zi_ci zi) + k,
       ci_total_in := ci_total_in (zi_ci zi) + of_nat k, ci_total_out := ci_total_out (zi_ci zi) + of_nat k,
       ci_pos_in_buffered_data := ci_pos_in_buffered_data (zi_ci zi) + of_nat k\<rparr>"
  have "copy_stored (zi_ci zi) input = (drop k input, ci)"
    unfolding copy_stored_def copy Let_def u ci_def ..
  moreover have "buffer_at ci (pending @ take k input)"
  proof -
    have len: "length pending + k \<le> Z_BUFSIZE" using k(3) b2 by (auto simp: room_def)
    have "(of_nat room - of_nat k :: u32) = of_nat (Z_BUFSIZE - (length pending + k))"
    proof -
      have "room = (Z_BUFSIZE - (length pending + k)) + k" using k(3) len by (simp add: room_def)
      then show ?thesis by (metis add_diff_cancel_right' of_nat_add)
    qed
    with len k b2 room show ?thesis
      by (simp add: buffer_at_def ci_def buffer_write_def min_def add.commute)
  qed
  moreover have "wipe (zi\<lparr>zi_ci := ci\<rparr>) = wipe zi0" using wipe by (simp add: wipe_def ci_def)
  moreover from calculation have "writing view c p hdr zi0 (bytes @ take k input) (zi\<lparr>zi_ci := ci\<rparr>) w"
    unfolding writing_def using b
    by (intro conjI, simp) (rule exI [of _ flushed], rule exI [of _ "pending @ take k input"], simp add: ci_def)
  ultimately show ?thesis
    using k(1,2) by (intro exI [of _ k] exI [of _ ci]) (simp add: ci_def)
qed

lemma write_loop_view:
  assumes "writing view c p hdr zi0 bytes zi w" "plain_entry ff zi0" "length input < n" "length input < 2 ^ 32"
  shows "\<exists>zi' w'. write_loop n zl zi input w = Some (ZIP_OK, zi', w') \<and>
    writing view c p hdr zi0 (bytes @ input) zi' w' \<and> ci_crc32 (zi_ci zi') = ci_crc32 (zi_ci zi)"
  using assms(1,3,4)
proof (induction n arbitrary: bytes zi input w)
  case 0
  then show ?case by simp
next
  case (Suc n)
  show ?case
  proof (cases "input = []")
    case True
    with Suc.prems show ?thesis by simp
  next
    case False
    obtain zi1 w1 where r: "make_room (Suc n) ZIP_OK zi w = Some (ZIP_OK, zi1, w1)"
      "writing view c p hdr zi0 bytes zi1 w1" "ci_avail_out (zi_ci zi1) \<noteq> 0" "ci_crc32 (zi_ci zi1) = ci_crc32 (zi_ci zi)"
      using make_room_view [OF Suc.prems(1) assms(2)] by blast
    have "wipe zi1 = wipe zi0" using r(2) by (simp add: writing_def)
    from plain_entry_wipe [OF this assms(2)] have m: "ci_compression_method (zi_ci zi1) \<noteq> 8"
      by (simp add: plain_entry_def)
    obtain k ci where k: "0 < k" "k \<le> length input" "copy_stored (zi_ci zi1) input = (drop k input, ci)"
      "writing view c p hdr zi0 (bytes @ take k input) (zi1\<lparr>zi_ci := ci\<rparr>) w1" "ci_crc32 ci = ci_crc32 (zi_ci zi1)"
      using copy_view [OF r(2,3) False Suc.prems(3)] by blast
    have "length (drop k input) < n" "length (drop k input) < 2 ^ 32"
      using k(1,2) Suc.prems(2,3) by auto
    from Suc.IH [OF k(4) this] obtain zi2 w2 where
      "write_loop n zl (zi1\<lparr>zi_ci := ci\<rparr>) (drop k input) w1 = Some (ZIP_OK, zi2, w2)"
      "writing view c p hdr zi0 ((bytes @ take k input) @ drop k input) zi2 w2"
      "ci_crc32 (zi_ci zi2) = ci_crc32 (zi_ci (zi1\<lparr>zi_ci := ci\<rparr>))" by blast
    with False r(1,4) m k(3,5) show ?thesis by simp
  qed
qed

lemma write_view:
  assumes "writing view c p hdr zi0 bytes zi w" "plain_entry ff zi0" "length buf < n" "length buf < 2 ^ 32"
  shows "\<exists>zi' w'. zipWriteInFileInZip n zl zi buf w = Some (ZIP_OK, zi', w') \<and>
    writing view c p hdr zi0 (bytes @ buf) zi' w' \<and> ci_crc32 (zi_ci zi') = zl_crc32 zl (ci_crc32 (zi_ci zi)) buf"
proof -
  let ?zi = "zi\<lparr>zi_ci := (zi_ci zi)\<lparr>ci_crc32 := zl_crc32 zl (ci_crc32 (zi_ci zi)) buf\<rparr>\<rparr>"
  have "wipe zi = wipe zi0" using assms(1) by (simp add: writing_def)
  from plain_entry_wipe [OF this assms(2)] have o: "zi_in_opened_file_inzip zi" by (simp add: plain_entry_def)
  have "wipe ?zi = wipe zi" by (simp add: wipe_def)
  with assms(1) have "writing view c p hdr zi0 bytes ?zi w" by (simp add: writing_def buffer_at_def)
  from write_loop_view [OF this assms(2-4), of zl] show ?thesis
    using o by (simp add: zipWriteInFileInZip_def Let_def)
qed

end

text \<open>A caller that writes the data of an entry in several parts.\<close>

fun write_parts ::
  "nat \<Rightarrow> 'z zip_zlib_fns \<Rightarrow> ('w, 'z) zip64_internal \<Rightarrow> byte list list \<Rightarrow> 'w \<Rightarrow>
   (int \<times> ('w, 'z) zip64_internal \<times> 'w) option" where
  "write_parts n zl zi [] w = Some (ZIP_OK, zi, w)"
| "write_parts n zl zi (buf # bufs) w =
     do {
       (err, zi, w) \<leftarrow> zipWriteInFileInZip n zl zi buf w;
       if err \<noteq> ZIP_OK then Some (err, zi, w) else write_parts n zl zi bufs w
     }"

context zip_out begin

lemma write_parts_view:
  assumes "writing view c p hdr zi0 bytes zi w" "plain_entry ff zi0"
    and "\<forall>buf \<in> set bufs. length buf < n \<and> length buf < 2 ^ 32"
  shows "\<exists>zi' w'. write_parts n zl zi bufs w = Some (ZIP_OK, zi', w') \<and>
    writing view c p hdr zi0 (bytes @ concat bufs) zi' w' \<and>
    ci_crc32 (zi_ci zi') = foldl (zl_crc32 zl) (ci_crc32 (zi_ci zi)) bufs"
  using assms(1,3)
proof (induction bufs arbitrary: bytes zi w)
  case Nil
  then show ?case by simp
next
  case (Cons buf bufs)
  obtain zi1 w1 where 1: "zipWriteInFileInZip n zl zi buf w = Some (ZIP_OK, zi1, w1)"
    "writing view c p hdr zi0 (bytes @ buf) zi1 w1" "ci_crc32 (zi_ci zi1) = zl_crc32 zl (ci_crc32 (zi_ci zi)) buf"
    using write_view [OF Cons.prems(1) assms(2), of buf n zl] Cons.prems(2) by auto
  from Cons.IH [OF 1(2)] Cons.prems(2) 1(1,3) show ?case by simp
qed

lemma writing_start:
  assumes "st_at view (zi_filestream zi) c p hdr (ZIP_OK, w)" "length (ci_buffered_data (zi_ci zi)) = Z_BUFSIZE"
    and "zi' = zi\<lparr>zi_ci := opened_ci a zi p, zi_in_opened_file_inzip := True\<rparr>"
  shows "writing view c p hdr zi' [] zi' w"
  using assms by (simp add: writing_def buffer_at_def opened_ci_simps)

text \<open>What closing the entry does to the data: the rest of the buffer goes to the file.\<close>

lemma finish_view:
  assumes "writing view c p hdr zi0 bytes zi w" "plain_entry ff zi0"
  shows "\<exists>zi' w'. finish_data (Suc n) zl zi w = Some (ZIP_OK, zi', w') \<and> wipe zi' = wipe zi0 \<and>
    st_at view (zi_filestream zi0) c p (hdr @ bytes) (ZIP_OK, w') \<and>
    ci_total_compressed (zi_ci zi') = of_nat (length bytes) \<and>
    ci_total_uncompressed (zi_ci zi') = of_nat (length bytes) \<and> ci_crc32 (zi_ci zi') = ci_crc32 (zi_ci zi) \<and>
    length (ci_buffered_data (zi_ci zi')) = Z_BUFSIZE"
proof -
  obtain flushed pending where b: "bytes = flushed @ pending" "buffer_at (zi_ci zi) pending"
    "st_at view (zi_filestream zi0) c p (hdr @ flushed) (ZIP_OK, w)"
    "ci_total_compressed (zi_ci zi) = of_nat (length flushed)" "ci_total_uncompressed (zi_ci zi) = of_nat (length flushed)"
    and wipe: "wipe zi = wipe zi0" using assms(1) by (auto simp: writing_def)
  note w = wipe_eq [OF wipe] and b2 = b(2) [unfolded buffer_at_def]
  have e: "plain_entry ff zi" by (rule plain_entry_wipe [OF wipe assms(2)])
  note e2 = e [unfolded plain_entry_def]
  have s: "st_at view (zi_filestream zi) c p (hdr @ flushed) (ZIP_OK, w)" using b(3) w(2) by simp
  show ?thesis
  proof (cases "pending = []")
    case True
    then have "ci_pos_in_buffered_data (zi_ci zi) = 0" using b2 by simp
    then have "finish_data (Suc n) zl zi w = Some (ZIP_OK, zi, w)" using e2 by (simp add: finish_data_def)
    with True b b2 wipe show ?thesis by simp
  next
    case False
    obtain w' where f: "zip64FlushWriteBuffer (Suc n) zi w =
      Some (ZIP_OK,
        zi\<lparr>zi_ci := (zi_ci zi)\<lparr>ci_total_compressed := ci_total_compressed (zi_ci zi) + of_nat (length pending),
             ci_total_uncompressed := ci_total_uncompressed (zi_ci zi) + ci_total_in (zi_ci zi),
             ci_total_in := 0, ci_pos_in_buffered_data := 0\<rparr>\<rparr>, w')"
      "st_at view (zi_filestream zi) c p ((hdr @ flushed) @ take (length pending) (ci_buffered_data (zi_ci zi))) (ZIP_OK, w')"
      using flush_view [OF s e, of "length pending" n] b2 by blast
    let ?zi = "zi\<lparr>zi_ci := (zi_ci zi)\<lparr>ci_total_compressed := ci_total_compressed (zi_ci zi) + of_nat (length pending),
       ci_total_uncompressed := ci_total_uncompressed (zi_ci zi) + ci_total_in (zi_ci zi), ci_total_in := 0,
       ci_pos_in_buffered_data := 0\<rparr>\<rparr>"
    have "unat (of_nat (length pending) :: u32) = length pending" using b2 by (auto simp: unat_of_nat)
    then have "ci_pos_in_buffered_data (zi_ci zi) > 0" using False b2 by (auto simp: word_less_nat_alt)
    then have "finish_data (Suc n) zl zi w = Some (ZIP_OK, ?zi, w')"
      using f(1) e2 by (simp add: finish_data_def)
    moreover have "wipe ?zi = wipe zi0" using wipe by (simp add: wipe_def)
    moreover have "st_at view (zi_filestream zi0) c p (hdr @ bytes) (ZIP_OK, w')" using f(2) w(2) b(1) b2 by simp
    ultimately show ?thesis using b b2 by simp
  qed
qed

end

section \<open>Closing\<close>

lemma buffer_write_inner:
  "off = length a \<Longrightarrow> length b' = length b \<Longrightarrow> buffer_write (a @ b @ d) off b' = a @ b' @ d"
  by (simp add: buffer_write_def)

lemma update_central_header_stored:
  assumes "ci_central_header ci =
      A @ zip64local_putValue_inmemory 0 4 @ zip64local_putValue_inmemory 0 4 @ zip64local_putValue_inmemory 0 4 @ R"
    and "length A = 16" "data_size < 0xffffffff" "ci_pos_local_header ci < 0xffffffff" "ci_data_type ci = Z_BINARY"
  shows "update_central_header crc data_size data_size ci =
    ci\<lparr>ci_central_header := A @ zip64local_putValue_inmemory crc 4 @ zip64local_putValue_inmemory data_size 4 @
        zip64local_putValue_inmemory data_size 4 @ R\<rparr>"
proof -
  have n: "\<not> data_size \<ge> 0xffffffff" "\<not> ci_pos_local_header ci \<ge> 0xffffffff" using assms(3,4) by auto
  let ?put = zip64local_putValue_inmemory
  have 1: "buffer_write (A @ ?put 0 4 @ ?put 0 4 @ ?put 0 4 @ R) 16 (?put crc 4) = A @ ?put crc 4 @ ?put 0 4 @ ?put 0 4 @ R"
    by (rule buffer_write_inner) (simp_all add: assms(2))
  have 2: "buffer_write (A @ ?put crc 4 @ ?put 0 4 @ ?put 0 4 @ R) 20 (?put data_size 4) =
      A @ ?put crc 4 @ ?put data_size 4 @ ?put 0 4 @ R"
    using buffer_write_inner [of 20 "A @ ?put crc 4" "?put data_size 4" "?put 0 4" "?put 0 4 @ R"] by (simp add: assms(2))
  have 3: "buffer_write (A @ ?put crc 4 @ ?put data_size 4 @ ?put 0 4 @ R) 24 (?put data_size 4) =
      A @ ?put crc 4 @ ?put data_size 4 @ ?put data_size 4 @ R"
    using buffer_write_inner [of 24 "A @ ?put crc 4 @ ?put data_size 4" "?put data_size 4" "?put 0 4" R]
    by (simp add: assms(2))
  show ?thesis
    using n assms(5) by (simp add: update_central_header_def put_header_def Let_def assms(1) 1 2 3)
qed

lemma restore_comment_bytes:
  assumes "ci_central_header ci = X @ gap @ cmt" "unat (ci_size_centralheader ci) = length X"
    and "unat (ci_size_centralextrafree ci) = length gap" "unat (ci_size_comment ci) = length cmt"
    and "length X + length cmt < 2 ^ 64"
  shows "take (unat (ci_size_centralheader (restore_comment ci))) (ci_central_header (restore_comment ci)) = X @ cmt"
proof -
  have "unat (ci_size_centralheader ci + ci_size_comment ci) = length X + length cmt"
    using assms(2,4,5) by (simp add: unat_word_ariths)
  then show ?thesis
    by (simp add: restore_comment_def Let_def assms(1-4) buffer_write_def)
qed

lemma local_header_parts:
  obtains L1 L2 where "length L1 = 14"
    "\<And>crc data_size. local_header a crc data_size = L1 @ (zip64local_putValue_inmemory crc 4 @
       zip64local_putValue_inmemory data_size 4 @ zip64local_putValue_inmemory data_size 4) @ L2"
proof
  let ?put = zip64local_putValue_inmemory
  show "length (?put LOCALHEADERMAGIC 4 @ ?put 20 2 @ ?put (entry_flag a) 2 @ ?put (of_int (na_method a)) 2 @
      ?put (entry_dosDate a) 4) = 14" by simp
  show "local_header a crc data_size =
      (?put LOCALHEADERMAGIC 4 @ ?put 20 2 @ ?put (entry_flag a) 2 @ ?put (of_int (na_method a)) 2 @
       ?put (entry_dosDate a) 4) @ (?put crc 4 @ ?put data_size 4 @ ?put data_size 4) @
      ?put (of_nat (length (entry_filename a))) 2 @ ?put (of_nat (length (na_extrafield_local a))) 2 @
      entry_filename a @ na_extrafield_local a" for crc data_size
    by (simp add: local_header_def Let_def)
qed

lemma length_local_header: "length (local_header a crc data_size) = 30 + length (entry_filename a) + length (na_extrafield_local a)"
  by (simp add: local_header_def Let_def)

context zip_out begin

lemma update_local_header_view:
  assumes "st_at view (zi_filestream zi) c p (local_header a 0 0 @ bytes) (ZIP_OK, w)" "zi_z_filefunc zi = ff"
    and "ci_number_disk (zi_ci zi) = zi_number_disk zi" "ci_pos_local_header (zi_ci zi) = of_nat p"
    and "data_size < 0xffffffff" "p + length (local_header a 0 0 @ bytes) < bound"
  shows "\<exists>w'. update_local_header zi crc data_size data_size w = Some (ZIP_OK, zi, w') \<and>
    st_at view (zi_filestream zi) c p (local_header a crc data_size @ bytes) (ZIP_OK, w')"
proof -
  let ?h = "zi_filestream zi" and ?put = zip64local_putValue_inmemory
  obtain L1 L2 where L: "length L1 = 14" "\<And>crc data_size. local_header a crc data_size =
      L1 @ (?put crc 4 @ ?put data_size 4 @ ?put data_size 4) @ L2" by (rule local_header_parts [of a]) blast
  define C where "C = write_at c p (local_header a 0 0 @ bytes)"
  define cur where "cur = p + length (local_header a 0 0 @ bytes)"
  have v: "view w ?h = Some (C, cur)" and p: "p \<le> length c" using assms(1) by (auto simp: st_at_def C_def cur_def)
  have small: "cur < bound" "cur < 2 ^ 63" "p + 14 \<le> cur" "cur \<le> length C"
    using assms(6) bound_le by (auto simp: cur_def length_local_header C_def write_at_length)
  have u: "unat (of_nat cur :: u64) = cur" "unat (of_nat p + 14 :: u64) = p + 14"
    using small u64_of_nat_eq [of p p] unat_u64_of_nat [of "p + 14"] by (auto intro: unat_u64_of_nat)
  obtain w1 where w1: "call_zseek64 ff ?h (of_nat p + 14) ZLIB_FILEFUNC_SEEK_SET w = Some (0, w1)"
    "view w1 ?h = Some (C, p + 14)"
    using zseek_set_law [OF v, of "of_nat p + 14"] small(2,3) unfolding u by auto
  have "st_at view ?h C (p + 14) [] (ZIP_OK, w1)" by (rule st_at_start) (use w1(2) small in auto)
  then have "st_at view ?h C (p + 14) (?put crc 4) (put_next ff ?h crc 4 (ZIP_OK, w1))"
    using st_at_put [where bs = "[]" and n = 4] by simp
  then obtain w2 where w2: "put_next ff ?h crc 4 (ZIP_OK, w1) = (ZIP_OK, w2)" "st_at view ?h C (p + 14) (?put crc 4) (ZIP_OK, w2)"
    by (cases "put_next ff ?h crc 4 (ZIP_OK, w1)") (auto simp: st_at_def)
  have "st_at view ?h C (p + 14) ((?put crc 4 @ ?put data_size 4) @ ?put data_size 4)
      (put_next ff ?h data_size 4 (put_next ff ?h data_size 4 (ZIP_OK, w2)))"
    by (intro st_at_put w2(2)) simp_all
  then obtain w3 where w3: "put_next ff ?h data_size 4 (put_next ff ?h data_size 4 (ZIP_OK, w2)) = (ZIP_OK, w3)"
    "view w3 ?h = Some (write_at C (p + 14) ((?put crc 4 @ ?put data_size 4) @ ?put data_size 4),
       p + 14 + length ((?put crc 4 @ ?put data_size 4) @ ?put data_size 4))"
    by (rule st_at_cases)
  have "write_at C (p + 14) ((?put crc 4 @ ?put data_size 4) @ ?put data_size 4) =
      write_at c p (local_header a crc data_size @ bytes)"
    using write_at_inner [OF p, of "(?put crc 4 @ ?put data_size 4) @ ?put data_size 4"
        "?put 0 4 @ ?put 0 4 @ ?put 0 4" L1 "L2 @ bytes"] unfolding C_def L by (simp add: L(1))
  then obtain w4 where w4: "call_zseek64 ff ?h (of_nat cur) ZLIB_FILEFUNC_SEEK_SET w3 = Some (0, w4)"
    "view w4 ?h = Some (write_at c p (local_header a crc data_size @ bytes), cur)"
    using zseek_set_law [OF w3(2), of "of_nat cur"] small(2) unfolding u by auto
  have "\<not> data_size \<ge> 0xffffffff" using assms(5) by simp
  then have "update_local_header zi crc data_size data_size w = Some (ZIP_OK, zi, w4)"
    using ztell_law [OF v small(1)] w1(1) w2(1) w3(1) w4(1)
    by (simp add: update_local_header_def assms(2-4) Let_def)
  moreover have "st_at view ?h c p (local_header a crc data_size @ bytes) (ZIP_OK, w4)"
    using w4(2) p by (simp add: st_at_def cur_def length_local_header)
  ultimately show ?thesis by blast
qed

lemma close_view:
  assumes "writing view c p (local_header a 0 0) zi0 bytes zi w" "stored_args a" "archive_ready ff zi1"
    and "zi0 = zi1\<lparr>zi_ci := opened_ci a zi1 p, zi_in_opened_file_inzip := True\<rparr>"
    and "of_nat p < (0xffffffff :: u64)" "length bytes < 0xffffffff" "p + length (local_header a 0 0 @ bytes) < bound"
  shows "\<exists>zi' w'. zipCloseFileInZip (Suc n) zl zi w = Some (ZIP_OK, zi', w') \<and>
    st_at view (zi_filestream zi1) c p
      (local_header a (ci_crc32 (zi_ci zi)) (of_nat (length bytes)) @ bytes) (ZIP_OK, w') \<and>
    archive_ready ff zi' \<and> zi_filestream zi' = zi_filestream zi1 \<and>
    zi_filestream_with_CD zi' = zi_filestream_with_CD zi1 \<and> zi_number_entry zi' = zi_number_entry zi1 + 1 \<and>
    zi_number_disk_with_CD zi' = zi_number_disk_with_CD zi1 \<and> zi_number_disk zi' = zi_number_disk zi1 \<and>
    zi_add_position_when_writting_offset zi' = zi_add_position_when_writting_offset zi1 \<and>
    zi_globalcomment zi' = zi_globalcomment zi1 \<and>
    blocks_bytes (zi_central_dir zi') = blocks_bytes (zi_central_dir zi1) @
      central_record a (zi_number_disk zi1) (of_nat p - zi_add_position_when_writting_offset zi1)
        (ci_crc32 (zi_ci zi)) (of_nat (length bytes))"
proof -
  note l = assms(2) [unfolded stored_args_def] and r = assms(3) [unfolded archive_ready_def]
  let ?k = "of_nat (length bytes) :: u64" and ?put = zip64local_putValue_inmemory and ?crc = "ci_crc32 (zi_ci zi)"
  have e: "plain_entry ff zi0" using l r by (simp add: plain_entry_def assms(4) opened_ci_simps)
  obtain zi2 w2 where 2: "finish_data (Suc n) zl zi w = Some (ZIP_OK, zi2, w2)" "wipe zi2 = wipe zi0"
    "st_at view (zi_filestream zi0) c p (local_header a 0 0 @ bytes) (ZIP_OK, w2)"
    "ci_total_compressed (zi_ci zi2) = ?k" "ci_total_uncompressed (zi_ci zi2) = ?k" "ci_crc32 (zi_ci zi2) = ?crc"
    "length (ci_buffered_data (zi_ci zi2)) = Z_BUFSIZE"
    using finish_view [OF assms(1) e] by blast
  have "wipe zi = wipe zi0" using assms(1) by (simp add: writing_def)
  from wipe_eq(5) [OF this] have o: "zi_in_opened_file_inzip zi" by (simp add: assms(4))
  have g: "zi_z_filefunc zi2 = ff" "zi_filestream zi2 = zi_filestream zi1"
    "zi_filestream_with_CD zi2 = zi_filestream_with_CD zi1" "zi_central_dir zi2 = zi_central_dir zi1"
    "zi_number_entry zi2 = zi_number_entry zi1" "zi_disk_size zi2 = 0" "zi_number_disk zi2 = zi_number_disk zi1"
    "zi_add_position_when_writting_offset zi2 = zi_add_position_when_writting_offset zi1"
    "zi_number_disk_with_CD zi2 = zi_number_disk_with_CD zi1" "zi_globalcomment zi2 = zi_globalcomment zi1"
    using wipe_eq [OF 2(2)] r by (simp_all add: assms(4))
  have h: "\<not> ci_raw (zi_ci zi2)" "ci_central_header (zi_ci zi2) = ci_central_header (opened_ci a zi1 p)"
    "ci_size_centralheader (zi_ci zi2) = ci_size_centralheader (opened_ci a zi1 p)"
    "ci_size_centralextrafree (zi_ci zi2) = 32" "ci_size_comment (zi_ci zi2) = ci_size_comment (opened_ci a zi1 p)"
    "ci_data_type (zi_ci zi2) = Z_BINARY" "ci_pos_local_header (zi_ci zi2) = of_nat p"
    "ci_number_disk (zi_ci zi2) = zi_number_disk zi1" "ci_crypt_header_size (zi_ci zi2) = 0"
    using wipe_eq [OF 2(2)] l by (simp_all add: assms(4) opened_ci_simps)
  have k: "?k < 0xffffffff" using assms(6) u64_of_nat_less [of "length bytes" "0xffffffff"] by simp
  then have k': "\<not> ?k \<ge> 0xffffffff" "\<not> of_nat p \<ge> (0xffffffff :: u64)" using assms(5) by auto
  obtain A B where AB: "length A = 16" "length B = 18" "ci_central_header (opened_ci a zi1 p) =
      A @ ?put 0 4 @ ?put 0 4 @ ?put 0 4 @ B @ (entry_filename a @ na_extrafield_global a) @ replicate 32 0 @ entry_comment a"
    "\<And>crc data_size. central_record a (zi_number_disk zi1)
        (of_nat p - zi_add_position_when_writting_offset zi1) crc data_size =
      A @ ?put crc 4 @ ?put data_size 4 @ ?put data_size 4 @ B @
      (entry_filename a @ na_extrafield_global a) @ entry_comment a"
    using opened_central_header [OF assms(2,5), of zi1] by blast
  define X where "X = A @ ?put ?crc 4 @ ?put ?k 4 @ ?put ?k 4 @ B @ entry_filename a @ na_extrafield_global a"
  define ci where "ci = (zi_ci zi2)\<lparr>ci_central_header := X @ replicate 32 0 @ entry_comment a\<rparr>"
  have up: "update_central_header ?crc ?k ?k (zi_ci zi2) = ci"
    using update_central_header_stored [of "zi_ci zi2" A
        "B @ (entry_filename a @ na_extrafield_global a) @ replicate 32 0 @ entry_comment a" ?k ?crc]
      AB(1,3) k h assms(5) by (simp add: ci_def X_def)
  have lens: "unat (ci_size_centralheader ci) = length X" "unat (ci_size_centralextrafree ci) = length (replicate 32 (0 :: byte))"
    "unat (ci_size_comment ci) = length (entry_comment a)"
    using l h AB(1,2)
    by (simp_all add: ci_def X_def opened_ci_simps unat_ucast_u32 unat_length_u32 unat_word_ariths unat_of_nat)
  have "length X + length (entry_comment a) < 2 ^ 64" using l AB(1,2) by (simp add: X_def)
  have hdr: "take (unat (ci_size_centralheader (restore_comment ci))) (ci_central_header (restore_comment ci)) =
      central_record a (zi_number_disk zi1) (of_nat p - zi_add_position_when_writting_offset zi1) ?crc ?k"
    using restore_comment_bytes [of ci X "replicate 32 0" "entry_comment a"] lens \<open>length X + length (entry_comment a) < 2 ^ 64\<close>
    unfolding AB(4) by (simp add: ci_def X_def)
  obtain dir where dir: "add_data_in_datablock (zi_central_dir zi1)
      (central_record a (zi_number_disk zi1) (of_nat p - zi_add_position_when_writting_offset zi1) ?crc ?k) = (ZIP_OK, dir)"
    "blocks_ok dir" "blocks_bytes dir = blocks_bytes (zi_central_dir zi1) @
      central_record a (zi_number_disk zi1) (of_nat p - zi_add_position_when_writting_offset zi1) ?crc ?k"
    using add_data_ok r by blast
  define zi3 where "zi3 = zi2\<lparr>zi_ci := restore_comment ci, zi_central_dir := dir\<rparr>"
  have d0: "zip64_datasize ?k ?k ci = 0" using k' h by (simp add: zip64_datasize_def ci_def)
  have z3: "zi_filestream zi3 = zi_filestream zi1" "zi_z_filefunc zi3 = ff"
    "ci_number_disk (zi_ci zi3) = zi_number_disk zi3" "ci_pos_local_header (zi_ci zi3) = of_nat p"
    using g h by (simp_all add: zi3_def restore_comment_def Let_def ci_def)
  have "st_at view (zi_filestream zi3) c p (local_header a 0 0 @ bytes) (ZIP_OK, w2)"
    using 2(3) z3(1) by (simp add: assms(4))
  from update_local_header_view [OF this z3(2-4) k assms(7), of ?crc] obtain w3 where
    3: "update_local_header zi3 ?crc ?k ?k w2 = Some (ZIP_OK, zi3, w3)"
    "st_at view (zi_filestream zi1) c p (local_header a ?crc ?k @ bytes) (ZIP_OK, w3)" using z3(1) by auto
  have "zipCloseFileInZip (Suc n) zl zi w =
      Some (ZIP_OK, zi3\<lparr>zi_number_entry := zi_number_entry zi1 + 1, zi_in_opened_file_inzip := False\<rparr>, w3)"
    using o 2(1) h 2(4-6) g up d0 hdr dir(1) 3(1)
    by (simp add: zipCloseFileInZip_def zipCloseFileInZipRaw_def zipCloseFileInZipRaw64_def Let_def zi3_def)
  then show ?thesis
    using 3(2) dir(2,3) g 2(7) by (auto simp: archive_ready_def zi3_def restore_comment_def Let_def ci_def)
qed

end

context zip_out begin

lemma stored_entry_view:
  assumes "view w (zi_filestream zi) = Some (c, p)" "p \<le> length c" "archive_ready ff zi" "stored_args a"
    and "\<forall>buf \<in> set bufs. length buf \<le> n" "length (concat bufs) < 0xffffffff"
    and "of_nat p < (0xffffffff :: u64)" "p + length (local_header a 0 0 @ concat bufs) < bound"
  shows "\<exists>zi1 w1 zi2 w2 zi3 w3.
    zipOpenNewFileInZip4_64 (Suc n) zl rnd zi a w = Some (ZIP_OK, zi1, w1) \<and>
    write_parts (Suc n) zl zi1 bufs w1 = Some (ZIP_OK, zi2, w2) \<and>
    zipCloseFileInZip (Suc n) zl zi2 w2 = Some (ZIP_OK, zi3, w3) \<and>
    (let crc = foldl (zl_crc32 zl) 0 bufs; k = of_nat (length (concat bufs)) in
     st_at view (zi_filestream zi) c p (local_header a crc k @ concat bufs) (ZIP_OK, w3) \<and>
     blocks_bytes (zi_central_dir zi3) = blocks_bytes (zi_central_dir zi) @
       central_record a (zi_number_disk zi) (of_nat p - zi_add_position_when_writting_offset zi) crc k) \<and>
    archive_ready ff zi3 \<and> zi_filestream zi3 = zi_filestream zi \<and>
    zi_filestream_with_CD zi3 = zi_filestream_with_CD zi \<and> zi_number_entry zi3 = zi_number_entry zi + 1 \<and>
    zi_number_disk_with_CD zi3 = zi_number_disk_with_CD zi \<and> zi_number_disk zi3 = zi_number_disk zi \<and>
    zi_add_position_when_writting_offset zi3 = zi_add_position_when_writting_offset zi \<and>
    zi_globalcomment zi3 = zi_globalcomment zi"
proof -
  note l = assms(4) [unfolded stored_args_def] and r = assms(3) [unfolded archive_ready_def]
  define zi1 where "zi1 = zi\<lparr>zi_ci := opened_ci a zi p, zi_in_opened_file_inzip := True\<rparr>"
  have pb: "p < bound" using assms(8) by simp
  obtain w1 where 1: "zipOpenNewFileInZip4_64 (Suc n) zl rnd zi a w = Some (ZIP_OK, zi1, w1)"
    "st_at view (zi_filestream zi) c p (local_header a 0 0) (ZIP_OK, w1)"
    using open_entry [OF assms(1,2) pb assms(3,4)] unfolding zi1_def by blast
  have buf: "length (ci_buffered_data (zi_ci zi)) = Z_BUFSIZE" using r by simp
  have start: "writing view c p (local_header a 0 0) zi1 [] zi1 w1"
    by (rule writing_start [OF 1(2) buf zi1_def])
  have e: "plain_entry ff zi1" using l r by (simp add: plain_entry_def zi1_def opened_ci_simps)
  have parts: "\<forall>buf \<in> set bufs. length buf < Suc n \<and> length buf < 2 ^ 32"
  proof
    fix b assume b: "b \<in> set bufs"
    then have "length b \<le> length (concat bufs)" by (induction bufs) auto
    with b assms(5,6) show "length b < Suc n \<and> length b < 2 ^ 32" by auto
  qed
  obtain zi2 w2 where 2: "write_parts (Suc n) zl zi1 bufs w1 = Some (ZIP_OK, zi2, w2)"
    "writing view c p (local_header a 0 0) zi1 ([] @ concat bufs) zi2 w2"
    "ci_crc32 (zi_ci zi2) = foldl (zl_crc32 zl) (ci_crc32 (zi_ci zi1)) bufs"
    using write_parts_view [OF start e parts, of zl] by blast
  have crc: "ci_crc32 (zi_ci zi2) = foldl (zl_crc32 zl) 0 bufs" using 2(3) by (simp add: zi1_def opened_ci_simps)
  have w: "writing view c p (local_header a 0 0) zi1 (concat bufs) zi2 w2" using 2(2) by simp
  note close = close_view [OF w assms(4,3) zi1_def assms(7,6,8), of n zl, unfolded crc]
  from 1(1) 2(1) close show ?thesis unfolding Let_def by blast
qed

end

section \<open>Whole archives\<close>

text \<open>A caller that adds entries and closes the archive; an error ends it.\<close>

fun add_entries ::
  "nat \<Rightarrow> 'z zip_zlib_fns \<Rightarrow> (nat \<Rightarrow> u32) \<Rightarrow> ('w, 'z) zip64_internal \<Rightarrow> (new_file_args \<times> byte list list) list \<Rightarrow> 'w \<Rightarrow>
   (int \<times> ('w, 'z) zip64_internal \<times> 'w) option" where
  "add_entries n zl rnd zi [] w = Some (ZIP_OK, zi, w)"
| "add_entries n zl rnd zi ((a, bufs) # es) w =
     do {
       (err, zi, w) \<leftarrow> zipOpenNewFileInZip4_64 n zl rnd zi a w;
       if err \<noteq> ZIP_OK then Some (err, zi, w)
       else
         do {
           (err, zi, w) \<leftarrow> write_parts n zl zi bufs w;
           if err \<noteq> ZIP_OK then Some (err, zi, w)
           else
             do {
               (err, zi, w) \<leftarrow> zipCloseFileInZip n zl zi w;
               if err \<noteq> ZIP_OK then Some (err, zi, w) else add_entries n zl rnd zi es w
             }
         }
     }"

definition write_archive ::
  "nat \<Rightarrow> 'z zip_zlib_fns \<Rightarrow> (nat \<Rightarrow> u32) \<Rightarrow> ('w, 'z) zip64_internal \<Rightarrow> (new_file_args \<times> byte list list) list \<Rightarrow>
   byte list \<Rightarrow> 'w \<Rightarrow> (int \<times> 'w) option" where
  "write_archive n zl rnd zi es cmt w =
     do {
       (err, zi, w) \<leftarrow> add_entries n zl rnd zi es w;
       if err \<noteq> ZIP_OK then Some (err, w) else zipClose n zl zi (Some cmt) w
     }"

text \<open>
  The format: the entries from the position \<open>p\<close> on, with the records that go into the central
  directory.
\<close>

fun entries_bytes ::
  "(u64 \<Rightarrow> byte list \<Rightarrow> u64) \<Rightarrow> u64 \<Rightarrow> u64 \<Rightarrow> nat \<Rightarrow> (new_file_args \<times> byte list list) list \<Rightarrow> byte list \<times> byte list" where
  "entries_bytes crc_fn disk add_position p [] = ([], [])"
| "entries_bytes crc_fn disk add_position p ((a, bufs) # es) =
     (let crc = foldl crc_fn 0 bufs; k = of_nat (length (concat bufs)); bs = local_header a crc k @ concat bufs;
          (file_bytes, dir) = entries_bytes crc_fn disk add_position (p + length bs) es in
      (bs @ file_bytes, central_record a disk (of_nat p - add_position) crc k @ dir))"

definition entry_fits :: "nat \<Rightarrow> new_file_args \<times> byte list list \<Rightarrow> bool" where
  "entry_fits n e \<longleftrightarrow> stored_args (fst e) \<and> (\<forall>buf \<in> set (snd e). length buf \<le> n) \<and>
     length (concat (snd e)) < 0xffffffff"

context zip_out begin

lemma add_entries_view:
  assumes "view w (zi_filestream zi) = Some (c, p)" "p \<le> length c" "archive_ready ff zi"
    and "\<forall>e \<in> set es. entry_fits n e"
    and "entries_bytes (zl_crc32 zl) (zi_number_disk zi) (zi_add_position_when_writting_offset zi) p es = (fb, dir)"
    and "p + length fb < 0xffffffff" "p + length fb < bound"
  shows "\<exists>zi' w'. add_entries (Suc n) zl rnd zi es w = Some (ZIP_OK, zi', w') \<and>
    st_at view (zi_filestream zi) c p fb (ZIP_OK, w') \<and> archive_ready ff zi' \<and>
    blocks_bytes (zi_central_dir zi') = blocks_bytes (zi_central_dir zi) @ dir \<and>
    zi_filestream zi' = zi_filestream zi \<and> zi_filestream_with_CD zi' = zi_filestream_with_CD zi \<and>
    zi_number_entry zi' = zi_number_entry zi + of_nat (length es) \<and>
    zi_number_disk_with_CD zi' = zi_number_disk_with_CD zi \<and>
    zi_add_position_when_writting_offset zi' = zi_add_position_when_writting_offset zi"
  using assms
proof (induction es arbitrary: zi w c p fb dir)
  case Nil
  then show ?case by (simp add: st_at_def write_at_Nil)
next
  case (Cons e es)
  obtain a bufs where e: "e = (a, bufs)" by (cases e)
  let ?crc = "foldl (zl_crc32 zl) 0 bufs" and ?k = "of_nat (length (concat bufs)) :: u64"
  let ?bs = "local_header a ?crc ?k @ concat bufs"
  obtain fb1 dir1 where r: "entries_bytes (zl_crc32 zl) (zi_number_disk zi) (zi_add_position_when_writting_offset zi)
      (p + length ?bs) es = (fb1, dir1)" by (rule prod.exhaust)
  have fb: "fb = ?bs @ fb1" and dir: "dir = central_record a (zi_number_disk zi)
      (of_nat p - zi_add_position_when_writting_offset zi) ?crc ?k @ dir1"
    using Cons.prems(5) r by (simp_all add: e Let_def)
  have fits: "stored_args a" "\<forall>buf \<in> set bufs. length buf \<le> n" "length (concat bufs) < 0xffffffff"
    using Cons.prems(4) by (simp_all add: e entry_fits_def)
  have p: "of_nat p < (0xffffffff :: u64)" using Cons.prems(6) u64_of_nat_less [of p "0xffffffff"] by simp
  have len: "length (local_header a 0 0) = length (local_header a ?crc ?k)" by (simp add: length_local_header)
  have b: "p + length (local_header a 0 0 @ concat bufs) < bound" using Cons.prems(7) by (simp add: fb len)
  obtain zi1 w1 zi2 w2 zi3 w3 where s:
    "zipOpenNewFileInZip4_64 (Suc n) zl rnd zi a w = Some (ZIP_OK, zi1, w1)"
    "write_parts (Suc n) zl zi1 bufs w1 = Some (ZIP_OK, zi2, w2)"
    "zipCloseFileInZip (Suc n) zl zi2 w2 = Some (ZIP_OK, zi3, w3)"
    "st_at view (zi_filestream zi) c p ?bs (ZIP_OK, w3)"
    "blocks_bytes (zi_central_dir zi3) = blocks_bytes (zi_central_dir zi) @
       central_record a (zi_number_disk zi) (of_nat p - zi_add_position_when_writting_offset zi) ?crc ?k"
    "archive_ready ff zi3" "zi_filestream zi3 = zi_filestream zi"
    "zi_filestream_with_CD zi3 = zi_filestream_with_CD zi" "zi_number_entry zi3 = zi_number_entry zi + 1"
    "zi_number_disk_with_CD zi3 = zi_number_disk_with_CD zi" "zi_number_disk zi3 = zi_number_disk zi"
    "zi_add_position_when_writting_offset zi3 = zi_add_position_when_writting_offset zi"
    using stored_entry_view [OF Cons.prems(1-3) fits p b, of zl rnd] unfolding Let_def by blast
  let ?c = "write_at c p ?bs"
  have v: "view w3 (zi_filestream zi3) = Some (?c, p + length ?bs)" using s(4,7) by (simp add: st_at_def)
  have "p + length ?bs \<le> length ?c" by (simp add: write_at_length)
  moreover have "\<forall>e \<in> set es. entry_fits n e" using Cons.prems(4) by simp
  moreover have "entries_bytes (zl_crc32 zl) (zi_number_disk zi3) (zi_add_position_when_writting_offset zi3)
      (p + length ?bs) es = (fb1, dir1)" using r s(11,12) by simp
  moreover have "p + length ?bs + length fb1 < 0xffffffff" "p + length ?bs + length fb1 < bound"
    using Cons.prems(6,7) by (simp_all add: fb)
  ultimately obtain zi4 w4 where
    4: "add_entries (Suc n) zl rnd zi3 es w3 = Some (ZIP_OK, zi4, w4)"
    "st_at view (zi_filestream zi3) ?c (p + length ?bs) fb1 (ZIP_OK, w4)" "archive_ready ff zi4"
    "blocks_bytes (zi_central_dir zi4) = blocks_bytes (zi_central_dir zi3) @ dir1"
    "zi_filestream zi4 = zi_filestream zi3" "zi_filestream_with_CD zi4 = zi_filestream_with_CD zi3"
    "zi_number_entry zi4 = zi_number_entry zi3 + of_nat (length es)"
    "zi_number_disk_with_CD zi4 = zi_number_disk_with_CD zi3"
    "zi_add_position_when_writting_offset zi4 = zi_add_position_when_writting_offset zi3"
    using Cons.IH [OF v _ s(6)] by blast
  have "write_at ?c (p + length ?bs) fb1 = write_at c p fb" unfolding fb by (rule write_at_append [OF Cons.prems(2)])
  moreover have "p + length ?bs + length fb1 = p + length fb" by (simp add: fb)
  ultimately have "st_at view (zi_filestream zi) c p fb (ZIP_OK, w4)"
    using 4(2) s(7) Cons.prems(2) by (simp only: st_at_def fst_conv snd_conv)
  then show ?case
    using s 4 by (simp add: e dir)
qed

lemma write_archive_view:
  assumes "view w (zi_filestream zi) = Some (c, p)" "p \<le> length c" "archive_ready ff zi"
    and "zi_filestream_with_CD zi = zi_filestream zi" "\<forall>e \<in> set es. entry_fits n e" "length cmt < 2 ^ 32"
    and "entries_bytes (zl_crc32 zl) (zi_number_disk zi) (zi_add_position_when_writting_offset zi) p es = (fb, dir)"
    and "p + length fb < 0xffffffff" "p + length fb + length (blocks_bytes (zi_central_dir zi) @ dir) < bound"
  shows "\<exists>w'. write_archive (Suc n) zl rnd zi es cmt w = Some (ZIP_OK, w') \<and>
    stored w' = write_at c p
      (fb @ archive_tail (blocks_bytes (zi_central_dir zi) @ dir) (zi_number_disk_with_CD zi)
         (zi_number_entry zi + of_nat (length es)) (zi_add_position_when_writting_offset zi) (p + length fb) cmt)"
proof -
  have b: "p + length fb < bound" using assms(9) by simp
  obtain zi1 w1 where 1: "add_entries (Suc n) zl rnd zi es w = Some (ZIP_OK, zi1, w1)"
    "st_at view (zi_filestream zi) c p fb (ZIP_OK, w1)" "archive_ready ff zi1"
    "blocks_bytes (zi_central_dir zi1) = blocks_bytes (zi_central_dir zi) @ dir"
    "zi_filestream zi1 = zi_filestream zi" "zi_filestream_with_CD zi1 = zi_filestream_with_CD zi"
    "zi_number_entry zi1 = zi_number_entry zi + of_nat (length es)"
    "zi_number_disk_with_CD zi1 = zi_number_disk_with_CD zi"
    "zi_add_position_when_writting_offset zi1 = zi_add_position_when_writting_offset zi"
    using add_entries_view [OF assms(1-3,5,7,8) b, of rnd] by blast
  note r = 1(3) [unfolded archive_ready_def]
  have v: "view w1 (zi_filestream zi1) = Some (write_at c p fb, p + length fb)" using 1(2,5) by (simp add: st_at_def)
  have "p + length fb \<le> length (write_at c p fb)" by (simp add: write_at_length)
  moreover have "p + length fb + length (blocks_bytes (zi_central_dir zi1)) < bound" using assms(9) 1(4) by simp
  ultimately obtain w2 where "zipClose (Suc n) zl zi1 (Some cmt) w1 = Some (ZIP_OK, w2)"
    "stored w2 = write_at (write_at c p fb) (p + length fb) (archive_end zi1 (p + length fb) cmt)"
    using zipClose_view [OF v _ _ _ _ _ _ assms(6), of "Some cmt" "Suc n" zl] r 1(5,6) assms(4) by auto
  with 1(1,4,7-9) assms(2) show ?thesis
    by (simp add: write_archive_def archive_end_def write_at_append)
qed

end

section \<open>Properties\<close>

text \<open>
  C25: A stored entry, written in any number of parts of any size, comes out exactly: each of the calls
  succeeds, the file holds the local header with the final CRC and sizes, the name, the extra
  field and then the data in order, the record of the entry is appended to the central directory, one
  entry is counted, and the archive is ready for the next one. The fuel needed is one more than the
  length of the longest part.
\<close>

lemma zip_stored_entry:
  assumes "stdio_named name w (zi_filestream zi) = Some (c, p)" "p \<le> length c"
    and "archive_ready (table64 fill_fopen64_filefunc) zi" "stored_args a"
    and "\<forall>buf \<in> set bufs. length buf \<le> n" "length (concat bufs) < 0xffffffff" "p < 0xffffffff"
  shows "\<exists>zi1 w1 zi2 w2 zi3 w3.
    zipOpenNewFileInZip4_64 (Suc n) zl rnd zi a w = Some (ZIP_OK, zi1, w1) \<and>
    write_parts (Suc n) zl zi1 bufs w1 = Some (ZIP_OK, zi2, w2) \<and>
    zipCloseFileInZip (Suc n) zl zi2 w2 = Some (ZIP_OK, zi3, w3) \<and>
    archive_ready (table64 fill_fopen64_filefunc) zi3 \<and> zi_number_entry zi3 = zi_number_entry zi + 1 \<and>
    (let crc = foldl (zl_crc32 zl) 0 bufs; k = of_nat (length (concat bufs));
         bs = local_header a crc k @ concat bufs in
     stdio_named name w3 (zi_filestream zi3) = Some (write_at c p bs, p + length bs) \<and>
     blocks_bytes (zi_central_dir zi3) = blocks_bytes (zi_central_dir zi) @
       central_record a (zi_number_disk zi) (of_nat p - zi_add_position_when_writting_offset zi) crc k)"
proof -
  have p: "of_nat p < (0xffffffff :: u64)" using assms(7) u64_of_nat_less [of p "0xffffffff"] by simp
  have b: "p + length (local_header a 0 0 @ concat bufs) < 2 ^ 63"
    using assms(4,6,7) by (simp add: length_local_header stored_args_def)
  from stdio_out64.stored_entry_view [OF assms(1-6) p b, of zl rnd]
  show ?thesis unfolding Let_def st_at_def by auto
qed

definition example_args :: new_file_args where
  "example_args =
     \<lparr>na_filename = Some [97], na_zipfi = None, na_extrafield_local = [], na_extrafield_global = [],
      na_comment = None, na_method = 0, na_level = 0, na_raw = False, na_windowBits = 0, na_memLevel = 0,
      na_strategy = 0, na_password = None, na_crcForCrypting = 0, na_versionMadeBy = 0, na_flagBase = 0,
      na_zip64 = False\<rparr>"

lemma stored_args_example: "stored_args example_args"
  by (simp add: stored_args_def example_args_def entry_flag_def entry_filename_def entry_comment_def Let_def)

lemma zip_stored_entry_witness:
  "\<exists>zi1 w1 zi2 w2 zi3 w3.
     zipOpenNewFileInZip4_64 4 example_zl (\<lambda>_. 0) (example_zi 0) example_args (end_of_file [9]) = Some (ZIP_OK, zi1, w1) \<and>
     write_parts 4 example_zl zi1 [[1, 2, 3], [4]] w1 = Some (ZIP_OK, zi2, w2) \<and>
     zipCloseFileInZip 4 example_zl zi2 w2 = Some (ZIP_OK, zi3, w3) \<and>
     (\<exists>crc. stdio_named ''a.zip'' w3 (zi_filestream zi3) =
        Some ([9] @ local_header example_args crc 4 @ [1, 2, 3, 4], 36))"
proof -
  have ready: "archive_ready (table64 fill_fopen64_filefunc) (example_zi 0)"
    by (simp add: archive_ready_def example_zi_def example_ci_def init_linkedlist_def blocks_ok_def)
  have v: "stdio_named ''a.zip'' (end_of_file [9]) (zi_filestream (example_zi 0)) = Some ([9], 1)"
    using stdio_named_end_of_file [of "[9]"] by (simp add: example_zi_def)
  have four: "Suc 3 = 4" by simp
  have len: "length (local_header example_args crc 4) = 31" for crc
    by (simp add: length_local_header example_args_def entry_filename_def)
  have w: "write_at [9] 1 bs = [9] @ bs" for bs using write_at_end [of "[9]" bs] by simp
  have prem: "1 \<le> length [9 :: byte]" "\<forall>buf \<in> set [[1, 2, 3], [4 :: byte]]. length buf \<le> 3"
    "length (concat [[1, 2, 3], [4 :: byte]]) < 0xffffffff" "(1 :: nat) < 0xffffffff" by simp_all
  have k: "concat [[1, 2, 3], [4 :: byte]] = [1, 2, 3, 4]" "of_nat (length [1, 2, 3, 4 :: byte]) = (4 :: u64)" by simp_all
  have pos: "1 + length (local_header example_args crc 4 @ [1, 2, 3, 4]) = 36" for crc by (simp add: len)
  show ?thesis
    using zip_stored_entry [OF v prem(1) ready stored_args_example prem(2-4), of example_zl "\<lambda>_. 0",
        unfolded four k Let_def w pos] by blast
qed

text \<open>
  C11: An archive of stored entries, written one after the other and then closed, is what the format
  asks for: the entries with their local headers, the central directory with one record for each that
  points to its local header, the zip64 records exactly if a number does not fit the end record, and the end record
  (\<open>format_tail\<close>). This holds below 4 GiB for the entries and for the directory, on fewer than 65535 disks, with a comment
  that fits its length, and unless there are exactly 65535 entries, where the code differs from the format
  (\<open>archive_tail_65535\<close>). The writer's state refines to that format: entries in the file, records in the blocks.
\<close>

lemma zip_archive_refines_format:
  assumes "stdio_named name w (zi_filestream zi) = Some (c, p)" "p \<le> length c"
    and "archive_ready (table64 fill_fopen64_filefunc) zi" "zi_filestream_with_CD zi = zi_filestream zi"
    and "\<forall>e \<in> set es. entry_fits n e" "length cmt < 0x10000"
    and "entries_bytes (zl_crc32 zl) (zi_number_disk zi) (zi_add_position_when_writting_offset zi) p es = (fb, dir)"
    and "p + length fb < 0xffffffff" "length (blocks_bytes (zi_central_dir zi) @ dir) < 0xffffffff"
    and "zi_number_entry zi = of_nat N" "N + length es < 2 ^ 64" "N + length es \<noteq> 0xffff"
    and "zi_number_disk_with_CD zi = of_nat disk" "disk < 0xffff"
    and "zi_add_position_when_writting_offset zi = of_nat A" "A \<le> p"
  shows "\<exists>w'. write_archive (Suc n) zl rnd zi es cmt w = Some (ZIP_OK, w') \<and>
    stdio_stored name w' = write_at c p
      (fb @ format_tail (blocks_bytes (zi_central_dir zi) @ dir) disk (N + length es) (p + length fb - A) cmt)"
proof -
  let ?dir = "blocks_bytes (zi_central_dir zi) @ dir"
  have sizes: "length cmt < 2 ^ 32" "p + length fb + length ?dir < 2 ^ 63" "A \<le> p + length fb"
    using assms(6,8,9,16) by (simp_all add: trans_le_add1)
  have "archive_tail ?dir (of_nat disk) (of_nat (N + length es)) (of_nat A) (p + length fb) cmt =
      format_tail ?dir disk (N + length es) (p + length fb - A) cmt"
    using assms(6,9,11,12,14) sizes by (intro archive_tail_format) auto
  then show ?thesis
    using stdio_out64.write_archive_view [OF assms(1-5) sizes(1) assms(7,8) sizes(2), of rnd] assms(10,13,15) by simp
qed

lemma zip_archive_refines_format_witness:
  "\<exists>fb dir w'. write_archive 4 example_zl (\<lambda>_. 0) (example_zi 0) [(example_args, [[1, 2, 3], [4]]), (example_args, [])] [33] (end_of_file []) =
       Some (ZIP_OK, w') \<and>
     entries_bytes (zl_crc32 example_zl) 0 0 0 [(example_args, [[1, 2, 3], [4]]), (example_args, [])] = (fb, dir) \<and>
     stdio_stored ''a.zip'' w' = fb @ format_tail dir 0 2 (length fb) [33]"
proof -
  let ?es = "[(example_args, [[1, 2, 3], [4]]), (example_args, [])] :: (new_file_args \<times> byte list list) list"
  have ready: "archive_ready (table64 fill_fopen64_filefunc) (example_zi 0)"
    by (simp add: archive_ready_def example_zi_def example_ci_def init_linkedlist_def blocks_ok_def)
  have v: "stdio_named ''a.zip'' (end_of_file []) (zi_filestream (example_zi 0)) = Some ([], 0)"
    using stdio_named_end_of_file [of "[]"] by (simp add: example_zi_def)
  have z: "zi_number_disk (example_zi 0) = 0" "zi_add_position_when_writting_offset (example_zi 0) = 0"
    "zi_number_disk_with_CD (example_zi 0) = 0" "zi_number_entry (example_zi 0) = 0"
    by (simp_all add: example_zi_def)
  obtain fb dir where e: "entries_bytes (zl_crc32 example_zl) (zi_number_disk (example_zi 0))
      (zi_add_position_when_writting_offset (example_zi 0)) 0 ?es = (fb, dir)" by (rule prod.exhaust)
  have rec: "length (central_record example_args d q crc k) = 47" for d q crc k
    by (simp add: central_record_def example_args_def entry_filename_def entry_comment_def Let_def)
  have len: "length (local_header example_args crc k) = 31" for crc k
    by (simp add: length_local_header example_args_def entry_filename_def)
  have "length fb = 66" "length dir = 94"
    using e by (auto simp: z Let_def len rec split: prod.splits)
  then have small: "0 + length fb < 0xffffffff"
    "length (blocks_bytes (zi_central_dir (example_zi 0)) @ dir) < 0xffffffff"
    by (simp_all add: example_zi_facts)
  have fits: "\<forall>e \<in> set ?es. entry_fits 3 e" by (simp add: entry_fits_def stored_args_example)
  have four: "Suc 3 = 4" by simp
  have start: "0 \<le> length ([] :: byte list)" "length [33 :: byte] < 0x10000" by simp_all
  have w: "write_at [] 0 bs = bs" for bs :: "byte list" by (simp add: write_at_def)
  have two: "0 + length ?es = 2" "0 + length fb - 0 = length fb" by simp_all
  have counts: "zi_number_entry (example_zi 0) = of_nat 0" "0 + length ?es < 2 ^ 64" "0 + length ?es \<noteq> 0xffff"
    "zi_number_disk_with_CD (example_zi 0) = of_nat 0" "(0 :: nat) < 0xffff"
    "zi_add_position_when_writting_offset (example_zi 0) = of_nat 0" "(0 :: nat) \<le> 0"
    by (simp_all add: z)
  show ?thesis
    using zip_archive_refines_format [OF v start(1) ready example_zi_facts(2) fits start(2) e small counts, of "\<lambda>_. 0",
        unfolded four w example_zi_facts two] e unfolding z by auto
qed

end
