(* ===== verification/Zip_Session.thy ===== *)
theory Zip_Session
  imports Zip_Entry
begin

text \<open>
  What holds of the writer's state (\<^verbatim>\<open>zip.c\<close>) at any moment between two calls, whatever file functions it
  was given, whatever data and however often a call failed: an inductive step relation over the
  operations of the interface, and invariants by induction on it. Of \<^verbatim>\<open>deflate\<close> only the documented
  bounds are used: it takes no more than it is offered and fills no more than the room it has.
\<close>

unbundle bit_operations_syntax

section \<open>The invariant\<close>

definition deflate_ok :: "'z zip_zlib_fns \<Rightarrow> bool" where
  "deflate_ok zl \<longleftrightarrow>
     (\<forall>z input room finish. case zd_deflate zl z input room finish of (err, consumed, out, data_type, z') \<Rightarrow>
        consumed \<le> length input \<and> length out \<le> unat room)"

text \<open>
  The write buffer: \<open>next_out\<close> and \<open>avail_out\<close> split it, and what is counted as waiting lies before
  \<open>next_out\<close>. On limited disks the last part fails: an error in the middle of the flush leaves the count as it is.
\<close>

definition buffer_ok :: "('w, 'z) zip64_internal \<Rightarrow> bool" where
  "buffer_ok zi \<longleftrightarrow>
     (let ci = zi_ci zi in
      length (ci_buffered_data ci) = Z_BUFSIZE \<and> ci_next_out ci + unat (ci_avail_out ci) = Z_BUFSIZE \<and>
      (zi_disk_size zi = 0 \<longrightarrow> unat (ci_pos_in_buffered_data ci) \<le> ci_next_out ci))"

text \<open>
  The block of the central header: the fixed part, name, extra field, \<open>k\<close> free bytes and comment, with
  the sizes that the entry and the fixed part hold of them.
\<close>

definition header_parts :: "'z curfile64_info \<Rightarrow> byte list \<Rightarrow> byte list \<Rightarrow> byte list \<Rightarrow> byte list \<Rightarrow> byte list \<Rightarrow> bool" where
  "header_parts ci fixed name extra free cmt \<longleftrightarrow>
     ci_central_header ci = fixed @ name @ extra @ free @ cmt \<and> length fixed = 46 \<and>
     length name < 0x10000 \<and> length extra < 0x10000 \<and> length free \<le> 32 \<and> length cmt < 0x10000 \<and>
     ci_size_centralheader ci = of_nat (46 + length name + length extra) \<and>
     ci_size_centralextra ci = of_nat (length extra) \<and> ci_size_centralextrafree ci = of_nat (length free) \<and>
     ci_size_comment ci = of_nat (length cmt) \<and>
     file_number fixed 0 4 = CENTRALHEADERMAGIC \<and> file_number fixed 28 2 = of_nat (length name) \<and>
     file_number fixed 30 2 = of_nat (length extra) \<and> file_number fixed 32 2 = of_nat (length cmt)"

definition header_ok :: "'z curfile64_info \<Rightarrow> bool" where
  "header_ok ci \<longleftrightarrow> (\<exists>fixed name extra free cmt. header_parts ci fixed name extra free cmt \<and>
     length extra + 28 < 0x10000 \<and> length free = 32)"

definition writer_ok :: "('w, 'z) zip64_internal \<Rightarrow> bool" where
  "writer_ok zi \<longleftrightarrow> blocks_ok (zi_central_dir zi) \<and> length (ci_buffered_data (zi_ci zi)) = Z_BUFSIZE \<and>
     (zi_in_opened_file_inzip zi \<longrightarrow> buffer_ok zi \<and> header_ok (zi_ci zi))"

text \<open>A record of the central directory that is as long as its own fields say.\<close>

definition central_record_ok :: "byte list \<Rightarrow> bool" where
  "central_record_ok r \<longleftrightarrow> file_number r 0 4 = CENTRALHEADERMAGIC \<and>
     length r = 46 + unat (file_number r 28 2) + unat (file_number r 30 2) + unat (file_number r 32 2)"

section \<open>What the operations on the data leave alone\<close>

definition same_archive :: "('w, 'z) zip64_internal \<Rightarrow> ('w, 'z) zip64_internal \<Rightarrow> bool" where
  "same_archive zi zi' \<longleftrightarrow> zi_z_filefunc zi' = zi_z_filefunc zi \<and>
     zi_filestream_with_CD zi' = zi_filestream_with_CD zi \<and> zi_append zi' = zi_append zi \<and>
     zi_disk_size zi' = zi_disk_size zi \<and> zi_begin_pos zi' = zi_begin_pos zi \<and>
     zi_add_position_when_writting_offset zi' = zi_add_position_when_writting_offset zi \<and>
     zi_globalcomment zi' = zi_globalcomment zi"

definition same_header :: "'z curfile64_info \<Rightarrow> 'z curfile64_info \<Rightarrow> bool" where
  "same_header ci ci' \<longleftrightarrow> ci_central_header ci' = ci_central_header ci \<and>
     ci_size_centralheader ci' = ci_size_centralheader ci \<and> ci_size_centralextra ci' = ci_size_centralextra ci \<and>
     ci_size_centralextrafree ci' = ci_size_centralextrafree ci \<and> ci_size_comment ci' = ci_size_comment ci"

definition keeps :: "('w, 'z) zip64_internal \<Rightarrow> ('w, 'z) zip64_internal \<Rightarrow> bool" where
  "keeps zi zi' \<longleftrightarrow> same_archive zi zi' \<and> same_header (zi_ci zi) (zi_ci zi') \<and>
     zi_central_dir zi' = zi_central_dir zi \<and> zi_number_entry zi' = zi_number_entry zi \<and>
     zi_in_opened_file_inzip zi' = zi_in_opened_file_inzip zi \<and>
     length (ci_buffered_data (zi_ci zi')) = length (ci_buffered_data (zi_ci zi)) \<and>
     (buffer_ok zi \<longrightarrow> buffer_ok zi')"

named_theorems keep_defs
declare same_archive_def [keep_defs] same_header_def [keep_defs] keeps_def [keep_defs] buffer_ok_def [keep_defs]

lemma same_archive_refl [simp, intro]: "same_archive zi zi"
  by (simp add: same_archive_def)

lemma same_archive_trans [trans]: "same_archive zi zi1 \<Longrightarrow> same_archive zi1 zi2 \<Longrightarrow> same_archive zi zi2"
  by (simp add: same_archive_def)

lemma keeps_refl [simp, intro]: "keeps zi zi"
  by (simp add: keep_defs)

lemma keeps_trans [trans]: "keeps zi zi1 \<Longrightarrow> keeps zi1 zi2 \<Longrightarrow> keeps zi zi2"
  unfolding keeps_def same_archive_def same_header_def by simp

lemma keeps_archive: "keeps zi zi' \<Longrightarrow> same_archive zi zi'"
  by (simp add: keeps_def)

text \<open>A step that changes the disks, or the current entry only.\<close>

definition moved :: "('w, 'z) zip64_internal \<Rightarrow> ('w, 'z) zip64_internal \<Rightarrow> bool" where
  "moved zi zi' \<longleftrightarrow> (\<exists>h d cd. zi' = zi\<lparr>zi_filestream := h, zi_number_disk := d, zi_number_disk_with_CD := cd\<rparr>)"

lemma moved_refl [simp, intro]: "moved zi zi"
  unfolding moved_def
  by (intro exI [of _ "zi_filestream zi"] exI [of _ "zi_number_disk zi"] exI [of _ "zi_number_disk_with_CD zi"]) simp

lemma moved_trans [trans]: "moved zi zi1 \<Longrightarrow> moved zi1 zi2 \<Longrightarrow> moved zi zi2"
  unfolding moved_def by fastforce

lemma moved_update:
  "moved zi (zi\<lparr>zi_filestream := h\<rparr>)" "moved zi (zi\<lparr>zi_number_disk := d\<rparr>)"
  "moved zi (zi\<lparr>zi_number_disk := d, zi_number_disk_with_CD := cd\<rparr>)"
  unfolding moved_def
  by (rule exI [of _ h], rule exI [of _ "zi_number_disk zi"], rule exI [of _ "zi_number_disk_with_CD zi"], simp)
    (rule exI [of _ "zi_filestream zi"], rule exI [of _ d], rule exI [of _ "zi_number_disk_with_CD zi"], simp,
     rule exI [of _ "zi_filestream zi"], rule exI [of _ d], rule exI [of _ cd], simp)

lemma moved_fields:
  assumes "moved zi zi'"
  shows "zi_ci zi' = zi_ci zi" "zi_central_dir zi' = zi_central_dir zi" "zi_number_entry zi' = zi_number_entry zi"
    "zi_in_opened_file_inzip zi' = zi_in_opened_file_inzip zi" "zi_disk_size zi' = zi_disk_size zi"
    "same_archive zi zi'"
  using assms by (auto simp: moved_def same_archive_def)

lemma moved_keeps: "moved zi zi' \<Longrightarrow> keeps zi zi'"
  by (auto simp: moved_def keep_defs)

lemma keeps_entry:
  assumes "same_header (zi_ci zi) ci" "length (ci_buffered_data ci) = length (ci_buffered_data (zi_ci zi))"
    and "buffer_ok zi \<Longrightarrow> buffer_ok (zi\<lparr>zi_ci := ci\<rparr>)"
  shows "keeps zi (zi\<lparr>zi_ci := ci\<rparr>)"
  using assms by (simp add: keeps_def same_archive_def)

section \<open>The operations\<close>

subsection \<open>Disks\<close>

lemma zipGoToSpecificDisk_moved:
  assumes "zipGoToSpecificDisk zi k e w = Some (err, zi', w')"
  shows "moved zi zi'"
  using assms by (auto simp: zipGoToSpecificDisk_def Let_def bind_Some_eq moved_update split: if_splits)

lemma open_disk_moved:
  assumes "open_disk zi k w = Some (err, zi', w')"
  shows "moved zi zi'"
  using assms
  by (auto simp: open_disk_def bind_Some_eq split: if_splits dest!: zipGoToSpecificDisk_moved intro: moved_trans)

lemma next_disk_loop_moved: "next_disk_loop n zi k w = Some (err, zi', w') \<Longrightarrow> moved zi zi'"
proof (induction n zi k w rule: next_disk_loop.induct)
  case (2 n zi k w)
  obtain e1 zi1 w1 where 1: "open_disk zi k w = Some (e1, zi1, w1)"
    using "2.prems" by (auto simp: bind_Some_eq)
  note m = open_disk_moved [OF 1]
  let ?zi2 = "zi1\<lparr>zi_number_disk := of_int k, zi_number_disk_with_CD := of_int k + 1\<rparr>"
  have m2: "moved zi ?zi2" by (rule moved_trans [OF m moved_update(3)])
  show ?case
  proof (cases "e1 = ZIP_OK")
    case True
    obtain size w2 where 2: "zipGetDiskSizeAvailable zi1 w1 = Some (size, w2)"
      using "2.prems" True by (auto simp: 1 bind_Some_eq)
    show ?thesis
    proof (cases "size \<le> 0")
      case le: True
      have "moved ?zi2 zi'"
        by (rule "2.IH" [OF 1 refl refl _ 2 refl refl le]) (use "2.prems" True le in \<open>auto simp: 1 2\<close>)
      with m2 show ?thesis by (rule moved_trans)
    next
      case False
      then show ?thesis using "2.prems" True m2 by (auto simp: 1 2)
    qed
  next
    case False
    then show ?thesis using "2.prems" m by (simp add: 1)
  qed
qed simp

lemma zipGoToNextDisk_moved:
  assumes "zipGoToNextDisk n zi w = Some (err, zi', w')"
  shows "moved zi zi'"
  using assms by (auto simp: zipGoToNextDisk_def dest: next_disk_loop_moved split: if_splits)

lemma zipGoToFirstDisk_moved:
  assumes "zipGoToFirstDisk zi w = Some (err, zi', w')"
  shows "moved zi zi'"
  using assms
  by (auto simp: zipGoToFirstDisk_def Let_def bind_Some_eq dest!: open_disk_moved split: if_splits
      intro: moved_trans moved_update)

subsection \<open>Data\<close>

lemma flush_loop_moved:
  "flush_loop n zi togo total_written w = Some (early, err, zi', w') \<Longrightarrow>
   moved zi zi' \<and> (early \<longrightarrow> zi_disk_size zi \<noteq> 0)"
proof (induction n arbitrary: zi togo total_written w)
  case (Suc n)
  let ?first = "if zi_disk_size zi > 0 then
      do {
        (size_available, w) \<leftarrow> zipGetDiskSizeAvailable zi w;
        (err, zi, w) \<leftarrow> (if size_available = 0 then zipGoToNextDisk (Suc n) zi w else Some (ZIP_OK, zi, w));
        Some (err \<noteq> ZIP_OK, err,
          if size_available < ucast togo then ucast size_available else togo, zi, w)
      }
    else Some (False, ZIP_OK, togo, zi, w)"
  obtain early1 err1 k zi1 w1 where 1: "?first = Some (early1, err1, k, zi1, w1)"
    using Suc.prems unfolding flush_loop.simps(2) bind_eq_Some_conv by force
  have m: "moved zi zi1" "early1 \<Longrightarrow> zi_disk_size zi \<noteq> 0"
    using 1 by (auto simp: bind_Some_eq split: if_splits dest!: zipGoToNextDisk_moved)
  show ?case
  proof (cases early1)
    case True
    then show ?thesis using Suc.prems m unfolding flush_loop.simps(2) 1 by simp
  next
    case early: False
    obtain k2 w2 where 2: "zwrite64 (zi_z_filefunc zi1) (zi_filestream zi1)
        (drop (unat total_written) (ci_buffered_data (zi_ci zi1))) (ucast k) w1 = (k2, w2)" by (rule prod.exhaust)
    obtain e w3 where 3: "zerror64 (zi_z_filefunc zi1) (zi_filestream zi1) w2 = (e, w3)" by (rule prod.exhaust)
    show ?thesis
    proof (cases "e = 0 \<and> togo - ucast k2 > 0")
      case True
      have "moved zi1 zi' \<and> (early \<longrightarrow> zi_disk_size zi1 \<noteq> 0)"
        using Suc.prems True early unfolding flush_loop.simps(2) 1 by (intro Suc.IH) (simp add: 2 3 Let_def)
      with m moved_fields(5) [OF m(1)] show ?thesis by (auto intro: moved_trans)
    next
      case False
      then show ?thesis
        using Suc.prems m early unfolding flush_loop.simps(2) 1 by (auto simp: 2 3 Let_def split: if_splits)
    qed
  qed
qed simp

lemma encrypt_buffer_keeps: "keeps zi (zi\<lparr>zi_ci := encrypt_buffer (zi_ci zi)\<rparr>)"
proof -
  let ?ci = "zi_ci zi"
  let ?n = "unat (ci_pos_in_buffered_data ?ci)"
  let ?e = "zencode_all (ci_pcrc_32_tab ?ci) (ci_keys ?ci) (take ?n (ci_buffered_data ?ci))"
  have "length (fst ?e) = min (length (ci_buffered_data ?ci)) ?n" by (simp add: length_zencode_all)
  then have len: "length (fst ?e) + (length (ci_buffered_data ?ci) - ?n) = length (ci_buffered_data ?ci)" by simp
  show ?thesis
    by (rule keeps_entry)
      (use len in \<open>auto simp: encrypt_buffer_def same_header_def buffer_ok_def Let_def split: prod.splits\<close>)
qed

lemma zip64FlushWriteBuffer_keeps:
  assumes "zip64FlushWriteBuffer n zi w = Some (err, zi', w')"
  shows "keeps zi zi'" "zi_disk_size zi = 0 \<Longrightarrow> ci_pos_in_buffered_data (zi_ci zi') = 0"
proof -
  let ?zi = "zi\<lparr>zi_ci := encrypt_buffer (zi_ci zi)\<rparr>"
  note k0 = encrypt_buffer_keeps [of zi]
  obtain early e1 zi1 w1 where 1: "flush_loop n ?zi (ci_pos_in_buffered_data (zi_ci ?zi)) 0 w = Some (early, e1, zi1, w1)"
    using assms by (auto simp: zip64FlushWriteBuffer_def Let_def bind_Some_eq)
  have k1: "keeps ?zi zi1" using flush_loop_moved [OF 1] by (auto intro: moved_keeps)
  have early: "early \<Longrightarrow> zi_disk_size zi \<noteq> 0" using flush_loop_moved [OF 1] by simp
  have "keeps zi zi' \<and> (zi_disk_size zi = 0 \<longrightarrow> ci_pos_in_buffered_data (zi_ci zi') = 0)"
  proof (cases early)
    case True
    then show ?thesis
      using assms 1 early keeps_trans [OF k0 k1] by (simp add: zip64FlushWriteBuffer_def Let_def)
  next
    case False
    let ?ci = "(zi_ci zi1)\<lparr>ci_total_compressed := ci_total_compressed (zi_ci zi1) + ucast (ci_pos_in_buffered_data (zi_ci zi1)),
        ci_total_uncompressed := ci_total_uncompressed (zi_ci zi1) + ci_total_in (zi_ci zi1),
        ci_total_in := 0, ci_pos_in_buffered_data := 0\<rparr>"
    have "zi' = zi1\<lparr>zi_ci := ?ci\<rparr>" using assms 1 False by (simp add: zip64FlushWriteBuffer_def Let_def)
    moreover have "keeps zi1 (zi1\<lparr>zi_ci := ?ci\<rparr>)" by (rule keeps_entry) (simp_all add: same_header_def buffer_ok_def Let_def)
    ultimately show ?thesis using keeps_trans [OF keeps_trans [OF k0 k1]] by simp
  qed
  then show "keeps zi zi'" "zi_disk_size zi = 0 \<Longrightarrow> ci_pos_in_buffered_data (zi_ci zi') = 0" by simp_all
qed

lemma make_room_keeps:
  assumes "make_room n err zi w = Some (err', zi', w')"
  shows "keeps zi zi'"
proof (cases "ci_avail_out (zi_ci zi) = 0")
  case True
  obtain e zi1 w1 where 1: "zip64FlushWriteBuffer n zi w = Some (e, zi1, w1)" "w1 = w'"
    "zi' = zi1\<lparr>zi_ci := (zi_ci zi1)\<lparr>ci_avail_out := of_nat Z_BUFSIZE, ci_next_out := 0\<rparr>\<rparr>"
    using assms True by (auto simp: make_room_def bind_Some_eq)
  note k = zip64FlushWriteBuffer_keeps(1) [OF 1(1)] and pos = zip64FlushWriteBuffer_keeps(2) [OF 1(1)]
  have same: "zi_disk_size zi1 = zi_disk_size zi" "length (ci_buffered_data (zi_ci zi1)) = length (ci_buffered_data (zi_ci zi))"
    using k by (simp_all add: keeps_def same_archive_def)
  have ok: "buffer_ok zi'" if "length (ci_buffered_data (zi_ci zi)) = Z_BUFSIZE"
    using pos same that by (simp add: 1(3) buffer_ok_def Let_def)
  show ?thesis
    using k ok unfolding 1(3) by (auto simp: keeps_def same_archive_def same_header_def buffer_ok_def Let_def)
next
  case False
  then show ?thesis using assms by (simp add: make_room_def)
qed

lemma length_buffer_write: "off + length bs \<le> length buf \<Longrightarrow> length (buffer_write buf off bs) = length buf"
  by (simp add: buffer_write_def)

lemma buffer_ok_fill:
  assumes "buffer_ok zi" "n \<le> unat (ci_avail_out (zi_ci zi))"
    and "ci_next_out ci = ci_next_out (zi_ci zi) + n" "ci_avail_out ci = ci_avail_out (zi_ci zi) - of_nat n"
    and "ci_pos_in_buffered_data ci = ci_pos_in_buffered_data (zi_ci zi) + of_nat n"
    and "length (ci_buffered_data ci) = length (ci_buffered_data (zi_ci zi))"
  shows "buffer_ok (zi\<lparr>zi_ci := ci\<rparr>)"
proof -
  have small: "unat (ci_avail_out (zi_ci zi)) \<le> Z_BUFSIZE" using assms(1) by (simp add: buffer_ok_def Let_def)
  then have n: "unat (of_nat n :: u32) = n" using assms(2) by (simp add: unat_of_nat)
  have a: "unat (ci_avail_out ci) = unat (ci_avail_out (zi_ci zi)) - n"
    using assms(2) n by (simp add: assms(4) unat_sub word_le_nat_alt)
  have p: "unat (ci_pos_in_buffered_data ci) = unat (ci_pos_in_buffered_data (zi_ci zi)) + n"
    if "unat (ci_pos_in_buffered_data (zi_ci zi)) \<le> ci_next_out (zi_ci zi)"
    using that assms(1,2) n unfolding assms(5) buffer_ok_def Let_def by (subst unat_add_lem [THEN iffD1]) auto
  show ?thesis using assms(1-3,6) a p by (auto simp: buffer_ok_def Let_def)
qed

lemma keeps_buffer: "keeps zi zi' \<Longrightarrow> buffer_ok zi \<Longrightarrow> buffer_ok zi'"
  by (simp add: keeps_def)

lemma run_deflate_keeps:
  assumes "deflate_ok zl" "buffer_ok zi" "run_deflate zl (zi_ci zi) input finish = (err, rest, ci)"
  shows "keeps zi (zi\<lparr>zi_ci := ci\<rparr>)"
proof -
  obtain e consumed out dt z where d:
    "zd_deflate zl (ci_zstate (zi_ci zi)) input (ci_avail_out (zi_ci zi)) finish = (e, consumed, out, dt, z)"
    by (metis prod_cases5)
  have n: "length out \<le> unat (ci_avail_out (zi_ci zi))"
    using assms(1) [unfolded deflate_ok_def, rule_format,
        where z = "ci_zstate (zi_ci zi)" and input = input and room = "ci_avail_out (zi_ci zi)" and finish = finish] d
    by simp
  have len: "length (buffer_write (ci_buffered_data (zi_ci zi)) (ci_next_out (zi_ci zi)) out) =
      length (ci_buffered_data (zi_ci zi))"
    by (rule length_buffer_write) (use assms(2) n in \<open>simp add: buffer_ok_def Let_def\<close>)
  have ci: "ci = snd (snd (run_deflate zl (zi_ci zi) input finish))" by (simp add: assms(3))
  show ?thesis
  proof (rule keeps_entry)
    show "buffer_ok (zi\<lparr>zi_ci := ci\<rparr>)"
      by (rule buffer_ok_fill [OF assms(2) n]) (simp_all add: ci run_deflate_def d len)
  qed (simp_all add: ci run_deflate_def d len same_header_def)
qed

lemma copy_stored_keeps:
  assumes "buffer_ok zi" "copy_stored (zi_ci zi) input = (rest, ci)"
  shows "keeps zi (zi\<lparr>zi_ci := ci\<rparr>)"
proof -
  define k :: u32 where "k = (if of_nat (length input) < ci_avail_out (zi_ci zi) then of_nat (length input) else ci_avail_out (zi_ci zi))"
  have k: "unat k \<le> unat (ci_avail_out (zi_ci zi))" by (auto simp: k_def word_less_nat_alt)
  have len: "length (buffer_write (ci_buffered_data (zi_ci zi)) (ci_next_out (zi_ci zi)) (take (unat k) input)) =
      length (ci_buffered_data (zi_ci zi))"
    by (rule length_buffer_write) (use assms(1) k in \<open>auto simp: buffer_ok_def Let_def min_def\<close>)
  have ci: "ci = snd (copy_stored (zi_ci zi) input)" by (simp add: assms(2))
  note copy = ci [unfolded copy_stored_def Let_def snd_conv, folded k_def]
  show ?thesis
  proof (rule keeps_entry)
    show "buffer_ok (zi\<lparr>zi_ci := ci\<rparr>)"
      by (rule buffer_ok_fill [OF assms(1) k]) (simp_all add: copy len)
  qed (simp_all add: copy len same_header_def)
qed

lemma write_loop_keeps:
  assumes "deflate_ok zl"
  shows "buffer_ok zi \<Longrightarrow> write_loop n zl zi input w = Some (err, zi', w') \<Longrightarrow> keeps zi zi'"
proof (induction n arbitrary: zi input w)
  case (Suc n)
  show ?case
  proof (cases "input = []")
    case True
    then show ?thesis using Suc.prems(2) by simp
  next
    case False
    then obtain e1 zi1 w1 where 1: "make_room (Suc n) ZIP_OK zi w = Some (e1, zi1, w1)"
      using Suc.prems(2) by (auto simp: bind_Some_eq)
    note k1 = make_room_keeps [OF 1]
    note b1 = keeps_buffer [OF k1 Suc.prems(1)]
    obtain e2 rest2 ci2 where d: "run_deflate zl (zi_ci zi1) input False = (e2, rest2, ci2)" by (metis prod_cases3)
    obtain rest3 ci3 where c: "copy_stored (zi_ci zi1) input = (rest3, ci3)" by (rule prod.exhaust)
    note kd = run_deflate_keeps [OF assms b1 d] and kc = copy_stored_keeps [OF b1 c]
    have rec: "keeps zi zi'" if "keeps zi1 zi2" "write_loop n zl zi2 rest w1 = Some (err, zi', w')" for zi2 rest
      using keeps_trans [OF keeps_trans [OF k1 that(1)] Suc.IH [OF keeps_buffer [OF that(1) b1] that(2)]] .
    show ?thesis
      using Suc.prems(2) False k1 rec [OF kd] rec [OF kc] keeps_trans [OF k1 kd]
      by (auto simp: 1 d c split: if_splits)
  qed
qed simp

lemma zipWriteInFileInZip_keeps:
  assumes "deflate_ok zl" "zi_in_opened_file_inzip zi \<Longrightarrow> buffer_ok zi"
    and "zipWriteInFileInZip n zl zi buf w = Some (err, zi', w')"
  shows "keeps zi zi'"
proof (cases "zi_in_opened_file_inzip zi")
  case True
  let ?zi = "zi\<lparr>zi_ci := (zi_ci zi)\<lparr>ci_crc32 := zl_crc32 zl (ci_crc32 (zi_ci zi)) buf\<rparr>\<rparr>"
  have k: "keeps zi ?zi" by (rule keeps_entry) (simp_all add: same_header_def buffer_ok_def Let_def)
  have "write_loop n zl ?zi buf w = Some (err, zi', w')"
    using assms(3) True by (simp add: zipWriteInFileInZip_def Let_def)
  from write_loop_keeps [OF assms(1) keeps_buffer [OF k assms(2) [OF True]] this] k show ?thesis by (rule keeps_trans [rotated])
next
  case False
  then show ?thesis using assms(3) by (simp add: zipWriteInFileInZip_def)
qed

lemma finish_loop_keeps:
  assumes "deflate_ok zl"
  shows "buffer_ok zi \<Longrightarrow> finish_loop n zl zi w = Some (err, zi', w') \<Longrightarrow> keeps zi zi'"
proof (induction n arbitrary: zi w)
  case (Suc n)
  obtain e1 zi1 w1 where 1: "make_room (Suc n) ZIP_OK zi w = Some (e1, zi1, w1)"
    using Suc.prems(2) by (auto simp: bind_Some_eq)
  note k1 = make_room_keeps [OF 1]
  note b1 = keeps_buffer [OF k1 Suc.prems(1)]
  obtain e2 rest2 ci2 where d: "run_deflate zl (zi_ci zi1) [] True = (e2, rest2, ci2)" by (metis prod_cases3)
  note kd = keeps_trans [OF k1 run_deflate_keeps [OF assms b1 d]]
  show ?case
  proof (cases "e2 = ZIP_OK")
    case True
    then have "finish_loop n zl (zi1\<lparr>zi_ci := ci2\<rparr>) w1 = Some (err, zi', w')" using Suc.prems(2) by (simp add: 1 d)
    from keeps_trans [OF kd Suc.IH [OF keeps_buffer [OF kd Suc.prems(1)] this]] show ?thesis .
  next
    case False
    then show ?thesis using Suc.prems(2) kd by (auto simp: 1 d)
  qed
qed simp

lemma finish_data_keeps:
  assumes "deflate_ok zl" "buffer_ok zi" "finish_data n zl zi w = Some (err, zi', w')"
  shows "keeps zi zi'"
proof -
  let ?deflated = "\<not> ci_raw (zi_ci zi) \<and> ci_compression_method (zi_ci zi) = 8"
  obtain e1 zi1 w1 where 1: "(if ?deflated then finish_loop n zl zi w else Some (ZIP_OK, zi, w)) = Some (e1, zi1, w1)"
    using assms(3) unfolding finish_data_def Let_def bind_eq_Some_conv by (auto split: if_splits)
  have k1: "keeps zi zi1" using 1 finish_loop_keeps [OF assms(1,2)] by (auto split: if_splits)
  let ?e = "if e1 = Z_STREAM_END then ZIP_OK else e1"
  let ?second = "if ci_pos_in_buffered_data (zi_ci zi1) > 0 \<and> ?e = ZIP_OK then
             do {
               (e, zi, w) \<leftarrow> zip64FlushWriteBuffer n zi1 w1;
               Some (if e = ZIP_ERRNO then ZIP_ERRNO else ?e, zi, w)
             }
           else Some (?e, zi1, w1)"
  obtain e2 zi2 w2 where 2: "?second = Some (e2, zi2, w2)"
    using assms(3) unfolding finish_data_def Let_def 1 by (auto simp: bind_Some_eq split: if_splits)
  have "keeps zi1 zi2"
    using 2 by (auto simp: bind_Some_eq split: if_splits dest: zip64FlushWriteBuffer_keeps(1))
  with k1 have k2: "keeps zi zi2" by (rule keeps_trans)
  have k3: "keeps zi2 (zi2\<lparr>zi_ci := (zi_ci zi2)\<lparr>ci_stream_initialised := 0\<rparr>\<rparr>)"
    by (rule keeps_entry) (simp_all add: same_header_def buffer_ok_def Let_def)
  have "zi' = zi2 \<or> zi' = zi2\<lparr>zi_ci := (zi_ci zi2)\<lparr>ci_stream_initialised := 0\<rparr>\<rparr>"
    using assms(3) unfolding finish_data_def Let_def 1 bind.bind_lunit prod.case 2 by (auto split: if_splits)
  with k2 keeps_trans [OF k2 k3] show ?thesis by auto
qed

subsection \<open>The central header\<close>

lemma header_parts_cong:
  "same_header ci ci' \<Longrightarrow> header_parts ci' fixed name extra free cmt = header_parts ci fixed name extra free cmt"
  by (simp add: same_header_def header_parts_def)

lemma header_ok_cong: "same_header ci ci' \<Longrightarrow> header_ok ci' = header_ok ci"
  by (simp add: header_ok_def header_parts_cong)

lemma file_number_overwritten:
  assumes "off + length bs \<le> length xs" "q + n \<le> off \<or> off + length bs \<le> q"
  shows "file_number (buffer_write xs off bs) q n = file_number xs q n"
proof -
  have "take n (drop q (buffer_write xs off bs)) = take n (drop q xs)"
    using assms by (auto simp: buffer_write_def drop_append take_append take_drop min_def)
  then show ?thesis by (simp add: file_number_def)
qed

text \<open>Numbers are put into the fixed part, away from the magic number and the lengths.\<close>

lemma put_header_fixed:
  assumes "header_parts ci fixed name extra free cmt" "4 \<le> off \<and> off + n \<le> 28 \<or> 34 \<le> off \<and> off + n \<le> 46"
  shows "\<exists>fixed. header_parts (put_header off x n ci) fixed name extra free cmt"
proof -
  note h = assms(1) [unfolded header_parts_def]
  let ?bs = "zip64local_putValue_inmemory x n"
  let ?fixed = "buffer_write fixed off ?bs"
  have off: "off + length ?bs \<le> length fixed" using assms(2) h by auto
  have "buffer_write (fixed @ R) off ?bs = ?fixed @ R" for R
    using off by (simp add: buffer_write_def)
  then have c: "ci_central_header (put_header off x n ci) = ?fixed @ name @ extra @ free @ cmt"
    using h by (simp add: put_header_def)
  have "length ?fixed = 46" using off h by (simp add: length_buffer_write)
  moreover have "file_number ?fixed 0 4 = file_number fixed 0 4" "file_number ?fixed 28 2 = file_number fixed 28 2"
    "file_number ?fixed 30 2 = file_number fixed 30 2" "file_number ?fixed 32 2 = file_number fixed 32 2"
    by (rule file_number_overwritten [OF off], use assms(2) in auto)+
  ultimately have "header_parts (put_header off x n ci) ?fixed name extra free cmt"
    using h c by (simp add: header_parts_def put_header_def)
  then show ?thesis by blast
qed

lemma update_central_header_parts:
  assumes "header_parts ci fixed name extra free cmt"
  shows "\<exists>fixed. header_parts (update_central_header crc c u ci) fixed name extra free cmt"
proof -
  let ?p = "\<lambda>ci. \<exists>fixed. header_parts ci fixed name extra free cmt"
  have put: "?p (put_header off x n ci)"
    if "?p ci" "4 \<le> off \<and> off + n \<le> 28 \<or> 34 \<le> off \<and> off + n \<le> 46" for ci :: "'a curfile64_info" and off x n
    using that put_header_fixed by blast
  have cond: "?p (if b then ci1 else ci2)" if "?p ci1" "?p ci2" for b and ci1 ci2 :: "'a curfile64_info"
    using that by simp
  have "?p ci" using assms by blast
  then show ?thesis unfolding update_central_header_def Let_def by (intro put cond) simp_all
qed

definition zip64_field :: "u64 \<Rightarrow> u64 \<Rightarrow> 'z curfile64_info \<Rightarrow> byte list" where
  "zip64_field compressed_size uncompressed_size ci =
     (let put = zip64local_putValue_inmemory in
      put 1 2 @ put (zip64_datasize compressed_size uncompressed_size ci) 2 @
      (if uncompressed_size \<ge> 0xffffffff then put uncompressed_size 8 else []) @
      (if compressed_size \<ge> 0xffffffff then put compressed_size 8 else []) @
      (if ci_pos_local_header ci \<ge> 0xffffffff then put (ci_pos_local_header ci) 8 else []))"

lemma zip64_datasize_le: "unat (zip64_datasize c u ci) \<le> 24"
  by (auto simp: zip64_datasize_def)

lemma length_zip64_field: "length (zip64_field c u ci) = unat (zip64_datasize c u ci) + 4"
  by (simp add: zip64_field_def zip64_datasize_def Let_def)

lemma put_header_into:
  "ci_central_header ci = A @ F @ D \<Longrightarrow> p = length A \<Longrightarrow> n \<le> length F \<Longrightarrow>
   put_header p x n ci = ci\<lparr>ci_central_header := (A @ zip64local_putValue_inmemory x n) @ drop n F @ D\<rparr>"
  by (simp add: put_header_def buffer_write_def)

definition field_at :: "'z curfile64_info \<Rightarrow> byte list \<Rightarrow> byte list \<Rightarrow> byte list \<Rightarrow> byte list \<Rightarrow> nat \<times> 'z curfile64_info \<Rightarrow> bool" where
  "field_at ci A F D bs st \<longleftrightarrow> st = (length A + length bs,
     ci\<lparr>ci_central_header := A @ bs @ drop (length bs) F @ D\<rparr>) \<and> length bs \<le> length F"

lemma field_at_put:
  assumes "field_at ci A F D bs (p, ci1)" "length bs + n \<le> length F"
  shows "field_at ci A F D (bs @ zip64local_putValue_inmemory x n) (p + n, put_header p x n ci1)"
proof -
  have "put_header p x n ci1 =
      ci1\<lparr>ci_central_header := ((A @ bs) @ zip64local_putValue_inmemory x n) @ drop n (drop (length bs) F) @ D\<rparr>"
    by (rule put_header_into) (use assms in \<open>auto simp: field_at_def\<close>)
  then show ?thesis using assms by (simp add: field_at_def add.commute [of n])
qed

definition put_if :: "bool \<Rightarrow> u64 \<Rightarrow> nat \<Rightarrow> nat \<times> 'z curfile64_info \<Rightarrow> nat \<times> 'z curfile64_info" where
  "put_if b x n st = (if b then (fst st + n, put_header (fst st) x n (snd st)) else st)"

lemma put_if_pair: "(if b then (p + n, put_header p x n ci) else (p, ci)) = put_if b x n (p, ci)"
  by (simp add: put_if_def)

lemma ci_pos_put_if: "ci_pos_local_header (snd (put_if b x n st)) = ci_pos_local_header (snd st)"
  by (simp add: put_if_def put_header_def)

lemma field_at_put_if:
  assumes "field_at ci A F D bs st" "length bs + n \<le> length F"
  shows "field_at ci A F D (bs @ (if b then zip64local_putValue_inmemory x n else [])) (put_if b x n st)"
  using assms field_at_put [of ci A F D bs "fst st" "snd st" n x] by (simp add: put_if_def)

lemma add_zip64_field_parts:
  assumes "header_parts ci fixed name extra free cmt" "length free = 32" "length extra + 28 < 0x10000"
  shows "\<exists>fixed. header_parts (add_zip64_field c u ci) fixed name (extra @ zip64_field c u ci)
    (drop (length (zip64_field c u ci)) free) cmt"
proof -
  note h = assms(1) [unfolded header_parts_def]
  let ?put = zip64local_putValue_inmemory and ?q = "ci_pos_local_header ci"
  let ?A = "fixed @ name @ extra" and ?d = "zip64_datasize c u ci" and ?f = "zip64_field c u ci"
  let ?at = "field_at ci ?A free cmt"
  define st where "st = put_if (?q \<ge> 0xffffffff) ?q 8 (put_if (c \<ge> 0xffffffff) c 8 (put_if (u \<ge> 0xffffffff) u 8
    (length ?A + 4, put_header (length ?A + 2) ?d 2 (put_header (length ?A) 1 2 ci))))"
  have "?at [] (length ?A, ci)" using h by (simp add: field_at_def)
  from field_at_put [OF this, of 2 1] have "?at (?put 1 2) (length ?A + 2, put_header (length ?A) 1 2 ci)"
    using assms(2) by simp
  from field_at_put [OF this, of 2 ?d]
  have 2: "?at (?put 1 2 @ ?put ?d 2) (length ?A + 4, put_header (length ?A + 2) ?d 2 (put_header (length ?A) 1 2 ci))"
    using assms(2) by (simp add: numeral_eq_Suc)
  note 3 = field_at_put_if [OF 2, where n = 8 and b = "u \<ge> 0xffffffff" and x = u]
  note 4 = field_at_put_if [OF 3, where n = 8 and b = "c \<ge> 0xffffffff" and x = c]
  note 5 = field_at_put_if [OF 4, where n = 8 and b = "?q \<ge> 0xffffffff" and x = ?q]
  have "?at ?f st"
    using 5 assms(2) unfolding st_def zip64_field_def Let_def by simp
  then have st: "snd st = ci\<lparr>ci_central_header := ?A @ ?f @ drop (length ?f) free @ cmt\<rparr>"
    by (simp add: field_at_def)
  have p: "unat (ci_size_centralheader ci) = length ?A" using h unat_u64_of_nat [of "length ?A"] by (simp add: ac_simps)
  let ?ci = "(snd st)\<lparr>ci_size_centralextrafree := ci_size_centralextrafree (snd st) - (?d + 4),
      ci_size_centralheader := ci_size_centralheader (snd st) + (?d + 4),
      ci_size_centralextra := ci_size_centralextra (snd st) + (?d + 4)\<rparr>"
  have pos: "ci_pos_local_header (put_header off x n ci) = ci_pos_local_header ci"
    for off x n and ci :: "'a curfile64_info" by (simp add: put_header_def)
  have eq: "add_zip64_field c u ci = put_header 30 (ci_size_centralextra ?ci) 2 ?ci"
    unfolding add_zip64_field_def Let_def p put_if_pair prod.case split_beta prod.collapse ci_pos_put_if fst_conv snd_conv pos st_def ..
  have k: "length ?f = unat ?d + 4" "unat ?d \<le> 24" by (rule length_zip64_field, rule zip64_datasize_le)
  have d4: "?d + 4 = of_nat (length ?f)" using k by (simp add: word_unat_eq_iff unat_word_ariths(1))
  have free: "of_nat (length free) - of_nat (length ?f) = (of_nat (length free - length ?f) :: u64)"
    using k assms(2) by (simp add: of_nat_diff)
  have x: "ci_size_centralextra ?ci = of_nat (length (extra @ ?f))" using h by (simp add: st d4)
  let ?bs = "?put (of_nat (length (extra @ ?f))) 2"
  let ?fixed = "buffer_write fixed 30 ?bs"
  have off: "30 + length ?bs \<le> length fixed" using h by simp
  have c: "ci_central_header (add_zip64_field c u ci) = ?fixed @ name @ (extra @ ?f) @ drop (length ?f) free @ cmt"
    unfolding eq x using off by (simp add: put_header_def st buffer_write_def)
  have s: "ci_size_centralheader (add_zip64_field c u ci) = ci_size_centralheader ci + of_nat (length ?f)"
    "ci_size_centralextra (add_zip64_field c u ci) = ci_size_centralextra ci + of_nat (length ?f)"
    "ci_size_centralextrafree (add_zip64_field c u ci) = ci_size_centralextrafree ci - of_nat (length ?f)"
    "ci_size_comment (add_zip64_field c u ci) = ci_size_comment ci"
    unfolding eq d4 put_header_def st by simp_all
  have sizes: "ci_size_centralheader (add_zip64_field c u ci) = of_nat (46 + length name + length (extra @ ?f))"
    "ci_size_centralextra (add_zip64_field c u ci) = of_nat (length (extra @ ?f))"
    "ci_size_centralextrafree (add_zip64_field c u ci) = of_nat (length (drop (length ?f) free))"
    "ci_size_comment (add_zip64_field c u ci) = of_nat (length cmt)"
    by (simp_all only: s h length_append length_drop of_nat_add free add.assoc)
  have "file_number ?fixed 0 4 = file_number fixed 0 4" "file_number ?fixed 28 2 = file_number fixed 28 2"
    "file_number ?fixed 32 2 = file_number fixed 32 2" "length ?fixed = 46"
    using file_number_overwritten [OF off] length_buffer_write [OF off] h by simp_all
  moreover have "file_number ?fixed 30 2 = of_nat (length (extra @ ?f))"
    using h k assms(3) unat_u64_of_nat [of "length (extra @ ?f)"]
    by (simp add: file_number_def buffer_write_def le_word_putValue_less)
  ultimately have "header_parts (add_zip64_field c u ci) ?fixed name (extra @ ?f) (drop (length ?f) free) cmt"
    using h c sizes k assms(2,3) unfolding header_parts_def by simp
  then show ?thesis by blast
qed

lemma restore_comment_record:
  assumes "header_parts ci fixed name extra free cmt"
  shows "central_record_ok (take (unat (ci_size_centralheader (restore_comment ci))) (ci_central_header (restore_comment ci)))"
proof -
  note h = assms [unfolded header_parts_def]
  let ?n = "46 + length name + length extra"
  have n: "unat (ci_size_centralheader ci) = ?n" "unat (ci_size_comment ci) = length cmt"
    "unat (ci_size_centralextrafree ci) = length free"
    "unat (ci_size_centralheader ci + ci_size_comment ci) = ?n + length cmt"
    using h unat_u64_of_nat [of ?n] unat_u64_of_nat [of "length cmt"] unat_u64_of_nat [of "length free"]
      unat_u64_of_nat [of "?n + length cmt"] by (simp_all add: ac_simps)
  have len: "length (fixed @ name @ extra) = ?n" and hdr: "ci_central_header ci = (fixed @ name @ extra) @ free @ cmt"
    using h by simp_all
  let ?A = "fixed @ name @ extra"
  have "buffer_write (?A @ free @ cmt) ?n cmt = ?A @ cmt @ drop (length cmt) (free @ cmt)"
    using len by (simp add: buffer_write_def)
  then have c: "take (unat (ci_size_centralheader (restore_comment ci))) (ci_central_header (restore_comment ci)) = ?A @ cmt"
    using len hdr unfolding restore_comment_def Let_def n by (simp add: n)
  have f: "file_number ((fixed @ R) :: byte list) q k = file_number fixed q k" if "q + k \<le> 46" for R q k
    using that h by (simp add: file_number_def)
  have "length (?A @ cmt) = 46 + unat (file_number (?A @ cmt) 28 2) + unat (file_number (?A @ cmt) 30 2) +
      unat (file_number (?A @ cmt) 32 2)" "file_number (?A @ cmt) 0 4 = CENTRALHEADERMAGIC"
    using h by (simp_all add: f unat_u64_of_nat)
  then show ?thesis by (simp only: c central_record_ok_def)
qed

lemma update_central_header_data:
  "ci_buffered_data (update_central_header crc c u ci) = ci_buffered_data ci"
  by (simp add: update_central_header_def put_header_def Let_def)

lemma add_zip64_field_data:
  "ci_buffered_data (add_zip64_field c u ci) = ci_buffered_data ci"
  by (simp add: add_zip64_field_def put_header_def Let_def split_beta)

lemma goto_if_moved:
  "(if b then zipGoToSpecificDisk zi k e w else Some (err0, zi, w0)) = Some (err, zi', w') \<Longrightarrow> moved zi zi'"
  by (auto split: if_splits dest: zipGoToSpecificDisk_moved)

lemma update_local_header_moved:
  assumes "update_local_header zi crc c u w = Some (err, zi', w')"
  shows "moved zi zi'"
proof -
  obtain cur w1 where 1: "call_ztell64 (zi_z_filefunc zi) (zi_filestream zi) w = Some (cur, w1)"
    using assms unfolding update_local_header_def Let_def bind_eq_Some_conv by auto
  let ?ci = "zi_ci zi"
  obtain e2 zi2 w2 where 2: "(if ci_number_disk ?ci \<noteq> zi_number_disk zi
      then zipGoToSpecificDisk zi (int_of_uLong (ci_number_disk ?ci)) True w1 else Some (ZIP_OK, zi, w1)) = Some (e2, zi2, w2)"
    using assms unfolding update_local_header_def Let_def 1 bind.bind_lunit prod.case bind_eq_Some_conv by fast
  obtain e3 w3 where 3: "call_zseek64 (zi_z_filefunc zi2) (zi_filestream zi2) (ci_pos_local_header ?ci + 14)
      ZLIB_FILEFUNC_SEEK_SET w2 = Some (e3, w3)"
    using assms unfolding update_local_header_def Let_def 1 2 bind.bind_lunit prod.case bind_eq_Some_conv by fast
  obtain e4 w4 where 4: "put_next (zi_z_filefunc zi2) (zi_filestream zi2) crc 4 (if e3 \<noteq> 0 then ZIP_ERRNO else e2, w3) = (e4, w4)"
    by (rule prod.exhaust)
  have "\<exists>e5 w5 e6 w6. (if ci_number_disk ?ci \<noteq> zi_number_disk zi
      then zipGoToSpecificDisk zi2 (int_of_uLong (zi_number_disk zi)) True w5 else Some (e5, zi2, w5)) = Some (e6, zi', w6)"
    using assms unfolding update_local_header_def Let_def 1 2 3 4 bind.bind_lunit prod.case bind_eq_Some_conv
    by (simp only: split_paired_Ex prod.case bind_eq_Some_conv) blast
  then obtain e5 w5 e6 w6 where 5: "(if ci_number_disk ?ci \<noteq> zi_number_disk zi
      then zipGoToSpecificDisk zi2 (int_of_uLong (zi_number_disk zi)) True w5 else Some (e5, zi2, w5)) = Some (e6, zi', w6)"
    by blast
  show ?thesis using goto_if_moved [OF 2] goto_if_moved [OF 5] by (rule moved_trans)
qed

text \<open>
  Closing an entry: whatever goes wrong, at most one well-formed record is appended to the directory, and
  one entry is counted. The error of a header without room for the zip64 field cannot happen.
\<close>

lemma zipCloseFileInZipRaw64_ok:
  assumes "deflate_ok zl" "writer_ok zi" "zi_in_opened_file_inzip zi"
    and "zipCloseFileInZipRaw64 n zl zi u crc w = Some (err, zi', w')"
  shows "writer_ok zi'" "same_archive zi zi'" "\<not> zi_in_opened_file_inzip zi'"
    and "zi_number_entry zi' = zi_number_entry zi + 1"
    and "\<exists>recs. length recs \<le> 1 \<and> (\<forall>r \<in> set recs. central_record_ok r) \<and> (err = ZIP_OK \<longrightarrow> length recs = 1) \<and>
      blocks_bytes (zi_central_dir zi') = blocks_bytes (zi_central_dir zi) @ concat recs"
proof -
  have start: "buffer_ok zi" "header_ok (zi_ci zi)" "blocks_ok (zi_central_dir zi)"
    using assms(2,3) by (simp_all add: writer_ok_def)
  obtain e1 zi1 w1 where 1: "finish_data n zl zi w = Some (e1, zi1, w1)"
    using assms(3,4) by (auto simp: zipCloseFileInZipRaw64_def bind_Some_eq)
  note k1 = finish_data_keeps [OF assms(1) start(1) 1]
  define ci where "ci = zi_ci zi1"
  define crc1 where "crc1 = (if ci_raw ci then crc else ci_crc32 ci)"
  define u1 where "u1 = (if ci_raw ci then u else ci_total_uncompressed ci)"
  define c1 where "c1 = ci_total_compressed ci + ci_crypt_header_size ci"
  define ci2 where "ci2 = update_central_header crc1 c1 u1 ci"
  define datasize where "datasize = zip64_datasize c1 u1 ci2"
  have "header_ok ci"
    using k1 start(2) header_ok_cong by (auto simp: ci_def keeps_def)
  then obtain fixed name extra free cmt where h: "header_parts ci fixed name extra free cmt"
    "length extra + 28 < 0x10000" "length free = 32" by (auto simp: header_ok_def)
  obtain fixed2 where h2: "header_parts ci2 fixed2 name extra free cmt"
    using update_central_header_parts [OF h(1)] unfolding ci2_def by blast
  have room: "(datasize > 0 \<and> datasize + 4 > ci_size_centralextrafree ci2) = False"
  proof -
    have "ci_size_centralextrafree ci2 = 32" using h2 h(3) by (simp add: header_parts_def)
    moreover have "unat (datasize + 4) \<le> 28"
      using zip64_datasize_le [of c1 u1 ci2] by (simp add: datasize_def unat_word_ariths(1))
    ultimately show ?thesis by (simp add: word_less_nat_alt)
  qed
  define ci3 where "ci3 = restore_comment (if datasize > 0 then add_zip64_field c1 u1 ci2 else ci2)"
  define r where "r = take (unat (ci_size_centralheader ci3)) (ci_central_header ci3)"
  have r: "central_record_ok r"
    using restore_comment_record [OF h2] add_zip64_field_parts [OF h2 h(3,2)]
    by (auto simp: r_def ci3_def intro: restore_comment_record)
  obtain e2 dir where 2: "(if e1 = ZIP_OK then add_data_in_datablock (zi_central_dir zi1) r else (e1, zi_central_dir zi1)) =
      (e2, dir)" by (rule prod.exhaust)
  let ?zi2 = "zi1\<lparr>zi_ci := ci3, zi_central_dir := dir\<rparr>"
  have rec: "zi_central_dir (zi1\<lparr>zi_ci := ci2\<rparr>) = zi_central_dir zi1"
    "zi1\<lparr>zi_ci := ci2, zi_ci := ci3, zi_central_dir := dir\<rparr> = ?zi2" by simp_all
  obtain e3 zi3 w3 where 3: "(if e2 = ZIP_OK then update_local_header ?zi2 crc1 c1 u1 w1 else Some (e2, ?zi2, w1)) = Some (e3, zi3, w3)"
    "err = e3" "zi' = zi3\<lparr>zi_number_entry := zi_number_entry zi3 + 1, zi_in_opened_file_inzip := False\<rparr>"
    using assms(3,4)
    unfolding zipCloseFileInZipRaw64_def 1 bind.bind_lunit prod.case ci_def [symmetric] crc1_def [symmetric] u1_def [symmetric]
      c1_def [symmetric] ci2_def [symmetric] datasize_def [symmetric] Let_def
      room if_False ci3_def [symmetric] r_def [symmetric] rec 2 prod.case
    by (auto simp: bind_Some_eq)
  have m: "moved ?zi2 zi3" using 3(1) by (auto split: if_splits dest: update_local_header_moved)
  have dir: "blocks_ok dir" "\<exists>recs. length recs \<le> 1 \<and> (\<forall>r \<in> set recs. central_record_ok r) \<and> (e2 = ZIP_OK \<longrightarrow> length recs = 1) \<and>
      blocks_bytes dir = blocks_bytes (zi_central_dir zi) @ concat recs"
  proof -
    have same: "zi_central_dir zi1 = zi_central_dir zi" using k1 by (simp add: keeps_def)
    have "blocks_ok dir \<and> blocks_bytes dir = blocks_bytes (zi_central_dir zi) @ concat (if e2 = ZIP_OK then [r] else [])"
      using 2 add_data_ok [OF start(3), of r] start(3) same by (auto split: if_splits)
    then show "blocks_ok dir" "\<exists>recs. length recs \<le> 1 \<and> (\<forall>r \<in> set recs. central_record_ok r) \<and> (e2 = ZIP_OK \<longrightarrow> length recs = 1) \<and>
      blocks_bytes dir = blocks_bytes (zi_central_dir zi) @ concat recs"
      using r by (simp, intro exI [of _ "if e2 = ZIP_OK then [r] else []"]) simp
  qed
  have e: "err = ZIP_OK \<Longrightarrow> e2 = ZIP_OK" using 3(1,2) by (auto split: if_splits)
  have data: "length (ci_buffered_data ci3) = Z_BUFSIZE"
    using k1 assms(2)
    by (simp add: ci3_def ci2_def ci_def restore_comment_def Let_def update_central_header_data add_zip64_field_data
        keeps_def writer_ok_def)
  have "zi_number_entry zi3 = zi_number_entry zi1" "zi_ci zi3 = ci3" "zi_central_dir zi3 = dir"
    using moved_fields [OF m] by simp_all
  moreover have "same_archive zi zi3"
    using k1 moved_fields(6) [OF m] by (auto simp: keeps_def same_archive_def)
  moreover have "zi_number_entry zi1 = zi_number_entry zi" using k1 by (simp add: keeps_def)
  ultimately show "writer_ok zi'" "same_archive zi zi'" "\<not> zi_in_opened_file_inzip zi'"
    "zi_number_entry zi' = zi_number_entry zi + 1"
    "\<exists>recs. length recs \<le> 1 \<and> (\<forall>r \<in> set recs. central_record_ok r) \<and> (err = ZIP_OK \<longrightarrow> length recs = 1) \<and>
      blocks_bytes (zi_central_dir zi') = blocks_bytes (zi_central_dir zi) @ concat recs"
    using dir data e by (auto simp: 3(3) writer_ok_def same_archive_def)
qed

text \<open>
  What happens to the directory while entries are closed, whose outcomes are \<open>closed\<close>: each adds to the number of entries,
  and has a well-formed record if it succeeded. An entry whose closing failed may have one, too.
\<close>

definition record_bytes :: "byte list option \<Rightarrow> byte list" where
  "record_bytes r = (case r of None \<Rightarrow> [] | Some r \<Rightarrow> r)"

definition grows :: "bool list \<Rightarrow> ('w, 'z) zip64_internal \<Rightarrow> ('w, 'z) zip64_internal \<Rightarrow> bool" where
  "grows closed zi zi' \<longleftrightarrow> (\<exists>recs. list_all2 (\<lambda>ok r. ok \<longrightarrow> r \<noteq> None) closed recs \<and>
     (\<forall>r. Some r \<in> set recs \<longrightarrow> central_record_ok r) \<and>
     blocks_bytes (zi_central_dir zi') = blocks_bytes (zi_central_dir zi) @ concat (map record_bytes recs) \<and>
     zi_number_entry zi' = zi_number_entry zi + of_nat (length closed))"

lemma grows_refl: "zi_central_dir zi' = zi_central_dir zi \<Longrightarrow> zi_number_entry zi' = zi_number_entry zi \<Longrightarrow> grows [] zi zi'"
  unfolding grows_def by (rule exI [of _ "[]"]) simp

lemma grows_trans:
  assumes "grows closed1 zi zi1" "grows closed2 zi1 zi2"
  shows "grows (closed1 @ closed2) zi zi2"
proof -
  obtain recs1 where 1: "list_all2 (\<lambda>ok r. ok \<longrightarrow> r \<noteq> None) closed1 recs1" "\<forall>r. Some r \<in> set recs1 \<longrightarrow> central_record_ok r"
    "blocks_bytes (zi_central_dir zi1) = blocks_bytes (zi_central_dir zi) @ concat (map record_bytes recs1)"
    "zi_number_entry zi1 = zi_number_entry zi + of_nat (length closed1)" using assms(1) unfolding grows_def by blast
  obtain recs2 where 2: "list_all2 (\<lambda>ok r. ok \<longrightarrow> r \<noteq> None) closed2 recs2" "\<forall>r. Some r \<in> set recs2 \<longrightarrow> central_record_ok r"
    "blocks_bytes (zi_central_dir zi2) = blocks_bytes (zi_central_dir zi1) @ concat (map record_bytes recs2)"
    "zi_number_entry zi2 = zi_number_entry zi1 + of_nat (length closed2)" using assms(2) unfolding grows_def by blast
  show ?thesis
    unfolding grows_def using 1 2 by (intro exI [of _ "recs1 @ recs2"]) (auto intro: list_all2_appendI)
qed

text \<open>The outcomes of closing an entry, and of opening one, which closes the entry that is open first.\<close>

definition close_outcome :: "('w, 'z) zip64_internal \<Rightarrow> int \<Rightarrow> bool list" where
  "close_outcome zi err = (if zi_in_opened_file_inzip zi then [err = ZIP_OK] else [])"

definition entry_outcome ::
  "nat \<Rightarrow> 'z zip_zlib_fns \<Rightarrow> ('w, 'z) zip64_internal \<Rightarrow> new_file_args \<Rightarrow> 'w \<Rightarrow> bool list" where
  "entry_outcome n zl zi a w =
     (if na_method a \<noteq> 0 \<and> na_method a \<noteq> 8 then []
      else case zipCloseFileInZip n zl zi w of None \<Rightarrow> [] | Some (err, _) \<Rightarrow> close_outcome zi err)"

lemma zipCloseFileInZipRaw64_grows:
  assumes "deflate_ok zl" "writer_ok zi" "zipCloseFileInZipRaw64 n zl zi u crc w = Some (err, zi', w')"
  shows "writer_ok zi'" "same_archive zi zi'" "grows (close_outcome zi err) zi zi'" "\<not> zi_in_opened_file_inzip zi'"
proof -
  have "writer_ok zi' \<and> same_archive zi zi' \<and> grows (close_outcome zi err) zi zi' \<and> \<not> zi_in_opened_file_inzip zi'"
  proof (cases "zi_in_opened_file_inzip zi")
    case True
    note c = zipCloseFileInZipRaw64_ok [OF assms(1,2) True assms(3)]
    obtain recs where recs: "length recs \<le> 1" "\<forall>r \<in> set recs. central_record_ok r" "err = ZIP_OK \<longrightarrow> length recs = 1"
      "blocks_bytes (zi_central_dir zi') = blocks_bytes (zi_central_dir zi) @ concat recs" using c(5) by blast
    then have "grows [err = ZIP_OK] zi zi'"
      using c(4) unfolding grows_def
      by (cases recs) (auto simp: record_bytes_def intro: exI [of _ "[None]"] exI [of _ "[Some (hd recs)]"])
    with c(1-3) True show ?thesis by (simp add: close_outcome_def)
  next
    case False
    then show ?thesis using assms(2,3) by (auto simp: zipCloseFileInZipRaw64_def close_outcome_def intro: grows_refl)
  qed
  then show "writer_ok zi'" "same_archive zi zi'" "grows (close_outcome zi err) zi zi'" "\<not> zi_in_opened_file_inzip zi'" by simp_all
qed

subsection \<open>A new entry\<close>

text \<open>What the format has room for: names, extra fields (with the zip64 field) and comments of less than 65536 bytes.\<close>

definition entry_args_ok :: "new_file_args \<Rightarrow> bool" where
  "entry_args_ok a \<longleftrightarrow> length (entry_filename a) < 0x10000 \<and> length (na_extrafield_global a) + 28 < 0x10000 \<and>
     length (entry_comment a) < 0x10000"

lemma find_disk_moved:
  assumes "find_disk n zi sf se w = Some (zi', w')"
  shows "moved zi zi'"
  using assms by (auto simp: find_disk_def Let_def bind_Some_eq split: if_splits dest: zipGoToNextDisk_moved)

lemma write_zip64_field_keeps:
  assumes "write_zip64_field zi err w = Some (err', zi', w')"
  shows "keeps zi zi'" "ci_pos_in_buffered_data (zi_ci zi') = ci_pos_in_buffered_data (zi_ci zi)"
proof -
  obtain pos where zi': "zi' = zi \<or> zi' = zi\<lparr>zi_ci := (zi_ci zi)\<lparr>ci_pos_zip64extrainfo := pos\<rparr>\<rparr>"
    using assms by (auto simp: write_zip64_field_def Let_def bind_Some_eq split_beta split: if_splits)
  have "keeps zi (zi\<lparr>zi_ci := (zi_ci zi)\<lparr>ci_pos_zip64extrainfo := pos\<rparr>\<rparr>)"
    by (rule keeps_entry) (simp_all add: same_header_def buffer_ok_def Let_def)
  with zi' show "keeps zi zi'" "ci_pos_in_buffered_data (zi_ci zi') = ci_pos_in_buffered_data (zi_ci zi)" by auto
qed

lemma start_crypt_keeps:
  assumes "start_crypt zl rnd a zi err w = Some (err', zi', w')"
  shows "keeps zi zi'"
proof -
  obtain ci where ci: "zi' = zi\<lparr>zi_ci := ci\<rparr>" "same_header (zi_ci zi) ci"
    "ci_buffered_data ci = ci_buffered_data (zi_ci zi)" "ci_next_out ci = ci_next_out (zi_ci zi)"
    "ci_avail_out ci = ci_avail_out (zi_ci zi)" "ci_pos_in_buffered_data ci = ci_pos_in_buffered_data (zi_ci zi)"
    using assms
    by (auto simp: start_crypt_def Let_def same_header_def split: if_splits option.splits prod.splits)
  show ?thesis unfolding ci(1) by (rule keeps_entry) (use ci in \<open>simp_all add: buffer_ok_def Let_def\<close>)
qed

lemma start_stream_buffer:
  assumes "start_stream zl a err ci = (err', ci')"
  shows "same_header ci ci'" "ci_buffered_data ci' = ci_buffered_data ci" "ci_avail_out ci' = of_nat Z_BUFSIZE"
    "ci_next_out ci' = 0" "ci_pos_in_buffered_data ci' = ci_pos_in_buffered_data ci"
  using assms by (auto simp: start_stream_def Let_def same_header_def split: if_splits prod.splits)

lemma start_central_header_ok:
  assumes "entry_args_ok a" "sf = of_nat (length (entry_filename a))" "sc = of_nat (length (entry_comment a))"
  shows "header_ok (start_central_header a sf sc zi)"
    "ci_buffered_data (start_central_header a sf sc zi) = ci_buffered_data (zi_ci zi)"
    "ci_pos_in_buffered_data (start_central_header a sf sc zi) = ci_pos_in_buffered_data (zi_ci zi)"
proof -
  note l = assms(1) [unfolded entry_args_ok_def]
  let ?sg = "of_nat (length (na_extrafield_global a)) :: u32"
  have len: "unat sf = length (entry_filename a)" "unat sc = length (entry_comment a)"
    "ucast sf = (of_nat (length (entry_filename a)) :: u64)" "ucast sc = (of_nat (length (entry_comment a)) :: u64)"
    "ucast ?sg = (of_nat (length (na_extrafield_global a)) :: u64)"
    using l by (simp_all add: assms(2,3) unat_length_u32 ucast_length_u32)
  have all: "ucast (0x2e + sf + ?sg) = (of_nat (46 + length (entry_filename a) + length (na_extrafield_global a)) :: u64)"
    using l ucast_u32_of_nat [of "46 + length (entry_filename a) + length (na_extrafield_global a)"] by (simp add: assms(2))
  have kept: "le_word (zip64local_putValue_inmemory (of_nat (length xs)) 2) = (of_nat (length xs) :: u64)" if "length xs < 0x10000"
    for xs :: "byte list" using that by (intro le_word_putValue_less) (simp_all add: unat_u64_of_nat)
  let ?ci = "start_central_header a sf sc zi"
  define ci where "ci = (zi_ci zi)\<lparr>ci_size_comment := ucast sc, ci_size_centralheader := ucast (0x2e + sf + ?sg),
    ci_size_centralextra := ucast ?sg, ci_size_centralextrafree := 32, ci_number_disk := zi_number_disk zi\<rparr>"
  let ?fixed = "central_header_fixed a sf ?sg sc (zi_add_position_when_writting_offset zi) ci"
  have "header_parts ?ci ?fixed (entry_filename a) (na_extrafield_global a) (replicate 32 0) (entry_comment a)"
    unfolding header_parts_def
    using l kept [of "entry_filename a"] kept [of "na_extrafield_global a"] kept [of "entry_comment a"]
    by (simp add: start_central_header_def Let_def ci_def len all central_header_fixed_def file_number_def le_word_putValue_less)
  then show "header_ok ?ci" using l unfolding header_ok_def by (intro exI conjI) (assumption, simp_all)
  show "ci_buffered_data ?ci = ci_buffered_data (zi_ci zi)"
    "ci_pos_in_buffered_data ?ci = ci_pos_in_buffered_data (zi_ci zi)"
    by (simp_all add: start_central_header_def Let_def)
qed

lemma zipOpenNewFileInZip4_64_grows:
  assumes "deflate_ok zl" "writer_ok zi" "entry_args_ok a"
    and "zipOpenNewFileInZip4_64 n zl rnd zi a w = Some (err, zi', w')"
  shows "writer_ok zi' \<and> same_archive zi zi' \<and> grows (entry_outcome n zl zi a w) zi zi'"
proof (cases "na_method a \<noteq> 0 \<and> na_method a \<noteq> 8")
  case True
  then show ?thesis using assms(2,4) by (auto simp: zipOpenNewFileInZip4_64_def entry_outcome_def intro: grows_refl)
next
  case False
  note unf = zipOpenNewFileInZip4_64_def Let_def if_not_P [OF False]
  obtain err0 zi0 w0 where 0: "(if zi_in_opened_file_inzip zi then zipCloseFileInZip n zl zi w else Some (ZIP_OK, zi, w)) =
      Some (err0, zi0, w0)"
    using assms(4) unfolding unf bind_eq_Some_conv by auto
  have outcome: "entry_outcome n zl zi a w = close_outcome zi err0"
    using 0 False by (auto simp: entry_outcome_def close_outcome_def split: if_splits option.splits)
  have ok0: "writer_ok zi0" "same_archive zi zi0" "grows (entry_outcome n zl zi a w) zi zi0" "\<not> zi_in_opened_file_inzip zi0"
    using 0 assms(2) zipCloseFileInZipRaw64_grows [OF assms(1,2), of n 0 0 w err0 zi0 w0] unfolding outcome
    by (auto simp: zipCloseFileInZip_def zipCloseFileInZipRaw_def close_outcome_def intro: grows_refl split: if_splits)
  show ?thesis
  proof (cases "err0 = ZIP_OK")
    case err: False
    then show ?thesis using assms(4) ok0 unfolding unf 0 by auto
  next
    case True
    note unf = unf 0 True bind.bind_lunit prod.case not_True_eq_False if_False simp_thms
    let ?sf = "of_nat (length (entry_filename a)) :: u32" and ?sc = "of_nat (length (entry_comment a)) :: u32"
    let ?zi1 = "zi0\<lparr>zi_ci := start_entry a (zi_ci zi0)\<rparr>"
    obtain zi2 w2 where 2: "find_disk n ?zi1 ?sf (of_nat (length (na_extrafield_local a))) w0 = Some (zi2, w2)"
      using assms(4) unfolding unf bind_eq_Some_conv by auto
    note m2 = moved_fields [OF find_disk_moved [OF 2]]
    obtain pos w3 where 3: "call_ztell64 (zi_z_filefunc zi2) (zi_filestream zi2) w2 = Some (pos, w3)"
      using assms(4) unfolding unf 2 bind_eq_Some_conv by auto
    let ?zi3 = "zi2\<lparr>zi_ci := (zi_ci zi2)\<lparr>ci_pos_local_header := pos\<rparr>\<rparr>"
    let ?zi4 = "?zi3\<lparr>zi_ci := start_central_header a ?sf ?sc ?zi3\<rparr>"
    obtain e4 w4 where 4: "write_local_header a ?sf (zi_z_filefunc ?zi4) (zi_filestream ?zi4) (zi_ci ?zi4) w3 = (e4, w4)"
      by (rule prod.exhaust)
    have room: "\<not> 46 + unat ?sf + length (na_extrafield_global a) \<ge> 2 ^ 32"
      using assms(3) by (simp add: entry_args_ok_def unat_length_u32)
    obtain e5 zi5 w5 where 5: "write_zip64_field ?zi4 e4 w4 = Some (e5, zi5, w5)"
      using assms(4) unfolding unf 2 3 if_not_P [OF room] 4 bind_eq_Some_conv by auto
    obtain e6 ci6 where 6: "start_stream zl a e5 (zi_ci zi5) = (e6, ci6)" by (rule prod.exhaust)
    obtain e7 zi7 w7 where 7: "start_crypt zl rnd a (zi5\<lparr>zi_ci := ci6\<rparr>) e6 w5 = Some (e7, zi7, w7)"
      using assms(4) unfolding unf 2 3 if_not_P [OF room] 4 5 6 bind_eq_Some_conv by auto
    have zi': "err = e7" "zi' = (if e7 = Z_OK then zi7\<lparr>zi_in_opened_file_inzip := True\<rparr> else zi7)"
      using assms(4) unfolding unf 2 3 if_not_P [OF room] 4 5 6 7 by (auto split: if_splits)
    note s = start_stream_buffer [OF 6] and k5 = write_zip64_field_keeps [OF 5]
    note k7 = start_crypt_keeps [OF 7]
    note h = start_central_header_ok [OF assms(3) refl refl, of ?zi3]
    have z5: "same_archive zi0 zi5" "zi_central_dir zi5 = zi_central_dir zi0" "zi_number_entry zi5 = zi_number_entry zi0"
      "zi_in_opened_file_inzip zi5 = zi_in_opened_file_inzip zi0"
      "ci_buffered_data (zi_ci zi2) = ci_buffered_data (zi_ci zi0)" "ci_pos_in_buffered_data (zi_ci zi2) = 0"
      using k5(1) m2 by (auto simp: keeps_def same_archive_def start_entry_def)
    have len: "length (ci_buffered_data ci6) = Z_BUFSIZE"
      using s(2) k5(1) h(2) z5 ok0(1) by (simp add: keeps_def writer_ok_def)
    have "header_ok ci6"
      using header_ok_cong [OF s(1)] header_ok_cong [of "zi_ci ?zi4" "zi_ci zi5"] k5(1) h(1) by (simp add: keeps_def)
    then have "header_ok (zi_ci zi7)" using k7 header_ok_cong [of ci6 "zi_ci zi7"] by (simp add: keeps_def)
    moreover have "buffer_ok (zi5\<lparr>zi_ci := ci6\<rparr>)"
      using len s k5(2) h(3) z5(6) by (simp add: buffer_ok_def Let_def)
    then have "buffer_ok zi7" by (rule keeps_buffer [OF k7])
    moreover have "length (ci_buffered_data (zi_ci zi7)) = Z_BUFSIZE" "zi_central_dir zi7 = zi_central_dir zi0"
      "zi_number_entry zi7 = zi_number_entry zi0" "\<not> zi_in_opened_file_inzip zi7" "same_archive zi zi7"
      using k7 len z5 ok0(2,4) by (auto simp: keeps_def same_archive_def)
    ultimately show ?thesis
      using ok0(1,3) True unfolding zi' by (auto simp: writer_ok_def same_archive_def buffer_ok_def grows_def)
  qed
qed

subsection \<open>Opening the archive\<close>

lemma load_central_dir_ok:
  "blocks_ok ll \<Longrightarrow> load_central_dir ff h m ll (err, w) = (ll', st') \<Longrightarrow> blocks_ok ll'"
proof (induction m arbitrary: ll err w rule: less_induct)
  case (less m)
  show ?case
  proof (cases "m > 0 \<and> err = ZIP_OK")
    case False
    then show ?thesis using less.prems by (subst (asm) load_central_dir.simps) auto
  next
    case True
    define k where "k = (if SIZEDATA_INDATABLOCK > m then m else SIZEDATA_INDATABLOCK)"
    have k: "m - k < m" using True by (simp add: k_def)
    obtain r bs w1 where r: "zread64 ff h (of_nat k) w = (r, bs, w1)" by (metis prod_cases3)
    obtain e1 ll1 where 1: "(if r \<noteq> of_nat k then (ZIP_ERRNO, ll) else add_data_in_datablock ll (buffer_of k bs)) = (e1, ll1)"
      by (rule prod.exhaust)
    have "blocks_ok ll1"
      using 1 less.prems(1) add_data_ok [OF less.prems(1), of "buffer_of k bs"] by (auto split: if_splits)
    moreover have "load_central_dir ff h (m - k) ll1 (e1, w1) = (ll', st')"
      using less.prems(2) True
      by (subst (asm) load_central_dir.simps) (simp only: k_def [symmetric] r 1 Let_def prod.case if_False simp_thms)
    ultimately show ?thesis using less.IH [OF k] by blast
  qed
qed

lemma load_central_dir_fst: "blocks_ok ll \<Longrightarrow> blocks_ok (fst (load_central_dir ff h m ll st))"
  by (cases st, cases "load_central_dir ff h m ll st") (auto dest: load_central_dir_ok)

lemma load_archive_ok:
  assumes "load_archive zi ze w = Some (err, zi', w')" "blocks_ok (zi_central_dir zi)"
  shows "blocks_ok (zi_central_dir zi')" "zi_ci zi' = zi_ci zi" "zi_in_opened_file_inzip zi' = zi_in_opened_file_inzip zi"
  using assms
  by (auto simp: load_archive_def Let_def bind_Some_eq split_beta intro: load_central_dir_fst)

lemma zipOpen4_ok:
  assumes "zipOpen4 ci path status disk_size ff w = Some (Some zi, w')" "length (ci_buffered_data ci) = Z_BUFSIZE"
  shows "writer_ok zi"
proof -
  obtain h w1 where 1: "call_zopen64 ff path (if status = APPEND_STATUS_CREATE
      then ZLIB_FILEFUNC_MODE_READ OR ZLIB_FILEFUNC_MODE_WRITE OR ZLIB_FILEFUNC_MODE_CREATE
      else ZLIB_FILEFUNC_MODE_READ OR ZLIB_FILEFUNC_MODE_WRITE OR ZLIB_FILEFUNC_MODE_EXISTING) w = Some (h, w1)"
    using assms(1) unfolding zipOpen4_def bind_eq_Some_conv by fast
  have h: "h \<noteq> 0" "\<not> (status = APPEND_STATUS_CREATEAFTER \<and> disk_size > 0)"
    using assms(1) unfolding zipOpen4_def 1 bind.bind_lunit prod.case by (auto split: if_splits)
  note unf = zipOpen4_def 1 bind.bind_lunit prod.case if_not_P [OF h(1)] if_not_P [OF h(2)]
  obtain w2 where 2: "(if status = APPEND_STATUS_CREATEAFTER
      then map_option snd (call_zseek64 ff h 0 ZLIB_FILEFUNC_SEEK_END w1) else Some w1) = Some w2"
    using assms(1) unfolding unf bind_eq_Some_conv by fast
  obtain begin_pos w3 where 3: "call_ztell64 ff h w2 = Some (begin_pos, w3)"
    using assms(1) unfolding unf 2 bind_eq_Some_conv by fast
  define zi0 where "zi0 = \<lparr>zi_z_filefunc = ff, zi_filestream = h, zi_filestream_with_CD = h,
    zi_central_dir = init_linkedlist, zi_in_opened_file_inzip = False, zi_append = status,
    zi_ci = ci\<lparr>ci_stream_initialised := 0\<rparr>, zi_begin_pos = begin_pos,
    zi_add_position_when_writting_offset = 0, zi_number_entry = 0, zi_disk_size = disk_size,
    zi_number_disk = 0, zi_number_disk_with_CD = 0, zi_globalcomment = None\<rparr>"
  have ok0: "blocks_ok (zi_central_dir zi0)" "length (ci_buffered_data (zi_ci zi0)) = Z_BUFSIZE" "\<not> zi_in_opened_file_inzip zi0"
    using assms(2) by (simp_all add: zi0_def init_linkedlist_def blocks_ok_def)
  let ?load = "if status = APPEND_STATUS_ADDINZIP then
      do {
        (ze, err, w) \<leftarrow> read_zip_end ff h w3;
        if err \<noteq> ZIP_OK then Some (None, snd (zclose64 ff h w))
        else
          do {
            (err, zi, w) \<leftarrow> load_archive zi0 ze w;
            Some (if err \<noteq> ZIP_OK then None else Some zi, w)
          }
      }
    else Some (Some zi0, w3)"
  note unf = unf 2 3 Let_def zi0_def [symmetric]
  obtain z w4 where 4: "?load = Some (z, w4)" using assms(1) unfolding unf bind_eq_Some_conv by fast
  then obtain zi1 where z: "z = Some zi1" using assms(1) unfolding unf 4 by (cases z) auto
  have ok1: "blocks_ok (zi_central_dir zi1)" "length (ci_buffered_data (zi_ci zi1)) = Z_BUFSIZE" "\<not> zi_in_opened_file_inzip zi1"
    using 4 ok0 load_archive_ok [OF _ ok0(1)] unfolding z by (auto simp: bind_Some_eq split: if_splits)
  obtain e w5 where "zipGoToFirstDisk zi1 w4 = Some (e, zi, w5)"
    using assms(1) unfolding unf 4 z by (auto simp: bind_Some_eq)
  from moved_fields [OF zipGoToFirstDisk_moved [OF this]] ok1 show ?thesis by (simp add: writer_ok_def)
qed

section \<open>Sessions\<close>

text \<open>
  What a client can reach: it opens an archive (new, appended or existing), and then opens entries, writes data
  and closes entries in any order, with any data, whether the calls succeed or not, and whatever happens to
  the files in between. \<open>closed\<close> tells for each entry that was closed so far whether closing it succeeded. What is in the memory
  of the entry at the start is unknown; its write buffer has its size.
\<close>

inductive session :: "'z zip_zlib_fns \<Rightarrow> ('w, 'z) zip64_internal \<Rightarrow> bool list \<Rightarrow> ('w, 'z) zip64_internal \<Rightarrow> bool"
  for zl :: "'z zip_zlib_fns" and zi0 :: "('w, 'z) zip64_internal" where
  session_open: "zipOpen4 ci pathname append_status disk_size ff w = Some (Some zi0, w') \<Longrightarrow>
    length (ci_buffered_data ci) = Z_BUFSIZE \<Longrightarrow> session zl zi0 [] zi0"
| session_entry: "session zl zi0 closed zi \<Longrightarrow> entry_args_ok a \<Longrightarrow>
    zipOpenNewFileInZip4_64 n zl rnd zi a w = Some (err, zi', w') \<Longrightarrow>
    session zl zi0 (closed @ entry_outcome n zl zi a w) zi'"
| session_data: "session zl zi0 closed zi \<Longrightarrow>
    zipWriteInFileInZip n zl zi buf w = Some (err, zi', w') \<Longrightarrow> session zl zi0 closed zi'"
| session_close: "session zl zi0 closed zi \<Longrightarrow>
    zipCloseFileInZipRaw64 n zl zi u crc w = Some (err, zi', w') \<Longrightarrow> session zl zi0 (closed @ close_outcome zi err) zi'"

lemma keeps_writer_ok:
  assumes "keeps zi zi'" "writer_ok zi"
  shows "writer_ok zi'"
  using assms header_ok_cong [of "zi_ci zi" "zi_ci zi'"] by (simp add: keeps_def writer_ok_def)

lemma session_invariant:
  "session zl zi0 closed zi \<Longrightarrow> deflate_ok zl \<Longrightarrow> writer_ok zi \<and> same_archive zi0 zi \<and> grows closed zi0 zi"
proof (induction rule: session.induct)
  case (session_open ci pathname append_status disk_size ff w w')
  then show ?case by (auto intro: zipOpen4_ok grows_refl)
next
  case (session_entry closed zi a n rnd w err zi' w')
  then show ?case
    using zipOpenNewFileInZip4_64_grows [of zl zi a n rnd w err zi' w']
      grows_trans [of closed zi0 zi "entry_outcome n zl zi a w" zi']
    by (auto intro: same_archive_trans)
next
  case (session_data closed zi n buf w err zi' w')
  then have k: "keeps zi zi'" by (auto intro: zipWriteInFileInZip_keeps simp: writer_ok_def)
  have "grows [] zi zi'" using k by (auto simp: keeps_def intro: grows_refl)
  then show ?case
    using session_data k grows_trans [of closed zi0 zi "[]" zi'] keeps_writer_ok [OF k]
    by (auto simp: keeps_def intro: same_archive_trans)
next
  case (session_close closed zi n u crc w err zi' w')
  then show ?case
    using zipCloseFileInZipRaw64_grows [of zl zi n u crc w err zi' w'] grows_trans [of closed zi0 zi "close_outcome zi err" zi']
    by (auto intro: same_archive_trans)
qed

section \<open>Properties\<close>

text \<open>
  C12: The writer's state stays well-formed through every session, with any file functions (they may fail or lie),
  any arguments and data, and errors at any point: the block list is sound, and while an entry is open its
  write buffer has 65536 bytes that \<open>next_out\<close> and \<open>avail_out\<close> split exactly, so that no byte is ever
  written behind it, the bytes that wait lie before \<open>next_out\<close> (on an archive in one part), and the block of the
  central header has exactly the room for what closing the entry will still put into it.
\<close>

lemma zip_session_typed:
  assumes "session zl zi0 closed zi" "deflate_ok zl"
  shows "writer_ok zi \<and> same_archive zi0 zi"
  using session_invariant [OF assms] by simp

text \<open>
  C8: The central directory never breaks. What a session adds to it is one record for each entry that was closed without an
  error, in the order of closing, whatever calls failed before or after; each record starts with the magic number and is
  exactly as long as its own length fields say, also for deflated, encrypted, zip64 and raw entries, and on several disks. All
  entries that were closed are counted: one whose closing failed has no record, or one when only its local header could not
  be updated.
\<close>

lemma zip_session_directory:
  assumes "session zl zi0 closed zi" "deflate_ok zl"
  shows "\<exists>recs. list_all2 (\<lambda>ok r. ok \<longrightarrow> r \<noteq> None) closed recs \<and> (\<forall>r. Some r \<in> set recs \<longrightarrow> central_record_ok r) \<and>
    blocks_bytes (zi_central_dir zi) = blocks_bytes (zi_central_dir zi0) @ concat (map record_bytes recs) \<and>
    zi_number_entry zi = zi_number_entry zi0 + of_nat (length closed)"
  using session_invariant [OF assms] unfolding grows_def by blast

subsection \<open>Witnesses\<close>

lemma deflate_ok_example: "deflate_ok example_zl"
  by (simp add: deflate_ok_def example_zl_def Let_def)

definition no_files :: stdio where
  "no_files = \<lparr>sd_files = Map.empty, sd_open = Map.empty, sd_next = 0\<rparr>"

lemma zipOpen64_example:
  "zipOpen64 example_ci (Some ''a.zip'') APPEND_STATUS_CREATE no_files = Some (Some (example_zi 0), end_of_file [])"
  by (simp add: zipOpen64_def zipOpen4_def call_zopen64_def table64_def fill_fopen64_filefunc_def no_files_def
      fopen64_file_func_def mode_fopen_def fopen_build_def file_build_ioposix_def call_ztell64_def ftell64_file_func_def
      zipGoToFirstDisk_def example_zi_def example_ci_def end_of_file_def)

lemma session_example:
  "\<exists>zi1 zi3. session example_zl (example_zi 0) [] zi1 \<and> zi_in_opened_file_inzip zi1 \<and>
     session example_zl (example_zi 0) [True] zi3"
proof -
  have ready: "archive_ready (table64 fill_fopen64_filefunc) (example_zi 0)"
    by (simp add: archive_ready_def example_zi_def example_ci_def init_linkedlist_def blocks_ok_def)
  have v: "stdio_named ''a.zip'' (end_of_file []) (zi_filestream (example_zi 0)) = Some ([], 0)"
    using stdio_named_end_of_file [of "[]"] by (simp add: example_zi_def)
  have p: "0 \<le> length ([] :: byte list)" "\<forall>buf \<in> set [[1, 2, 3 :: byte]]. length buf \<le> 3"
    "length (concat [[1, 2, 3 :: byte]]) < 0xffffffff" "of_nat 0 < (0xffffffff :: u64)"
    "0 + length (local_header example_args 0 0 @ concat [[1, 2, 3]]) < 2 ^ 63"
    by (simp_all add: length_local_header example_args_def entry_filename_def)
  obtain zi1 w1 zi2 w2 zi3 w3 where
    1: "zipOpenNewFileInZip4_64 (Suc 3) example_zl (\<lambda>_. 0) (example_zi 0) example_args (end_of_file []) = Some (ZIP_OK, zi1, w1)"
    and 2: "write_parts (Suc 3) example_zl zi1 [[1, 2, 3]] w1 = Some (ZIP_OK, zi2, w2)"
    and 3: "zipCloseFileInZip (Suc 3) example_zl zi2 w2 = Some (ZIP_OK, zi3, w3)"
    using stdio_out64.stored_entry_view [OF v p(1) ready stored_args_example p(2-5), of example_zl "\<lambda>_. 0"]
    by blast
  have "session example_zl (example_zi 0) [] (example_zi 0)"
    by (rule session_open [OF zipOpen64_example [unfolded zipOpen64_def]]) (simp add: example_ci_def)
  from session_entry [OF this _ 1] have s1: "session example_zl (example_zi 0) [] zi1"
    by (simp add: entry_args_ok_def example_args_def entry_filename_def entry_comment_def entry_outcome_def close_outcome_def
        zipCloseFileInZip_def zipCloseFileInZipRaw_def zipCloseFileInZipRaw64_def example_zi_def)
  have wrote: "zipWriteInFileInZip (Suc 3) example_zl zi1 [1, 2, 3] w1 = Some (ZIP_OK, zi2, w2)"
    using 2 by (auto simp: bind_Some_eq split: if_splits)
  from session_data [OF s1 this] have s2: "session example_zl (example_zi 0) [] zi2" .
  have "zi_in_opened_file_inzip zi2"
    using 3 by (auto simp: zipCloseFileInZip_def zipCloseFileInZipRaw_def zipCloseFileInZipRaw64_def split: if_splits)
  with session_close [OF s2 3 [unfolded zipCloseFileInZip_def zipCloseFileInZipRaw_def]]
  have s3: "session example_zl (example_zi 0) [True] zi3" by (simp add: close_outcome_def)
  have "zi_in_opened_file_inzip zi1"
    using wrote by (auto simp: zipWriteInFileInZip_def split: if_splits)
  with s1 s3 show ?thesis by blast
qed

lemma zip_session_typed_witness:
  "\<exists>zi. session example_zl (example_zi 0) [] zi \<and> zi_in_opened_file_inzip zi \<and> writer_ok zi \<and> same_archive (example_zi 0) zi"
  using session_example zip_session_typed [OF _ deflate_ok_example, of "example_zi 0" "[]"] by blast

lemma zip_session_directory_witness:
  "\<exists>zi r. session example_zl (example_zi 0) [True] zi \<and> blocks_bytes (zi_central_dir zi) = r \<and> central_record_ok r \<and>
     zi_number_entry zi = 1"
proof -
  obtain zi where zi: "session example_zl (example_zi 0) [True] zi" using session_example by blast
  obtain recs where r: "list_all2 (\<lambda>ok r. ok \<longrightarrow> r \<noteq> None) [True] recs" "\<forall>r. Some r \<in> set recs \<longrightarrow> central_record_ok r"
    "blocks_bytes (zi_central_dir zi) = blocks_bytes (zi_central_dir (example_zi 0)) @ concat (map record_bytes recs)"
    "zi_number_entry zi = zi_number_entry (example_zi 0) + of_nat (length [True])"
    using zip_session_directory [OF zi deflate_ok_example] by blast
  from r(1) obtain rec where "recs = [Some rec]" by (auto simp: list_all2_Cons1)
  with zi r(2-4) show ?thesis
    by (intro exI [of _ zi] exI [of _ rec]) (auto simp: example_zi_facts record_bytes_def, simp add: example_zi_def)
qed

end
