(* ===== verification/Zip_Stored.thy ===== *)
theory Zip_Stored
  imports Zip_Blocks Zip_Extract
begin

text \<open>
  Reading a stored entry, proved for every table of file functions that behaves like a file. The
  state of the entry that is open refines to the data that is still to be delivered: some of it in the
  read buffer of 65536 bytes, the rest in the file.
\<close>

unbundle bit_operations_syntax

section \<open>The invariant\<close>

text \<open>
  \<open>pos\<close> is where the bytes that are not in the buffer yet lie in the file. The buffer is used up
  to its end as long as there are such bytes.
\<close>

definition buffered :: "'z file_in_zip64_read_info_s \<Rightarrow> byte list \<Rightarrow> byte list \<Rightarrow> bool" where
  "buffered p pending rest \<longleftrightarrow>
     length (read_buffer p) = UNZ_BUFSIZE \<and> zs_avail_in p = of_nat (length pending) \<and>
     rest_read_compressed p = of_nat (length rest) \<and>
     rest_read_uncompressed p = of_nat (length pending + length rest) \<and>
     (case zs_next_in p of
        None \<Rightarrow> pending = []
      | Some i \<Rightarrow> i + length pending \<le> UNZ_BUFSIZE \<and> take (length pending) (drop i (read_buffer p)) = pending \<and>
          (rest \<noteq> [] \<longrightarrow> i + length pending = UNZ_BUFSIZE))"

definition reading ::
  "('w \<Rightarrow> addr \<Rightarrow> (byte list \<times> nat) option) \<Rightarrow> byte list \<Rightarrow> byte list \<Rightarrow> nat \<Rightarrow>
   'z file_in_zip64_read_info_s \<Rightarrow> 'w \<Rightarrow> bool" where
  "reading view c data k p w \<longleftrightarrow>
     ri_compression_method p = 0 \<and> \<not> ri_raw p \<and> k \<le> length data \<and> length data < 2 ^ 64 \<and>
     (\<exists>q. view w (ri_filestream p) = Some (c, q)) \<and>
     (\<exists>pending rest pos. drop k data = pending @ rest \<and> buffered p pending rest \<and>
        pos_in_zipfile p + ri_byte_before_the_zipfile p = of_nat pos \<and> pos + length rest < 2 ^ 63 \<and>
        take (length rest) (drop pos c) = rest)"

lemma readingI:
  assumes "ri_compression_method p = 0" "\<not> ri_raw p" "k \<le> length data" "length data < 2 ^ 64"
    and "view w (ri_filestream p) = Some (c, q)" "drop k data = pending @ rest" "buffered p pending rest"
    and "pos_in_zipfile p + ri_byte_before_the_zipfile p = of_nat pos" "pos + length rest < 2 ^ 63"
    and "take (length rest) (drop pos c) = rest"
  shows "reading view c data k p w"
  unfolding reading_def using assms by blast

text \<open>What reading leaves alone.\<close>

definition same_entry :: "'z file_in_zip64_read_info_s \<Rightarrow> 'z file_in_zip64_read_info_s \<Rightarrow> bool" where
  "same_entry p' p \<longleftrightarrow> crc32_wait p' = crc32_wait p \<and> ri_filestream p' = ri_filestream p"

lemma same_entry_refl [simp]: "same_entry p p"
  by (simp add: same_entry_def)

definition not_encrypted :: "('w, 'z) unz64_s \<Rightarrow> bool" where
  "not_encrypted s \<longleftrightarrow> us_pcrc_32_tab s = None \<or> fi_flag (cur_file_info s) AND 1 = 0"

lemma buffer_write_Nil: "buffer_write buf 0 [] = buf"
  by (simp add: buffer_write_def)

text \<open>What \<^verbatim>\<open>zlib\<close> documents of \<^verbatim>\<open>crc32\<close>: it updates a running checksum of 32 bits.\<close>

definition crc_laws :: "(u64 \<Rightarrow> byte list \<Rightarrow> u64) \<Rightarrow> bool" where
  "crc_laws crc \<longleftrightarrow> (\<forall>x. crc x [] = x) \<and> (\<forall>x bs cs. crc (crc x bs) cs = crc x (bs @ cs)) \<and>
     (\<forall>bs. crc 0 bs < 2 ^ 32)"

lemma u32_of_nat_eq_0: "a < 2 ^ 32 \<Longrightarrow> (of_nat a :: u32) = 0 \<longleftrightarrow> a = 0"
  by (simp add: word_unat_eq_iff unat_of_nat)

lemma ucast_ucast_u64_small: "a < 2 ^ 32 \<Longrightarrow> ucast (ucast (of_nat a :: u64) :: u32) = (of_nat a :: u64)"
  using ucast_u32_of_nat [of a] by (simp add: unsigned_of_nat take_bit_nat_eq_self)

context zip_file begin

text \<open>One read gets everything the refill asks for.\<close>

lemma fill_loop_view:
  assumes "view w (ri_filestream p) = Some (c, q)" "pos_in_zipfile p + ri_byte_before_the_zipfile p = of_nat pos"
    and "pos < 2 ^ 63" "0 < m" "m < 2 ^ 63" "length (take m (drop pos c)) = m" "z_filefunc s = ff"
  shows "\<exists>w'. fill_loop (Suc (Suc n)) s p 0 (of_nat m) 0 w =
      Some (Inr (), s, p\<lparr>read_buffer := buffer_write (read_buffer p) 0 (take m (drop pos c)),
              pos_in_zipfile := pos_in_zipfile p + of_nat m\<rparr>, w') \<and>
    view w' (ri_filestream p) = Some (c, pos + m)"
proof -
  have u: "unat (of_nat pos :: u64) = pos" "unat (of_nat m :: u64) = m"
    using assms(3,5) by (auto intro!: unat_u64_of_nat)
  have m0: "(of_nat m :: u64) \<noteq> 0" using u(2) assms(4) by auto
  obtain w1 where 1: "call_zseek64 ff (ri_filestream p) (of_nat pos) ZLIB_FILEFUNC_SEEK_SET w = Some (0, w1)"
    "view w1 (ri_filestream p) = Some (c, pos)"
    using zseek_set_law [OF assms(1), of "of_nat pos"] assms(3) unfolding u by blast
  obtain w2 where 2: "zread64 ff (ri_filestream p) (of_nat m) w1 = (of_nat m, take m (drop pos c), w2)"
    "view w2 (ri_filestream p) = Some (c, pos + m)"
    using zread_law [OF 1(2), of "of_nat m"] unfolding u assms(6) by blast
  show ?thesis
    using 1(1) 2 m0 by (simp add: assms(2,6,7) u Let_def)
qed

lemma refill_view:
  assumes "reading view c data k p w" "k < length data" "zs_avail_in p = 0" "z_filefunc s = ff" "not_encrypted s"
  shows "\<exists>p' w'. refill (Suc (Suc n)) s p w = Some (Inr (), s, p', w') \<and> reading view c data k p' w' \<and>
    zs_avail_in p' \<noteq> 0 \<and> ri_crc32 p' = ri_crc32 p \<and> same_entry p' p"
proof -
  obtain pending rest pos q where r: "drop k data = pending @ rest" "buffered p pending rest"
    "pos_in_zipfile p + ri_byte_before_the_zipfile p = of_nat pos" "pos + length rest < 2 ^ 63" "take (length rest) (drop pos c) = rest"
    "ri_compression_method p = 0" "\<not> ri_raw p" "length data < 2 ^ 64" "view w (ri_filestream p) = Some (c, q)"
    using assms(1) by (auto simp: reading_def)
  have "length pending \<le> UNZ_BUFSIZE" using r(2) by (auto simp: buffered_def split: option.splits)
  then have "pending = []" using r(2) assms(3) u32_of_nat_eq_0 [of "length pending"] by (simp add: buffered_def)
  with r(1) assms(2) have rest: "rest = drop k data" "rest \<noteq> []" by auto
  note b = r(2) [unfolded buffered_def \<open>pending = []\<close>]
  define m where "m = min (length rest) UNZ_BUFSIZE"
  have m: "0 < m" "m \<le> UNZ_BUFSIZE" "m \<le> length rest" using rest by (auto simp: m_def)
  have len: "length rest < 2 ^ 64" using r(8) rest(1) by simp
  have idle: "unread_bytes p = 0" "move_unread p = Some (read_buffer p)"
    using b rest(2) by (auto simp: unread_bytes_def move_unread_def buffer_write_Nil split: option.splits)
  have asked: "(if rest_read_compressed p < of_nat (UNZ_BUFSIZE - 0) then ucast (ucast (rest_read_compressed p) :: u32)
      else of_nat (UNZ_BUFSIZE - 0)) = (of_nat m :: u64)"
    using b len u64_of_nat_less [of "length rest" UNZ_BUFSIZE] by (auto simp: m_def ucast_ucast_u64_small)
  have part: "take m (drop pos c) = take m rest" using r(5) m(3) by (metis min.absorb1 take_take)
  have tk: "length (take m (drop pos c)) = m" unfolding part using m(3) by simp
  have m63: "m < 2 ^ 63" and pos: "pos < 2 ^ 63" using m(2) r(4) by simp_all
  have avail: "(ucast (of_nat m :: u64) :: u32) = of_nat m" using m(2) by (simp add: unsigned_of_nat take_bit_nat_eq_self)
  obtain w' where w': "fill_loop (Suc (Suc n)) s p 0 (of_nat m) 0 w =
      Some (Inr (), s, p\<lparr>read_buffer := buffer_write (read_buffer p) 0 (take m rest),
              pos_in_zipfile := pos_in_zipfile p + of_nat m\<rparr>, w')"
    "view w' (ri_filestream p) = Some (c, pos + m)"
    using fill_loop_view [OF r(9,3) pos m(1) m63 tk assms(4), of n] unfolding part by blast
  have keys: "s\<lparr>us_keys := us_keys s\<rparr> = s" by simp
  have nocrypt: "(case us_pcrc_32_tab s of
        Some tab \<Rightarrow> if fi_flag (cur_file_info s) AND 1 \<noteq> 0 then f tab else g | None \<Rightarrow> g) = g" for f g
    using assms(5) by (auto simp: not_encrypted_def split: option.splits)
  let ?p = "p\<lparr>read_buffer := buffer_write (read_buffer p) 0 (take m rest),
      pos_in_zipfile := pos_in_zipfile p + of_nat m, rest_read_compressed := rest_read_compressed p - of_nat m,
      zs_next_in := Some 0, zs_avail_in := of_nat m\<rparr>"
  have "p\<lparr>read_buffer := read_buffer p\<rparr> = p" by simp
  have "refill (Suc (Suc n)) s p w = Some (Inr (), s, ?p, w')"
    unfolding refill_def Let_def idle asked by (simp add: w'(1) nocrypt keys avail del: fill_loop.simps)
  moreover have "reading view c data k ?p w'"
  proof -
    have "drop k data = take m rest @ drop m rest" unfolding rest(1) [symmetric] by (rule append_take_drop_id [symmetric])
    moreover have "buffered ?p (take m rest) (drop m rest)"
      using b m by (auto simp: buffered_def buffer_write_def of_nat_diff m_def)
    moreover have "pos_in_zipfile ?p + ri_byte_before_the_zipfile ?p = of_nat (pos + m)" using r(3) by simp
    moreover have "take (length (drop m rest)) (drop (pos + m) c) = drop m rest"
      using arg_cong [OF r(5), of "drop m"] by (simp add: drop_take add.commute)
    moreover have "pos + m + length (drop m rest) < 2 ^ 63" using r(4) m(3) by simp
    ultimately show ?thesis
      by (intro readingI [where pending = "take m rest" and rest = "drop m rest" and pos = "pos + m" and q = "pos + m"])
        (use r(6-8) assms(2) w'(2) in simp_all)
  qed
  ultimately show ?thesis using u32_of_nat_eq_0 [of m] m by (auto simp: same_entry_def)
qed

text \<open>A turn of the copy loop delivers what is asked for, or what the buffer has.\<close>

lemma copy_turn_view:
  assumes "reading view c data k p w" "zs_avail_in p \<noteq> 0" "room \<noteq> 0" "room \<le> length data - k" "room < 2 ^ 32"
    and "crc_laws (zl_crc32 zl)" "ri_crc32 p = zl_crc32 zl 0 (take k data)"
  shows "\<exists>j p'. 0 < j \<and> j \<le> room \<and>
    copy_turn zl p (of_nat room) r out = Next (p', of_nat (room - j), r + of_nat j, out @ take j (drop k data)) \<and>
    reading view c data (k + j) p' w \<and> ri_crc32 p' = zl_crc32 zl 0 (take (k + j) data) \<and>
    same_entry p' p"
proof -
  obtain pending rest pos q where r: "drop k data = pending @ rest" "buffered p pending rest"
    "pos_in_zipfile p + ri_byte_before_the_zipfile p = of_nat pos" "pos + length rest < 2 ^ 63"
    "take (length rest) (drop pos c) = rest" "ri_compression_method p = 0" "\<not> ri_raw p" "length data < 2 ^ 64"
    "k \<le> length data" "view w (ri_filestream p) = Some (c, q)"
    using assms(1) by (auto simp: reading_def)
  note b = r(2) [unfolded buffered_def]
  obtain i where i: "zs_next_in p = Some i" "i + length pending \<le> UNZ_BUFSIZE"
    "take (length pending) (drop i (read_buffer p)) = pending" "rest \<noteq> [] \<longrightarrow> i + length pending = UNZ_BUFSIZE"
    using b assms(2) by (cases "zs_next_in p") auto
  define j where "j = min room (length pending)"
  have "pending \<noteq> []" using b assms(2) by auto
  then have j: "0 < j" "j \<le> room" "j \<le> length pending" "j < 2 ^ 32" using assms(3,5) by (auto simp: j_def)
  have copy: "(if (of_nat room :: u32) < zs_avail_in p then of_nat room else zs_avail_in p) = (of_nat j :: u32)"
    using b i(2) assms(5) by (auto simp: j_def word_less_nat_alt unat_of_nat min_def)
  have u: "unat (of_nat j :: u32) = j" "(ucast (of_nat j :: u32) :: u64) = of_nat j"
    using j(4) by (simp_all add: unat_of_nat ucast_u32_of_nat)
  have bytes: "take j (drop i (read_buffer p)) = take j (drop k data)"
    using arg_cong [OF i(3), of "take j"] j(3) by (simp add: r(1) min_def)
  let ?p = "p\<lparr>total_out_64 := total_out_64 p + of_nat j, rest_read_uncompressed := rest_read_uncompressed p - of_nat j,
      ri_crc32 := zl_crc32 zl (ri_crc32 p) (take j (drop k data)), zs_avail_in := zs_avail_in p - of_nat j,
      zs_next_in := Some (i + j), zs_total_out := zs_total_out p + of_nat j\<rparr>"
  have "copy_turn zl p (of_nat room) r out = Next (?p, of_nat (room - j), r + of_nat j, out @ take j (drop k data))"
    unfolding copy_turn_def Let_def copy u i(1) option.case bytes using assms(2) j(2) by (simp add: of_nat_diff)
  moreover have "reading view c data (k + j) ?p w"
  proof -
    have "drop (k + j) data = drop j pending @ rest"
      using arg_cong [OF r(1), of "drop j"] j(3) by (simp add: add.commute)
    moreover have "buffered ?p (drop j pending) rest"
    proof -
      have "take (length pending - j) (drop (i + j) (read_buffer p)) = drop j pending"
        using arg_cong [OF i(3), of "drop j"] by (simp add: drop_take add.commute)
      then show ?thesis using b i j(3) by (auto simp: buffered_def of_nat_diff)
    qed
    moreover have "k + j \<le> length data" using j(2) assms(3,4) by simp
    ultimately show ?thesis
      by (intro readingI [where pending = "drop j pending" and rest = rest and pos = pos and q = q])
        (use r(3-8,10) in simp_all)
  qed
  moreover have "ri_crc32 ?p = zl_crc32 zl 0 (take (k + j) data)"
    using assms(6) by (simp add: assms(7) crc_laws_def take_add)
  ultimately show ?thesis using j(1,2) by (intro exI [of _ j] exI [of _ ?p]) (simp add: same_entry_def)
qed

lemma read_loop_view:
  assumes "reading view c data k p w" "room \<le> length data - k" "room < 2 ^ 32" "room < turns"
    and "z_filefunc s = ff" "not_encrypted s"
    and "crc_laws (zl_crc32 zl)" "ri_crc32 p = zl_crc32 zl 0 (take k data)"
  shows "\<exists>p' w'. read_loop turns (Suc (Suc n)) zl s p (of_nat room) r out w =
      Some (sint (r + of_nat room), out @ take room (drop k data), s\<lparr>pfile_in_zip_read := Some p'\<rparr>, w') \<and>
    reading view c data (k + room) p' w' \<and> ri_crc32 p' = zl_crc32 zl 0 (take (k + room) data) \<and>
    same_entry p' p"
  using assms(1-4,8)
proof (induction turns arbitrary: k p w room r out)
  case 0
  then show ?case by simp
next
  case (Suc turns)
  show ?case
  proof (cases "room = 0")
    case True
    then show ?thesis using Suc.prems(1,5) by (intro exI [of _ p] exI [of _ w]) simp
  next
    case False
    then have k: "k < length data" and o: "(of_nat room :: u32) \<noteq> 0"
      using Suc.prems(2,3) u32_of_nat_eq_0 [of room] by auto
    obtain p1 w1 where 1: "(if zs_avail_in p = 0 then refill (Suc (Suc n)) s p w else Some (Inr (), s, p, w)) =
        Some (Inr (), s, p1, w1)" "reading view c data k p1 w1" "zs_avail_in p1 \<noteq> 0" "ri_crc32 p1 = ri_crc32 p"
      "same_entry p1 p"
    proof (cases "zs_avail_in p = 0")
      case True
      from refill_view [OF Suc.prems(1) k True assms(5,6), of n] True that show ?thesis by auto
    next
      case False
      with Suc.prems(1) that [of p w] show ?thesis by auto
    qed
    have crc: "ri_crc32 p1 = zl_crc32 zl 0 (take k data)" using 1(4) Suc.prems(5) by simp
    obtain j p2 where 2: "0 < j" "j \<le> room"
      "copy_turn zl p1 (of_nat room) r out = Next (p2, of_nat (room - j), r + of_nat j, out @ take j (drop k data))"
      "reading view c data (k + j) p2 w1" "ri_crc32 p2 = zl_crc32 zl 0 (take (k + j) data)" "same_entry p2 p1"
      using copy_turn_view [OF 1(2,3) False Suc.prems(2,3) assms(7) crc, of r out] by blast
    have stored0: "ri_compression_method p1 = 0" using 1(2) by (simp add: reading_def)
    have rest: "room - j \<le> length data - (k + j)" "room - j < 2 ^ 32" "room - j < turns"
      using Suc.prems(2-4) 2(1,2) by simp_all
    from Suc.IH [OF 2(4) rest 2(5), of "r + of_nat j" "out @ take j (drop k data)"] obtain p3 w3 where
      3: "read_loop turns (Suc (Suc n)) zl s p2 (of_nat (room - j)) (r + of_nat j) (out @ take j (drop k data)) w1 =
        Some (sint (r + of_nat j + of_nat (room - j)), (out @ take j (drop k data)) @ take (room - j) (drop (k + j) data),
          s\<lparr>pfile_in_zip_read := Some p3\<rparr>, w3)"
      "reading view c data (k + j + (room - j)) p3 w3" "ri_crc32 p3 = zl_crc32 zl 0 (take (k + j + (room - j)) data)"
      "same_entry p3 p2" by blast
    have bytes: "take j (drop k data) @ take (room - j) (drop (k + j) data) = take room (drop k data)"
      using 2(2) take_add [of j "room - j" "drop k data"] by (simp add: add.commute)
    have num: "r + of_nat j + of_nat (room - j) = r + (of_nat room :: u32)" using 2(2) by (simp add: of_nat_diff)
    show ?thesis
      using o 1(1) 2(2,3) 3 1(5) 2(6) stored0 by (intro exI [of _ p3] exI [of _ w3]) (simp add: bytes num same_entry_def)
  qed
qed

lemma read_view:
  assumes "pfile_in_zip_read s = Some p" "reading view c data k p w" "unat len < turns"
    and "z_filefunc s = ff" "not_encrypted s"
    and "crc_laws (zl_crc32 zl)" "ri_crc32 p = zl_crc32 zl 0 (take k data)"
  defines "m \<equiv> min (unat len) (length data - k)"
  shows "\<exists>p' w'. unzReadCurrentFile turns (Suc (Suc n)) zl s len w =
      Some (sint (of_nat m :: u32), take m (drop k data), s\<lparr>pfile_in_zip_read := Some p'\<rparr>, w') \<and>
    reading view c data (k + m) p' w' \<and> ri_crc32 p' = zl_crc32 zl 0 (take (k + m) data) \<and>
    same_entry p' p"
proof (cases "len = 0")
  case True
  then show ?thesis
    using assms(1,2,7) by (intro exI [of _ p] exI [of _ w]) (simp add: unzReadCurrentFile_def m_def)
next
  case False
  have r: "\<not> ri_raw p" "rest_read_uncompressed p = of_nat (length data - k)" "length data < 2 ^ 64"
  proof -
    obtain pending rest where "drop k data = pending @ rest" "buffered p pending rest" "\<not> ri_raw p" "length data < 2 ^ 64"
      using assms(2) by (auto simp: reading_def)
    moreover from this(1) have "length data - k = length pending + length rest" by (metis length_append length_drop)
    ultimately show "\<not> ri_raw p" "rest_read_uncompressed p = of_nat (length data - k)" "length data < 2 ^ 64"
      by (simp_all add: buffered_def)
  qed
  have len: "unat len < 2 ^ 32" by (rule unat_u32_less)
  have m: "m \<le> length data - k" "m < 2 ^ 32" "m < turns" using assms(3) len by (auto simp: m_def)
  have room: "(if ucast len > rest_read_uncompressed p then ucast (rest_read_uncompressed p) else len) = of_nat m"
  proof (cases "length data - k < unat len")
    case True
    then have "rest_read_uncompressed p < ucast len"
      using r(2,3) len by (simp add: word_less_nat_alt unat_of_nat unat_ucast_u32)
    moreover have "(ucast (of_nat (length data - k) :: u64) :: u32) = of_nat (length data - k)"
      using True len by (simp add: unsigned_of_nat take_bit_nat_eq_self)
    ultimately show ?thesis using True r(2) by (simp add: m_def)
  next
    case False
    then have "\<not> rest_read_uncompressed p < ucast len"
      using r(2,3) by (simp add: word_less_nat_alt unat_of_nat unat_ucast_u32)
    then show ?thesis using False by (simp add: m_def)
  qed
  from read_loop_view [OF assms(2) m assms(4-7), of n 0 "[]"] show ?thesis
    unfolding unzReadCurrentFile_def using assms(1) False r(1) by (simp add: room Let_def del: read_loop.simps)
qed

lemma close_read_view:
  assumes "pfile_in_zip_read s = Some p" "reading view c data (length data) p w"
  shows "unzCloseCurrentFile s =
    (if ri_crc32 p = crc32_wait p then UNZ_OK else UNZ_CRCERROR, s\<lparr>pfile_in_zip_read := None\<rparr>)"
  using assms by (auto simp: unzCloseCurrentFile_def reading_def buffered_def)

end

section \<open>A caller\<close>

text \<open>
  A caller that reads the entry in parts of the sizes \<open>lens\<close>, and one that reads parts of the same
  size until there is nothing left, as \<^verbatim>\<open>Zip.swift\<close> does. The first component is the last return value.
\<close>

fun read_parts ::
  "nat \<Rightarrow> nat \<Rightarrow> 'z zlib_fns \<Rightarrow> ('w, 'z) unz64_s \<Rightarrow> u32 list \<Rightarrow> 'w \<Rightarrow> (byte list list \<times> ('w, 'z) unz64_s \<times> 'w) option" where
  "read_parts turns n zl s [] w = Some ([], s, w)"
| "read_parts turns n zl s (len # lens) w =
     do {
       (r, bs, s, w) \<leftarrow> unzReadCurrentFile turns n zl s len w;
       (bss, s, w) \<leftarrow> read_parts turns n zl s lens w;
       Some (bs # bss, s, w)
     }"

text \<open>The same on the data itself.\<close>

primrec parts_of :: "byte list \<Rightarrow> u32 list \<Rightarrow> byte list list" where
  "parts_of data [] = []"
| "parts_of data (len # lens) = take (unat len) data # parts_of (drop (unat len) data) lens"

context zip_file begin

lemma read_parts_view:
  assumes "pfile_in_zip_read s = Some p" "reading view c data k p w" "\<forall>len \<in> set lens. unat len < turns"
    and "z_filefunc s = ff" "not_encrypted s"
    and "crc_laws (zl_crc32 zl)" "ri_crc32 p = zl_crc32 zl 0 (take k data)"
  shows "\<exists>k' p' w'. read_parts turns (Suc (Suc n)) zl s lens w =
      Some (parts_of (drop k data) lens, s\<lparr>pfile_in_zip_read := Some p'\<rparr>, w') \<and>
    k' = min (length data) (k + sum_list (map unat lens)) \<and>
    reading view c data k' p' w' \<and> ri_crc32 p' = zl_crc32 zl 0 (take k' data) \<and> same_entry p' p"
  using assms(1-3,7,4,5)
proof (induction lens arbitrary: s k p w)
  case Nil
  then have "k \<le> length data" by (simp add: reading_def)
  with Nil show ?case by (intro exI [of _ k] exI [of _ p] exI [of _ w]) simp
next
  case (Cons len lens)
  let ?m = "min (unat len) (length data - k)"
  have len: "unat len < turns" using Cons.prems(3) by simp
  obtain p1 w1 where 1: "unzReadCurrentFile turns (Suc (Suc n)) zl s len w =
      Some (sint (of_nat ?m :: u32), take ?m (drop k data), s\<lparr>pfile_in_zip_read := Some p1\<rparr>, w1)"
    "reading view c data (k + ?m) p1 w1" "ri_crc32 p1 = zl_crc32 zl 0 (take (k + ?m) data)" "same_entry p1 p"
    using read_view [OF Cons.prems(1,2) len Cons.prems(5,6) assms(6) Cons.prems(4), of n] by blast
  let ?s = "s\<lparr>pfile_in_zip_read := Some p1\<rparr>"
  have s: "pfile_in_zip_read ?s = Some p1" "z_filefunc ?s = ff" "not_encrypted ?s"
    using Cons.prems(5,6) by (simp_all add: not_encrypted_def)
  have lens: "\<forall>len \<in> set lens. unat len < turns" using Cons.prems(3) by simp
  from Cons.IH [OF s(1) 1(2) lens 1(3) s(2,3)] obtain k2 p2 w2 where
    2: "read_parts turns (Suc (Suc n)) zl ?s lens w1 =
      Some (parts_of (drop (k + ?m) data) lens, ?s\<lparr>pfile_in_zip_read := Some p2\<rparr>, w2)"
    "k2 = min (length data) (k + ?m + sum_list (map unat lens))"
    "reading view c data k2 p2 w2" "ri_crc32 p2 = zl_crc32 zl 0 (take k2 data)" "same_entry p2 p1" by blast
  have "take ?m (drop k data) = take (unat len) (drop k data)" by (simp add: min_def)
  moreover have "drop (k + ?m) data = drop (unat len) (drop k data)" by (simp add: min_def add.commute)
  moreover have "k2 = min (length data) (k + sum_list (map unat (len # lens)))" unfolding 2(2) by auto
  ultimately show ?case
    using 1(1,4) 2(1,3-5) by (intro exI [of _ k2] exI [of _ p2] exI [of _ w2]) (simp add: same_entry_def)
qed

end

fun read_all ::
  "nat \<Rightarrow> nat \<Rightarrow> nat \<Rightarrow> 'z zlib_fns \<Rightarrow> ('w, 'z) unz64_s \<Rightarrow> u32 \<Rightarrow> 'w \<Rightarrow> (int \<times> byte list \<times> ('w, 'z) unz64_s \<times> 'w) option" where
  "read_all 0 turns n zl s step w = None"
| "read_all (Suc f) turns n zl s step w =
     do {
       (r, bs, s, w) \<leftarrow> unzReadCurrentFile turns n zl s step w;
       if r \<le> 0 then Some (r, [], s, w)
       else
         do {
           (r, rest, s, w) \<leftarrow> read_all f turns n zl s step w;
           Some (r, bs @ rest, s, w)
         }
     }"

lemma sint_u32_small: "m < 2 ^ 31 \<Longrightarrow> sint (of_nat m :: u32) = int m"
  by (simp add: sint_uint uint_nat unat_of_nat signed_take_bit_int_eq_self)

context zip_file begin

lemma read_all_view:
  assumes "pfile_in_zip_read s = Some p" "reading view c data k p w" "length data - k < f"
    and "z_filefunc s = ff" "not_encrypted s" "0 < unat step" "unat step < 2 ^ 31" "unat step < turns"
    and "crc_laws (zl_crc32 zl)" "ri_crc32 p = zl_crc32 zl 0 (take k data)"
  shows "\<exists>p' w'. read_all f turns (Suc (Suc n)) zl s step w =
      Some (0, drop k data, s\<lparr>pfile_in_zip_read := Some p'\<rparr>, w') \<and>
    reading view c data (length data) p' w' \<and> ri_crc32 p' = zl_crc32 zl 0 data \<and> same_entry p' p"
  using assms(1-3,10,4,5)
proof (induction f arbitrary: s k p w)
  case 0
  then show ?case by simp
next
  case (Suc f)
  let ?m = "min (unat step) (length data - k)"
  obtain p1 w1 where 1: "unzReadCurrentFile turns (Suc (Suc n)) zl s step w =
      Some (sint (of_nat ?m :: u32), take ?m (drop k data), s\<lparr>pfile_in_zip_read := Some p1\<rparr>, w1)"
    "reading view c data (k + ?m) p1 w1" "ri_crc32 p1 = zl_crc32 zl 0 (take (k + ?m) data)" "same_entry p1 p"
    using read_view [OF Suc.prems(1,2) assms(8) Suc.prems(5,6) assms(9) Suc.prems(4), of n] by blast
  have r: "sint (of_nat ?m :: u32) = int ?m" using assms(7) by (intro sint_u32_small) simp
  have k: "k \<le> length data" using Suc.prems(2) by (simp add: reading_def)
  show ?case
  proof (cases "k = length data")
    case True
    then have m: "?m = 0" by simp
    show ?thesis
      using 1 True by (intro exI [of _ p1] exI [of _ w1]) (simp add: r m)
  next
    case False
    then have m: "0 < ?m" using k assms(6) by simp
    let ?s = "s\<lparr>pfile_in_zip_read := Some p1\<rparr>"
    have s: "pfile_in_zip_read ?s = Some p1" "z_filefunc ?s = ff" "not_encrypted ?s"
      using Suc.prems(5,6) by (simp_all add: not_encrypted_def)
    have less: "length data - (k + ?m) < f" using Suc.prems(3) m k False by simp
    from Suc.IH [OF s(1) 1(2) less 1(3) s(2,3)] obtain p2 w2 where
      2: "read_all f turns (Suc (Suc n)) zl ?s step w1 = Some (0, drop (k + ?m) data, ?s\<lparr>pfile_in_zip_read := Some p2\<rparr>, w2)"
      "reading view c data (length data) p2 w2" "ri_crc32 p2 = zl_crc32 zl 0 data" "same_entry p2 p1" by blast
    have "take ?m (drop k data) @ drop (k + ?m) data = drop k data"
      using append_take_drop_id [of ?m "drop k data"] by (simp add: add.commute)
    then show ?thesis
      using 2 1(1,4) m by (intro exI [of _ p2] exI [of _ w2]) (simp add: r same_entry_def)
  qed
qed

end

end
