(* ===== verification/Zip_Frame.thy ===== *)
theory Zip_Frame
  imports Zip_Stored
begin

text \<open>
  A world with several streams and named files, as \<^verbatim>\<open>unzip.c\<close> uses it: it opens the archive twice and reads the
  directory through one stream and the entries through the other. The interface \<open>unz_files\<close> says what
  the operations on one stream do to the others; what was proved for one stream in \<open>zip_file\<close> holds with that frame.
\<close>

unbundle bit_operations_syntax

section \<open>Restricting what is seen\<close>

context zip_file begin

lemma restricted:
  assumes "\<And>w h n k bs w'. zread64 ff h n w = (k, bs, w') \<Longrightarrow> P w h \<Longrightarrow> P w' h"
    and "\<And>w h off org e w'. call_zseek64 ff h off org w = Some (e, w') \<Longrightarrow> P w h \<Longrightarrow> P w' h"
  shows "zip_file ff (\<lambda>w h. if P w h then view w h else None) bound"
proof
  fix w h c p
  assume v: "(if P w h then view w h else None) = Some (c, p)"
  then have P: "P w h" and v': "view w h = Some (c, p)" by (auto split: if_splits)
  show "\<exists>w'. zread64 ff h n w = (of_nat (length (take (unat n) (drop p c))), take (unat n) (drop p c), w') \<and>
      (if P w' h then view w' h else None) = Some (c, p + length (take (unat n) (drop p c)))" for n
    using zread_law [OF v', of n] assms(1) P by fastforce
  show "\<exists>w'. call_zseek64 ff h off ZLIB_FILEFUNC_SEEK_SET w = Some (0, w') \<and>
      (if P w' h then view w' h else None) = Some (c, unat off)" if "unat off < 2 ^ 63" for off
    using zseek_set_law [OF v' that] assms(2) P by fastforce
  show "\<exists>w'. call_zseek64 ff h 0 ZLIB_FILEFUNC_SEEK_END w = Some (0, w') \<and>
      (if P w' h then view w' h else None) = Some (c, length c)"
    using zseek_end_law [OF v'] assms(2) P by fastforce
  show "call_ztell64 ff h w = Some (of_nat p, w)" if "p < bound" using ztell_law [OF v' that] .
  show "zerror64 ff h w = (0, w)" using zerror_law [OF v'] .
qed (rule bound_le)

end

section \<open>The interface\<close>

locale unz_files = zip_file ff view bound
  for ff :: "'w zlib_filefunc64_32_def" and view :: "'w \<Rightarrow> addr \<Rightarrow> (byte list \<times> nat) option" and bound :: nat +
  fixes contents :: "'w \<Rightarrow> string \<Rightarrow> byte list option"
  assumes zread_frame: "zread64 ff h n w = (k, bs, w') \<Longrightarrow>
      contents w' = contents w \<and> (\<forall>h'. h' \<noteq> h \<longrightarrow> view w' h' = view w h')"
    and zseek_frame: "call_zseek64 ff h off org w = Some (e, w') \<Longrightarrow>
      contents w' = contents w \<and> (\<forall>h'. h' \<noteq> h \<longrightarrow> view w' h' = view w h')"
    and zopen_law: "contents w path = Some c \<Longrightarrow>
      \<exists>h w'. call_zopen64 ff (Some path) (ZLIB_FILEFUNC_MODE_READ OR ZLIB_FILEFUNC_MODE_EXISTING) w = Some (h, w') \<and>
        h \<noteq> 0 \<and> view w' h = Some (c, 0) \<and> contents w' = contents w \<and>
        (\<forall>h' x. view w h' = Some x \<longrightarrow> h' \<noteq> h \<and> view w' h' = Some x)"
begin

text \<open>What is seen of the stream \<open>h0\<close> as long as everything else is as in \<open>w0\<close>.\<close>

definition framed :: "'w \<Rightarrow> addr \<Rightarrow> 'w \<Rightarrow> addr \<Rightarrow> (byte list \<times> nat) option" where
  "framed w0 h0 = (\<lambda>w h. if h = h0 \<and> contents w = contents w0 \<and> (\<forall>h'. h' \<noteq> h0 \<longrightarrow> view w h' = view w0 h')
     then view w h else None)"

lemma framed_file: "zip_file ff (framed w0 h0) bound"
  unfolding framed_def by (rule restricted) (metis zread_frame, metis zseek_frame)

lemma framed_start: "framed w h w h = view w h"
  by (simp add: framed_def)

lemma framedD:
  assumes "framed w0 h w h = Some x"
  shows "view w h = Some x" "contents w = contents w0" "h' \<noteq> h \<Longrightarrow> view w h' = view w0 h'"
  using assms by (auto simp: framed_def split: if_splits)

text \<open>A stream of the same file keeps it, whichever it is.\<close>

lemma framed_other:
  assumes "framed w0 h w h = Some (c, q)" "view w0 h' = Some (c, q')"
  shows "\<exists>q. view w h' = Some (c, q)"
  using framedD(1,3) [OF assms(1)] assms(2) by (cases "h' = h") auto

end

section \<open>The providers\<close>

text \<open>A world in which the numbers of the streams that are open have all been given out.\<close>

definition streams_ok :: "stdio \<Rightarrow> bool" where
  "streams_ok w \<longleftrightarrow> (\<forall>h. sd_open w h \<noteq> None \<longrightarrow> h \<le> sd_next w)"

definition stdio_owned :: "stdio \<Rightarrow> addr \<Rightarrow> (byte list \<times> nat) option" where
  "stdio_owned = (\<lambda>w h. if streams_ok w then stdio_view w h else None)"

definition stdio_contents :: "stdio \<Rightarrow> string \<Rightarrow> byte list option" where
  "stdio_contents w name = (if streams_ok w then sd_files w name else None)"

lemma set_file_frame:
  assumes "sd_open w h = Some f0"
  shows "streams_ok (set_file w h f) = streams_ok w" "sd_files (set_file w h f) = sd_files w"
    "h' \<noteq> h \<Longrightarrow> stdio_view (set_file w h f) h' = stdio_view w h'"
  using assms by (auto simp: streams_ok_def set_file_def stdio_view_def file_content_def split: if_splits option.splits)

text \<open>Reading and seeking change nothing but the stream.\<close>

definition only_stream :: "addr \<Rightarrow> stdio \<Rightarrow> stdio \<Rightarrow> bool" where
  "only_stream h w w' \<longleftrightarrow> w' = w \<or> (\<exists>f0 f. sd_open w h = Some f0 \<and> w' = set_file w h f)"

lemma only_stream_frame:
  assumes "only_stream h w w'"
  shows "streams_ok w' = streams_ok w" "stdio_contents w' = stdio_contents w"
    "\<forall>h'. h' \<noteq> h \<longrightarrow> stdio_owned w' h' = stdio_owned w h'"
  using assms set_file_frame by (auto simp: only_stream_def stdio_owned_def stdio_contents_def fun_eq_iff)

lemma only_stream_keeps:
  "only_stream h w w' \<Longrightarrow>
   stdio_contents w' = stdio_contents w \<and> (\<forall>h'. h' \<noteq> h \<longrightarrow> stdio_owned w' h' = stdio_owned w h')"
  by (intro conjI only_stream_frame(2,3))

lemma only_stream_fread: "fread_file_func w h n = (k, bs, w') \<Longrightarrow> only_stream h w w'"
  by (auto simp: fread_file_func_def only_stream_def Let_def split: option.splits)

lemma only_stream_fseek:
  "fseek64_file_func w h off org = (e, w') \<Longrightarrow> only_stream h w w'"
  "fseek_file_func w h off org = (e, w') \<Longrightarrow> only_stream h w w'"
  by (auto simp: fseek64_file_func_def fseek_file_func_def fseeko_def only_stream_def split: option.splits if_splits)

lemma fopen_existing:
  assumes "stdio_contents w path = Some c"
  shows "\<exists>h w'. fopen_build w path Fopen_rb = (h, w') \<and> h \<noteq> 0 \<and> stdio_owned w' h = Some (c, 0) \<and>
    stdio_contents w' = stdio_contents w \<and> (\<forall>h' x. stdio_owned w h' = Some x \<longrightarrow> h' \<noteq> h \<and> stdio_owned w' h' = Some x)"
  using assms
  by (fastforce simp: fopen_build_def file_build_ioposix_def stdio_contents_def stdio_owned_def stdio_view_def
      streams_ok_def file_content_def fun_eq_iff split: if_splits option.splits)

lemma open_mode: "mode_fopen (ZLIB_FILEFUNC_MODE_READ OR ZLIB_FILEFUNC_MODE_EXISTING) = Some Fopen_rb"
  by (simp add: mode_fopen_def)

interpretation unz64: unz_files "table64 fill_fopen64_filefunc" stdio_owned "2 ^ 63" stdio_contents
proof -
  let ?ff = "table64 fill_fopen64_filefunc"
  note tables = table64_def fill_fopen64_filefunc_def zread64_def call_zseek64_def call_zopen64_def
  have r: "only_stream h w w'" if "zread64 ?ff h n w = (k, bs, w')" for h n w k bs w'
    using that by (intro only_stream_fread) (simp add: tables)
  have s: "only_stream h w w'" if "call_zseek64 ?ff h off org w = Some (e, w')" for h off org w e w'
    using that by (intro only_stream_fseek(1)) (simp add: tables)
  have "zip_file ?ff stdio_owned (2 ^ 63)"
    unfolding stdio_owned_def by (rule stdio64.restricted) (use r s only_stream_frame(1) in blast)+
  then show "unz_files ?ff stdio_owned (2 ^ 63) stdio_contents"
  proof (intro unz_files.intro unz_files_axioms.intro)
    fix w path c assume "stdio_contents w path = Some c"
    from fopen_existing [OF this] show "\<exists>h w'. call_zopen64 ?ff (Some path) (1 OR 4) w = Some (h, w') \<and>
        h \<noteq> 0 \<and> stdio_owned w' h = Some (c, 0) \<and> stdio_contents w' = stdio_contents w \<and>
        (\<forall>h' x. stdio_owned w h' = Some x \<longrightarrow> h' \<noteq> h \<and> stdio_owned w' h' = Some x)"
      by (simp add: tables fopen64_file_func_def open_mode [simplified])
  qed (assumption | erule only_stream_keeps [OF r] | erule only_stream_keeps [OF s])+
qed

interpretation unz32: unz_files "fill_zlib_filefunc64_32_def_from_filefunc32 fill_fopen_filefunc" stdio_owned "2 ^ 32 - 1"
  stdio_contents
proof -
  let ?ff = "fill_zlib_filefunc64_32_def_from_filefunc32 fill_fopen_filefunc"
  note tables = fill_zlib_filefunc64_32_def_from_filefunc32_def fill_fopen_filefunc_def zread64_def call_zseek64_def
    call_zopen64_def
  have r: "only_stream h w w'" if "zread64 ?ff h n w = (k, bs, w')" for h n w k bs w'
    using that by (intro only_stream_fread) (simp add: tables)
  have s: "only_stream h w w'" if "call_zseek64 ?ff h off org w = Some (e, w')" for h off org w e w'
    using that by (intro only_stream_fseek(2)) (simp add: tables Let_def split: if_splits)
  have "zip_file ?ff stdio_owned (2 ^ 32 - 1)"
    unfolding stdio_owned_def by (rule stdio32.restricted) (use r s only_stream_frame(1) in blast)+
  then show "unz_files ?ff stdio_owned (2 ^ 32 - 1) stdio_contents"
  proof (intro unz_files.intro unz_files_axioms.intro)
    fix w path c assume "stdio_contents w path = Some c"
    from fopen_existing [OF this] show "\<exists>h w'. call_zopen64 ?ff (Some path) (1 OR 4) w = Some (h, w') \<and>
        h \<noteq> 0 \<and> stdio_owned w' h = Some (c, 0) \<and> stdio_contents w' = stdio_contents w \<and>
        (\<forall>h' x. stdio_owned w h' = Some x \<longrightarrow> h' \<noteq> h \<and> stdio_owned w' h' = Some x)"
      by (simp add: tables fopen_file_func_def open_mode [simplified])
  qed (assumption | erule only_stream_keeps [OF r] | erule only_stream_keeps [OF s])+
qed

end
