(* ===== verification/Zip_Unpack.thy ===== *)
theory Zip_Unpack
  imports Zip_Frame Zip_Entry
begin

text \<open>
  What \<^verbatim>\<open>unzip.c\<close> makes of an archive that \<^verbatim>\<open>zip.c\<close> wrote: the records of the central directory and the
  local headers as the reader sees them, opening the archive, and going through its entries.
\<close>

unbundle bit_operations_syntax

section \<open>The headers as they are read\<close>

text \<open>Bytes that stand at a position of a file.\<close>

definition stands_at :: "byte list \<Rightarrow> nat \<Rightarrow> byte list \<Rightarrow> bool" where
  "stands_at c p bs \<longleftrightarrow> p + length bs \<le> length c \<and> take (length bs) (drop p c) = bs"

lemma stands_at_length: "stands_at c p bs \<Longrightarrow> p + length bs \<le> length c"
  by (simp add: stands_at_def)

lemma stands_at_append: "stands_at c p (a @ b) \<longleftrightarrow> stands_at c p a \<and> stands_at c (p + length a) b"
proof (cases "p + length (a @ b) \<le> length c")
  case True
  then have "length (take (length a) (drop p c)) = length a" by simp
  with True show ?thesis by (auto simp: stands_at_def take_add add.commute add.left_commute)
next
  case False
  then show ?thesis by (auto simp: stands_at_def)
qed

lemma stands_at_middle: "stands_at (a @ b @ d) (length a) b"
  by (simp add: stands_at_def)

lemma stands_at_number:
  "stands_at c p (zip64local_putValue_inmemory x n) \<Longrightarrow> file_number c p n = le_word (zip64local_putValue_inmemory x n)"
  by (simp add: stands_at_def file_number_def)

text \<open>A number as a field of \<open>n\<close> bytes keeps it.\<close>

definition kept :: "u64 \<Rightarrow> nat \<Rightarrow> u64" where
  "kept x n = le_word (zip64local_putValue_inmemory x n)"

lemma kept_id: "n \<le> 8 \<Longrightarrow> unat x < 256 ^ n \<Longrightarrow> kept x n = x"
  by (simp add: kept_def le_word_putValue_less)

lemma le_word_magic:
  "le_word (zip64local_putValue_inmemory LOCALHEADERMAGIC 4) = (LOCALHEADERMAGIC :: u64)"
  "le_word (zip64local_putValue_inmemory CENTRALHEADERMAGIC 4) = (CENTRALHEADERMAGIC :: u64)"
  "le_word (zip64local_putValue_inmemory 20 2) = (20 :: u64)"
  by (intro le_word_putValue_less; simp)+

lemma local_header_numbers:
  assumes "stands_at c p (local_header a crc k)"
  shows "p + 30 \<le> length c" "file_number c p 4 = LOCALHEADERMAGIC" "file_number c (p + 8) 2 = kept (of_int (na_method a)) 2"
    "file_number c (p + 14) 4 = kept crc 4" "file_number c (p + 18) 4 = kept k 4" "file_number c (p + 22) 4 = kept k 4"
    "file_number c (p + 26) 2 = kept (of_nat (length (entry_filename a))) 2"
    "file_number c (p + 28) 2 = kept (of_nat (length (na_extrafield_local a))) 2"
  using assms stands_at_number [of c p LOCALHEADERMAGIC 4] stands_at_length [OF assms]
  by (simp_all add: local_header_def Let_def stands_at_append kept_def stands_at_number le_word_magic add.commute)

lemma length_central_record:
  "length (central_record a disk off crc k) =
     46 + length (entry_filename a) + length (na_extrafield_global a) + length (entry_comment a)"
  by (simp add: central_record_def Let_def)

lemma central_record_numbers:
  assumes "stands_at c d (central_record a disk off crc k)"
  shows "file_number c d 4 = CENTRALHEADERMAGIC"
    "file_number c (d + 4) 2 = kept (na_versionMadeBy a) 2"
    "file_number c (d + 6) 2 = 20"
    "file_number c (d + 8) 2 = kept (entry_flag a) 2"
    "file_number c (d + 10) 2 = kept (of_int (na_method a)) 2"
    "file_number c (d + 12) 4 = kept (entry_dosDate a) 4"
    "file_number c (d + 16) 4 = kept crc 4"
    "file_number c (d + 20) 4 = kept k 4"
    "file_number c (d + 24) 4 = kept k 4"
    "file_number c (d + 28) 2 = kept (of_nat (length (entry_filename a))) 2"
    "file_number c (d + 30) 2 = kept (of_nat (length (na_extrafield_global a))) 2"
    "file_number c (d + 32) 2 = kept (of_nat (length (entry_comment a))) 2"
    "file_number c (d + 34) 2 = kept disk 2"
    "file_number c (d + 36) 2 = kept (case na_zipfi a of None \<Rightarrow> 0 | Some zipfi \<Rightarrow> zf_internal_fa zipfi) 2"
    "file_number c (d + 38) 4 = kept (case na_zipfi a of None \<Rightarrow> 0 | Some zipfi \<Rightarrow> zf_external_fa zipfi) 4"
    "file_number c (d + 42) 4 = kept off 4"
  using assms stands_at_number [of c d CENTRALHEADERMAGIC 4] stands_at_number [of c "d + 6" 20 2]
  by (simp_all add: central_record_def Let_def stands_at_append kept_def stands_at_number le_word_magic add.commute)

definition record_info :: "new_file_args \<Rightarrow> u64 \<Rightarrow> u64 \<Rightarrow> u64 \<Rightarrow> u64 \<Rightarrow> unz_file_info64" where
  "record_info a disk off crc k =
     \<lparr>fi_version = kept (na_versionMadeBy a) 2, fi_version_needed = 20, fi_flag = kept (entry_flag a) 2,
      fi_compression_method = kept (of_int (na_method a)) 2, fi_dosDate = kept (entry_dosDate a) 4, fi_crc = kept crc 4,
      fi_compressed_size = kept k 4, fi_uncompressed_size = kept k 4,
      fi_size_filename = kept (of_nat (length (entry_filename a))) 2,
      fi_size_file_extra = kept (of_nat (length (na_extrafield_global a))) 2,
      fi_size_file_comment = kept (of_nat (length (entry_comment a))) 2, fi_disk_num_start = kept disk 2,
      fi_internal_fa = kept (case na_zipfi a of None \<Rightarrow> 0 | Some zipfi \<Rightarrow> zf_internal_fa zipfi) 2,
      fi_external_fa = kept (case na_zipfi a of None \<Rightarrow> 0 | Some zipfi \<Rightarrow> zf_external_fa zipfi) 4,
      fi_tmu_date = unz64local_DosDateToTmuDate (kept (entry_dosDate a) 4), fi_disk_offset = kept off 4,
      fi_size_file_extra_internal = 0\<rparr>"

text \<open>The reader's description of the current entry agrees with its local header.\<close>

definition describes :: "('w, 'z) unz64_s \<Rightarrow> new_file_args \<Rightarrow> u64 \<Rightarrow> u64 \<Rightarrow> bool" where
  "describes s a crc k \<longleftrightarrow>
     fi_compression_method (cur_file_info s) = kept (of_int (na_method a)) 2 \<and> fi_crc (cur_file_info s) = kept crc 4 \<and>
     fi_compressed_size (cur_file_info s) = kept k 4 \<and> fi_uncompressed_size (cur_file_info s) = kept k 4 \<and>
     fi_size_filename (cur_file_info s) = kept (of_nat (length (entry_filename a))) 2 \<and>
     fi_disk_num_start (cur_file_info s) = number_disk s"

definition entry_current :: "('w, 'z) unz64_s \<Rightarrow> new_file_args \<Rightarrow> nat \<Rightarrow> u64 \<Rightarrow> u64 \<Rightarrow> bool" where
  "entry_current s a p crc k \<longleftrightarrow>
     current_file_ok s \<and> describes s a crc k \<and> number_disk s = number_disk_with_CD (gi s) \<and>
     offset_curfile (cur_file_info_internal s) + byte_before_the_zipfile s = of_nat p \<and>
     fi_byte_before_the_zipfile (cur_file_info_internal s) = byte_before_the_zipfile s"

context zip_file begin

lemma read_central_fields_view:
  assumes "stands_at c d (central_record a disk off crc k)" "view w h = Some (c, d + 4)"
  shows "\<exists>w'. read_central_fields ff h (UNZ_OK, w) = (record_info a disk off crc k, kept off 4, UNZ_OK, w') \<and>
    view w' h = Some (c, d + 46)"
proof -
  have len: "d + 46 \<le> length c"
    using stands_at_length [OF assms(1)] length_central_record [of a disk off crc k] by fastforce
  obtain w1 where 1: "checked (unz64local_getShort ff h) (UNZ_OK, w) = (file_number c (d + 4) 2, UNZ_OK, w1)"
    "view w1 h = Some (c, d + 6)" using checked_short_view [OF assms(2), of UNZ_OK] len by auto
  obtain w2 where 2: "checked (unz64local_getShort ff h) (UNZ_OK, w1) = (file_number c (d + 6) 2, UNZ_OK, w2)"
    "view w2 h = Some (c, d + 8)" using checked_short_view [OF 1(2), of UNZ_OK] len by auto
  obtain w3 where 3: "checked (unz64local_getShort ff h) (UNZ_OK, w2) = (file_number c (d + 8) 2, UNZ_OK, w3)"
    "view w3 h = Some (c, d + 10)" using checked_short_view [OF 2(2), of UNZ_OK] len by auto
  obtain w4 where 4: "checked (unz64local_getShort ff h) (UNZ_OK, w3) = (file_number c (d + 10) 2, UNZ_OK, w4)"
    "view w4 h = Some (c, d + 12)" using checked_short_view [OF 3(2), of UNZ_OK] len by auto
  obtain w5 where 5: "checked (unz64local_getLong ff h) (UNZ_OK, w4) = (file_number c (d + 12) 4, UNZ_OK, w5)"
    "view w5 h = Some (c, d + 16)" using checked_long_view [OF 4(2), of UNZ_OK] len by auto
  obtain w6 where 6: "checked (unz64local_getLong ff h) (UNZ_OK, w5) = (file_number c (d + 16) 4, UNZ_OK, w6)"
    "view w6 h = Some (c, d + 20)" using checked_long_view [OF 5(2), of UNZ_OK] len by auto
  obtain w7 where 7: "checked (unz64local_getLong ff h) (UNZ_OK, w6) = (file_number c (d + 20) 4, UNZ_OK, w7)"
    "view w7 h = Some (c, d + 24)" using checked_long_view [OF 6(2), of UNZ_OK] len by auto
  obtain w8 where 8: "checked (unz64local_getLong ff h) (UNZ_OK, w7) = (file_number c (d + 24) 4, UNZ_OK, w8)"
    "view w8 h = Some (c, d + 28)" using checked_long_view [OF 7(2), of UNZ_OK] len by auto
  obtain w9 where 9: "checked (unz64local_getShort ff h) (UNZ_OK, w8) = (file_number c (d + 28) 2, UNZ_OK, w9)"
    "view w9 h = Some (c, d + 30)" using checked_short_view [OF 8(2), of UNZ_OK] len by auto
  obtain w10 where 10: "checked (unz64local_getShort ff h) (UNZ_OK, w9) = (file_number c (d + 30) 2, UNZ_OK, w10)"
    "view w10 h = Some (c, d + 32)" using checked_short_view [OF 9(2), of UNZ_OK] len by auto
  obtain w11 where 11: "checked (unz64local_getShort ff h) (UNZ_OK, w10) = (file_number c (d + 32) 2, UNZ_OK, w11)"
    "view w11 h = Some (c, d + 34)" using checked_short_view [OF 10(2), of UNZ_OK] len by auto
  obtain w12 where 12: "checked (unz64local_getShort ff h) (UNZ_OK, w11) = (file_number c (d + 34) 2, UNZ_OK, w12)"
    "view w12 h = Some (c, d + 36)" using checked_short_view [OF 11(2), of UNZ_OK] len by auto
  obtain w13 where 13: "checked (unz64local_getShort ff h) (UNZ_OK, w12) = (file_number c (d + 36) 2, UNZ_OK, w13)"
    "view w13 h = Some (c, d + 38)" using checked_short_view [OF 12(2), of UNZ_OK] len by auto
  obtain w14 where 14: "checked (unz64local_getLong ff h) (UNZ_OK, w13) = (file_number c (d + 38) 4, UNZ_OK, w14)"
    "view w14 h = Some (c, d + 42)" using checked_long_view [OF 13(2), of UNZ_OK] len by auto
  obtain w15 where 15: "checked (unz64local_getLong ff h) (UNZ_OK, w14) = (file_number c (d + 42) 4, UNZ_OK, w15)"
    "view w15 h = Some (c, d + 46)" using checked_long_view [OF 14(2), of UNZ_OK] len by auto
  show ?thesis
    using 1(1) 2(1) 3(1) 4(1) 5(1) 6(1) 7(1) 8(1) 9(1) 10(1) 11(1) 12(1) 13(1) 14(1) 15
    by (simp add: read_central_fields_def Let_def record_info_def central_record_numbers [OF assms(1)])
qed

text \<open>The name goes to a buffer with room for it and for its terminator.\<close>

lemma info_filename_view:
  assumes "view w h = Some (c, d)" "stands_at c d name" "fi_size_filename fi = of_nat (length name)" "length name < 65536"
    and "case filename of None \<Rightarrow> True | Some room \<Rightarrow> length name < unat room"
  shows "\<exists>lSeek w' q. info_filename ff h fi filename 0 UNZ_OK w =
      (case filename of None \<Rightarrow> [] | Some _ \<Rightarrow> name @ [0], lSeek, UNZ_OK, w') \<and> view w' h = Some (c, q)"
proof (cases filename)
  case None
  with assms(1) show ?thesis by (simp add: info_filename_def Let_def)
next
  case (Some room)
  have u: "unat (of_nat (length name) :: u64) = length name" using assms(4) by (intro unat_u64_of_nat) simp
  have less: "(of_nat (length name) :: u64) < room" using assms(5) Some u by (simp add: word_less_nat_alt)
  have part: "part_length (of_nat (length name)) room = of_nat (length name)" using less by (simp add: part_length_def)
  have name: "terminated (of_nat (length name)) room name = name @ [0]"
    using less u by (simp add: terminated_def buffer_of_def)
  show ?thesis
  proof (cases "name = []")
    case True
    then show ?thesis
      using assms(1) Some name by (simp add: info_filename_def assms(3) read_part_def Let_def part_length_def)
  next
    case False
    then have pos: "0 < (of_nat (length name) :: u64)" "0 < room"
      using u less by (auto simp: word_less_nat_alt)
    obtain w' where "zread64 ff h (of_nat (length name)) w = (of_nat (length name), name, w')" "view w' h = Some (c, d + length name)"
      using zread_law [OF assms(1), of "of_nat (length name)"] assms(2) unfolding u stands_at_def by auto
    with pos name u Some show ?thesis
      by (simp add: info_filename_def assms(3) part read_part_def Let_def)
  qed
qed

lemma get_info_view:
  assumes "view w (filestream_with_CD s) = Some (c, q)" "z_filefunc s = ff"
    and "pos_in_central_dir s + byte_before_the_zipfile s = of_nat d" "d < 2 ^ 63"
    and "stands_at c d (central_record a disk off crc k)" "length (entry_filename a) < 65536" "na_extrafield_global a = []"
    and "case filename of None \<Rightarrow> True | Some room \<Rightarrow> length (entry_filename a) < unat room"
  shows "\<exists>w' q'. unz64local_GetCurrentFileInfoInternal s filename None None w =
      Some (UNZ_OK, record_info a disk off crc k,
        \<lparr>offset_curfile = kept off 4,
         fi_byte_before_the_zipfile = (if kept disk 2 = number_disk_with_CD (gi s) then byte_before_the_zipfile s else 0)\<rparr>,
        \<lparr>ib_filename = (case filename of None \<Rightarrow> [] | Some _ \<Rightarrow> entry_filename a @ [0]), ib_extrafield = [], ib_comment = []\<rparr>,
        w') \<and>
    view w' (filestream_with_CD s) = Some (c, q')"
proof -
  let ?h = "filestream_with_CD s" and ?fi = "record_info a disk off crc k"
  have u: "unat (of_nat d :: u64) = d" using assms(4) by (intro unat_u64_of_nat) simp
  obtain w1 where 1: "call_zseek64 ff ?h (of_nat d) ZLIB_FILEFUNC_SEEK_SET w = Some (0, w1)" "view w1 ?h = Some (c, d)"
    using zseek_set_law [OF assms(1), of "of_nat d"] assms(4) unfolding u by blast
  have d: "d + 4 \<le> length c" using stands_at_length [OF assms(5)] by (simp add: length_central_record)
  obtain w2 where 2: "unz64local_getLong ff ?h w1 = (UNZ_OK, CENTRALHEADERMAGIC, w2)" "view w2 ?h = Some (c, d + 4)"
    using getLong_view [OF 1(2)] central_record_numbers(1) [OF assms(5)] d by (auto simp: file_number_def)
  obtain w3 where 3: "read_central_fields ff ?h (UNZ_OK, w2) = (?fi, kept off 4, UNZ_OK, w3)" "view w3 ?h = Some (c, d + 46)"
    using read_central_fields_view [OF assms(5) 2(2)] by blast
  have name: "stands_at c (d + 46) (entry_filename a)"
    using assms(5) by (simp add: central_record_def Let_def stands_at_append add.commute)
  have size: "fi_size_filename ?fi = of_nat (length (entry_filename a))" "fi_size_file_extra ?fi = 0"
    using assms(6,7) by (simp_all add: record_info_def kept_id unat_u64_of_nat)
  obtain lSeek w4 q' where 4: "info_filename ff ?h ?fi filename 0 UNZ_OK w3 =
      (case filename of None \<Rightarrow> [] | Some _ \<Rightarrow> entry_filename a @ [0], lSeek, UNZ_OK, w4)" "view w4 ?h = Some (c, q')"
    using info_filename_view [OF 3(2) name size(1) assms(6,8)] by blast
  have disk: "fi_disk_num_start ?fi = kept disk 2" by (simp add: record_info_def)
  show ?thesis
    unfolding unz64local_GetCurrentFileInfoInternal_def Let_def assms(2,3) 1(1)
    by (simp only: bind.bind_lunit prod.case 2(1) 3(1) 4(1) refl if_False if_True simp_thms
        info_extrafield_def info_parse_extra_def info_comment_def size(2) disk option.case Let_def Option.bind.simps)
      (use 4(2) in simp)
qed

lemma check_header_view:
  assumes "stands_at c p (local_header a crc k)" "view w (filestream s) = Some (c, q)" "z_filefunc s = ff"
    and "offset_curfile (cur_file_info_internal s) + fi_byte_before_the_zipfile (cur_file_info_internal s) = of_nat p"
    and "p < 2 ^ 63" "describes s a crc k" "na_method a = 0" "pfile_in_zip_read s = None"
  shows "\<exists>w'. unz64local_CheckCurrentFileCoherencyHeader s w =
      Some (UNZ_OK,
        ucast (kept (of_nat (length (entry_filename a))) 2) + ucast (kept (of_nat (length (na_extrafield_local a))) 2),
        offset_curfile (cur_file_info_internal s) + 0x1e + kept (of_nat (length (entry_filename a))) 2,
        ucast (kept (of_nat (length (na_extrafield_local a))) 2), s, w') \<and>
    view w' (filestream s) = Some (c, p + 30)"
proof -
  let ?h = "filestream s"
  note d = assms(6) [unfolded describes_def] and n = local_header_numbers [OF assms(1)]
  note len = n(1)
  have u: "unat (of_nat p :: u64) = p" using assms(5) by (intro unat_u64_of_nat) simp
  obtain v where v: "call_zseek64 ff ?h (of_nat p) ZLIB_FILEFUNC_SEEK_SET w = Some (0, v)" "view v ?h = Some (c, p)"
    using zseek_set_law [OF assms(2), of "of_nat p"] assms(5) unfolding u by blast
  obtain v1 where m: "unz64local_getLong ff ?h v = (UNZ_OK, LOCALHEADERMAGIC, v1)" "view v1 ?h = Some (c, p + 4)"
    using getLong_view [OF v(2)] n(1,2) by (auto simp: file_number_def)
  obtain w1 where 1: "checked (unz64local_getShort ff ?h) (UNZ_OK, v1) = (file_number c (p + 4) 2, UNZ_OK, w1)"
    "view w1 ?h = Some (c, p + 6)" using checked_short_view [OF m(2), of UNZ_OK] len by auto
  obtain w2 where 2: "checked (unz64local_getShort ff ?h) (UNZ_OK, w1) = (file_number c (p + 6) 2, UNZ_OK, w2)"
    "view w2 ?h = Some (c, p + 8)" using checked_short_view [OF 1(2), of UNZ_OK] len by auto
  obtain w3 where 3: "checked (unz64local_getShort ff ?h) (UNZ_OK, w2) = (file_number c (p + 8) 2, UNZ_OK, w3)"
    "view w3 ?h = Some (c, p + 10)" using checked_short_view [OF 2(2), of UNZ_OK] len by auto
  obtain w4 where 4: "checked (unz64local_getLong ff ?h) (UNZ_OK, w3) = (file_number c (p + 10) 4, UNZ_OK, w4)"
    "view w4 ?h = Some (c, p + 14)" using checked_long_view [OF 3(2), of UNZ_OK] len by auto
  obtain w5 where 5: "checked (unz64local_getLong ff ?h) (UNZ_OK, w4) = (file_number c (p + 14) 4, UNZ_OK, w5)"
    "view w5 ?h = Some (c, p + 18)" using checked_long_view [OF 4(2), of UNZ_OK] len by auto
  obtain w6 where 6: "checked (unz64local_getLong ff ?h) (UNZ_OK, w5) = (file_number c (p + 18) 4, UNZ_OK, w6)"
    "view w6 ?h = Some (c, p + 22)" using checked_long_view [OF 5(2), of UNZ_OK] len by auto
  obtain w7 where 7: "checked (unz64local_getLong ff ?h) (UNZ_OK, w6) = (file_number c (p + 22) 4, UNZ_OK, w7)"
    "view w7 ?h = Some (c, p + 26)" using checked_long_view [OF 6(2), of UNZ_OK] len by auto
  obtain w8 where 8: "checked (unz64local_getShort ff ?h) (UNZ_OK, w7) = (file_number c (p + 26) 2, UNZ_OK, w8)"
    "view w8 ?h = Some (c, p + 28)" using checked_short_view [OF 7(2), of UNZ_OK] len by auto
  obtain w9 where 9: "checked (unz64local_getShort ff ?h) (UNZ_OK, w8) = (file_number c (p + 28) 2, UNZ_OK, w9)"
    "view w9 ?h = Some (c, p + 30)" using checked_short_view [OF 8(2), of UNZ_OK] len by auto
  have disk: "unzGoToNextDisk s w = Some (UNZ_OK, s, w)" using d assms(8) by (simp add: unzGoToNextDisk_def)
  have stored0: "kept (of_int (na_method a)) 2 = 0" using assms(7) by (simp add: kept_id)
  note st = 1(1) 2(1) 3(1) 4(1) 5(1) 6(1) 7(1) 8(1) 9(1)
  show ?thesis
    unfolding unz64local_CheckCurrentFileCoherencyHeader_def
    by (simp only: disk bind.bind_lunit prod.case refl if_False if_True simp_thms Let_def assms(3,4) v(1) m(1) st n d stored0
        Option.bind.simps) (use 9(2) in simp)
qed

lemma open_stored_view:
  assumes "stands_at c p (local_header a crc (of_nat (length data)) @ data)" "view w (filestream s) = Some (c, q)"
    and "z_filefunc s = ff" "entry_current s a p crc (of_nat (length data))" "pfile_in_zip_read s = None"
    and "stored_args a" "length data < 0xffffffff" "length c < 2 ^ 63"
  shows "\<exists>r w'. unzOpenCurrentFile zl heap s w =
      Some (UNZ_OK, s\<lparr>pfile_in_zip_read := Some r, us_pcrc_32_tab := None\<rparr>, w') \<and>
    reading view c data 0 r w' \<and> ri_crc32 r = 0 \<and> crc32_wait r = kept crc 4 \<and> ri_filestream r = filestream s"
proof -
  let ?k = "of_nat (length data) :: u64" and ?name = "length (entry_filename a)" and ?extra = "length (na_extrafield_local a)"
  note e = assms(4) [unfolded entry_current_def] and l = assms(6) [unfolded stored_args_def]
  have hd: "stands_at c p (local_header a crc ?k)" "stands_at c (p + (30 + ?name + ?extra)) data"
    using assms(1) by (simp_all add: stands_at_append length_local_header)
  have pos: "p + (30 + ?name + ?extra) + length data < 2 ^ 63" using stands_at_length [OF hd(2)] assms(8) by simp
  then have p: "p < 2 ^ 63" by simp
  have kn: "kept (of_nat ?name) 2 = of_nat ?name" "kept (of_nat ?extra) 2 = of_nat ?extra" "kept ?k 4 = ?k"
    "kept (of_int (na_method a)) 2 = 0"
    using l assms(7) by (simp_all add: kept_id unat_u64_of_nat)
  have off: "offset_curfile (cur_file_info_internal s) + fi_byte_before_the_zipfile (cur_file_info_internal s) = of_nat p"
    using e by simp
  obtain w1 where 1: "unz64local_CheckCurrentFileCoherencyHeader s w =
      Some (UNZ_OK, ucast (of_nat ?name :: u64) + ucast (of_nat ?extra :: u64),
        offset_curfile (cur_file_info_internal s) + 0x1e + of_nat ?name, ucast (of_nat ?extra :: u64), s, w1)"
    "view w1 (filestream s) = Some (c, p + 30)"
    using check_header_view [OF hd(1) assms(2,3) off p _ _ assms(5)] e l unfolding kn by auto
  define size where "size = ucast (of_nat ?name :: u64) + (ucast (of_nat ?extra :: u64) :: u32)"
  have size: "(ucast size :: u64) = of_nat ?name + of_nat ?extra"
  proof -
    have "size = of_nat (?name + ?extra)"
      using l by (simp add: size_def unsigned_of_nat take_bit_nat_eq_self)
    then show ?thesis using l ucast_u32_of_nat [of "?name + ?extra"] by simp
  qed
  obtain err r where r: "open_read_info zl s heap size
      (offset_curfile (cur_file_info_internal s) + 0x1e + of_nat ?name) (ucast (of_nat ?extra :: u64)) False = (err, r)"
    by (rule prod.exhaust)
  have fi: "fi_compression_method (cur_file_info s) = 0" "fi_compressed_size (cur_file_info s) = ?k"
    "fi_uncompressed_size (cur_file_info s) = ?k" "fi_crc (cur_file_info s) = kept crc 4"
    using e kn by (simp_all add: describes_def)
  have r2: "err = Z_OK" "ri_compression_method r = 0" "\<not> ri_raw r" "ri_filestream r = filestream s" "ri_crc32 r = 0"
    "crc32_wait r = kept crc 4" "length (read_buffer r) = UNZ_BUFSIZE" "zs_avail_in r = 0" "zs_next_in r = None"
    "rest_read_compressed r = ?k" "rest_read_uncompressed r = ?k"
    "pos_in_zipfile r = offset_curfile (cur_file_info_internal s) + 0x1e + ucast size"
    "ri_byte_before_the_zipfile r = byte_before_the_zipfile s"
    using r e fi by (auto simp: open_read_info_def Let_def buffer_of_def split: prod.splits)
  have "unzOpenCurrentFile zl heap s w = Some (UNZ_OK, s\<lparr>pfile_in_zip_read := Some r, us_pcrc_32_tab := None\<rparr>, w1)"
    using e r r2(1) by (simp add: unzOpenCurrentFile_def unzOpenCurrentFile3_def assms(5) 1(1) size_def [symmetric] Let_def)
  moreover have "reading view c data 0 r w1"
  proof (rule readingI [where pending = "[]" and rest = data and pos = "p + (30 + ?name + ?extra)" and q = "p + 30"])
    show "buffered r [] data" using r2 by (simp add: buffered_def)
    show "pos_in_zipfile r + ri_byte_before_the_zipfile r = of_nat (p + (30 + ?name + ?extra))"
      using e by (simp add: r2 size algebra_simps)
    show "take (length data) (drop (p + (30 + ?name + ?extra)) c) = data" using hd(2) by (simp add: stands_at_def)
  qed (use r2 1(2) pos assms(7) in auto)
  ultimately show ?thesis using r2 by blast
qed

end

section \<open>Going through an archive\<close>

text \<open>
  A caller that takes everything out of an archive, with the calls in the order in which \<^verbatim>\<open>Zip.swift\<close> makes
  them: open the entry, ask for its size and name, read it in steps, close it, go to the next one. The result is
  the code that ended the loop and the names and data so far.
\<close>

definition unpack_entry ::
  "nat \<Rightarrow> nat \<Rightarrow> 'z zlib_fns \<Rightarrow> byte list \<Rightarrow> u32 \<Rightarrow> ('w, 'z) unz64_s \<Rightarrow> 'w \<Rightarrow>
   (int \<times> byte list \<times> byte list \<times> ('w, 'z) unz64_s \<times> 'w) option" where
  "unpack_entry turns n zl heap step s w =
     do {
       (err, s, w) \<leftarrow> unzOpenCurrentFile zl heap s w;
       if err \<noteq> UNZ_OK then Some (err, [], [], s, w)
       else
         do {
           (err, fi, _, w) \<leftarrow> unzGetCurrentFileInfo64 s None None None w;
           if err \<noteq> UNZ_OK then Some (err, [], [], snd (unzCloseCurrentFile s), w)
           else
             do {
               (_, fi, bufs, w) \<leftarrow> unzGetCurrentFileInfo64 s (Some (fi_size_filename fi + 1)) None None w;
               (r, data, s, w) \<leftarrow> read_all (unat (fi_uncompressed_size fi) + 1) turns n zl s step w;
               let (err, s) = unzCloseCurrentFile s;
               Some (if r < 0 then r else err, take (unat (fi_size_filename fi)) (ib_filename bufs), data, s, w)
             }
         }
     }"

fun unpack ::
  "nat \<Rightarrow> nat \<Rightarrow> nat \<Rightarrow> 'z zlib_fns \<Rightarrow> byte list \<Rightarrow> u32 \<Rightarrow> ('w, 'z) unz64_s \<Rightarrow> 'w \<Rightarrow>
   (int \<times> (byte list \<times> byte list) list \<times> ('w, 'z) unz64_s \<times> 'w) option" where
  "unpack 0 turns n zl heap step s w = None"
| "unpack (Suc f) turns n zl heap step s w =
     do {
       (err, name, data, s, w) \<leftarrow> unpack_entry turns n zl heap step s w;
       if err \<noteq> UNZ_OK then Some (err, [], s, w)
       else
         do {
           (err, s, w) \<leftarrow> unzGoToNextFile s w;
           if err \<noteq> UNZ_OK then Some (err, [(name, data)], s, w)
           else
             do {
               (err, es, s, w) \<leftarrow> unpack f turns n zl heap step s w;
               Some (err, (name, data) # es, s, w)
             }
         }
     }"

definition opened ::
  "'w zlib_filefunc64_32_def \<Rightarrow> ('w \<Rightarrow> addr \<Rightarrow> (byte list \<times> nat) option) \<Rightarrow> byte list \<Rightarrow> ('w, 'z) unz64_s \<Rightarrow> 'w \<Rightarrow> bool" where
  "opened ff view c s w \<longleftrightarrow> z_filefunc s = ff \<and>
     (\<exists>q. view w (filestream s) = Some (c, q)) \<and> (\<exists>q. view w (filestream_with_CD s) = Some (c, q))"

text \<open>The record of the current entry, where the reader stands in the central directory.\<close>

definition at_record :: "byte list \<Rightarrow> ('w, 'z) unz64_s \<Rightarrow> nat \<Rightarrow> new_file_args \<Rightarrow> u64 \<Rightarrow> u64 \<Rightarrow> u64 \<Rightarrow> bool" where
  "at_record c s d a off crc k \<longleftrightarrow>
     pos_in_central_dir s + byte_before_the_zipfile s = of_nat d \<and> d < 2 ^ 63 \<and>
     stands_at c d (central_record a (number_disk_with_CD (gi s)) off crc k) \<and>
     number_disk_with_CD (gi s) < 0x10000 \<and> number_disk s = number_disk_with_CD (gi s)"

text \<open>An entry as the round trip is about: stored, with no extra field in its record.\<close>

definition plain_args :: "new_file_args \<Rightarrow> bool" where
  "plain_args a \<longleftrightarrow> stored_args a \<and> na_extrafield_global a = []"

lemma record_info_simps:
  assumes "plain_args a" "k < 0xffffffff" "disk < 0x10000"
  shows "fi_size_filename (record_info a disk off crc k) = of_nat (length (entry_filename a))"
    "fi_size_file_extra (record_info a disk off crc k) = 0"
    "fi_size_file_comment (record_info a disk off crc k) = of_nat (length (entry_comment a))"
    "fi_uncompressed_size (record_info a disk off crc k) = k" "fi_disk_num_start (record_info a disk off crc k) = disk"
  using assms by (simp_all add: record_info_def plain_args_def stored_args_def kept_id unat_u64_of_nat word_less_nat_alt)

context unz_files begin

lemma opened_other:
  assumes "opened ff view c s w" "framed w h w' h = Some (c, q)"
  shows "opened ff view c s w'"
  using assms framed_other [OF assms(2)] unfolding opened_def by blast

lemma load_view:
  assumes "opened ff view c s w" "at_record c s d a off crc k" "plain_args a"
    and "off + byte_before_the_zipfile s = of_nat p" "off < 0xffffffff"
    and "case filename of None \<Rightarrow> True | Some room \<Rightarrow> length (entry_filename a) < unat room"
  shows "\<exists>s' bufs w'. load_current_file s filename None None w = Some (UNZ_OK, bufs, s', w') \<and>
    ib_filename bufs = (case filename of None \<Rightarrow> [] | Some _ \<Rightarrow> entry_filename a @ [0]) \<and>
    s' = s\<lparr>cur_file_info := record_info a (number_disk_with_CD (gi s)) off crc k, current_file_ok := True,
           cur_file_info_internal := \<lparr>offset_curfile = off, fi_byte_before_the_zipfile = byte_before_the_zipfile s\<rparr>\<rparr> \<and>
    opened ff view c s' w' \<and> contents w' = contents w \<and> entry_current s' a p crc k \<and> at_record c s' d a off crc k"
proof -
  let ?disk = "number_disk_with_CD (gi s)" and ?h = "filestream_with_CD s"
  note r = assms(2) [unfolded at_record_def] and a = assms(3) [unfolded plain_args_def stored_args_def]
  obtain q where v: "framed w ?h w ?h = Some (c, q)" using assms(1) by (auto simp: opened_def framed_start)
  have ff: "z_filefunc s = ff" using assms(1) by (simp add: opened_def)
  have k: "kept off 4 = off" "kept ?disk 2 = ?disk" using assms(5) r by (simp_all add: kept_id word_less_nat_alt)
  obtain bufs w' q' where 1: "unz64local_GetCurrentFileInfoInternal s filename None None w =
      Some (UNZ_OK, record_info a ?disk off crc k,
        \<lparr>offset_curfile = off, fi_byte_before_the_zipfile = byte_before_the_zipfile s\<rparr>, bufs, w')"
    "framed w ?h w' ?h = Some (c, q')" "ib_filename bufs = (case filename of None \<Rightarrow> [] | Some _ \<Rightarrow> entry_filename a @ [0])"
    using zip_file.get_info_view [OF framed_file v ff, of d a ?disk off crc k filename] r a assms(6) unfolding k
    by (auto split: option.splits)
  let ?s = "s\<lparr>cur_file_info := record_info a ?disk off crc k, current_file_ok := True,
      cur_file_info_internal := \<lparr>offset_curfile = off, fi_byte_before_the_zipfile = byte_before_the_zipfile s\<rparr>\<rparr>"
  have "load_current_file s filename None None w = Some (UNZ_OK, bufs, ?s, w')"
    by (simp add: load_current_file_def 1(1))
  moreover have "opened ff view c ?s w'"
    using opened_other [OF assms(1) 1(2)] by (simp add: opened_def)
  moreover have "entry_current ?s a p crc k"
    using assms(4) r k(2) by (simp add: entry_current_def describes_def record_info_def)
  moreover have "at_record c ?s d a off crc k" using r by (simp add: at_record_def)
  ultimately show ?thesis using framedD(2) [OF 1(2)] 1(3) by blast
qed

lemma record_view:
  assumes "opened ff view c s w" "at_record c s d a off crc k" "plain_args a"
    and "case filename of None \<Rightarrow> True | Some room \<Rightarrow> length (entry_filename a) < unat room"
  shows "\<exists>bufs w'. unzGetCurrentFileInfo64 s filename None None w =
      Some (UNZ_OK, record_info a (number_disk_with_CD (gi s)) off crc k, bufs, w') \<and>
    ib_filename bufs = (case filename of None \<Rightarrow> [] | Some _ \<Rightarrow> entry_filename a @ [0]) \<and>
    opened ff view c s w' \<and> contents w' = contents w"
proof -
  let ?disk = "number_disk_with_CD (gi s)" and ?h = "filestream_with_CD s"
  note r = assms(2) [unfolded at_record_def] and a = assms(3) [unfolded plain_args_def stored_args_def]
  obtain q where v: "framed w ?h w ?h = Some (c, q)" using assms(1) by (auto simp: opened_def framed_start)
  have ff: "z_filefunc s = ff" using assms(1) by (simp add: opened_def)
  obtain fii bufs w' q' where 1: "unz64local_GetCurrentFileInfoInternal s filename None None w =
      Some (UNZ_OK, record_info a ?disk off crc k, fii, bufs, w')" "framed w ?h w' ?h = Some (c, q')"
    "ib_filename bufs = (case filename of None \<Rightarrow> [] | Some _ \<Rightarrow> entry_filename a @ [0])"
    using zip_file.get_info_view [OF framed_file v ff, of d a ?disk off crc k filename] r a assms(4)
    by (metis (no_types, lifting) info_buffers.simps(1))
  show ?thesis
    using 1(1,3) opened_other [OF assms(1) 1(2)] framedD(2) [OF 1(2)]
    by (simp add: unzGetCurrentFileInfo64_def)
qed

lemma unpack_entry_view:
  assumes "opened ff view c s w" "at_record c s d a off crc (of_nat (length data))" "plain_args a"
    and "entry_current s a p crc (of_nat (length data))"
    and "stands_at c p (local_header a crc (of_nat (length data)) @ data)" "pfile_in_zip_read s = None"
    and "length data < 0xffffffff" "length c < 2 ^ 63" "crc_laws (zl_crc32 zl)" "crc = zl_crc32 zl 0 data"
    and "0 < unat step" "unat step < 2 ^ 31" "unat step < turns"
  shows "\<exists>w'. unpack_entry turns (Suc (Suc n)) zl heap step s w =
      Some (UNZ_OK, entry_filename a, data, s\<lparr>pfile_in_zip_read := None, us_pcrc_32_tab := None\<rparr>, w') \<and>
    opened ff view c s w' \<and> contents w' = contents w"
proof -
  let ?h = "filestream s" and ?k = "of_nat (length data) :: u64"
  have a: "stored_args a" "length (entry_filename a) < 65536" using assms(3) by (simp_all add: plain_args_def stored_args_def)
  obtain q where v: "framed w ?h w ?h = Some (c, q)" using assms(1) by (auto simp: opened_def framed_start)
  have ff: "z_filefunc s = ff" using assms(1) by (simp add: opened_def)
  obtain r w1 where 1: "unzOpenCurrentFile zl heap s w =
      Some (UNZ_OK, s\<lparr>pfile_in_zip_read := Some r, us_pcrc_32_tab := None\<rparr>, w1)"
    "reading (framed w ?h) c data 0 r w1" "ri_crc32 r = 0" "crc32_wait r = kept crc 4" "ri_filestream r = ?h"
    using zip_file.open_stored_view [OF framed_file assms(5) v ff assms(4,6) a(1) assms(7,8)] by blast
  let ?s = "s\<lparr>pfile_in_zip_read := Some r, us_pcrc_32_tab := None\<rparr>"
  obtain q1 where v1: "framed w ?h w1 ?h = Some (c, q1)" using 1(2,5) by (auto simp: reading_def)
  have o1: "opened ff view c ?s w1" using opened_other [OF assms(1) v1] by (simp add: opened_def)
  have r1: "at_record c ?s d a off crc ?k" using assms(2) by (simp add: at_record_def)
  obtain bufs2 w2 where 2: "unzGetCurrentFileInfo64 ?s None None None w1 =
      Some (UNZ_OK, record_info a (number_disk_with_CD (gi s)) off crc ?k, bufs2, w2)"
    "opened ff view c ?s w2" "contents w2 = contents w1"
    using record_view [OF o1 r1 assms(3), of None] by auto
  have disk: "number_disk_with_CD (gi s) < 0x10000" using assms(2) by (simp add: at_record_def)
  have k: "?k < 0xffffffff" using assms(7) u64_of_nat_less [of "length data" "0xffffffff"] by simp
  note fi = record_info_simps [OF assms(3) k disk, of off crc]
  have room: "length (entry_filename a) < unat (of_nat (length (entry_filename a)) + 1 :: u64)"
    using a(2) unat_u64_of_nat [of "Suc (length (entry_filename a))"] by (simp add: add.commute)
  obtain bufs3 w3 where 3: "unzGetCurrentFileInfo64 ?s (Some (of_nat (length (entry_filename a)) + 1)) None None w2 =
      Some (UNZ_OK, record_info a (number_disk_with_CD (gi s)) off crc ?k, bufs3, w3)"
    "ib_filename bufs3 = entry_filename a @ [0]" "opened ff view c ?s w3" "contents w3 = contents w2"
    using record_view [OF 2(2) r1 assms(3), of "Some (of_nat (length (entry_filename a)) + 1)"] room by auto
  have v3: "\<exists>q. framed w3 ?h w3 (ri_filestream r) = Some (c, q)"
    using 3(3) 1(5) by (simp add: opened_def framed_start)
  have rd: "reading (framed w3 ?h) c data 0 r w3" using 1(2) v3 by (simp add: reading_def)
  have u: "unat ?k = length data" using assms(7) by (intro unat_u64_of_nat) simp
  have ff3: "z_filefunc ?s = ff" "not_encrypted ?s" using ff by (simp_all add: not_encrypted_def)
  have crc0: "ri_crc32 r = zl_crc32 zl 0 (take 0 data)" using assms(9) 1(3) by (simp add: crc_laws_def)
  obtain r4 w4 where 4: "read_all (unat ?k + 1) turns (Suc (Suc n)) zl ?s step w3 =
      Some (0, data, ?s\<lparr>pfile_in_zip_read := Some r4\<rparr>, w4)"
    "reading (framed w3 ?h) c data (length data) r4 w4" "ri_crc32 r4 = crc" "crc32_wait r4 = kept crc 4"
    "ri_filestream r4 = ?h"
    using zip_file.read_all_view [OF framed_file _ rd _ ff3 assms(11-13,9) crc0, of "unat ?k + 1" n] 1(4,5)
    unfolding u assms(10) same_entry_def by auto
  obtain q4 where v4: "framed w3 ?h w4 ?h = Some (c, q4)" using 4(2,5) by (auto simp: reading_def)
  have o4: "opened ff view c ?s w4" using opened_other [OF 3(3)] v4 by simp
  have "kept crc 4 = crc" using assms(9,10) by (simp add: kept_id crc_laws_def word_less_nat_alt)
  then have close: "unzCloseCurrentFile (?s\<lparr>pfile_in_zip_read := Some r4\<rparr>) =
      (UNZ_OK, s\<lparr>pfile_in_zip_read := None, us_pcrc_32_tab := None\<rparr>)"
    using zip_file.close_read_view [OF framed_file _ 4(2), of "?s\<lparr>pfile_in_zip_read := Some r4\<rparr>"] 4(3,4) by simp
  have "contents w4 = contents w" using framedD(2) [OF v4] framedD(2) [OF v1] 2(3) 3(4) by simp
  moreover have "opened ff view c s w4" using o4 by (simp add: opened_def)
  moreover have "unat (of_nat (length (entry_filename a)) :: u64) = length (entry_filename a)"
    using a(2) by (intro unat_u64_of_nat) simp
  ultimately show ?thesis
    unfolding unpack_entry_def
    by (simp only: bind.bind_lunit prod.case 1(1) 2(1) refl if_False if_True simp_thms fi 3(1) 4(1) Let_def close
        Option.bind.simps) (simp add: 3(2))
qed

end

text \<open>The state in which an entry is the current one: \<open>A\<close> bytes lie before the archive.\<close>

definition at_entry ::
  "(u64 \<Rightarrow> byte list \<Rightarrow> u64) \<Rightarrow> byte list \<Rightarrow> ('w, 'z) unz64_s \<Rightarrow> nat \<Rightarrow> nat \<Rightarrow> nat \<Rightarrow> new_file_args \<times> byte list list \<Rightarrow> bool" where
  "at_entry crc_fn c s A d p e \<longleftrightarrow>
     (let a = fst e; data = concat (snd e); crc = crc_fn 0 data; k = of_nat (length data); off = of_nat p - of_nat A in
      at_record c s d a off crc k \<and> entry_current s a p crc k \<and> byte_before_the_zipfile s = of_nat A \<and>
      cur_file_info s = record_info a (number_disk_with_CD (gi s)) off crc k \<and> pfile_in_zip_read s = None)"

text \<open>Two states that differ in the current entry only.\<close>

definition repositioned :: "('w, 'z) unz64_s \<Rightarrow> ('w, 'z) unz64_s \<Rightarrow> bool" where
  "repositioned s s' \<longleftrightarrow> s = s'\<lparr>cur_file_info := cur_file_info s, cur_file_info_internal := cur_file_info_internal s,
     current_file_ok := current_file_ok s, pos_in_central_dir := pos_in_central_dir s, num_file := num_file s\<rparr>"

lemma repositioned_offset: "repositioned s s' \<Longrightarrow> offset_central_dir s' = offset_central_dir s"
  unfolding repositioned_def by (drule arg_cong [of _ _ offset_central_dir]) simp

lemma repositioned_trans: "repositioned s s1 \<Longrightarrow> repositioned s1 s2 \<Longrightarrow> repositioned s s2"
  unfolding repositioned_def by (cases s, cases s1, cases s2) simp

definition plain_entry_fits :: "new_file_args \<times> byte list list \<Rightarrow> bool" where
  "plain_entry_fits e \<longleftrightarrow> plain_args (fst e) \<and> length (concat (snd e)) < 0xffffffff"

lemma entry_closed:
  "at_record c (s\<lparr>pfile_in_zip_read := r, us_pcrc_32_tab := t\<rparr>) d a off crc k = at_record c s d a off crc k"
  "entry_current (s\<lparr>pfile_in_zip_read := r, us_pcrc_32_tab := t\<rparr>) a p crc k = entry_current s a p crc k"
  by (simp_all add: at_record_def entry_current_def describes_def)

lemma foldl_crc: "crc_laws f \<Longrightarrow> foldl f x bufs = f x (concat bufs)"
  by (induction bufs arbitrary: x) (auto simp: crc_laws_def)

lemma u64_offset_less:
  assumes "A \<le> p" "p < (0xffffffff :: nat)"
  shows "(of_nat p - of_nat A :: u64) < 0xffffffff" "(of_nat p - of_nat A :: u64) + of_nat A = of_nat p"
proof -
  have "(of_nat p - of_nat A :: u64) = of_nat (p - A)" using assms(1) by (simp add: of_nat_diff)
  then show "(of_nat p - of_nat A :: u64) < 0xffffffff"
    using assms u64_of_nat_less [of "p - A" "0xffffffff"] by simp
qed simp

lemma entries_dir_length: "entries_bytes f disk add p (e # es) = (fb, dir) \<Longrightarrow> 46 \<le> length dir"
  by (cases e) (auto simp: Let_def length_central_record split: prod.splits)

context unz_files begin

lemma load_entry:
  assumes "opened ff view c s w" "crc_laws f" "entries_bytes f (number_disk_with_CD (gi s)) (of_nat A) p (e # es) = (fb, dir)"
    and "stands_at c d dir" "A \<le> p" "p < 0xffffffff" "d < 2 ^ 63" "plain_entry_fits e"
    and "pos_in_central_dir s + of_nat A = of_nat d" "byte_before_the_zipfile s = of_nat A" "number_disk_with_CD (gi s) < 0x10000"
    and "number_disk s = number_disk_with_CD (gi s)" "pfile_in_zip_read s = None"
    and "case filename of None \<Rightarrow> True | Some room \<Rightarrow> length (entry_filename (fst e)) < unat room"
  shows "\<exists>s' bufs w'. load_current_file s filename None None w = Some (UNZ_OK, bufs, s', w') \<and>
    ib_filename bufs = (case filename of None \<Rightarrow> [] | Some _ \<Rightarrow> entry_filename (fst e) @ [0]) \<and>
    opened ff view c s' w' \<and> contents w' = contents w \<and> at_entry f c s' A d p e \<and> gi s' = gi s \<and>
    num_file s' = num_file s \<and> repositioned s s'"
proof -
  obtain a bufs where e: "e = (a, bufs)" by (cases e)
  let ?crc = "f 0 (concat bufs)" and ?k = "of_nat (length (concat bufs)) :: u64"
  have "dir = central_record a (number_disk_with_CD (gi s)) (of_nat p - of_nat A) ?crc ?k @
      snd (entries_bytes f (number_disk_with_CD (gi s)) (of_nat A) (p + length (local_header a ?crc ?k @ concat bufs)) es)"
    using assms(3) by (auto simp: e Let_def foldl_crc [OF assms(2)] split: prod.splits)
  then have "stands_at c d (central_record a (number_disk_with_CD (gi s)) (of_nat p - of_nat A) ?crc ?k)"
    using assms(4) by (simp add: stands_at_append)
  then have r: "at_record c s d a (of_nat p - of_nat A) ?crc ?k"
    using assms(7,9-12) by (simp add: at_record_def)
  have a: "plain_args a" using assms(8) by (simp add: plain_entry_fits_def e)
  note off = u64_offset_less [OF assms(5,6)]
  have sum: "(of_nat p - of_nat A) + byte_before_the_zipfile s = of_nat p" using off(2) by (simp add: assms(10))
  have room: "case filename of None \<Rightarrow> True | Some room \<Rightarrow> length (entry_filename a) < unat room"
    using assms(14) by (simp add: e split: option.splits)
  from load_view [OF assms(1) r a sum off(1) room] obtain s' nbufs w' where
    1: "load_current_file s filename None None w = Some (UNZ_OK, nbufs, s', w')"
    "ib_filename nbufs = (case filename of None \<Rightarrow> [] | Some _ \<Rightarrow> entry_filename a @ [0])"
    "s' = s\<lparr>cur_file_info := record_info a (number_disk_with_CD (gi s)) (of_nat p - of_nat A) ?crc ?k, current_file_ok := True,
      cur_file_info_internal := \<lparr>offset_curfile = of_nat p - of_nat A, fi_byte_before_the_zipfile = byte_before_the_zipfile s\<rparr>\<rparr>"
    "opened ff view c s' w'" "contents w' = contents w" "entry_current s' a p ?crc ?k"
    "at_record c s' d a (of_nat p - of_nat A) ?crc ?k" by blast
  have "at_entry f c s' A d p e" using 1(3,6,7) assms(10,13) by (simp add: at_entry_def e)
  moreover have "repositioned s s'" "gi s' = gi s" "num_file s' = num_file s" by (simp_all add: 1(3) repositioned_def)
  ultimately show ?thesis
    using 1(1,2,4,5) by (intro exI [of _ s'] exI [of _ nbufs] exI [of _ w']) (simp add: e split: option.split)
qed

text \<open>What an entry contributes, and where the next one is.\<close>

lemma entries_bytes_split:
  assumes "entries_bytes f disk add p ((a, bufs) # es) = (fb, dir)" "crc_laws f"
  obtains fb2 dir2 where
    "fb = (local_header a (f 0 (concat bufs)) (of_nat (length (concat bufs))) @ concat bufs) @ fb2"
    "dir = central_record a disk (of_nat p - add) (f 0 (concat bufs)) (of_nat (length (concat bufs))) @ dir2"
    "entries_bytes f disk add (p + 30 + length (entry_filename a) + length (na_extrafield_local a) + length (concat bufs)) es =
       (fb2, dir2)"
  using assms(1) by (auto simp: Let_def foldl_crc [OF assms(2)] length_local_header add.assoc split: prod.splits)

lemma next_name_view:
  assumes "opened ff view c s w" "crc_laws f" "at_entry f c s A d p (a, bufs)" "plain_args a"
    and "entries_bytes f (number_disk_with_CD (gi s)) (of_nat A) p2 (e # es) = (fb, dir)"
    and "stands_at c (d + 46 + length (entry_filename a) + length (entry_comment a)) dir"
    and "A \<le> p2" "p2 < 0xffffffff" "length c < 2 ^ 63" "plain_entry_fits e"
    and "num_file s + 1 \<noteq> number_entry (gi s)" "length (concat bufs) < 0xffffffff"
    and "case filename of None \<Rightarrow> True | Some room \<Rightarrow> length (entry_filename (fst e)) < unat room"
  shows "\<exists>nbufs s' w'. unzGoToNextFile2 s filename None None w = Some (UNZ_OK, nbufs, s', w') \<and>
    ib_filename nbufs = (case filename of None \<Rightarrow> [] | Some _ \<Rightarrow> entry_filename (fst e) @ [0]) \<and>
    opened ff view c s' w' \<and> contents w' = contents w \<and>
    at_entry f c s' A (d + 46 + length (entry_filename a) + length (entry_comment a)) p2 e \<and> gi s' = gi s \<and>
    num_file s' = num_file s + 1 \<and> repositioned s s'"
proof -
  let ?d = "d + 46 + length (entry_filename a) + length (entry_comment a)" and ?fi = "cur_file_info s"
  note t = assms(3) [unfolded at_entry_def Let_def fst_conv snd_conv] and a = assms(4) [unfolded plain_args_def stored_args_def]
  note r = t [unfolded at_record_def] and e = t [unfolded entry_current_def]
  have k: "(of_nat (length (concat bufs)) :: u64) < 0xffffffff"
    using assms(12) u64_of_nat_less [of "length (concat bufs)" "0xffffffff"] by simp
  have sizes: "fi_size_filename ?fi = of_nat (length (entry_filename a))" "fi_size_file_extra ?fi = 0"
    "fi_size_file_comment ?fi = of_nat (length (entry_comment a))"
    using record_info_simps(1-3) [OF assms(4) k] r by simp_all
  let ?s = "s\<lparr>pos_in_central_dir := pos_in_central_dir s +
      (0x2e + fi_size_filename ?fi + fi_size_file_extra ?fi + fi_size_file_comment ?fi), num_file := num_file s + 1\<rparr>"
  have o: "opened ff view c ?s w" using assms(1) by (simp add: opened_def)
  have d: "?d < 2 ^ 63" using stands_at_length [OF assms(6)] assms(9) by simp
  have here: "pos_in_central_dir s + of_nat A = of_nat d" using r by metis
  have "pos_in_central_dir ?s + of_nat A = of_nat ?d"
    unfolding sizes unz64_s.simps by (simp add: here [symmetric] algebra_simps)
  from load_entry [OF o assms(2) _ assms(6-8) d assms(10) this _ _ _ _ assms(13), of es fb] obtain s' b w' where
    1: "load_current_file ?s filename None None w = Some (UNZ_OK, b, s', w')"
    "ib_filename b = (case filename of None \<Rightarrow> [] | Some _ \<Rightarrow> entry_filename (fst e) @ [0])"
    "opened ff view c s' w'" "contents w' = contents w"
    "at_entry f c s' A ?d p2 e" "gi s' = gi s" "num_file s' = num_file s + 1" "repositioned ?s s'"
    using r assms(5) by auto
  moreover have "repositioned s s'" using 1(8) unfolding repositioned_def by (cases s, cases s') simp
  moreover have "current_file_ok s" using e by simp
  ultimately show ?thesis
    using assms(11) by (intro exI [of _ b] exI [of _ s'] exI [of _ w']) (simp add: unzGoToNextFile2_def Let_def)
qed

lemma next_view:
  assumes "opened ff view c s w" "crc_laws f" "at_entry f c s A d p (a, bufs)" "plain_args a"
    and "entries_bytes f (number_disk_with_CD (gi s)) (of_nat A) p2 (e # es) = (fb, dir)"
    and "stands_at c (d + 46 + length (entry_filename a) + length (entry_comment a)) dir"
    and "A \<le> p2" "p2 < 0xffffffff" "length c < 2 ^ 63" "plain_entry_fits e"
    and "num_file s + 1 \<noteq> number_entry (gi s)" "length (concat bufs) < 0xffffffff"
  shows "\<exists>s' w'. unzGoToNextFile s w = Some (UNZ_OK, s', w') \<and> opened ff view c s' w' \<and> contents w' = contents w \<and>
    at_entry f c s' A (d + 46 + length (entry_filename a) + length (entry_comment a)) p2 e \<and> gi s' = gi s \<and>
    num_file s' = num_file s + 1"
  using next_name_view [OF assms, of None] by (auto simp: unzGoToNextFile_def)

lemma unpack_at_entry:
  assumes "opened ff view c s w" "crc_laws (zl_crc32 zl)" "at_entry (zl_crc32 zl) c s A d p (a, bufs)" "plain_args a"
    and "stands_at c p (local_header a (zl_crc32 zl 0 (concat bufs)) (of_nat (length (concat bufs))) @ concat bufs)"
    and "length (concat bufs) < 0xffffffff" "length c < 2 ^ 63" "0 < unat step" "unat step < 2 ^ 31" "unat step < turns"
  shows "\<exists>s' w'. unpack_entry turns (Suc (Suc n)) zl heap step s w = Some (UNZ_OK, entry_filename a, concat bufs, s', w') \<and>
    opened ff view c s' w' \<and> contents w' = contents w \<and> at_entry (zl_crc32 zl) c s' A d p (a, bufs) \<and>
    gi s' = gi s \<and> num_file s' = num_file s"
proof -
  note t = assms(3) [unfolded at_entry_def Let_def fst_conv snd_conv]
  let ?s = "s\<lparr>pfile_in_zip_read := None, us_pcrc_32_tab := None\<rparr>"
  obtain w' where "unpack_entry turns (Suc (Suc n)) zl heap step s w =
      Some (UNZ_OK, entry_filename a, concat bufs, ?s, w')" "opened ff view c s w'" "contents w' = contents w"
    using unpack_entry_view [OF assms(1) _ assms(4) _ assms(5) _ assms(6,7,2) refl assms(8-10)] t by metis
  moreover have "at_entry (zl_crc32 zl) c ?s A d p (a, bufs)"
    using t by (simp add: at_entry_def entry_closed)
  ultimately show ?thesis by (intro exI [of _ ?s] exI [of _ w']) (simp add: opened_def)
qed

end

text \<open>The reader stands at the first of the entries \<open>es\<close>, the last ones of the \<open>N\<close> entries of the archive.\<close>

definition at_entries ::
  "'w zlib_filefunc64_32_def \<Rightarrow> ('w \<Rightarrow> addr \<Rightarrow> (byte list \<times> nat) option) \<Rightarrow> (u64 \<Rightarrow> byte list \<Rightarrow> u64) \<Rightarrow> byte list \<Rightarrow>
   nat \<Rightarrow> nat \<Rightarrow> ('w, 'z) unz64_s \<Rightarrow> 'w \<Rightarrow> nat \<Rightarrow> nat \<Rightarrow> (new_file_args \<times> byte list list) list \<Rightarrow> bool" where
  "at_entries ff view f c A N s w p d es \<longleftrightarrow>
     opened ff view c s w \<and> es \<noteq> [] \<and> at_entry f c s A d p (hd es) \<and> (\<forall>e \<in> set es. plain_entry_fits e) \<and>
     (\<exists>fb dir. entries_bytes f (number_disk_with_CD (gi s)) (of_nat A) p es = (fb, dir) \<and>
        stands_at c p fb \<and> stands_at c d dir \<and> p + length fb < 0xffffffff) \<and>
     A \<le> p \<and> length c < 2 ^ 63 \<and> number_entry (gi s) = of_nat N \<and> N < 0xffff \<and>
     num_file s + of_nat (length es) = of_nat N \<and> length es \<le> N"

lemma at_entries_other:
  assumes "at_entries ff view f c A N s w p d es" "opened ff view c s' w'" "at_entry f c s' A d p (hd es)"
    and "gi s' = gi s" "num_file s' = num_file s"
  shows "at_entries ff view f c A N s' w' p d es"
  using assms by (simp add: at_entries_def)

context unz_files begin

lemma at_entries_data:
  assumes "at_entries ff view f c A N s w p d ((a, bufs) # es)" "crc_laws f"
  shows "stands_at c p (local_header a (f 0 (concat bufs)) (of_nat (length (concat bufs))) @ concat bufs)"
    "plain_args a" "length (concat bufs) < 0xffffffff" "opened ff view c s w" "at_entry f c s A d p (a, bufs)" "length c < 2 ^ 63"
proof -
  note h = assms(1) [unfolded at_entries_def]
  obtain fb dir where e: "entries_bytes f (number_disk_with_CD (gi s)) (of_nat A) p ((a, bufs) # es) = (fb, dir)"
    "stands_at c p fb" using h by blast
  show "stands_at c p (local_header a (f 0 (concat bufs)) (of_nat (length (concat bufs))) @ concat bufs)"
    using entries_bytes_split [OF e(1) assms(2)] e(2) by (metis stands_at_append)
  show "plain_args a" "length (concat bufs) < 0xffffffff" "opened ff view c s w" "at_entry f c s A d p (a, bufs)" "length c < 2 ^ 63"
    using h by (simp_all add: plain_entry_fits_def)
qed

lemma at_entries_last:
  assumes "at_entries ff view f c A N s w p d [e]"
  shows "unzGoToNextFile2 s filename extrafield cmt w = Some (UNZ_END_OF_LIST_OF_FILE, no_buffers, s, w)"
proof -
  note h = assms [unfolded at_entries_def]
  have "number_entry (gi s) \<noteq> 0xffff" using h u64_of_nat_eq [of N "0xffff"] by simp
  moreover have "num_file s + 1 = number_entry (gi s)" using h by simp
  ultimately show ?thesis by (simp add: unzGoToNextFile2_def)
qed

lemma at_entries_next:
  assumes "at_entries ff view f c A N s w p d (e # e2 # es)" "crc_laws f"
    and "case filename of None \<Rightarrow> True | Some room \<Rightarrow> length (entry_filename (fst e2)) < unat room"
  shows "\<exists>nbufs s' w' p' d'. unzGoToNextFile2 s filename None None w = Some (UNZ_OK, nbufs, s', w') \<and>
    ib_filename nbufs = (case filename of None \<Rightarrow> [] | Some _ \<Rightarrow> entry_filename (fst e2) @ [0]) \<and>
    at_entries ff view f c A N s' w' p' d' (e2 # es) \<and> contents w' = contents w \<and> repositioned s s'"
proof -
  note h = assms(1) [unfolded at_entries_def]
  obtain a bufs where e: "e = (a, bufs)" by (cases e)
  note data = at_entries_data [OF assms(1) [unfolded e] assms(2)]
  obtain fb0 dir0 where 0: "entries_bytes f (number_disk_with_CD (gi s)) (of_nat A) p ((a, bufs) # e2 # es) = (fb0, dir0)"
    "stands_at c p fb0" "stands_at c d dir0" "p + length fb0 < 0xffffffff" using h unfolding e by blast
  let ?bs = "local_header a (f 0 (concat bufs)) (of_nat (length (concat bufs))) @ concat bufs"
  let ?p = "p + 30 + length (entry_filename a) + length (na_extrafield_local a) + length (concat bufs)"
  let ?d = "d + 46 + length (entry_filename a) + length (entry_comment a)"
  obtain fb dir where fb: "fb0 = ?bs @ fb"
    "dir0 = central_record a (number_disk_with_CD (gi s)) (of_nat p - of_nat A) (f 0 (concat bufs))
       (of_nat (length (concat bufs))) @ dir"
    "entries_bytes f (number_disk_with_CD (gi s)) (of_nat A) ?p (e2 # es) = (fb, dir)"
    using entries_bytes_split [OF 0(1) assms(2)] by blast
  have len: "length ?bs = 30 + length (entry_filename a) + length (na_extrafield_local a) + length (concat bufs)"
    by (simp add: length_local_header)
  have st: "stands_at c ?p fb" "stands_at c ?d dir"
    using 0(2,3) data(2) unfolding fb(1,2) stands_at_append len
    by (simp_all add: length_central_record plain_args_def add.assoc)
  have bound: "A \<le> ?p" "?p < 0xffffffff" "?p + length fb < 0xffffffff"
    using h 0(4) by (simp_all add: fb(1) length_local_header)
  have fits: "plain_entry_fits e2" using h by simp
  have more: "num_file s + 1 \<noteq> number_entry (gi s)"
  proof
    assume "num_file s + 1 = number_entry (gi s)"
    then have "num_file s + 1 = num_file s + of_nat (Suc (length (e2 # es)))" using h by simp
    then have "(of_nat (Suc (length es)) :: u64) = 0" by simp
    then show False using h u64_of_nat_eq [of "Suc (length es)" 0] by simp
  qed
  obtain nbufs s' w' where 1: "unzGoToNextFile2 s filename None None w = Some (UNZ_OK, nbufs, s', w')"
    "ib_filename nbufs = (case filename of None \<Rightarrow> [] | Some _ \<Rightarrow> entry_filename (fst e2) @ [0])"
    "opened ff view c s' w'" "contents w' = contents w" "at_entry f c s' A ?d ?p e2" "gi s' = gi s"
    "num_file s' = num_file s + 1" "repositioned s s'"
    using next_name_view [OF data(4) assms(2) data(5,2) fb(3) st(2) bound(1,2) data(6) fits more data(3) assms(3)] by blast
  have "at_entries ff view f c A N s' w' ?p ?d (e2 # es)"
    using 1(3,5-7) fb(3) st bound(1,3) h by (simp add: at_entries_def algebra_simps)
  with 1(1,2,4,8) show ?thesis by blast
qed

lemma unpack_view:
  assumes "crc_laws (zl_crc32 zl)" "0 < unat step" "unat step < 2 ^ 31" "unat step < turns"
  shows "at_entries ff view (zl_crc32 zl) c A N s w p d es \<Longrightarrow> length es \<le> fuel \<Longrightarrow>
    \<exists>s' w'. unpack fuel turns (Suc (Suc n)) zl heap step s w =
      Some (UNZ_END_OF_LIST_OF_FILE, map (\<lambda>(a, bufs). (entry_filename a, concat bufs)) es, s', w') \<and>
    contents w' = contents w"
proof (induction es arbitrary: s w p d fuel)
  case Nil
  then show ?case by (simp add: at_entries_def)
next
  case (Cons e es)
  obtain a bufs where e: "e = (a, bufs)" by (cases e)
  obtain f where f: "fuel = Suc f" "length es \<le> f" using Cons(3) by (cases fuel) auto
  note data = at_entries_data [OF Cons(2) [unfolded e] assms(1)]
  obtain s1 w1 where 1: "unpack_entry turns (Suc (Suc n)) zl heap step s w =
      Some (UNZ_OK, entry_filename a, concat bufs, s1, w1)" "opened ff view c s1 w1" "contents w1 = contents w"
    "at_entry (zl_crc32 zl) c s1 A d p (a, bufs)" "gi s1 = gi s" "num_file s1 = num_file s"
    using unpack_at_entry [OF data(4) assms(1) data(5,2,1,3,6) assms(2-4)] by blast
  have here: "at_entries ff view (zl_crc32 zl) c A N s1 w1 p d (e # es)"
    using at_entries_other [OF Cons(2) 1(2) _ 1(5,6)] 1(4) by (simp add: e)
  show ?case
  proof (cases es)
    case Nil
    then show ?thesis using here 1(1,3) by (simp add: f e unzGoToNextFile_def at_entries_last)
  next
    case es: (Cons e2 es2)
    obtain s2 w2 p2 d2 where 2: "unzGoToNextFile s1 w1 = Some (UNZ_OK, s2, w2)"
      "at_entries ff view (zl_crc32 zl) c A N s2 w2 p2 d2 es" "contents w2 = contents w1"
      using at_entries_next [OF here [unfolded es] assms(1), of None] unfolding es by (auto simp: unzGoToNextFile_def)
    obtain s3 w3 where "unpack f turns (Suc (Suc n)) zl heap step s2 w2 =
        Some (UNZ_END_OF_LIST_OF_FILE, map (\<lambda>(a, bufs). (entry_filename a, concat bufs)) es, s3, w3)"
      "contents w3 = contents w2" using Cons.IH [OF 2(2) f(2)] by blast
    then show ?thesis using 1(1,3) 2(1,3) by (simp add: f e)
  qed
qed

lemma open_archive_view:
  assumes "contents w path = Some c" "length c < bound" "crc_laws f"
    and "c = (c0 @ fb) @ archive_tail dir 0 (of_nat N) (of_nat A) (length (c0 @ fb)) cmt"
    and "entries_bytes f 0 (of_nat A) (length c0) (e # es) = (fb, dir)" "A \<le> length c0" "length (c0 @ fb) < 0xffffffff"
    and "plain_tail dir 0 (of_nat N) (of_nat A) (length (c0 @ fb)) cmt" "N < 0xffff" "length dir \<noteq> 0xffff"
    and "file_number (c0 @ fb @ dir) (length (c0 @ fb @ dir) - 20) 4 \<noteq> ZIP64ENDLOCHEADERMAGIC" "plain_entry_fits e"
  shows "\<exists>(s :: ('w, 'z) unz64_s) w'. unzOpenInternal (Some path) ff w = Some (Some s, w') \<and> opened ff view c s w' \<and> contents w' = contents w \<and>
    at_entry f c s A (length (c0 @ fb)) (length c0) e \<and> num_file s = 0 \<and>
    offset_central_dir s + of_nat A = of_nat (length (c0 @ fb)) \<and>
    gi s = \<lparr>number_entry = of_nat N, number_disk_with_CD = 0, size_comment = of_nat (length cmt)\<rparr>"
proof -
  define r where "r = length (c0 @ fb) + length dir"
  let ?off = "of_nat (length (c0 @ fb)) - of_nat A :: u64"
  have dir: "46 \<le> length dir" by (rule entries_dir_length [OF assms(5)])
  have r0: "0 < length (c0 @ fb) + length dir" using dir by linarith
  note t = plain_tail_record [OF assms(8) r0, folded r_def, folded assms(4)] and pt = assms(8) [unfolded plain_tail_def]
  have e: "end_record_at c r" "end_record_of c r = tail_record dir 0 (of_nat N) (of_nat A) (length (c0 @ fb)) cmt"
    "file_number c (r + 10) 2 = file_number c (r + 8) 2" "length c = r + 22 + length cmt" "c = (c0 @ fb) @ dir @ drop r c"
    using t by simp_all
  have r: "20 \<le> r" "r + 22 \<le> length c" "r < 2 ^ 63"
    using dir e(4) assms(2) bound_le by (simp_all add: r_def)
  have "file_number c (r - 20) 4 = file_number (c0 @ fb @ dir) (r - 20) 4"
    using dir by (subst e(5)) (simp add: file_number_def r_def)
  then have loc: "file_number c (r - 20) 4 \<noteq> ZIP64ENDLOCHEADERMAGIC"
    using assms(11) by (simp add: r_def add.assoc)
  let ?er = "tail_record dir 0 (of_nat N) (of_nat A) (length (c0 @ fb)) cmt"
  have wants: "\<not> wants_zip64 ?er"
    using assms(9,10) pt u64_of_nat_eq [of N "0xffff"] u64_of_nat_eq [of "length dir" "0xffff"]
    by (auto simp: wants_zip64_def tail_record_def)
  obtain h w1 where 1: "call_zopen64 ff (Some path) (ZLIB_FILEFUNC_MODE_READ OR ZLIB_FILEFUNC_MODE_EXISTING) w = Some (h, w1)"
    "h \<noteq> 0" "view w1 h = Some (c, 0)" "contents w1 = contents w" using zopen_law [OF assms(1)] by blast
  have v1: "framed w1 h w1 h = Some (c, 0)" by (simp add: framed_start 1(3))
  obtain w2 q where 2: "find_central_dir ff h w1 = Some (of_nat r, ?er, False, UNZ_OK, w2)" "framed w1 h w2 h = Some (c, q)"
    using zip_file.find_central_dir_view [OF framed_file v1 assms(2) e(1) r(1,2) loc] e(2,3) wants by auto
  have c2: "contents w2 path = Some c" "view w2 h = Some (c, q)" using framedD(1,2) [OF 2(2)] 1(4) assms(1) by simp_all
  obtain h' w3 where 3: "call_zopen64 ff (Some path) (ZLIB_FILEFUNC_MODE_READ OR ZLIB_FILEFUNC_MODE_EXISTING) w2 = Some (h', w3)"
    "h' \<noteq> 0" "view w3 h' = Some (c, 0)" "contents w3 = contents w2" "view w3 h = Some (c, q)"
    using zopen_law [OF c2(1)] c2(2) by blast
  have A: "A \<le> length (c0 @ fb)" using assms(6) by simp
  have sum: "?off + of_nat (length dir) = of_nat (r - A)" using A by (simp add: r_def of_nat_diff algebra_simps)
  have fits: "\<not> (of_nat r :: u64) < ?off + of_nat (length dir)"
    unfolding sum using r(3) u64_of_nat_less [of r "r - A"] by simp
  have before: "(of_nat r :: u64) - (?off + of_nat (length dir)) = of_nat A"
    by (simp add: r_def)
  define er where "er = ?er"
  have er: "er_number_disk er = 0" "number_disk_with_CD (er_gi er) = 0" "er_size_central_dir er = of_nat (length dir)"
    "er_offset_central_dir er = ?off"
    by (simp_all add: er_def tail_record_def)
  define s0 :: "('w, 'z) unz64_s" where "s0 = \<lparr>z_filefunc = ff, filestream = h', filestream_with_CD = h, gi = er_gi er,
      byte_before_the_zipfile = of_nat A, num_file = 0, pos_in_central_dir = 0, current_file_ok = False,
      central_pos = of_nat r, number_disk = 0, size_central_dir = of_nat (length dir), offset_central_dir = ?off,
      cur_file_info = zero_file_info, cur_file_info_internal = \<lparr>offset_curfile = 0, fi_byte_before_the_zipfile = 0\<rparr>,
      pfile_in_zip_read = None, isZip64 = False, us_keys = (0, 0, 0), us_pcrc_32_tab = None\<rparr>"
  have start: "unzOpenInternal (Some path) ff w =
      do { (_, s, w) \<leftarrow> unzGoToFirstFile s0 w3; Some (Some s, w) }"
    by (simp only: unzOpenInternal_def s0_def 1(1) 2(1) [folded er_def] 3(1) bind.bind_lunit Option.bind.simps prod.case
        Let_def er fits before 1(2) 3(2) refl simp_thms if_False if_True)
  let ?s = "s0\<lparr>pos_in_central_dir := ?off, num_file := 0\<rparr>"
  have "opened ff view c ?s w3" using 3(3,5) by (simp add: opened_def s0_def)
  moreover have "stands_at c (length (c0 @ fb)) dir"
    using stands_at_middle [of "c0 @ fb" dir "drop r c"] e(5) by simp
  moreover have "length (c0 @ fb) < 2 ^ 63" using r(3) by (simp add: r_def)
  moreover have "pos_in_central_dir ?s + of_nat A = of_nat (length (c0 @ fb))" by simp
  moreover have "entries_bytes f (number_disk_with_CD (gi ?s)) (of_nat A) (length c0) (e # es) = (fb, dir)"
    using assms(5) by (simp add: s0_def er(2))
  moreover have "length c0 < 0xffffffff" using assms(7) by simp
  ultimately obtain s' b w4 where 4: "load_current_file ?s None None None w3 = Some (UNZ_OK, b, s', w4)"
    "opened ff view c s' w4" "contents w4 = contents w3" "at_entry f c s' A (length (c0 @ fb)) (length c0) e"
    "gi s' = gi ?s" "num_file s' = num_file ?s" "repositioned ?s s'"
    using load_entry [of c ?s w3 f A "length c0" e es fb dir "length (c0 @ fb)" None] assms(3,6,12)
    by (auto simp: s0_def er_def tail_record_def)
  have "unzGoToFirstFile s0 w3 = Some (UNZ_OK, s', w4)"
    using 4(1) by (simp add: unzGoToFirstFile_def unzGoToFirstFile2_def s0_def)
  then have "unzOpenInternal (Some path) ff w = Some (Some s', w4)" by (simp add: start)
  moreover have "offset_central_dir s' + of_nat A = of_nat (length (c0 @ fb))"
    by (simp add: repositioned_offset [OF 4(7)] s0_def)
  ultimately show ?thesis
    using 4(2-6) 3(4) 1(4) framedD(2) [OF 2(2)] by (intro exI [of _ s'] exI [of _ w4]) (simp add: s0_def er_def tail_record_def)
qed

lemma open_entries_view:
  assumes "contents w path = Some c" "length c < bound" "length c < 2 ^ 63" "crc_laws f"
    and "c = (c0 @ fb) @ archive_tail dir 0 (of_nat (length es)) (of_nat A) (length (c0 @ fb)) cmt"
    and "entries_bytes f 0 (of_nat A) (length c0) es = (fb, dir)" "A \<le> length c0" "length (c0 @ fb) < 0xffffffff"
    and "plain_tail dir 0 (of_nat (length es)) (of_nat A) (length (c0 @ fb)) cmt" "length es < 0xffff" "length dir \<noteq> 0xffff"
    and "file_number (c0 @ fb @ dir) (length (c0 @ fb @ dir) - 20) 4 \<noteq> ZIP64ENDLOCHEADERMAGIC"
    and "es \<noteq> []" "\<forall>e \<in> set es. plain_entry_fits e"
  shows "\<exists>(s :: ('w, 'z) unz64_s) w'. unzOpenInternal (Some path) ff w = Some (Some s, w') \<and>
    at_entries ff view f c A (length es) s w' (length c0) (length (c0 @ fb)) es \<and>
    offset_central_dir s + of_nat A = of_nat (length (c0 @ fb)) \<and> number_disk_with_CD (gi s) = 0"
proof -
  obtain e es2 where es: "es = e # es2" using assms(13) by (cases es) auto
  have e: "plain_entry_fits e" using assms(14) by (simp add: es)
  obtain s :: "('w, 'z) unz64_s" and w' where 1: "unzOpenInternal (Some path) ff w = Some (Some s, w')" "opened ff view c s w'"
    "at_entry f c s A (length (c0 @ fb)) (length c0) e" "num_file s = 0" "offset_central_dir s + of_nat A = of_nat (length (c0 @ fb))"
    "gi s = \<lparr>number_entry = of_nat (length es), number_disk_with_CD = 0, size_comment = of_nat (length cmt)\<rparr>"
    using open_archive_view [OF assms(1,2,4,5) assms(6) [unfolded es] assms(7-12) e] by blast
  have "stands_at c (length c0) fb" "stands_at c (length (c0 @ fb)) dir"
    by (simp_all add: assms(5) stands_at_def archive_tail_def Let_def)
  then have "at_entries ff view f c A (length es) s w' (length c0) (length (c0 @ fb)) es"
    using 1(2-4,6) assms(3,6-8,10,13,14) by (simp add: at_entries_def es)
  with 1(1,5,6) show ?thesis by auto
qed

end

text \<open>
  Entries \<open>es\<close> that a writer can pack at the end of a file \<open>c0\<close>, of which all but the first bytes, \<open>A\<close> of them, belong to
  the archive: stored, in one part, each shorter than \<open>n\<close> per write, below the sizes that need zip64 and below the
  numbers that the reader mistakes for zip64 (65535 entries, a directory of 65535 bytes); the comment holds no second end
  record, and no locator seems to stand before the end record. \<open>fb\<close> and \<open>dir\<close> are the entries and the directory
  that the format asks for.
\<close>

definition packable_entries ::
  "byte list \<Rightarrow> nat \<Rightarrow> nat \<Rightarrow> (u64 \<Rightarrow> byte list \<Rightarrow> u64) \<Rightarrow> (new_file_args \<times> byte list list) list \<Rightarrow> byte list \<Rightarrow>
   byte list \<Rightarrow> byte list \<Rightarrow> bool" where
  "packable_entries c0 A n f es cmt fb dir \<longleftrightarrow>
     A \<le> length c0 \<and> es \<noteq> [] \<and> length es < 0xffff \<and>
     (\<forall>e \<in> set es. entry_fits n e \<and> na_extrafield_global (fst e) = []) \<and> crc_laws f \<and>
     entries_bytes f 0 (of_nat A) (length c0) es = (fb, dir) \<and> length (c0 @ fb) < 0xffffffff \<and>
     plain_tail dir 0 (of_nat (length es)) (of_nat A) (length (c0 @ fb)) cmt \<and> length dir \<noteq> 0xffff \<and>
     file_number (c0 @ fb @ dir) (length (c0 @ fb @ dir) - 20) 4 \<noteq> ZIP64ENDLOCHEADERMAGIC"

text \<open>A writer that has no entries yet, at the end of its file.\<close>

definition writer_starts :: "string \<Rightarrow> byte list \<Rightarrow> nat \<Rightarrow> stdio \<Rightarrow> (stdio, 'z) zip64_internal \<Rightarrow> bool" where
  "writer_starts name c0 A w zi \<longleftrightarrow>
     stdio_named name w (zi_filestream zi) = Some (c0, length c0) \<and>
     archive_ready (table64 fill_fopen64_filefunc) zi \<and> zi_filestream_with_CD zi = zi_filestream zi \<and>
     zi_number_disk zi = 0 \<and> zi_number_disk_with_CD zi = 0 \<and> zi_number_entry zi = 0 \<and> blocks_bytes (zi_central_dir zi) = [] \<and>
     zi_add_position_when_writting_offset zi = of_nat A"

text \<open>A new archive, or one that goes after what a file holds.\<close>

definition new_archive :: "string \<Rightarrow> int \<Rightarrow> stdio \<Rightarrow> byte list \<Rightarrow> bool" where
  "new_archive name append_status w c0 \<longleftrightarrow>
     append_status = APPEND_STATUS_CREATE \<and> c0 = [] \<or>
     append_status = APPEND_STATUS_CREATEAFTER \<and> sd_files w name = Some c0 \<and> length c0 < 2 ^ 63"

lemma zipOpen64_starts:
  assumes "new_archive name append_status w c0" "length (ci_buffered_data ci) = Z_BUFSIZE"
  shows "\<exists>zi w'. zipOpen64 ci (Some name) append_status w = Some (Some zi, w') \<and> writer_starts name c0 0 w' zi"
proof -
  note defs = zipOpen64_def zipOpen4_def call_zopen64_def table64_def fill_fopen64_filefunc_def fopen64_file_func_def
    mode_fopen_def fopen_build_def file_build_ioposix_def call_ztell64_def ftell64_file_func_def call_zseek64_def
    fseek64_file_func_def fseeko_def set_file_def zipGoToFirstDisk_def
  note result = writer_starts_def archive_ready_def stdio_named_def file_content_def init_linkedlist_def blocks_ok_def
  show ?thesis
    using assms by (elim new_archive_def [THEN iffD1, elim_format] disjE conjE) (simp_all add: defs result)
qed

lemma packed_archive_opens:
  assumes "packable_entries c0 A n (zl_crc32 zl) es cmt fb dir" "writer_starts name c0 A w (zi :: (stdio, 'z) zip64_internal)"
  shows "\<exists>w' c. write_archive (Suc n) zl rnd zi es cmt w = Some (ZIP_OK, w') \<and> stdio_stored name w' = c \<and>
    stands_at c (length c0) fb \<and> stands_at c (length (c0 @ fb)) dir \<and>
    (\<forall>path w1. stdio_contents w1 path = Some c \<longrightarrow>
      (\<exists>(s :: (stdio, 'y) unz64_s) w2. unzOpen64 (Some path) w1 = Some (Some s, w2) \<and>
         at_entries (table64 fill_fopen64_filefunc) stdio_owned (zl_crc32 zl) c A (length es) s w2
           (length c0) (length (c0 @ fb)) es \<and>
         offset_central_dir s + of_nat A = of_nat (length (c0 @ fb)) \<and> number_disk_with_CD (gi s) = 0))"
proof -
  note h = assms [unfolded packable_entries_def writer_starts_def]
  let ?c = "(c0 @ fb) @ archive_tail dir 0 (of_nat (length es)) (of_nat A) (length (c0 @ fb)) cmt"
  obtain e es2 where es: "es = e # es2" using h by (cases es) auto
  have pt: "plain_tail dir 0 (of_nat (length es)) (of_nat A) (length (c0 @ fb)) cmt"
    and eb: "entries_bytes (zl_crc32 zl) 0 (of_nat A) (length c0) es = (fb, dir)" using h by simp_all
  have dir: "0 < length (c0 @ fb) + length dir"
    using entries_dir_length [OF eb [unfolded es]] by linarith
  have small: "length dir < 2 ^ 32" "length cmt < 2 ^ 32" using pt by (simp_all add: plain_tail_def)
  have len: "length ?c = length (c0 @ fb) + length dir + 22 + length cmt"
    using plain_tail_record(4) [OF pt dir] .
  then have c: "length ?c < 2 ^ 63" using h small by (simp only:) simp
  have fits: "\<forall>e \<in> set es. entry_fits n e" "\<forall>e \<in> set es. plain_entry_fits e"
    using h by (auto simp: plain_entry_fits_def entry_fits_def plain_args_def)
  have eb': "entries_bytes (zl_crc32 zl) (zi_number_disk zi) (zi_add_position_when_writting_offset zi) (length c0) es = (fb, dir)"
    using h by simp
  have bound: "length c0 + length fb < 0xffffffff"
    "length c0 + length fb + length (blocks_bytes (zi_central_dir zi) @ dir) < 2 ^ 63"
    using h small by simp_all
  have start: "stdio_named name w (zi_filestream zi) = Some (c0, length c0)"
    "archive_ready (table64 fill_fopen64_filefunc) zi" "zi_filestream_with_CD zi = zi_filestream zi" using h by blast+
  obtain w' where w': "write_archive (Suc n) zl rnd zi es cmt w = Some (ZIP_OK, w')" "stdio_stored name w' = ?c"
    using stdio_out64.write_archive_view [OF start(1) le_refl start(2,3) fits(1) small(2) eb' bound, of rnd] h
    by (auto simp: write_at_end)
  have st: "stands_at ?c (length c0) fb" "stands_at ?c (length (c0 @ fb)) dir"
    by (simp_all add: stands_at_def archive_tail_def Let_def)
  have "\<exists>(s :: (stdio, 'y) unz64_s) w2. unzOpen64 (Some path) w1 = Some (Some s, w2) \<and>
      at_entries (table64 fill_fopen64_filefunc) stdio_owned (zl_crc32 zl) ?c A (length es) s w2
        (length c0) (length (c0 @ fb)) es \<and>
      offset_central_dir s + of_nat A = of_nat (length (c0 @ fb)) \<and> number_disk_with_CD (gi s) = 0"
    if here: "stdio_contents w1 path = Some ?c" for path w1
    using unz64.open_entries_view [OF here c c _ refl eb _ _ pt _ _ _ _ fits(2)] h unfolding unzOpen64_def by blast
  with w' st show ?thesis by (intro exI [of _ w'] exI [of _ ?c]) simp
qed

section \<open>Properties\<close>

text \<open>
  C4: What is packed is unpacked. An archive of stored entries that the writer makes, in a new file or
  after whatever a file holds, is opened by \<open>unzOpen64\<close> under any name that holds its bytes, and
  going through it gives the names and the data of all the entries, in order and with the right
  checksums, until the end of the list is reported; for any size of the reader's buffer, and however the data was cut
  when it was written.
\<close>

lemma zip_unzip_roundtrip:
  assumes "new_archive name append_status w0 c0" "length (ci_buffered_data ci) = Z_BUFSIZE"
    and "packable_entries c0 0 n (zl_crc32 zl) es cmt fb dir" "zl_crc32 zl' = zl_crc32 zl"
    and "0 < unat step" "unat step < 2 ^ 31" "unat step < turns"
  shows "\<exists>zi w w'. zipOpen64 ci (Some name) append_status w0 = Some (Some zi, w) \<and>
    write_archive (Suc n) zl rnd zi es cmt w = Some (ZIP_OK, w') \<and>
    (\<forall>path w1. stdio_contents w1 path = Some (stdio_stored name w') \<longrightarrow>
      (\<exists>s w2 s' w3. unzOpen64 (Some path) w1 = Some (Some s, w2) \<and>
         unpack (length es) turns (Suc (Suc m)) zl' heap step s w2 =
           Some (UNZ_END_OF_LIST_OF_FILE, map (\<lambda>(a, bufs). (entry_filename a, concat bufs)) es, s', w3)))"
proof -
  have crc: "crc_laws (zl_crc32 zl')" using assms(3,4) by (simp add: packable_entries_def)
  note unpack = unz64.unpack_view [OF crc assms(5-7) _ le_refl, unfolded assms(4)]
  obtain zi w where "zipOpen64 ci (Some name) append_status w0 = Some (Some zi, w)" "writer_starts name c0 0 w zi"
    using zipOpen64_starts [OF assms(1,2)] by blast
  then show ?thesis using packed_archive_opens [OF assms(3)] unpack by meson
qed

section \<open>A packed archive, unpacked\<close>


definition low32 :: "u64 \<Rightarrow> bool" where
  "low32 x \<longleftrightarrow> take_bit 32 x = x"

lemma low32_less: "low32 x \<Longrightarrow> x < 2 ^ 32"
proof -
  assume "low32 x"
  then have "unat x = take_bit 32 (unat x)" by (metis low32_def unsigned_take_bit_eq)
  then have "unat x < 2 ^ 32" by (metis take_bit_nat_less_exp)
  then show ?thesis by (simp add: word_less_nat_alt)
qed

lemma low32_xor: "low32 x \<Longrightarrow> low32 y \<Longrightarrow> low32 (x XOR y)"
  by (simp add: low32_def take_bit_xor)

lemma low32_drop: "low32 x \<Longrightarrow> low32 (drop_bit n x)"
  by (metis low32_def drop_bit_take_bit take_bit_take_bit take_bit_drop_bit min.absorb2 diff_le_self min.commute)

lemma low32_crc_bits: "low32 x \<Longrightarrow> low32 (crc_bits n x)"
proof (induction n arbitrary: x)
  case (Suc n)
  have "low32 0xedb88320" by (simp add: low32_def)
  with Suc show ?case by (simp add: low32_xor low32_drop)
qed simp

lemma crc_laws_example: "crc_laws example_crc32"
proof -
  define step :: "u64 \<Rightarrow> byte \<Rightarrow> u64" where
    "step = (\<lambda>c b. drop_bit 8 c XOR crc_bits 8 ((c XOR ucast b) AND 0xff))"
  have low: "low32 (foldl step x bs)" if "low32 x" for x bs
    using that
  proof (induction bs arbitrary: x)
    case (Cons b bs)
    have ff: "(0xff :: u64) = mask 8" by (simp add: mask_eq_exp_minus_1)
    have "low32 ((x XOR ucast b) AND 0xff)"
      unfolding ff take_bit_eq_mask [symmetric] low32_def by (simp only: take_bit_take_bit) simp
    then have "low32 (step x b)" using Cons.prems by (simp add: step_def low32_xor low32_drop low32_crc_bits)
    then show ?case using Cons.IH by simp
  qed simp
  have "low32 0xffffffff" by (simp add: low32_def)
  then have "example_crc32 0 bs < 2 ^ 32" for bs
    unfolding example_crc32_def step_def [symmetric] by (intro low32_less low32_xor low) (simp_all add: low32_def)
  moreover have "example_crc32 x [] = x" for x by (simp add: example_crc32_def xor.assoc)
  ultimately show ?thesis by (simp add: crc_laws_def example_crc32_append)
qed


definition example_unzl :: "unit zlib_fns" where
  "example_unzl =
     \<lparr>zl_inflateInit2 = (0, ()), zl_inflate = zl_inflate example_zl, zl_crc32 = example_crc32,
      zl_crc_table = zl_crc_table example_zl\<rparr>"

definition closed_file :: "string \<Rightarrow> byte list \<Rightarrow> stdio" where
  "closed_file name c = \<lparr>sd_files = [name \<mapsto> c], sd_open = (\<lambda>_. None), sd_next = 0\<rparr>"


lemma putValue_zero: "zip64local_putValue_inmemory 0 n = replicate n 0"
  by (simp add: zip64local_putValue_inmemory_def split_bytes_eq) (induction n, auto)

lemma example_locator:
  "file_number (central_record example_args 0 off crc 0) 27 4 = 0x100"
proof -
  let ?put = zip64local_putValue_inmemory
  have one: "?put 1 2 = [1, 0]" by (simp add: zip64local_putValue_inmemory_def split_bytes_eq)
  have two: "replicate 2 b = [b, b]" for b :: byte by (simp add: numeral_2_eq_2)
  have four: "replicate 4 b = [b, b, b, b]" for b :: byte by (simp add: numeral_eq_Suc)
  obtain A B where r: "central_record example_args 0 off crc 0 = A @ [0, 0, 0, 0, 1, 0, 0, 0] @ B" "length A = 24"
  proof
    show "central_record example_args 0 off crc 0 =
      (?put CENTRALHEADERMAGIC 4 @ ?put 0 2 @ ?put 20 2 @ ?put 0 2 @ ?put 0 2 @ ?put 0 4 @ ?put crc 4 @ ?put 0 4) @
      [0, 0, 0, 0, 1, 0, 0, 0] @
      (?put 0 2 @ ?put 0 2 @ ?put 0 2 @ ?put 0 4 @ ?put off 4 @ [97])"
      by (simp add: central_record_def example_args_def entry_filename_def entry_comment_def entry_flag_def entry_dosDate_def
          Let_def putValue_zero one two four)
  qed simp
  then show ?thesis by (simp add: file_number_def push_bit_eq_mult)
qed

lemma plain_tail_example: "plain_tail dir 0 2 0 66 [33]" if "length dir = 94"
proof -
  have two: "replicate 2 b = [b, b]" for b :: byte by (simp add: numeral_2_eq_2)
  have E: "end_bytes 0 2 94 66 [33] = [0x50, 0x4b, 5, 6, 0, 0, 0, 0, 2, 0, 2, 0, 94, 0, 0, 0, 66, 0, 0, 0, 1, 0, 33]"
    by (simp add: end_bytes_def putValue_bytes Let_def two)
  have "\<forall>i \<in> set [1..<20]. \<not> is_magic ENDHEADERMAGIC (end_bytes 0 2 94 66 [33]) i"
    unfolding E by code_simp
  then have "\<forall>i \<in> {1..19}. \<not> is_magic ENDHEADERMAGIC (end_bytes 0 2 94 66 [33]) i"
    by (simp add: atLeastLessThanSuc_atLeastAtMost [symmetric])
  then show ?thesis using that by (simp add: plain_tail_def)
qed


lemma packable_example:
  "\<exists>fb dir. packable_entries [] 0 3 (zl_crc32 example_zl) [(example_args, [[1, 2, 3], [4]]), (example_args, [])] [33] fb dir"
proof -
  let ?es = "[(example_args, [[1, 2, 3], [4]]), (example_args, [])] :: (new_file_args \<times> byte list list) list"
  have crc: "crc_laws (zl_crc32 example_zl)"
    using crc_laws_example by (simp add: example_zl_def)
  obtain fb dir where e: "entries_bytes (zl_crc32 example_zl) 0 (of_nat 0) (length ([] :: byte list)) ?es = (fb, dir)"
    by (rule prod.exhaust)
  have rec: "length (central_record example_args d q crc k) = 47" for d q crc k
    by (simp add: length_central_record example_args_def entry_filename_def entry_comment_def)
  have len: "length (local_header example_args crc k) = 31" for crc k
    by (simp add: length_local_header example_args_def entry_filename_def)
  obtain r1 off crc where dir: "dir = r1 @ central_record example_args 0 off crc 0" "length r1 = 47" "length fb = 66"
    using e by (auto simp: Let_def len rec split: prod.splits)
  have l: "length dir = 94" "length fb = 66" using dir by (simp_all add: rec)
  have "file_number ([] @ fb @ dir) (length ([] @ fb @ dir) - 20) 4 = 0x100"
    using file_number_append [of "fb @ r1" 113 "central_record example_args 0 off crc 0" 27 4] dir example_locator
    by (simp add: rec)
  then have loc: "file_number ([] @ fb @ dir) (length ([] @ fb @ dir) - 20) 4 \<noteq> ZIP64ENDLOCHEADERMAGIC" by simp
  have tail: "plain_tail dir 0 (of_nat (length ?es)) (of_nat 0) (length ([] @ fb)) [33]"
    using plain_tail_example l by simp
  have small: "?es \<noteq> []" "length ?es < 0xffff" "length ([] @ fb) < 0xffffffff" "length dir \<noteq> 0xffff"
    "0 \<le> length ([] :: byte list)"
    using l by simp_all
  have fits: "\<forall>e \<in> set ?es. entry_fits 3 e \<and> na_extrafield_global (fst e) = []"
    by (simp add: entry_fits_def stored_args_example) (simp add: example_args_def)
  have "packable_entries [] 0 3 (zl_crc32 example_zl) ?es [33] fb dir"
    unfolding packable_entries_def using small(5,1,2) fits crc e small(3) tail small(4) loc by blast
  then show ?thesis by blast
qed

lemma example_unzl_crc: "zl_crc32 example_unzl = zl_crc32 example_zl"
  by (simp add: example_zl_def example_unzl_def)

lemma new_archive_example:
  "new_archive ''a.zip'' APPEND_STATUS_CREATE (closed_file ''b.zip'' []) []" "length (ci_buffered_data example_ci) = Z_BUFSIZE"
  by (simp_all add: new_archive_def example_ci_def)

lemma zip_unzip_roundtrip_witness:
  "\<exists>zi w w'. zipOpen64 example_ci (Some ''a.zip'') APPEND_STATUS_CREATE (closed_file ''b.zip'' []) = Some (Some zi, w) \<and>
     write_archive 4 example_zl (\<lambda>_. 0) zi [(example_args, [[1, 2, 3], [4]]), (example_args, [])] [33] w = Some (ZIP_OK, w') \<and>
     (\<exists>s w2 s' w3. unzOpen64 (Some ''b.zip'') (closed_file ''b.zip'' (stdio_stored ''a.zip'' w')) = Some (Some s, w2) \<and>
        unpack 2 5 2 example_unzl [] 4 s w2 = Some (UNZ_END_OF_LIST_OF_FILE, [([97], [1, 2, 3, 4]), ([97], [])], s', w3))"
proof -
  let ?es = "[(example_args, [[1, 2, 3], [4]]), (example_args, [])] :: (new_file_args \<times> byte list list) list"
  obtain fb dir where pack: "packable_entries [] 0 3 (zl_crc32 example_zl) ?es [33] fb dir"
    using packable_example by blast
  have step: "0 < unat (4 :: u32)" "unat (4 :: u32) < 2 ^ 31" "unat (4 :: u32) < 5" by simp_all
  obtain zi w w' where w': "zipOpen64 example_ci (Some ''a.zip'') APPEND_STATUS_CREATE (closed_file ''b.zip'' []) = Some (Some zi, w)"
    "write_archive (Suc 3) example_zl (\<lambda>_. 0) zi ?es [33] w = Some (ZIP_OK, w')"
    "\<forall>path w1. stdio_contents w1 path = Some (stdio_stored ''a.zip'' w') \<longrightarrow>
      (\<exists>s w2 s' w3. unzOpen64 (Some path) w1 = Some (Some s, w2) \<and>
         unpack (length ?es) 5 (Suc (Suc 0)) example_unzl [] 4 s w2 =
           Some (UNZ_END_OF_LIST_OF_FILE, map (\<lambda>(a, bufs). (entry_filename a, concat bufs)) ?es, s', w3))"
    using zip_unzip_roundtrip [OF new_archive_example pack example_unzl_crc step, of "\<lambda>_. 0" 0 "[]"] by blast
  have "stdio_contents (closed_file ''b.zip'' (stdio_stored ''a.zip'' w')) ''b.zip'' = Some (stdio_stored ''a.zip'' w')"
    by (simp add: stdio_contents_def closed_file_def streams_ok_def)
  from w'(3) [rule_format, OF this] w'(1,2) show ?thesis
    by (intro exI [of _ zi] exI [of _ w] exI [of _ w']) (simp add: entry_filename_def example_args_def numeral_eq_Suc)
qed

end
