(* ===== verification/Zip_Locate.thy ===== *)
theory Zip_Locate
  imports Zip_Unpack
begin

text \<open>
  Looking up a name in an archive (\<open>unzLocateFile\<close> of \<^verbatim>\<open>unzip.c\<close>): on an archive that the writer made, the walk over the
  central directory always ends, at the first entry of that name or at the end of the list.
\<close>

section \<open>Names\<close>

text \<open>A name that is a C string and fits into the buffer of the search with its terminator.\<close>

definition short_name :: "byte list \<Rightarrow> bool" where
  "short_name name \<longleftrightarrow> length name < 256 \<and> 0 \<notin> set name"

lemma c_string_name: "short_name name \<Longrightarrow> c_string (name @ [0]) = name"
  unfolding short_name_def c_string_def by (subst takeWhile_append2) auto

text \<open>The comparison of the caller, or \<^verbatim>\<open>strcmp\<close>, tells equal names from different ones.\<close>

definition compares_to :: "(byte list \<Rightarrow> byte list \<Rightarrow> int) \<Rightarrow> byte list \<Rightarrow> bool" where
  "compares_to compare name \<longleftrightarrow> (\<forall>x. compare x name = 0 \<longleftrightarrow> x = name)"

definition entry_named :: "byte list \<Rightarrow> (new_file_args \<times> byte list list) list \<Rightarrow> (new_file_args \<times> byte list list) option" where
  "entry_named name es = find (\<lambda>(a, bufs). entry_filename a = name) es"

lemma entry_named_Some: "entry_named name es = Some (a, bufs) \<Longrightarrow> entry_filename a = name \<and> (a, bufs) \<in> set es"
  by (auto simp: entry_named_def find_Some_iff in_set_conv_nth)

context unz_files begin

lemma locate_loop_view:
  assumes "crc_laws f" "compares_to compare name"
  shows "at_entries ff view f c A N s w p d es \<Longrightarrow> length es < fuel \<Longrightarrow> \<forall>(a, bufs) \<in> set es. short_name (entry_filename a) \<Longrightarrow>
    \<exists>err s' w'. locate_loop fuel (\<lambda>cur. compare cur name) UNZ_OK (entry_filename (fst (hd es)) @ [0]) s w = Some (err, s', w') \<and>
      repositioned s s' \<and> current_file_ok s' \<and> contents w' = contents w \<and>
      (case entry_named name es of
         None \<Rightarrow> err = UNZ_END_OF_LIST_OF_FILE
       | Some e \<Rightarrow> err = UNZ_OK \<and> (\<exists>p' d' es'. at_entries ff view f c A N s' w' p' d' (e # es')))"
proof (induction es arbitrary: s w p d fuel)
  case Nil
  then show ?case by (simp add: at_entries_def)
next
  case (Cons e es)
  obtain a bufs where e: "e = (a, bufs)" by (cases e)
  obtain n where n: "fuel = Suc n" "length es < n" using Cons(3) by (cases fuel) auto
  have ok: "current_file_ok s"
    using at_entries_data(5) [OF Cons(2) [unfolded e] assms(1)] by (simp add: at_entry_def entry_current_def Let_def)
  have name: "c_string (entry_filename a @ [0]) = entry_filename a"
    using Cons(4) by (intro c_string_name) (simp add: e)
  show ?case
  proof (cases "entry_filename a = name")
    case True
    then have "compare (entry_filename a) name = 0" using assms(2) by (simp add: compares_to_def)
    moreover have "entry_named name (e # es) = Some e" using True by (simp add: entry_named_def e)
    moreover have "repositioned s s" by (simp add: repositioned_def)
    ultimately show ?thesis using Cons(2) ok by (auto simp: n name e)
  next
    case False
    then have step: "compare (entry_filename a) name \<noteq> 0" "entry_named name (e # es) = entry_named name es"
      using assms(2) by (simp_all add: compares_to_def entry_named_def e)
    show ?thesis
    proof (cases es)
      case Nil
      obtain m where m: "n = Suc m" using n(2) by (cases n) auto
      have "repositioned s s" by (simp add: repositioned_def)
      with step Nil ok show ?thesis
        using at_entries_last [OF Cons(2) [unfolded Nil]] by (simp add: n m name e entry_named_def)
    next
      case es: (Cons e2 es2)
      have room: "length (entry_filename (fst e2)) < unat (256 :: u64)"
        using Cons(4) by (auto simp: es short_name_def)
      obtain nbufs s2 w2 p2 d2 where 2: "unzGoToNextFile2 s (Some 256) None None w = Some (UNZ_OK, nbufs, s2, w2)"
        "ib_filename nbufs = entry_filename (fst e2) @ [0]" "at_entries ff view f c A N s2 w2 p2 d2 es"
        "contents w2 = contents w" "repositioned s s2"
        using at_entries_next [OF Cons(2) [unfolded es] assms(1), of "Some 256"] room unfolding es by auto
      have short: "\<forall>(a, bufs) \<in> set es. short_name (entry_filename a)" using Cons(4) by simp
      obtain err s' w' where 3: "locate_loop n (\<lambda>cur. compare cur name) UNZ_OK (entry_filename (fst (hd es)) @ [0]) s2 w2 =
          Some (err, s', w')" "repositioned s2 s'" "current_file_ok s'" "contents w' = contents w2"
        "case entry_named name es of
           None \<Rightarrow> err = UNZ_END_OF_LIST_OF_FILE
         | Some e \<Rightarrow> err = UNZ_OK \<and> (\<exists>p' d' es'. at_entries ff view f c A N s' w' p' d' (e # es'))"
        using Cons.IH [OF 2(3) n(2) short] by blast
      have "locate_loop fuel (\<lambda>cur. compare cur name) UNZ_OK (entry_filename a @ [0]) s w = Some (err, s', w')"
        using 3(1) step(1) 2(1,2) by (simp add: n name es)
      then show ?thesis
        using repositioned_trans [OF 2(5) 3(2)] 3(3-5) 2(4) step(2) by (intro exI conjI) (simp_all add: e)
    qed
  qed
qed

lemma unzLocateFile_view:
  assumes "at_entries ff view f c A (length es) s w p1 d1 es1" "crc_laws f" "compares_to compare name" "length name < 256"
    and "entries_bytes f (number_disk_with_CD (gi s)) (of_nat A) p es = (fb, dir)" "stands_at c p fb" "stands_at c d dir"
    and "p + length fb < 0xffffffff" "A \<le> p" "es \<noteq> []" "\<forall>e \<in> set es. plain_entry_fits e"
    and "\<forall>(a, bufs) \<in> set es. short_name (entry_filename a)" "offset_central_dir s + of_nat A = of_nat d" "length es < fuel"
  shows "\<exists>err s' w'. unzLocateFile fuel s name compare w = Some (err, s', w') \<and> contents w' = contents w \<and>
    (case entry_named name es of
       None \<Rightarrow> err = UNZ_END_OF_LIST_OF_FILE \<and> s' = s
     | Some e \<Rightarrow> err = UNZ_OK \<and> (\<exists>p' d' es'. at_entries ff view f c A (length es) s' w' p' d' (e # es')))"
proof -
  obtain e es2 where es: "es = e # es2" using assms(10) by (cases es) auto
  obtain a1 bufs1 es3 where es1: "es1 = (a1, bufs1) # es3" using assms(1) by (cases es1) (auto simp: at_entries_def)
  note here = at_entries_data [OF assms(1) [unfolded es1] assms(2)] and h = assms(1) [unfolded at_entries_def]
  note t = here(5) [unfolded at_entry_def Let_def fst_conv snd_conv]
  let ?s = "s\<lparr>pos_in_central_dir := offset_central_dir s, num_file := 0\<rparr>"
  have o: "opened ff view c ?s w" using here(4) by (simp add: opened_def)
  have d: "d < 2 ^ 63" using stands_at_length [OF assms(7)] here(6) by simp
  have p: "p < 0xffffffff" using assms(8) by simp
  have fits: "plain_entry_fits e" and room: "length (entry_filename (fst e)) < unat (256 :: u64)"
    using assms(11,12) by (auto simp: es short_name_def split: prod.splits)
  have disk: "number_disk_with_CD (gi ?s) < 0x10000" "number_disk ?s = number_disk_with_CD (gi ?s)"
    "byte_before_the_zipfile ?s = of_nat A" "pfile_in_zip_read ?s = None"
    using t by (simp_all add: at_record_def)
  have eb: "entries_bytes f (number_disk_with_CD (gi ?s)) (of_nat A) p (e # es2) = (fb, dir)"
    using assms(5) by (simp add: es)
  obtain s1 nbufs w1 where 1: "load_current_file ?s (Some 256) None None w = Some (UNZ_OK, nbufs, s1, w1)"
    "ib_filename nbufs = entry_filename (fst e) @ [0]" "opened ff view c s1 w1" "contents w1 = contents w"
    "at_entry f c s1 A d p e" "gi s1 = gi s" "num_file s1 = 0" "repositioned ?s s1"
    using load_entry [OF o assms(2) eb assms(7,9) p d fits _ disk(3,1,2,4), of "Some 256"] room assms(13) by auto
  have s1: "repositioned s s1" using 1(8) unfolding repositioned_def by (cases s, cases s1) simp
  have all: "at_entries ff view f c A (length es) s1 w1 p d es"
    using 1(3,5-7) assms(5-11) h by (simp add: at_entries_def es)
  obtain err s2 w2 where 2: "locate_loop fuel (\<lambda>cur. compare cur name) UNZ_OK (entry_filename (fst (hd es)) @ [0]) s1 w1 =
      Some (err, s2, w2)" "repositioned s1 s2" "current_file_ok s2" "contents w2 = contents w1"
    "case entry_named name es of
       None \<Rightarrow> err = UNZ_END_OF_LIST_OF_FILE
     | Some e \<Rightarrow> err = UNZ_OK \<and> (\<exists>p' d' es'. at_entries ff view f c A (length es) s2 w2 p' d' (e # es'))"
    using locate_loop_view [OF assms(2,3) all assms(14,12)] by blast
  let ?restored = "s2\<lparr>num_file := num_file s, pos_in_central_dir := pos_in_central_dir s,
      cur_file_info := cur_file_info s, cur_file_info_internal := cur_file_info_internal s\<rparr>"
  have ok: "current_file_ok s" using t by (simp add: entry_current_def)
  have same: "?restored = s"
    using repositioned_trans [OF s1 2(2)] 2(3) ok unfolding repositioned_def by (cases s, cases s2) simp
  have "unzLocateFile fuel s name compare w = Some (err, if err = UNZ_OK then s2 else s, w2)"
    using assms(4) ok 1(1,2) 2(1) same by (simp add: unzLocateFile_def unzGoToFirstFile2_def es)
  with 2(4,5) 1(4) show ?thesis by (auto split: option.splits)
qed

end

section \<open>Properties\<close>

text \<open>
  C15: Every lookup in an archive that the writer made comes to an end, with the right answer: \<open>unzLocateFile\<close> finds
  the first entry of the name and makes it the current one, so that opening and reading it gives that
  entry's data; a name that is not in the archive gives the end of the list, and leaves the reader where it was. One turn
  for each entry and one more are enough.
\<close>

lemma unz_locate_finds:
  assumes "new_archive fname append_status w0 c0" "length (ci_buffered_data ci) = Z_BUFSIZE"
    and "packable_entries c0 0 n (zl_crc32 zl) es cmt fb dir" "zl_crc32 zl' = zl_crc32 zl"
    and "0 < unat step" "unat step < 2 ^ 31" "unat step < turns"
    and "\<forall>(a, bufs) \<in> set es. short_name (entry_filename a)" "length name < 256" "compares_to compare name"
  shows "\<exists>zi w w'. zipOpen64 ci (Some fname) append_status w0 = Some (Some zi, w) \<and>
    write_archive (Suc n) zl rnd zi es cmt w = Some (ZIP_OK, w') \<and>
    (\<forall>path w1. stdio_contents w1 path = Some (stdio_stored fname w') \<longrightarrow>
      (\<exists>s w2. unzOpen64 (Some path) w1 = Some (Some s, w2) \<and>
         (case entry_named name es of
            None \<Rightarrow> \<exists>w3. unzLocateFile (Suc (length es)) s name compare w2 = Some (UNZ_END_OF_LIST_OF_FILE, s, w3)
          | Some (a, bufs) \<Rightarrow> \<exists>s' w3 s'' w4. unzLocateFile (Suc (length es)) s name compare w2 = Some (UNZ_OK, s', w3) \<and>
              unpack_entry turns (Suc (Suc m)) zl' heap step s' w3 = Some (UNZ_OK, name, concat bufs, s'', w4))))"
proof -
  note h = assms(3) [unfolded packable_entries_def]
  obtain zi w where open_zip: "zipOpen64 ci (Some fname) append_status w0 = Some (Some zi, w)" "writer_starts fname c0 0 w zi"
    using zipOpen64_starts [OF assms(1,2)] by blast
  have crc: "crc_laws (zl_crc32 zl)" and plain: "\<forall>e \<in> set es. plain_entry_fits e"
    using h by (auto simp: plain_entry_fits_def entry_fits_def plain_args_def)
  obtain w' c where w': "write_archive (Suc n) zl rnd zi es cmt w = Some (ZIP_OK, w')" "stdio_stored fname w' = c"
    "stands_at c (length c0) fb" "stands_at c (length (c0 @ fb)) dir"
    "\<forall>path w1. stdio_contents w1 path = Some c \<longrightarrow>
      (\<exists>(s :: (stdio, 'b) unz64_s) w2. unzOpen64 (Some path) w1 = Some (Some s, w2) \<and>
         at_entries (table64 fill_fopen64_filefunc) stdio_owned (zl_crc32 zl) c 0 (length es) s w2
           (length c0) (length (c0 @ fb)) es \<and>
         offset_central_dir s + of_nat 0 = of_nat (length (c0 @ fb)) \<and> number_disk_with_CD (gi s) = 0)"
    using packed_archive_opens [OF assms(3) open_zip(2), of rnd] by blast
  have "\<exists>(s :: (stdio, 'b) unz64_s) w2. unzOpen64 (Some path) w1 = Some (Some s, w2) \<and>
         (case entry_named name es of
            None \<Rightarrow> \<exists>w3. unzLocateFile (Suc (length es)) s name compare w2 = Some (UNZ_END_OF_LIST_OF_FILE, s, w3)
          | Some (a, bufs) \<Rightarrow> \<exists>s' w3 s'' w4. unzLocateFile (Suc (length es)) s name compare w2 = Some (UNZ_OK, s', w3) \<and>
              unpack_entry turns (Suc (Suc m)) zl' heap step s' w3 = Some (UNZ_OK, name, concat bufs, s'', w4))"
    if here: "stdio_contents w1 path = Some c" for path w1
  proof -
    obtain s :: "(stdio, 'b) unz64_s" and w2 where 1: "unzOpen64 (Some path) w1 = Some (Some s, w2)"
      "at_entries (table64 fill_fopen64_filefunc) stdio_owned (zl_crc32 zl) c 0 (length es) s w2
           (length c0) (length (c0 @ fb)) es"
      "offset_central_dir s + of_nat 0 = of_nat (length (c0 @ fb))" "number_disk_with_CD (gi s) = 0"
      using w'(5) here by blast
    have eb: "entries_bytes (zl_crc32 zl) (number_disk_with_CD (gi s)) (of_nat 0) (length c0) es = (fb, dir)"
      "length c0 + length fb < 0xffffffff" "0 \<le> length c0" "es \<noteq> []" using h 1(4) by simp_all
    obtain err s' w3 where 2: "unzLocateFile (Suc (length es)) s name compare w2 = Some (err, s', w3)"
      "case entry_named name es of
         None \<Rightarrow> err = UNZ_END_OF_LIST_OF_FILE \<and> s' = s
       | Some e \<Rightarrow> err = UNZ_OK \<and> (\<exists>p' d' es'. at_entries (table64 fill_fopen64_filefunc) stdio_owned (zl_crc32 zl) c 0
           (length es) s' w3 p' d' (e # es'))"
      using unz64.unzLocateFile_view [OF 1(2) crc assms(10,9) eb(1) w'(3,4) eb(2-4) plain assms(8) 1(3) lessI] by blast
    show ?thesis
    proof (cases "entry_named name es")
      case None
      then show ?thesis using 1(1) 2 by auto
    next
      case (Some e)
      obtain a bufs where e: "e = (a, bufs)" by (cases e)
      have name: "entry_filename a = name" using entry_named_Some Some by (simp add: e)
      obtain p' d' es' where here: "at_entries (table64 fill_fopen64_filefunc) stdio_owned (zl_crc32 zl) c 0
           (length es) s' w3 p' d' ((a, bufs) # es')" using 2(2) by (auto simp: Some e)
      note data = unz64.at_entries_data [OF here crc]
      have "\<exists>s'' w4. unpack_entry turns (Suc (Suc m)) zl' heap step s' w3 = Some (UNZ_OK, name, concat bufs, s'', w4)"
        using unz64.unpack_at_entry [OF data(4) _ _ data(2) _ data(3,6) assms(5-7), of zl'] data(1,5) crc name
        unfolding assms(4) by blast
      then show ?thesis using 1(1) 2 by (auto simp: Some e)
    qed
  qed
  with w'(1,2) open_zip(1) show ?thesis by blast
qed

lemma unz_locate_finds_witness:
  "\<exists>zi w w'. zipOpen64 example_ci (Some ''a.zip'') APPEND_STATUS_CREATE (closed_file ''b.zip'' []) = Some (Some zi, w) \<and>
     write_archive 4 example_zl (\<lambda>_. 0) zi [(example_args, [[1, 2, 3], [4]]), (example_args, [])] [33] w = Some (ZIP_OK, w') \<and>
     (\<exists>s w2 s' w3 s'' w4. unzOpen64 (Some ''b.zip'') (closed_file ''b.zip'' (stdio_stored ''a.zip'' w')) = Some (Some s, w2) \<and>
        unzLocateFile 3 s [97] (\<lambda>x y. if x = y then 0 else 1) w2 = Some (UNZ_OK, s', w3) \<and>
        unpack_entry 5 2 example_unzl [] 4 s' w3 = Some (UNZ_OK, [97], [1, 2, 3, 4], s'', w4))"
proof -
  let ?es = "[(example_args, [[1, 2, 3], [4]]), (example_args, [])] :: (new_file_args \<times> byte list list) list"
  obtain fb dir where pack: "packable_entries [] 0 3 (zl_crc32 example_zl) ?es [33] fb dir"
    using packable_example by blast
  have step: "0 < unat (4 :: u32)" "unat (4 :: u32) < 2 ^ 31" "unat (4 :: u32) < 5" by simp_all
  have name: "entry_filename example_args = [97]" by (simp add: entry_filename_def example_args_def)
  have names: "\<forall>(a, bufs) \<in> set ?es. short_name (entry_filename a)" "length [97 :: byte] < 256"
    "compares_to (\<lambda>x y. if x = y then 0 else 1) [97]"
    by (simp_all add: name short_name_def compares_to_def)
  have first: "entry_named [97] ?es = Some (example_args, [[1, 2, 3], [4]])" by (simp add: entry_named_def name)
  obtain zi w w' where w': "zipOpen64 example_ci (Some ''a.zip'') APPEND_STATUS_CREATE (closed_file ''b.zip'' []) = Some (Some zi, w)"
    "write_archive (Suc 3) example_zl (\<lambda>_. 0) zi ?es [33] w = Some (ZIP_OK, w')"
    "\<forall>path w1. stdio_contents w1 path = Some (stdio_stored ''a.zip'' w') \<longrightarrow>
      (\<exists>s w2. unzOpen64 (Some path) w1 = Some (Some s, w2) \<and>
         (\<exists>s' w3 s'' w4. unzLocateFile (Suc (length ?es)) s [97] (\<lambda>x y. if x = y then 0 else 1) w2 = Some (UNZ_OK, s', w3) \<and>
            unpack_entry 5 (Suc (Suc 0)) example_unzl [] 4 s' w3 = Some (UNZ_OK, [97], concat [[1, 2, 3], [4]], s'', w4)))"
    using unz_locate_finds [OF new_archive_example pack example_unzl_crc step names, of "\<lambda>_. 0" 0 "[]", unfolded first option.case prod.case]
    by blast
  have "stdio_contents (closed_file ''b.zip'' (stdio_stored ''a.zip'' w')) ''b.zip'' = Some (stdio_stored ''a.zip'' w')"
    by (simp add: stdio_contents_def closed_file_def streams_ok_def)
  from w'(3) [rule_format, OF this] w'(1,2) show ?thesis
    by (intro exI [of _ zi] exI [of _ w] exI [of _ w']) (simp add: numeral_eq_Suc)
qed

end
