(* ===== verification/Zip_Open.thy ===== *)
theory Zip_Open
  imports Zip_Frame
begin

text \<open>
  Opening an archive that any program may have written: what \<open>unzOpenInternal\<close> makes of the end record, and that it always
  comes to an end, whatever the first record of the directory holds.
\<close>

unbundle bit_operations_syntax

section \<open>Numbers of two bytes\<close>

lemma get_le_bits:
  "get_le ff h n shift x w = (e, v, w') \<Longrightarrow> bit v i \<Longrightarrow> bit x i \<or> i < shift + 8 * n"
proof (induction ff h n shift x w rule: get_le.induct)
  case (2 ff h n shift x w)
  obtain e1 b w1 where 1: "unz64local_getByte ff h w = (e1, b, w1)" by (metis prod_cases3)
  have byte: "bit (push_bit shift (ucast b :: u64)) i \<Longrightarrow> i < shift + 8 * Suc n"
    by (auto simp: bit_push_bit_iff bit_unsigned_iff dest: bit_imp_le_length)
  show ?case
  proof (cases "e1 = UNZ_OK")
    case True
    with 2 1 have "bit (x OR push_bit shift (ucast b)) i \<or> i < shift + 8 + 8 * n" by simp
    with byte show ?thesis by (auto simp: bit_or_iff)
  qed (use 2 1 in auto)
qed simp

lemma getShort_less:
  assumes "unz64local_getShort ff h w = (e, v, w')"
  shows "unat v < 2 ^ 16"
proof -
  have "v = take_bit 16 v"
    using get_le_bits [OF assms [unfolded unz64local_getShort_def]] by (intro bit_word_eqI) (auto simp: bit_take_bit_iff)
  then have "unat v = take_bit 16 (unat v)" by (metis unsigned_take_bit_eq)
  then show ?thesis by (metis take_bit_nat_less_exp)
qed

lemma checked_getShort_less: "unat (fst (checked (unz64local_getShort ff h) st)) < 2 ^ 16"
  using getShort_less [of ff h "snd st"] by (auto simp: checked_def split: prod.splits)

section \<open>Reading a record of the directory comes to an end\<close>

text \<open>A table whose seek and tell functions are there.\<close>

definition can_seek :: "'w zlib_filefunc64_32_def \<Rightarrow> bool" where
  "can_seek ff \<longleftrightarrow> zseek64_file (zfile_func64 ff) \<noteq> None \<and> ztell64_file (zfile_func64 ff) \<noteq> None"

lemma can_seekD:
  assumes "can_seek ff"
  shows "\<exists>r. call_zseek64 ff h off org w = Some r" "\<exists>r. call_ztell64 ff h w = Some r" "\<exists>r. seek_forward ff h l err w = Some r"
  using assms by (auto simp: can_seek_def call_zseek64_def call_ztell64_def seek_forward_def case_prod_beta)

lemma extra_fields_total:
  "can_seek ff \<Longrightarrow> unat (fi_size_file_extra fi) < 2 ^ 16 \<Longrightarrow> unat acc < 2 ^ 18 \<Longrightarrow>
   (unat (fi_size_file_extra fi) + 3 - unat acc) div 4 < n \<Longrightarrow> \<exists>r. extra_fields n ff h acc fi offset err w = Some r"
proof (induction n arbitrary: acc fi offset err w)
  case (Suc n)
  show ?case
  proof (cases "err \<noteq> UNZ_ERRNO \<and> acc < fi_size_file_extra fi")
    case True
    obtain headerid st where 1: "checked (unz64local_getShort ff h) (err, w) = (headerid, st)" by (metis surj_pair)
    obtain datasize err2 w2 where 2: "checked (unz64local_getShort ff h) st = (datasize, err2, w2)" by (metis prod_cases3)
    have lt: "unat acc < unat (fi_size_file_extra fi)" using True by (simp add: word_less_nat_alt)
    have d: "unat datasize < 2 ^ 16" using checked_getShort_less [of ff h st] unfolding 2 by simp
    have "unat (acc + (2 + 2 + datasize)) = unat acc + (4 + unat datasize)"
      using d lt Suc.prems(2) by (subst unat_add_lem [THEN iffD1]) (auto simp: unat_word_ariths)
    then have acc: "unat (acc + (2 + 2 + datasize)) < 2 ^ 18"
      "(unat (fi_size_file_extra fi) + 3 - unat (acc + (2 + 2 + datasize))) div 4 < n"
      using d lt Suc.prems(2,4) by auto
    have rec: "\<exists>r. extra_fields n ff h (acc + (2 + 2 + datasize)) fi' offset' err' w' = Some r"
      if "fi_size_file_extra fi' = fi_size_file_extra fi" for fi' offset' err' w'
      using Suc.IH [of fi' "acc + (2 + 2 + datasize)"] Suc.prems(1,2) acc that by simp
    show ?thesis
      using True 1 2 rec can_seekD(1) [OF Suc.prems(1), of h datasize ZLIB_FILEFUNC_SEEK_CUR w2]
      by (auto simp: Let_def split: prod.splits)
  qed auto
qed simp

lemma read_central_fields_extra:
  "unat (fi_size_file_extra (fst (read_central_fields ff h st))) < 2 ^ 16"
  unfolding read_central_fields_def Let_def case_prod_beta fst_conv unz_file_info64.simps by (rule checked_getShort_less)

text \<open>An error before the fields are read stays, and the record is not used.\<close>

lemma checked_error: "fst st \<noteq> UNZ_OK \<Longrightarrow> fst (snd (checked get st)) \<noteq> UNZ_OK"
  by (auto simp: checked_def case_prod_beta)

lemma read_central_fields_error:
  "fst st \<noteq> UNZ_OK \<Longrightarrow> fst (snd (snd (read_central_fields ff h st))) \<noteq> UNZ_OK"
  unfolding read_central_fields_def Let_def case_prod_beta fst_conv snd_conv by (intro checked_error)

lemma parse_extra_total:
  assumes "can_seek ff" "unat (fi_size_file_extra fi) < 2 ^ 16"
  shows "\<exists>r. info_parse_extra ff h fi offset lSeek err w = Some r"
proof (cases "err = UNZ_OK \<and> fi_size_file_extra fi \<noteq> 0")
  case True
  obtain l1 e1 w1 where 1: "seek_forward ff h lSeek err w = Some (l1, e1, w1)" using can_seekD(3) [OF assms(1)] by (metis prod_cases3)
  obtain pos w2 where 2: "call_ztell64 ff h w1 = Some (pos, w2)" using can_seekD(2) [OF assms(1)] by (metis surj_pair)
  obtain e3 w3 where 3: "call_zseek64 ff h (pos - fi_size_file_extra fi) ZLIB_FILEFUNC_SEEK_SET w2 = Some (e3, w3)"
    using can_seekD(1) [OF assms(1)] by (metis surj_pair)
  have "(unat (fi_size_file_extra fi) + 3 - unat (0 :: u64)) div 4 < unat (fi_size_file_extra fi) div 4 + 2" by simp
  from extra_fields_total [OF assms _ this]
  have "\<exists>r. extra_fields (unat (fi_size_file_extra fi) div 4 + 2) ff h 0 fi offset err' w3 = Some r" for err' by simp
  then obtain fi4 o4 e4 w4 where "extra_fields (unat (fi_size_file_extra fi) div 4 + 2) ff h 0 fi offset
      (if e3 \<noteq> 0 then UNZ_ERRNO else if pos < fi_size_file_extra fi then UNZ_ERRNO else e1) w3 = Some (fi4, o4, e4, w4)"
    by (metis prod_cases4)
  with True 1 2 3 show ?thesis by (simp add: info_parse_extra_def Let_def)
qed (auto simp: info_parse_extra_def)

text \<open>
  Where the magic number of a record is not, the result is an error; and there always is a result.
\<close>

lemma get_info_total:
  fixes s :: "('w, 'z) unz64_s"
  defines "ff \<equiv> z_filefunc s" and "h \<equiv> filestream_with_CD s"
  assumes "can_seek ff" "call_zseek64 ff h (pos_in_central_dir s + byte_before_the_zipfile s) ZLIB_FILEFUNC_SEEK_SET w = Some (0, w1)"
    "unz64local_getLong ff h w1 = (UNZ_OK, uMagic, w2)"
  shows "\<exists>err fi fii bufs w'. unz64local_GetCurrentFileInfoInternal s None None None w = Some (err, fi, fii, bufs, w') \<and>
    (uMagic \<noteq> CENTRALHEADERMAGIC \<longrightarrow> err \<noteq> UNZ_OK)"
proof -
  define e where "e = (if uMagic \<noteq> CENTRALHEADERMAGIC then UNZ_BADZIPFILE else UNZ_OK)"
  obtain fi offset err w3 where 3: "read_central_fields ff h (e, w2) = (fi, offset, err, w3)" by (metis prod_cases4)
  have fi: "unat (fi_size_file_extra fi) < 2 ^ 16" using read_central_fields_extra [of ff h "(e, w2)"] by (simp add: 3)
  have err: "err \<noteq> UNZ_OK" if "uMagic \<noteq> CENTRALHEADERMAGIC"
    using read_central_fields_error [of "(e, w2)" ff h, unfolded 3] that by (simp add: e_def)
  obtain fi4 o4 l4 e4 w4 where 4: "info_parse_extra ff h fi offset (0 + fi_size_filename fi + fi_size_file_extra fi) err w3 =
      Some (fi4, o4, l4, e4, w4)"
    using parse_extra_total [OF assms(3) fi] by (metis prod_cases5)
  have "e4 \<noteq> UNZ_OK" if "err \<noteq> UNZ_OK" using 4 that by (auto simp: info_parse_extra_def)
  with assms(4,5) 3 4 err show ?thesis
    unfolding ff_def h_def unz64local_GetCurrentFileInfoInternal_def
    by (simp add: Let_def info_filename_def info_extrafield_def info_comment_def e_def)
qed

section \<open>Opening\<close>

text \<open>
  The archives that are refused although an end record was found, when there is no zip64 locator before it: the two counts
  of the entries differ, one of three fields has the value that the source takes for the mark of zip64, or the directory
  would begin before the file.
\<close>

definition refused_end :: "byte list \<Rightarrow> nat \<Rightarrow> bool" where
  "refused_end c r \<longleftrightarrow> file_number c (r + 10) 2 \<noteq> file_number c (r + 8) 2 \<or>
     file_number c (r + 8) 2 = 0xffff \<or> file_number c (r + 12) 4 = 0xffff \<or> file_number c (r + 16) 4 = 0xffffffff \<or>
     r < unat (file_number c (r + 16) 4) + unat (file_number c (r + 12) 4)"

text \<open>What the structure of an open archive holds: the end record, and where the directory and the archive start.\<close>

definition opened_at :: "('w, 'z) unz64_s \<Rightarrow> byte list \<Rightarrow> nat \<Rightarrow> bool" where
  "opened_at s c r \<longleftrightarrow> gi s = er_gi (end_record_of c r) \<and> number_disk s = file_number c (r + 4) 2 \<and> central_pos s = of_nat r \<and>
     size_central_dir s = file_number c (r + 12) 4 \<and> offset_central_dir s = file_number c (r + 16) 4 \<and>
     unat (byte_before_the_zipfile s) + unat (offset_central_dir s) + unat (size_central_dir s) = r \<and>
     pos_in_central_dir s = offset_central_dir s \<and> num_file s = 0 \<and> \<not> isZip64 s \<and> pfile_in_zip_read s = None \<and>
     (current_file_ok s \<longrightarrow> file_number c (r - unat (size_central_dir s)) 4 = CENTRALHEADERMAGIC)"

lemma file_number_less: "n \<le> 4 \<Longrightarrow> unat (file_number c p n) < 2 ^ 32"
proof -
  assume n: "n \<le> 4"
  have "le_nat (take n (drop p c)) < 256 ^ length (take n (drop p c))" by (rule le_nat_less)
  also have "\<dots> \<le> 256 ^ 4" using n by (intro power_increasing) auto
  finally show ?thesis by (simp add: file_number_def le_word_le_nat unat_of_nat)
qed

context unz_files begin

lemma open_plain_view:
  assumes "contents w path = Some c" "length c < bound" "can_seek ff"
    and "end_record_at c r" "20 \<le> r" "r + 22 \<le> length c"
    and "file_number c (r - 20) 4 \<noteq> ZIP64ENDLOCHEADERMAGIC"
  shows "\<exists>(res :: ('w, 'z) unz64_s option) w'. unzOpenInternal (Some path) ff w = Some (res, w') \<and>
    (case res of None \<Rightarrow> refused_end c r | Some s \<Rightarrow> \<not> refused_end c r \<and> opened_at s c r)"
proof -
  let ?er = "end_record_of c r" and ?off = "file_number c (r + 16) 4" and ?size = "file_number c (r + 12) 4"
  have r: "r < 2 ^ 63" using assms(2,6) bound_le by simp
  have sum: "unat (?off + ?size) = unat ?off + unat ?size"
    using file_number_less [of 4 c "r + 16"] file_number_less [of 4 c "r + 12"] by (simp add: unat_word_ariths)
  have lt: "(of_nat r :: u64) < ?off + ?size \<longleftrightarrow> r < unat ?off + unat ?size"
    unfolding word_less_nat_alt sum using r by (simp add: unat_u64_of_nat)
  obtain h w1 where 1: "call_zopen64 ff (Some path) (ZLIB_FILEFUNC_MODE_READ OR ZLIB_FILEFUNC_MODE_EXISTING) w = Some (h, w1)"
    "h \<noteq> 0" "view w1 h = Some (c, 0)" "contents w1 = contents w" using zopen_law [OF assms(1)] by blast
  have v1: "framed w1 h w1 h = Some (c, 0)" by (simp add: framed_start 1(3))
  obtain w2 q where 2: "find_central_dir ff h w1 =
      (if file_number c (r + 10) 2 \<noteq> file_number c (r + 8) 2 then Some (of_nat r, ?er, False, UNZ_BADZIPFILE, w2)
       else if wants_zip64 ?er then Some (0, ?er, False, UNZ_BADZIPFILE, w2) else Some (of_nat r, ?er, False, UNZ_OK, w2))"
    "framed w1 h w2 h = Some (c, q)"
    using zip_file.find_central_dir_view [OF framed_file v1 assms(2,4-7)] by blast
  have er: "er_size_central_dir ?er = ?size" "er_offset_central_dir ?er = ?off" by (simp_all add: end_record_of_def)
  have zip64: "wants_zip64 ?er \<longleftrightarrow> file_number c (r + 8) 2 = 0xffff \<or> ?size = 0xffff \<or> ?off = 0xffffffff"
    by (simp add: wants_zip64_def end_record_of_def)
  show ?thesis
  proof (cases "refused_end c r")
    case True
    then have "unzOpenInternal (Some path) ff w = Some (None :: ('w, 'z) unz64_s option, snd (zclose64 ff h w2))"
      using 1(1,2) 2(1) lt by (auto simp: unzOpenInternal_def refused_end_def zip64) (simp_all add: end_record_of_def)
    with True show ?thesis by (intro exI [of _ None] exI [of _ "snd (zclose64 ff h w2)"]) simp
  next
    case False
    then have ok: "\<not> (of_nat r :: u64) < ?off + ?size" "unat ?off + unat ?size \<le> r"
      and found: "find_central_dir ff h w1 = Some (of_nat r, ?er, False, UNZ_OK, w2)"
      using 2(1) lt by (auto simp: refused_end_def zip64)
    have c2: "contents w2 path = Some c" "view w2 h = Some (c, q)" using framedD(1,2) [OF 2(2)] 1(4) assms(1) by simp_all
    obtain h' w3 q3 where 3: "(if number_disk_with_CD (er_gi ?er) = 0
        then call_zopen64 ff (Some path) (ZLIB_FILEFUNC_MODE_READ OR ZLIB_FILEFUNC_MODE_EXISTING) w2 else Some (0, w2)) = Some (h', w3)"
      "view w3 h = Some (c, q3)"
      using zopen_law [OF c2(1)] c2(2) by (cases "number_disk_with_CD (er_gi ?er) = 0") (fastforce, fastforce)
    define s0 :: "('w, 'z) unz64_s" where "s0 = \<lparr>z_filefunc = ff, filestream = (if h' \<noteq> 0 then h' else h), filestream_with_CD = h,
      gi = er_gi ?er, byte_before_the_zipfile = of_nat r - (?off + ?size), num_file = 0, pos_in_central_dir = 0,
      current_file_ok = False, central_pos = of_nat r, number_disk = er_number_disk ?er, size_central_dir = ?size,
      offset_central_dir = ?off, cur_file_info = zero_file_info,
      cur_file_info_internal = \<lparr>offset_curfile = 0, fi_byte_before_the_zipfile = 0\<rparr>,
      pfile_in_zip_read = None, isZip64 = False, us_keys = (0, 0, 0), us_pcrc_32_tab = None\<rparr>"
    define s where "s = s0\<lparr>pos_in_central_dir := ?off, num_file := 0\<rparr>"
    note s_def = s_def s0_def
    have start: "unzOpenInternal (Some path) ff w = do { (_, s, w) \<leftarrow> unzGoToFirstFile s0 w3; Some (Some s, w) }"
      using ok(1) by (simp only: unzOpenInternal_def s0_def 1(1) found 3(1) bind.bind_lunit Option.bind.simps prod.case Let_def er
        1(2) refl simp_thms if_False if_True)
    have before: "unat (byte_before_the_zipfile s) = r - (unat ?off + unat ?size)"
      using r ok(1) by (simp add: s_def unat_sub_if_size sum unat_u64_of_nat word_less_nat_alt) 
    have at: "unat (pos_in_central_dir s + byte_before_the_zipfile s) = r - unat ?size"
      using r ok(2) before by (subst unat_add_lem [THEN iffD1]) (auto simp: s_def)
    obtain w4 where 4: "call_zseek64 ff h (pos_in_central_dir s + byte_before_the_zipfile s) ZLIB_FILEFUNC_SEEK_SET w3 = Some (0, w4)"
      "view w4 h = Some (c, r - unat ?size)"
      using zseek_set_law [OF 3(2), of "pos_in_central_dir s + byte_before_the_zipfile s"]
        less_imp_diff_less [OF r, of "unat ?size"] unfolding at by blast
    obtain w5 where 5: "unz64local_getLong ff h w4 = (UNZ_OK, file_number c (r - unat ?size) 4, w5)"
      using getLong_view [OF 4(2)] by (auto simp: file_number_def)
    have s: "z_filefunc s = ff" "filestream_with_CD s = h" by (simp_all add: s_def)
    obtain err fi fii bufs w6 where 6: "unz64local_GetCurrentFileInfoInternal s None None None w3 = Some (err, fi, fii, bufs, w6)"
      "file_number c (r - unat ?size) 4 \<noteq> CENTRALHEADERMAGIC \<longrightarrow> err \<noteq> UNZ_OK"
      using get_info_total [of s, unfolded s, OF assms(3) 4(1) 5] by blast
    define s' where "s' = (if err = UNZ_OK then s\<lparr>cur_file_info := fi, cur_file_info_internal := fii\<rparr> else s)\<lparr>current_file_ok := (err = UNZ_OK)\<rparr>"
    have "unzGoToFirstFile s0 w3 = Some (err, s', w6)"
      using 6(1) by (simp add: unzGoToFirstFile_def unzGoToFirstFile2_def load_current_file_def s'_def s_def)
    then have "unzOpenInternal (Some path) ff w = Some (Some s', w6)"
      by (simp add: start)
    moreover have "opened_at s' c r"
      using before ok(2) 6(2) by (auto simp: opened_at_def s'_def s_def end_record_of_def)
    ultimately show ?thesis using False by (intro exI [of _ "Some s'"] exI [of _ w6]) simp
  qed
qed

end

section \<open>Properties\<close>


text \<open>An end record that claims a directory of five bytes, right before it, with fifteen bytes in front.\<close>

definition prefixed_archive :: "byte list" where
  "prefixed_archive = replicate 20 7 @ [0x50, 0x4b, 0x05, 0x06] @ replicate 8 0 @ [5, 0, 0, 0] @ replicate 6 0"

lemma prefixed_archive_bytes: "prefixed_archive =
  [7, 7, 7, 7, 7, 7, 7, 7, 7, 7, 7, 7, 7, 7, 7, 7, 7, 7, 7, 7, 0x50, 0x4b, 0x05, 0x06, 0, 0, 0, 0, 0, 0, 0, 0,
   5, 0, 0, 0, 0, 0, 0, 0, 0, 0]"
  by (simp add: prefixed_archive_def numeral_eq_Suc)

lemma end_record_at_prefixed: "end_record_at prefixed_archive 20"
proof -
  have no: "\<forall>i \<in> set [21..<39]. \<not> is_magic ENDHEADERMAGIC prefixed_archive i"
    unfolding prefixed_archive_bytes by code_simp
  have "is_magic ENDHEADERMAGIC prefixed_archive 20" unfolding prefixed_archive_bytes by code_simp
  moreover have "\<not> is_magic ENDHEADERMAGIC prefixed_archive i" if "20 < i" "i \<le> 38" for i
  proof -
    have "i \<in> set [21..<39]" unfolding set_upt using that by simp
    with no show ?thesis by (rule bspec)
  qed
  moreover have "length prefixed_archive = 42" unfolding prefixed_archive_bytes by simp
  ultimately show ?thesis by (simp add: end_record_at_def)
qed


end
