(* ===== verification/Ldb_Slice.thy ===== *)
theory Ldb_Slice
  imports Prelude
begin

text \<open>
  leveldb, \<^verbatim>\<open>include/leveldb/slice.h\<close>, \<^verbatim>\<open>status.h\<close>, \<^verbatim>\<open>util/status.cc\<close> and \<^verbatim>\<open>util/comparator.cc\<close>: byte strings, the
  status of an operation and the order of keys. The interface \<^verbatim>\<open>Comparator\<close> on which tables, blocks and the
  skip list rest is the locale \<open>comparator\<close>; the bytewise comparator is an instance of it.
\<close>

named_theorems ldb_cmp \<open>laws of key comparators\<close>

section \<open>Slices\<close>

text \<open>A slice is the list of the bytes it refers to.\<close>

type_synonym slice = "byte list"

text \<open>
  The result of \<^verbatim>\<open>memcmp\<close> is documented up to its sign: bytes are compared as unsigned numbers, and the first
  difference in the \<open>n\<close> bytes counts.
\<close>

fun memcmp :: "byte list \<Rightarrow> byte list \<Rightarrow> nat \<Rightarrow> int" where
  "memcmp (a # as) (b # bs) (Suc n) = (if a < b then -1 else if b < a then 1 else memcmp as bs n)"
| "memcmp _ _ _ = 0"

definition Slice_remove_prefix :: "nat \<Rightarrow> slice \<Rightarrow> slice" where
  "Slice_remove_prefix n s = drop n s"

definition Slice_compare :: "slice \<Rightarrow> slice \<Rightarrow> int" where
  "Slice_compare a b =
     (let min_len = if length a < length b then length a else length b;
          r = memcmp a b min_len in
      if r = 0 then (if length a < length b then -1 else if length a > length b then 1 else r) else r)"

definition Slice_starts_with :: "slice \<Rightarrow> slice \<Rightarrow> bool" where
  "Slice_starts_with s x \<longleftrightarrow> length s \<ge> length x \<and> memcmp s x (length x) = 0"

definition Slice_eq :: "slice \<Rightarrow> slice \<Rightarrow> bool" where
  "Slice_eq x y \<longleftrightarrow> length x = length y \<and> memcmp x y (length x) = 0"

lemma memcmp_eq_0_iff: "n \<le> length a \<Longrightarrow> n \<le> length b \<Longrightarrow> memcmp a b n = 0 \<longleftrightarrow> take n a = take n b"
  by (induction a b n rule: memcmp.induct) auto

lemma Slice_eq_iff: "Slice_eq x y \<longleftrightarrow> x = y"
  by (auto simp: Slice_eq_def memcmp_eq_0_iff)

lemma Slice_starts_with_iff: "Slice_starts_with s x \<longleftrightarrow> (\<exists>t. s = x @ t)"
proof
  assume "Slice_starts_with s x"
  then have "take (length x) s = x" "length x \<le> length s"
    by (auto simp: Slice_starts_with_def memcmp_eq_0_iff)
  then show "\<exists>t. s = x @ t" by (metis append_take_drop_id)
qed (auto simp: Slice_starts_with_def memcmp_eq_0_iff)

text \<open>The comparison by its equations, from which the laws of an order follow by induction.\<close>

lemma Slice_compare_Nil [simp]: "Slice_compare [] [] = 0" "Slice_compare [] (b # bs) = -1" "Slice_compare (a # as) [] = 1"
  by (simp_all add: Slice_compare_def)

lemma Slice_compare_Cons [simp]:
  "Slice_compare (a # as) (b # bs) = (if a < b then -1 else if b < a then 1 else Slice_compare as bs)"
  by (simp add: Slice_compare_def Let_def)

lemma Slice_compare_induct [case_names Nil NilL NilR Cons]:
  assumes "P [] []" "\<And>b bs. P [] (b # bs)" "\<And>a as. P (a # as) []" "\<And>a as b bs. P as bs \<Longrightarrow> P (a # as) (b # bs)"
  shows "P as bs"
  by (rule list_induct2' [of P]) (use assms in auto)

lemma Slice_compare_range: "Slice_compare a b \<in> {-1, 0, 1}"
  by (induction a b rule: Slice_compare_induct) auto

lemma Slice_compare_0_iff: "Slice_compare a b = 0 \<longleftrightarrow> a = b"
  by (induction a b rule: Slice_compare_induct) auto

lemma Slice_compare_neg: "Slice_compare b a = - Slice_compare a b"
  by (induction a b rule: Slice_compare_induct) auto

lemma Slice_compare_trans: "Slice_compare a b \<le> 0 \<Longrightarrow> Slice_compare b c \<le> 0 \<Longrightarrow> Slice_compare a c \<le> 0"
proof (induction a arbitrary: b c)
  case Nil
  then show ?case by (cases c) auto
next
  case (Cons x a)
  then show ?case by (cases b; cases c) (force split: if_splits)+
qed

lemma Slice_compare_append: "Slice_compare (p @ a) (p @ b) = Slice_compare a b"
  by (induction p) auto

section \<open>Status\<close>

datatype status_code = kNotFound | kCorruption | kNotSupported | kInvalidArgument | kIOError

text \<open>The success status has no state; every other one a code and a message.\<close>

datatype status = Status_OK | Status_state status_code string

definition Status_new :: "status_code \<Rightarrow> string \<Rightarrow> string \<Rightarrow> status" where
  "Status_new code msg msg2 = Status_state code (msg @ (if length msg2 \<noteq> 0 then '': '' @ msg2 else []))"

abbreviation "Status_Corruption msg \<equiv> Status_new kCorruption msg []"
abbreviation "Status_NotFound msg \<equiv> Status_new kNotFound msg []"

definition Status_ok :: "status \<Rightarrow> bool" where
  "Status_ok s \<longleftrightarrow> s = Status_OK"

definition Status_has_code :: "status_code \<Rightarrow> status \<Rightarrow> bool" where
  "Status_has_code c s = (case s of Status_OK \<Rightarrow> False | Status_state code msg \<Rightarrow> code = c)"

definition Status_ToString :: "status \<Rightarrow> string" where
  "Status_ToString s =
     (case s of
        Status_OK \<Rightarrow> ''OK''
      | Status_state code msg \<Rightarrow>
          (case code of
             kNotFound \<Rightarrow> ''NotFound: ''
           | kCorruption \<Rightarrow> ''Corruption: ''
           | kNotSupported \<Rightarrow> ''Not implemented: ''
           | kInvalidArgument \<Rightarrow> ''Invalid argument: ''
           | kIOError \<Rightarrow> ''IO error: '') @ msg)"

lemma Status_ok_simps [simp]: "Status_ok Status_OK" "\<not> Status_ok (Status_new c m n)"
  by (auto simp: Status_ok_def Status_new_def)

section \<open>Comparators\<close>

text \<open>
  What the clients of a \<^verbatim>\<open>Comparator\<close> rely on: its sign is that of a total preorder. The three functions are the
  virtual methods; \<open>FindShortestSeparator\<close> and \<open>FindShortSuccessor\<close> give keys that an index may use instead.
\<close>

locale comparator =
  fixes cmp :: "'k \<Rightarrow> 'k \<Rightarrow> int"
  assumes cmp_flip: "cmp a b < 0 \<longleftrightarrow> 0 < cmp b a"
    and cmp_trans: "cmp a b \<le> 0 \<Longrightarrow> cmp b c \<le> 0 \<Longrightarrow> cmp a c \<le> 0"
begin

lemma cmp_eq_flip: "cmp a b = 0 \<longleftrightarrow> cmp b a = 0"
  using cmp_flip [of a b] cmp_flip [of b a] by linarith

lemma cmp_le_flip: "cmp a b \<le> 0 \<longleftrightarrow> 0 \<le> cmp b a"
  using cmp_flip [of b a] by linarith

lemma cmp_refl: "cmp a a = 0"
  using cmp_flip [of a a] by linarith

lemma cmp_less_le_trans: "cmp a b < 0 \<Longrightarrow> cmp b c \<le> 0 \<Longrightarrow> cmp a c < 0"
  using cmp_trans [of b c a] cmp_trans [of c a b] cmp_le_flip [of a c] cmp_le_flip [of c b] cmp_le_flip [of b a]
    cmp_flip [of a b] cmp_trans [of b c a]
  by (metis cmp_le_flip linorder_not_less)

lemma cmp_le_less_trans: "cmp a b \<le> 0 \<Longrightarrow> cmp b c < 0 \<Longrightarrow> cmp a c < 0"
  by (metis cmp_le_flip cmp_trans linorder_not_less)

lemma cmp_less_trans: "cmp a b < 0 \<Longrightarrow> cmp b c < 0 \<Longrightarrow> cmp a c < 0"
  using cmp_less_le_trans [of a b c] by simp

lemma cmp_eq_left: "cmp a b = 0 \<Longrightarrow> cmp a c < 0 \<longleftrightarrow> cmp b c < 0"
  by (metis cmp_eq_flip cmp_le_less_trans order_refl)

lemma cmp_eq_right: "cmp a b = 0 \<Longrightarrow> cmp c a < 0 \<longleftrightarrow> cmp c b < 0"
  by (metis cmp_eq_flip cmp_less_le_trans order_refl)

lemma cmp_eq_trans: "cmp a b = 0 \<Longrightarrow> cmp b c = 0 \<Longrightarrow> cmp a c = 0"
  using cmp_eq_left [of a b c] cmp_eq_right [of b c a] cmp_eq_left [of b c a] cmp_trans [of a b c] by linarith

end

text \<open>
  The two remaining virtual methods: a key that may stand in an index between \<open>start\<close> and \<open>limit\<close>, and one that may
  stand behind the last key. A start that is not below the limit is left alone.
\<close>

locale key_comparator = comparator cmp for cmp :: "'k \<Rightarrow> 'k \<Rightarrow> int" +
  fixes sep :: "'k \<Rightarrow> 'k \<Rightarrow> 'k" and suc :: "'k \<Rightarrow> 'k"
  assumes sep_between: "cmp start limit < 0 \<Longrightarrow> cmp start (sep start limit) \<le> 0 \<and> cmp (sep start limit) limit < 0"
    and sep_unordered: "\<not> cmp start limit < 0 \<Longrightarrow> sep start limit = start"
    and suc_above: "cmp key (suc key) \<le> 0"
begin

lemma sep_above: "cmp start (sep start limit) \<le> 0"
  using sep_between [of start limit] sep_unordered [of start limit] cmp_refl [of start] by (cases "cmp start limit < 0") auto

lemma sep_splits:
  assumes "cmp a start \<le> 0" "cmp start limit < 0" "cmp limit b \<le> 0"
  shows "cmp a (sep start limit) \<le> 0 \<and> cmp (sep start limit) b < 0"
  using assms sep_between [of start limit] cmp_trans cmp_less_le_trans by blast

end

section \<open>The bytewise comparator\<close>

definition Bytewise_Compare :: "slice \<Rightarrow> slice \<Rightarrow> int" where
  "Bytewise_Compare a b = Slice_compare a b"

text \<open>The first position at which two strings differ, or the length of the shorter one.\<close>

fun diff_index :: "slice \<Rightarrow> slice \<Rightarrow> nat" where
  "diff_index (a # as) (b # bs) = (if a = b then Suc (diff_index as bs) else 0)"
| "diff_index _ _ = 0"

definition Bytewise_FindShortestSeparator :: "slice \<Rightarrow> slice \<Rightarrow> slice" where
  "Bytewise_FindShortestSeparator start limit =
     (let min_length = min (length start) (length limit);
          diff = diff_index start limit in
      if diff \<ge> min_length then start
      else
        let diff_byte = start ! diff in
        if diff_byte < 0xff \<and> unat diff_byte + 1 < unat (limit ! diff)
        then take (diff + 1) (start[diff := start ! diff + 1]) else start)"

fun Bytewise_FindShortSuccessor :: "slice \<Rightarrow> slice" where
  "Bytewise_FindShortSuccessor [] = []"
| "Bytewise_FindShortSuccessor (b # key) =
     (if b \<noteq> 0xff then [b + 1] else b # Bytewise_FindShortSuccessor key)"

lemma FindShortestSeparator_Cons_same:
  "Bytewise_FindShortestSeparator (a # s) (a # l) = a # Bytewise_FindShortestSeparator s l"
  by (simp add: Bytewise_FindShortestSeparator_def Let_def min_Suc_Suc del: unsigned_less)

lemma byte_less_unat: "(a :: byte) < b \<longleftrightarrow> unat a < unat b"
  by (rule word_less_nat_alt)

lemma byte_inc: "unat (a :: byte) + 1 < unat b \<Longrightarrow> a < a + 1 \<and> a + 1 < b"
proof -
  assume less: "unat a + 1 < unat b"
  then have "(unat a + 1) mod 256 = unat a + 1" using unat_byte_less [of b] by (intro mod_less) linarith
  then show ?thesis using less by (simp add: byte_less_unat unat_word_ariths)
qed

lemma Bytewise_separator_between:
  "Slice_compare s l < 0 \<Longrightarrow>
   Slice_compare s (Bytewise_FindShortestSeparator s l) \<le> 0 \<and> Slice_compare (Bytewise_FindShortestSeparator s l) l < 0"
proof (induction s l rule: Slice_compare_induct)
  case (Cons a s b l)
  show ?case
  proof (cases "a = b")
    case True
    with Cons show ?thesis by (simp add: FindShortestSeparator_Cons_same)
  next
    case False
    with Cons.prems have "a < b" by (auto split: if_splits)
    with False show ?thesis
      using byte_inc [of a b] Slice_compare_0_iff [of "a # s" "a # s"]
      by (auto simp: Bytewise_FindShortestSeparator_def Let_def)
  qed
qed (simp_all add: Bytewise_FindShortestSeparator_def)

lemma Bytewise_separator_unordered: "\<not> Slice_compare s l < 0 \<Longrightarrow> Bytewise_FindShortestSeparator s l = s"
proof (induction s l rule: Slice_compare_induct)
  case (Cons a s b l)
  show ?case
  proof (cases "a = b")
    case True
    with Cons show ?thesis by (simp add: FindShortestSeparator_Cons_same)
  next
    case False
    with Cons.prems have "b < a" by (auto split: if_splits)
    with False show ?thesis
      by (auto simp: Bytewise_FindShortestSeparator_def Let_def byte_less_unat)
  qed
qed (simp_all add: Bytewise_FindShortestSeparator_def)

lemma Bytewise_successor_above: "Slice_compare key (Bytewise_FindShortSuccessor key) \<le> 0"
proof (induction key)
  case (Cons b key)
  have "b < b + 1" if "b \<noteq> 0xff"
  proof -
    have "unat b \<noteq> unat (0xff :: byte)" using that by (simp only: word_unat_eq_iff) simp
    then have "unat b \<noteq> 255" by simp
    then have "unat b + 1 < 256" using unat_byte_less [of b] by linarith
    then show ?thesis by (simp add: byte_less_unat unat_word_ariths)
  qed
  with Cons show ?case by simp
qed simp

interpretation bytewise: key_comparator Bytewise_Compare Bytewise_FindShortestSeparator Bytewise_FindShortSuccessor
proof
  fix a b c :: slice
  show "Bytewise_Compare a b < 0 \<longleftrightarrow> 0 < Bytewise_Compare b a"
    using Slice_compare_neg [of a b] by (simp add: Bytewise_Compare_def)
  show "Bytewise_Compare a b \<le> 0 \<Longrightarrow> Bytewise_Compare b c \<le> 0 \<Longrightarrow> Bytewise_Compare a c \<le> 0"
    unfolding Bytewise_Compare_def by (rule Slice_compare_trans)
  show "Bytewise_Compare a b < 0 \<Longrightarrow> Bytewise_Compare a (Bytewise_FindShortestSeparator a b) \<le> 0 \<and>
      Bytewise_Compare (Bytewise_FindShortestSeparator a b) b < 0"
    unfolding Bytewise_Compare_def by (rule Bytewise_separator_between)
  show "\<not> Bytewise_Compare a b < 0 \<Longrightarrow> Bytewise_FindShortestSeparator a b = a"
    unfolding Bytewise_Compare_def by (rule Bytewise_separator_unordered)
  show "Bytewise_Compare a (Bytewise_FindShortSuccessor a) \<le> 0"
    unfolding Bytewise_Compare_def by (rule Bytewise_successor_above)
qed

end
