(* ===== verification/Ldb_Coding.thy ===== *)
theory Ldb_Coding
  imports Prelude
begin

text \<open>
  leveldb, \<^verbatim>\<open>util/coding.cc\<close> and \<^verbatim>\<open>util/coding.h\<close>: the numbers and strings of all its files.
  A buffer that the code delimits by two pointers (or a \<^verbatim>\<open>Slice\<close>) is the list of its bytes; a decoder
  returns the number and the bytes that are left, and \<open>None\<close> where the code returns \<^verbatim>\<open>NULL\<close> or \<^verbatim>\<open>false\<close>.
  An encoder returns the bytes it writes, a \<^verbatim>\<open>Put\<close> function the destination with these bytes appended.
\<close>
unbundle bit_operations_syntax

named_theorems ldb_coding \<open>encoding and decoding of numbers and strings in leveldb\<close>

section \<open>Fixed-width numbers\<close>

definition kLittleEndian :: bool where
  "kLittleEndian = True"

text \<open>On a little-endian machine the code copies the bytes of the number; otherwise it shifts.\<close>

definition EncodeFixed32 :: "u32 \<Rightarrow> byte list" where
  "EncodeFixed32 v =
     (if kLittleEndian then le_bytes 4 (unat v)
      else [ucast (v AND 0xff), ucast (drop_bit 8 v AND 0xff), ucast (drop_bit 16 v AND 0xff),
            ucast (drop_bit 24 v AND 0xff)])"

definition EncodeFixed64 :: "u64 \<Rightarrow> byte list" where
  "EncodeFixed64 v =
     (if kLittleEndian then le_bytes 8 (unat v)
      else [ucast (v AND 0xff), ucast (drop_bit 8 v AND 0xff), ucast (drop_bit 16 v AND 0xff),
            ucast (drop_bit 24 v AND 0xff), ucast (drop_bit 32 v AND 0xff), ucast (drop_bit 40 v AND 0xff),
            ucast (drop_bit 48 v AND 0xff), ucast (drop_bit 56 v AND 0xff)])"

definition PutFixed32 :: "byte list \<Rightarrow> u32 \<Rightarrow> byte list" where
  "PutFixed32 dst v = dst @ EncodeFixed32 v"

definition PutFixed64 :: "byte list \<Rightarrow> u64 \<Rightarrow> byte list" where
  "PutFixed64 dst v = dst @ EncodeFixed64 v"

text \<open>The decoders read four and eight bytes; every caller has made sure that there are as many.\<close>

definition DecodeFixed32 :: "byte list \<Rightarrow> u32" where
  "DecodeFixed32 p =
     (if kLittleEndian then of_nat (le_nat (take 4 p))
      else ucast (p ! 0) OR push_bit 8 (ucast (p ! 1)) OR push_bit 16 (ucast (p ! 2)) OR push_bit 24 (ucast (p ! 3)))"

definition DecodeFixed64 :: "byte list \<Rightarrow> u64" where
  "DecodeFixed64 p =
     (if kLittleEndian then of_nat (le_nat (take 8 p))
      else push_bit 32 (ucast (DecodeFixed32 (drop 4 p))) OR ucast (DecodeFixed32 p))"

lemma EncodeFixed32_eq: "EncodeFixed32 v = le_bytes 4 (unat v)"
  by (simp add: EncodeFixed32_def kLittleEndian_def)

lemma EncodeFixed64_eq: "EncodeFixed64 v = le_bytes 8 (unat v)"
  by (simp add: EncodeFixed64_def kLittleEndian_def)

lemma DecodeFixed32_eq: "DecodeFixed32 p = of_nat (le_nat (take 4 p))"
  by (simp add: DecodeFixed32_def kLittleEndian_def)

lemma DecodeFixed64_eq: "DecodeFixed64 p = of_nat (le_nat (take 8 p))"
  by (simp add: DecodeFixed64_def kLittleEndian_def)

lemma length_EncodeFixed32 [simp]: "length (EncodeFixed32 v) = 4"
  by (simp add: EncodeFixed32_eq del: le_bytes_numeral)

lemma length_EncodeFixed64 [simp]: "length (EncodeFixed64 v) = 8"
  by (simp add: EncodeFixed64_eq del: le_bytes_numeral)

lemma DecodeFixed32_EncodeFixed32 [ldb_coding]: "DecodeFixed32 (EncodeFixed32 v @ rest) = v"
  using unat_u32_less [of v]
  by (simp add: DecodeFixed32_eq EncodeFixed32_eq le_nat_le_bytes_exact del: le_bytes_numeral)

lemma DecodeFixed64_EncodeFixed64 [ldb_coding]: "DecodeFixed64 (EncodeFixed64 v @ rest) = v"
proof -
  have "unat v < 256 ^ 8"
    using unsigned_less [where 'b = 64 and 'a = nat and w = v] by simp
  then show ?thesis
    by (simp add: DecodeFixed64_eq EncodeFixed64_eq le_nat_le_bytes_exact del: le_bytes_numeral)
qed

lemma EncodeFixed32_DecodeFixed32: "length p = 4 \<Longrightarrow> EncodeFixed32 (DecodeFixed32 p) = p"
  using le_nat_less [of p]
  by (simp add: DecodeFixed32_eq EncodeFixed32_eq unat_of_nat le_bytes_le_nat del: le_bytes_numeral)

section \<open>Varints\<close>

definition EncodeVarint32 :: "u32 \<Rightarrow> byte list" where
  "EncodeVarint32 v =
     (let B = 128 in
      if v < push_bit 7 1 then [ucast v]
      else if v < push_bit 14 1 then [ucast (v OR B), ucast (drop_bit 7 v)]
      else if v < push_bit 21 1 then [ucast (v OR B), ucast (drop_bit 7 v OR B), ucast (drop_bit 14 v)]
      else if v < push_bit 28 1 then
        [ucast (v OR B), ucast (drop_bit 7 v OR B), ucast (drop_bit 14 v OR B), ucast (drop_bit 21 v)]
      else
        [ucast (v OR B), ucast (drop_bit 7 v OR B), ucast (drop_bit 14 v OR B), ucast (drop_bit 21 v OR B),
         ucast (drop_bit 28 v)])"

definition PutVarint32 :: "byte list \<Rightarrow> u32 \<Rightarrow> byte list" where
  "PutVarint32 dst v = dst @ EncodeVarint32 v"

lemma drop_bit_7_less: "\<not> (v :: u64) < 128 \<Longrightarrow> unat (drop_bit 7 v) < unat v"
proof -
  assume "\<not> v < 128"
  then have "0 < unat v" by (auto simp: unat_gt_0)
  then show ?thesis by (simp add: drop_bit_eq_div unat_div)
qed

function EncodeVarint64 :: "u64 \<Rightarrow> byte list" where
  "EncodeVarint64 v =
     (if v \<ge> 128 then ucast ((v AND 127) OR 128) # EncodeVarint64 (drop_bit 7 v) else [ucast v])"
  by pat_completeness auto
termination
  by (relation "measure unat") (use drop_bit_7_less in \<open>auto simp: not_less\<close>)

declare EncodeVarint64.simps [simp del]

definition PutVarint64 :: "byte list \<Rightarrow> u64 \<Rightarrow> byte list" where
  "PutVarint64 dst v = dst @ EncodeVarint64 v"

function VarintLength_loop :: "u64 \<Rightarrow> nat \<Rightarrow> nat" where
  "VarintLength_loop v len = (if v \<ge> 128 then VarintLength_loop (drop_bit 7 v) (len + 1) else len)"
  by pat_completeness auto
termination
  by (relation "measure (unat o fst)") (use drop_bit_7_less in \<open>auto simp: not_less\<close>)

declare VarintLength_loop.simps [simp del]

definition VarintLength :: "u64 \<Rightarrow> nat" where
  "VarintLength v = VarintLength_loop v 1"

text \<open>The loops of the decoders, with the shift and the bits collected so far.\<close>

fun GetVarint32Ptr_loop :: "nat \<Rightarrow> u32 \<Rightarrow> byte list \<Rightarrow> (u32 \<times> byte list) option" where
  "GetVarint32Ptr_loop shift result [] = None"
| "GetVarint32Ptr_loop shift result (b # p) =
     (if shift \<le> 28 then
        let byte = ucast b in
        if byte AND 128 \<noteq> 0 then GetVarint32Ptr_loop (shift + 7) (result OR push_bit shift (byte AND 127)) p
        else Some (result OR push_bit shift byte, p)
      else None)"

definition GetVarint32PtrFallback :: "byte list \<Rightarrow> (u32 \<times> byte list) option" where
  "GetVarint32PtrFallback p = GetVarint32Ptr_loop 0 0 p"

definition GetVarint32Ptr :: "byte list \<Rightarrow> (u32 \<times> byte list) option" where
  "GetVarint32Ptr p =
     (case p of b # q \<Rightarrow> if (ucast b :: u32) AND 128 = 0 then Some (ucast b, q) else GetVarint32PtrFallback p
      | [] \<Rightarrow> GetVarint32PtrFallback p)"

fun GetVarint64Ptr_loop :: "nat \<Rightarrow> u64 \<Rightarrow> byte list \<Rightarrow> (u64 \<times> byte list) option" where
  "GetVarint64Ptr_loop shift result [] = None"
| "GetVarint64Ptr_loop shift result (b # p) =
     (if shift \<le> 63 then
        let byte = ucast b in
        if byte AND 128 \<noteq> 0 then GetVarint64Ptr_loop (shift + 7) (result OR push_bit shift (byte AND 127)) p
        else Some (result OR push_bit shift byte, p)
      else None)"

definition GetVarint64Ptr :: "byte list \<Rightarrow> (u64 \<times> byte list) option" where
  "GetVarint64Ptr p = GetVarint64Ptr_loop 0 0 p"

text \<open>The versions on a \<^verbatim>\<open>Slice\<close> leave the slice as it is when they fail.\<close>

definition GetVarint32 :: "byte list \<Rightarrow> (u32 \<times> byte list) option" where
  "GetVarint32 input = (case GetVarint32Ptr input of None \<Rightarrow> None | Some (v, q) \<Rightarrow> Some (v, q))"

definition GetVarint64 :: "byte list \<Rightarrow> (u64 \<times> byte list) option" where
  "GetVarint64 input = (case GetVarint64Ptr input of None \<Rightarrow> None | Some (v, q) \<Rightarrow> Some (v, q))"

section \<open>Strings with their length\<close>

text \<open>The size of the string is converted to 32 bits.\<close>

definition PutLengthPrefixedSlice :: "byte list \<Rightarrow> byte list \<Rightarrow> byte list" where
  "PutLengthPrefixedSlice dst value = PutVarint32 dst (of_nat (length value)) @ value"

definition GetLengthPrefixedSlicePtr :: "byte list \<Rightarrow> (byte list \<times> byte list) option" where
  "GetLengthPrefixedSlicePtr p =
     (case GetVarint32Ptr p of
        None \<Rightarrow> None
      | Some (len, p) \<Rightarrow> if unat len > length p then None else Some (take (unat len) p, drop (unat len) p))"

text \<open>On failure the slice may have lost the length: what is left of it is the second component.\<close>

definition GetLengthPrefixedSlice :: "byte list \<Rightarrow> byte list option \<times> byte list" where
  "GetLengthPrefixedSlice input =
     (case GetVarint32 input of
        None \<Rightarrow> (None, input)
      | Some (len, input) \<Rightarrow>
          if length input \<ge> unat len then (Some (take (unat len) input), drop (unat len) input)
          else (None, input))"

section \<open>The digits of a number to base 128\<close>

text \<open>The specification of a varint: groups of seven bits, lowest first, all but the last marked.\<close>

function base128 :: "nat \<Rightarrow> byte list" where
  "base128 n = (if n < 128 then [of_nat n] else of_nat (n mod 128 + 128) # base128 (n div 128))"
  by pat_completeness auto
termination
  by (relation "measure id") auto

declare base128.simps [simp del]

lemma base128_not_Nil [simp]: "base128 n \<noteq> []"
  by (subst base128.simps) auto

lemma length_base128: "n < 128 ^ k \<Longrightarrow> 0 < k \<Longrightarrow> length (base128 n) \<le> k"
proof (induction k arbitrary: n)
  case (Suc k)
  show ?case
  proof (cases "n < 128")
    case True
    then show ?thesis by (subst base128.simps) simp
  next
    case False
    with Suc.prems have "0 < k" by (cases k) auto
    moreover have "n div 128 < 128 ^ k"
      using Suc.prems by (simp add: div_less_iff_less_mult mult.commute)
    ultimately show ?thesis using Suc.IH False by (subst base128.simps) simp
  qed
qed simp

text \<open>Seven bits of a number, and the byte that carries them.\<close>

lemma bit_128_iff: "bit (128 :: 'a :: linordered_euclidean_semiring_bit_operations) n \<longleftrightarrow> possible_bit TYPE('a) n \<and> n = 7"
proof -
  have "(128 :: 'a) = 2 ^ 7" by simp
  then show ?thesis by (simp only: bit_exp_iff)
qed

lemma mark_digit: "of_nat (m mod 128 + 128) = (of_nat m OR 128 :: byte)"
proof -
  have m: "m mod 128 = take_bit 7 m" by (simp add: take_bit_eq_mod)
  have "m mod 128 + 128 = take_bit 7 m OR 128"
    unfolding m by (rule disjunctive_add) (auto simp: bit_take_bit_iff bit_128_iff)
  then show ?thesis
    by (intro bit_word_eqI) (auto simp: bit_or_iff bit_of_nat_iff bit_take_bit_iff bit_128_iff)
qed

lemma ucast_or_128_u32: "(ucast (w OR 128 :: u32) :: byte) = of_nat (unat w mod 128 + 128)"
  unfolding mark_digit
  by (intro bit_word_eqI) (auto simp: bit_ucast_iff bit_or_iff bit_128_iff bit_of_nat_iff bit_unsigned_iff)

lemma ucast_mask_or_128_u64: "(ucast ((w AND 127) OR 128 :: u64) :: byte) = of_nat (unat w mod 128 + 128)"
proof -
  have 127: "(127 :: u64) = mask 7" by (simp add: mask_eq_exp_minus_1)
  show ?thesis
    unfolding mark_digit 127
    by (intro bit_word_eqI)
      (auto simp: bit_ucast_iff bit_or_iff bit_and_iff bit_mask_iff bit_128_iff bit_of_nat_iff bit_unsigned_iff)
qed

lemma ucast_byte_nat: "(ucast (w :: 'a :: len word) :: byte) = of_nat (unat w)"
  by simp

text \<open>The bits of a decoded byte, and the sum that a shifted digit makes with the lower ones.\<close>

lemma of_nat_digit_and:
  "(ucast (of_nat (m mod 128 + 128) :: byte) AND 127) = (of_nat (m mod 128) :: 'a :: len word)"
  "8 \<le> LENGTH('a) \<Longrightarrow> (ucast (of_nat (m mod 128 + 128) :: byte) :: 'a :: len word) AND 128 \<noteq> 0"
  "m < 128 \<Longrightarrow> (ucast (of_nat m :: byte) :: 'a :: len word) AND 128 = 0"
proof -
  have m: "m mod 128 = take_bit 7 m" by (simp add: take_bit_eq_mod)
  have 127: "(127 :: 'a word) = mask 7" by (simp add: mask_eq_exp_minus_1)
  show "(ucast (of_nat (m mod 128 + 128) :: byte) AND 127) = (of_nat (m mod 128) :: 'a :: len word)"
    unfolding mark_digit 127
    by (intro bit_word_eqI)
      (auto simp: m bit_ucast_iff bit_or_iff bit_and_iff bit_mask_iff bit_128_iff bit_of_nat_iff bit_take_bit_iff)
  show "(ucast (of_nat (m mod 128 + 128) :: byte) :: 'a :: len word) AND 128 \<noteq> 0" if "8 \<le> LENGTH('a)"
  proof -
    have "bit ((ucast (of_nat (m mod 128 + 128) :: byte) :: 'a :: len word) AND 128) 7"
      using that unfolding mark_digit by (auto simp: bit_ucast_iff bit_or_iff bit_and_iff bit_128_iff)
    then show ?thesis by fastforce
  qed
  show "(ucast (of_nat m :: byte) :: 'a :: len word) AND 128 = 0" if "m < 128"
  proof -
    have "m = take_bit 7 m" using that by (simp add: take_bit_eq_mod)
    then have "\<not> bit m 7" by (metis bit_take_bit_iff less_irrefl)
    then show ?thesis
      by (intro bit_word_eqI) (auto simp: bit_ucast_iff bit_and_iff bit_128_iff bit_of_nat_iff)
  qed
qed

lemma or_shifted_digit:
  assumes "a < 2 ^ s"
  shows "(of_nat a :: 'a :: len word) OR push_bit s (of_nat m) = of_nat (a + m * 2 ^ s)"
proof -
  have "a = take_bit s a" using assms by (simp add: take_bit_eq_mod)
  then have "\<not> bit a i" if "s \<le> i" for i
    using that by (metis bit_take_bit_iff not_less)
  then have "(of_nat a :: 'a word) OR push_bit s (of_nat m) = of_nat a + push_bit s (of_nat m)"
    by (intro disjunctive_add [symmetric]) (auto simp: bit_push_bit_iff bit_of_nat_iff)
  then show ?thesis by (simp add: push_bit_eq_mult)
qed

section \<open>The encoders write the digits\<close>

lemma EncodeVarint64_base128: "EncodeVarint64 v = base128 (unat v)"
proof (induction v rule: EncodeVarint64.induct)
  case (1 v)
  have big: "v \<ge> 128 \<longleftrightarrow> \<not> unat v < 128" by (simp add: word_le_nat_alt not_less)
  show ?case
  proof (cases "v \<ge> 128")
    case True
    moreover have "unat (drop_bit 7 v) = unat v div 128"
      by (simp add: drop_bit_eq_div unat_div)
    ultimately show ?thesis
      using 1 big
      by (simp add: EncodeVarint64.simps [of v] base128.simps [of "unat v"] ucast_mask_or_128_u64)
  next
    case False
    then show ?thesis
      using big by (simp add: EncodeVarint64.simps [of v] base128.simps [of "unat v"])
  qed
qed

lemma base128_small: "n < 128 \<Longrightarrow> base128 n = [of_nat n]"
  by (subst base128.simps) simp

lemma base128_step: "\<not> n < 128 \<Longrightarrow> base128 n = of_nat (n mod 128 + 128) # base128 (n div 128)"
  by (subst base128.simps) simp

lemma EncodeVarint32_base128: "EncodeVarint32 v = base128 (unat v)"
proof -
  define d where "d k = unat v div 2 ^ k" for k
  have drop: "unat (drop_bit k v) = d k" for k
    by (simp only: unat_drop_bit_eq d_def) (simp only: drop_bit_eq_div)
  have mark: "(ucast (drop_bit k v OR 128) :: byte) = of_nat (d k mod 128 + 128)" for k
    by (simp only: ucast_or_128_u32 drop)
  have mark0: "(ucast (v OR 128) :: byte) = of_nat (d 0 mod 128 + 128)"
    using mark [of 0] by simp
  have last: "(ucast (drop_bit k v) :: byte) = of_nat (d k)" for k
    by (simp only: ucast_byte_nat drop)
  have last0: "(ucast v :: byte) = of_nat (d 0)"
    using last [of 0] by simp
  have less: "v < push_bit 7 1 \<longleftrightarrow> d 0 < 128" "v < push_bit 14 1 \<longleftrightarrow> d 7 < 128"
    "v < push_bit 21 1 \<longleftrightarrow> d 14 < 128" "v < push_bit 28 1 \<longleftrightarrow> d 21 < 128" "d 28 < 128"
    using unat_u32_less [of v] by (simp_all add: word_less_nat_alt d_def div_less_iff_less_mult)
  have div: "d 0 div 128 = d 7" "d 7 div 128 = d 14" "d 14 div 128 = d 21" "d 21 div 128 = d 28"
    by (simp_all add: d_def div_mult2_eq [symmetric])
  have mono: "d 0 < 128 \<Longrightarrow> d 7 < 128" "d 7 < 128 \<Longrightarrow> d 14 < 128" "d 14 < 128 \<Longrightarrow> d 21 < 128"
    unfolding div [symmetric] by (auto intro: le_less_trans [OF div_le_dividend])
  have "unat v = d 0" by (simp add: d_def)
  moreover have "EncodeVarint32 v = base128 (d 0)"
    unfolding EncodeVarint32_def Let_def less(1-4) mark mark0 last last0
    using less(5) mono
    by (cases "d 0 < 128"; cases "d 7 < 128"; cases "d 14 < 128"; cases "d 21 < 128")
      (simp_all add: base128_small base128_step div)
  ultimately show ?thesis by simp
qed

lemma VarintLength_loop_base128: "VarintLength_loop v len + 1 = length (base128 (unat v)) + len"
proof (induction v len rule: VarintLength_loop.induct)
  case (1 v len)
  have big: "v \<ge> 128 \<longleftrightarrow> \<not> unat v < 128" by (simp add: word_le_nat_alt not_less)
  show ?case
  proof (cases "v \<ge> 128")
    case True
    moreover have "unat (drop_bit 7 v) = unat v div 128"
      by (simp add: drop_bit_eq_div unat_div)
    ultimately show ?thesis
      using 1 big
      by (simp add: VarintLength_loop.simps [of v] base128.simps [of "unat v"])
  next
    case False
    then show ?thesis
      using big by (simp add: VarintLength_loop.simps [of v] base128.simps [of "unat v"])
  qed
qed

section \<open>The decoders read them back\<close>

lemma decode_shift_le:
  assumes "n * 128 ^ k + a < (2 :: nat) ^ w" "k = 0 \<or> 0 < n"
  shows "7 * k < w \<or> k = 0"
proof (rule ccontr)
  assume "\<not> ?thesis"
  then have "w \<le> 7 * k" "0 < n" using assms(2) by auto
  then have "(2 :: nat) ^ w \<le> 2 ^ (7 * k)" by (intro power_increasing) auto
  also have "\<dots> = 128 ^ k" by (simp add: power_mult)
  also have "\<dots> \<le> n * 128 ^ k" using \<open>0 < n\<close> by simp
  finally show False using assms(1) by simp
qed

lemma digit_sum: "n div 128 * 128 ^ Suc k + (a + n mod 128 * 128 ^ k) = n * 128 ^ k + (a :: nat)"
proof -
  have "q * 128 ^ Suc k + (a + r * 128 ^ k) = (q * 128 + r) * 128 ^ k + a" for q r :: nat
    by (simp add: algebra_simps)
  from this [of "n div 128" "n mod 128"] show ?thesis by (simp only: div_mult_mod_eq)
qed

lemma digit_sum_less: "a < 128 ^ k \<Longrightarrow> a + n mod 128 * 128 ^ k < (128 :: nat) ^ Suc k"
proof -
  assume "a < (128 :: nat) ^ k"
  moreover have "n mod 128 * 128 ^ k \<le> 127 * (128 :: nat) ^ k" by (intro mult_le_mono1) simp
  ultimately show ?thesis unfolding power_Suc by linarith
qed

lemma GetVarint64Ptr_loop_base128:
  "a < 128 ^ k \<Longrightarrow> n * 128 ^ k + a < 2 ^ 64 \<Longrightarrow> k = 0 \<or> 0 < n \<Longrightarrow>
   GetVarint64Ptr_loop (7 * k) (of_nat a) (base128 n @ rest) = Some (of_nat (n * 128 ^ k + a), rest)"
proof (induction n arbitrary: a k rule: base128.induct)
  case (1 n)
  have k: "7 * k \<le> 63" using decode_shift_le [OF 1(3,4)] by auto
  have pow: "(2 :: nat) ^ (7 * k) = 128 ^ k" by (simp add: power_mult)
  have digit: "(of_nat a OR push_bit (7 * k) (of_nat m) :: u64) = of_nat (a + m * 128 ^ k)" for m
    using or_shifted_digit [of a "7 * k" m, where 'a = 64] 1(2) by (simp only: pow)
  show ?case
  proof (cases "n < 128")
    case True
    have "(ucast (of_nat n :: byte) :: u64) = of_nat n"
      using True by (simp add: word_unat_eq_iff unat_of_nat unsigned_ucast_eq take_bit_eq_mod)
    then show ?thesis
      using True k of_nat_digit_and(3) [OF True, where 'a = 64] digit [of n]
      by (simp add: base128.simps [of n] add.commute)
  next
    case False
    note sum = digit_sum [of n k a]
    have "a + n mod 128 * 128 ^ k < 128 ^ Suc k"
      using 1(2) by (rule digit_sum_less)
    then have "GetVarint64Ptr_loop (7 * Suc k) (of_nat (a + n mod 128 * 128 ^ k)) (base128 (n div 128) @ rest) =
        Some (of_nat (n div 128 * 128 ^ Suc k + (a + n mod 128 * 128 ^ k)), rest)"
      by (rule 1(1) [OF False]) (use False 1(3) in \<open>simp_all only: sum\<close>, simp)
    then have "GetVarint64Ptr_loop (7 * k + 7) (of_nat (a + n mod 128 * 128 ^ k)) (base128 (n div 128) @ rest) =
        Some (of_nat (n * 128 ^ k + a), rest)"
      by (simp only: sum mult_Suc_right add.commute)
    then show ?thesis
      using False k of_nat_digit_and(1,2) [of n, where 'a = 64] digit [of "n mod 128"]
      by (simp add: base128.simps [of n] add.commute)
  qed
qed

lemma GetVarint32Ptr_loop_base128:
  "a < 128 ^ k \<Longrightarrow> n * 128 ^ k + a < 2 ^ 32 \<Longrightarrow> k = 0 \<or> 0 < n \<Longrightarrow>
   GetVarint32Ptr_loop (7 * k) (of_nat a) (base128 n @ rest) = Some (of_nat (n * 128 ^ k + a), rest)"
proof (induction n arbitrary: a k rule: base128.induct)
  case (1 n)
  have k: "7 * k \<le> 28" using decode_shift_le [OF 1(3,4)] by auto
  have pow: "(2 :: nat) ^ (7 * k) = 128 ^ k" by (simp add: power_mult)
  have digit: "(of_nat a OR push_bit (7 * k) (of_nat m) :: u32) = of_nat (a + m * 128 ^ k)" for m
    using or_shifted_digit [of a "7 * k" m, where 'a = 32] 1(2) by (simp only: pow)
  show ?case
  proof (cases "n < 128")
    case True
    have "(ucast (of_nat n :: byte) :: u32) = of_nat n"
      using True by (simp add: word_unat_eq_iff unat_of_nat unsigned_ucast_eq take_bit_eq_mod)
    then show ?thesis
      using True k of_nat_digit_and(3) [OF True, where 'a = 32] digit [of n]
      by (simp add: base128.simps [of n] add.commute)
  next
    case False
    note sum = digit_sum [of n k a]
    have "a + n mod 128 * 128 ^ k < 128 ^ Suc k"
      using 1(2) by (rule digit_sum_less)
    then have "GetVarint32Ptr_loop (7 * Suc k) (of_nat (a + n mod 128 * 128 ^ k)) (base128 (n div 128) @ rest) =
        Some (of_nat (n div 128 * 128 ^ Suc k + (a + n mod 128 * 128 ^ k)), rest)"
      by (rule 1(1) [OF False]) (use False 1(3) in \<open>simp_all only: sum\<close>, simp)
    then have "GetVarint32Ptr_loop (7 * k + 7) (of_nat (a + n mod 128 * 128 ^ k)) (base128 (n div 128) @ rest) =
        Some (of_nat (n * 128 ^ k + a), rest)"
      by (simp only: sum mult_Suc_right add.commute)
    then show ?thesis
      using False k of_nat_digit_and(1,2) [of n, where 'a = 32] digit [of "n mod 128"]
      by (simp add: base128.simps [of n] add.commute)
  qed
qed

lemma GetVarint64Ptr_base128 [ldb_coding]:
  "n < 2 ^ 64 \<Longrightarrow> GetVarint64Ptr (base128 n @ rest) = Some (of_nat n, rest)"
  using GetVarint64Ptr_loop_base128 [of 0 0 n rest] by (simp add: GetVarint64Ptr_def)

lemma GetVarint32Ptr_base128 [ldb_coding]:
  assumes "n < 2 ^ 32"
  shows "GetVarint32Ptr (base128 n @ rest) = Some (of_nat n, rest)"
proof -
  have "GetVarint32PtrFallback (base128 n @ rest) = Some (of_nat n, rest)"
    using GetVarint32Ptr_loop_base128 [of 0 0 n rest] assms by (simp add: GetVarint32PtrFallback_def)
  moreover have "(ucast (of_nat n :: byte) :: u32) = of_nat n" if "n < 128"
    using that by (simp add: word_unat_eq_iff unat_of_nat unsigned_ucast_eq take_bit_eq_mod)
  ultimately show ?thesis
    using of_nat_digit_and(2) [of n, where 'a = 32]
    by (cases "n < 128") (auto simp: GetVarint32Ptr_def base128.simps [of n])
qed

text \<open>
  The short cut of \<^verbatim>\<open>GetVarint32Ptr\<close> for one-byte numbers changes nothing: it is the fallback on every input.
\<close>

lemma GetVarint32Ptr_fallback: "GetVarint32Ptr p = GetVarint32PtrFallback p"
  by (auto simp: GetVarint32Ptr_def GetVarint32PtrFallback_def Let_def split: list.splits)

lemma GetVarint32Ptr_loop_suffix:
  "GetVarint32Ptr_loop s r p = Some (v, q) \<Longrightarrow> \<exists>d. p = d @ q \<and> d \<noteq> [] \<and> s + 7 * length d \<le> 35"
proof (induction s r p rule: GetVarint32Ptr_loop.induct)
  case (2 s r b p)
  show ?case
  proof (cases "(ucast b :: u32) AND 128 \<noteq> 0")
    case True
    with 2 obtain d where "p = d @ q" "s + 7 + 7 * length d \<le> 35"
      by (fastforce simp: Let_def split: if_splits)
    then show ?thesis by (intro exI [of _ "b # d"]) simp
  next
    case False
    with 2(2) show ?thesis by (intro exI [of _ "[b]"]) (auto simp: Let_def split: if_splits)
  qed
qed simp

lemma GetVarint64Ptr_loop_suffix:
  "GetVarint64Ptr_loop s r p = Some (v, q) \<Longrightarrow> \<exists>d. p = d @ q \<and> d \<noteq> [] \<and> s + 7 * length d \<le> 70"
proof (induction s r p rule: GetVarint64Ptr_loop.induct)
  case (2 s r b p)
  show ?case
  proof (cases "(ucast b :: u64) AND 128 \<noteq> 0")
    case True
    with 2 obtain d where "p = d @ q" "s + 7 + 7 * length d \<le> 70"
      by (fastforce simp: Let_def split: if_splits)
    then show ?thesis by (intro exI [of _ "b # d"]) simp
  next
    case False
    with 2(2) show ?thesis by (intro exI [of _ "[b]"]) (auto simp: Let_def split: if_splits)
  qed
qed simp

section \<open>Length-prefixed strings\<close>

definition length_prefixed :: "byte list \<Rightarrow> byte list" where
  "length_prefixed v = base128 (length v) @ v"

lemma PutLengthPrefixedSlice_eq:
  "length v < 2 ^ 32 \<Longrightarrow> PutLengthPrefixedSlice dst v = dst @ length_prefixed v"
  by (simp add: PutLengthPrefixedSlice_def PutVarint32_def EncodeVarint32_base128 length_prefixed_def
      unat_of_nat)

lemma GetVarint32_eq: "GetVarint32 input = GetVarint32Ptr input"
  by (auto simp: GetVarint32_def split: option.splits)

lemma GetVarint64_eq: "GetVarint64 input = GetVarint64Ptr input"
  by (auto simp: GetVarint64_def split: option.splits)

lemma GetLengthPrefixedSlice_prefixed [ldb_coding]:
  "length v < 2 ^ 32 \<Longrightarrow> GetLengthPrefixedSlice (length_prefixed v @ rest) = (Some v, rest)"
  by (simp add: GetLengthPrefixedSlice_def GetVarint32_eq length_prefixed_def GetVarint32Ptr_base128 unat_of_nat)

lemma GetLengthPrefixedSlicePtr_prefixed [ldb_coding]:
  "length v < 2 ^ 32 \<Longrightarrow> GetLengthPrefixedSlicePtr (length_prefixed v @ rest) = Some (v, rest)"
  by (simp add: GetLengthPrefixedSlicePtr_def length_prefixed_def GetVarint32Ptr_base128 unat_of_nat)

lemma GetLengthPrefixedSlice_shrinks:
  assumes "GetLengthPrefixedSlice input = (Some v, rest)"
  shows "length v + length rest < length input"
proof -
  from assms obtain len p where p: "GetVarint32Ptr input = Some (len, p)" "unat len \<le> length p"
    "v = take (unat len) p" "rest = drop (unat len) p"
    by (auto simp: GetLengthPrefixedSlice_def GetVarint32_eq split: option.splits if_splits)
  then have "\<exists>d. input = d @ p \<and> d \<noteq> []"
    using GetVarint32Ptr_loop_suffix [of 0 0 input len p]
    by (auto simp: GetVarint32Ptr_fallback GetVarint32PtrFallback_def)
  with p show ?thesis by auto
qed

end
