(* ===== verification/Ldb_Format.thy ===== *)
theory Ldb_Format
  imports Ldb_Slice Ldb_Coding
begin

text \<open>
  leveldb, \<^verbatim>\<open>db/dbformat.h\<close> and \<^verbatim>\<open>db/dbformat.cc\<close>: internal keys, that is user keys with a sequence number and a type,
  their order, and the key under which a lookup starts. The user comparator is an argument; what the orders are good
  for is proved under the contracts of a comparator and interpreted on the bytewise one.
\<close>
unbundle bit_operations_syntax

section \<open>Internal keys\<close>

text \<open>The code converts any byte to a \<^verbatim>\<open>ValueType\<close>.\<close>

type_synonym ValueType = byte

definition kTypeDeletion :: ValueType where
  "kTypeDeletion = 0x0"

definition kTypeValue :: ValueType where
  "kTypeValue = 0x1"

definition kValueTypeForSeek :: ValueType where
  "kValueTypeForSeek = kTypeValue"

type_synonym SequenceNumber = u64

definition kMaxSequenceNumber :: SequenceNumber where
  "kMaxSequenceNumber = push_bit 56 1 - 1"

record ParsedInternalKey =
  pk_user_key :: slice
  pk_sequence :: SequenceNumber
  pk_type :: ValueType

definition InternalKeyEncodingLength :: "ParsedInternalKey \<Rightarrow> nat" where
  "InternalKeyEncodingLength key = length (pk_user_key key) + 8"

definition PackSequenceAndType :: "u64 \<Rightarrow> ValueType \<Rightarrow> u64" where
  "PackSequenceAndType s t = push_bit 8 s OR ucast t"

definition AppendInternalKey :: "byte list \<Rightarrow> ParsedInternalKey \<Rightarrow> byte list" where
  "AppendInternalKey result key =
     PutFixed64 (result @ pk_user_key key) (PackSequenceAndType (pk_sequence key) (pk_type key))"

text \<open>The assertion of the code asks for eight bytes.\<close>

definition ExtractUserKey :: "slice \<Rightarrow> slice" where
  "ExtractUserKey internal_key = take (length internal_key - 8) internal_key"

definition internal_num :: "slice \<Rightarrow> u64" where
  "internal_num internal_key = DecodeFixed64 (drop (length internal_key - 8) internal_key)"

definition ExtractValueType :: "slice \<Rightarrow> ValueType" where
  "ExtractValueType internal_key = ucast (internal_num internal_key AND 0xff)"

definition ParseInternalKey :: "slice \<Rightarrow> ParsedInternalKey option" where
  "ParseInternalKey internal_key =
     (let n = length internal_key in
      if n < 8 then None
      else
        let num = internal_num internal_key; c = ucast (num AND 0xff) in
        if c \<le> kTypeValue
        then Some \<lparr>pk_user_key = take (n - 8) internal_key, pk_sequence = drop_bit 8 num, pk_type = c\<rparr>
        else None)"

text \<open>The class \<^verbatim>\<open>InternalKey\<close> holds such a string.\<close>

definition InternalKey_new :: "slice \<Rightarrow> SequenceNumber \<Rightarrow> ValueType \<Rightarrow> slice" where
  "InternalKey_new user_key s t = AppendInternalKey [] \<lparr>pk_user_key = user_key, pk_sequence = s, pk_type = t\<rparr>"

section \<open>The comparator of internal keys\<close>

definition Internal_Compare :: "(slice \<Rightarrow> slice \<Rightarrow> int) \<Rightarrow> slice \<Rightarrow> slice \<Rightarrow> int" where
  "Internal_Compare user_compare akey bkey =
     (let r = user_compare (ExtractUserKey akey) (ExtractUserKey bkey) in
      if r = 0 then
        let anum = DecodeFixed64 (drop (length akey - 8) akey); bnum = DecodeFixed64 (drop (length bkey - 8) bkey) in
        if anum > bnum then - 1 else if anum < bnum then 1 else r
      else r)"

definition Internal_FindShortestSeparator ::
  "(slice \<Rightarrow> slice \<Rightarrow> int) \<Rightarrow> (slice \<Rightarrow> slice \<Rightarrow> slice) \<Rightarrow> slice \<Rightarrow> slice \<Rightarrow> slice" where
  "Internal_FindShortestSeparator user_compare user_sep start limit =
     (let user_start = ExtractUserKey start; user_limit = ExtractUserKey limit;
          tmp = user_sep user_start user_limit in
      if length tmp < length user_start \<and> user_compare user_start tmp < 0
      then PutFixed64 tmp (PackSequenceAndType kMaxSequenceNumber kValueTypeForSeek) else start)"

definition Internal_FindShortSuccessor ::
  "(slice \<Rightarrow> slice \<Rightarrow> int) \<Rightarrow> (slice \<Rightarrow> slice) \<Rightarrow> slice \<Rightarrow> slice" where
  "Internal_FindShortSuccessor user_compare user_suc key =
     (let user_key = ExtractUserKey key; tmp = user_suc user_key in
      if length tmp < length user_key \<and> user_compare user_key tmp < 0
      then PutFixed64 tmp (PackSequenceAndType kMaxSequenceNumber kValueTypeForSeek) else key)"

text \<open>The filter policy for internal keys hands the user keys on.\<close>

definition InternalFilter_CreateFilter :: "(slice list \<Rightarrow> byte list \<Rightarrow> byte list) \<Rightarrow> slice list \<Rightarrow> byte list \<Rightarrow> byte list" where
  "InternalFilter_CreateFilter user_create keys dst = user_create (map ExtractUserKey keys) dst"

definition InternalFilter_KeyMayMatch :: "(slice \<Rightarrow> slice \<Rightarrow> bool) \<Rightarrow> slice \<Rightarrow> slice \<Rightarrow> bool" where
  "InternalFilter_KeyMayMatch user_may_match key f = user_may_match (ExtractUserKey key) f"

section \<open>The key of a lookup\<close>

text \<open>The character array, and where the user key starts in it.\<close>

record LookupKey =
  lk_array :: "byte list"
  lk_kstart :: nat

definition LookupKey_new :: "slice \<Rightarrow> SequenceNumber \<Rightarrow> LookupKey" where
  "LookupKey_new user_key s =
     (let usize = length user_key; head = EncodeVarint32 (of_nat (usize + 8)) in
      \<lparr>lk_array = head @ user_key @ EncodeFixed64 (PackSequenceAndType s kValueTypeForSeek), lk_kstart = length head\<rparr>)"

definition LookupKey_memtable_key :: "LookupKey \<Rightarrow> slice" where
  "LookupKey_memtable_key k = lk_array k"

definition LookupKey_internal_key :: "LookupKey \<Rightarrow> slice" where
  "LookupKey_internal_key k = drop (lk_kstart k) (lk_array k)"

definition LookupKey_user_key :: "LookupKey \<Rightarrow> slice" where
  "LookupKey_user_key k = take (length (lk_array k) - lk_kstart k - 8) (drop (lk_kstart k) (lk_array k))"

section \<open>Sequence numbers and types in one number\<close>

lemma kMaxSequenceNumber_unat: "unat kMaxSequenceNumber = 2 ^ 56 - 1"
  by (simp add: kMaxSequenceNumber_def)

lemma PackSequenceAndType_unat:
  assumes "s \<le> kMaxSequenceNumber"
  shows "unat (PackSequenceAndType s t) = unat s * 256 + unat t"
proof -
  have s: "unat s < 2 ^ 56" using assms kMaxSequenceNumber_unat by (simp add: word_le_nat_alt)
  have "push_bit 8 s AND ucast t = 0"
    by (rule bit_eqI) (auto simp: bit_simps dest: bit_imp_le_length)
  then have "PackSequenceAndType s t = push_bit 8 s + ucast t"
    unfolding PackSequenceAndType_def by (simp add: disjunctive_add_eq_or)
  moreover have "unat (push_bit 8 s) = unat s * 256"
    using s by (simp add: push_bit_eq_mult unat_word_ariths)
  moreover have "unat (ucast t :: u64) = unat t" 
    unfolding unsigned_ucast_eq by (rule take_bit_nat_eq_self, rule less_trans [OF unat_byte_less]) simp
  moreover have "unat s * 256 + unat t < 2 ^ 56 * 256" using s unat_byte_less [of t] by linarith
  then have "unat s * 256 + unat t < 2 ^ 64" by simp
  ultimately show ?thesis by (simp add: unat_word_ariths)
qed

lemma Pack_sequence: "s \<le> kMaxSequenceNumber \<Longrightarrow> drop_bit 8 (PackSequenceAndType s t) = s"
  using unat_byte_less [of t]
  by (simp only: word_unat_eq_iff unat_drop_bit_eq PackSequenceAndType_unat) (simp add: drop_bit_eq_div)

lemma Pack_type: "ucast (PackSequenceAndType s t AND 0xff) = t"
proof -
  have 255: "(0xff :: u64) = mask 8" by (simp add: mask_eq_exp_minus_1)
  show ?thesis unfolding 255
    by (rule bit_word_eqI) (auto simp: PackSequenceAndType_def bit_simps)
qed

lemma ExtractUserKey_append [simp]: "length tag = 8 \<Longrightarrow> ExtractUserKey (key @ tag) = key"
  by (simp add: ExtractUserKey_def)

lemma internal_num_append [simp]: "internal_num (key @ EncodeFixed64 num) = num"
  using DecodeFixed64_EncodeFixed64 [of num "[]"] by (simp add: internal_num_def)

lemma internal_num_Append:
  "internal_num (AppendInternalKey r k) = PackSequenceAndType (pk_sequence k) (pk_type k)"
  unfolding AppendInternalKey_def PutFixed64_def by (rule internal_num_append)

lemma ExtractUserKey_Append: "ExtractUserKey (AppendInternalKey [] k) = pk_user_key k"
  by (simp add: AppendInternalKey_def PutFixed64_def)

lemma ExtractUserKey_New [simp]: "ExtractUserKey (InternalKey_new key s t) = key"
  by (simp add: InternalKey_new_def ExtractUserKey_Append)

lemma internal_num_New [simp]: "internal_num (InternalKey_new key s t) = PackSequenceAndType s t"
  by (simp add: InternalKey_new_def internal_num_Append)

lemma Internal_Compare_num:
  "Internal_Compare ucmp a b =
     (let r = ucmp (ExtractUserKey a) (ExtractUserKey b) in
      if r \<noteq> 0 then r else if internal_num a > internal_num b then - 1 else if internal_num a < internal_num b then 1 else 0)"
  by (simp add: Internal_Compare_def internal_num_def Let_def)

section \<open>The order of internal keys\<close>

context comparator
begin

lemma lexicographic:
  fixes key :: "'e \<Rightarrow> 'k" and num :: "'e \<Rightarrow> 'n :: linorder"
  defines "ord_by \<equiv> \<lambda>a b. let r = cmp (key a) (key b) in
      if r \<noteq> 0 then r else if num a > num b then - 1 else if num a < num b then (1 :: int) else 0"
  shows "comparator ord_by"
proof
  fix a b c
  show "ord_by a b < 0 \<longleftrightarrow> 0 < ord_by b a"
    using cmp_flip [of "key a" "key b"] cmp_eq_flip [of "key a" "key b"] by (auto simp: ord_by_def Let_def)
  have le: "ord_by a b \<le> 0 \<longleftrightarrow> cmp (key a) (key b) < 0 \<or> cmp (key a) (key b) = 0 \<and> num b \<le> num a" for a b
    by (auto simp: ord_by_def Let_def)
  show "ord_by a b \<le> 0 \<Longrightarrow> ord_by b c \<le> 0 \<Longrightarrow> ord_by a c \<le> 0"
    unfolding le
    using cmp_less_trans [of "key a" "key b" "key c"] cmp_eq_left [of "key a" "key b" "key c"]
      cmp_eq_right [of "key b" "key c" "key a"] cmp_eq_trans [of "key a" "key b" "key c"] by auto
qed

end

lemma Internal_comparator: "comparator ucmp \<Longrightarrow> comparator (Internal_Compare ucmp)"
  unfolding Internal_Compare_num [abs_def] by (rule comparator.lexicographic)

text \<open>The comparator of internal keys keeps the whole contract of the user comparator it is made of.\<close>

locale user_comparator = key_comparator ucmp usep usuc
  for ucmp :: "slice \<Rightarrow> slice \<Rightarrow> int" and usep usuc

sublocale user_comparator < internal: key_comparator "Internal_Compare ucmp" "Internal_FindShortestSeparator ucmp usep"
    "Internal_FindShortSuccessor ucmp usuc"
proof (rule key_comparator.intro [OF Internal_comparator [OF comparator_axioms]], unfold_locales)
  fix start limit key
  show "Internal_Compare ucmp start limit < 0 \<Longrightarrow>
      Internal_Compare ucmp start (Internal_FindShortestSeparator ucmp usep start limit) \<le> 0 \<and>
      Internal_Compare ucmp (Internal_FindShortestSeparator ucmp usep start limit) limit < 0"
    using sep_between [of "ExtractUserKey start" "ExtractUserKey limit"]
      sep_unordered [of "ExtractUserKey start" "ExtractUserKey limit"]
    by (auto simp: Internal_FindShortestSeparator_def Internal_Compare_num PutFixed64_def Let_def cmp_refl split: if_splits)
  show "\<not> Internal_Compare ucmp start limit < 0 \<Longrightarrow> Internal_FindShortestSeparator ucmp usep start limit = start"
    using sep_unordered [of "ExtractUserKey start" "ExtractUserKey limit"]
    by (auto simp: Internal_FindShortestSeparator_def Internal_Compare_num Let_def split: if_splits)
  show "Internal_Compare ucmp key (Internal_FindShortSuccessor ucmp usuc key) \<le> 0"
    by (auto simp: Internal_FindShortSuccessor_def Internal_Compare_num PutFixed64_def Let_def cmp_refl)
qed

interpretation user_bytewise: user_comparator Bytewise_Compare Bytewise_FindShortestSeparator Bytewise_FindShortSuccessor
  by unfold_locales

text \<open>
  C22: a key that the internal comparator gives to an index between two blocks separates them: no key of the first block is
  above it, all keys of the second are.
\<close>

theorem internal_separator_separates:
  assumes "Internal_Compare Bytewise_Compare a start \<le> 0" "Internal_Compare Bytewise_Compare start limit < 0"
    "Internal_Compare Bytewise_Compare limit b \<le> 0"
  defines "sep \<equiv> Internal_FindShortestSeparator Bytewise_Compare Bytewise_FindShortestSeparator start limit"
  shows "Internal_Compare Bytewise_Compare a sep \<le> 0 \<and> Internal_Compare Bytewise_Compare sep b < 0"
  unfolding sep_def by (rule user_bytewise.internal.sep_splits [OF assms(1,2,3)])

theorem internal_separator_separates_witness:
  "Internal_Compare Bytewise_Compare (InternalKey_new [1] 9 kTypeValue)
     (Internal_FindShortestSeparator Bytewise_Compare Bytewise_FindShortestSeparator
        (InternalKey_new [1, 7, 7] 5 kTypeValue) (InternalKey_new [1, 9] 4 kTypeValue)) \<le> 0 \<and>
   Internal_Compare Bytewise_Compare
     (Internal_FindShortestSeparator Bytewise_Compare Bytewise_FindShortestSeparator
        (InternalKey_new [1, 7, 7] 5 kTypeValue) (InternalKey_new [1, 9] 4 kTypeValue))
     (InternalKey_new [1, 9] 3 kTypeDeletion) < 0"
  by (rule internal_separator_separates)
    (simp_all add: Internal_Compare_num Bytewise_Compare_def Let_def PackSequenceAndType_def kTypeValue_def kTypeDeletion_def)

text \<open>An internal key is parsed back into its parts, the sequence number up to its 56 bits; an unknown type is refused.\<close>

theorem internal_key_roundtrip:
  "ParseInternalKey (AppendInternalKey [] k) =
     (if pk_type k \<le> kTypeValue
      then Some \<lparr>pk_user_key = pk_user_key k, pk_sequence = pk_sequence k AND kMaxSequenceNumber, pk_type = pk_type k\<rparr>
      else None)"
proof -
  have "drop_bit 8 (PackSequenceAndType (pk_sequence k) (pk_type k)) = pk_sequence k AND kMaxSequenceNumber"
  proof -
    have max: "kMaxSequenceNumber = mask 56" by (simp add: kMaxSequenceNumber_def mask_eq_exp_minus_1)
    show ?thesis unfolding max
      by (rule bit_word_eqI) (auto simp: PackSequenceAndType_def bit_simps dest: bit_imp_le_length)
  qed
  moreover have "length (AppendInternalKey [] k) = length (pk_user_key k) + 8"
    "take (length (pk_user_key k)) (AppendInternalKey [] k) = pk_user_key k"
    by (simp_all add: AppendInternalKey_def PutFixed64_def)
  ultimately show ?thesis
    by (simp add: ParseInternalKey_def internal_num_Append Pack_type Let_def)
qed

section \<open>Where a lookup starts\<close>

lemma LookupKey_parts:
  assumes "length user_key + 8 < 2 ^ 32"
  shows "LookupKey_memtable_key (LookupKey_new user_key s) =
      base128 (length user_key + 8) @ InternalKey_new user_key s kValueTypeForSeek"
    "LookupKey_internal_key (LookupKey_new user_key s) = InternalKey_new user_key s kValueTypeForSeek"
    "LookupKey_user_key (LookupKey_new user_key s) = user_key"
  using assms
  by (simp_all add: LookupKey_memtable_key_def LookupKey_internal_key_def LookupKey_user_key_def LookupKey_new_def Let_def
      InternalKey_new_def AppendInternalKey_def PutFixed64_def EncodeVarint32_base128 unat_word_ariths unat_of_nat)

text \<open>The internal key for a lookup comes before the entries of its user key that are not newer, and after the others.\<close>

lemma Internal_Compare_seek:
  assumes "s \<le> kMaxSequenceNumber" "s' \<le> kMaxSequenceNumber" "t \<le> kTypeValue"
  shows "Internal_Compare ucmp (InternalKey_new k s t) (InternalKey_new k' s' kValueTypeForSeek) < 0 \<longleftrightarrow>
    ucmp k k' < 0 \<or> ucmp k k' = 0 \<and> s' < s"
proof -
  have t: "unat t \<le> 1" using assms(3) by (simp add: word_le_nat_alt kTypeValue_def)
  have "PackSequenceAndType s' kTypeValue < PackSequenceAndType s t \<longleftrightarrow> s' < s"
    using assms(1,2) t by (auto simp: word_less_nat_alt PackSequenceAndType_unat kTypeValue_def)
  then show ?thesis by (auto simp: Internal_Compare_num Let_def kValueTypeForSeek_def)
qed

lemma digits_256_less: "t < 256 \<Longrightarrow> u < 256 \<Longrightarrow> a * 256 + t < b * 256 + u \<longleftrightarrow> a < b \<or> a = b \<and> t < (u :: nat)"
  by linarith

lemma Internal_Compare_entries:
  assumes "s \<le> kMaxSequenceNumber" "s' \<le> kMaxSequenceNumber" "s \<noteq> s'"
  shows "Internal_Compare ucmp (InternalKey_new k s t) (InternalKey_new k' s' t') =
    (if ucmp k k' \<noteq> 0 then ucmp k k' else if s' < s then - 1 else 1)"
proof -
  have "PackSequenceAndType s' t' < PackSequenceAndType s t \<longleftrightarrow> s' < s" "PackSequenceAndType s t < PackSequenceAndType s' t' \<longleftrightarrow> s < s'"
    using assms by (auto simp: word_less_nat_alt PackSequenceAndType_unat word_unat_eq_iff digits_256_less)
  then show ?thesis using assms(3) by (auto simp: Internal_Compare_num Let_def)
qed

end
