(* ===== verification/Ldb_Arena.thy ===== *)
theory Ldb_Arena
  imports Prelude
begin

text \<open>
  leveldb, \<^verbatim>\<open>util/arena.h\<close> and \<^verbatim>\<open>util/arena.cc\<close>: memory that is handed out in pieces and given back all at once. The
  \<^verbatim>\<open>new char[]\<close> of the standard library is an argument: from the state of the arena and the size it gives the address of a
  new block.
\<close>

section \<open>The arena\<close>

record Arena =
  ar_alloc_ptr :: addr
  ar_remaining :: nat
  ar_blocks :: "(addr \<times> nat) list"
  ar_memory_usage :: nat

definition arena_kBlockSize :: nat where
  "arena_kBlockSize = 4096"

definition Arena_new :: Arena where
  "Arena_new = \<lparr>ar_alloc_ptr = 0, ar_remaining = 0, ar_blocks = [], ar_memory_usage = 0\<rparr>"

definition Arena_MemoryUsage :: "Arena \<Rightarrow> nat" where
  "Arena_MemoryUsage a = ar_memory_usage a"

text \<open>A block is remembered with its size, and counts with the pointer to it.\<close>

definition AllocateNewBlock :: "(Arena \<Rightarrow> nat \<Rightarrow> addr) \<Rightarrow> nat \<Rightarrow> Arena \<Rightarrow> addr \<times> Arena" where
  "AllocateNewBlock new_char block_bytes a =
     (let result = new_char a block_bytes in
      (result, a\<lparr>ar_blocks := ar_blocks a @ [(result, block_bytes)],
                 ar_memory_usage := Arena_MemoryUsage a + block_bytes + 8\<rparr>))"

definition AllocateFallback :: "(Arena \<Rightarrow> nat \<Rightarrow> addr) \<Rightarrow> nat \<Rightarrow> Arena \<Rightarrow> addr \<times> Arena" where
  "AllocateFallback new_char bytes a =
     (if bytes > arena_kBlockSize div 4 then AllocateNewBlock new_char bytes a
      else
        let (p, a) = AllocateNewBlock new_char arena_kBlockSize a in
        (p, a\<lparr>ar_alloc_ptr := p + bytes, ar_remaining := arena_kBlockSize - bytes\<rparr>))"

definition Arena_Allocate :: "(Arena \<Rightarrow> nat \<Rightarrow> addr) \<Rightarrow> nat \<Rightarrow> Arena \<Rightarrow> addr \<times> Arena" where
  "Arena_Allocate new_char bytes a =
     (if bytes \<le> ar_remaining a then
        (ar_alloc_ptr a,
         a\<lparr>ar_alloc_ptr := ar_alloc_ptr a + bytes, ar_remaining := ar_remaining a - bytes\<rparr>)
      else AllocateFallback new_char bytes a)"

text \<open>The sums of sizes stay far below \<^verbatim>\<open>size_t\<close>: a request is a node, or a key and a value that are in memory.\<close>

definition Arena_AllocateAligned :: "(Arena \<Rightarrow> nat \<Rightarrow> addr) \<Rightarrow> nat \<Rightarrow> Arena \<Rightarrow> addr \<times> Arena" where
  "Arena_AllocateAligned new_char bytes a =
     (let align = 8;
          current_mod = ar_alloc_ptr a mod align;
          slop = (if current_mod = 0 then 0 else align - current_mod);
          needed = bytes + slop in
      if needed \<le> ar_remaining a then
        (ar_alloc_ptr a + slop,
         a\<lparr>ar_alloc_ptr := ar_alloc_ptr a + needed, ar_remaining := ar_remaining a - needed\<rparr>)
      else AllocateFallback new_char bytes a)"

section \<open>Regions of memory\<close>

definition apart :: "addr \<times> nat \<Rightarrow> addr \<times> nat \<Rightarrow> bool" where
  "apart r s \<longleftrightarrow> fst r + snd r \<le> fst s \<or> fst s + snd s \<le> fst r"

definition inside :: "addr \<times> nat \<Rightarrow> addr \<times> nat \<Rightarrow> bool" where
  "inside r b \<longleftrightarrow> fst b \<le> fst r \<and> fst r + snd r \<le> fst b + snd b"

lemma apart_commute: "apart r s \<longleftrightarrow> apart s r"
  by (auto simp: apart_def)

lemma apart_inside: "apart b c \<Longrightarrow> inside r b \<Longrightarrow> inside s c \<Longrightarrow> apart r s"
  by (auto simp: apart_def inside_def)

lemma inside_trans: "inside r s \<Longrightarrow> inside s b \<Longrightarrow> inside r b"
  by (auto simp: inside_def)

lemma apart_blocks: "\<exists>b \<in> B. inside r b \<Longrightarrow> (\<And>b. b \<in> B \<Longrightarrow> apart b c) \<Longrightarrow> apart r c"
  by (force simp: apart_def inside_def)

lemma inside_refl: "inside b b"
  by (simp add: inside_def)

text \<open>What the standard says of \<^verbatim>\<open>new\<close>: the new block is aligned and apart from all that are in use.\<close>

definition new_fresh :: "(Arena \<Rightarrow> nat \<Rightarrow> addr) \<Rightarrow> bool" where
  "new_fresh new_char \<longleftrightarrow>
     (\<forall>a n. new_char a n mod 8 = 0 \<and> (\<forall>b \<in> set (ar_blocks a). apart (new_char a n, n) b))"

section \<open>The invariant\<close>

text \<open>
  The blocks are apart; what was handed out lies in them, each piece apart from the others and from what is left of the
  current block; the usage is the sum of the sizes.
\<close>

definition arena_inv :: "Arena \<Rightarrow> (addr \<times> nat) list \<Rightarrow> bool" where
  "arena_inv a regions \<longleftrightarrow>
     sorted_wrt apart (ar_blocks a) \<and>
     (ar_remaining a = 0 \<or> (\<exists>b \<in> set (ar_blocks a). inside (ar_alloc_ptr a, ar_remaining a) b)) \<and>
     (\<forall>r \<in> set regions. \<exists>b \<in> set (ar_blocks a). inside r b) \<and>
     sorted_wrt apart regions \<and>
     (0 < ar_remaining a \<longrightarrow> (\<forall>r \<in> set regions. apart r (ar_alloc_ptr a, ar_remaining a))) \<and>
     ar_memory_usage a = sum_list (map (\<lambda>b. snd b + 8) (ar_blocks a))"

text \<open>A client that allocates pieces one after the other, some of them aligned.\<close>

fun AllocateAll :: "(Arena \<Rightarrow> nat \<Rightarrow> addr) \<Rightarrow> (bool \<times> nat) list \<Rightarrow> Arena \<Rightarrow> (addr \<times> nat) list \<times> Arena" where
  "AllocateAll new_char [] a = ([], a)"
| "AllocateAll new_char ((aligned, bytes) # requests) a =
     (let (p, a) = (if aligned then Arena_AllocateAligned new_char bytes a else Arena_Allocate new_char bytes a);
          (regions, a) = AllocateAll new_char requests a in
      ((p, bytes) # regions, a))"

lemma arena_take_piece:
  assumes inv: "arena_inv a regions" and room: "d + bytes \<le> ar_remaining a" and bytes: "0 < bytes"
  shows "arena_inv (a\<lparr>ar_alloc_ptr := ar_alloc_ptr a + (d + bytes), ar_remaining := ar_remaining a - (d + bytes)\<rparr>)
    (regions @ [(ar_alloc_ptr a + d, bytes)])"
proof -
  have pos: "0 < ar_remaining a" using room bytes by simp
  then obtain b where b: "b \<in> set (ar_blocks a)" "inside (ar_alloc_ptr a, ar_remaining a) b"
    using inv by (auto simp: arena_inv_def)
  have piece: "inside (ar_alloc_ptr a + d, bytes) (ar_alloc_ptr a, ar_remaining a)"
    using room by (simp add: inside_def)
  have old: "apart r (ar_alloc_ptr a + d, bytes)" "apart r (ar_alloc_ptr a + (d + bytes), ar_remaining a - (d + bytes))"
    if "r \<in> set regions" for r
    using inv pos room that by (auto simp: arena_inv_def apart_def)
  have "inside (ar_alloc_ptr a + (d + bytes), ar_remaining a - (d + bytes)) b"
    using b(2) room by (auto simp: inside_def)
  moreover have "apart (ar_alloc_ptr a + d, bytes) (ar_alloc_ptr a + (d + bytes), ar_remaining a - (d + bytes))"
    by (simp add: apart_def)
  ultimately show ?thesis
    using inv b inside_trans [OF piece b(2)] old by (auto simp: arena_inv_def sorted_wrt_append)
qed

lemma arena_new_block:
  assumes inv: "arena_inv a regions" and new: "new_fresh new_char"
    and result: "AllocateNewBlock new_char n a = (p, a')"
  shows "p mod 8 = 0" "arena_inv a' (regions @ [(p, n)])" "arena_inv (a'\<lparr>ar_alloc_ptr := p, ar_remaining := n\<rparr>) regions"
proof -
  have p: "p = new_char a n" and a': "a' = a\<lparr>ar_blocks := ar_blocks a @ [(p, n)], ar_memory_usage := ar_memory_usage a + n + 8\<rparr>"
    using result by (auto simp: AllocateNewBlock_def Arena_MemoryUsage_def Let_def)
  show "p mod 8 = 0" using new by (simp add: p new_fresh_def)
  have block: "apart b (p, n)" if "b \<in> set (ar_blocks a)" for b
    using new that apart_commute by (auto simp: p new_fresh_def)
  have old: "apart r (p, n)" if "r \<in> set regions" for r
    using inv that by (intro apart_blocks [OF _ block]) (auto simp: arena_inv_def)
  have rest: "apart (ar_alloc_ptr a, ar_remaining a) (p, n)" if "0 < ar_remaining a"
    using inv that by (intro apart_blocks [OF _ block]) (auto simp: arena_inv_def)
  have rest': "apart (p, n) (ar_alloc_ptr a, ar_remaining a)" if "0 < ar_remaining a"
    using rest [OF that] apart_commute by simp
  show "arena_inv a' (regions @ [(p, n)])"
    using inv block old rest' inside_refl [of "(p, n)"] by (auto simp: arena_inv_def a' sorted_wrt_append)
  show "arena_inv (a'\<lparr>ar_alloc_ptr := p, ar_remaining := n\<rparr>) regions"
    using inv block old inside_refl [of "(p, n)"] by (auto simp: arena_inv_def a' sorted_wrt_append)
qed

lemma arena_fallback:
  assumes inv: "arena_inv a regions" and new: "new_fresh new_char" and bytes: "0 < bytes"
    and result: "AllocateFallback new_char bytes a = (p, a')"
  shows "p mod 8 = 0 \<and> arena_inv a' (regions @ [(p, bytes)])"
proof (cases "bytes > arena_kBlockSize div 4")
  case True
  with arena_new_block [OF inv new] result show ?thesis by (simp add: AllocateFallback_def)
next
  case False
  obtain q a1 where q: "AllocateNewBlock new_char arena_kBlockSize a = (q, a1)" by fastforce
  then have a': "p = q" "a' = a1\<lparr>ar_alloc_ptr := q + bytes, ar_remaining := arena_kBlockSize - bytes\<rparr>"
    using result False by (auto simp: AllocateFallback_def)
  have "arena_inv (a1\<lparr>ar_alloc_ptr := q, ar_remaining := arena_kBlockSize\<rparr>) regions" "q mod 8 = 0"
    using arena_new_block [OF inv new q] by blast+
  with arena_take_piece [OF this(1), of 0 bytes] bytes False show ?thesis
    by (simp add: a' arena_kBlockSize_def)
qed

lemma arena_allocate:
  assumes inv: "arena_inv a regions" and new: "new_fresh new_char" and bytes: "0 < bytes"
  shows "Arena_Allocate new_char bytes a = (p, a') \<Longrightarrow> arena_inv a' (regions @ [(p, bytes)])"
    "Arena_AllocateAligned new_char bytes a = (p, a') \<Longrightarrow> p mod 8 = 0 \<and> arena_inv a' (regions @ [(p, bytes)])"
proof -
  show "arena_inv a' (regions @ [(p, bytes)])" if "Arena_Allocate new_char bytes a = (p, a')"
    using that arena_take_piece [OF inv, of 0 bytes] bytes arena_fallback [OF inv new bytes]
    by (auto simp: Arena_Allocate_def split: if_splits)
  assume result: "Arena_AllocateAligned new_char bytes a = (p, a')"
  define slop where "slop = (if ar_alloc_ptr a mod 8 = 0 then 0 else 8 - ar_alloc_ptr a mod 8)"
  have aligned: "(ar_alloc_ptr a + slop) mod 8 = 0" unfolding slop_def by presburger
  show "p mod 8 = 0 \<and> arena_inv a' (regions @ [(p, bytes)])"
  proof (cases "bytes + slop \<le> ar_remaining a")
    case True
    with result have "p = ar_alloc_ptr a + slop"
      "a' = a\<lparr>ar_alloc_ptr := ar_alloc_ptr a + (slop + bytes), ar_remaining := ar_remaining a - (slop + bytes)\<rparr>"
      by (simp_all add: Arena_AllocateAligned_def Let_def slop_def [symmetric] add.commute)
    with arena_take_piece [OF inv _ bytes, of slop] True aligned show ?thesis by (simp add: add.commute)
  next
    case False
    with result have "AllocateFallback new_char bytes a = (p, a')"
      by (simp add: Arena_AllocateAligned_def Let_def slop_def [symmetric])
    then show ?thesis by (rule arena_fallback [OF inv new bytes])
  qed
qed

lemma AllocateAll_inv:
  "arena_inv a regions \<Longrightarrow> new_fresh new_char \<Longrightarrow> \<forall>(aligned, bytes) \<in> set requests. 0 < bytes \<Longrightarrow>
   AllocateAll new_char requests a = (rs, a') \<Longrightarrow>
   arena_inv a' (regions @ rs) \<and> list_all2 (\<lambda>(aligned, bytes) (p, n). n = bytes \<and> (aligned \<longrightarrow> p mod 8 = 0)) requests rs"
proof (induction requests arbitrary: a regions rs)
  case (Cons request requests)
  obtain aligned bytes where request: "request = (aligned, bytes)" by fastforce
  obtain p a1 where p: "(if aligned then Arena_AllocateAligned new_char bytes a else Arena_Allocate new_char bytes a) = (p, a1)"
    by fastforce
  obtain rs1 where rs1: "AllocateAll new_char requests a1 = (rs1, a')" "rs = (p, bytes) # rs1"
    using Cons.prems(4) p by (auto simp: request split: prod.splits)
  have bytes: "0 < bytes" using Cons.prems(3) by (simp add: request)
  have "arena_inv a1 (regions @ [(p, bytes)])" "aligned \<longrightarrow> p mod 8 = 0"
    using p arena_allocate [OF Cons.prems(1,2) bytes] by (auto split: if_splits)
  with Cons.IH [OF this(1) Cons.prems(2) _ rs1(1)] Cons.prems(3) show ?case by (simp add: request rs1(2))
qed simp

lemma Arena_new_inv: "arena_inv Arena_new []"
  by (simp add: arena_inv_def Arena_new_def)

text \<open>
  C19: pieces of memory from an arena do not overlap, lie in its blocks and are aligned where that was asked for;
  the usage it reports is that of its blocks.
\<close>

theorem arena_pieces_apart:
  assumes "new_fresh new_char" "\<forall>(aligned, bytes) \<in> set requests. 0 < bytes"
  defines "result \<equiv> AllocateAll new_char requests Arena_new"
  shows "sorted_wrt apart (fst result) \<and> (\<forall>r \<in> set (fst result). \<exists>b \<in> set (ar_blocks (snd result)). inside r b) \<and>
    list_all2 (\<lambda>(aligned, bytes) (p, n). n = bytes \<and> (aligned \<longrightarrow> p mod 8 = 0)) requests (fst result) \<and>
    Arena_MemoryUsage (snd result) = sum_list (map (\<lambda>b. snd b + 8) (ar_blocks (snd result)))"
  using AllocateAll_inv [OF Arena_new_inv assms(1,2), of "fst result" "snd result"]
  by (simp add: result_def arena_inv_def Arena_MemoryUsage_def)

text \<open>An allocator that puts every block behind the others.\<close>

definition bump :: "Arena \<Rightarrow> nat \<Rightarrow> addr" where
  "bump a n = 8 * (1 + sum_list (map (\<lambda>b. fst b + snd b) (ar_blocks a)))"

lemma bump_fresh: "new_fresh bump"
proof -
  have "fst b + snd b \<le> sum_list (map (\<lambda>b. fst b + snd b) bs)" if "b \<in> set bs" for b :: "addr \<times> nat" and bs
    using that by (induction bs) auto
  then show ?thesis by (fastforce simp: new_fresh_def bump_def apart_def)
qed

theorem arena_pieces_apart_witness:
  "sorted_wrt apart (fst (AllocateAll bump [(False, 5), (True, 24), (False, 2000)] Arena_new))"
  by (rule conjunct1 [OF arena_pieces_apart [OF bump_fresh]]) simp

end
