(* ===== verification/Ldb_Skiplist.thy ===== *)
theory Ldb_Skiplist
  imports Ldb_Slice
begin

text \<open>
  leveldb, \<^verbatim>\<open>util/random.h\<close> and \<^verbatim>\<open>db/skiplist.h\<close>: the random numbers that decide the heights of nodes, and the skip list
  of the memory table. Nodes are allocated in the arena and never freed: the arena is the list of all nodes, a pointer
  is the index of a node, \<open>None\<close> is \<^verbatim>\<open>NULL\<close>, and \<^verbatim>\<open>head_\<close> is node 0. The lists of all levels
  refine one sorted list of keys. Writers are externally synchronised, as the comment of the file asks for.
\<close>
unbundle bit_operations_syntax

section \<open>Random numbers\<close>

definition Random_new :: "u32 \<Rightarrow> u32" where
  "Random_new s = (let seed = s AND 0x7fffffff in if seed = 0 \<or> seed = 2147483647 then 1 else seed)"

text \<open>The new seed, which is also the number returned. The product is computed with 64 bits.\<close>

definition Random_Next :: "u32 \<Rightarrow> u32" where
  "Random_Next seed =
     (let M = 2147483647; A = 16807; product = (ucast seed :: u64) * A;
          seed = ucast (drop_bit 31 product + (product AND ucast (M :: u32))) in
      if seed > M then seed - M else seed)"

text \<open>The specification: the generator of Park and Miller.\<close>

lemma mod_Mersenne_31: "(x div 2147483648 + x mod 2147483648) mod 2147483647 = x mod (2147483647 :: nat)"
proof -
  define q where "q = x div 2147483648"
  define r where "r = x mod 2147483648"
  have "x = q * 2147483648 + r" by (simp add: q_def r_def)
  then have "x = (q + r) + q * 2147483647" by simp
  then have "x mod 2147483647 = (q + r) mod 2147483647" by (metis mod_mult_self1)
  then show ?thesis by (simp add: q_def r_def)
qed

lemma Park_Miller_not_0:
  assumes "0 < s" "s < 2147483647"
  shows "(s * 16807) mod 2147483647 \<noteq> (0 :: nat)"
proof
  assume "(s * 16807) mod 2147483647 = 0"
  then have "(2147483647 :: nat) dvd s * 16807" by (rule dvd_eq_mod_eq_0 [THEN iffD2])
  moreover have "coprime (2147483647 :: nat) 16807" by (simp add: coprime_iff_gcd_eq_1 gcd_non_0_nat)
  ultimately have "2147483647 dvd s" by (simp add: coprime_dvd_mult_left_iff)
  with assms show False by (auto dest: dvd_imp_le)
qed

lemma Random_Next_unat:
  assumes "0 < unat s" "unat s < 2147483647"
  shows "unat (Random_Next s) = unat s * 16807 mod 2147483647"
proof -
  define x where "x = unat s * 16807"
  have x: "x < 2147483647 * 16807" using assms(2) by (simp add: x_def)
  define p :: u64 where "p = ucast s * 16807"
  have "unat s < 2 ^ 64" using assms(2) by simp
  then have "unat (ucast s :: u64) = unat s" by (simp add: unsigned_ucast_eq take_bit_nat_eq_self)
  then have p: "unat p = x" using x by (simp add: p_def unat_word_ariths x_def)
  define y where "y = x div 2147483648 + x mod 2147483648"
  have "x div 2147483648 < 16807" using x by (simp add: less_mult_imp_div_less)
  moreover have "x mod 2147483648 < 2147483648" by simp
  ultimately have y: "y < 2147483648 + 16807" unfolding y_def by linarith
  have "unat (drop_bit 31 p) = x div 2147483648"
    by (simp only: unat_drop_bit_eq p) (simp only: drop_bit_eq_div, simp)
  moreover have "unat (p AND ucast (2147483647 :: u32)) = x mod 2147483648"
  proof -
    have "p AND ucast (2147483647 :: u32) = take_bit 31 p"
      by (simp add: take_bit_eq_mask mask_eq_exp_minus_1)
    then show ?thesis by (simp add: unsigned_take_bit_eq p) (simp add: take_bit_eq_mod)
  qed
  ultimately have sum: "unat (drop_bit 31 p + (p AND ucast (2147483647 :: u32))) = y"
    using y by (simp add: unat_word_ariths y_def)
  define w :: u32 where "w = ucast (drop_bit 31 p + (p AND ucast (2147483647 :: u32)))"
  have w: "unat w = y"
    unfolding w_def using y sum by (simp add: unsigned_ucast_eq take_bit_nat_eq_self)
  have step: "Random_Next s = (if w > 2147483647 then w - 2147483647 else w)"
    by (simp add: Random_Next_def Let_def w_def p_def)
  have mod: "y mod 2147483647 = x mod 2147483647" unfolding y_def by (rule mod_Mersenne_31)
  have ne: "x mod 2147483647 \<noteq> 0" unfolding x_def using assms by (rule Park_Miller_not_0)
  show ?thesis
  proof (cases "y > 2147483647")
    case True
    then have "w > 2147483647" using w by (simp add: word_less_nat_alt)
    moreover have "unat (w - 2147483647) = y - 2147483647"
      using True w by (simp add: unat_sub_if')
    moreover have "y - 2147483647 = y mod 2147483647" using True y by (simp add: le_mod_geq)
    ultimately show ?thesis using mod step by (simp add: x_def)
  next
    case False
    then have "\<not> w > 2147483647" using w by (simp add: word_less_nat_alt)
    moreover have "y \<noteq> 2147483647" using ne mod by auto
    ultimately show ?thesis using mod step w False by (simp add: x_def)
  qed
qed

section \<open>Nodes and lists\<close>

record 'k skip_node =
  sn_key :: 'k
  sn_next :: "nat option list"

record 'k SkipList =
  sl_nodes :: "'k skip_node list"
  sl_max_height :: nat
  sl_rnd :: u32

definition kMaxHeight :: nat where
  "kMaxHeight = 12"

text \<open>Access through a pointer: stuck where there is no such node or no such link.\<close>

definition node_at :: "'k skip_node list \<Rightarrow> nat \<Rightarrow> 'k skip_node option" where
  "node_at ns x = (if x < length ns then Some (ns ! x) else None)"

definition node_Next :: "'k skip_node list \<Rightarrow> nat \<Rightarrow> nat \<Rightarrow> nat option option" where
  "node_Next ns x n =
     do { node \<leftarrow> node_at ns x; if n < length (sn_next node) then Some (sn_next node ! n) else None }"

definition node_SetNext :: "'k skip_node list \<Rightarrow> nat \<Rightarrow> nat \<Rightarrow> nat option \<Rightarrow> 'k skip_node list option" where
  "node_SetNext ns x n p =
     do { node \<leftarrow> node_at ns x;
          if n < length (sn_next node) then Some (ns[x := node\<lparr>sn_next := (sn_next node)[n := p]\<rparr>]) else None }"

text \<open>The links of a new node are not yet set; \<open>NULL\<close> stands for whatever they hold.\<close>

definition NewNode :: "'k \<Rightarrow> nat \<Rightarrow> 'k skip_node list \<Rightarrow> nat \<times> 'k skip_node list" where
  "NewNode key height ns = (length ns, ns @ [\<lparr>sn_key = key, sn_next = replicate height None\<rparr>])"

definition SkipList_new :: "'k \<Rightarrow> 'k SkipList" where
  "SkipList_new any_key =
     \<lparr>sl_nodes = snd (NewNode any_key kMaxHeight []), sl_max_height = 1, sl_rnd = Random_new 0xdeadbeef\<rparr>"

function RandomHeight_loop :: "u32 \<Rightarrow> nat \<Rightarrow> nat \<times> u32" where
  "RandomHeight_loop rnd height =
     (if height < kMaxHeight then
        let rnd = Random_Next rnd in
        if rnd mod 4 = 0 then RandomHeight_loop rnd (height + 1) else (height, rnd)
      else (height, rnd))"
  by pat_completeness auto
termination
  by (relation "measure (\<lambda>(rnd, height). kMaxHeight - height)") (auto simp: kMaxHeight_def)

declare RandomHeight_loop.simps [simp del]

definition RandomHeight :: "u32 \<Rightarrow> nat \<times> u32" where
  "RandomHeight rnd = RandomHeight_loop rnd 1"

lemma RandomHeight_range: "1 \<le> fst (RandomHeight rnd) \<and> fst (RandomHeight rnd) \<le> kMaxHeight"
proof -
  have "height \<le> kMaxHeight \<Longrightarrow>
      height \<le> fst (RandomHeight_loop rnd height) \<and> fst (RandomHeight_loop rnd height) \<le> kMaxHeight" for rnd height
  proof (induction rnd height rule: RandomHeight_loop.induct)
    case (1 rnd height)
    define c where "c \<longleftrightarrow> Random_Next rnd mod 4 = 0"
    have loop: "RandomHeight_loop rnd height =
        (if height < kMaxHeight then
           if c then RandomHeight_loop (Random_Next rnd) (height + 1) else (height, Random_Next rnd)
         else (height, rnd))"
      unfolding c_def by (subst RandomHeight_loop.simps) (simp only: Let_def)
    from 1(1) [OF _ refl, folded c_def] 1(2) show ?case
      unfolding loop by (cases "height < kMaxHeight"; cases c) auto
  qed
  from this [of 1] show ?thesis by (simp add: RandomHeight_def kMaxHeight_def)
qed

section \<open>Searching\<close>

definition KeyIsAfterNode :: "('k \<Rightarrow> 'k \<Rightarrow> int) \<Rightarrow> 'k skip_node list \<Rightarrow> 'k \<Rightarrow> nat option \<Rightarrow> bool option" where
  "KeyIsAfterNode cmp ns key n =
     (case n of None \<Rightarrow> Some False | Some n \<Rightarrow> do { node \<leftarrow> node_at ns n; Some (cmp (sn_key node) key < 0) })"

text \<open>
  The loops have fuel: each turn goes a node forward or a level down, so that the number of nodes and of levels
  is enough. \<open>prev\<close> collects the predecessor at each level.
\<close>

fun FindGreaterOrEqual_loop ::
  "('k \<Rightarrow> 'k \<Rightarrow> int) \<Rightarrow> 'k skip_node list \<Rightarrow> 'k \<Rightarrow> nat \<Rightarrow> nat \<Rightarrow> nat \<Rightarrow> nat option list \<Rightarrow>
     (nat option \<times> nat option list) option" where
  "FindGreaterOrEqual_loop cmp ns key 0 x level prev = None"
| "FindGreaterOrEqual_loop cmp ns key (Suc fuel) x level prev =
     do {
       nx \<leftarrow> node_Next ns x level;
       after \<leftarrow> KeyIsAfterNode cmp ns key nx;
       if after then FindGreaterOrEqual_loop cmp ns key fuel (the nx) level prev
       else
         let prev = prev[level := Some x] in
         if level = 0 then Some (nx, prev) else FindGreaterOrEqual_loop cmp ns key fuel x (level - 1) prev
     }"

definition search_fuel :: "'k SkipList \<Rightarrow> nat" where
  "search_fuel s = length (sl_nodes s) + kMaxHeight"

definition FindGreaterOrEqual ::
  "('k \<Rightarrow> 'k \<Rightarrow> int) \<Rightarrow> 'k SkipList \<Rightarrow> 'k \<Rightarrow> nat option list \<Rightarrow> (nat option \<times> nat option list) option" where
  "FindGreaterOrEqual cmp s key prev =
     FindGreaterOrEqual_loop cmp (sl_nodes s) key (search_fuel s) 0 (sl_max_height s - 1) prev"

fun FindLessThan_loop :: "('k \<Rightarrow> 'k \<Rightarrow> int) \<Rightarrow> 'k skip_node list \<Rightarrow> 'k \<Rightarrow> nat \<Rightarrow> nat \<Rightarrow> nat \<Rightarrow> nat option" where
  "FindLessThan_loop cmp ns key 0 x level = None"
| "FindLessThan_loop cmp ns key (Suc fuel) x level =
     do {
       nx \<leftarrow> node_Next ns x level;
       stop \<leftarrow> (case nx of None \<Rightarrow> Some True | Some n \<Rightarrow> do { node \<leftarrow> node_at ns n; Some (cmp (sn_key node) key \<ge> 0) });
       if stop then (if level = 0 then Some x else FindLessThan_loop cmp ns key fuel x (level - 1))
       else FindLessThan_loop cmp ns key fuel (the nx) level
     }"

definition FindLessThan :: "('k \<Rightarrow> 'k \<Rightarrow> int) \<Rightarrow> 'k SkipList \<Rightarrow> 'k \<Rightarrow> nat option" where
  "FindLessThan cmp s key = FindLessThan_loop cmp (sl_nodes s) key (search_fuel s) 0 (sl_max_height s - 1)"

fun FindLast_loop :: "'k skip_node list \<Rightarrow> nat \<Rightarrow> nat \<Rightarrow> nat \<Rightarrow> nat option" where
  "FindLast_loop ns 0 x level = None"
| "FindLast_loop ns (Suc fuel) x level =
     do {
       nx \<leftarrow> node_Next ns x level;
       (case nx of
          None \<Rightarrow> if level = 0 then Some x else FindLast_loop ns fuel x (level - 1)
        | Some n \<Rightarrow> FindLast_loop ns fuel n level)
     }"

definition FindLast :: "'k SkipList \<Rightarrow> nat option" where
  "FindLast s = FindLast_loop (sl_nodes s) (search_fuel s) 0 (sl_max_height s - 1)"

definition SkipList_Contains :: "('k \<Rightarrow> 'k \<Rightarrow> int) \<Rightarrow> 'k SkipList \<Rightarrow> 'k \<Rightarrow> bool option" where
  "SkipList_Contains cmp s key =
     do {
       (x, prev) \<leftarrow> FindGreaterOrEqual cmp s key [];
       (case x of None \<Rightarrow> Some False | Some x \<Rightarrow> do { node \<leftarrow> node_at (sl_nodes s) x; Some (cmp key (sn_key node) = 0) })
     }"

section \<open>Inserting\<close>

text \<open>The levels above the old height start at the head; then the new node is linked into each of its levels.\<close>

definition fill_prev :: "nat \<Rightarrow> nat \<Rightarrow> nat option list \<Rightarrow> nat option list" where
  "fill_prev from_level height prev = fold (\<lambda>i prev. prev[i := Some 0]) [from_level..<height] prev"

fun link_levels :: "nat \<Rightarrow> nat option list \<Rightarrow> nat list \<Rightarrow> 'k skip_node list \<Rightarrow> 'k skip_node list option" where
  "link_levels x prev [] ns = Some ns"
| "link_levels x prev (i # is) ns =
     do {
       p \<leftarrow> (if i < length prev then prev ! i else None);
       nx \<leftarrow> node_Next ns p i;
       ns \<leftarrow> node_SetNext ns x i nx;
       ns \<leftarrow> node_SetNext ns p i (Some x);
       link_levels x prev is ns
     }"

definition SkipList_Insert :: "('k \<Rightarrow> 'k \<Rightarrow> int) \<Rightarrow> 'k \<Rightarrow> 'k SkipList \<Rightarrow> 'k SkipList option" where
  "SkipList_Insert cmp key s =
     do {
       (x, prev) \<leftarrow> FindGreaterOrEqual cmp s key (replicate kMaxHeight None);
       let (height, rnd) = RandomHeight (sl_rnd s);
       let grows = height > sl_max_height s;
       let prev = (if grows then fill_prev (sl_max_height s) height prev else prev);
       let (x, ns) = NewNode key height (sl_nodes s);
       ns \<leftarrow> link_levels x prev [0..<height] ns;
       Some (s\<lparr>sl_nodes := ns, sl_max_height := (if grows then height else sl_max_height s), sl_rnd := rnd\<rparr>)
     }"

section \<open>Iterators\<close>

text \<open>An iterator is a pointer to a node or \<^verbatim>\<open>NULL\<close>, when it is not valid.\<close>

definition Iter_key :: "'k SkipList \<Rightarrow> nat option \<Rightarrow> 'k option" where
  "Iter_key s it = do { n \<leftarrow> it; node \<leftarrow> node_at (sl_nodes s) n; Some (sn_key node) }"

definition Iter_Next :: "'k SkipList \<Rightarrow> nat option \<Rightarrow> nat option option" where
  "Iter_Next s it = do { n \<leftarrow> it; node_Next (sl_nodes s) n 0 }"

definition Iter_Prev :: "('k \<Rightarrow> 'k \<Rightarrow> int) \<Rightarrow> 'k SkipList \<Rightarrow> nat option \<Rightarrow> nat option option" where
  "Iter_Prev cmp s it =
     do { n \<leftarrow> it; node \<leftarrow> node_at (sl_nodes s) n; x \<leftarrow> FindLessThan cmp s (sn_key node);
          Some (if x = 0 then None else Some x) }"

definition Iter_Seek :: "('k \<Rightarrow> 'k \<Rightarrow> int) \<Rightarrow> 'k SkipList \<Rightarrow> 'k \<Rightarrow> nat option option" where
  "Iter_Seek cmp s target = do { (x, prev) \<leftarrow> FindGreaterOrEqual cmp s target []; Some x }"

definition Iter_SeekToFirst :: "'k SkipList \<Rightarrow> nat option option" where
  "Iter_SeekToFirst s = node_Next (sl_nodes s) 0 0"

definition Iter_SeekToLast :: "'k SkipList \<Rightarrow> nat option option" where
  "Iter_SeekToLast s = do { x \<leftarrow> FindLast s; Some (if x = 0 then None else Some x) }"

end
