(* ===== verification/Ldb_Levels.thy ===== *)
theory Ldb_Levels
  imports Ldb_Skiplist
begin

text \<open>
  The invariant of the skip list and the refinement of a sorted list: the links of every level run through the nodes
  that are high enough, in the order of the keys; searching finds the first node that is not before the key, in
  time bounded by nodes and levels; inserting adds the key at its place.
\<close>

section \<open>The invariant\<close>

definition node_height :: "'k skip_node list \<Rightarrow> nat \<Rightarrow> nat" where
  "node_height ns x = length (sn_next (ns ! x))"

definition node_key :: "'k skip_node list \<Rightarrow> nat \<Rightarrow> 'k" where
  "node_key ns x = sn_key (ns ! x)"

text \<open>The nodes of a level, and the chain of links that runs through them from the head to \<^verbatim>\<open>NULL\<close>.\<close>

definition level_list :: "'k skip_node list \<Rightarrow> nat \<Rightarrow> nat list \<Rightarrow> nat list" where
  "level_list ns l L = filter (\<lambda>x. l < node_height ns x) L"

definition level_links :: "'k skip_node list \<Rightarrow> nat \<Rightarrow> nat list \<Rightarrow> bool" where
  "level_links ns l ys \<longleftrightarrow> map (\<lambda>x. sn_next (ns ! x) ! l) (0 # ys) = map Some ys @ [None]"

text \<open>\<open>L\<close> are the nodes of the list, without the head, in the order of their keys.\<close>

definition skip_inv :: "('k \<Rightarrow> 'k \<Rightarrow> int) \<Rightarrow> 'k SkipList \<Rightarrow> nat list \<Rightarrow> bool" where
  "skip_inv cmp s L \<longleftrightarrow>
     1 \<le> sl_max_height s \<and> sl_max_height s \<le> kMaxHeight \<and>
     set (0 # L) = {..<length (sl_nodes s)} \<and> distinct (0 # L) \<and>
     node_height (sl_nodes s) 0 = kMaxHeight \<and>
     (\<forall>x \<in> set L. 1 \<le> node_height (sl_nodes s) x \<and> node_height (sl_nodes s) x \<le> sl_max_height s) \<and>
     sorted_wrt (\<lambda>x y. cmp (node_key (sl_nodes s) x) (node_key (sl_nodes s) y) < 0) L \<and>
     (\<forall>l < kMaxHeight. level_links (sl_nodes s) l (level_list (sl_nodes s) l L))"

text \<open>The keys that the list holds.\<close>

definition skip_keys :: "'k SkipList \<Rightarrow> nat list \<Rightarrow> 'k list" where
  "skip_keys s L = map (node_key (sl_nodes s)) L"

definition hd_opt :: "'a list \<Rightarrow> 'a option" where
  "hd_opt xs = (case xs of [] \<Rightarrow> None | x # _ \<Rightarrow> Some x)"

lemma hd_opt_simps [simp]: "hd_opt [] = None" "hd_opt (x # xs) = Some x"
  by (simp_all add: hd_opt_def)

lemma level_list_append [simp]: "level_list ns l (A @ B) = level_list ns l A @ level_list ns l B"
  by (simp add: level_list_def)

text \<open>The link of the last node of a part leads to the first node of the next part.\<close>

lemma level_links_next:
  assumes "level_links ns l (A @ B)"
  shows "sn_next (ns ! last (0 # A)) ! l = hd_opt B"
proof -
  have eq: "map (\<lambda>x. sn_next (ns ! x) ! l) (0 # A @ B) = map Some (A @ B) @ [None]"
    using assms by (simp add: level_links_def)
  have "(0 # A @ B) ! length A = last (0 # A)"
    by (metis append_Cons last_conv_nth length_Cons list.distinct(1) nth_append lessI diff_Suc_1)
  then have "sn_next (ns ! last (0 # A)) ! l = map (\<lambda>x. sn_next (ns ! x) ! l) (0 # A @ B) ! length A"
    by (simp only: nth_map length_Cons length_append less_Suc_eq_le le_add1)
  also have "\<dots> = (map Some (A @ B) @ [None]) ! length A" by (simp only: eq)
  also have "\<dots> = hd_opt B" by (cases B) (simp_all add: nth_append)
  finally show ?thesis .
qed

lemma last_level_list:
  assumes "last (0 # A) = 0 \<and> A = [] \<or> A \<noteq> [] \<and> l < node_height ns (last A)"
  shows "last (0 # level_list ns l A) = last (0 # A)"
proof (cases A rule: rev_cases)
  case (snoc A' x)
  then show ?thesis using assms by (simp add: level_list_def)
qed (simp add: level_list_def)

section \<open>Searching\<close>

text \<open>
  The nodes before the place of the key, and the predecessor at a level. \<open>P\<close> tells that a node is before the key.
\<close>

definition level_pred :: "'k skip_node list \<Rightarrow> (nat \<Rightarrow> bool) \<Rightarrow> nat list \<Rightarrow> nat \<Rightarrow> nat" where
  "level_pred ns P L l = last (0 # level_list ns l (takeWhile P L))"

lemma FindGreaterOrEqual_loop_finds:
  fixes cmp :: "'k \<Rightarrow> 'k \<Rightarrow> int" and ns :: "'k skip_node list" and key :: 'k
  defines "P \<equiv> \<lambda>y. cmp (node_key ns y) key < 0"
  assumes nodes: "set (0 # L) \<subseteq> {..<length ns}" and head: "node_height ns 0 = kMaxHeight"
    and heights: "\<forall>x \<in> set L. 1 \<le> node_height ns x"
    and sorted: "sorted_wrt (\<lambda>x y. P y \<longrightarrow> P x) L"
    and levels: "\<forall>l < kMaxHeight. level_links ns l (level_list ns l L)"
  shows "L = A @ B \<Longrightarrow> \<forall>a \<in> set A. P a \<Longrightarrow> A = [] \<or> level < node_height ns (last A) \<Longrightarrow> level < kMaxHeight \<Longrightarrow>
    length B + level < fuel \<Longrightarrow>
    \<exists>prev'. FindGreaterOrEqual_loop cmp ns key fuel (last (0 # A)) level prev = Some (hd_opt (dropWhile P L), prev') \<and>
      length prev' = length prev \<and>
      (\<forall>l < length prev. prev' ! l = (if l \<le> level then Some (level_pred ns P L l) else prev ! l))"
proof (induction fuel arbitrary: A B level prev)
  case 0
  then show ?case by simp
next
  case (Suc fuel)
  define x where "x = last (0 # A)"
  have x: "x < length ns" "level < node_height ns x"
  proof -
    have "x \<in> set (0 # A)" unfolding x_def by (rule last_in_set) simp
    then show "x < length ns" using nodes Suc.prems(1) by auto
    show "level < node_height ns x" using Suc.prems(3,4) head by (auto simp: x_def)
  qed
  have at_x: "last (0 # level_list ns level A) = x"
    unfolding x_def by (rule last_level_list) (use Suc.prems(3) in auto)
  have "sn_next (ns ! x) ! level = hd_opt (level_list ns level B)"
    using level_links_next [of ns level "level_list ns level A" "level_list ns level B"] levels Suc.prems(1,4)
    unfolding at_x by simp
  then have next_x: "node_Next ns x level = Some (hd_opt (level_list ns level B))"
    using x by (simp add: node_Next_def node_at_def node_height_def)
  show ?case
  proof (cases "\<exists>y ys. level_list ns level B = y # ys \<and> P y")
    case True
    then obtain y ys where y: "level_list ns level B = y # ys" "P y" by blast
    then obtain B1 B2 where B: "B = B1 @ y # B2" "\<forall>z \<in> set B1. \<not> level < node_height ns z" "level < node_height ns y"
      unfolding level_list_def by (auto simp: filter_eq_Cons_iff)
    have "y < length ns" using nodes Suc.prems(1) B(1) by auto
    then have step: "FindGreaterOrEqual_loop cmp ns key (Suc fuel) x level prev =
        FindGreaterOrEqual_loop cmp ns key fuel y level prev"
      using y by (simp add: next_x KeyIsAfterNode_def node_at_def P_def node_key_def)
    have "\<forall>b \<in> set B1. P b" using sorted y(2) unfolding Suc.prems(1) B(1) by (auto simp: sorted_wrt_append)
    with Suc.prems(2) y(2) have "\<forall>a \<in> set (A @ B1 @ [y]). P a" by auto
    with Suc.IH [of "A @ B1 @ [y]" B2 level prev] Suc.prems(1,4,5) B show ?thesis
      unfolding x_def [symmetric] step by simp
  next
    case False
    have step: "FindGreaterOrEqual_loop cmp ns key (Suc fuel) x level prev =
        (if level = 0 then Some (hd_opt (level_list ns level B), prev[level := Some x])
         else FindGreaterOrEqual_loop cmp ns key fuel x (level - 1) (prev[level := Some x]))"
    proof (cases "level_list ns level B")
      case Nil
      show ?thesis unfolding Nil by (simp add: next_x [unfolded Nil] KeyIsAfterNode_def Let_def)
    next
      case (Cons y ys)
      then have "y \<in> set B" "\<not> P y" using False by (auto simp: level_list_def dest: filter_eq_ConsD)
      then have "y < length ns" using nodes Suc.prems(1) by auto
      with \<open>\<not> P y\<close> show ?thesis unfolding Cons
        by (simp add: next_x [unfolded Cons] KeyIsAfterNode_def node_at_def P_def node_key_def Let_def)
    qed
    have none: "level_list ns level (takeWhile P B) = []"
    proof (rule ccontr)
      assume "level_list ns level (takeWhile P B) \<noteq> []"
      then obtain z where z: "z \<in> set (takeWhile P B)" "level < node_height ns z"
        by (auto simp: level_list_def filter_empty_conv)
      have "B = takeWhile P B @ dropWhile P B" by simp
      then have "hd (level_list ns level B) \<in> set (takeWhile P B)"
        using \<open>level_list ns level (takeWhile P B) \<noteq> []\<close>
        by (metis filter_is_subset hd_append2 hd_in_set level_list_append level_list_def subsetD)
      then have "P (hd (level_list ns level B))" by (rule set_takeWhileD [THEN conjunct2])
      moreover have "level_list ns level B \<noteq> []"
        using \<open>level_list ns level (takeWhile P B) \<noteq> []\<close> \<open>B = takeWhile P B @ dropWhile P B\<close>
        by (metis append_is_Nil_conv level_list_append)
      ultimately show False using False by (cases "level_list ns level B") auto
    qed
    have split: "takeWhile P L = A @ takeWhile P B" "dropWhile P L = dropWhile P B"
      using Suc.prems(1,2) by simp_all
    have pred: "level_pred ns P L level = x"
      using at_x by (simp add: level_pred_def split none)
    show ?thesis
    proof (cases "level = 0")
      case True
      have "level_list ns 0 B = B"
        using heights unfolding Suc.prems(1) level_list_def by (intro filter_True) (auto simp: Suc_le_eq)
      with False True have "dropWhile P B = B" by (cases B) auto
      with True pred \<open>level_list ns 0 B = B\<close> show ?thesis
        unfolding x_def [symmetric] step by (auto simp: split nth_list_update)
    next
      case False
      have down: "A = [] \<or> level - 1 < node_height ns (last A)" "level - 1 < kMaxHeight" "length B + (level - 1) < fuel"
        using Suc.prems(3-5) False by auto
      obtain prev' where prev': "FindGreaterOrEqual_loop cmp ns key fuel x (level - 1) (prev[level := Some x]) =
          Some (hd_opt (dropWhile P L), prev')" "length prev' = length (prev[level := Some x])"
        "\<forall>l < length (prev[level := Some x]). prev' ! l =
          (if l \<le> level - 1 then Some (level_pred ns P L l) else prev[level := Some x] ! l)"
        using Suc.IH [OF Suc.prems(1,2) down, of "prev[level := Some x]"] unfolding x_def [symmetric] by blast
      have "prev' ! l = (if l \<le> level then Some (level_pred ns P L l) else prev ! l)" if "l < length prev" for l
        using prev'(3) that pred False by (cases "l = level") (auto simp: nth_list_update)
      with prev'(1,2) False show ?thesis
        unfolding x_def [symmetric] step by simp
    qed
  qed
qed

text \<open>The two other loops go the same way.\<close>

lemma FindLessThan_loop_eq:
  "FindGreaterOrEqual_loop cmp ns key fuel x level prev = Some (n, prev') \<Longrightarrow> length prev > level \<Longrightarrow>
   FindLessThan_loop cmp ns key fuel x level = prev' ! 0"
proof (induction fuel arbitrary: x level prev)
  case (Suc fuel)
  from Suc.prems(1) obtain nx after where nx: "node_Next ns x level = Some nx" "KeyIsAfterNode cmp ns key nx = Some after"
    "(if after then FindGreaterOrEqual_loop cmp ns key fuel (the nx) level prev
      else let prev = prev[level := Some x] in if level = 0 then Some (nx, prev)
      else FindGreaterOrEqual_loop cmp ns key fuel x (level - 1) prev) = Some (n, prev')"
    by (auto simp: bind_Some_eq)
  have stop: "(case nx of None \<Rightarrow> Some True | Some n \<Rightarrow> do { node \<leftarrow> node_at ns n; Some (cmp (sn_key node) key \<ge> 0) }) = Some (\<not> after)"
    using nx(2) by (cases nx) (auto simp: KeyIsAfterNode_def bind_Some_eq)
  show ?case
  proof (cases after)
    case True
    with nx(3) Suc.IH [of "the nx" level prev] Suc.prems(2) stop show ?thesis by (simp add: nx(1))
  next
    case False
    with nx(3) Suc.IH [of x "level - 1" "prev[level := Some x]"] Suc.prems(2) stop show ?thesis
      by (auto simp: nx(1) Let_def split: if_splits)
  qed
qed simp

lemma FindLast_loop_eq:
  "FindLessThan_loop (\<lambda>_ _. - 1) ns key fuel x level = Some y \<Longrightarrow> FindLast_loop ns fuel x level = Some y"
proof (induction fuel arbitrary: x level)
  case (Suc fuel)
  from Suc.prems obtain nx where nx: "node_Next ns x level = Some nx" by (auto simp: bind_Some_eq)
  show ?case
  proof (cases nx)
    case None
    with nx Suc show ?thesis by (auto split: if_splits)
  next
    case (Some n)
    with nx Suc.prems obtain node where "node_at ns n = Some node" by (auto simp: bind_Some_eq)
    with nx Some Suc show ?thesis by auto
  qed
qed simp

section \<open>What a search finds\<close>

lemma skip_fuel:
  assumes "skip_inv cmp s L"
  shows "length L + (sl_max_height s - 1) < search_fuel s" "sl_max_height s - 1 < kMaxHeight"
proof -
  have "card (set (0 # L)) = length (0 # L)"
    using assms by (intro distinct_card) (auto simp: skip_inv_def)
  moreover have "set (0 # L) = {..<length (sl_nodes s)}" using assms by (simp add: skip_inv_def)
  ultimately have "length L < length (sl_nodes s)" by simp
  then show "length L + (sl_max_height s - 1) < search_fuel s" "sl_max_height s - 1 < kMaxHeight"
    using assms by (auto simp: search_fuel_def skip_inv_def kMaxHeight_def)
qed

context comparator
begin

lemma skip_sorted_before:
  assumes "skip_inv cmp s L"
  shows "sorted_wrt (\<lambda>x y. cmp (node_key (sl_nodes s) y) key < 0 \<longrightarrow> cmp (node_key (sl_nodes s) x) key < 0) L"
proof (rule sorted_wrt_mono_rel)
  show "sorted_wrt (\<lambda>x y. cmp (node_key (sl_nodes s) x) (node_key (sl_nodes s) y) < 0) L"
    using assms by (simp add: skip_inv_def)
qed (blast intro: cmp_less_trans)

lemma skip_search:
  assumes "skip_inv cmp s L"
  obtains prev' where
    "FindGreaterOrEqual cmp s key prev =
      Some (hd_opt (dropWhile (\<lambda>y. cmp (node_key (sl_nodes s) y) key < 0) L), prev')"
    "length prev' = length prev"
    "\<And>l. l < length prev \<Longrightarrow> prev' ! l =
      (if l < sl_max_height s then Some (level_pred (sl_nodes s) (\<lambda>y. cmp (node_key (sl_nodes s) y) key < 0) L l)
       else prev ! l)"
proof -
  have "\<exists>prev'. FindGreaterOrEqual_loop cmp (sl_nodes s) key (search_fuel s) (last (0 # [])) (sl_max_height s - 1) prev =
      Some (hd_opt (dropWhile (\<lambda>y. cmp (node_key (sl_nodes s) y) key < 0) L), prev') \<and> length prev' = length prev \<and>
      (\<forall>l < length prev. prev' ! l = (if l \<le> sl_max_height s - 1
        then Some (level_pred (sl_nodes s) (\<lambda>y. cmp (node_key (sl_nodes s) y) key < 0) L l) else prev ! l))"
    using assms skip_fuel [OF assms] skip_sorted_before [OF assms]
    by (intro FindGreaterOrEqual_loop_finds [where B = L]) (auto simp: skip_inv_def)
  then obtain prev' where "FindGreaterOrEqual cmp s key prev =
      Some (hd_opt (dropWhile (\<lambda>y. cmp (node_key (sl_nodes s) y) key < 0) L), prev')" "length prev' = length prev"
    "\<forall>l < length prev. prev' ! l = (if l \<le> sl_max_height s - 1
        then Some (level_pred (sl_nodes s) (\<lambda>y. cmp (node_key (sl_nodes s) y) key < 0) L l) else prev ! l)"
    by (auto simp: FindGreaterOrEqual_def)
  moreover have "l \<le> sl_max_height s - 1 \<longleftrightarrow> l < sl_max_height s" for l
    using assms by (auto simp: skip_inv_def)
  ultimately show ?thesis by (intro that [of prev']) simp_all
qed

lemma skip_Seek:
  "skip_inv cmp s L \<Longrightarrow>
   Iter_Seek cmp s key = Some (hd_opt (dropWhile (\<lambda>y. cmp (node_key (sl_nodes s) y) key < 0) L))"
  by (rule skip_search [of s L key "[]"]) (auto simp: Iter_Seek_def)

lemma skip_FindLessThan:
  assumes "skip_inv cmp s L"
  shows "FindLessThan cmp s key = Some (last (0 # takeWhile (\<lambda>y. cmp (node_key (sl_nodes s) y) key < 0) L))"
proof -
  have pos: "0 < sl_max_height s" "sl_max_height s - 1 < length (replicate kMaxHeight None)"
    using assms by (auto simp: skip_inv_def kMaxHeight_def)
  obtain prev' where prev': "FindGreaterOrEqual cmp s key (replicate kMaxHeight None) =
      Some (hd_opt (dropWhile (\<lambda>y. cmp (node_key (sl_nodes s) y) key < 0) L), prev')"
    "prev' ! 0 = Some (level_pred (sl_nodes s) (\<lambda>y. cmp (node_key (sl_nodes s) y) key < 0) L 0)"
    using skip_search [OF assms, of key "replicate kMaxHeight None"] pos(1) by (metis (no_types, lifting) kMaxHeight_def length_replicate zero_less_numeral)
  have "level_list (sl_nodes s) 0 (takeWhile (\<lambda>y. cmp (node_key (sl_nodes s) y) key < 0) L) =
      takeWhile (\<lambda>y. cmp (node_key (sl_nodes s) y) key < 0) L"
    unfolding level_list_def
  proof (rule filter_True, rule ballI)
    fix x assume "x \<in> set (takeWhile (\<lambda>y. cmp (node_key (sl_nodes s) y) key < 0) L)"
    then have "x \<in> set L" by (auto dest: set_takeWhileD)
    with assms show "0 < node_height (sl_nodes s) x" by (auto simp: skip_inv_def)
  qed
  with FindLessThan_loop_eq [OF prev'(1) [unfolded FindGreaterOrEqual_def] pos(2)] prev'(2)
  show ?thesis by (simp add: FindLessThan_def level_pred_def)
qed

end

section \<open>Inserting\<close>

text \<open>A chain of links into which a node is put.\<close>

lemma chain_insert:
  assumes chain: "map f (0 # A @ B) = map Some (A @ B) @ [None]" and dist: "distinct (0 # A @ B)"
    and pred: "f' (last (0 # A)) = Some n" "f' n = f (last (0 # A))"
    and same: "\<And>j. j \<in> set (0 # A @ B) \<Longrightarrow> j \<noteq> last (0 # A) \<Longrightarrow> f' j = f j"
  shows "map f' (0 # A @ n # B) = map Some (A @ n # B) @ [None]"
proof -
  define p where "p = last (0 # A)"
  obtain C where C: "0 # A = C @ [p]" unfolding p_def by (metis append_butlast_last_id list.distinct(1))
  then have len: "length C = length A" by (metis length_Cons length_append_singleton nat.inject)
  have whole: "0 # A @ B = C @ p # B" using C by (metis append_Cons append_assoc append_Nil)
  have "map f C @ f p # map f B = map Some A @ map Some B @ [None]"
    using chain unfolding whole by simp
  then have parts: "map f C = map Some A" "f p # map f B = map Some B @ [None]"
    using len by (auto simp: append_eq_append_conv)
  have "p \<notin> set C" "p \<notin> set B" using dist unfolding whole by auto
  then have "map f' C = map f C" "map f' B = map f B"
    using same unfolding whole p_def [symmetric] by (auto intro!: map_cong)
  moreover have "map f' (0 # A @ n # B) = map f' C @ f' p # f' n # map f' B"
  proof -
    have "0 # A @ n # B = C @ p # n # B" using C by (metis append_Cons append_assoc append_Nil)
    then show ?thesis by (simp only: map_append list.map)
  qed
  ultimately have "map f' (0 # A @ n # B) = map Some A @ Some n # map Some B @ [None]"
    using parts pred unfolding p_def [symmetric] by (simp only: append_Cons)
  then show ?thesis by (simp only: map_append list.map append_Cons append_assoc)
qed

definition next_of :: "'k skip_node list \<Rightarrow> nat \<Rightarrow> nat \<Rightarrow> nat option" where
  "next_of ns l x = sn_next (ns ! x) ! l"

lemma level_links_next_of: "level_links ns l ys \<longleftrightarrow> map (next_of ns l) (0 # ys) = map Some ys @ [None]"
  by (simp add: level_links_def next_of_def [abs_def])

text \<open>What the loop over the levels of the new node \<open>x\<close> changes, with \<open>p i\<close> the predecessor at level \<open>i\<close>.\<close>

lemma link_levels_links:
  assumes "x < length ns" "distinct is"
    "\<And>i. i \<in> set is \<Longrightarrow> i < length prev \<and> prev ! i = Some (p i) \<and> p i < length ns \<and> p i \<noteq> x \<and>
       i < node_height ns (p i) \<and> i < node_height ns x"
  shows "\<exists>ns'. link_levels x prev is ns = Some ns' \<and> length ns' = length ns \<and>
    (\<forall>j. node_key ns' j = node_key ns j \<and> node_height ns' j = node_height ns j) \<and>
    (\<forall>l j. next_of ns' l j =
      (if l \<in> set is \<and> j = x then next_of ns l (p l) else if l \<in> set is \<and> j = p l then Some x else next_of ns l j))"
  using assms
proof (induction "is" arbitrary: ns)
  case (Cons i "is")
  have i: "i < length prev" "prev ! i = Some (p i)" "p i < length ns" "p i \<noteq> x" "i < node_height ns (p i)" "i < node_height ns x"
    using Cons.prems(3) [of i] by auto
  define ns1 where "ns1 = ns[x := (ns ! x)\<lparr>sn_next := (sn_next (ns ! x))[i := next_of ns i (p i)]\<rparr>]"
  define ns2 where "ns2 = ns1[p i := (ns1 ! p i)\<lparr>sn_next := (sn_next (ns1 ! p i))[i := Some x]\<rparr>]"
  have len: "length ns2 = length ns" by (simp add: ns1_def ns2_def)
  have keys: "node_key ns2 j = node_key ns j" "node_height ns2 j = node_height ns j" for j
    using i(3) Cons.prems(1)
    by (auto simp: node_key_def node_height_def ns1_def ns2_def nth_list_update)
  have nexts: "next_of ns2 l j =
      (if l = i \<and> j = x then next_of ns i (p i) else if l = i \<and> j = p i then Some x else next_of ns l j)" for l j
    using i Cons.prems(1)
    by (auto simp: next_of_def ns1_def ns2_def nth_list_update node_height_def)
  have step: "link_levels x prev (i # is) ns = link_levels x prev is ns2"
    using i Cons.prems(1)
    by (simp add: node_Next_def node_SetNext_def node_at_def node_height_def ns1_def [symmetric] ns2_def [symmetric]
        next_of_def [symmetric]) (simp add: ns1_def ns2_def next_of_def)
  have "\<exists>ns'. link_levels x prev is ns2 = Some ns' \<and> length ns' = length ns2 \<and>
    (\<forall>j. node_key ns' j = node_key ns2 j \<and> node_height ns' j = node_height ns2 j) \<and>
    (\<forall>l j. next_of ns' l j =
      (if l \<in> set is \<and> j = x then next_of ns2 l (p l) else if l \<in> set is \<and> j = p l then Some x else next_of ns2 l j))"
    by (rule Cons.IH) (use Cons.prems len keys in auto)
  then obtain ns' where ns': "link_levels x prev is ns2 = Some ns'" "length ns' = length ns2"
    "\<And>j. node_key ns' j = node_key ns2 j" "\<And>j. node_height ns' j = node_height ns2 j"
    "\<And>l j. next_of ns' l j =
      (if l \<in> set is \<and> j = x then next_of ns2 l (p l) else if l \<in> set is \<and> j = p l then Some x else next_of ns2 l j)"
    by blast
  have "i \<notin> set is" using Cons.prems(2) by simp
  then have "next_of ns' l j = (if l \<in> set (i # is) \<and> j = x then next_of ns l (p l)
      else if l \<in> set (i # is) \<and> j = p l then Some x else next_of ns l j)" for l j
    unfolding ns'(5) nexts using Cons.prems(3) [of l] by auto
  then show ?case
    using ns' len keys unfolding step by (intro exI [of _ ns']) simp
qed simp

lemma last_not_0: "distinct (0 # A @ B) \<Longrightarrow> A \<noteq> [] \<Longrightarrow> last A \<noteq> (0 :: nat)"
  by (cases A rule: rev_cases) auto

lemma distinct_between: "distinct (z # xs @ ys) \<Longrightarrow> n \<notin> set (z # xs @ ys) \<Longrightarrow> distinct (z # xs @ n # ys)"
  by auto

lemma fill_prev_nth:
  "length (fill_prev a b prev) = length prev \<and>
   (\<forall>l < length prev. fill_prev a b prev ! l = (if a \<le> l \<and> l < b then Some 0 else prev ! l))"
proof (cases "a \<le> b")
  case True
  then show ?thesis
    by (induction rule: dec_induct) (auto simp: fill_prev_def nth_list_update less_Suc_eq)
qed (auto simp: fill_prev_def)

text \<open>An added node changes nothing for the others.\<close>

lemma old_nodes:
  assumes "x < length ns"
  shows "node_key (ns @ [node]) x = node_key ns x" "node_height (ns @ [node]) x = node_height ns x"
    "next_of (ns @ [node]) l x = next_of ns l x"
  using assms by (simp_all add: node_key_def node_height_def next_of_def nth_append)

lemma level_list_cong:
  "(\<And>x. x \<in> set L \<Longrightarrow> node_height ns' x = node_height ns x) \<Longrightarrow> level_list ns' l L = level_list ns l L"
  unfolding level_list_def by (rule filter_cong) auto

context comparator
begin

lemma skip_inv_dest:
  assumes "skip_inv cmp s L"
  shows "1 \<le> sl_max_height s" "sl_max_height s \<le> kMaxHeight" "set (0 # L) = {..<length (sl_nodes s)}" "distinct (0 # L)"
    "node_height (sl_nodes s) 0 = kMaxHeight"
    "\<And>x. x \<in> set L \<Longrightarrow> 1 \<le> node_height (sl_nodes s) x \<and> node_height (sl_nodes s) x \<le> sl_max_height s"
    "sorted_wrt (\<lambda>x y. cmp (node_key (sl_nodes s) x) (node_key (sl_nodes s) y) < 0) L"
    "\<And>l. l < kMaxHeight \<Longrightarrow> level_links (sl_nodes s) l (level_list (sl_nodes s) l L)"
  using assms by (auto simp: skip_inv_def)

text \<open>The predecessors at all levels of a new node, also above the old height of the list.\<close>

lemma skip_preds:
  fixes key
  assumes inv: "skip_inv cmp s L" and h: "h \<le> kMaxHeight"
  defines "P \<equiv> \<lambda>y. cmp (node_key (sl_nodes s) y) key < 0"
  obtains x prev where "FindGreaterOrEqual cmp s key (replicate kMaxHeight None) = Some (x, prev)"
    "\<And>l. l < h \<Longrightarrow>
       l < length (if h > sl_max_height s then fill_prev (sl_max_height s) h prev else prev) \<and>
       (if h > sl_max_height s then fill_prev (sl_max_height s) h prev else prev) ! l =
         Some (level_pred (sl_nodes s) P L l)"
proof -
  obtain prev where prev: "FindGreaterOrEqual cmp s key (replicate kMaxHeight None) = Some (hd_opt (dropWhile P L), prev)"
    "length prev = kMaxHeight"
    "\<And>l. l < kMaxHeight \<Longrightarrow> prev ! l =
      (if l < sl_max_height s then Some (level_pred (sl_nodes s) P L l) else replicate kMaxHeight None ! l)"
    by (rule skip_search [OF inv, of key "replicate kMaxHeight None"]) (simp add: P_def)
  have above: "level_pred (sl_nodes s) P L l = 0" if "sl_max_height s \<le> l" for l
  proof -
    have "level_list (sl_nodes s) l (takeWhile P L) = []"
      using that skip_inv_dest(6) [OF inv] by (auto simp: level_list_def filter_empty_conv dest!: set_takeWhileD)
        (meson not_less order_trans)
    then show ?thesis by (simp add: level_pred_def)
  qed
  show ?thesis
  proof (rule that [OF prev(1)])
    fix l assume "l < h"
    with h have "l < kMaxHeight" by simp
    with prev(2,3) above \<open>l < h\<close> fill_prev_nth [of "sl_max_height s" h prev]
    show "l < length (if h > sl_max_height s then fill_prev (sl_max_height s) h prev else prev) \<and>
       (if h > sl_max_height s then fill_prev (sl_max_height s) h prev else prev) ! l =
         Some (level_pred (sl_nodes s) P L l)"
      by auto
  qed
qed

lemma level_pred_in:
  assumes inv: "skip_inv cmp s L" and "l < kMaxHeight"
  shows "level_pred (sl_nodes s) P L l \<in> set (0 # level_list (sl_nodes s) l (takeWhile P L))"
    "level_pred (sl_nodes s) P L l < length (sl_nodes s)"
    "l < node_height (sl_nodes s) (level_pred (sl_nodes s) P L l)"
proof -
  show *: "level_pred (sl_nodes s) P L l \<in> set (0 # level_list (sl_nodes s) l (takeWhile P L))"
    unfolding level_pred_def by (rule last_in_set) simp
  then show "l < node_height (sl_nodes s) (level_pred (sl_nodes s) P L l)"
    using skip_inv_dest(5) [OF inv] assms(2) by (auto simp: level_list_def)
  from * have "level_pred (sl_nodes s) P L l \<in> set (0 # L)"
    by (auto simp: level_list_def dest: set_takeWhileD)
  then show "level_pred (sl_nodes s) P L l < length (sl_nodes s)"
    unfolding skip_inv_dest(3) [OF inv] by simp
qed

text \<open>The place of a new key: between the nodes before it and the others.\<close>

lemma skip_sorted_insert:
  assumes inv: "skip_inv cmp s L" and fresh: "\<And>x. x \<in> set L \<Longrightarrow> cmp (node_key (sl_nodes s) x) key \<noteq> 0"
  defines "P \<equiv> \<lambda>y. cmp (node_key (sl_nodes s) y) key < 0"
  assumes keys: "\<And>x. x \<in> set L \<Longrightarrow> k x = node_key (sl_nodes s) x" "k n = key"
  shows "sorted_wrt (\<lambda>x y. cmp (k x) (k y) < 0) (takeWhile P L @ n # dropWhile P L)"
proof -
  have sorted: "sorted_wrt (\<lambda>x y. cmp (k x) (k y) < 0) L"
    using skip_inv_dest(7) [OF inv] by (rule sorted_wrt_mono_rel [rotated]) (simp add: keys(1))
  then have parts: "sorted_wrt (\<lambda>x y. cmp (k x) (k y) < 0) (takeWhile P L @ dropWhile P L)" by simp
  have before: "cmp (k x) (k n) < 0" if "x \<in> set (takeWhile P L)" for x
    using that keys by (auto simp: P_def dest: set_takeWhileD)
  have after: "cmp (k n) (k x) < 0" if "x \<in> set (dropWhile P L)" for x
  proof (cases "dropWhile P L")
    case (Cons y ys)
    then have "\<not> P y" "y \<in> set L" by (auto simp: dropWhile_eq_Cons_conv) (metis in_set_conv_decomp)
    with fresh have y: "cmp (k n) (k y) < 0" using keys cmp_flip [of key "k y"] by (force simp: P_def)
    show ?thesis
    proof (cases "x = y")
      case False
      with that Cons parts have "cmp (k y) (k x) < 0" by (auto simp: sorted_wrt_append)
      with y show ?thesis by (rule cmp_less_trans)
    qed (use y in simp)
  next
    case Nil
    with that have "x \<in> set []" by (simp only:)
    then show ?thesis by simp
  qed
  show ?thesis using parts before after unfolding sorted_wrt_append by simp
qed

lemma skip_Insert:
  fixes key
  assumes inv: "skip_inv cmp s L" and fresh: "\<And>x. x \<in> set L \<Longrightarrow> cmp (node_key (sl_nodes s) x) key \<noteq> 0"
  defines "P \<equiv> \<lambda>y. cmp (node_key (sl_nodes s) y) key < 0" and "n \<equiv> length (sl_nodes s)"
  obtains s' where "SkipList_Insert cmp key s = Some s'" "skip_inv cmp s' (takeWhile P L @ n # dropWhile P L)"
    "\<And>x. x < n \<Longrightarrow> node_key (sl_nodes s') x = node_key (sl_nodes s) x" "node_key (sl_nodes s') n = key"
proof -
  note result = that
  obtain h rnd where h: "RandomHeight (sl_rnd s) = (h, rnd)" "1 \<le> h" "h \<le> kMaxHeight"
    using RandomHeight_range [of "sl_rnd s"] by (metis prod.collapse)
  define ns1 where "ns1 = sl_nodes s @ [\<lparr>sn_key = key, sn_next = replicate h None\<rparr>]"
  define p where "p l = level_pred (sl_nodes s) P L l" for l
  obtain x prev where found: "FindGreaterOrEqual cmp s key (replicate kMaxHeight None) = Some (x, prev)"
    and prev: "\<And>l. l < h \<Longrightarrow>
       l < length (if h > sl_max_height s then fill_prev (sl_max_height s) h prev else prev) \<and>
       (if h > sl_max_height s then fill_prev (sl_max_height s) h prev else prev) ! l = Some (p l)"
    using skip_preds [OF inv h(3)] unfolding P_def p_def by blast
  define prev1 where "prev1 = (if h > sl_max_height s then fill_prev (sl_max_height s) h prev else prev)"
  have old: "node_key ns1 y = node_key (sl_nodes s) y" "node_height ns1 y = node_height (sl_nodes s) y"
    "next_of ns1 l y = next_of (sl_nodes s) l y" if "y < n" for y l
    using that old_nodes [of y "sl_nodes s"] by (simp_all add: ns1_def n_def)
  have new: "node_key ns1 n = key" "node_height ns1 n = h" "length ns1 = Suc n"
    by (simp_all add: ns1_def n_def node_key_def node_height_def)
  have p: "p l < n" "p l \<in> set (0 # level_list (sl_nodes s) l (takeWhile P L))" "l < node_height ns1 (p l)" if "l < h" for l
    using level_pred_in [OF inv, of l P] that h(3) old by (auto simp: p_def n_def)
  have "\<exists>ns'. link_levels n prev1 [0..<h] ns1 = Some ns' \<and> length ns' = length ns1 \<and>
    (\<forall>j. node_key ns' j = node_key ns1 j \<and> node_height ns' j = node_height ns1 j) \<and>
    (\<forall>l j. next_of ns' l j =
      (if l \<in> set [0..<h] \<and> j = n then next_of ns1 l (p l) else if l \<in> set [0..<h] \<and> j = p l then Some n else next_of ns1 l j))"
    using p prev new unfolding prev1_def [symmetric] by (intro link_levels_links) (auto simp: less_SucI)
  then obtain ns' where linked: "link_levels n prev1 [0..<h] ns1 = Some ns'" and len': "length ns' = Suc n"
    and keys': "\<And>j. node_key ns' j = node_key ns1 j" "\<And>j. node_height ns' j = node_height ns1 j"
    and next': "\<And>l j. next_of ns' l j =
      (if l < h \<and> j = n then next_of ns1 l (p l) else if l < h \<and> j = p l then Some n else next_of ns1 l j)"
    using new(3) by auto
  define s' where "s' = s\<lparr>sl_nodes := ns', sl_max_height := (if h > sl_max_height s then h else sl_max_height s), sl_rnd := rnd\<rparr>"
  have nodes: "set (0 # L) = {..<n}" using skip_inv_dest(3) [OF inv] by (simp add: n_def)
  have parts: "takeWhile P L @ dropWhile P L = L" by simp
  have run: "SkipList_Insert cmp key s = Some s'"
    unfolding SkipList_Insert_def found h(1)
    using linked by (simp add: NewNode_def Let_def s'_def prev1_def ns1_def n_def)
  have set_eq: "set (takeWhile P L @ n # dropWhile P L) = insert n (set L)"
  proof -
    have "set L = set (takeWhile P L) \<union> set (dropWhile P L)" unfolding set_append [symmetric] parts ..
    then show ?thesis by simp
  qed
  have heights: "node_height ns' y = node_height (sl_nodes s) y" if "y \<in> set (0 # L)" for y
  proof -
    have "y < n" using that unfolding nodes by simp
    then show ?thesis by (simp add: keys' old(2))
  qed
  have inv': "skip_inv cmp s' (takeWhile P L @ n # dropWhile P L)"
    unfolding skip_inv_def
  proof (intro conjI ballI allI impI)
    show "1 \<le> sl_max_height s'" "sl_max_height s' \<le> kMaxHeight"
      using h(2,3) skip_inv_dest(1,2) [OF inv] by (auto simp: s'_def)
    have all: "insert 0 (set L) = {..<n}" using nodes by simp
    have "length (sl_nodes s') = Suc n" by (simp add: s'_def len')
    then show "set (0 # takeWhile P L @ n # dropWhile P L) = {..<length (sl_nodes s')}"
      by (simp only: list.set(2) set_eq insert_commute [of 0 n] all lessThan_Suc)
    have "n \<notin> set (0 # L)" unfolding nodes by simp
    then show "distinct (0 # takeWhile P L @ n # dropWhile P L)"
      using skip_inv_dest(4) [OF inv] by (intro distinct_between) (simp_all only: parts not_False_eq_True)
    show "node_height (sl_nodes s') 0 = kMaxHeight"
      using heights [of 0] skip_inv_dest(5) [OF inv] by (simp add: s'_def)
    fix y assume "y \<in> set (takeWhile P L @ n # dropWhile P L)"
    then show "1 \<le> node_height (sl_nodes s') y" "node_height (sl_nodes s') y \<le> sl_max_height s'"
      using heights [of y] skip_inv_dest(6) [OF inv, of y] h(2) new(2) unfolding set_eq
      by (auto simp: s'_def keys')
  next
    show "sorted_wrt (\<lambda>x y. cmp (node_key (sl_nodes s') x) (node_key (sl_nodes s') y) < 0)
        (takeWhile P L @ n # dropWhile P L)"
      unfolding P_def
      by (rule skip_sorted_insert [OF inv fresh]) (use nodes old(1) new(1) in \<open>auto simp: s'_def keys'\<close>)
  next
    fix l assume l: "l < kMaxHeight"
    define A where "A = level_list (sl_nodes s) l (takeWhile P L)"
    define B where "B = level_list (sl_nodes s) l (dropWhile P L)"
    show "level_links (sl_nodes s') l (level_list (sl_nodes s') l (takeWhile P L @ n # dropWhile P L))"
    proof -
      have small: "y < n" if "y \<in> set (0 # A @ B)" for y
      proof -
        have "y \<in> set (0 # takeWhile P L @ dropWhile P L)"
          using that by (auto simp only: A_def B_def level_list_def set_append set_filter list.set(2))
        then show ?thesis unfolding parts nodes by simp
      qed
      have whole: "level_list (sl_nodes s) l L = A @ B" by (metis A_def B_def level_list_append parts)
      have "level_list ns' l (takeWhile P L) = A"
        unfolding A_def using heights by (intro level_list_cong) (auto dest: set_takeWhileD)
      moreover have "level_list ns' l (dropWhile P L) = B"
        unfolding B_def using heights by (intro level_list_cong) (auto dest: set_dropWhileD)
      ultimately have new_level: "level_list ns' l (takeWhile P L @ n # dropWhile P L) = A @ (if l < h then [n] else []) @ B"
        using new(2) by (simp add: level_list_def keys')
      have chain: "map (next_of (sl_nodes s) l) (0 # A @ B) = map Some (A @ B) @ [None]"
        using skip_inv_dest(8) [OF inv l] by (simp only: whole level_links_next_of)
      have dist: "distinct (0 # A @ B)"
        using skip_inv_dest(4) [OF inv] unfolding whole [symmetric] by (simp add: level_list_def)
      have last: "last (0 # A) = p l" by (simp add: p_def level_pred_def A_def)
      show ?thesis
      proof (cases "l < h")
        case True
        then have "p l \<noteq> n" "p l < n" using p(1) [of l] by simp_all
        have "map (next_of ns' l) (0 # A @ n # B) = map Some (A @ n # B) @ [None]"
        proof (rule chain_insert [OF chain dist])
          show "next_of ns' l (last (0 # A)) = Some n" unfolding last next' using True \<open>p l \<noteq> n\<close> by simp
          show "next_of ns' l n = next_of (sl_nodes s) l (last (0 # A))"
            unfolding last next' using True \<open>p l < n\<close> by (simp add: old(3))
          fix j assume j: "j \<in> set (0 # A @ B)" "j \<noteq> last (0 # A)"
          then have "j < n" by (intro small)
          with j(2) show "next_of ns' l j = next_of (sl_nodes s) l j" unfolding last next' by (simp add: old(3))
        qed
        with new_level True show ?thesis by (simp add: s'_def level_links_next_of)
      next
        case False
        have "map (next_of ns' l) (0 # A @ B) = map (next_of (sl_nodes s) l) (0 # A @ B)"
          by (rule map_cong [OF refl]) (use False small in \<open>simp add: next' old(3)\<close>)
        moreover have "sl_nodes s' = ns'" by (simp add: s'_def)
        ultimately show ?thesis using new_level False chain by (simp only: level_links_next_of if_False append_Nil)
      qed
    qed
  qed
  show ?thesis
    by (rule result [OF run inv']) (simp_all add: s'_def keys' old new)
qed

lemma skip_new: "skip_inv cmp (SkipList_new any_key) []"
proof -
  have "level_links (sl_nodes (SkipList_new any_key)) l []" if "l < kMaxHeight" for l
    using that by (simp add: level_links_def SkipList_new_def NewNode_def)
  then show ?thesis
    by (auto simp: skip_inv_def level_list_def) (simp_all add: SkipList_new_def NewNode_def node_height_def kMaxHeight_def)
qed

section \<open>Lookup and iterators\<close>

lemma skip_in: "skip_inv cmp s L \<Longrightarrow> x < length (sl_nodes s) \<longleftrightarrow> x = 0 \<or> x \<in> set L"
  using skip_inv_dest(3) [of s L] by (metis lessThan_iff list.set_intros(1) list.set_intros(2) set_ConsD)

lemma skip_node_at: "skip_inv cmp s L \<Longrightarrow> x \<in> set L \<Longrightarrow> node_at (sl_nodes s) x = Some (sl_nodes s ! x)"
  by (simp add: node_at_def skip_in)

lemma skip_key: "skip_inv cmp s L \<Longrightarrow> x \<in> set L \<Longrightarrow> Iter_key s (Some x) = Some (node_key (sl_nodes s) x)"
  by (simp add: Iter_key_def skip_node_at node_key_def)

lemma level_list_0: "skip_inv cmp s L \<Longrightarrow> set A \<subseteq> set L \<Longrightarrow> level_list (sl_nodes s) 0 A = A"
  unfolding level_list_def by (rule filter_True) (metis skip_inv_dest(6) subsetD less_le_trans less_numeral_extra(1) One_nat_def Suc_le_eq)

lemma skip_link:
  assumes inv: "skip_inv cmp s (A @ B)"
  shows "node_Next (sl_nodes s) (last (0 # A)) 0 = Some (hd_opt B)"
proof -
  have "0 < kMaxHeight" by (simp add: kMaxHeight_def)
  with inv have "sn_next (sl_nodes s ! last (0 # A)) ! 0 = hd_opt B"
    using level_links_next [of "sl_nodes s" 0 A B] skip_inv_dest(8) [OF inv, of 0] level_list_0 [OF inv, of "A @ B"] by simp
  moreover have "last (0 # A) \<in> set (0 # A @ B)" by simp
  moreover have "0 < node_height (sl_nodes s) (last (0 # A))"
    using skip_inv_dest(5,6) [OF inv] \<open>0 < kMaxHeight\<close> by (cases A rule: rev_cases) force+
  ultimately show ?thesis
    by (auto simp: node_Next_def node_at_def node_height_def skip_in [OF inv])
qed

lemma skip_first: "skip_inv cmp s L \<Longrightarrow> Iter_SeekToFirst s = Some (hd_opt L)"
  using skip_link [of s "[]" L] by (simp add: Iter_SeekToFirst_def)

lemma skip_next: "skip_inv cmp s (A @ x # B) \<Longrightarrow> Iter_Next s (Some x) = Some (hd_opt B)"
  using skip_link [of s "A @ [x]" B] by (simp add: Iter_Next_def)

lemma skip_Contains:
  assumes inv: "skip_inv cmp s L"
  shows "SkipList_Contains cmp s key = Some (\<exists>x \<in> set L. cmp (node_key (sl_nodes s) x) key = 0)"
proof -
  define P where "P = (\<lambda>y. cmp (node_key (sl_nodes s) y) key < 0)"
  obtain prev where found: "FindGreaterOrEqual cmp s key [] = Some (hd_opt (dropWhile P L), prev)"
    using skip_search [OF inv, of key "[]"] unfolding P_def by blast
  show ?thesis
  proof (cases "dropWhile P L")
    case Nil
    then have "\<forall>x \<in> set L. P x" by simp
    then have "\<not> (\<exists>x \<in> set L. cmp (node_key (sl_nodes s) x) key = 0)" by (force simp: P_def)
    with found show ?thesis unfolding Nil by (simp add: SkipList_Contains_def)
  next
    case (Cons y ys)
    have L: "L = takeWhile P L @ y # ys" using Cons takeWhile_dropWhile_id [of P L] by simp
    then have "y \<in> set L" by (metis in_set_conv_decomp)
    have "\<not> P y" using Cons by (simp add: dropWhile_eq_Cons_conv)
    have later: "0 < cmp (node_key (sl_nodes s) x) key" if "x \<in> set ys" for x
    proof -
      have "sorted_wrt (\<lambda>x y. cmp (node_key (sl_nodes s) x) (node_key (sl_nodes s) y) < 0) (takeWhile P L @ y # ys)"
        using skip_inv_dest(7) [OF inv] L by simp
      then have "cmp (node_key (sl_nodes s) y) (node_key (sl_nodes s) x) < 0" using that by (simp add: sorted_wrt_append)
      moreover have "cmp key (node_key (sl_nodes s) y) \<le> 0" using \<open>\<not> P y\<close> cmp_flip by (auto simp: P_def not_less)
      ultimately have "cmp key (node_key (sl_nodes s) x) < 0" by (metis cmp_le_less_trans)
      then show ?thesis by (simp add: cmp_flip)
    qed
    have earlier: "P x" if "x \<in> set (takeWhile P L)" for x using that by (auto dest: set_takeWhileD)
    have "set L = set (takeWhile P L) \<union> insert y (set ys)" by (subst L) simp
    then have "(\<exists>x \<in> set L. cmp (node_key (sl_nodes s) x) key = 0) \<longleftrightarrow> cmp (node_key (sl_nodes s) y) key = 0"
      using later earlier by (fastforce simp: P_def)
    with found Cons \<open>y \<in> set L\<close> show ?thesis
      by (simp add: SkipList_Contains_def skip_node_at [OF inv] node_key_def cmp_eq_flip [of key])
  qed
qed

lemma skip_FindLast:
  assumes inv: "skip_inv cmp s L"
  shows "FindLast s = Some (last (0 # L))"
proof -
  have "\<exists>prev'. FindGreaterOrEqual_loop (\<lambda>_ _. - 1) (sl_nodes s) key (search_fuel s) (last (0 # [])) (sl_max_height s - 1)
        (replicate kMaxHeight None) =
      Some (hd_opt (dropWhile (\<lambda>y. (- 1 :: int) < 0) L), prev') \<and> length prev' = length (replicate kMaxHeight (None :: nat option)) \<and>
      (\<forall>l < length (replicate kMaxHeight (None :: nat option)). prev' ! l = (if l \<le> sl_max_height s - 1
        then Some (level_pred (sl_nodes s) (\<lambda>y. (- 1 :: int) < 0) L l) else replicate kMaxHeight None ! l))" for key
    using inv skip_fuel [OF inv]
    by (intro FindGreaterOrEqual_loop_finds [where B = L]) (auto simp: skip_inv_def)
  then obtain prev' where found: "FindGreaterOrEqual_loop (\<lambda>_ _. - 1) (sl_nodes s) undefined (search_fuel s) (last (0 # []))
        (sl_max_height s - 1) (replicate kMaxHeight None) = Some (hd_opt (dropWhile (\<lambda>y. (- 1 :: int) < 0) L), prev')"
      "\<forall>l < length (replicate kMaxHeight (None :: nat option)). prev' ! l = (if l \<le> sl_max_height s - 1
        then Some (level_pred (sl_nodes s) (\<lambda>y. (- 1 :: int) < 0) L l) else replicate kMaxHeight None ! l)"
    by blast
  have prev': "FindGreaterOrEqual_loop (\<lambda>_ _. - 1) (sl_nodes s) undefined (search_fuel s) 0
        (sl_max_height s - 1) (replicate kMaxHeight None) = Some (hd_opt (dropWhile (\<lambda>y. (- 1 :: int) < 0) L), prev')"
      "prev' ! 0 = Some (level_pred (sl_nodes s) (\<lambda>y. True) L 0)"
    using found by (simp_all add: kMaxHeight_def)
  have "FindLessThan_loop (\<lambda>_ _. - 1) (sl_nodes s) undefined (search_fuel s) 0 (sl_max_height s - 1) = prev' ! 0"
    by (rule FindLessThan_loop_eq [OF prev'(1)]) (use skip_fuel(2) [OF inv] in simp)
  moreover have "takeWhile (\<lambda>y. True) L = L" by (simp add: takeWhile_eq_all_conv)
  ultimately show ?thesis
    using prev'(2) level_list_0 [OF inv, of L] by (simp add: FindLast_def FindLast_loop_eq level_pred_def)
qed

lemma skip_last: "skip_inv cmp s L \<Longrightarrow> Iter_SeekToLast s = Some (if L = [] then None else Some (last L))"
  using skip_inv_dest(4) [of s L] last_not_0 [of L "[]"]
  by (cases "L = []") (simp_all add: Iter_SeekToLast_def skip_FindLast)

lemma skip_prev:
  assumes inv: "skip_inv cmp s (A @ x # B)"
  shows "Iter_Prev cmp s (Some x) = Some (if A = [] then None else Some (last A))"
proof -
  define P where "P = (\<lambda>y. cmp (node_key (sl_nodes s) y) (node_key (sl_nodes s) x) < 0)"
  have "\<forall>y \<in> set A. P y" using skip_inv_dest(7) [OF inv] by (simp add: P_def sorted_wrt_append)
  moreover have "\<not> P x" using cmp_refl by (simp add: P_def)
  ultimately have "takeWhile P (A @ x # B) = A" by (simp add: takeWhile_append)
  then have "FindLessThan cmp s (node_key (sl_nodes s) x) = Some (last (0 # A))"
    using skip_FindLessThan [OF inv, of "node_key (sl_nodes s) x"] unfolding P_def by simp
  moreover have "x \<in> set (A @ x # B)" "A \<noteq> [] \<Longrightarrow> last A \<noteq> 0"
    using skip_inv_dest(4) [OF inv] last_not_0 [of A "x # B"] by simp_all
  ultimately show ?thesis by (cases "A = []") (simp_all add: Iter_Prev_def skip_node_at [OF inv] node_key_def)
qed

text \<open>The nodes of the list after an insertion: the key is added at its place.\<close>

lemma skip_Insert_keys:
  fixes key
  assumes inv: "skip_inv cmp s L" and fresh: "\<And>k. k \<in> set (skip_keys s L) \<Longrightarrow> cmp k key \<noteq> 0"
  obtains s' L' where "SkipList_Insert cmp key s = Some s'" "skip_inv cmp s' L'"
    "skip_keys s' L' = takeWhile (\<lambda>k. cmp k key < 0) (skip_keys s L) @ key # dropWhile (\<lambda>k. cmp k key < 0) (skip_keys s L)"
proof -
  define P where "P = (\<lambda>y. cmp (node_key (sl_nodes s) y) key < 0)"
  have fresh': "cmp (node_key (sl_nodes s) x) key \<noteq> 0" if "x \<in> set L" for x
    using fresh that by (auto simp: skip_keys_def)
  obtain s' where s': "SkipList_Insert cmp key s = Some s'"
    "skip_inv cmp s' (takeWhile P L @ length (sl_nodes s) # dropWhile P L)"
    "\<And>x. x < length (sl_nodes s) \<Longrightarrow> node_key (sl_nodes s') x = node_key (sl_nodes s) x"
    "node_key (sl_nodes s') (length (sl_nodes s)) = key"
    using skip_Insert [OF inv fresh'] unfolding P_def by metis
  have same: "map (node_key (sl_nodes s')) A = map (node_key (sl_nodes s)) A" if "set A \<subseteq> set L" for A
    using that s'(3) skip_in [OF inv] by (intro map_cong) auto
  have "set (takeWhile P L) \<subseteq> set L" "set (dropWhile P L) \<subseteq> set L"
    by (auto dest: set_takeWhileD set_dropWhileD)
  moreover have "takeWhile (\<lambda>k. cmp k key < 0) (skip_keys s L) = map (node_key (sl_nodes s)) (takeWhile P L)"
    "dropWhile (\<lambda>k. cmp k key < 0) (skip_keys s L) = map (node_key (sl_nodes s)) (dropWhile P L)"
    by (simp_all add: skip_keys_def takeWhile_map dropWhile_map P_def o_def)
  ultimately show ?thesis
    using that [OF s'(1,2)] s'(4) same by (simp add: skip_keys_def [of s'])
qed

end

section \<open>The list as its clients see it\<close>

text \<open>
  Inserting keys one after the other, and walking through the list from its first node. The abstract list is sorted;
  a key goes behind the smaller ones.
\<close>

fun InsertAll :: "('k \<Rightarrow> 'k \<Rightarrow> int) \<Rightarrow> 'k list \<Rightarrow> 'k SkipList \<Rightarrow> 'k SkipList option" where
  "InsertAll cmp [] s = Some s"
| "InsertAll cmp (key # keys) s = do { s \<leftarrow> SkipList_Insert cmp key s; InsertAll cmp keys s }"

fun WalkFrom :: "nat \<Rightarrow> 'k SkipList \<Rightarrow> nat option \<Rightarrow> 'k list option" where
  "WalkFrom fuel s None = Some []"
| "WalkFrom 0 s (Some x) = None"
| "WalkFrom (Suc fuel) s (Some x) =
     do { key \<leftarrow> Iter_key s (Some x); it \<leftarrow> Iter_Next s (Some x); keys \<leftarrow> WalkFrom fuel s it; Some (key # keys) }"

definition Walk :: "'k SkipList \<Rightarrow> 'k list option" where
  "Walk s = do { it \<leftarrow> Iter_SeekToFirst s; WalkFrom (length (sl_nodes s)) s it }"

definition sorted_insert :: "('k \<Rightarrow> 'k \<Rightarrow> int) \<Rightarrow> 'k \<Rightarrow> 'k list \<Rightarrow> 'k list" where
  "sorted_insert cmp key keys =
     takeWhile (\<lambda>k. cmp k key < 0) keys @ key # dropWhile (\<lambda>k. cmp k key < 0) keys"

context comparator
begin

lemma WalkFrom_keys:
  "skip_inv cmp s (A @ B) \<Longrightarrow> length B \<le> fuel \<Longrightarrow> WalkFrom fuel s (hd_opt B) = Some (skip_keys s B)"
proof (induction B arbitrary: A fuel)
  case (Cons x B)
  then obtain fuel' where "fuel = Suc fuel'" "length B \<le> fuel'" by (cases fuel) auto
  with Cons.IH [of "A @ [x]" fuel'] Cons.prems(1) skip_next [OF Cons.prems(1)] skip_key [OF Cons.prems(1), of x]
  show ?case by (simp add: skip_keys_def)
qed (simp add: skip_keys_def)

lemma skip_Walk:
  assumes inv: "skip_inv cmp s L"
  shows "Walk s = Some (skip_keys s L)"
proof -
  have "length L \<le> length (sl_nodes s)"
    using skip_inv_dest(3,4) [OF inv] distinct_card [of "0 # L"] by simp
  with inv show ?thesis
    using WalkFrom_keys [of s "[]" L "length (sl_nodes s)"] skip_first [OF inv] by (simp add: Walk_def)
qed

lemma InsertAll_keys:
  "skip_inv cmp s L \<Longrightarrow> pairwise (\<lambda>j k. cmp j k \<noteq> 0) (set (skip_keys s L) \<union> set keys) \<Longrightarrow>
   distinct keys \<Longrightarrow> set keys \<inter> set (skip_keys s L) = {} \<Longrightarrow>
   \<exists>s' L'. InsertAll cmp keys s = Some s' \<and> skip_inv cmp s' L' \<and>
     skip_keys s' L' = fold (sorted_insert cmp) keys (skip_keys s L)"
proof (induction keys arbitrary: s L)
  case (Cons key keys)
  have fresh: "cmp k key \<noteq> 0" if "k \<in> set (skip_keys s L)" for k
    using Cons.prems that by (auto simp: pairwise_def)
  obtain s' L' where s': "SkipList_Insert cmp key s = Some s'" "skip_inv cmp s' L'"
    "skip_keys s' L' = sorted_insert cmp key (skip_keys s L)"
    using skip_Insert_keys [OF Cons.prems(1) fresh] unfolding sorted_insert_def by metis
  have "set (sorted_insert cmp key (skip_keys s L)) = insert key (set (skip_keys s L))"
    unfolding sorted_insert_def
    by (metis Un_insert_right list.simps(15) set_append takeWhile_dropWhile_id)
  with Cons.IH [OF s'(2)] Cons.prems(2-4) s'(1,3) show ?case by auto
qed auto

lemma sorted_insert_set: "set (fold (sorted_insert cmp) keys ks) = set keys \<union> set ks"
proof (induction keys arbitrary: ks)
  case (Cons key keys)
  have "set (sorted_insert cmp key ks) = insert key (set ks)"
    unfolding sorted_insert_def by (metis Un_insert_right list.simps(15) set_append takeWhile_dropWhile_id)
  with Cons show ?case by simp
qed simp

lemma InsertAll_new:
  assumes "sorted_wrt (\<lambda>j k. cmp j k \<noteq> 0) keys"
  obtains s L where "InsertAll cmp keys (SkipList_new any_key) = Some s" "skip_inv cmp s L"
    "set (skip_keys s L) = set keys" "sorted_wrt (\<lambda>j k. cmp j k < 0) (skip_keys s L)"
proof -
  have "pairwise (\<lambda>j k. cmp j k \<noteq> 0) (set keys)" "distinct keys"
    using assms cmp_refl by (induction keys) (auto simp: pairwise_insert cmp_eq_flip)
  then obtain s L where s: "InsertAll cmp keys (SkipList_new any_key) = Some s" "skip_inv cmp s L"
    "skip_keys s L = fold (sorted_insert cmp) keys []"
    using InsertAll_keys [OF skip_new [of any_key], of keys] by (fastforce simp: skip_keys_def)
  have "sorted_wrt (\<lambda>j k. cmp j k < 0) (skip_keys s L)"
    using skip_inv_dest(7) [OF s(2)] by (simp add: skip_keys_def sorted_wrt_map)
  with s show ?thesis by (intro that [OF s(1,2)]) (simp_all add: sorted_insert_set)
qed

end

text \<open>
  C6: inserting keys into a new skip list, in any order and with the heights the random numbers give, never gets stuck;
  walking through the list then gives the keys in order, and every lookup its right answer.
\<close>

theorem skiplist_refines_sorted_list:
  assumes "comparator cmp" "sorted_wrt (\<lambda>j k. cmp j k \<noteq> 0) keys"
  shows "\<exists>s ks. InsertAll cmp keys (SkipList_new any_key) = Some s \<and> Walk s = Some ks \<and>
    sorted_wrt (\<lambda>j k. cmp j k < 0) ks \<and> set ks = set keys \<and>
    (\<forall>key. SkipList_Contains cmp s key = Some (\<exists>k \<in> set keys. cmp k key = 0))"
proof -
  obtain s L where s: "InsertAll cmp keys (SkipList_new any_key) = Some s" "skip_inv cmp s L"
    "set (skip_keys s L) = set keys" "sorted_wrt (\<lambda>j k. cmp j k < 0) (skip_keys s L)"
    by (rule comparator.InsertAll_new [OF assms])
  have "SkipList_Contains cmp s key = Some (\<exists>k \<in> set keys. cmp k key = 0)" for key
    unfolding s(3) [symmetric] comparator.skip_Contains [OF assms(1) s(2)] by (simp add: skip_keys_def)
  with s comparator.skip_Walk [OF assms(1) s(2)] show ?thesis
    by (intro exI [of _ s] exI [of _ "skip_keys s L"] conjI allI)
qed

theorem skiplist_refines_sorted_list_witness:
  "\<exists>s ks. InsertAll Bytewise_Compare [[2], [1, 5], [3 :: byte], [1]] (SkipList_new []) = Some s \<and> Walk s = Some ks \<and>
    sorted_wrt (\<lambda>j k. Bytewise_Compare j k < 0) ks \<and> set ks = set [[2], [1, 5], [3 :: byte], [1]] \<and>
    (\<forall>key. SkipList_Contains Bytewise_Compare s key =
      Some (\<exists>k \<in> set [[2], [1, 5], [3 :: byte], [1]]. Bytewise_Compare k key = 0))"
  by (rule skiplist_refines_sorted_list [OF bytewise.comparator_axioms]) (simp add: Bytewise_Compare_def Slice_compare_0_iff)

end
