(* ===== verification/Ldb_Memtable.thy ===== *)
theory Ldb_Memtable
  imports Ldb_Format Ldb_Arena Ldb_Levels
begin

text \<open>
  leveldb, \<^verbatim>\<open>db/memtable.h\<close> and \<^verbatim>\<open>db/memtable.cc\<close>: the memory table, a skip list of encoded entries. A pointer to
  an entry is the list of the bytes from there to the end of its piece of the arena. The abstract view is the list of
  the entries that were added; a lookup gives the newest one that the snapshot sees.
\<close>
unbundle bit_operations_syntax

section \<open>Reading entries\<close>

text \<open>\<^verbatim>\<open>GetVarint32Ptr (p, p + 5, &len)\<close>: the number and the rest of the bytes.\<close>

definition varint_at :: "byte list \<Rightarrow> (u32 \<times> byte list) option" where
  "varint_at p =
     (case GetVarint32Ptr (take 5 p) of
        None \<Rightarrow> None
      | Some (len, q) \<Rightarrow> Some (len, drop (length (take 5 p) - length q) p))"

text \<open>The function of \<^verbatim>\<open>memtable.cc\<close>, which assumes that its data are not corrupted; on others it gives the empty string.\<close>

definition mem_GetLengthPrefixedSlice :: "byte list \<Rightarrow> slice" where
  "mem_GetLengthPrefixedSlice data = (case varint_at data of None \<Rightarrow> [] | Some (len, p) \<Rightarrow> take (unat len) p)"

definition MemTable_KeyComparator :: "(slice \<Rightarrow> slice \<Rightarrow> int) \<Rightarrow> byte list \<Rightarrow> byte list \<Rightarrow> int" where
  "MemTable_KeyComparator user_compare aptr bptr =
     (let a = mem_GetLengthPrefixedSlice aptr; b = mem_GetLengthPrefixedSlice bptr in Internal_Compare user_compare a b)"

definition mem_EncodeKey :: "slice \<Rightarrow> byte list" where
  "mem_EncodeKey target = PutVarint32 [] (of_nat (length target)) @ target"

section \<open>The table\<close>

record MemTable =
  mt_refs :: int
  mt_arena :: Arena
  mt_table :: "byte list SkipList"

text \<open>A node is the pointer to its key and one link for each of its levels.\<close>

definition node_size :: "nat \<Rightarrow> nat" where
  "node_size height = 16 + 8 * (height - 1)"

definition MemTable_new :: "(Arena \<Rightarrow> nat \<Rightarrow> addr) \<Rightarrow> MemTable" where
  "MemTable_new new_char =
     \<lparr>mt_refs = 0, mt_arena = snd (Arena_AllocateAligned new_char (node_size kMaxHeight) Arena_new),
      mt_table = SkipList_new []\<rparr>"

definition MemTable_Ref :: "MemTable \<Rightarrow> MemTable" where
  "MemTable_Ref m = m\<lparr>mt_refs := mt_refs m + 1\<rparr>"

text \<open>The table is gone when no reference is left.\<close>

definition MemTable_Unref :: "MemTable \<Rightarrow> MemTable option" where
  "MemTable_Unref m = (let m = m\<lparr>mt_refs := mt_refs m - 1\<rparr> in if mt_refs m \<le> 0 then None else Some m)"

definition MemTable_ApproximateMemoryUsage :: "MemTable \<Rightarrow> nat" where
  "MemTable_ApproximateMemoryUsage m = Arena_MemoryUsage (mt_arena m)"

definition mem_entry :: "SequenceNumber \<Rightarrow> ValueType \<Rightarrow> slice \<Rightarrow> slice \<Rightarrow> byte list" where
  "mem_entry s type key val =
     EncodeVarint32 (of_nat (length key + 8)) @ key @ EncodeFixed64 (push_bit 8 s OR ucast type) @
     EncodeVarint32 (of_nat (length val)) @ val"

text \<open>The entry is put into its piece of the arena, then a node of the skip list is allocated and linked.\<close>

definition MemTable_Add ::
  "(slice \<Rightarrow> slice \<Rightarrow> int) \<Rightarrow> (Arena \<Rightarrow> nat \<Rightarrow> addr) \<Rightarrow> SequenceNumber \<Rightarrow> ValueType \<Rightarrow> slice \<Rightarrow> slice \<Rightarrow>
     MemTable \<Rightarrow> MemTable option" where
  "MemTable_Add user_compare new_char s type key val m =
     (let internal_key_size = length key + 8; val_size = length val;
          encoded_len = VarintLength (of_nat internal_key_size) + internal_key_size +
            VarintLength (of_nat val_size) + val_size;
          (buf, arena) = Arena_Allocate new_char encoded_len (mt_arena m);
          (height, rnd) = RandomHeight (sl_rnd (mt_table m));
          (x, arena) = Arena_AllocateAligned new_char (node_size height) arena in
      do {
        table \<leftarrow> SkipList_Insert (MemTable_KeyComparator user_compare) (mem_entry s type key val) (mt_table m);
        Some (m\<lparr>mt_arena := arena, mt_table := table\<rparr>)
      })"

text \<open>The result of \<^verbatim>\<open>Get\<close>, and what it leaves in \<^verbatim>\<open>*value\<close> and \<^verbatim>\<open>*s\<close>.\<close>

definition MemTable_Get ::
  "(slice \<Rightarrow> slice \<Rightarrow> int) \<Rightarrow> LookupKey \<Rightarrow> slice \<Rightarrow> status \<Rightarrow> MemTable \<Rightarrow> (bool \<times> slice \<times> status) option" where
  "MemTable_Get user_compare key val s m =
     (let memkey = LookupKey_memtable_key key in
      do {
        iter \<leftarrow> Iter_Seek (MemTable_KeyComparator user_compare) (mt_table m) memkey;
        (case iter of
           None \<Rightarrow> Some (False, val, s)
         | Some n \<Rightarrow>
             do {
               entry \<leftarrow> Iter_key (mt_table m) (Some n);
               (key_length, key_ptr) \<leftarrow> varint_at entry;
               if user_compare (take (unat (key_length - 8)) key_ptr) (LookupKey_user_key key) = 0 then
                 let tag = DecodeFixed64 (drop (unat (key_length - 8)) key_ptr); type = ucast (tag AND 0xff) in
                 if type = kTypeValue then
                   Some (True, mem_GetLengthPrefixedSlice (drop (unat key_length) key_ptr), s)
                 else if type = kTypeDeletion then Some (True, val, Status_new kNotFound [] [])
                 else Some (False, val, s)
               else Some (False, val, s)
             })
      })"

text \<open>The iterator of the table is that of the skip list; a key or a value is read from the entry.\<close>

definition MemTableIterator_Seek :: "(slice \<Rightarrow> slice \<Rightarrow> int) \<Rightarrow> slice \<Rightarrow> MemTable \<Rightarrow> nat option option" where
  "MemTableIterator_Seek user_compare k m = Iter_Seek (MemTable_KeyComparator user_compare) (mt_table m) (mem_EncodeKey k)"

definition MemTableIterator_key :: "MemTable \<Rightarrow> nat option \<Rightarrow> slice option" where
  "MemTableIterator_key m it = do { entry \<leftarrow> Iter_key (mt_table m) it; Some (mem_GetLengthPrefixedSlice entry) }"

definition MemTableIterator_value :: "MemTable \<Rightarrow> nat option \<Rightarrow> slice option" where
  "MemTableIterator_value m it =
     do { entry \<leftarrow> Iter_key (mt_table m) it;
          (len, p) \<leftarrow> varint_at entry;
          Some (mem_GetLengthPrefixedSlice (drop (unat len) p)) }"

section \<open>The entries\<close>

lemma varint_at_base128:
  assumes "n < 2 ^ 32"
  shows "varint_at (base128 n @ rest) = Some (of_nat n, rest)"
proof -
  have len: "length (base128 n) \<le> 5" using assms by (intro length_base128) simp_all
  then have "take 5 (base128 n @ rest) = base128 n @ take (5 - length (base128 n)) rest" by simp
  with len GetVarint32Ptr_base128 [OF assms] show ?thesis by (simp add: varint_at_def)
qed

lemma mem_GetLengthPrefixedSlice_prefixed:
  "length v < 2 ^ 32 \<Longrightarrow> mem_GetLengthPrefixedSlice (base128 (length v) @ v @ rest) = v"
  by (simp add: mem_GetLengthPrefixedSlice_def varint_at_base128 unat_of_nat)

lemma mem_entry_parts:
  assumes "length key + 8 < 2 ^ 32" "length val < 2 ^ 32"
  shows "mem_entry s t key val = base128 (length key + 8) @ InternalKey_new key s t @ base128 (length val) @ val"
  using assms
  by (simp add: mem_entry_def InternalKey_new_def AppendInternalKey_def PutFixed64_def PackSequenceAndType_def
      EncodeVarint32_base128 unat_word_ariths unat_of_nat)

text \<open>What was added: sequence number, type, key and value.\<close>

type_synonym mem_op = "SequenceNumber \<times> ValueType \<times> slice \<times> slice"

fun op_entry :: "mem_op \<Rightarrow> byte list" where
  "op_entry (s, t, key, val) = mem_entry s t key val"

fun op_ok :: "mem_op \<Rightarrow> bool" where
  "op_ok (s, t, key, val) \<longleftrightarrow> s \<le> kMaxSequenceNumber \<and> t \<le> kTypeValue \<and> length key + 8 < 2 ^ 32 \<and> length val < 2 ^ 32"

text \<open>The specification of a lookup: the last operation on the key that the snapshot \<open>s\<close> sees.\<close>

definition sees :: "(slice \<Rightarrow> slice \<Rightarrow> int) \<Rightarrow> slice \<Rightarrow> SequenceNumber \<Rightarrow> mem_op \<Rightarrow> bool" where
  "sees ucmp key s e \<longleftrightarrow> ucmp (fst (snd (snd e))) key = 0 \<and> fst e \<le> s"

definition last_op :: "(slice \<Rightarrow> slice \<Rightarrow> int) \<Rightarrow> slice \<Rightarrow> SequenceNumber \<Rightarrow> mem_op list \<Rightarrow> mem_op option" where
  "last_op ucmp key s es = (case filter (sees ucmp key s) es of [] \<Rightarrow> None | f # fs \<Rightarrow> Some (last (f # fs)))"

definition lookup_result :: "mem_op option \<Rightarrow> slice \<Rightarrow> status \<Rightarrow> bool \<times> slice \<times> status" where
  "lookup_result found val s =
     (case found of
        None \<Rightarrow> (False, val, s)
      | Some (_, t, _, v) \<Rightarrow> if t = kTypeValue then (True, v, s) else (True, val, Status_new kNotFound [] []))"

lemma mem_key_of_entry: "op_ok (s, t, key, val) \<Longrightarrow> mem_GetLengthPrefixedSlice (mem_entry s t key val) = InternalKey_new key s t"
  using mem_GetLengthPrefixedSlice_prefixed [of "InternalKey_new key s t"]
  by (simp add: mem_entry_parts) (simp add: InternalKey_new_def AppendInternalKey_def PutFixed64_def)

lemma mem_key_of_lookup:
  "length key + 8 < 2 ^ 32 \<Longrightarrow>
   mem_GetLengthPrefixedSlice (LookupKey_memtable_key (LookupKey_new key s)) = InternalKey_new key s kValueTypeForSeek"
  using mem_GetLengthPrefixedSlice_prefixed [of "InternalKey_new key s kValueTypeForSeek" "[]"]
  by (simp add: LookupKey_parts) (simp add: InternalKey_new_def AppendInternalKey_def PutFixed64_def)

text \<open>Increasing numbers: the last operation that is seen is the newest.\<close>

lemma last_op_Some:
  assumes "sorted_wrt (<) (map fst es)" "last_op ucmp key s es = Some e"
  shows "e \<in> set es" "sees ucmp key s e" "\<And>e'. e' \<in> set es \<Longrightarrow> sees ucmp key s e' \<Longrightarrow> fst e' \<le> fst e"
proof -
  define fs where "fs = filter (sees ucmp key s) es"
  have fs: "fs \<noteq> []" "e = last fs" using assms(2) by (auto simp: last_op_def fs_def [symmetric] split: list.splits)
  then have "e \<in> set fs" by simp
  then show "e \<in> set es" "sees ucmp key s e" by (auto simp: fs_def)
  have "sorted_wrt (\<lambda>x y. fst x < fst y) fs"
    using assms(1) unfolding fs_def by (simp add: sorted_wrt_map sorted_wrt_filter)
  moreover obtain gs where "fs = gs @ [e]" using fs by (metis append_butlast_last_id)
  ultimately have "fst e' \<le> fst e" if "e' \<in> set fs" for e' using that by (auto simp: sorted_wrt_append less_imp_le)
  then show "fst e' \<le> fst e" if "e' \<in> set es" "sees ucmp key s e'" for e' using that by (auto simp: fs_def)
qed

lemma last_op_None: "last_op ucmp key s es = None \<Longrightarrow> e \<in> set es \<Longrightarrow> \<not> sees ucmp key s e"
  by (auto simp: last_op_def filter_empty_conv split: list.splits)

section \<open>The order of the entries\<close>

locale mem_order = comparator ucmp for ucmp :: "slice \<Rightarrow> slice \<Rightarrow> int"
begin

lemma KeyComparator_comparator: "comparator (MemTable_KeyComparator ucmp)"
  using Internal_comparator [OF comparator_axioms]
  by (simp add: comparator_def MemTable_KeyComparator_def Let_def)

end

sublocale mem_order < entry: comparator "MemTable_KeyComparator ucmp"
  by (rule KeyComparator_comparator)

text \<open>The invariant of the table: a skip list in order that holds the entries of the operations.\<close>

definition mem_inv :: "(slice \<Rightarrow> slice \<Rightarrow> int) \<Rightarrow> MemTable \<Rightarrow> mem_op list \<Rightarrow> bool" where
  "mem_inv ucmp m es \<longleftrightarrow>
     (\<exists>L. skip_inv (MemTable_KeyComparator ucmp) (mt_table m) L \<and>
        set (skip_keys (mt_table m) L) = op_entry ` set es) \<and>
     (\<forall>e \<in> set es. op_ok e) \<and> sorted_wrt (<) (map fst es)"

context mem_order
begin

lemma entry_compare:
  assumes "op_ok e" "op_ok e'" "fst e \<noteq> fst e'"
  shows "MemTable_KeyComparator ucmp (op_entry e) (op_entry e') =
    (let r = ucmp (fst (snd (snd e))) (fst (snd (snd e'))) in if r \<noteq> 0 then r else if fst e' < fst e then - 1 else 1)"
  using assms by (cases e; cases e') (simp add: MemTable_KeyComparator_def mem_key_of_entry Internal_Compare_entries Let_def)

lemma entry_before_lookup:
  assumes "op_ok e" "s \<le> kMaxSequenceNumber" "length key + 8 < 2 ^ 32"
  shows "MemTable_KeyComparator ucmp (op_entry e) (LookupKey_memtable_key (LookupKey_new key s)) < 0 \<longleftrightarrow>
    (let r = ucmp (fst (snd (snd e))) key in r < 0 \<or> r = 0 \<and> s < fst e)"
  using assms
  by (cases e) (simp add: MemTable_KeyComparator_def mem_key_of_entry mem_key_of_lookup Internal_Compare_seek Let_def)

lemma MemTable_new_inv: "mem_inv ucmp (MemTable_new new_char) []"
  using entry.skip_new by (auto simp: mem_inv_def MemTable_new_def skip_keys_def intro!: exI [of _ "[]"])

lemma MemTable_Add_table:
  "SkipList_Insert (MemTable_KeyComparator ucmp) (mem_entry s t key val) (mt_table m) = Some table \<Longrightarrow>
   \<exists>m'. MemTable_Add ucmp new_char s t key val m = Some m' \<and> mt_table m' = table"
  by (simp add: MemTable_Add_def Let_def case_prod_beta)

lemma MemTable_Add_inv:
  assumes inv: "mem_inv ucmp m es" and ok: "op_ok (s, t, key, val)" and newer: "\<forall>e \<in> set es. fst e < s"
  obtains m' where "MemTable_Add ucmp new_char s t key val m = Some m'" "mem_inv ucmp m' (es @ [(s, t, key, val)])"
proof -
  note result = that
  obtain L where L: "skip_inv (MemTable_KeyComparator ucmp) (mt_table m) L"
    "set (skip_keys (mt_table m) L) = op_entry ` set es" and es: "\<forall>e \<in> set es. op_ok e" "sorted_wrt (<) (map fst es)"
    using inv by (auto simp: mem_inv_def)
  have fresh: "MemTable_KeyComparator ucmp k (mem_entry s t key val) \<noteq> 0" if k: "k \<in> set (skip_keys (mt_table m) L)" for k
  proof -
    obtain e where e: "e \<in> set es" "k = op_entry e" using k unfolding L(2) by (elim imageE) blast
    with newer have "fst e < s" by simp
    then show ?thesis using entry_compare [of e "(s, t, key, val)"] e es(1) ok by (auto simp: Let_def)
  qed
  obtain table L' where table: "SkipList_Insert (MemTable_KeyComparator ucmp) (mem_entry s t key val) (mt_table m) = Some table"
    "skip_inv (MemTable_KeyComparator ucmp) table L'" and keys:
    "skip_keys table L' = takeWhile (\<lambda>k. MemTable_KeyComparator ucmp k (mem_entry s t key val) < 0) (skip_keys (mt_table m) L) @
       mem_entry s t key val # dropWhile (\<lambda>k. MemTable_KeyComparator ucmp k (mem_entry s t key val) < 0) (skip_keys (mt_table m) L)"
    by (rule entry.skip_Insert_keys [OF L(1) fresh])
  have set: "set (skip_keys table L') = insert (mem_entry s t key val) (set (skip_keys (mt_table m) L))"
    unfolding keys by (metis Un_insert_right list.simps(15) set_append takeWhile_dropWhile_id)
  obtain m' where m': "MemTable_Add ucmp new_char s t key val m = Some m'" "mt_table m' = table"
    using MemTable_Add_table [OF table(1)] by blast
  have "mem_inv ucmp m' (es @ [(s, t, key, val)])"
    unfolding mem_inv_def using m'(2) table(2) set L(2) es ok newer
    by (auto simp: sorted_wrt_append intro!: exI [of _ L'])
  with m'(1) show ?thesis by (rule result)
qed

end

text \<open>The first key that is not before the target is the least of those.\<close>

lemma hd_opt_eq: "hd_opt xs = None \<longleftrightarrow> xs = []" "hd_opt xs = Some x \<longleftrightarrow> (\<exists>ys. xs = x # ys)"
  by (cases xs; simp)+

context comparator
begin

lemma first_not_before:
  assumes sorted: "sorted_wrt (\<lambda>x y. cmp x y < 0) ks"
  shows "hd_opt (dropWhile (\<lambda>k. cmp k target < 0) ks) = None \<Longrightarrow> k \<in> set ks \<Longrightarrow> cmp k target < 0"
    "hd_opt (dropWhile (\<lambda>k. cmp k target < 0) ks) = Some k0 \<Longrightarrow> k0 \<in> set ks \<and> \<not> cmp k0 target < 0"
    "hd_opt (dropWhile (\<lambda>k. cmp k target < 0) ks) = Some k0 \<Longrightarrow> k \<in> set ks \<Longrightarrow> \<not> cmp k target < 0 \<Longrightarrow> k \<noteq> k0 \<Longrightarrow>
      cmp k0 k < 0"
proof -
  show "cmp k target < 0" if "hd_opt (dropWhile (\<lambda>k. cmp k target < 0) ks) = None" "k \<in> set ks"
    using that by (simp add: hd_opt_eq)
  have split: "\<exists>as bs. ks = as @ k0 # bs \<and> (\<forall>a \<in> set as. cmp a target < 0) \<and> \<not> cmp k0 target < 0"
    if first: "hd_opt (dropWhile (\<lambda>k. cmp k target < 0) ks) = Some k0" for k0
  proof -
    obtain bs where bs: "dropWhile (\<lambda>k. cmp k target < 0) ks = k0 # bs"
      using first unfolding hd_opt_eq by blast
    have "ks = takeWhile (\<lambda>k. cmp k target < 0) ks @ k0 # bs" unfolding bs [symmetric] by simp
    moreover have "\<not> cmp k0 target < 0" using bs by (simp add: dropWhile_eq_Cons_conv)
    ultimately show ?thesis by (metis set_takeWhileD)
  qed
  show "k0 \<in> set ks \<and> \<not> cmp k0 target < 0" if "hd_opt (dropWhile (\<lambda>k. cmp k target < 0) ks) = Some k0"
    using split [OF that] by auto
  show "cmp k0 k < 0" if "hd_opt (dropWhile (\<lambda>k. cmp k target < 0) ks) = Some k0" "k \<in> set ks" "\<not> cmp k target < 0" "k \<noteq> k0"
    using split [OF that(1)] that(2-4) sorted by (auto simp: sorted_wrt_append)
qed

end

context mem_order
begin

lemma MemTable_Seek:
  fixes target
  assumes L: "skip_inv (MemTable_KeyComparator ucmp) s L"
  defines "ks \<equiv> dropWhile (\<lambda>k. MemTable_KeyComparator ucmp k target < 0) (skip_keys s L)"
  shows "hd_opt ks = None \<Longrightarrow> Iter_Seek (MemTable_KeyComparator ucmp) s target = Some None"
    "hd_opt ks = Some k \<Longrightarrow>
     \<exists>n. Iter_Seek (MemTable_KeyComparator ucmp) s target = Some (Some n) \<and> Iter_key s (Some n) = Some k"
proof -
  define P where "P = (\<lambda>y. MemTable_KeyComparator ucmp (node_key (sl_nodes s) y) target < 0)"
  have ks: "ks = map (node_key (sl_nodes s)) (dropWhile P L)"
    by (simp add: ks_def skip_keys_def dropWhile_map P_def o_def)
  note seek = entry.skip_Seek [OF L, of target, folded P_def]
  show "Iter_Seek (MemTable_KeyComparator ucmp) s target = Some None" if "hd_opt ks = None"
    using that unfolding seek ks hd_opt_eq map_is_Nil_conv by (simp only: hd_opt_simps)
  assume "hd_opt ks = Some k"
  then obtain n ns where n: "dropWhile P L = n # ns" "k = node_key (sl_nodes s) n"
    unfolding ks hd_opt_eq by (auto simp only: map_eq_Cons_conv)
  have "n \<in> set (dropWhile P L)" unfolding n(1) by simp
  then have "n \<in> set L" by (rule set_dropWhileD)
  with L n(2) have "Iter_key s (Some n) = Some k" by (simp add: entry.skip_key)
  then show "\<exists>n. Iter_Seek (MemTable_KeyComparator ucmp) s target = Some (Some n) \<and> Iter_key s (Some n) = Some k"
    unfolding seek n(1) by simp
qed

text \<open>What the table does with the entry that the search stops at.\<close>

lemma MemTable_Get_entry:
  assumes found: "Iter_Seek (MemTable_KeyComparator ucmp) (mt_table m) (LookupKey_memtable_key (LookupKey_new key s)) = Some (Some n)"
      "Iter_key (mt_table m) (Some n) = Some (op_entry (s', t, k', v))"
    and ok: "op_ok (s', t, k', v)" "length key + 8 < 2 ^ 32"
  shows "MemTable_Get ucmp (LookupKey_new key s) val st m =
    Some (if ucmp k' key = 0 then lookup_result (Some (s', t, k', v)) val st else (False, val, st))"
proof -
  have len: "length k' + 8 < 2 ^ 32" "length v < 2 ^ 32" and t: "t \<le> kTypeValue" using ok(1) by simp_all
  define internal where "internal = InternalKey_new k' s' t"
  have internal: "internal = k' @ EncodeFixed64 (PackSequenceAndType s' t)"
    by (simp add: internal_def InternalKey_new_def AppendInternalKey_def PutFixed64_def)
  have entry: "varint_at (op_entry (s', t, k', v)) = Some (of_nat (length k' + 8), internal @ base128 (length v) @ v)"
    using len by (simp only: op_entry.simps mem_entry_parts varint_at_base128 internal_def)
  have key_length: "unat (of_nat (length k' + 8) - 8 :: u32) = length k'" "unat (of_nat (length k' + 8) :: u32) = length internal"
    using len by (simp_all add: internal unat_of_nat unat_word_ariths)
  have val: "mem_GetLengthPrefixedSlice (base128 (length v) @ v) = v"
    using mem_GetLengthPrefixedSlice_prefixed [OF len(2), of "[]"] by simp
  have tag: "DecodeFixed64 (drop (length k') (internal @ base128 (length v) @ v)) = PackSequenceAndType s' t"
    by (simp add: internal DecodeFixed64_EncodeFixed64)
  have types: "t = kTypeValue \<or> t = kTypeDeletion"
  proof -
    have "unat t \<le> 1" using t by (simp add: word_le_nat_alt kTypeValue_def)
    then have "unat t = unat (0 :: byte) \<or> unat t = unat (1 :: byte)" by auto
    then show ?thesis unfolding word_unat_eq_iff [symmetric] by (auto simp: kTypeValue_def kTypeDeletion_def)
  qed
  have "kTypeDeletion \<noteq> kTypeValue" by (simp add: kTypeValue_def kTypeDeletion_def)
  with found entry types LookupKey_parts(3) [OF ok(2)] key_length tag val show ?thesis
    by (auto simp: MemTable_Get_def Let_def lookup_result_def Pack_type internal)
qed

lemma MemTable_Get_last_op:
  assumes inv: "mem_inv ucmp m es" and s: "s \<le> kMaxSequenceNumber" and key: "length key + 8 < 2 ^ 32"
  shows "MemTable_Get ucmp (LookupKey_new key s) val st m = Some (lookup_result (last_op ucmp key s es) val st)"
proof -
  obtain L where L: "skip_inv (MemTable_KeyComparator ucmp) (mt_table m) L"
    "set (skip_keys (mt_table m) L) = op_entry ` set es" and es: "\<forall>e \<in> set es. op_ok e" "sorted_wrt (<) (map fst es)"
    using inv by (auto simp: mem_inv_def)
  define target where "target = LookupKey_memtable_key (LookupKey_new key s)"
  have sorted: "sorted_wrt (\<lambda>x y. MemTable_KeyComparator ucmp x y < 0) (skip_keys (mt_table m) L)"
    using entry.skip_inv_dest(7) [OF L(1)] by (simp add: skip_keys_def sorted_wrt_map)
  have before: "MemTable_KeyComparator ucmp (op_entry e) target < 0 \<longleftrightarrow>
      (let r = ucmp (fst (snd (snd e))) key in r < 0 \<or> r = 0 \<and> s < fst e)" if "e \<in> set es" for e
    using that es(1) s key unfolding target_def by (intro entry_before_lookup) auto
  note first = entry.first_not_before [OF sorted, of target]
  show ?thesis
  proof (cases "hd_opt (dropWhile (\<lambda>k. MemTable_KeyComparator ucmp k target < 0) (skip_keys (mt_table m) L))")
    case None
    then have "\<not> sees ucmp key s e" if "e \<in> set es" for e
      using first(1) [OF None, of "op_entry e"] before [OF that] that L(2) by (auto simp: sees_def Let_def)
    then have "last_op ucmp key s es = None" using last_op_Some(1,2) [OF es(2)] by (cases "last_op ucmp key s es") blast+
    then show ?thesis
      using MemTable_Seek(1) [OF L(1) None] by (simp add: MemTable_Get_def target_def [symmetric] lookup_result_def)
  next
    case (Some k0)
    obtain e0 where e0: "e0 \<in> set es" "k0 = op_entry e0" using first(2) [OF Some] unfolding L(2) by (elim conjE imageE) blast
    obtain s0 t0 key0 val0 where parts: "e0 = (s0, t0, key0, val0)" by (cases e0)
    obtain n where n: "Iter_Seek (MemTable_KeyComparator ucmp) (mt_table m) target = Some (Some n)"
      "Iter_key (mt_table m) (Some n) = Some (op_entry (s0, t0, key0, val0))"
      using MemTable_Seek(2) [OF L(1) Some] unfolding e0(2) parts by blast
    have get: "MemTable_Get ucmp (LookupKey_new key s) val st m =
        Some (if ucmp key0 key = 0 then lookup_result (Some e0) val st else (False, val, st))"
      unfolding parts by (rule MemTable_Get_entry [OF n [unfolded target_def] _ key]) (use es(1) e0(1) parts in auto)
    have not_before: "\<not> (ucmp key0 key < 0 \<or> ucmp key0 key = 0 \<and> s < s0)"
      using first(2) [OF Some] before [OF e0(1)] by (simp add: e0(2) parts Let_def)
    show ?thesis
    proof (cases "last_op ucmp key s es")
      case None
      then have "\<not> sees ucmp key s e0" using e0(1) by (rule last_op_None)
      with not_before get show ?thesis by (auto simp: None sees_def parts lookup_result_def)
    next
      case (Some e)
      note e = last_op_Some [OF es(2) Some]
      have "\<not> MemTable_KeyComparator ucmp (op_entry e) target < 0"
        using before [OF e(1)] e(2) by (auto simp: sees_def Let_def)
      then have least: "MemTable_KeyComparator ucmp k0 (op_entry e) < 0" if "op_entry e \<noteq> k0"
        using first(3) [OF \<open>hd_opt _ = Some k0\<close>, of "op_entry e"] e(1) L(2) that by blast
      have "e = e0"
      proof (rule ccontr)
        assume "e \<noteq> e0"
        have "inj_on fst (set es)"
          using es(2) by (simp add: strict_sorted_iff distinct_map)
        with \<open>e \<noteq> e0\<close> e(1) e0(1) have "fst e0 \<noteq> fst e" by (auto dest: inj_onD)
        have "op_ok e0" "op_ok e" using es(1) e(1) e0(1) by blast+
        from entry_compare [OF this \<open>fst e0 \<noteq> fst e\<close>] have cmp: "MemTable_KeyComparator ucmp (op_entry e0) (op_entry e) =
            (let r = ucmp key0 (fst (snd (snd e))) in if r \<noteq> 0 then r else if fst e < fst e0 then - 1 else 1)"
          by (simp only: parts fst_conv snd_conv)
        then have "MemTable_KeyComparator ucmp (op_entry e0) (op_entry e) \<noteq> 0" by (auto simp: Let_def)
        then have "op_entry e \<noteq> k0" using entry.cmp_refl unfolding e0(2) by metis
        then have less: "MemTable_KeyComparator ucmp (op_entry e0) (op_entry e) < 0" using least unfolding e0(2) by simp
        have same: "ucmp (fst (snd (snd e))) key = 0" using e(2) by (simp add: sees_def)
        show False
        proof (cases "ucmp key0 (fst (snd (snd e))) = 0")
          case True
          with same have "ucmp key0 key = 0" by (metis cmp_eq_trans)
          with not_before have "sees ucmp key s e0" by (simp add: sees_def parts)
          with e(3) e0(1) have "fst e0 \<le> fst e" by blast
          with cmp less True show False by (simp add: leD)
        next
          case False
          with cmp less have "ucmp key0 (fst (snd (snd e))) < 0" by (simp add: Let_def)
          with same cmp_eq_right not_before show False by metis
        qed
      qed
      with get e(2) Some show ?thesis by (auto simp: sees_def parts)
    qed
  qed
qed

end

interpretation mem_bytewise: mem_order Bytewise_Compare
  by unfold_locales

section \<open>The table as its clients see it\<close>

fun AddAll :: "(slice \<Rightarrow> slice \<Rightarrow> int) \<Rightarrow> (Arena \<Rightarrow> nat \<Rightarrow> addr) \<Rightarrow> mem_op list \<Rightarrow> MemTable \<Rightarrow> MemTable option" where
  "AddAll user_compare new_char [] m = Some m"
| "AddAll user_compare new_char ((s, t, key, val) # es) m =
     do { m \<leftarrow> MemTable_Add user_compare new_char s t key val m; AddAll user_compare new_char es m }"

lemma AddAll_append:
  "AddAll ucmp new_char (ds @ es) m = do { m \<leftarrow> AddAll ucmp new_char ds m; AddAll ucmp new_char es m }"
proof (induction ds arbitrary: m)
  case (Cons d ds)
  then show ?case by (cases d) (simp add: Cons cong: Option.bind_cong)
qed simp

context mem_order
begin

lemma AddAll_inv:
  "mem_inv ucmp m ds \<Longrightarrow> \<forall>e \<in> set es. op_ok e \<Longrightarrow> sorted_wrt (<) (map fst (ds @ es)) \<Longrightarrow>
   \<exists>m'. AddAll ucmp new_char es m = Some m' \<and> mem_inv ucmp m' (ds @ es)"
proof (induction es arbitrary: m ds)
  case (Cons e es)
  obtain s t key val where e: "e = (s, t, key, val)" by (cases e)
  have "op_ok (s, t, key, val)" "\<forall>d \<in> set ds. fst d < s"
    using Cons.prems(2,3) by (auto simp: e sorted_wrt_append)
  then obtain m1 where m1: "MemTable_Add ucmp new_char s t key val m = Some m1" "mem_inv ucmp m1 (ds @ [(s, t, key, val)])"
    by (rule MemTable_Add_inv [OF Cons.prems(1)])
  with Cons.IH [OF m1(2)] Cons.prems(2,3) show ?case by (simp add: e)
qed simp

end

text \<open>
  C3: after any operations with increasing sequence numbers, a lookup in the memory table at a snapshot gives the last
  operation on the key that the snapshot sees: its value, or that the key was deleted; a key with none is not found.
\<close>

theorem memtable_get_newest:
  assumes "comparator ucmp" "\<forall>e \<in> set es. op_ok e" "sorted_wrt (<) (map fst es)"
    "s \<le> kMaxSequenceNumber" "length key + 8 < 2 ^ 32"
  shows "\<exists>m. AddAll ucmp new_char es (MemTable_new new_char) = Some m \<and>
    MemTable_Get ucmp (LookupKey_new key s) val st m = Some (lookup_result (last_op ucmp key s es) val st)"
proof -
  have order: "mem_order ucmp" by (rule mem_order.intro [OF assms(1)])
  from mem_order.AddAll_inv [OF order mem_order.MemTable_new_inv [OF order] assms(2), of new_char] assms(3)
  obtain m where "AddAll ucmp new_char es (MemTable_new new_char) = Some m" "mem_inv ucmp m es" by auto
  with mem_order.MemTable_Get_last_op [OF order this(2) assms(4,5)] show ?thesis by blast
qed

theorem memtable_get_newest_witness:
  "\<exists>m. AddAll Bytewise_Compare bump [(1, kTypeValue, [7], [1]), (2, kTypeValue, [8], [2]), (5, kTypeDeletion, [7], []),
      (6, kTypeValue, [7], [3, 4])] (MemTable_new bump) = Some m \<and>
    MemTable_Get Bytewise_Compare (LookupKey_new [7] 5) [9] Status_OK m = Some (True, [9], Status_new kNotFound [] [])"
proof -
  let ?es = "[(1, kTypeValue, [7], [1]), (2, kTypeValue, [8], [2]), (5, kTypeDeletion, [7], []), (6, kTypeValue, [7], [3, 4])] :: mem_op list"
  have "last_op Bytewise_Compare [7] 5 ?es = Some (5, kTypeDeletion, [7], [])"
    by (simp add: last_op_def sees_def Bytewise_Compare_def)
  moreover have "kTypeDeletion \<noteq> kTypeValue" by (simp add: kTypeValue_def kTypeDeletion_def)
  moreover have "\<exists>m. AddAll Bytewise_Compare bump ?es (MemTable_new bump) = Some m \<and>
      MemTable_Get Bytewise_Compare (LookupKey_new [7] 5) [9] Status_OK m =
        Some (lookup_result (last_op Bytewise_Compare [7] 5 ?es) [9] Status_OK)"
    by (rule memtable_get_newest [OF bytewise.comparator_axioms])
      (simp_all add: kMaxSequenceNumber_def kTypeValue_def kTypeDeletion_def)
  ultimately show ?thesis by (simp add: lookup_result_def)
qed

end
