(* ===== verification/Ldb_Batch.thy ===== *)
theory Ldb_Batch
  imports Ldb_Memtable
begin

text \<open>
  leveldb, \<^verbatim>\<open>db/write_batch.cc\<close> and \<^verbatim>\<open>db/write_batch_internal.h\<close>: updates that are applied together, as one string of
  bytes, the way it is also written to the log. The specification is the list of the updates.
\<close>

section \<open>The representation\<close>

text \<open>A \<^verbatim>\<open>WriteBatch\<close> is its \<^verbatim>\<open>rep_\<close>; the functions on a header need its twelve bytes.\<close>

type_synonym WriteBatch = "byte list"

definition batch_kHeader :: nat where
  "batch_kHeader = 12"

definition WriteBatch_Clear :: "WriteBatch \<Rightarrow> WriteBatch" where
  "WriteBatch_Clear rep = replicate batch_kHeader 0"

definition WriteBatch_new :: WriteBatch where
  "WriteBatch_new = WriteBatch_Clear []"

text \<open>The count is an \<^verbatim>\<open>int\<close> of 32 bits: its bits.\<close>

definition Batch_Count :: "WriteBatch \<Rightarrow> u32" where
  "Batch_Count rep = DecodeFixed32 (drop 8 rep)"

definition Batch_SetCount :: "WriteBatch \<Rightarrow> u32 \<Rightarrow> WriteBatch" where
  "Batch_SetCount rep n = take 8 rep @ EncodeFixed32 n @ drop 12 rep"

definition Batch_Sequence :: "WriteBatch \<Rightarrow> SequenceNumber" where
  "Batch_Sequence rep = DecodeFixed64 rep"

definition Batch_SetSequence :: "WriteBatch \<Rightarrow> SequenceNumber \<Rightarrow> WriteBatch" where
  "Batch_SetSequence rep s = EncodeFixed64 s @ drop 8 rep"

definition Batch_Contents :: "WriteBatch \<Rightarrow> slice" where
  "Batch_Contents rep = rep"

definition Batch_ByteSize :: "WriteBatch \<Rightarrow> nat" where
  "Batch_ByteSize rep = length rep"

definition Batch_SetContents :: "WriteBatch \<Rightarrow> slice \<Rightarrow> WriteBatch" where
  "Batch_SetContents rep contents = contents"

definition WriteBatch_Put :: "slice \<Rightarrow> slice \<Rightarrow> WriteBatch \<Rightarrow> WriteBatch" where
  "WriteBatch_Put key val rep =
     (let rep = Batch_SetCount rep (Batch_Count rep + 1);
          rep = rep @ [kTypeValue];
          rep = PutLengthPrefixedSlice rep key in
      PutLengthPrefixedSlice rep val)"

definition WriteBatch_Delete :: "slice \<Rightarrow> WriteBatch \<Rightarrow> WriteBatch" where
  "WriteBatch_Delete key rep =
     (let rep = Batch_SetCount rep (Batch_Count rep + 1);
          rep = rep @ [kTypeDeletion] in
      PutLengthPrefixedSlice rep key)"

definition Batch_Append :: "WriteBatch \<Rightarrow> WriteBatch \<Rightarrow> WriteBatch" where
  "Batch_Append dst src =
     Batch_SetCount dst (Batch_Count dst + Batch_Count src) @ drop batch_kHeader src"

section \<open>Going through a batch\<close>

text \<open>The handler of the updates, whose functions change a state of their own and may be stuck.\<close>

record 's batch_handler =
  h_Put :: "slice \<Rightarrow> slice \<Rightarrow> 's \<Rightarrow> 's option"
  h_Delete :: "slice \<Rightarrow> 's \<Rightarrow> 's option"

definition batch_corruption :: "string \<Rightarrow> status" where
  "batch_corruption msg = Status_new kCorruption msg []"

text \<open>The loop of \<^verbatim>\<open>Iterate\<close>, with the count that the header announces and the number of records found so far.\<close>

function Iterate_loop :: "'s batch_handler \<Rightarrow> u32 \<Rightarrow> byte list \<Rightarrow> u32 \<Rightarrow> 's \<Rightarrow> (status \<times> 's) option" where
  "Iterate_loop h count [] found st =
     Some (if found \<noteq> count then batch_corruption ''WriteBatch has wrong count'' else Status_OK, st)"
| "Iterate_loop h count (tag # input) found st =
     (let found = found + 1 in
      if tag = kTypeValue then
        (case GetLengthPrefixedSlice input of
           (Some key, input1) \<Rightarrow>
             (case GetLengthPrefixedSlice input1 of
                (Some val, input2) \<Rightarrow>
                  do { st \<leftarrow> h_Put h key val st; Iterate_loop h count input2 found st }
              | (None, _) \<Rightarrow> Some (batch_corruption ''bad WriteBatch Put'', st))
         | (None, _) \<Rightarrow> Some (batch_corruption ''bad WriteBatch Put'', st))
      else if tag = kTypeDeletion then
        (case GetLengthPrefixedSlice input of
           (Some key, input1) \<Rightarrow> do { st \<leftarrow> h_Delete h key st; Iterate_loop h count input1 found st }
         | (None, _) \<Rightarrow> Some (batch_corruption ''bad WriteBatch Delete'', st))
      else Some (batch_corruption ''unknown WriteBatch tag'', st))"
  by pat_completeness auto
termination
  by (relation "measure (\<lambda>(h, count, input, found, st). length input)")
    (auto dest!: GetLengthPrefixedSlice_shrinks [OF sym])

definition WriteBatch_Iterate :: "'s batch_handler \<Rightarrow> WriteBatch \<Rightarrow> 's \<Rightarrow> (status \<times> 's) option" where
  "WriteBatch_Iterate h rep st =
     (if length rep < batch_kHeader then Some (batch_corruption ''malformed WriteBatch (too small)'', st)
      else Iterate_loop h (Batch_Count rep) (drop batch_kHeader rep) 0 st)"

text \<open>The handler that inserts into a memory table: its sequence number and the table.\<close>

definition MemTableInserter ::
  "(slice \<Rightarrow> slice \<Rightarrow> int) \<Rightarrow> (Arena \<Rightarrow> nat \<Rightarrow> addr) \<Rightarrow> (SequenceNumber \<times> MemTable) batch_handler" where
  "MemTableInserter user_compare new_char =
     \<lparr>h_Put = (\<lambda>key val (s, m).
        do { m \<leftarrow> MemTable_Add user_compare new_char s kTypeValue key val m; Some (s + 1, m) }),
      h_Delete = (\<lambda>key (s, m).
        do { m \<leftarrow> MemTable_Add user_compare new_char s kTypeDeletion key [] m; Some (s + 1, m) })\<rparr>"

definition Batch_InsertInto ::
  "(slice \<Rightarrow> slice \<Rightarrow> int) \<Rightarrow> (Arena \<Rightarrow> nat \<Rightarrow> addr) \<Rightarrow> WriteBatch \<Rightarrow> MemTable \<Rightarrow> (status \<times> MemTable) option" where
  "Batch_InsertInto user_compare new_char b memtable =
     do {
       (s, (_, memtable)) \<leftarrow> WriteBatch_Iterate (MemTableInserter user_compare new_char) b (Batch_Sequence b, memtable);
       Some (s, memtable)
     }"

section \<open>The specification\<close>

datatype batch_op = BPut slice slice | BDelete slice

fun batch_op_bytes :: "batch_op \<Rightarrow> byte list" where
  "batch_op_bytes (BPut key val) = kTypeValue # length_prefixed key @ length_prefixed val"
| "batch_op_bytes (BDelete key) = kTypeDeletion # length_prefixed key"

fun batch_op_ok :: "batch_op \<Rightarrow> bool" where
  "batch_op_ok (BPut key val) \<longleftrightarrow> length key < 2 ^ 32 \<and> length val < 2 ^ 32"
| "batch_op_ok (BDelete key) \<longleftrightarrow> length key < 2 ^ 32"

definition batch_bytes :: "SequenceNumber \<Rightarrow> batch_op list \<Rightarrow> WriteBatch" where
  "batch_bytes s ops = EncodeFixed64 s @ EncodeFixed32 (of_nat (length ops)) @ concat (map batch_op_bytes ops)"

text \<open>A client that fills a batch, and what a handler makes of the updates.\<close>

fun BuildBatch :: "batch_op list \<Rightarrow> WriteBatch \<Rightarrow> WriteBatch" where
  "BuildBatch [] rep = rep"
| "BuildBatch (BPut key val # ops) rep = BuildBatch ops (WriteBatch_Put key val rep)"
| "BuildBatch (BDelete key # ops) rep = BuildBatch ops (WriteBatch_Delete key rep)"

fun apply_ops :: "'s batch_handler \<Rightarrow> batch_op list \<Rightarrow> 's \<Rightarrow> 's option" where
  "apply_ops h [] st = Some st"
| "apply_ops h (BPut key val # ops) st = do { st \<leftarrow> h_Put h key val st; apply_ops h ops st }"
| "apply_ops h (BDelete key # ops) st = do { st \<leftarrow> h_Delete h key st; apply_ops h ops st }"

lemma batch_header:
  "Batch_Sequence (batch_bytes s ops) = s" "Batch_Count (batch_bytes s ops) = of_nat (length ops)"
  "drop 12 (batch_bytes s ops) = concat (map batch_op_bytes ops)" "12 \<le> length (batch_bytes s ops)"
  by (simp_all add: Batch_Sequence_def Batch_Count_def batch_bytes_def DecodeFixed64_EncodeFixed64 DecodeFixed32_EncodeFixed32)

lemma Batch_SetCount_bytes:
  "Batch_SetCount (batch_bytes s ops) n = EncodeFixed64 s @ EncodeFixed32 n @ concat (map batch_op_bytes ops)"
  by (simp add: Batch_SetCount_def batch_header) (simp add: batch_bytes_def)

lemma WriteBatch_new_bytes: "WriteBatch_new = batch_bytes 0 []"
proof -
  have "replicate 12 (0 :: byte) = le_bytes 8 0 @ le_bytes 4 0" by code_simp
  then show ?thesis
    by (simp add: WriteBatch_new_def WriteBatch_Clear_def batch_kHeader_def batch_bytes_def EncodeFixed64_eq EncodeFixed32_eq)
qed

lemma WriteBatch_Put_bytes:
  "batch_op_ok (BPut key val) \<Longrightarrow> WriteBatch_Put key val (batch_bytes s ops) = batch_bytes s (ops @ [BPut key val])"
  by (simp add: WriteBatch_Put_def batch_header Batch_SetCount_bytes PutLengthPrefixedSlice_eq)
    (simp add: batch_bytes_def add.commute)

lemma WriteBatch_Delete_bytes:
  "batch_op_ok (BDelete key) \<Longrightarrow> WriteBatch_Delete key (batch_bytes s ops) = batch_bytes s (ops @ [BDelete key])"
  by (simp add: WriteBatch_Delete_def batch_header Batch_SetCount_bytes PutLengthPrefixedSlice_eq)
    (simp add: batch_bytes_def add.commute)

lemma BuildBatch_bytes:
  "\<forall>op \<in> set ops. batch_op_ok op \<Longrightarrow> BuildBatch ops (batch_bytes s ds) = batch_bytes s (ds @ ops)"
proof (induction ops arbitrary: ds)
  case (Cons op ops)
  then show ?case by (cases op) (simp_all add: WriteBatch_Put_bytes WriteBatch_Delete_bytes del: batch_op_ok.simps)
qed simp

lemma Batch_Append_bytes: "Batch_Append (batch_bytes s ds) (batch_bytes t es) = batch_bytes s (ds @ es)"
  by (simp add: Batch_Append_def batch_header Batch_SetCount_bytes batch_kHeader_def) (simp add: batch_bytes_def)

lemma Batch_SetSequence_bytes: "Batch_SetSequence (batch_bytes s ops) t = batch_bytes t ops"
  by (simp add: Batch_SetSequence_def batch_bytes_def)

lemma Iterate_loop_ops:
  "\<forall>op \<in> set ops. batch_op_ok op \<Longrightarrow> count = found + of_nat (length ops) \<Longrightarrow>
   Iterate_loop h count (concat (map batch_op_bytes ops)) found st = map_option (Pair Status_OK) (apply_ops h ops st)"
proof (induction ops arbitrary: found st)
  case (Cons op ops)
  have "kTypeDeletion \<noteq> kTypeValue" by (simp add: kTypeValue_def kTypeDeletion_def)
  with Cons show ?case
    by (cases op) (auto simp: GetLengthPrefixedSlice_prefixed Let_def add.assoc map_option_bind intro!: Option.bind_cong)
qed simp

lemma WriteBatch_Iterate_ops:
  "\<forall>op \<in> set ops. batch_op_ok op \<Longrightarrow>
   WriteBatch_Iterate h (batch_bytes s ops) st = map_option (Pair Status_OK) (apply_ops h ops st)"
  using batch_header [of s ops] Iterate_loop_ops [of ops "of_nat (length ops)" 0 h st]
  by (simp add: WriteBatch_Iterate_def batch_kHeader_def)

text \<open>
  C10: batches that are filled with updates, put together and given a sequence number hold exactly these updates: going
  through the result hands them to the handler in their order, and the count is right.
\<close>

theorem batch_holds_updates:
  fixes s :: SequenceNumber
  assumes "\<forall>op \<in> set (ds @ es). batch_op_ok op"
  defines "b \<equiv> Batch_SetSequence (Batch_Append (BuildBatch ds WriteBatch_new) (BuildBatch es WriteBatch_new)) s"
  shows "WriteBatch_Iterate h b st = map_option (Pair Status_OK) (apply_ops h (ds @ es) st) \<and>
    Batch_Sequence b = s \<and> Batch_Count b = of_nat (length (ds @ es))"
proof -
  have "b = batch_bytes s (ds @ es)"
    using assms(1) BuildBatch_bytes [of ds 0 "[]"] BuildBatch_bytes [of es 0 "[]"]
    by (auto simp: b_def WriteBatch_new_bytes Batch_Append_bytes Batch_SetSequence_bytes)
  with assms(1) show ?thesis by (simp only: WriteBatch_Iterate_ops batch_header)
qed

definition log_handler :: "batch_op list batch_handler" where
  "log_handler = \<lparr>h_Put = (\<lambda>key val ops. Some (ops @ [BPut key val])), h_Delete = (\<lambda>key ops. Some (ops @ [BDelete key]))\<rparr>"

theorem batch_holds_updates_witness:
  "WriteBatch_Iterate log_handler (Batch_SetSequence (Batch_Append
      (BuildBatch [BPut [1, 2] [3], BDelete [4]] WriteBatch_new) (BuildBatch [BPut [] []] WriteBatch_new)) 77) [] =
    Some (Status_OK, [BPut [1, 2] [3], BDelete [4], BPut [] []])"
  using batch_holds_updates [of "[BPut [1, 2] [3], BDelete [4]]" "[BPut [] []]" log_handler 77 "[]"]
  by (simp add: log_handler_def)

section \<open>Batches that were cut off\<close>

lemma GetVarint32Ptr_loop_cut:
  "n < length (base128 x) \<Longrightarrow> GetVarint32Ptr_loop shift result (take n (base128 x)) = None"
proof (induction x arbitrary: n shift result rule: base128.induct)
  case (1 x)
  show ?case
  proof (cases n)
    case (Suc n')
    with 1(2) have x: "\<not> x < 128" by (auto simp: base128_small)
    with Suc 1(2) have "GetVarint32Ptr_loop s r (take n' (base128 (x div 128))) = None" for s r
      by (intro 1(1)) (simp_all add: base128_step)
    then show ?thesis
      using Suc x of_nat_digit_and(2) [of x, where 'a = 32] by (simp add: base128_step Let_def)
  qed simp
qed

lemma GetLengthPrefixedSlice_cut:
  assumes "length v < 2 ^ 32" "n < length (length_prefixed v)"
  shows "fst (GetLengthPrefixedSlice (take n (length_prefixed v))) = None"
proof (cases "n < length (base128 (length v))")
  case True
  then show ?thesis
    using GetVarint32Ptr_loop_cut [OF True]
    by (simp add: GetLengthPrefixedSlice_def GetVarint32_eq GetVarint32Ptr_fallback GetVarint32PtrFallback_def
        length_prefixed_def)
next
  case False
  then have "take n (length_prefixed v) = base128 (length v) @ take (n - length (base128 (length v))) v"
    by (simp add: length_prefixed_def)
  with assms False show ?thesis
    by (simp add: GetLengthPrefixedSlice_def GetVarint32_eq GetVarint32Ptr_base128 unat_of_nat length_prefixed_def)
qed

lemma GetLengthPrefixedSlice_whole:
  assumes "length v < 2 ^ 32" "length (length_prefixed v) \<le> n"
  shows "GetLengthPrefixedSlice (take n (length_prefixed v @ rest)) = (Some v, take (n - length (length_prefixed v)) rest)"
  using assms by (simp add: GetLengthPrefixedSlice_prefixed)

lemma batch_op_bytes_not_Nil: "0 < length (batch_op_bytes op)"
  by (cases op) simp_all

text \<open>A record that is not completely there is refused.\<close>

lemma Iterate_loop_cut_op:
  assumes ok: "batch_op_ok op" and n: "0 < n" "n < length (batch_op_bytes op)"
  shows "Iterate_loop h count (take n (batch_op_bytes op)) found st \<noteq> Some (Status_OK, st')"
proof -
  have bad: "batch_corruption msg \<noteq> Status_OK" for msg by (simp add: batch_corruption_def Status_new_def)
  have types: "kTypeDeletion \<noteq> kTypeValue" by (simp add: kTypeValue_def kTypeDeletion_def)
  obtain n' where n': "n = Suc n'" using n(1) by (cases n) auto
  show ?thesis
  proof (cases op)
    case (BDelete key)
    then have "fst (GetLengthPrefixedSlice (take n' (length_prefixed key))) = None"
      using ok n n' by (intro GetLengthPrefixedSlice_cut) simp_all
    with BDelete n' types bad show ?thesis by (auto split: prod.splits option.splits)
  next
    case (BPut key val)
    show ?thesis
    proof (cases "n' < length (length_prefixed key)")
      case True
      then have "fst (GetLengthPrefixedSlice (take n' (length_prefixed key @ length_prefixed val))) = None"
        using ok BPut GetLengthPrefixedSlice_cut [of key n'] by simp
      with BPut n' bad show ?thesis by (auto split: prod.splits option.splits)
    next
      case False
      then have "GetLengthPrefixedSlice (take n' (length_prefixed key @ length_prefixed val)) =
          (Some key, take (n' - length (length_prefixed key)) (length_prefixed val))"
        using ok BPut by (intro GetLengthPrefixedSlice_whole) simp_all
      moreover have "fst (GetLengthPrefixedSlice (take (n' - length (length_prefixed key)) (length_prefixed val))) = None"
        using ok BPut n n' False by (intro GetLengthPrefixedSlice_cut) simp_all
      ultimately show ?thesis using BPut n' bad by (auto split: prod.splits option.splits)
    qed
  qed
qed

lemma Iterate_loop_whole_op:
  assumes "batch_op_ok op"
  shows "Iterate_loop h count (batch_op_bytes op @ rest) found st = Some (Status_OK, st') \<Longrightarrow>
    \<exists>st1. Iterate_loop h count rest (found + 1) st1 = Some (Status_OK, st')"
proof -
  have "kTypeDeletion \<noteq> kTypeValue" by (simp add: kTypeValue_def kTypeDeletion_def)
  with assms show "\<exists>st1. Iterate_loop h count rest (found + 1) st1 = Some (Status_OK, st')"
    if "Iterate_loop h count (batch_op_bytes op @ rest) found st = Some (Status_OK, st')"
    using that by (cases op) (auto simp: GetLengthPrefixedSlice_prefixed Let_def bind_Some_eq)
qed

lemma Iterate_loop_cut:
  "\<forall>op \<in> set ops. batch_op_ok op \<Longrightarrow> n < length (concat (map batch_op_bytes ops)) \<Longrightarrow> length ops < 2 ^ 32 \<Longrightarrow>
   Iterate_loop h (found + of_nat (length ops)) (take n (concat (map batch_op_bytes ops))) found st \<noteq> Some (Status_OK, st')"
proof (induction ops arbitrary: n found st)
  case (Cons op ops)
  have bad: "batch_corruption msg \<noteq> Status_OK" for msg by (simp add: batch_corruption_def Status_new_def)
  consider "n = 0" | "0 < n" "n < length (batch_op_bytes op)" | "length (batch_op_bytes op) \<le> n" by linarith
  then show ?case
  proof cases
    case 1
    have "(of_nat (length (op # ops)) :: u32) \<noteq> 0"
      using Cons.prems(3) by (simp only: word_unat_eq_iff unat_of_nat) simp
    with 1 bad show ?thesis by simp
  next
    case 2
    with Iterate_loop_cut_op [of op n] Cons.prems(1) show ?thesis by simp
  next
    case 3
    define m where "m = n - length (batch_op_bytes op)"
    have split: "take n (concat (map batch_op_bytes (op # ops))) = batch_op_bytes op @ take m (concat (map batch_op_bytes ops))"
      using 3 by (simp add: m_def)
    have "Iterate_loop h (found + 1 + of_nat (length ops)) (take m (concat (map batch_op_bytes ops))) (found + 1) st1 \<noteq>
        Some (Status_OK, st')" for st1
      using Cons.prems 3 by (intro Cons.IH) (auto simp: m_def)
    then show ?thesis
      using Iterate_loop_whole_op [of op] Cons.prems(1) unfolding split by (fastforce simp: add.assoc)
  qed
qed simp

text \<open>C20: a batch that was cut off anywhere is never accepted.\<close>

theorem batch_cut_refused:
  assumes "\<forall>op \<in> set ops. batch_op_ok op" "length ops < 2 ^ 32" "n < length (batch_bytes s ops)"
  shows "WriteBatch_Iterate h (take n (batch_bytes s ops)) st \<noteq> Some (Status_OK, st')"
proof (cases "n < batch_kHeader")
  case True
  then have "length (take n (batch_bytes s ops)) < batch_kHeader" by (simp add: min_less_iff_disj)
  then show ?thesis unfolding WriteBatch_Iterate_def by (simp add: batch_corruption_def Status_new_def)
next
  case False
  then have n: "take n (batch_bytes s ops) =
      EncodeFixed64 s @ EncodeFixed32 (of_nat (length ops)) @ take (n - 12) (concat (map batch_op_bytes ops))"
    by (simp add: batch_bytes_def batch_kHeader_def)
  have "Iterate_loop h (0 + of_nat (length ops)) (take (n - 12) (concat (map batch_op_bytes ops))) 0 st \<noteq> Some (Status_OK, st')"
    using assms False by (intro Iterate_loop_cut) (simp_all add: batch_bytes_def batch_kHeader_def)
  then show ?thesis
    unfolding n
    by (simp add: WriteBatch_Iterate_def batch_kHeader_def Batch_Count_def DecodeFixed32_EncodeFixed32)
qed

theorem batch_cut_refused_witness:
  "WriteBatch_Iterate log_handler (take 18 (batch_bytes 7 [BPut [1, 2] [3], BDelete [4]])) [] \<noteq> Some (Status_OK, [])"
  by (rule batch_cut_refused) (simp_all add: batch_bytes_def length_prefixed_def base128_small)

end
