(* ===== verification/Ldb_Env.thy ===== *)
theory Ldb_Env
  imports Ldb_Slice
begin

text \<open>
  leveldb, \<^verbatim>\<open>include/leveldb/env.h\<close> and \<^verbatim>\<open>util/env_posix.cc\<close>: the two kinds of file that a log needs. The virtual classes
  are records of functions over a state of the file; what their clients rely on are the locales \<open>writable_file\<close> and
  \<open>sequential_file\<close>; the classes of \<^verbatim>\<open>env_posix.cc\<close> over a stream of \<^verbatim>\<open>stdio\<close> are instances.
\<close>

section \<open>The virtual classes\<close>

record 'w WritableFile =
  wf_Append :: "slice \<Rightarrow> 'w \<Rightarrow> status \<times> 'w"
  wf_Flush :: "'w \<Rightarrow> status \<times> 'w"
  wf_Sync :: "'w \<Rightarrow> status \<times> 'w"

record 'r SequentialFile =
  sf_Read :: "nat \<Rightarrow> 'r \<Rightarrow> status \<times> slice \<times> 'r"
  sf_Skip :: "nat \<Rightarrow> 'r \<Rightarrow> status \<times> 'r"

text \<open>
  A file that still has room takes what is appended; a file read in sequence gives the next bytes, fewer only at its end.
\<close>

locale writable_file =
  fixes ff :: "'w WritableFile" and content :: "'w \<Rightarrow> byte list" and room :: "'w \<Rightarrow> nat"
  assumes append_ok: "length d \<le> room w \<Longrightarrow> wf_Append ff d w = (s, w') \<Longrightarrow>
      s = Status_OK \<and> content w' = content w @ d \<and> room w' = room w - length d"
    and append_any: "wf_Append ff d w = (s, w') \<Longrightarrow> \<exists>n \<le> length d. content w' = content w @ take n d"
    and flush_ok: "wf_Flush ff w = (s, w') \<Longrightarrow> s = Status_OK \<and> content w' = content w \<and> room w' = room w"

locale sequential_file =
  fixes sf :: "'r SequentialFile" and unread :: "'r \<Rightarrow> byte list"
  assumes read_ok: "sf_Read sf n r = (s, d, r') \<Longrightarrow>
      s = Status_OK \<and> d = take n (unread r) \<and> unread r' = drop n (unread r)"
    and skip_ok: "sf_Skip sf n r = (s, r') \<Longrightarrow> s = Status_OK \<and> unread r' = drop n (unread r)"

text \<open>A file whose \<^verbatim>\<open>Sync\<close> succeeds, and changes nothing of what its clients see.\<close>

locale syncing_file = writable_file ff content room
  for ff :: "'w WritableFile" and content :: "'w \<Rightarrow> byte list" and room :: "'w \<Rightarrow> nat" +
  fixes syncs :: "'w \<Rightarrow> bool"
  assumes append_syncs: "wf_Append ff d w = (s, w') \<Longrightarrow> syncs w' = syncs w"
    and flush_syncs: "wf_Flush ff w = (s, w') \<Longrightarrow> syncs w' = syncs w"
    and sync_ok: "syncs w \<Longrightarrow> wf_Sync ff w = (s, w') \<Longrightarrow>
      s = Status_OK \<and> content w' = content w \<and> room w' = room w \<and> syncs w'"

section \<open>The POSIX environment\<close>

definition Env_IOError :: "string \<Rightarrow> string \<Rightarrow> status" where
  "Env_IOError context strerror = Status_new kIOError context strerror"

text \<open>
  An output stream on a disk with some space left: \<^verbatim>\<open>fwrite\<close> writes what fits and returns the number of bytes;
  \<open>pw_strerror\<close> is the text for the error number that it leaves; \<open>pw_syncs\<close> tells whether the system calls that bring files
  and directories to the disk succeed.
\<close>

record PosixWritableFile =
  pw_filename :: string
  pw_written :: "byte list"
  pw_space :: nat
  pw_strerror :: string
  pw_syncs :: bool

definition fwrite_unlocked :: "byte list \<Rightarrow> PosixWritableFile \<Rightarrow> nat \<times> PosixWritableFile" where
  "fwrite_unlocked data f =
     (let n = min (length data) (pw_space f) in
      (n, f\<lparr>pw_written := pw_written f @ take n data, pw_space := pw_space f - n\<rparr>))"

definition PosixWritable_Append :: "slice \<Rightarrow> PosixWritableFile \<Rightarrow> status \<times> PosixWritableFile" where
  "PosixWritable_Append data f =
     (let (r, f) = fwrite_unlocked data f in
      if r \<noteq> length data then (Env_IOError (pw_filename f) (pw_strerror f), f) else (Status_OK, f))"

text \<open>
  \<^verbatim>\<open>fflush\<close> succeeds: the bytes already count as written, and a disk that is full has shown in \<^verbatim>\<open>fwrite\<close>. The error branch is
  the code's; theorems about any file functions (\<open>'w WritableFile\<close>) cover a flush that fails.
\<close>

definition PosixWritable_Flush :: "PosixWritableFile \<Rightarrow> status \<times> PosixWritableFile" where
  "PosixWritable_Flush f = (let r = (0 :: int) in if r \<noteq> 0 then (Env_IOError (pw_filename f) (pw_strerror f), f) else (Status_OK, f))"

text \<open>A manifest needs its directory on the disk: the part of its name before the last slash.\<close>

definition PosixWritable_SyncDirIfManifest :: "PosixWritableFile \<Rightarrow> status" where
  "PosixWritable_SyncDirIfManifest f =
     (let name = pw_filename f;
          base = rev (takeWhile (\<lambda>c. c \<noteq> CHR ''/'') (rev name));
          dir = (if CHR ''/'' \<in> set name then take (length name - length base - 1) name else ''.'') in
      if take 8 base = ''MANIFEST'' \<and> \<not> pw_syncs f then Env_IOError dir (pw_strerror f) else Status_OK)"

definition PosixWritable_Sync :: "PosixWritableFile \<Rightarrow> status \<times> PosixWritableFile" where
  "PosixWritable_Sync f =
     (let s = PosixWritable_SyncDirIfManifest f in
      if \<not> Status_ok s then (s, f)
      else if \<not> pw_syncs f then (Status_new kIOError (pw_filename f) (pw_strerror f), f)
      else (s, f))"

definition posix_writable :: "PosixWritableFile WritableFile" where
  "posix_writable = \<lparr>wf_Append = PosixWritable_Append, wf_Flush = PosixWritable_Flush, wf_Sync = PosixWritable_Sync\<rparr>"

text \<open>An input stream on a regular file: its bytes, the position, and the end-of-file flag of the last read.\<close>

record PosixSequentialFile =
  ps_filename :: string
  ps_data :: "byte list"
  ps_pos :: nat
  ps_feof :: bool

definition fread_unlocked :: "nat \<Rightarrow> PosixSequentialFile \<Rightarrow> byte list \<times> PosixSequentialFile" where
  "fread_unlocked n f =
     (let d = take n (drop (ps_pos f) (ps_data f)) in
      (d, f\<lparr>ps_pos := ps_pos f + length d, ps_feof := length d < n\<rparr>))"

definition PosixSequential_Read :: "nat \<Rightarrow> PosixSequentialFile \<Rightarrow> status \<times> slice \<times> PosixSequentialFile" where
  "PosixSequential_Read n f =
     (let (d, f) = fread_unlocked n f in
      if length d < n then
        if ps_feof f then (Status_OK, d, f) else (Env_IOError (ps_filename f) ''Input/output error'', d, f)
      else (Status_OK, d, f))"

text \<open>\<^verbatim>\<open>fseek\<close> from the current position succeeds on a regular file, also beyond its end.\<close>

definition PosixSequential_Skip :: "nat \<Rightarrow> PosixSequentialFile \<Rightarrow> status \<times> PosixSequentialFile" where
  "PosixSequential_Skip n f = (Status_OK, f\<lparr>ps_pos := ps_pos f + n, ps_feof := False\<rparr>)"

definition posix_sequential :: "PosixSequentialFile SequentialFile" where
  "posix_sequential = \<lparr>sf_Read = PosixSequential_Read, sf_Skip = PosixSequential_Skip\<rparr>"

interpretation posix_w: writable_file posix_writable pw_written pw_space
proof
  fix d s w w'
  assume app: "wf_Append posix_writable d w = (s, w')"
  show "s = Status_OK \<and> pw_written w' = pw_written w @ d \<and> pw_space w' = pw_space w - length d"
    if "length d \<le> pw_space w"
    using app that by (auto simp: posix_writable_def PosixWritable_Append_def fwrite_unlocked_def Let_def min_def split: if_splits)
  show "\<exists>n \<le> length d. pw_written w' = pw_written w @ take n d"
    using app by (intro exI [of _ "min (length d) (pw_space w)"])
      (auto simp: posix_writable_def PosixWritable_Append_def fwrite_unlocked_def Let_def split: if_splits)
next
  fix s w w'
  assume "wf_Flush posix_writable w = (s, w')"
  then show "s = Status_OK \<and> pw_written w' = pw_written w \<and> pw_space w' = pw_space w"
    by (auto simp: posix_writable_def PosixWritable_Flush_def)
qed

interpretation posix_s: syncing_file posix_writable pw_written pw_space pw_syncs
  by unfold_locales
    (auto simp: posix_writable_def PosixWritable_Append_def PosixWritable_Flush_def PosixWritable_Sync_def
      PosixWritable_SyncDirIfManifest_def fwrite_unlocked_def Let_def split: if_splits)

definition ps_unread :: "PosixSequentialFile \<Rightarrow> byte list" where
  "ps_unread f = drop (ps_pos f) (ps_data f)"

interpretation posix_r: sequential_file posix_sequential ps_unread
proof
  fix n r s d r'
  assume "sf_Read posix_sequential n r = (s, d, r')"
  then show "s = Status_OK \<and> d = take n (ps_unread r) \<and> ps_unread r' = drop n (ps_unread r)"
    by (auto simp: posix_sequential_def PosixSequential_Read_def fread_unlocked_def Let_def ps_unread_def min_def
        add.commute split: if_splits)
next
  fix n r s r'
  assume "sf_Skip posix_sequential n r = (s, r')"
  then show "s = Status_OK \<and> ps_unread r' = drop n (ps_unread r)"
    by (auto simp: posix_sequential_def PosixSequential_Skip_def ps_unread_def add.commute)
qed

end
