(* ===== verification/Ldb_Log.thy ===== *)
theory Ldb_Log
  imports Ldb_Crc Ldb_Env
begin

text \<open>
  leveldb, \<^verbatim>\<open>db/log_format.h\<close>, \<^verbatim>\<open>db/log_writer.cc\<close> and \<^verbatim>\<open>db/log_reader.cc\<close>: the write-ahead log. A log is a sequence of
  blocks of 32 kilobytes; a record is cut into fragments that do not cross a block, each with a checksum, a length
  and a type. The writer and the reader are records with the fields of the two classes.
\<close>
unbundle bit_operations_syntax

section \<open>The format\<close>

text \<open>The types of physical records, and the two further results of reading one.\<close>

abbreviation kZeroType :: u32 where "kZeroType \<equiv> 0"
abbreviation kFullType :: u32 where "kFullType \<equiv> 1"
abbreviation kFirstType :: u32 where "kFirstType \<equiv> 2"
abbreviation kMiddleType :: u32 where "kMiddleType \<equiv> 3"
abbreviation kLastType :: u32 where "kLastType \<equiv> 4"
abbreviation kLogEof :: u32 where "kLogEof \<equiv> 5"
abbreviation kBadRecord :: u32 where "kBadRecord \<equiv> 6"

definition kMaxRecordType :: nat where
  "kMaxRecordType = 4"

definition kBlockSize :: nat where
  "kBlockSize = 32768"

definition kHeaderSize :: nat where
  "kHeaderSize = 4 + 2 + 1"

section \<open>The writer\<close>

text \<open>\<open>'w\<close> is the state of the file \<^verbatim>\<open>dest_\<close>; the functions of its class are an argument of the operations.\<close>

record 'w log_Writer =
  lw_dest :: 'w
  lw_block_offset :: nat
  lw_type_crc :: "u32 list"

text \<open>The addresses of buffers do not matter to their checksums (\<open>Extend_crc32c\<close>): address 0 stands for them.\<close>

definition InitTypeCrc :: "u32 list" where
  "InitTypeCrc = map (\<lambda>i. crc32c_Value 0 [of_nat i]) [0..<kMaxRecordType + 1]"

definition log_Writer_new :: "'w \<Rightarrow> 'w log_Writer" where
  "log_Writer_new dest = \<lparr>lw_dest = dest, lw_block_offset = 0, lw_type_crc = InitTypeCrc\<rparr>"

definition log_Writer_append :: "'w \<Rightarrow> u64 \<Rightarrow> 'w log_Writer" where
  "log_Writer_append dest dest_length =
     \<lparr>lw_dest = dest, lw_block_offset = unat dest_length mod kBlockSize, lw_type_crc = InitTypeCrc\<rparr>"

definition EmitPhysicalRecord ::
  "'w WritableFile \<Rightarrow> u32 \<Rightarrow> byte list \<Rightarrow> 'w log_Writer \<Rightarrow> status \<times> 'w log_Writer" where
  "EmitPhysicalRecord ff t ptr w =
     (let n = length ptr;
          buf = [of_nat (n mod 256), of_nat (n div 256), ucast t];
          crc = crc32c_Extend 0 (lw_type_crc w ! unat t) ptr;
          crc = crc32c_Mask crc;
          buf = EncodeFixed32 crc @ buf;
          (s, dest) = wf_Append ff buf (lw_dest w);
          (s, dest) =
            (if Status_ok s then
               let (s, dest) = wf_Append ff ptr dest in
               if Status_ok s then wf_Flush ff dest else (s, dest)
             else (s, dest)) in
      (s, w\<lparr>lw_dest := dest, lw_block_offset := lw_block_offset w + kHeaderSize + n\<rparr>))"

text \<open>The first part of a turn of \<^verbatim>\<open>AddRecord\<close>: a block with no room for a header is filled up and left.\<close>

definition switch_block :: "'w WritableFile \<Rightarrow> 'w log_Writer \<Rightarrow> 'w log_Writer" where
  "switch_block ff w =
     (let leftover = kBlockSize - lw_block_offset w in
      if leftover < kHeaderSize then
        let dest = (if leftover > 0 then snd (wf_Append ff (replicate leftover 0) (lw_dest w)) else lw_dest w) in
        w\<lparr>lw_dest := dest, lw_block_offset := 0\<rparr>
      else w)"

definition record_type :: "bool \<Rightarrow> bool \<Rightarrow> u32" where
  "record_type at_begin at_end =
     (if at_begin \<and> at_end then kFullType else if at_begin then kFirstType else if at_end then kLastType else kMiddleType)"

text \<open>Two turns of the loop make progress: one may only use up the last seven bytes of a block.\<close>

lemma AddRecord_progress:
  "lw_block_offset w' = lw_block_offset (switch_block ff w) + kHeaderSize +
     min left (kBlockSize - lw_block_offset (switch_block ff w) - kHeaderSize) \<Longrightarrow>
   0 < left - min left (kBlockSize - lw_block_offset (switch_block ff w) - kHeaderSize) \<Longrightarrow>
   2 * (left - min left (kBlockSize - lw_block_offset (switch_block ff w) - kHeaderSize)) +
     (if lw_block_offset w' = kBlockSize - kHeaderSize then 1 else 0)
   < 2 * left + (if lw_block_offset w = kBlockSize - kHeaderSize then 1 else (0 :: nat))"
  by (auto simp: switch_block_def Let_def kBlockSize_def kHeaderSize_def min_def split: if_splits)

function AddRecord_loop ::
  "'w WritableFile \<Rightarrow> bool \<Rightarrow> byte list \<Rightarrow> 'w log_Writer \<Rightarrow> status \<times> 'w log_Writer" where
  "AddRecord_loop ff at_begin ptr w =
     (let w1 = switch_block ff w;
          avail = kBlockSize - lw_block_offset w1 - kHeaderSize;
          fragment_length = (if length ptr < avail then length ptr else avail);
          at_end = (length ptr = fragment_length);
          r = EmitPhysicalRecord ff (record_type at_begin at_end) (take fragment_length ptr) w1 in
      if Status_ok (fst r) \<and> length ptr - fragment_length > 0
      then AddRecord_loop ff False (drop fragment_length ptr) (snd r) else r)"
  by pat_completeness auto
termination
proof (relation "measure (\<lambda>(ff, b, ptr, w). 2 * length ptr +
    (if lw_block_offset w = kBlockSize - kHeaderSize then 1 else 0))", simp, goal_cases)
  case (1 ff at_begin ptr w w1 avail fragment_length at_end r)
  have frag: "fragment_length = min (length ptr) (kBlockSize - lw_block_offset (switch_block ff w) - kHeaderSize)"
    using 1(1-3) by (auto simp: min_def)
  have "lw_block_offset (snd r) = lw_block_offset (switch_block ff w) + kHeaderSize + fragment_length"
    unfolding 1(5) 1(1) by (simp add: EmitPhysicalRecord_def split_beta Let_def frag)
  with 1(6) AddRecord_progress [of "snd r" ff w "length ptr"] show ?case
    unfolding frag by auto
qed

declare AddRecord_loop.simps [simp del]

definition AddRecord :: "'w WritableFile \<Rightarrow> slice \<Rightarrow> 'w log_Writer \<Rightarrow> status \<times> 'w log_Writer" where
  "AddRecord ff data w = AddRecord_loop ff True data w"

section \<open>The reader\<close>

text \<open>
  \<open>'r\<close> is the state of the file. Calls of the reporter are collected in \<open>lr_reports\<close>, when there is a reporter.
  Offsets are 64-bit numbers.
\<close>

record 'r log_Reader =
  lr_file :: 'r
  lr_reporter :: bool
  lr_reports :: "(nat \<times> status) list"
  lr_checksum :: bool
  lr_buffer :: "byte list"
  lr_eof :: bool
  lr_last_record_offset :: u64
  lr_end_of_buffer_offset :: u64
  lr_initial_offset :: u64
  lr_resyncing :: bool

definition log_Reader_new :: "'r \<Rightarrow> bool \<Rightarrow> bool \<Rightarrow> u64 \<Rightarrow> 'r log_Reader" where
  "log_Reader_new file reporter checksum initial_offset =
     \<lparr>lr_file = file, lr_reporter = reporter, lr_reports = [], lr_checksum = checksum, lr_buffer = [],
      lr_eof = False, lr_last_record_offset = 0, lr_end_of_buffer_offset = 0,
      lr_initial_offset = initial_offset, lr_resyncing = (initial_offset > 0)\<rparr>"

definition log_ReportDrop :: "nat \<Rightarrow> status \<Rightarrow> 'r log_Reader \<Rightarrow> 'r log_Reader" where
  "log_ReportDrop bytes reason r =
     (if lr_reporter r \<and>
         lr_end_of_buffer_offset r - of_nat (length (lr_buffer r)) - of_nat bytes \<ge> lr_initial_offset r
      then r\<lparr>lr_reports := lr_reports r @ [(bytes, reason)]\<rparr> else r)"

definition log_ReportCorruption :: "nat \<Rightarrow> string \<Rightarrow> 'r log_Reader \<Rightarrow> 'r log_Reader" where
  "log_ReportCorruption bytes reason r = log_ReportDrop bytes (Status_Corruption reason) r"

definition SkipToInitialBlock :: "'r SequentialFile \<Rightarrow> 'r log_Reader \<Rightarrow> bool \<times> 'r log_Reader" where
  "SkipToInitialBlock sf r =
     (let offset_in_block = lr_initial_offset r mod of_nat kBlockSize;
          block_start_location = lr_initial_offset r - offset_in_block;
          block_start_location =
            (if offset_in_block > of_nat kBlockSize - 6 then block_start_location + of_nat kBlockSize
             else block_start_location);
          r = r\<lparr>lr_end_of_buffer_offset := block_start_location\<rparr> in
      if block_start_location > 0 then
        let (skip_status, f) = sf_Skip sf (unat block_start_location) (lr_file r);
            r = r\<lparr>lr_file := f\<rparr> in
        if \<not> Status_ok skip_status then (False, log_ReportDrop (unat block_start_location) skip_status r)
        else (True, r)
      else (True, r))"

text \<open>
  The type of the physical record, its payload (which stays what it was when there is none) and the new state. The
  byte of the type is a signed \<^verbatim>\<open>char\<close> that becomes an unsigned number.
\<close>

function ReadPhysicalRecord :: "'r SequentialFile \<Rightarrow> slice \<Rightarrow> 'r log_Reader \<Rightarrow> u32 \<times> slice \<times> 'r log_Reader" where
  "ReadPhysicalRecord sf result r =
     (if length (lr_buffer r) < kHeaderSize then
        if \<not> lr_eof r then
          let res = sf_Read sf kBlockSize (lr_file r);
              r1 = r\<lparr>lr_buffer := fst (snd res), lr_file := snd (snd res),
                     lr_end_of_buffer_offset := lr_end_of_buffer_offset r + of_nat (length (fst (snd res)))\<rparr> in
          if \<not> Status_ok (fst res) then
            (kLogEof, result, (log_ReportDrop kBlockSize (fst res) (r1\<lparr>lr_buffer := []\<rparr>))\<lparr>lr_eof := True\<rparr>)
          else if length (lr_buffer r1) < kBlockSize then ReadPhysicalRecord sf result (r1\<lparr>lr_eof := True\<rparr>)
          else ReadPhysicalRecord sf result r1
        else (kLogEof, result, r\<lparr>lr_buffer := []\<rparr>)
      else
        let header = lr_buffer r;
            a = unat (header ! 4);
            b = unat (header ! 5);
            type = (scast (header ! 6) :: u32);
            len = a + b * 256 in
        if kHeaderSize + len > length (lr_buffer r) then
          let drop_size = length (lr_buffer r); r1 = r\<lparr>lr_buffer := []\<rparr> in
          if \<not> lr_eof r1 then (kBadRecord, result, log_ReportCorruption drop_size ''bad record length'' r1)
          else (kLogEof, result, r1)
        else if type = kZeroType \<and> len = 0 then (kBadRecord, result, r\<lparr>lr_buffer := []\<rparr>)
        else if lr_checksum r \<and>
            crc32c_Value 0 (take (1 + len) (drop 6 header)) \<noteq> crc32c_Unmask (DecodeFixed32 header) then
          let drop_size = length (lr_buffer r); r1 = r\<lparr>lr_buffer := []\<rparr> in
          (kBadRecord, result, log_ReportCorruption drop_size ''checksum mismatch'' r1)
        else
          let r1 = r\<lparr>lr_buffer := drop (kHeaderSize + len) header\<rparr> in
          if lr_end_of_buffer_offset r1 - of_nat (length (lr_buffer r1)) - of_nat kHeaderSize - of_nat len
              < lr_initial_offset r1
          then (kBadRecord, [], r1)
          else (type, take len (drop kHeaderSize header), r1))"
  by pat_completeness auto
termination
  by (relation "measure (\<lambda>(sf, result, r). if \<not> lr_eof r \<and> length (lr_buffer r) < kHeaderSize then 1 else 0)")
    (auto simp: kBlockSize_def kHeaderSize_def)

declare ReadPhysicalRecord.simps [simp del]

text \<open>The decimal digits that \<^verbatim>\<open>printf\<close> gives.\<close>

fun decimal :: "nat \<Rightarrow> string" where
  "decimal n = (if n < 10 then [char_of (48 + n)] else decimal (n div 10) @ [char_of (48 + n mod 10)])"

declare decimal.simps [simp del]

text \<open>
  The loop of \<^verbatim>\<open>ReadRecord\<close>, with its local variables: a turn for each physical record. It returns the record, or nothing at
  the end of the input, and the state of the reader.
\<close>

fun ReadRecord_loop ::
  "'r SequentialFile \<Rightarrow> nat \<Rightarrow> bool \<Rightarrow> u64 \<Rightarrow> byte list \<Rightarrow> slice \<Rightarrow> 'r log_Reader \<Rightarrow>
     (slice option \<times> 'r log_Reader) option" where
  "ReadRecord_loop sf 0 in_fragmented_record prospective_record_offset scratch fragment r = None"
| "ReadRecord_loop sf (Suc fuel) in_fragmented_record prospective_record_offset scratch fragment r =
     (let (record_type, fragment, r) = ReadPhysicalRecord sf fragment r;
          physical_record_offset =
            lr_end_of_buffer_offset r - of_nat (length (lr_buffer r)) - of_nat kHeaderSize - of_nat (length fragment);
          again = ReadRecord_loop sf fuel in
      if lr_resyncing r \<and> record_type = kMiddleType then
        again in_fragmented_record prospective_record_offset scratch fragment r
      else if lr_resyncing r \<and> record_type = kLastType then
        again in_fragmented_record prospective_record_offset scratch fragment (r\<lparr>lr_resyncing := False\<rparr>)
      else
        let r = r\<lparr>lr_resyncing := False\<rparr> in
        if record_type = kFullType then
          let r = (if in_fragmented_record \<and> scratch \<noteq> []
                   then log_ReportCorruption (length scratch) ''partial record without end(1)'' r else r) in
          Some (Some fragment, r\<lparr>lr_last_record_offset := physical_record_offset\<rparr>)
        else if record_type = kFirstType then
          let r = (if in_fragmented_record \<and> scratch \<noteq> []
                   then log_ReportCorruption (length scratch) ''partial record without end(2)'' r else r) in
          again True physical_record_offset fragment fragment r
        else if record_type = kMiddleType then
          if \<not> in_fragmented_record then
            again in_fragmented_record prospective_record_offset scratch fragment
              (log_ReportCorruption (length fragment) ''missing start of fragmented record(1)'' r)
          else again in_fragmented_record prospective_record_offset (scratch @ fragment) fragment r
        else if record_type = kLastType then
          if \<not> in_fragmented_record then
            again in_fragmented_record prospective_record_offset scratch fragment
              (log_ReportCorruption (length fragment) ''missing start of fragmented record(2)'' r)
          else Some (Some (scratch @ fragment), r\<lparr>lr_last_record_offset := prospective_record_offset\<rparr>)
        else if record_type = kLogEof then Some (None, r)
        else if record_type = kBadRecord then
          if in_fragmented_record then
            again False prospective_record_offset [] fragment
              (log_ReportCorruption (length scratch) ''error in middle of record'' r)
          else again in_fragmented_record prospective_record_offset scratch fragment r
        else
          again False prospective_record_offset [] fragment
            (log_ReportCorruption (length fragment + (if in_fragmented_record then length scratch else 0))
              (''unknown record type '' @ decimal (unat record_type)) r))"

declare ReadRecord_loop.simps [simp del]

definition ReadRecord :: "'r SequentialFile \<Rightarrow> nat \<Rightarrow> 'r log_Reader \<Rightarrow> (slice option \<times> 'r log_Reader) option" where
  "ReadRecord sf fuel r =
     (let (ok, r) = (if lr_last_record_offset r < lr_initial_offset r then SkipToInitialBlock sf r else (True, r)) in
      if \<not> ok then Some (None, r) else ReadRecord_loop sf fuel False 0 [] [] r)"

end
