(* ===== verification/Ldb_Wal.thy ===== *)
theory Ldb_Wal
  imports Ldb_Log
begin

text \<open>
  The format of the log as a specification (\<open>log_record\<close>, \<open>log_bytes\<close>): the writer refines it, the reader inverts it, also
  on a log that was cut off anywhere, and refuses records whose checksum, type or payload was changed.
\<close>
unbundle bit_operations_syntax

named_theorems log_simps \<open>constants of the log format\<close>

lemmas [log_simps] = kBlockSize_def kHeaderSize_def

section \<open>The specification\<close>

text \<open>A physical record: checksum, length and type, and the payload.\<close>

definition phys_record :: "u32 \<Rightarrow> byte list \<Rightarrow> byte list" where
  "phys_record t d =
     EncodeFixed32 (crc32c_Mask (crc32c 0 (ucast t # d))) @ [of_nat (length d mod 256), of_nat (length d div 256), ucast t] @ d"

text \<open>Where the next header stands: at the start of the next block if there is no room for it in this one.\<close>

definition log_start :: "nat \<Rightarrow> nat" where
  "log_start p = (if 32768 - p mod 32768 < 7 then (p div 32768 + 1) * 32768 else p)"

definition log_avail :: "nat \<Rightarrow> nat" where
  "log_avail p = 32768 - log_start p mod 32768 - 7"

text \<open>A record at position \<open>p\<close> of the log: its fragments, with the zeros before each header.\<close>

definition fragment_type :: "bool \<Rightarrow> bool \<Rightarrow> u32" where
  "fragment_type b e = (if b then if e then 1 else 2 else if e then 4 else 3)"

definition log_fragment :: "nat \<Rightarrow> bool \<Rightarrow> byte list \<Rightarrow> byte list" where
  "log_fragment p b data =
     replicate (log_start p - p) 0 @
     phys_record (fragment_type b (length data \<le> log_avail p)) (take (log_avail p) data)"

lemma log_start_cases:
  obtains "log_start p = p" "p mod 32768 + 7 \<le> 32768"
  | "p < log_start p" "log_start p < p + 7" "log_start p mod 32768 = 0" "32768 < p mod 32768 + 7"
proof (cases "32768 - p mod 32768 < 7")
  case True
  have "p mod 32768 < 32768" by simp
  moreover have "p = p div 32768 * 32768 + p mod 32768" by simp
  ultimately have "p < log_start p" "log_start p < p + 7" "log_start p mod 32768 = 0" "32768 < p mod 32768 + 7"
    using True unfolding log_start_def by (simp_all, linarith+)
  then show ?thesis by (rule that(2))
next
  case False
  then show ?thesis by (intro that(1)) (auto simp: log_start_def)
qed

lemma log_start_ge: "p \<le> log_start p"
  by (cases rule: log_start_cases [of p]) auto

lemma log_start_room: "log_start p mod 32768 + 7 + log_avail p = 32768"
  by (cases rule: log_start_cases [of p]) (auto simp: log_avail_def)

lemma log_next_block: "(log_start p + 7 + log_avail p) mod 32768 = 0"
  by (metis log_start_room add.assoc mod_add_left_eq mod_self)

text \<open>Ends of blocks are a block apart.\<close>

lemma block_multiples: "x mod 32768 = 0 \<Longrightarrow> y mod 32768 = 0 \<Longrightarrow> x < y \<Longrightarrow> x + 32768 \<le> (y :: nat)"
proof -
  assume "x mod 32768 = 0" "y mod 32768 = 0" and less: "x < y"
  then obtain a b where ab: "x = 32768 * a" "y = 32768 * b" by (auto elim!: dvdE simp: mod_eq_0_iff_dvd)
  with less have "a + 1 \<le> b" by simp
  with ab show ?thesis by simp
qed

lemma block_next:
  assumes "e mod 32768 = 0" "p < e" "e \<le> p + (32768 :: nat)"
  shows "e = (p div 32768 + 1) * 32768" "q mod 32768 = 0 \<Longrightarrow> p < q \<Longrightarrow> q < p + 7 \<Longrightarrow> q = e"
proof -
  have eq: "z = e" if "z mod 32768 = 0" "p < z" "z \<le> p + 32768" for z
    using that assms block_multiples [of z e] block_multiples [of e z] by linarith
  define k where "k = p div 32768"
  define m where "m = p mod 32768"
  have "p = k * 32768 + m" "m < 32768" by (simp_all add: k_def m_def)
  then have "p < (k + 1) * 32768" "(k + 1) * 32768 \<le> p + 32768" by simp_all
  then show "e = (p div 32768 + 1) * 32768"
    unfolding k_def [symmetric] by (intro eq [symmetric]) simp_all
  show "q mod 32768 = 0 \<Longrightarrow> p < q \<Longrightarrow> q < p + 7 \<Longrightarrow> q = e"
    by (rule eq) simp_all
qed

lemma block_end: "q mod 32768 + 7 + n \<le> 32768 \<Longrightarrow> q + 7 + n \<le> (q div 32768 + 1) * (32768 :: nat)"
proof -
  assume le: "q mod 32768 + 7 + n \<le> 32768"
  define k where "k = q div 32768"
  have "q = k * 32768 + q mod 32768" by (simp add: k_def)
  with le show ?thesis unfolding k_def [symmetric] by simp
qed

lemma length_phys_record [simp]: "length (phys_record t d) = 7 + length d"
  by (simp add: phys_record_def)

function log_record :: "nat \<Rightarrow> bool \<Rightarrow> byte list \<Rightarrow> byte list" where
  "log_record p b data =
     log_fragment p b data @
     (if length data \<le> log_avail p then []
      else log_record (log_start p + 7 + log_avail p) False (drop (log_avail p) data))"
  by pat_completeness auto
termination
proof (relation "measure (\<lambda>(p, b, data). 2 * length data + (if log_avail p = 0 then 1 else 0))", simp, goal_cases)
  case (1 p b data)
  have "(log_start p + 7 + log_avail p) mod 32768 = 0" by (rule log_next_block)
  then have "log_avail (log_start p + 7 + log_avail p) = 32761"
    by (simp add: log_avail_def log_start_def)
  with 1 show ?case by auto
qed

declare log_record.simps [simp del]

text \<open>The log that holds a list of records.\<close>

fun log_bytes :: "nat \<Rightarrow> slice list \<Rightarrow> byte list" where
  "log_bytes p [] = []"
| "log_bytes p (d # ds) = log_record p True d @ log_bytes (p + length (log_record p True d)) ds"

lemma length_log_fragment:
  "length (log_fragment p b data) = log_start p - p + 7 + min (length data) (log_avail p)"
  by (simp add: log_fragment_def)

lemma log_bytes_append: "log_bytes p (ds @ es) = log_bytes p ds @ log_bytes (p + length (log_bytes p ds)) es"
  by (induction ds arbitrary: p) (simp_all add: add.assoc)

lemma log_record_length: "7 \<le> length (log_record p b data)"
  by (subst log_record.simps) (simp add: length_log_fragment)

section \<open>The writer refines it\<close>

text \<open>A writer that stands at position \<open>p\<close> of its log.\<close>

definition writes_at :: "'w log_Writer \<Rightarrow> nat \<Rightarrow> bool" where
  "writes_at w p \<longleftrightarrow>
     lw_type_crc w = InitTypeCrc \<and> lw_block_offset w \<le> 32768 \<and> lw_block_offset w mod 32768 = p mod 32768"

lemma InitTypeCrc_nth: "unat t \<le> 4 \<Longrightarrow> InitTypeCrc ! unat t = crc32c 0 [ucast t]"
  by (simp add: InitTypeCrc_def kMaxRecordType_def crc32c_Value_def Extend_crc32c del: upt_Suc)

lemma record_type_eq: "record_type b e = fragment_type b e"
  by (simp add: record_type_def fragment_type_def)

lemma record_type_le: "unat (record_type b e) \<le> 4"
  by (simp add: record_type_def)

context writable_file
begin

lemma EmitPhysicalRecord_ok:
  assumes "writes_at w p" "p mod 32768 = lw_block_offset w" "unat t \<le> 4" "lw_block_offset w + 7 + length d \<le> 32768"
    "7 + length d \<le> room (lw_dest w)" "EmitPhysicalRecord ff t d w = (s, w')"
  shows "s = Status_OK \<and> content (lw_dest w') = content (lw_dest w) @ phys_record t d \<and>
    room (lw_dest w') = room (lw_dest w) - (7 + length d) \<and> writes_at w' (p + 7 + length d)"
proof -
  define h where "h = EncodeFixed32 (crc32c_Mask (crc32c 0 (ucast t # d))) @
    [of_nat (length d mod 256), of_nat (length d div 256), ucast t]"
  have crc: "crc32c_Extend 0 (lw_type_crc w ! unat t) d = crc32c 0 (ucast t # d)"
    using assms(1,3) crc32c_append [of 0 "[ucast t]" d]
    by (simp add: writes_at_def InitTypeCrc_nth Extend_crc32c)
  obtain s1 d1 where 1: "wf_Append ff h (lw_dest w) = (s1, d1)" by fastforce
  obtain s2 d2 where 2: "wf_Append ff d d1 = (s2, d2)" by fastforce
  obtain s3 d3 where 3: "wf_Flush ff d2 = (s3, d3)" by fastforce
  have h: "length h = 7" by (simp add: h_def)
  have 1: "wf_Append ff h (lw_dest w) = (Status_OK, d1)" "content d1 = content (lw_dest w) @ h" "room d1 = room (lw_dest w) - 7"
    using append_ok [OF _ 1] 1 h assms(5) by auto
  have 2: "wf_Append ff d d1 = (Status_OK, d2)" "content d2 = content d1 @ d" "room d2 = room d1 - length d"
    using append_ok [OF _ 2] 2 1(3) assms(5) by auto
  have 3: "wf_Flush ff d2 = (Status_OK, d3)" "content d3 = content d2" "room d3 = room d2"
    using flush_ok [OF 3] 3 by auto
  have "s = Status_OK" and w': "w' = w\<lparr>lw_dest := d3, lw_block_offset := lw_block_offset w + 7 + length d\<rparr>"
    using assms(6) 1(1) 2(1) 3(1) by (auto simp: EmitPhysicalRecord_def crc Let_def h_def kHeaderSize_def)
  moreover have "content d3 = content (lw_dest w) @ phys_record t d"
    using 1 2 3 by (simp add: phys_record_def h_def)
  moreover have "writes_at w' (p + 7 + length d)"
    using assms(1,2,4) unfolding w' by (simp add: writes_at_def mod_simps add.assoc) (metis mod_add_left_eq assms(2))
  ultimately show ?thesis using 1 2 3 by simp
qed

lemma switch_block_ok:
  assumes "writes_at w p" "log_start p - p \<le> room (lw_dest w)"
  shows "content (lw_dest (switch_block ff w)) = content (lw_dest w) @ replicate (log_start p - p) 0 \<and>
    room (lw_dest (switch_block ff w)) = room (lw_dest w) - (log_start p - p) \<and>
    writes_at (switch_block ff w) (log_start p) \<and> lw_block_offset (switch_block ff w) = log_start p mod 32768"
proof -
  define off where "off = lw_block_offset w"
  have off: "off \<le> 32768" "off mod 32768 = p mod 32768" "lw_type_crc w = InitTypeCrc"
    using assms(1) by (auto simp: writes_at_def off_def)
  consider (room) "32768 - off \<ge> 7" | (trailer) "32768 - off < 7" "off < 32768" | (full) "off = 32768"
    using off(1) by linarith
  then show ?thesis
  proof cases
    case room
    with off have "off = p mod 32768" by simp
    with room have "log_start p = p" by (simp add: log_start_def)
    with room \<open>off = p mod 32768\<close> assms(1) show ?thesis
      by (simp add: switch_block_def log_simps off_def [symmetric])
  next
    case trailer
    with off have mod: "off = p mod 32768" by simp
    have start: "log_start p - p = 32768 - off" "log_start p mod 32768 = 0"
    proof -
      define k where "k = p div 32768"
      have "log_start p = (k + 1) * 32768" using trailer mod by (simp add: log_start_def k_def)
      moreover have "p = k * 32768 + off" using mod by (simp add: k_def)
      ultimately show "log_start p - p = 32768 - off" "log_start p mod 32768 = 0" by simp_all
    qed
    obtain s d where app: "wf_Append ff (replicate (32768 - off) 0) (lw_dest w) = (s, d)" by fastforce
    have "content d = content (lw_dest w) @ replicate (32768 - off) 0" "room d = room (lw_dest w) - (32768 - off)"
      using append_ok [OF _ app] assms(2) start by auto
    with trailer app start off(3) show ?thesis
      by (simp add: switch_block_def log_simps off_def [symmetric] writes_at_def)
  next
    case full
    with off have "p mod 32768 = 0" by simp
    then have "log_start p = p" by (simp add: log_start_def)
    with full off(3) \<open>p mod 32768 = 0\<close> show ?thesis
      by (simp add: switch_block_def log_simps off_def [symmetric] writes_at_def)
  qed
qed

lemma AddRecord_loop_ok:
  assumes "writes_at w p" "length (log_record p b data) \<le> room (lw_dest w)"
    "AddRecord_loop ff b data w = (s, w')"
  shows "s = Status_OK \<and> content (lw_dest w') = content (lw_dest w) @ log_record p b data \<and>
    room (lw_dest w') = room (lw_dest w) - length (log_record p b data) \<and>
    writes_at w' (p + length (log_record p b data))"
  using assms
proof (induction p b data arbitrary: w rule: log_record.induct)
  case (1 p b data)
  define q where "q = log_start p"
  define n where "n = log_avail p"
  define w1 where "w1 = switch_block ff w"
  have q: "p \<le> q" "q mod 32768 + 7 + n = 32768"
    unfolding q_def n_def by (rule log_start_ge, rule log_start_room)
  have rec: "log_record p b data = log_fragment p b data @
      (if length data \<le> n then [] else log_record (q + 7 + n) False (drop n data))"
    unfolding q_def n_def by (rule log_record.simps)
  have frag: "log_fragment p b data = replicate (q - p) 0 @ phys_record (record_type b (length data \<le> n)) (take n data)"
    by (simp add: log_fragment_def q_def n_def record_type_eq)
  have space: "q - p + (7 + min (length data) n) \<le> room (lw_dest w)"
    using 1(3) unfolding rec frag by simp
  have w1: "content (lw_dest w1) = content (lw_dest w) @ replicate (q - p) 0"
    "room (lw_dest w1) = room (lw_dest w) - (q - p)" "writes_at w1 q" "lw_block_offset w1 = q mod 32768"
    using switch_block_ok [OF 1(2)] space unfolding q_def w1_def by auto
  obtain s2 w2 where emit: "EmitPhysicalRecord ff (record_type b (length data \<le> n)) (take n data) w1 = (s2, w2)"
    by fastforce
  have w2: "s2 = Status_OK" "content (lw_dest w2) = content (lw_dest w) @ log_fragment p b data"
    "room (lw_dest w2) = room (lw_dest w) - length (log_fragment p b data)" "writes_at w2 (q + 7 + min (length data) n)"
    using EmitPhysicalRecord_ok [OF w1(3) w1(4) [symmetric] record_type_le _ _ emit] w1 q space
    unfolding frag by (auto simp: min.commute)
  have n: "kBlockSize - lw_block_offset w1 - kHeaderSize = n"
    using q w1(4) by (simp add: log_simps)
  have len: "(if length data < n then length data else n) = min (length data) n" by simp
  have last: "(length data = min (length data) n) = (length data \<le> n)" by auto
  have take: "take (min (length data) n) data = take n data" by (simp add: min_def)
  have loop: "AddRecord_loop ff b data w =
      (if length data \<le> n then (s2, w2) else AddRecord_loop ff False (drop n data) w2)"
    using w2(1) unfolding AddRecord_loop.simps [of ff b data w] Let_def w1_def [symmetric] n len last take emit
    by (auto simp: min_def)
  show ?case
  proof (cases "length data \<le> n")
    case True
    have "p + length (log_fragment p b data) = q + 7 + min (length data) n"
      using q(1) by (simp add: frag min.commute)
    with True w2 1(4) show ?thesis unfolding rec loop by simp
  next
    case False
    have eq: "p + length (log_fragment p b data) = q + 7 + n"
      using q(1) False by (simp add: frag)
    have "length (log_record (q + 7 + n) False (drop n data)) \<le> room (lw_dest w2)"
      using 1(3) False w2(3) unfolding rec by simp
    moreover have "writes_at w2 (q + 7 + n)" using w2(4) False by (simp add: min_def)
    ultimately have "s = Status_OK \<and>
        content (lw_dest w') = content (lw_dest w2) @ log_record (q + 7 + n) False (drop n data) \<and>
        room (lw_dest w') = room (lw_dest w2) - length (log_record (q + 7 + n) False (drop n data)) \<and>
        writes_at w' (q + 7 + n + length (log_record (q + 7 + n) False (drop n data)))"
      using 1(1) [folded q_def n_def, OF False] 1(4) False unfolding loop by simp
    then show ?thesis using False w2 eq unfolding rec by (simp add: add.assoc [symmetric])
  qed
qed

end

text \<open>A client that appends records in order and stops at the first error.\<close>

fun AddRecords :: "'w WritableFile \<Rightarrow> slice list \<Rightarrow> 'w log_Writer \<Rightarrow> status \<times> 'w log_Writer" where
  "AddRecords ff [] w = (Status_OK, w)"
| "AddRecords ff (d # ds) w =
     (let (s, w) = AddRecord ff d w in if Status_ok s then AddRecords ff ds w else (s, w))"

context writable_file
begin

lemma AddRecords_ok:
  "writes_at w p \<Longrightarrow> length (log_bytes p ds) \<le> room (lw_dest w) \<Longrightarrow> AddRecords ff ds w = (s, w') \<Longrightarrow>
   s = Status_OK \<and> content (lw_dest w') = content (lw_dest w) @ log_bytes p ds \<and>
   room (lw_dest w') = room (lw_dest w) - length (log_bytes p ds) \<and> writes_at w' (p + length (log_bytes p ds))"
proof (induction ds arbitrary: w p)
  case (Cons d ds)
  obtain s1 w1 where 1: "AddRecord_loop ff True d w = (s1, w1)" by fastforce
  have w1: "s1 = Status_OK" "content (lw_dest w1) = content (lw_dest w) @ log_record p True d"
    "room (lw_dest w1) = room (lw_dest w) - length (log_record p True d)"
    "writes_at w1 (p + length (log_record p True d))"
    using AddRecord_loop_ok [OF Cons.prems(1) _ 1] Cons.prems(2) by auto
  have "AddRecords ff ds w1 = (s, w')"
    using Cons.prems(3) 1 w1(1) by (simp add: AddRecord_def)
  then show ?case using Cons.IH [OF w1(4)] Cons.prems(2) w1 by (simp add: add.assoc)
qed simp

end

lemma log_Writer_new_at: "writes_at (log_Writer_new f) 0"
  by (simp add: writes_at_def log_Writer_new_def)

lemma log_Writer_append_at: "n < 2 ^ 64 \<Longrightarrow> writes_at (log_Writer_append f (of_nat n)) n"
  by (simp add: writes_at_def log_Writer_append_def log_simps unat_of_nat less_imp_le)

section \<open>The reader inverts it\<close>

text \<open>
  A reader at position \<open>p\<close> of a file: its buffer holds what is left of a block that ends at \<open>e\<close>.
\<close>

definition reads_at :: "('r \<Rightarrow> byte list) \<Rightarrow> 'r log_Reader \<Rightarrow> byte list \<Rightarrow> nat \<Rightarrow> nat \<Rightarrow> bool" where
  "reads_at unread r file e p \<longleftrightarrow>
     e mod 32768 = 0 \<and> p \<le> e \<and> e \<le> p + 32768 \<and> p \<le> length file \<and> lr_buffer r = drop p (take e file) \<and>
     unread (lr_file r) = drop e file \<and> (lr_eof r \<longleftrightarrow> length file < e) \<and>
     lr_initial_offset r = 0 \<and> \<not> lr_resyncing r"

lemma phys_record_header:
  assumes "length d < 65536" and buf: "buf = phys_record t d @ rest"
  shows "unat (buf ! 4) + unat (buf ! 5) * 256 = length d" "buf ! 6 = ucast t"
    "take (1 + length d) (drop 6 buf) = ucast t # d" "drop 7 buf = d @ rest"
    "crc32c_Unmask (DecodeFixed32 buf) = crc32c 0 (ucast t # d)"
proof -
  define h where "h = EncodeFixed32 (crc32c_Mask (crc32c 0 (ucast t # d)))"
  have h: "length h = 4" by (simp add: h_def)
  have buf': "buf = h @ of_nat (length d mod 256) # of_nat (length d div 256) # ucast t # d @ rest"
    by (simp add: buf phys_record_def h_def)
  have "length d div 256 < 256" using assms(1) by (simp add: div_less_iff_less_mult)
  then show "unat (buf ! 4) + unat (buf ! 5) * 256 = length d"
    unfolding buf' using h by (simp add: nth_append unat_of_nat)
  show "buf ! 6 = ucast t" "take (1 + length d) (drop 6 buf) = ucast t # d" "drop 7 buf = d @ rest"
    unfolding buf' using h by (simp_all add: nth_append)
  show "crc32c_Unmask (DecodeFixed32 buf) = crc32c 0 (ucast t # d)"
    unfolding buf' h_def by (simp only: DecodeFixed32_EncodeFixed32 crc32c_Unmask_Mask)
qed

lemma ReadPhysicalRecord_refill:
  assumes "length (lr_buffer r) < 7" "\<not> lr_eof r" "sf_Read sf kBlockSize (lr_file r) = (Status_OK, d, f)"
  shows "ReadPhysicalRecord sf res r = ReadPhysicalRecord sf res (r\<lparr>lr_buffer := d, lr_file := f,
    lr_end_of_buffer_offset := lr_end_of_buffer_offset r + of_nat (length d), lr_eof := length d < 32768\<rparr>)"
proof -
  have eof: "(r\<lparr>lr_buffer := d, lr_file := f, lr_end_of_buffer_offset := n\<rparr>) =
      r\<lparr>lr_buffer := d, lr_file := f, lr_end_of_buffer_offset := n, lr_eof := False\<rparr>" for n
    using assms(2) by (cases r) simp
  show ?thesis
  proof (cases "length d < 32768")
    case True
    with assms show ?thesis
      by (simp add: ReadPhysicalRecord.simps [of sf res r] Let_def log_simps)
  next
    case False
    with assms show ?thesis
      by (simp add: ReadPhysicalRecord.simps [of sf res r] Let_def log_simps eof [symmetric])
  qed
qed

context sequential_file
begin

lemma read_refill:
  assumes "reads_at unread r file e p" "e < p + 7" "e \<le> length file"
  obtains r' where "ReadPhysicalRecord sf res r = ReadPhysicalRecord sf res r'"
    "reads_at unread r' file (e + 32768) e" "lr_reports r' = lr_reports r"
proof -
  obtain s d f where read: "sf_Read sf kBlockSize (lr_file r) = (s, d, f)" by (metis prod_cases3)
  from read_ok [OF read] assms(1)
  have read': "sf_Read sf kBlockSize (lr_file r) = (Status_OK, take 32768 (drop e file), f)"
    "unread f = drop (e + 32768) file"
    using read by (auto simp: reads_at_def log_simps add.commute)
  define r1 where "r1 = r\<lparr>lr_buffer := take 32768 (drop e file), lr_file := f,
    lr_end_of_buffer_offset := lr_end_of_buffer_offset r + of_nat (length (take 32768 (drop e file))),
    lr_eof := length (take 32768 (drop e file)) < 32768\<rparr>"
  have "ReadPhysicalRecord sf res r = ReadPhysicalRecord sf res r1"
    unfolding r1_def by (rule ReadPhysicalRecord_refill [OF _ _ read'(1)])
      (use assms in \<open>auto simp: reads_at_def log_simps\<close>)
  moreover have "reads_at unread r1 file (e + 32768) e"
    using assms read'(2) by (auto simp: reads_at_def r1_def drop_take)
  ultimately show ?thesis by (rule that) (simp add: r1_def)
qed

lemma read_buffered:
  assumes "reads_at unread r file e q" "drop q file = phys_record t d @ rest" "q + 7 + length d \<le> e"
    "length d < 65536" "t \<in> {1, 2, 3, 4}"
  shows "ReadPhysicalRecord sf res r = (t, d, r\<lparr>lr_buffer := drop (q + 7 + length d) (take e file)\<rparr>)"
proof -
  have "lr_buffer r = take (e - q) (phys_record t d @ rest)"
    using assms(1,2) by (simp add: reads_at_def drop_take)
  then obtain rest' where buf: "lr_buffer r = phys_record t d @ rest'"
    using assms(3) by (simp add: take_append)
  note h = phys_record_header [OF assms(4) buf]
  have "(scast (ucast t :: byte) :: u32) = t" "t \<noteq> 0" using assms(5) by auto
  moreover have "drop (7 + length d) (lr_buffer r) = drop (q + 7 + length d) (take e file)"
    using assms(1) by (simp add: reads_at_def add.commute add.left_commute)
  moreover have "crc32c_Value 0 (ucast t # d) = crc32c 0 (ucast t # d)"
    by (simp add: crc32c_Value_def Extend_crc32c)
  moreover have "length (lr_buffer r) = 7 + length d + length rest'" using buf by simp
  moreover have "lr_initial_offset r = 0" using assms(1) by (simp add: reads_at_def)
  ultimately show ?thesis
    using h by (subst ReadPhysicalRecord.simps) (simp add: log_simps)
qed

lemma read_start:
  assumes "reads_at unread r file e p" "log_start p \<le> length file"
  obtains r1 e1 where "ReadPhysicalRecord sf res r = ReadPhysicalRecord sf res r1"
    "reads_at unread r1 file e1 (log_start p)" "e1 = (log_start p div 32768 + 1) * 32768" "lr_reports r1 = lr_reports r"
proof -
  note result = that
  have e: "e mod 32768 = 0" "p \<le> e" "e \<le> p + 32768" using assms(1) by (auto simp: reads_at_def)
  have refill: thesis if here: "log_start p = e" "e < p + 7"
  proof -
    obtain r1 where r1: "ReadPhysicalRecord sf res r = ReadPhysicalRecord sf res r1"
      "reads_at unread r1 file (e + 32768) e" "lr_reports r1 = lr_reports r"
      using read_refill [OF assms(1) here(2)] assms(2) here(1) by metis
    moreover have "e + 32768 = (log_start p div 32768 + 1) * 32768" using e(1) here(1) by auto
    moreover have "reads_at unread r1 file (e + 32768) (log_start p)" using calculation(2) here(1) by simp
    ultimately show thesis by (intro result [of r1 "e + 32768"])
  qed
  consider (exhausted) "p = e" | (trailer) "p < e" "log_start p \<noteq> p" | (inside) "p < e" "log_start p = p"
    using e(2) by linarith
  then show ?thesis
  proof cases
    case exhausted
    with e(1) have "log_start p = e" by (simp add: log_start_def)
    with exhausted show ?thesis by (intro refill) simp_all
  next
    case trailer
    then have "p < log_start p" "log_start p < p + 7" "log_start p mod 32768 = 0"
      by (cases rule: log_start_cases [of p]; simp)+
    moreover have "log_start p = e"
      using block_next(2) [OF e(1) trailer(1) e(3)] calculation by simp
    ultimately show ?thesis by (intro refill) simp_all
  next
    case inside
    have "e = (p div 32768 + 1) * 32768" using block_next(1) [OF e(1) inside(1) e(3)] .
    then show ?thesis using assms(1) inside(2) by (intro that [of r e]) simp_all
  qed
qed

lemma read_phys:
  assumes "reads_at unread r file e p" "drop (log_start p) file = phys_record t d @ rest"
    "log_start p mod 32768 + 7 + length d \<le> 32768" "t \<in> {1, 2, 3, 4}"
  obtains r' e' where "ReadPhysicalRecord sf res r = (t, d, r')"
    "reads_at unread r' file e' (log_start p + 7 + length d)" "lr_reports r' = lr_reports r"
proof -
  define q where "q = log_start p"
  have fits: "q + 7 + length d \<le> length file"
  proof -
    have "length (drop q file) = 7 + length d + length rest" using assms(2) by (simp add: q_def)
    then show ?thesis by simp
  qed
  then have "log_start p \<le> length file" by (simp add: q_def)
  then obtain r1 e1 where r1: "ReadPhysicalRecord sf res r = ReadPhysicalRecord sf res r1"
    "reads_at unread r1 file e1 q" "e1 = (q div 32768 + 1) * 32768" "lr_reports r1 = lr_reports r"
    using read_start [OF assms(1)] unfolding q_def by metis
  have e1: "q + 7 + length d \<le> e1" using assms(3) unfolding r1(3) q_def [symmetric] by (rule block_end)
  have "length d < 65536" using assms(3) by simp
  then have "ReadPhysicalRecord sf res r = (t, d, r1\<lparr>lr_buffer := drop (q + 7 + length d) (take e1 file)\<rparr>)"
    unfolding r1(1) by (intro read_buffered [OF r1(2) _ e1 _ assms(4)]) (use assms(2) in \<open>simp_all add: q_def\<close>)
  moreover have "reads_at unread (r1\<lparr>lr_buffer := drop (q + 7 + length d) (take e1 file)\<rparr>) file e1 (q + 7 + length d)"
    using r1(2) e1 fits by (simp add: reads_at_def)
  ultimately show ?thesis using r1(4) unfolding q_def
    by (intro that [of "r1\<lparr>lr_buffer := drop (log_start p + 7 + length d) (take e1 file)\<rparr>" e1]) simp_all
qed

text \<open>A file that ends inside a physical record, or before one, is at its end without a complaint.\<close>

lemma read_truncated:
  assumes "reads_at unread r file e p" "file = take m G" "p \<le> m" "m \<le> length G"
    "drop (log_start p) G = phys_record t d @ rest" "log_start p mod 32768 + 7 + length d \<le> 32768"
    "m < log_start p + 7 + length d"
  obtains r' where "ReadPhysicalRecord sf res r = (kLogEof, res, r')" "lr_reports r' = lr_reports r"
    "lr_eof r'" "lr_buffer r' = []" "lr_initial_offset r' = 0" "\<not> lr_resyncing r'"
proof -
  note result = that
  define q where "q = log_start p"
  have m: "length file = m" using assms(2,4) by simp
  have stop: thesis if r1: "ReadPhysicalRecord sf res r = ReadPhysicalRecord sf res r1" "lr_reports r1 = lr_reports r"
    "lr_eof r1" "length (lr_buffer r1) < 7" "lr_initial_offset r1 = 0" "\<not> lr_resyncing r1" for r1
  proof -
    have "ReadPhysicalRecord sf res r1 = (kLogEof, res, r1\<lparr>lr_buffer := []\<rparr>)"
      using r1 by (subst ReadPhysicalRecord.simps) (simp add: log_simps)
    with r1 show thesis by (intro result [of "r1\<lparr>lr_buffer := []\<rparr>"]) simp_all
  qed
  show ?thesis
  proof (cases "q \<le> m")
    case True
    then obtain r1 e1 where r1: "ReadPhysicalRecord sf res r = ReadPhysicalRecord sf res r1"
      "reads_at unread r1 file e1 q" "e1 = (q div 32768 + 1) * 32768" "lr_reports r1 = lr_reports r"
      using read_start [OF assms(1)] m unfolding q_def by metis
    have "q + 7 + length d \<le> e1" using assms(6) unfolding r1(3) q_def [symmetric] by (rule block_end)
    with assms(7) have e1: "m < e1" unfolding q_def [symmetric] by linarith
    have buf: "lr_buffer r1 = take (m - q) (phys_record t d @ rest)"
      using r1(2) e1 assms(2,5) by (simp add: reads_at_def q_def drop_take min_def)
    have len: "length (lr_buffer r1) = m - q"
      using r1(2) e1 m by (simp add: reads_at_def)
    have st: "lr_eof r1" "lr_initial_offset r1 = 0" "\<not> lr_resyncing r1"
      using r1(2) e1 m by (auto simp: reads_at_def)
    show ?thesis
    proof (cases "m - q < 7")
      case True
      with r1 st len show ?thesis by (intro stop [of r1]) simp_all
    next
      case False
      have d: "length d < 65536" using assms(6) by simp
      have "unat (lr_buffer r1 ! 4) + unat (lr_buffer r1 ! 5) * 256 = length d"
        using phys_record_header(1) [OF d refl, of t rest] False unfolding buf by (simp del: take_append)
      moreover have "m - q < 7 + length d" using assms(7) False unfolding q_def [symmetric] by linarith
      ultimately have "ReadPhysicalRecord sf res r1 = (kLogEof, res, r1\<lparr>lr_buffer := []\<rparr>)"
        using False len st assms(7) by (subst ReadPhysicalRecord.simps) (simp add: log_simps q_def [symmetric] Let_def)
      with r1 st show ?thesis by (intro that [of "r1\<lparr>lr_buffer := []\<rparr>"]) simp_all
    qed
  next
    case False
    with assms(3) have "p < q" "q < p + 7" "q mod 32768 = 0"
      unfolding q_def by (cases rule: log_start_cases [of p]; simp)+
    moreover have "e mod 32768 = 0" "p \<le> e" "e \<le> p + 32768" "lr_buffer r = drop p (take e file)"
      "lr_eof r \<longleftrightarrow> m < e" "lr_initial_offset r = 0" "\<not> lr_resyncing r"
      using assms(1) m by (auto simp: reads_at_def)
    moreover have "p \<noteq> e" using block_multiples [of p q] calculation(1-4) by auto
    moreover have "q = e" using block_next(2) [of e p q] calculation by simp
    ultimately show ?thesis using False m by (intro stop [of r]) auto
  qed
qed

end

lemma reads_at_update [simp]:
  "reads_at unread (r\<lparr>lr_last_record_offset := x\<rparr>) file e p \<longleftrightarrow> reads_at unread r file e p"
  by (simp add: reads_at_def)

lemma reads_at_resync [simp]:
  "reads_at unread r file e p \<Longrightarrow> reads_at unread (r\<lparr>lr_resyncing := False\<rparr>) file e p"
  by (simp add: reads_at_def)

lemma reads_at_not_resyncing: "reads_at unread r file e p \<Longrightarrow> \<not> lr_resyncing r"
  by (simp add: reads_at_def)

context sequential_file
begin

lemma read_log_record:
  assumes "reads_at unread r file e p" "drop p file = log_record p b data @ rest" "length (log_record p b data) \<le> fuel"
    "b \<Longrightarrow> scratch = []"
  shows "\<exists>r' e'. ReadRecord_loop sf fuel (\<not> b) pro scratch frag r = Some (Some (scratch @ data), r') \<and>
    reads_at unread r' file e' (p + length (log_record p b data)) \<and> lr_reports r' = lr_reports r"
  using assms
proof (induction p b data arbitrary: r e pro scratch frag fuel rule: log_record.induct)
  case (1 p b data)
  define q where "q = log_start p"
  define n where "n = log_avail p"
  define d where "d = take n data"
  define t where "t = fragment_type b (length data \<le> n)"
  have q: "p \<le> q" "q mod 32768 + 7 + n = 32768"
    unfolding q_def n_def by (rule log_start_ge, rule log_start_room)
  have frag: "log_fragment p b data = replicate (q - p) 0 @ phys_record t d"
    by (simp add: log_fragment_def q_def n_def t_def d_def)
  define more where "more = (if length data \<le> n then [] else log_record (q + 7 + n) False (drop n data))"
  have rec: "log_record p b data = replicate (q - p) 0 @ phys_record t d @ more"
    unfolding more_def using log_record.simps [of p b data] unfolding frag q_def [symmetric] n_def [symmetric] by simp
  have "drop q file = drop (q - p) (drop p file)" using q(1) by simp
  then have at_q: "drop (log_start p) file = phys_record t d @ (more @ rest)"
    using 1(3) unfolding q_def [symmetric] rec by simp
  have fits: "log_start p mod 32768 + 7 + length d \<le> 32768"
    using q(2) by (simp add: q_def [symmetric] d_def)
  have t: "t \<in> {1, 2, 3, 4}" by (simp add: t_def fragment_type_def)
  obtain r1 e1 where r1: "ReadPhysicalRecord sf frag r = (t, d, r1)" "reads_at unread r1 file e1 (q + 7 + length d)"
    "lr_reports r1 = lr_reports r"
    using read_phys [OF 1(2) at_q fits t] unfolding q_def by metis
  note st = reads_at_not_resyncing [OF r1(2)]
  obtain f where f: "fuel = Suc f" "length more \<le> f"
    using 1(4) unfolding rec by (cases fuel) auto
  show ?case
  proof (cases "length data \<le> n")
    case True
    then have "more = []" "d = data" by (simp_all add: more_def d_def)
    moreover have "p + length (log_record p b data) = q + 7 + length d"
      using q(1) \<open>more = []\<close> unfolding rec by simp
    ultimately show ?thesis
      using True r1 st 1(5) reads_at_resync [OF r1(2)] unfolding f(1)
      by (cases b) (auto simp: ReadRecord_loop.simps t_def fragment_type_def Let_def intro!: exI [of _ e1])
  next
    case False
    then have more: "more = log_record (q + 7 + n) False (drop n data)" and d: "length d = n"
      by (simp_all add: more_def d_def)
    have "drop (q + 7 + n) file = drop (7 + n) (drop q file)" by (simp add: add.commute add.left_commute)
    then have rest: "drop (q + 7 + n) file = log_record (q + 7 + n) False (drop n data) @ rest"
      using at_q d more unfolding q_def [symmetric] by simp
    have len: "p + length (log_record p b data) = q + 7 + n + length (log_record (q + 7 + n) False (drop n data))"
      using q(1) d more unfolding rec by simp
    have later: "\<exists>r' e'. ReadRecord_loop sf f True pro' scratch' d (r1\<lparr>lr_resyncing := False\<rparr>) = Some (Some (scratch' @ drop n data), r') \<and>
        reads_at unread r' file e' (p + length (log_record p b data)) \<and> lr_reports r' = lr_reports r" for pro' scratch'
      using 1(1) [folded q_def n_def, OF False, of "r1\<lparr>lr_resyncing := False\<rparr>" e1 f scratch' pro' d] r1 rest f(2) more d len by auto
    have "scratch @ data = (if b then d else scratch @ d) @ drop n data"
      using 1(5) by (auto simp: d_def)
    then show ?thesis
      using False r1 st later [of _ "if b then d else scratch @ d"] 1(5) unfolding f(1)
      by (cases b) (auto simp: ReadRecord_loop.simps t_def fragment_type_def Let_def)
  qed
qed

text \<open>On a log that was cut off inside a record, the record is not there, and nothing is reported.\<close>

lemma read_cut_record:
  assumes "reads_at unread r file e p" "file = take m G" "p \<le> m" "m \<le> length G" "drop p G = log_record p b data @ rest"
    "m < p + length (log_record p b data)" "m - p < fuel"
  shows "\<exists>r'. ReadRecord_loop sf fuel (\<not> b) pro scratch frag r = Some (None, r') \<and> lr_reports r' = lr_reports r \<and>
    lr_eof r' \<and> lr_buffer r' = [] \<and> lr_initial_offset r' = 0 \<and> \<not> lr_resyncing r'"
  using assms
proof (induction p b data arbitrary: r e pro scratch frag fuel rule: log_record.induct)
  case (1 p b data)
  define q where "q = log_start p"
  define n where "n = log_avail p"
  define d where "d = take n data"
  define t where "t = fragment_type b (length data \<le> n)"
  have q: "p \<le> q" "q mod 32768 + 7 + n = 32768"
    unfolding q_def n_def by (rule log_start_ge, rule log_start_room)
  have frag: "log_fragment p b data = replicate (q - p) 0 @ phys_record t d"
    by (simp add: log_fragment_def q_def n_def t_def d_def)
  define more where "more = (if length data \<le> n then [] else log_record (q + 7 + n) False (drop n data))"
  have rec: "log_record p b data = replicate (q - p) 0 @ phys_record t d @ more"
    unfolding more_def using log_record.simps [of p b data] unfolding frag q_def [symmetric] n_def [symmetric] by simp
  have "drop q G = drop (q - p) (drop p G)" using q(1) by simp
  then have at_q: "drop (log_start p) G = phys_record t d @ (more @ rest)"
    using 1(6) unfolding q_def [symmetric] rec by simp
  have fits: "log_start p mod 32768 + 7 + length d \<le> 32768"
    using q(2) by (simp add: q_def [symmetric] d_def)
  have t: "t \<in> {1, 2, 3, 4}" by (simp add: t_def fragment_type_def)
  obtain f where f: "fuel = Suc f" using 1(8) by (cases fuel) auto
  show ?case
  proof (cases "m < log_start p + 7 + length d")
    case True
    then obtain r' where "ReadPhysicalRecord sf frag r = (kLogEof, frag, r')" "lr_reports r' = lr_reports r"
      "lr_eof r'" "lr_buffer r' = []" "lr_initial_offset r' = 0" "\<not> lr_resyncing r'"
      using read_truncated [OF 1(2-5) at_q fits] by metis
    then show ?thesis by (simp add: f ReadRecord_loop.simps)
  next
    case False
    then have cut: "q + 7 + length d \<le> m" by (simp add: q_def)
    have "drop (log_start p) file = take (m - q) (phys_record t d @ (more @ rest))"
      using at_q 1(3) by (simp add: q_def drop_take)
    also have "\<dots> = phys_record t d @ take (m - q - (7 + length d)) (more @ rest)"
      using cut by (simp add: take_append)
    finally obtain rest' where "drop (log_start p) file = phys_record t d @ rest'" by blast
    then obtain r1 e1 where r1: "ReadPhysicalRecord sf frag r = (t, d, r1)" "reads_at unread r1 file e1 (q + 7 + length d)"
      "lr_reports r1 = lr_reports r"
      using read_phys [OF 1(2) _ fits t] unfolding q_def by metis
    note st = reads_at_not_resyncing [OF r1(2)]
    have "\<not> length data \<le> n"
    proof
      assume "length data \<le> n"
      then have "length (log_record p b data) = q - p + 7 + length d"
        by (simp add: rec more_def)
      then show False using 1(7) cut q(1) by simp
    qed
    then have more: "more = log_record (q + 7 + n) False (drop n data)" and d: "length d = n"
      by (simp_all add: more_def d_def)
    have "drop (q + 7 + n) G = drop (7 + n) (drop q G)" by (simp add: add.commute add.left_commute)
    then have rest: "drop (q + 7 + n) G = log_record (q + 7 + n) False (drop n data) @ rest"
      using at_q d more unfolding q_def [symmetric] by simp
    have len: "p + length (log_record p b data) = q + 7 + n + length (log_record (q + 7 + n) False (drop n data))"
      using q(1) d more unfolding rec by simp
    have later: "\<exists>r'. ReadRecord_loop sf f True pro' scratch' d (r1\<lparr>lr_resyncing := False\<rparr>) = Some (None, r') \<and>
        lr_reports r' = lr_reports r \<and> lr_eof r' \<and> lr_buffer r' = [] \<and> lr_initial_offset r' = 0 \<and> \<not> lr_resyncing r'"
      for pro' scratch'
    proof -
      have "m < q + 7 + n + length (log_record (q + 7 + n) False (drop n data))" using 1(7) len by simp
      moreover have "m - (q + 7 + n) < f" using 1(8) cut q(1) d unfolding f by simp
      ultimately show ?thesis
        using 1(1) [folded q_def n_def, OF \<open>\<not> length data \<le> n\<close>, of "r1\<lparr>lr_resyncing := False\<rparr>" e1 f pro' scratch' d]
          r1 rest cut d 1(3,5) by auto
    qed
    then show ?thesis
      using \<open>\<not> length data \<le> n\<close> r1 st later unfolding f
      by (cases b) (simp_all add: ReadRecord_loop.simps t_def fragment_type_def Let_def)
  qed
qed

end

section \<open>Whole logs\<close>

text \<open>A client that reads records until there are no more, as the recovery of a database does.\<close>

fun ReadRecords :: "'r SequentialFile \<Rightarrow> nat \<Rightarrow> nat \<Rightarrow> 'r log_Reader \<Rightarrow> (slice list \<times> 'r log_Reader) option" where
  "ReadRecords sf fuel 0 r = None"
| "ReadRecords sf fuel (Suc n) r =
     (case ReadRecord sf fuel r of
        None \<Rightarrow> None
      | Some (None, r) \<Rightarrow> Some ([], r)
      | Some (Some d, r) \<Rightarrow> map_option (\<lambda>(ds, r). (d # ds, r)) (ReadRecords sf fuel n r))"

lemma ReadRecord_at: "lr_initial_offset r = 0 \<Longrightarrow> ReadRecord sf fuel r = ReadRecord_loop sf fuel False 0 [] [] r"
  by (simp add: ReadRecord_def)

text \<open>Reading gives these records, then the end of the file, and reports nothing.\<close>

primrec reads_quiet :: "'r SequentialFile \<Rightarrow> nat \<Rightarrow> slice list \<Rightarrow> 'r log_Reader \<Rightarrow> bool" where
  "reads_quiet sf fuel [] r \<longleftrightarrow> (\<exists>r'. ReadRecord sf fuel r = Some (None, r') \<and> lr_reports r' = lr_reports r)"
| "reads_quiet sf fuel (d # ds) r \<longleftrightarrow>
     (\<exists>r'. ReadRecord sf fuel r = Some (Some d, r') \<and> lr_reports r' = lr_reports r \<and> reads_quiet sf fuel ds r')"

lemma ReadRecords_quiet:
  "reads_quiet sf fuel ds r \<Longrightarrow> length ds < turns \<Longrightarrow>
   \<exists>r'. ReadRecords sf fuel turns r = Some (ds, r') \<and> lr_reports r' = lr_reports r"
proof (induction ds arbitrary: r turns)
  case Nil
  then show ?case by (cases turns) auto
next
  case (Cons d ds)
  then obtain n r1 where "turns = Suc n" "length ds < n" "ReadRecord sf fuel r = Some (Some d, r1)"
    "lr_reports r1 = lr_reports r" "reads_quiet sf fuel ds r1"
    by (cases turns) auto
  with Cons.IH [of r1 n] show ?case by fastforce
qed

context sequential_file
begin

lemma read_cut_log:
  assumes "reads_at unread r file e p" "file = take m G" "p \<le> m" "m \<le> length G" "drop p G = log_bytes p ds"
    "length G < fuel"
  shows "\<exists>k. k \<le> length ds \<and> reads_quiet sf fuel (take k ds) r \<and>
    p + length (log_bytes p (take k ds)) \<le> m \<and> (k < length ds \<longrightarrow> m < p + length (log_bytes p (take (Suc k) ds)))"
  using assms
proof (induction ds arbitrary: r e p)
  case Nil
  define G' where "G' = G @ log_record p True []"
  have r0: "lr_initial_offset r = 0" using Nil(1) by (simp add: reads_at_def)
  have "length G \<le> p" using Nil(5) by simp
  then have "m = p" "p = length G" using Nil(3,4) by auto
  then have "file = take m G'" "drop p G' = log_record p True [] @ []" "m < p + length (log_record p True [])"
    using Nil(2) log_record_length [of p True "[]"] by (auto simp: G'_def)
  then obtain r' where "ReadRecord_loop sf fuel False 0 [] [] r = Some (None, r')" "lr_reports r' = lr_reports r"
    using read_cut_record [OF Nil(1), of m G' True "[]" "[]" fuel 0 "[]" "[]"] \<open>m = p\<close> Nil(6) \<open>p = length G\<close>
    by (auto simp: G'_def)
  then show ?case
    using \<open>m = p\<close> by (simp add: ReadRecord_at [OF r0])
next
  case (Cons d ds)
  have r0: "lr_initial_offset r = 0" using Cons.prems(1) by (simp add: reads_at_def)
  define l where "l = length (log_record p True d)"
  have rest: "drop (p + l) G = log_bytes (p + l) ds"
    using Cons.prems(5) by (simp add: l_def add.commute [of p] flip: drop_drop)
  show ?case
  proof (cases "m < p + l")
    case True
    have "m - p < fuel" using Cons.prems(4,6) by simp
    then obtain r' where "ReadRecord_loop sf fuel False 0 [] [] r = Some (None, r')" "lr_reports r' = lr_reports r"
      using read_cut_record [OF Cons.prems(1-4), of True d "log_bytes (p + l) ds" fuel 0 "[]" "[]"] Cons.prems(5) True
      by (auto simp: l_def)
    then show ?thesis
      using True Cons.prems(3) by (intro exI [of _ 0]) (simp add: ReadRecord_at [OF r0] l_def)
  next
    case False
    have "drop p file = take (m - p) (log_record p True d @ log_bytes (p + l) ds)"
      using Cons.prems(2,5) by (simp add: drop_take l_def)
    also have "\<dots> = log_record p True d @ take (m - p - l) (log_bytes (p + l) ds)"
      using False by (simp add: l_def)
    finally have at_p: "drop p file = log_record p True d @ take (m - p - l) (log_bytes (p + l) ds)" .
    have "length (log_record p True d) \<le> fuel"
      using False Cons.prems(4,6) by (simp add: l_def)
    then obtain r1 e1 where r1: "ReadRecord_loop sf fuel False 0 [] [] r = Some (Some d, r1)"
      "reads_at unread r1 file e1 (p + l)" "lr_reports r1 = lr_reports r"
      using read_log_record [OF Cons.prems(1) at_p, of fuel "[]" 0 "[]"] by (auto simp: l_def)
    obtain k where k: "k \<le> length ds" "reads_quiet sf fuel (take k ds) r1"
      "p + l + length (log_bytes (p + l) (take k ds)) \<le> m"
      "k < length ds \<longrightarrow> m < p + l + length (log_bytes (p + l) (take (Suc k) ds))"
      using Cons.IH [OF r1(2) Cons.prems(2) _ Cons.prems(4) rest Cons.prems(6)] False by auto
    then show ?thesis
      using r1(1,3) by (intro exI [of _ "Suc k"])
        (simp add: ReadRecord_at [OF r0] l_def [symmetric] add.assoc)
  qed
qed

lemma log_Reader_new_at: "unread f = file \<Longrightarrow> reads_at unread (log_Reader_new f rep chk 0) file 0 0"
  by (simp add: reads_at_def log_Reader_new_def)

end

section \<open>Logs in files\<close>

text \<open>The length of a short record at the start of a log, for concrete logs.\<close>

lemma log_record_short:
  "p + 7 + length d \<le> 32768 \<Longrightarrow> length (log_record p b d) = 7 + length d"
proof -
  assume le: "p + 7 + length d \<le> 32768"
  then have "log_start p = p" by (simp add: log_start_def)
  moreover have "length d \<le> log_avail p" using le by (simp add: log_avail_def \<open>log_start p = p\<close>)
  ultimately show ?thesis by (subst log_record.simps) (simp add: length_log_fragment)
qed

text \<open>
  C9: a writer on a new file, and a second one that is opened behind what the first one wrote, leave the log
  of all the records in the file, byte for byte: fragments, checksums, trailers.
\<close>

theorem log_writer_refines_format:
  assumes "pw_written f = []" "length (log_bytes 0 (ds @ es)) \<le> pw_space f" "length (log_bytes 0 ds) < 2 ^ 64"
  defines "w \<equiv> AddRecords posix_writable ds (log_Writer_new f)"
  defines "v \<equiv> AddRecords posix_writable es
                (log_Writer_append (lw_dest (snd w)) (of_nat (length (pw_written (lw_dest (snd w))))))"
  shows "fst w = Status_OK \<and> fst v = Status_OK \<and>
    pw_written (lw_dest (snd w)) = log_bytes 0 ds \<and> pw_written (lw_dest (snd v)) = log_bytes 0 (ds @ es)"
proof -
  have w: "fst w = Status_OK \<and> pw_written (lw_dest (snd w)) = log_bytes 0 ds \<and>
      pw_space (lw_dest (snd w)) = pw_space f - length (log_bytes 0 ds)"
    using posix_w.AddRecords_ok [OF log_Writer_new_at, of ds f "fst w" "snd w"] assms(1,2)
    by (simp add: w_def log_Writer_new_def log_bytes_append)
  moreover have "fst v = Status_OK \<and> pw_written (lw_dest (snd v)) = log_bytes 0 (ds @ es)"
    using posix_w.AddRecords_ok [OF log_Writer_append_at [OF assms(3)], of es "lw_dest (snd w)" "fst v" "snd v"] w assms(2)
    by (simp add: v_def log_Writer_append_def log_bytes_append)
  ultimately show ?thesis by simp
qed

definition empty_wfile :: "nat \<Rightarrow> PosixWritableFile" where
  "empty_wfile n = \<lparr>pw_filename = ''LOG'', pw_written = [], pw_space = n, pw_strerror = ''No space left on device'', pw_syncs = True\<rparr>"

definition rfile :: "byte list \<Rightarrow> PosixSequentialFile" where
  "rfile bs = \<lparr>ps_filename = ''LOG'', ps_data = bs, ps_pos = 0, ps_feof = False\<rparr>"

theorem log_writer_refines_format_witness:
  "fst (AddRecords posix_writable [[1, 2], []] (log_Writer_new (empty_wfile 100))) = Status_OK"
  using log_writer_refines_format [of "empty_wfile 100" "[[1, 2], []]" "[[3]]"]
  by (simp add: empty_wfile_def log_record_short)

text \<open>
  C2: whatever prefix of the log a crash leaves in the file, reading it gives back exactly the records that are
  completely there, in their order, and reports no corruption; a log that was not cut gives them all.
\<close>

theorem log_crash_recovery:
  assumes "pw_written f = []" "length (log_bytes 0 ds) \<le> pw_space f" "length (log_bytes 0 ds) < fuel"
    "length ds < turns" "m \<le> length (log_bytes 0 ds)"
  defines "file \<equiv> pw_written (lw_dest (snd (AddRecords posix_writable ds (log_Writer_new f))))"
  shows "\<exists>k r. k \<le> length ds \<and>
    ReadRecords posix_sequential fuel turns (log_Reader_new (rfile (take m file)) reporter checksum 0) = Some (take k ds, r) \<and>
    lr_reports r = [] \<and> length (log_bytes 0 (take k ds)) \<le> m \<and>
    (k = length ds \<or> m < length (log_bytes 0 (take (Suc k) ds)))"
proof -
  have whole: "file = log_bytes 0 ds"
    using posix_w.AddRecords_ok [OF log_Writer_new_at, of ds f] assms(1,2)
    by (metis file_def append_Nil log_Writer_new_def log_Writer.select_convs(1) prod.collapse)
  have "reads_at ps_unread (log_Reader_new (rfile (take m file)) reporter checksum 0) (take m file) 0 0"
    by (rule posix_r.log_Reader_new_at) (simp add: ps_unread_def rfile_def)
  from posix_r.read_cut_log [OF this refl, of ds fuel] assms(3,5)
  obtain k where k: "k \<le> length ds" "reads_quiet posix_sequential fuel (take k ds)
      (log_Reader_new (rfile (take m file)) reporter checksum 0)"
    "length (log_bytes 0 (take k ds)) \<le> m" "k < length ds \<longrightarrow> m < length (log_bytes 0 (take (Suc k) ds))"
    by (auto simp: whole)
  with ReadRecords_quiet [OF k(2), of turns] assms(4) show ?thesis
    by (intro exI [of _ k]) (auto simp: log_Reader_new_def)
qed

theorem log_crash_recovery_witness:
  "\<exists>k r. k \<le> length [[1, 2], [3 :: byte]] \<and>
    ReadRecords posix_sequential 50 3 (log_Reader_new (rfile (take 12 (pw_written (lw_dest (snd
      (AddRecords posix_writable [[1, 2], [3]] (log_Writer_new (empty_wfile 100)))))))) True True 0) =
      Some (take k [[1, 2], [3]], r) \<and> lr_reports r = [] \<and> length (log_bytes 0 (take k [[1, 2], [3]])) \<le> 12 \<and>
      (k = length [[1, 2], [3 :: byte]] \<or> 12 < length (log_bytes 0 (take (Suc k) [[1, 2], [3]])))"
  by (rule log_crash_recovery) (simp_all add: empty_wfile_def log_record_short)

text \<open>Different stored checksums stay different.\<close>

lemma inj_crc32c_Unmask: "inj crc32c_Unmask"
  by (rule finite_UNIV_surj_inj [OF finite_class.finite_UNIV]) (rule surjI [of _ crc32c_Mask], simp)

lemma DecodeFixed32_inj: "length c = 4 \<Longrightarrow> length c' = 4 \<Longrightarrow> DecodeFixed32 c = DecodeFixed32 c' \<Longrightarrow> c = c'"
  by (metis EncodeFixed32_DecodeFixed32)

lemma DecodeFixed32_append: "length c = 4 \<Longrightarrow> DecodeFixed32 (c @ xs) = DecodeFixed32 c"
  by (simp add: DecodeFixed32_eq)

lemma scast_byte_0: "(scast (b :: byte) :: u32) = 0 \<Longrightarrow> b = 0"
proof (rule bit_word_eqI)
  fix n :: nat assume b: "(scast b :: u32) = 0" and n: "n < LENGTH(8)"
  have "bit (scast b :: u32) n = bit b n" using n by (simp add: bit_signed_iff)
  with b show "bit b n = bit (0 :: byte) n" by simp
qed

text \<open>The reader on a header and a body whose checksum is not the stored one.\<close>

lemma ReadPhysicalRecord_mismatch:
  assumes "lr_buffer r = c @ l @ body @ rest" "length c = 4" "l = [of_nat (n mod 256), of_nat (n div 256)]" "n < 65536"
    "length body = Suc n" "hd body \<noteq> 0 \<or> n \<noteq> 0" "lr_checksum r"
    "crc32c 0 body \<noteq> crc32c_Unmask (DecodeFixed32 c)"
  shows "ReadPhysicalRecord sf res r =
    (kBadRecord, res, log_ReportCorruption (length (lr_buffer r)) ''checksum mismatch'' (r\<lparr>lr_buffer := []\<rparr>))"
proof -
  obtain b bs where body: "body = b # bs" using assms(5) by (cases body) auto
  have buf: "lr_buffer r = c @ of_nat (n mod 256) # of_nat (n div 256) # body @ rest" using assms(1,3) by simp
  have "n div 256 < 256" using assms(4) by (simp add: div_less_iff_less_mult)
  then have len: "unat (lr_buffer r ! 4) + unat (lr_buffer r ! 5) * 256 = n"
    unfolding buf using assms(2) by (simp add: nth_append unat_of_nat)
  have ty: "lr_buffer r ! 6 = b" "take (Suc n) (drop 6 (lr_buffer r)) = body"
    unfolding buf using assms(2,5) by (simp_all add: nth_append body)
  have "crc32c_Value 0 body \<noteq> crc32c_Unmask (DecodeFixed32 (lr_buffer r))"
    using assms(8) unfolding buf DecodeFixed32_append [OF assms(2)] crc32c_Value_def Extend_crc32c .
  moreover have "\<not> ((scast b :: u32) = kZeroType \<and> n = 0)"
    using assms(6) scast_byte_0 [of b] by (auto simp: body)
  moreover have "length (lr_buffer r) = 7 + n + length rest" using assms(2,5) unfolding buf by simp
  ultimately show ?thesis
    using len ty assms(7) by (subst ReadPhysicalRecord.simps) (auto simp: log_simps Let_def)
qed

text \<open>
  C13: a physical record as it was written, whose length bytes \<open>l\<close> are intact. If its stored checksum differs in any way, or its
  type and payload in up to four consecutive bytes, a reader with checksums on never returns it: it drops the rest of the
  block and reports it. The one exception is a record without payload whose type becomes zero, which is skipped without a
  report.
\<close>

theorem log_detects_corruption:
  assumes "phys_record t d = c @ l @ a @ x @ e" "length c = 4" "length l = 2" "length d < 65536"
    "lr_buffer r = c' @ l @ (a @ y @ e) @ rest" "length c' = 4" "length y = length x" "length x \<le> 4"
    "c' \<noteq> c \<and> y = x \<or> c' = c \<and> y \<noteq> x" "d \<noteq> [] \<or> hd (a @ y @ e) \<noteq> 0" "lr_checksum r"
  shows "ReadPhysicalRecord sf res r =
    (kBadRecord, res, log_ReportCorruption (length (lr_buffer r)) ''checksum mismatch'' (r\<lparr>lr_buffer := []\<rparr>))"
proof -
  define n where "n = length d"
  have "EncodeFixed32 (crc32c_Mask (crc32c 0 (ucast t # d))) @ [of_nat (n mod 256), of_nat (n div 256)] @ ucast t # d =
      c @ l @ a @ x @ e"
    using assms(1) by (simp add: phys_record_def n_def)
  moreover obtain l0 l1 where "l = [l0, l1]" using assms(3) by (auto simp: length_Suc_conv numeral_2_eq_2)
  ultimately have parts: "c = EncodeFixed32 (crc32c_Mask (crc32c 0 (ucast t # d)))"
    "l = [of_nat (n mod 256), of_nat (n div 256)]" "a @ x @ e = ucast t # d"
    using assms(2,3) by (auto simp: append_eq_append_conv)
  have c: "crc32c_Unmask (DecodeFixed32 c) = crc32c 0 (a @ x @ e)"
    using DecodeFixed32_EncodeFixed32 [of _ "[]"] unfolding parts by simp
  have "crc32c 0 (a @ y @ e) \<noteq> crc32c_Unmask (DecodeFixed32 c')"
    using assms(9)
  proof
    assume *: "c' \<noteq> c \<and> y = x"
    then have "DecodeFixed32 c \<noteq> DecodeFixed32 c'" using DecodeFixed32_inj assms(2,6) by metis
    then have "crc32c_Unmask (DecodeFixed32 c) \<noteq> crc32c_Unmask (DecodeFixed32 c')"
      using inj_eq [OF inj_crc32c_Unmask] by blast
    with * show ?thesis unfolding c by simp
  next
    assume *: "c' = c \<and> y \<noteq> x"
    then show ?thesis
      using burst_changes_crc [OF assms(8,7), of 0 0 a e 0] by (auto simp: c Extend_crc32c)
  qed
  moreover have "length (a @ y @ e) = Suc n" using arg_cong [OF parts(3), of length] assms(7) by (simp add: n_def)
  ultimately show ?thesis
    using ReadPhysicalRecord_mismatch [OF assms(5,6) parts(2)] assms(4,10,11) by (auto simp: n_def)
qed

theorem log_detects_corruption_witness:
  "ReadPhysicalRecord posix_sequential [] ((log_Reader_new (rfile []) True True 0)
      \<lparr>lr_buffer := take 6 (phys_record kFullType [5]) @ [3, 6]\<rparr>) =
    (kBadRecord, [], log_ReportCorruption 8 ''checksum mismatch''
      ((log_Reader_new (rfile []) True True 0)\<lparr>lr_buffer := []\<rparr>))"
proof -
  define c where "c = EncodeFixed32 (crc32c_Mask (crc32c 0 [ucast kFullType, 5]))"
  have c: "length c = 4" "phys_record kFullType [5] = c @ [1, 0] @ [] @ [1, 5] @ []"
    by (simp_all add: c_def phys_record_def)
  define r where "r = (log_Reader_new (rfile []) True True 0)\<lparr>lr_buffer := c @ [1, 0] @ ([] @ [3, 6] @ []) @ []\<rparr>"
  have "ReadPhysicalRecord posix_sequential [] r =
      (kBadRecord, [], log_ReportCorruption (length (lr_buffer r)) ''checksum mismatch'' (r\<lparr>lr_buffer := []\<rparr>))"
    by (rule log_detects_corruption [OF c(2,1), where c' = c and y = "[3, 6]" and rest = "[]"])
      (simp_all add: r_def c(1) log_Reader_new_def)
  with c show ?thesis by (simp add: r_def log_Reader_new_def)
qed

end
