(* ===== verification/Ldb_Db.thy ===== *)
theory Ldb_Db
  imports Ldb_Batch Ldb_Wal
begin

text \<open>
  leveldb, \<^verbatim>\<open>db/db_impl.cc\<close>: how a write reaches the log and the memory table, and how opening a database after a crash
  puts the log back into memory tables. A queue of writers waits; the one at its front writes for several of them in one
  batch. What other threads do while a writer gives up the lock is an argument: a list of changes of the database, one
  for each time (a delay, a wait for a compaction, the time in which the batch goes to the log, to the disk and to the
  memory table). Writing a memory table to a file of level 0 is an argument of the recovery.
\<close>

section \<open>Writers and groups\<close>

text \<open>A waiting writer; no batch is a request for a compaction.\<close>

record DbWriter =
  wr_batch :: "WriteBatch option"
  wr_sync :: bool

text \<open>
  The loop over the writers behind the first one: \<open>result\<close> is the batch so far, \<open>first\<close> tells that it is still that of the
  first writer, \<open>last_writer\<close> is the index of the last one taken in.
\<close>

fun BuildBatchGroup_loop ::
  "bool \<Rightarrow> nat \<Rightarrow> WriteBatch \<Rightarrow> DbWriter list \<Rightarrow> nat \<Rightarrow> WriteBatch \<Rightarrow> bool \<Rightarrow> nat \<Rightarrow> WriteBatch \<times> bool \<times> nat" where
  "BuildBatchGroup_loop first_sync max_size tmp_batch [] sum_size result first last_writer = (result, first, last_writer)"
| "BuildBatchGroup_loop first_sync max_size tmp_batch (w # ws) sum_size result first last_writer =
     (if wr_sync w \<and> \<not> first_sync then (result, first, last_writer)
      else
        (case wr_batch w of
           Some batch \<Rightarrow>
             let sum_size = sum_size + Batch_ByteSize batch in
             if sum_size > max_size then (result, first, last_writer)
             else
               let result = (if first then Batch_Append tmp_batch result else result);
                   result = Batch_Append result batch in
               BuildBatchGroup_loop first_sync max_size tmp_batch ws sum_size result False (last_writer + 1)
         | None \<Rightarrow>
             BuildBatchGroup_loop first_sync max_size tmp_batch ws sum_size result first (last_writer + 1)))"

definition BuildBatchGroup :: "WriteBatch \<Rightarrow> WriteBatch \<Rightarrow> bool \<Rightarrow> DbWriter list \<Rightarrow> WriteBatch \<times> bool \<times> nat" where
  "BuildBatchGroup tmp_batch first_batch first_sync others =
     (let sum_size = Batch_ByteSize first_batch;
          max_size = (if sum_size \<le> 131072 then sum_size + 131072 else 1048576) in
      BuildBatchGroup_loop first_sync max_size tmp_batch others sum_size first_batch True 0)"

section \<open>The database\<close>

text \<open>
  The part of the database that a write uses. \<open>db_next_file\<close> and \<open>db_level0\<close> are the number of the next file and the number
  of tables at level 0, which the set of versions keeps.
\<close>

record 'w DBImpl =
  db_log :: "'w log_Writer"
  db_logfile_number :: u64
  db_mem :: MemTable
  db_imm :: "MemTable option"
  db_tmp_batch :: WriteBatch
  db_last_sequence :: SequenceNumber
  db_next_file :: u64
  db_level0 :: nat
  db_bg_error :: status

text \<open>Its options and its environment: \<open>de_new_file\<close> makes the log file of a number.\<close>

record 'w DBEnv =
  de_files :: "'w WritableFile"
  de_new_file :: "u64 \<Rightarrow> status \<times> 'w"
  de_compare :: "slice \<Rightarrow> slice \<Rightarrow> int"
  de_new_char :: "Arena \<Rightarrow> nat \<Rightarrow> addr"
  de_write_buffer :: nat

definition kL0_SlowdownWritesTrigger :: nat where
  "kL0_SlowdownWritesTrigger = 8"

definition kL0_StopWritesTrigger :: nat where
  "kL0_StopWritesTrigger = 12"

definition NewFileNumber :: "'w DBImpl \<Rightarrow> u64 \<times> 'w DBImpl" where
  "NewFileNumber db = (db_next_file db, db\<lparr>db_next_file := db_next_file db + 1\<rparr>)"

definition ReuseFileNumber :: "u64 \<Rightarrow> 'w DBImpl \<Rightarrow> 'w DBImpl" where
  "ReuseFileNumber file_number db =
     (if db_next_file db = file_number + 1 then db\<lparr>db_next_file := file_number\<rparr> else db)"

definition RecordBackgroundError :: "status \<Rightarrow> 'w DBImpl \<Rightarrow> 'w DBImpl" where
  "RecordBackgroundError s db = (if Status_ok (db_bg_error db) then db\<lparr>db_bg_error := s\<rparr> else db)"

text \<open>
  A new log file and a new memory table; the full one becomes \<open>db_imm\<close>, to be compacted by another thread.
\<close>

definition switch_memtable :: "'w DBEnv \<Rightarrow> 'w DBImpl \<Rightarrow> status \<times> 'w DBImpl" where
  "switch_memtable env db =
     (let (new_log_number, db) = NewFileNumber db;
          (s, lfile) = de_new_file env new_log_number in
      if \<not> Status_ok s then (s, ReuseFileNumber new_log_number db)
      else
        (s, db\<lparr>db_logfile_number := new_log_number, db_log := log_Writer_new lfile, db_imm := Some (db_mem db),
               db_mem := MemTable_Ref (MemTable_new (de_new_char env))\<rparr>))"

text \<open>
  The loop of \<^verbatim>\<open>MakeRoomForWrite\<close>. \<open>others\<close> is what other threads do each time the lock is given up: for a delay, or to wait
  for a compaction. When it is used up, the writer waits forever.
\<close>

function MakeRoomForWrite_loop ::
  "'w DBEnv \<Rightarrow> ('w DBImpl \<Rightarrow> 'w DBImpl) list \<Rightarrow> bool \<Rightarrow> bool \<Rightarrow> 'w DBImpl \<Rightarrow>
     (status \<times> 'w DBImpl \<times> ('w DBImpl \<Rightarrow> 'w DBImpl) list) option" where
  "MakeRoomForWrite_loop env others allow_delay force db =
     (if \<not> Status_ok (db_bg_error db) then Some (db_bg_error db, db, others)
      else if allow_delay \<and> db_level0 db \<ge> kL0_SlowdownWritesTrigger then
        (case others of [] \<Rightarrow> None | other # others \<Rightarrow> MakeRoomForWrite_loop env others False force (other db))
      else if \<not> force \<and> MemTable_ApproximateMemoryUsage (db_mem db) \<le> de_write_buffer env then
        Some (Status_OK, db, others)
      else if db_imm db \<noteq> None then
        (case others of [] \<Rightarrow> None | other # others \<Rightarrow> MakeRoomForWrite_loop env others allow_delay force (other db))
      else if db_level0 db \<ge> kL0_StopWritesTrigger then
        (case others of [] \<Rightarrow> None | other # others \<Rightarrow> MakeRoomForWrite_loop env others allow_delay force (other db))
      else
        let r = switch_memtable env db in
        if \<not> Status_ok (fst r) then Some (fst r, snd r, others)
        else MakeRoomForWrite_loop env others allow_delay False (snd r))"
  by pat_completeness auto
termination
  by (relation "measure (\<lambda>(env, others, allow_delay, force, db). 2 * length others + (if db_imm db = None then 1 else 0))")
    (auto simp: switch_memtable_def NewFileNumber_def Let_def split: prod.splits if_splits)

declare MakeRoomForWrite_loop.simps [simp del]

definition MakeRoomForWrite ::
  "'w DBEnv \<Rightarrow> ('w DBImpl \<Rightarrow> 'w DBImpl) list \<Rightarrow> bool \<Rightarrow> 'w DBImpl \<Rightarrow>
     (status \<times> 'w DBImpl \<times> ('w DBImpl \<Rightarrow> 'w DBImpl) list) option" where
  "MakeRoomForWrite env others force db = MakeRoomForWrite_loop env others (\<not> force) force db"

section \<open>Writing\<close>

text \<open>
  The lock is released and taken back: the next of the changes that other threads make. When there is none left, they change
  nothing. The log and the memory table belong to the writer at the front of the queue meanwhile.
\<close>

definition release_lock :: "('w DBImpl \<Rightarrow> 'w DBImpl) list \<Rightarrow> 'w DBImpl \<Rightarrow> 'w DBImpl \<times> ('w DBImpl \<Rightarrow> 'w DBImpl) list" where
  "release_lock others db = (case others of [] \<Rightarrow> (db, []) | other # others \<Rightarrow> (other db, others))"

text \<open>
  The batch goes to the log, to the disk if the writer asks for it, and to the memory table, without the lock. A failure of
  the disk is recorded when the lock is held again, unless an error of another thread is there by then.
\<close>

definition log_and_apply ::
  "'w DBEnv \<Rightarrow> ('w DBImpl \<Rightarrow> 'w DBImpl) list \<Rightarrow> bool \<Rightarrow> WriteBatch \<Rightarrow> 'w DBImpl \<Rightarrow>
     (status \<times> 'w DBImpl \<times> ('w DBImpl \<Rightarrow> 'w DBImpl) list) option" where
  "log_and_apply env others sync updates db =
     (let (status, log) = AddRecord (de_files env) (Batch_Contents updates) (db_log db);
          (status, dest, sync_error) =
            (if Status_ok status \<and> sync then
               let (status, dest) = wf_Sync (de_files env) (lw_dest log) in (status, dest, \<not> Status_ok status)
             else (status, lw_dest log, False)) in
      do {
        (status, mem) \<leftarrow>
          (if Status_ok status then Batch_InsertInto (de_compare env) (de_new_char env) updates (db_mem db)
           else Some (status, db_mem db));
        let (db, others) = release_lock others db;
        let db = db\<lparr>db_log := log\<lparr>lw_dest := dest\<rparr>, db_mem := mem\<rparr>;
        Some (status, if sync_error then RecordBackgroundError status db else db, others)
      })"

text \<open>
  The writer \<open>w\<close> is at the front of the queue, \<open>ws\<close> are behind it when it looks at them (later ones stand behind those). The result: the status of the writers that leave the
  queue, \<open>w\<close> first; those that stay; the database. A count is an \<^verbatim>\<open>int\<close> that is converted to 64 bits.
\<close>

definition DBImpl_Write ::
  "'w DBEnv \<Rightarrow> ('w DBImpl \<Rightarrow> 'w DBImpl) list \<Rightarrow> DbWriter \<Rightarrow> DbWriter list \<Rightarrow> 'w DBImpl \<Rightarrow>
     (status list \<times> DbWriter list \<times> 'w DBImpl \<times> ('w DBImpl \<Rightarrow> 'w DBImpl) list) option" where
  "DBImpl_Write env others w ws db =
     do {
       (status, db, others) \<leftarrow> MakeRoomForWrite env others (wr_batch w = None) db;
       let last_sequence = db_last_sequence db;
       (case (if Status_ok status then wr_batch w else None) of
          None \<Rightarrow> Some ([status], ws, db, others)
        | Some my_batch \<Rightarrow>
            let (updates, first, last_writer) = BuildBatchGroup (db_tmp_batch db) my_batch (wr_sync w) ws;
                updates = Batch_SetSequence updates (last_sequence + 1);
                last_sequence = last_sequence + scast (Batch_Count updates) in
            do {
              (status, db, others) \<leftarrow> log_and_apply env others (wr_sync w) updates db;
              let db = (if first then db else db\<lparr>db_tmp_batch := WriteBatch_Clear updates\<rparr>);
              Some (replicate (last_writer + 1) status, drop last_writer ws, db\<lparr>db_last_sequence := last_sequence\<rparr>, others)
            })
     }"

section \<open>Recovery\<close>

definition MaybeIgnoreError :: "bool \<Rightarrow> status \<Rightarrow> status" where
  "MaybeIgnoreError paranoid_checks s = (if Status_ok s \<or> paranoid_checks then s else Status_OK)"

text \<open>The reporter keeps the first error when it is to be taken seriously.\<close>

definition LogReporter_Corruption :: "bool \<Rightarrow> status \<Rightarrow> status \<Rightarrow> status" where
  "LogReporter_Corruption paranoid_checks s status = (if paranoid_checks \<and> Status_ok status then s else status)"

text \<open>
  The local variables of \<^verbatim>\<open>RecoverLogFile\<close>, with its results. \<open>rs_edit\<close> is the edit of the versions that the tables are
  written into.
\<close>

record 'e RecoverState =
  rs_status :: status
  rs_mem :: "MemTable option"
  rs_max_sequence :: SequenceNumber
  rs_compactions :: nat
  rs_save_manifest :: bool
  rs_edit :: 'e

text \<open>\<open>write_table\<close> is \<^verbatim>\<open>WriteLevel0Table\<close>.\<close>

definition flush_full ::
  "nat \<Rightarrow> (MemTable \<Rightarrow> 'e \<Rightarrow> status \<times> 'e) \<Rightarrow> 'e RecoverState \<Rightarrow> 'e RecoverState" where
  "flush_full write_buffer_size write_table st =
     (case rs_mem st of
        None \<Rightarrow> st
      | Some mem \<Rightarrow>
          if MemTable_ApproximateMemoryUsage mem > write_buffer_size then
            let (status, edit) = write_table mem (rs_edit st) in
            st\<lparr>rs_compactions := rs_compactions st + 1, rs_save_manifest := True, rs_status := status, rs_edit := edit,
               rs_mem := None\<rparr>
          else st)"

text \<open>What becomes of one record of the log, and whether the loop goes on.\<close>

definition recover_record ::
  "(slice \<Rightarrow> slice \<Rightarrow> int) \<Rightarrow> (Arena \<Rightarrow> nat \<Rightarrow> addr) \<Rightarrow> bool \<Rightarrow> nat \<Rightarrow> (MemTable \<Rightarrow> 'e \<Rightarrow> status \<times> 'e) \<Rightarrow> slice \<Rightarrow>
     'e RecoverState \<Rightarrow> (bool \<times> 'e RecoverState) option" where
  "recover_record user_compare new_char paranoid_checks write_buffer_size write_table record st =
     (if length record < 12 then
        let s = Status_new kCorruption ''log record too small'' [] in
        Some (True, st\<lparr>rs_status := LogReporter_Corruption paranoid_checks s (rs_status st)\<rparr>)
      else
        let batch = Batch_SetContents [] record;
            mem = (case rs_mem st of None \<Rightarrow> MemTable_Ref (MemTable_new new_char) | Some mem \<Rightarrow> mem) in
        do {
          (status, mem) \<leftarrow> Batch_InsertInto user_compare new_char batch mem;
          let status = MaybeIgnoreError paranoid_checks status;
          let st = st\<lparr>rs_status := status, rs_mem := Some mem\<rparr>;
          if \<not> Status_ok status then Some (False, st)
          else
            let last_seq = Batch_Sequence batch + scast (Batch_Count batch) - 1;
                st = (if last_seq > rs_max_sequence st then st\<lparr>rs_max_sequence := last_seq\<rparr> else st);
                st = flush_full write_buffer_size write_table st in
            Some (Status_ok (rs_status st), st)
        })"

text \<open>The reports of the reader since it was called, and the loop over the records of the log.\<close>

definition status_after_reports :: "bool \<Rightarrow> (nat \<times> status) list \<Rightarrow> status \<Rightarrow> status" where
  "status_after_reports paranoid_checks reports status =
     fold (\<lambda>(bytes, s) status. LogReporter_Corruption paranoid_checks s status) reports status"

fun RecoverLogFile_loop ::
  "'r SequentialFile \<Rightarrow> nat \<Rightarrow> (slice \<Rightarrow> 'e RecoverState \<Rightarrow> (bool \<times> 'e RecoverState) option) \<Rightarrow> bool \<Rightarrow> nat \<Rightarrow>
     'r log_Reader \<Rightarrow> 'e RecoverState \<Rightarrow> 'e RecoverState option" where
  "RecoverLogFile_loop sf fuel each paranoid_checks 0 reader st = None"
| "RecoverLogFile_loop sf fuel each paranoid_checks (Suc turns) reader st =
     do {
       (record, reader') \<leftarrow> ReadRecord sf fuel reader;
       let reports = drop (length (lr_reports reader)) (lr_reports reader');
       let st = st\<lparr>rs_status := status_after_reports paranoid_checks reports (rs_status st)\<rparr>;
       (case record of
          None \<Rightarrow> Some st
        | Some record \<Rightarrow>
            if \<not> Status_ok (rs_status st) then Some st
            else
              do {
                (go_on, st) \<leftarrow> each record st;
                if go_on then RecoverLogFile_loop sf fuel each paranoid_checks turns reader' st else Some st
              })
     }"

text \<open>
  When the options ask for it, the last log is used again if all of it is in the memory table: \<open>reuse\<close> holds what its size
  and opening it to append gave. The new writer and the memory table are those of the database then.
\<close>

definition reuse_log ::
  "(Arena \<Rightarrow> nat \<Rightarrow> addr) \<Rightarrow> (status \<times> u64 \<times> status \<times> 'w) option \<Rightarrow> 'e RecoverState \<Rightarrow>
     ('w log_Writer \<times> MemTable) option \<times> 'e RecoverState" where
  "reuse_log new_char reuse st =
     (case reuse of
        None \<Rightarrow> (None, st)
      | Some (got_size, lfile_size, got_file, logfile) \<Rightarrow>
          if Status_ok (rs_status st) \<and> rs_compactions st = 0 \<and> Status_ok got_size \<and> Status_ok got_file then
            let mem = (case rs_mem st of None \<Rightarrow> MemTable_Ref (MemTable_new new_char) | Some mem \<Rightarrow> mem) in
            (Some (log_Writer_append logfile lfile_size, mem), st\<lparr>rs_mem := None\<rparr>)
          else (None, st))"

definition write_rest :: "(MemTable \<Rightarrow> 'e \<Rightarrow> status \<times> 'e) \<Rightarrow> 'e RecoverState \<Rightarrow> 'e RecoverState" where
  "write_rest write_table st =
     (case rs_mem st of
        None \<Rightarrow> st
      | Some mem \<Rightarrow>
          if Status_ok (rs_status st) then
            let (status, edit) = write_table mem (rs_edit st) in
            st\<lparr>rs_save_manifest := True, rs_status := status, rs_edit := edit, rs_mem := None\<rparr>
          else st\<lparr>rs_mem := None\<rparr>)"

text \<open>
  \<open>opened\<close> is what opening the file gave. The reader is made with checksums, from the start of the file, and always
  reports. The rest of the memory table is written to a file in the end.
\<close>

definition RecoverLogFile ::
  "'r SequentialFile \<Rightarrow> nat \<Rightarrow> nat \<Rightarrow> (slice \<Rightarrow> slice \<Rightarrow> int) \<Rightarrow> (Arena \<Rightarrow> nat \<Rightarrow> addr) \<Rightarrow> bool \<Rightarrow> nat \<Rightarrow>
     (MemTable \<Rightarrow> 'e \<Rightarrow> status \<times> 'e) \<Rightarrow> (status \<times> u64 \<times> status \<times> 'w) option \<Rightarrow> status \<times> 'r \<Rightarrow> 'e \<Rightarrow> SequenceNumber \<Rightarrow>
     (('w log_Writer \<times> MemTable) option \<times> 'e RecoverState) option" where
  "RecoverLogFile sf fuel turns user_compare new_char paranoid_checks write_buffer_size write_table reuse opened edit
       max_sequence =
     (let (status, file) = opened;
          st = \<lparr>rs_status = status, rs_mem = None, rs_max_sequence = max_sequence, rs_compactions = 0,
                rs_save_manifest = False, rs_edit = edit\<rparr> in
      if \<not> Status_ok status then Some (None, st\<lparr>rs_status := MaybeIgnoreError paranoid_checks status\<rparr>)
      else
        do {
          st \<leftarrow> RecoverLogFile_loop sf fuel
            (recover_record user_compare new_char paranoid_checks write_buffer_size write_table) paranoid_checks turns
            (log_Reader_new file True True 0) st;
          let (reused, st) = reuse_log new_char reuse st;
          Some (reused, write_rest write_table st)
        })"

end
