(* ===== verification/Ldb_Durable.thy ===== *)
theory Ldb_Durable
  imports Ldb_Db
begin

text \<open>
  What the writes of a database promise: everything that was acknowledged is in the memory table, and comes back from
  whatever a crash leaves of the log; a failure of the disk stays; the writers that are grouped get the guarantee they
  asked for. The model is \<open>Ldb_Db\<close>; the theorems rest on the log (\<open>Ldb_Wal\<close>), the memory table (\<open>Ldb_Memtable\<close>) and
  the batches (\<open>Ldb_Batch\<close>).
\<close>

section \<open>Clients\<close>

text \<open>Updates that wait to be written, and a database that is new.\<close>

definition queued :: "batch_op list \<times> bool \<Rightarrow> DbWriter" where
  "queued q = \<lparr>wr_batch = Some (BuildBatch (fst q) WriteBatch_new), wr_sync = snd q\<rparr>"

definition empty_db :: "'w DBEnv \<Rightarrow> u64 \<Rightarrow> 'w \<Rightarrow> 'w DBImpl" where
  "empty_db env number f =
     \<lparr>db_log = log_Writer_new f, db_logfile_number = number, db_mem = MemTable_Ref (MemTable_new (de_new_char env)),
      db_imm = None, db_tmp_batch = WriteBatch_new, db_last_sequence = 0, db_next_file = number + 1, db_level0 = 0,
      db_bg_error = Status_OK\<rparr>"

text \<open>A queue is worked off; each turn takes at least one writer out of it.\<close>

fun WriteQueue ::
  "'w DBEnv \<Rightarrow> nat \<Rightarrow> ('w DBImpl \<Rightarrow> 'w DBImpl) list \<Rightarrow> DbWriter list \<Rightarrow> 'w DBImpl \<Rightarrow> (status list \<times> 'w DBImpl) option" where
  "WriteQueue env turns others [] db = Some ([], db)"
| "WriteQueue env 0 others (w # ws) db = None"
| "WriteQueue env (Suc turns) others (w # ws) db =
     do {
       (statuses, ws, db, others) \<leftarrow> DBImpl_Write env others w ws db;
       (more, db) \<leftarrow> WriteQueue env turns others ws db;
       Some (statuses @ more, db)
     }"

section \<open>The specification\<close>

text \<open>Updates with their sequence numbers, and the batches of updates as they follow each other in the log.\<close>

fun batch_mem_ops :: "nat \<Rightarrow> batch_op list \<Rightarrow> mem_op list" where
  "batch_mem_ops n [] = []"
| "batch_mem_ops n (BPut key val # ops) = (of_nat n, kTypeValue, key, val) # batch_mem_ops (Suc n) ops"
| "batch_mem_ops n (BDelete key # ops) = (of_nat n, kTypeDeletion, key, []) # batch_mem_ops (Suc n) ops"

fun numbered :: "nat \<Rightarrow> batch_op list list \<Rightarrow> WriteBatch list" where
  "numbered n [] = []"
| "numbered n (g # gs) = batch_bytes (of_nat (Suc n)) g # numbered (n + length g) gs"

text \<open>Keys must leave room for a number in the length of an entry.\<close>

fun db_op_ok :: "batch_op \<Rightarrow> bool" where
  "db_op_ok (BPut key val) \<longleftrightarrow> length key + 8 < 2 ^ 32 \<and> length val < 2 ^ 32"
| "db_op_ok (BDelete key) \<longleftrightarrow> length key + 8 < 2 ^ 32"

text \<open>What a memory table answers when it holds these updates, for every key and every snapshot.\<close>

definition answers :: "(slice \<Rightarrow> slice \<Rightarrow> int) \<Rightarrow> nat \<Rightarrow> MemTable \<Rightarrow> batch_op list \<Rightarrow> bool" where
  "answers ucmp n m ops \<longleftrightarrow>
     (\<forall>key s val st. length key + 8 < 2 ^ 32 \<longrightarrow> s \<le> kMaxSequenceNumber \<longrightarrow>
        MemTable_Get ucmp (LookupKey_new key s) val st m =
          Some (lookup_result (last_op ucmp key s (batch_mem_ops n ops)) val st))"

text \<open>Tables that hold the updates between them, the older ones first.\<close>

fun tables_hold :: "(slice \<Rightarrow> slice \<Rightarrow> int) \<Rightarrow> nat \<Rightarrow> MemTable list \<Rightarrow> batch_op list \<Rightarrow> bool" where
  "tables_hold ucmp n [] ops \<longleftrightarrow> ops = []"
| "tables_hold ucmp n (m # ms) ops \<longleftrightarrow>
     (\<exists>k \<le> length ops. answers ucmp n m (take k ops) \<and> tables_hold ucmp (n + k) ms (drop k ops))"

text \<open>How much of a memory table and of a log the updates can need.\<close>

fun op_room :: "batch_op \<Rightarrow> nat" where
  "op_room (BPut key val) = 8500 + length key + length val"
| "op_room (BDelete key) = 8500 + length key"

definition mem_room :: "batch_op list \<Rightarrow> nat" where
  "mem_room ops = 4300 + sum_list (map op_room ops)"

definition log_room :: "batch_op list list \<Rightarrow> nat" where
  "log_room gs = sum_list (map (\<lambda>g. 44 + 2 * length (concat (map batch_op_bytes g))) gs)"

section \<open>Updates and batches\<close>

lemma batch_mem_ops_append: "batch_mem_ops n (ds @ es) = batch_mem_ops n ds @ batch_mem_ops (n + length ds) es"
  by (induction n ds rule: batch_mem_ops.induct) simp_all

lemma batch_mem_ops_numbers: "map fst (batch_mem_ops n ops) = map of_nat [n..<n + length ops]"
  by (induction n ops rule: batch_mem_ops.induct) (simp_all add: upt_conv_Cons del: upt_Suc)

lemma batch_mem_ops_ok:
  "\<forall>op \<in> set ops. db_op_ok op \<Longrightarrow> n + length ops < 2 ^ 32 \<Longrightarrow> \<forall>e \<in> set (batch_mem_ops n ops). op_ok e"
proof (induction n ops rule: batch_mem_ops.induct)
qed (auto simp: kMaxSequenceNumber_def kTypeValue_def kTypeDeletion_def word_le_nat_alt unat_of_nat)

lemma batch_mem_ops_sorted:
  assumes "n + length ops < 2 ^ 32"
  shows "sorted_wrt (<) (map fst (batch_mem_ops n ops))"
proof -
  have "sorted_wrt (\<lambda>i j. of_nat i < (of_nat j :: u64)) [n..<n + length ops]"
    using assms by (intro sorted_wrt_mono_rel [OF _ sorted_wrt_upt]) (auto simp: word_less_nat_alt unat_of_nat)
  then show ?thesis by (simp add: batch_mem_ops_numbers sorted_wrt_map)
qed

lemma db_op_batch_ok: "db_op_ok op \<Longrightarrow> batch_op_ok op"
  by (cases op) auto

lemma numbered_append: "numbered n (gs @ hs) = numbered n gs @ numbered (n + length (concat gs)) hs"
  by (induction n gs rule: numbered.induct) (simp_all add: add.assoc)

lemma length_numbered [simp]: "length (numbered n gs) = length gs"
  by (induction n gs rule: numbered.induct) simp_all

lemma take_numbered: "take k (numbered n gs) = numbered n (take k gs)"
  by (induction n gs arbitrary: k rule: numbered.induct) (simp_all add: take_Cons split: nat.splits)

text \<open>A batch that is inserted adds its updates to the memory table, under the numbers that follow its own.\<close>

lemma inserter_AddAll:
  "apply_ops (MemTableInserter ucmp new_char) ops (of_nat n, m) =
   map_option (Pair (of_nat (n + length ops))) (AddAll ucmp new_char (batch_mem_ops n ops) m)"
proof (induction n ops arbitrary: m rule: batch_mem_ops.induct)
qed (auto simp: MemTableInserter_def add.commute split: Option.bind_splits)

lemma InsertInto_AddAll:
  assumes "\<forall>op \<in> set ops. db_op_ok op"
  shows "Batch_InsertInto ucmp new_char (batch_bytes (of_nat n) ops) m =
    map_option (Pair Status_OK) (AddAll ucmp new_char (batch_mem_ops n ops) m)"
  using assms inserter_AddAll [of ucmp new_char ops n m]
  by (auto simp: Batch_InsertInto_def batch_header WriteBatch_Iterate_ops db_op_batch_ok split: Option.bind_splits)

section \<open>Room\<close>

lemma Allocate_usage:
  "Arena_MemoryUsage (snd (Arena_Allocate new_char n a)) \<le> Arena_MemoryUsage a + 4104 + n"
  "Arena_MemoryUsage (snd (Arena_AllocateAligned new_char n a)) \<le> Arena_MemoryUsage a + 4104 + n"
  by (simp_all add: Arena_Allocate_def Arena_AllocateAligned_def AllocateFallback_def AllocateNewBlock_def
      arena_kBlockSize_def Arena_MemoryUsage_def Let_def)

lemma MemTable_Add_usage:
  assumes "MemTable_Add ucmp new_char s t key val m = Some m'" "length key + 8 < 2 ^ 32" "length val < 2 ^ 32"
  shows "MemTable_ApproximateMemoryUsage m' \<le> MemTable_ApproximateMemoryUsage m + 8500 + length key + length val"
proof -
  define n where "n = VarintLength (of_nat (length key + 8)) + (length key + 8) + VarintLength (of_nat (length val)) + length val"
  define h where "h = node_size (fst (RandomHeight (sl_rnd (mt_table m))))"
  define a where "a = snd (Arena_Allocate new_char n (mt_arena m))"
  have "n \<le> 18 + length key + length val"
    using assms(2,3) length_base128 [of "length key + 8" 5] length_base128 [of "length val" 5]
      VarintLength_loop_base128 [of "of_nat (length key + 8)" 1] VarintLength_loop_base128 [of "of_nat (length val)" 1]
    by (simp add: n_def VarintLength_def unat_of_nat del: of_nat_add)
  moreover have "h \<le> 104"
    using RandomHeight_range [of "sl_rnd (mt_table m)"] unfolding h_def node_size_def kMaxHeight_def by linarith
  moreover have "mt_arena m' = snd (Arena_AllocateAligned new_char h a)"
    using assms(1) by (auto simp: MemTable_Add_def Let_def case_prod_beta n_def h_def a_def split: Option.bind_splits)
  ultimately show ?thesis
    using Allocate_usage(1) [of new_char n "mt_arena m"] Allocate_usage(2) [of new_char h a]
    unfolding MemTable_ApproximateMemoryUsage_def a_def by simp
qed

lemma AddAll_usage:
  "\<forall>op \<in> set ops. db_op_ok op \<Longrightarrow> AddAll ucmp new_char (batch_mem_ops n ops) m = Some m' \<Longrightarrow>
   MemTable_ApproximateMemoryUsage m' \<le> MemTable_ApproximateMemoryUsage m + sum_list (map op_room ops)"
proof (induction n ops arbitrary: m rule: batch_mem_ops.induct)
  case (2 n key val ops)
  then show ?case by (auto split: Option.bind_splits dest!: MemTable_Add_usage) force
next
  case (3 n key ops)
  then show ?case by (auto split: Option.bind_splits dest!: MemTable_Add_usage) force
qed simp

lemma MemTable_new_usage: "MemTable_ApproximateMemoryUsage (MemTable_new new_char) \<le> 4300"
  using Allocate_usage(2) [of new_char "node_size kMaxHeight" Arena_new]
  by (simp add: MemTable_ApproximateMemoryUsage_def MemTable_new_def node_size_def kMaxHeight_def
      Arena_new_def Arena_MemoryUsage_def)

lemma log_record_block: "log_start p = p \<Longrightarrow> log_avail p = 32761 \<Longrightarrow> length (log_record p b d) \<le> 7 + 2 * length d"
proof (induction p b d rule: log_record.induct)
  case (1 p b d)
  define q where "q = p + 7 + 32761"
  have "q mod 32768 = 0" using log_next_block [of p] 1(2,3) by (simp add: q_def)
  then have "log_start q = q" "log_avail q = 32761" by (simp_all add: log_start_def log_avail_def)
  with 1 show ?case
    by (subst log_record.simps) (auto simp: length_log_fragment q_def)
qed

lemma length_log_record_le: "length (log_record p b d) \<le> 20 + 2 * length d"
proof -
  define q where "q = log_start p + 7 + log_avail p"
  have "q mod 32768 = 0" by (simp add: q_def log_next_block)
  then have "log_start q = q" "log_avail q = 32761" by (simp_all add: log_start_def log_avail_def)
  then have "length (log_record q False (drop (log_avail p) d)) \<le> 7 + 2 * (length d - log_avail p)"
    using log_record_block [of q False "drop (log_avail p) d"] by simp
  moreover have "log_start p - p \<le> 6" by (cases rule: log_start_cases [of p]) auto
  ultimately show ?thesis
    by (subst log_record.simps) (auto simp: length_log_fragment q_def)
qed

lemma length_log_bytes_le: "length (log_bytes p ds) \<le> sum_list (map (\<lambda>d. 20 + 2 * length d) ds)"
proof (induction ds arbitrary: p)
  case (Cons d ds)
  then show ?case using length_log_record_le [of p True d] by (simp add: add_mono)
qed simp

lemma log_room_append: "log_room (gs @ hs) = log_room gs + log_room hs"
  by (simp add: log_room_def)

text \<open>A group of batches needs no more room than the batches alone.\<close>

lemma log_room_concat: "gs \<noteq> [] \<Longrightarrow> log_room [concat gs] \<le> log_room gs"
  by (induction gs rule: list_nonempty_induct) (simp_all add: log_room_def)

lemma log_room_groups: "\<forall>h \<in> set hs. h \<noteq> [] \<Longrightarrow> log_room (map concat hs) \<le> log_room (concat hs)"
proof (induction hs)
  case (Cons h hs)
  then show ?case
    using log_room_concat [of h] log_room_append [of "[concat h]" "map concat hs"] by (simp add: log_room_append)
qed simp

lemma numbered_log_room: "length (log_bytes p (numbered n gs)) \<le> log_room gs"
proof (induction gs arbitrary: p n)
  case (Cons g gs)
  have "length (batch_bytes (of_nat (Suc n)) g) = 12 + length (concat (map batch_op_bytes g))"
    by (simp add: batch_bytes_def)
  then show ?case
    using Cons [of "p + length (log_record p True (batch_bytes (of_nat (Suc n)) g))" "n + length g"]
      length_log_record_le [of p True "batch_bytes (of_nat (Suc n)) g"]
    by (simp add: log_room_def)
qed (simp add: log_room_def)

section \<open>Groups of writers\<close>

lemma queued_simps:
  "wr_sync (queued q) = snd q"
  "\<forall>op \<in> set (fst q). db_op_ok op \<Longrightarrow> wr_batch (queued q) = Some (batch_bytes 0 (fst q))"
  using BuildBatch_bytes [of "fst q" 0 "[]"]
  by (simp_all add: queued_def WriteBatch_new_bytes db_op_batch_ok)

lemma BuildBatchGroup_loop_queued:
  assumes "\<forall>q \<in> set qs. \<forall>op \<in> set (fst q). db_op_ok op"
  shows "\<exists>k t' first'. k \<le> length qs \<and>
    BuildBatchGroup_loop sync max_size (batch_bytes s []) (map queued qs) sum_size (batch_bytes t ops) first i =
      (batch_bytes t' (ops @ concat (map fst (take k qs))), first', i + k)"
  using assms
proof (induction qs arbitrary: sum_size t ops first i)
  case (Cons q qs)
  have batch: "wr_batch (queued q) = Some (batch_bytes 0 (fst q))" using Cons.prems by (intro queued_simps(2)) simp
  have stop: ?case if "BuildBatchGroup_loop sync max_size (batch_bytes s []) (map queued (q # qs)) sum_size (batch_bytes t ops) first i =
      (batch_bytes t ops, first, i)"
    using that by (intro exI [of _ 0] exI [of _ t] exI [of _ first]) (auto simp del: BuildBatchGroup_loop.simps)
  define t1 where "t1 = (if first then s else t)"
  show ?case
  proof (cases "wr_sync (queued q) \<and> \<not> sync \<or> sum_size + Batch_ByteSize (batch_bytes 0 (fst q)) > max_size")
    case False
    have "BuildBatchGroup_loop sync max_size (batch_bytes s []) (map queued (q # qs)) sum_size (batch_bytes t ops) first i =
        BuildBatchGroup_loop sync max_size (batch_bytes s []) (map queued qs)
          (sum_size + Batch_ByteSize (batch_bytes 0 (fst q))) (batch_bytes t1 (ops @ fst q)) False (i + 1)"
      using False batch by (auto simp: Batch_Append_bytes t1_def Let_def)
    moreover obtain k t' first' where "k \<le> length qs" "BuildBatchGroup_loop sync max_size (batch_bytes s []) (map queued qs)
          (sum_size + Batch_ByteSize (batch_bytes 0 (fst q))) (batch_bytes t1 (ops @ fst q)) False (i + 1) =
        (batch_bytes t' ((ops @ fst q) @ concat (map fst (take k qs))), first', (i + 1) + k)"
      using Cons.IH [of "sum_size + Batch_ByteSize (batch_bytes 0 (fst q))" t1 "ops @ fst q" False "i + 1"] Cons.prems
      by auto
    ultimately show ?thesis by (intro exI [of _ "Suc k"] exI [of _ t'] exI [of _ first']) simp
  qed (use batch in \<open>intro stop, auto simp: Let_def\<close>)
qed auto

lemma BuildBatchGroup_queued:
  assumes "\<forall>q \<in> set qs. \<forall>op \<in> set (fst q). db_op_ok op"
  obtains k t first where "k \<le> length qs"
    "BuildBatchGroup (batch_bytes s []) (batch_bytes 0 ops) sync (map queued qs) =
      (batch_bytes t (ops @ concat (map fst (take k qs))), first, k)"
  using BuildBatchGroup_loop_queued [OF assms] unfolding BuildBatchGroup_def Let_def by (metis add_0)

section \<open>Writes\<close>

text \<open>There is room in the memory table, and level 0 has few files.\<close>

lemma MakeRoomForWrite_room:
  assumes "db_bg_error db = Status_OK" "db_level0 db < kL0_SlowdownWritesTrigger"
    "MemTable_ApproximateMemoryUsage (db_mem db) \<le> de_write_buffer env"
  shows "MakeRoomForWrite env others False db = Some (Status_OK, db, others)"
  using assms by (simp add: MakeRoomForWrite_def MakeRoomForWrite_loop.simps)

lemma MakeRoomForWrite_error:
  "\<not> Status_ok (db_bg_error db) \<Longrightarrow> MakeRoomForWrite env others force db = Some (db_bg_error db, db, others)"
  by (simp add: MakeRoomForWrite_def MakeRoomForWrite_loop.simps)

text \<open>The database after the batches \<open>gs\<close> were written, each in a record of the log.\<close>

definition db_inv ::
  "('w \<Rightarrow> byte list) \<Rightarrow> ('w \<Rightarrow> nat) \<Rightarrow> ('w \<Rightarrow> bool) \<Rightarrow> 'w DBEnv \<Rightarrow> batch_op list list \<Rightarrow> nat \<Rightarrow> 'w DBImpl \<Rightarrow> bool" where
  "db_inv content room syncs env gs needed db \<longleftrightarrow>
     content (lw_dest (db_log db)) = log_bytes 0 (numbered 0 gs) \<and>
     writes_at (db_log db) (length (log_bytes 0 (numbered 0 gs))) \<and>
     needed \<le> room (lw_dest (db_log db)) \<and> syncs (lw_dest (db_log db)) \<and>
     mem_inv (de_compare env) (db_mem db) (batch_mem_ops 1 (concat gs)) \<and>
     MemTable_ApproximateMemoryUsage (db_mem db) \<le> mem_room (concat gs) \<and>
     (\<forall>op \<in> set (concat gs). db_op_ok op) \<and>
     (\<exists>s. db_tmp_batch db = batch_bytes s []) \<and> db_last_sequence db = of_nat (length (concat gs)) \<and>
     db_level0 db < kL0_SlowdownWritesTrigger \<and> db_bg_error db = Status_OK"

text \<open>
  A change by another thread that leaves a write alone: it does not touch the batch of the groups, does not fill level 0, and
  reports no error. A compaction that succeeds is one.
\<close>

definition leaves_alone :: "('w DBImpl \<Rightarrow> 'w DBImpl) \<Rightarrow> bool" where
  "leaves_alone other \<longleftrightarrow> (\<forall>db. db_tmp_batch (other db) = db_tmp_batch db \<and>
     (db_level0 db < kL0_SlowdownWritesTrigger \<longrightarrow> db_level0 (other db) < kL0_SlowdownWritesTrigger) \<and>
     (db_bg_error db = Status_OK \<longrightarrow> db_bg_error (other db) = Status_OK))"

lemma release_lock_alone:
  assumes "\<forall>other \<in> set others. leaves_alone other" "release_lock others db = (db1, others1)"
  shows "db_tmp_batch db1 = db_tmp_batch db"
    "db_level0 db < kL0_SlowdownWritesTrigger \<Longrightarrow> db_level0 db1 < kL0_SlowdownWritesTrigger"
    "db_bg_error db = Status_OK \<Longrightarrow> db_bg_error db1 = Status_OK"
    "set others1 \<subseteq> set others"
  using assms by (auto simp: release_lock_def leaves_alone_def split: list.splits)

text \<open>What appending and flushing keep of a file, adding a record keeps.\<close>

definition file_keeps :: "'w WritableFile \<Rightarrow> ('w \<Rightarrow> 'b) \<Rightarrow> bool" where
  "file_keeps ff P \<longleftrightarrow> (\<forall>d w. P (snd (wf_Append ff d w)) = P w) \<and> (\<forall>w. P (snd (wf_Flush ff w)) = P w)"

lemma switch_block_keeps: "file_keeps ff P \<Longrightarrow> P (lw_dest (switch_block ff w)) = P (lw_dest w)"
  by (simp add: switch_block_def Let_def file_keeps_def)

lemma EmitPhysicalRecord_keeps: "file_keeps ff P \<Longrightarrow> P (lw_dest (snd (EmitPhysicalRecord ff t d w))) = P (lw_dest w)"
  by (simp add: EmitPhysicalRecord_def Let_def case_prod_beta file_keeps_def)

lemma AddRecord_loop_keeps: "file_keeps ff P \<Longrightarrow> P (lw_dest (snd (AddRecord_loop ff b data w))) = P (lw_dest w)"
proof (induction ff b data w rule: AddRecord_loop.induct)
  case (1 ff b data w)
  define w1 where "w1 = switch_block ff w"
  define avail where "avail = kBlockSize - lw_block_offset w1 - kHeaderSize"
  define n where "n = (if length data < avail then length data else avail)"
  define e where "e \<longleftrightarrow> length data = n"
  define r where "r = EmitPhysicalRecord ff (record_type b e) (take n data) w1"
  have loop: "AddRecord_loop ff b data w =
      (if Status_ok (fst r) \<and> length data - n > 0 then AddRecord_loop ff False (drop n data) (snd r) else r)"
    unfolding r_def e_def n_def avail_def w1_def by (subst AddRecord_loop.simps) (simp only: Let_def)
  have r: "P (lw_dest (snd r)) = P (lw_dest w)"
    unfolding r_def w1_def using "1.prems" by (simp add: EmitPhysicalRecord_keeps switch_block_keeps)
  show ?case
    using "1.IH" [OF w1_def avail_def n_def e_def r_def _ "1.prems"] r unfolding loop by simp
qed

lemma scast_of_nat_small: "n < 2 ^ 31 \<Longrightarrow> scast (of_nat n :: u32) = (of_nat n :: u64)"
  by (simp add: signed_of_nat signed_take_bit_int_eq_self)

lemma mem_room_append: "mem_room (ds @ es) = mem_room ds + sum_list (map op_room es)"
  by (simp add: mem_room_def)

lemma batch_fits: "length (log_record p True (batch_bytes (of_nat (Suc n)) g)) \<le> log_room [g]"
  using numbered_log_room [of p n "[g]"] by simp

context syncing_file
begin

lemma log_and_apply_ok:
  assumes inv: "db_inv content room syncs env gs needed db" and files: "de_files env = ff" and cmp: "comparator (de_compare env)"
    and g: "\<forall>op \<in> set g. db_op_ok op" "length (concat gs) + length g < 2 ^ 31" "log_room [g] \<le> needed"
    and alone: "\<forall>other \<in> set others. leaves_alone other"
  obtains db' others' where
    "log_and_apply env others sync (batch_bytes (of_nat (Suc (length (concat gs)))) g) db = Some (Status_OK, db', others')"
    "db_tmp_batch db' = db_tmp_batch db" "set others' \<subseteq> set others"
    "db_inv content room syncs env (gs @ [g]) (needed - log_room [g])
      (db'\<lparr>db_last_sequence := of_nat (length (concat gs) + length g)\<rparr>)"
proof -
  note result = that
  define n where "n = length (concat gs)"
  define p where "p = length (log_bytes 0 (numbered 0 gs))"
  define d where "d = batch_bytes (of_nat (Suc n)) g"
  define w where "w = db_log db"
  have w: "content (lw_dest w) = log_bytes 0 (numbered 0 gs)" "writes_at w p" "needed \<le> room (lw_dest w)" "syncs (lw_dest w)"
    using inv by (simp_all add: db_inv_def w_def p_def)
  have d: "length (log_record p True d) \<le> log_room [g]" unfolding d_def by (rule batch_fits)
  obtain s1 w1 where 1: "AddRecord_loop ff True d w = (s1, w1)" by fastforce
  have w1: "s1 = Status_OK" "content (lw_dest w1) = content (lw_dest w) @ log_record p True d"
    "room (lw_dest w1) = room (lw_dest w) - length (log_record p True d)" "writes_at w1 (p + length (log_record p True d))"
    using AddRecord_loop_ok [OF w(2) _ 1] w(3) d g(3) by auto
  have "file_keeps ff syncs"
    unfolding file_keeps_def by (metis append_syncs flush_syncs prod.collapse)
  from AddRecord_loop_keeps [OF this, of True d w] have w1s: "syncs (lw_dest w1)" using w(4) 1 by simp
  obtain s2 f2 where 2: "wf_Sync ff (lw_dest w1) = (s2, f2)" by fastforce
  note f2 = sync_ok [OF w1s 2]
  define f where "f = (if sync then f2 else lw_dest w1)"
  have f: "content f = content (lw_dest w1)" "room f = room (lw_dest w1)" "syncs f"
    using f2 w1s by (auto simp: f_def)
  have mem: "mem_inv (de_compare env) (db_mem db) (batch_mem_ops 1 (concat gs))"
    and ok: "\<forall>op \<in> set (concat gs @ g). db_op_ok op"
    and usage: "MemTable_ApproximateMemoryUsage (db_mem db) \<le> mem_room (concat gs)"
    using inv g(1) by (auto simp: db_inv_def)
  obtain m where m: "AddAll (de_compare env) (de_new_char env) (batch_mem_ops (Suc n) g) (db_mem db) = Some m"
    "mem_inv (de_compare env) m (batch_mem_ops 1 (concat gs @ g))"
    using mem_order.AddAll_inv [OF mem_order.intro [OF cmp] mem batch_mem_ops_ok [OF g(1), of "Suc n"], of "de_new_char env"]
      batch_mem_ops_sorted [of 1 "concat gs @ g"] g(2)
    by (auto simp: batch_mem_ops_append n_def)
  have m_usage: "MemTable_ApproximateMemoryUsage m \<le> mem_room (concat gs @ g)"
    using AddAll_usage [OF g(1) m(1)] usage by (simp add: mem_room_append)
  obtain dbo others' where dbo: "release_lock others db = (dbo, others')" by fastforce
  note dbo_alone = release_lock_alone [OF alone dbo]
  define db' where "db' = dbo\<lparr>db_log := w1\<lparr>lw_dest := f\<rparr>, db_mem := m\<rparr>"
  have "log_and_apply env others sync d db = Some (Status_OK, db', others')"
    using 1 2 w1(1) f2 m(1) InsertInto_AddAll [OF g(1), of "de_compare env" "de_new_char env" "Suc n" "db_mem db"]
    unfolding d_def db'_def f_def
    by (simp add: log_and_apply_def files AddRecord_def Batch_Contents_def w_def dbo)
  moreover have "db_inv content room syncs env (gs @ [g]) (needed - log_room [g])
      (db'\<lparr>db_last_sequence := of_nat (length (concat gs) + length g)\<rparr>)"
    using inv f w1 w m m_usage ok d dbo_alone(1-3)
    by (simp add: db_inv_def db'_def numbered_append log_bytes_append p_def [symmetric] d_def n_def writes_at_def)
  ultimately show thesis
    using dbo_alone(1,4) by (intro result [of db' others']) (simp_all add: d_def n_def db'_def)
qed

lemma DBImpl_Write_queued:
  assumes inv: "db_inv content room syncs env gs needed db" and files: "de_files env = ff" and cmp: "comparator (de_compare env)"
    and qs: "\<forall>q' \<in> set (q # qs). \<forall>op \<in> set (fst q'). db_op_ok op"
      "length (concat gs) + length (concat (map fst (q # qs))) < 2 ^ 31" "log_room (map fst (q # qs)) \<le> needed"
    and buffer: "mem_room (concat gs) \<le> de_write_buffer env" and alone: "\<forall>other \<in> set others. leaves_alone other"
  obtains k db' others' where "k \<le> length qs" "set others' \<subseteq> set others"
    "DBImpl_Write env others (queued q) (map queued qs) db =
      Some (replicate (Suc k) Status_OK, map queued (drop k qs), db', others')"
    "db_inv content room syncs env (gs @ [concat (map fst (take (Suc k) (q # qs)))])
      (needed - log_room (map fst (take (Suc k) (q # qs)))) db'"
proof -
  note result = that
  have "db_bg_error db = Status_OK" "db_level0 db < kL0_SlowdownWritesTrigger"
    "MemTable_ApproximateMemoryUsage (db_mem db) \<le> de_write_buffer env"
    using inv buffer by (simp_all add: db_inv_def)
  note roomy = MakeRoomForWrite_room [OF this]
  have batch: "wr_batch (queued q) = Some (batch_bytes 0 (fst q))" using qs(1) by (intro queued_simps(2)) simp
  obtain s where tmp: "db_tmp_batch db = batch_bytes s []" using inv by (auto simp: db_inv_def)
  obtain k t first where k: "k \<le> length qs" "BuildBatchGroup (batch_bytes s []) (batch_bytes 0 (fst q)) (snd q) (map queued qs) =
      (batch_bytes t (fst q @ concat (map fst (take k qs))), first, k)"
    using BuildBatchGroup_queued [of qs s "fst q" "snd q"] qs(1) by auto
  define ts where "ts = map fst (take (Suc k) (q # qs))"
  define g where "g = concat ts"
  define n where "n = length (concat gs)"
  have split: "map fst (q # qs) = ts @ map fst (drop k qs)" by (simp add: ts_def flip: map_append)
  have g: "g = fst q @ concat (map fst (take k qs))" by (simp add: g_def ts_def)
  have g_ok: "\<forall>op \<in> set g. db_op_ok op"
    using qs(1) by (auto simp: g_def ts_def dest: in_set_takeD)
  have g_len: "n + length g < 2 ^ 31" using qs(2) unfolding split by (simp add: n_def g_def)
  have "log_room ts + log_room (map fst (drop k qs)) \<le> needed" using qs(3) unfolding split log_room_append .
  then have g_room: "log_room [g] \<le> log_room ts" "log_room ts \<le> needed"
    using log_room_concat [of ts] by (simp_all add: g_def ts_def)
  obtain db1 others' where db1:
    "log_and_apply env others (snd q) (batch_bytes (of_nat (Suc n)) g) db = Some (Status_OK, db1, others')"
    "db_tmp_batch db1 = db_tmp_batch db" "set others' \<subseteq> set others"
    "db_inv content room syncs env (gs @ [g]) (needed - log_room [g]) (db1\<lparr>db_last_sequence := of_nat (n + length g)\<rparr>)"
    using log_and_apply_ok [OF inv files cmp g_ok _ _ alone, of "snd q"] g_len g_room unfolding n_def by auto
  have seq: "db_last_sequence db = of_nat n" using inv by (simp add: db_inv_def n_def)
  have count: "scast (of_nat (length g) :: u32) = (of_nat (length g) :: u64)"
    using g_len by (intro scast_of_nat_small) simp
  define db' where "db' = (if first then db1 else db1\<lparr>db_tmp_batch := WriteBatch_new\<rparr>)\<lparr>db_last_sequence := of_nat (n + length g)\<rparr>"
  have "DBImpl_Write env others (queued q) (map queued qs) db =
      Some (replicate (Suc k) Status_OK, map queued (drop k qs), db', others')"
  proof -
    have next_seq: "of_nat n + 1 = (of_nat (Suc n) :: u64)" "of_nat n + of_nat (length g) = (of_nat (n + length g) :: u64)"
      by simp_all
    have clear: "WriteBatch_Clear b = WriteBatch_new" for b by (simp add: WriteBatch_new_def WriteBatch_Clear_def)
    show ?thesis
      unfolding DBImpl_Write_def batch
      by (simp only: roomy batch queued_simps(1) tmp k(2) Let_def Batch_SetSequence_bytes batch_header(2) count seq
        g [symmetric] db'_def clear next_seq db1(1) [unfolded Suc_eq_plus1] bind.bind_lunit drop_map Status_ok_def prod.case option.case if_True option.distinct
        Suc_eq_plus1 simp_thms)
  qed
  moreover have "db_inv content room syncs env (gs @ [g]) (needed - log_room ts) db'"
    using db1(4) g_room by (auto simp: db_inv_def db'_def WriteBatch_new_bytes)
  ultimately show thesis
    using k(1) db1(3) by (intro result [of k others' db']) (simp_all add: g_def ts_def)
qed

lemma WriteQueue_ok:
  assumes files: "de_files env = ff" and cmp: "comparator (de_compare env)"
  shows "db_inv content room syncs env gs needed db \<Longrightarrow> \<forall>q \<in> set qs. \<forall>op \<in> set (fst q). db_op_ok op \<Longrightarrow>
    length (concat gs) + length (concat (map fst qs)) < 2 ^ 31 \<Longrightarrow> log_room (map fst qs) \<le> needed \<Longrightarrow>
    mem_room (concat gs @ concat (map fst qs)) \<le> de_write_buffer env \<Longrightarrow> length qs \<le> turns \<Longrightarrow>
    \<forall>other \<in> set others. leaves_alone other \<Longrightarrow>
    \<exists>db' hs. WriteQueue env turns others (map queued qs) db = Some (replicate (length qs) Status_OK, db') \<and>
      concat hs = map fst qs \<and> (\<forall>h \<in> set hs. h \<noteq> []) \<and>
      db_inv content room syncs env (gs @ map concat hs) (needed - log_room (map fst qs)) db'"
proof (induction turns arbitrary: gs needed db qs others)
  case 0
  then show ?case by (auto simp: log_room_def intro!: exI [of _ "[]"])
next
  case (Suc turns)
  show ?case
  proof (cases qs)
    case Nil
    with Suc.prems(1) show ?thesis by (auto simp: log_room_def intro!: exI [of _ "[]"])
  next
    case (Cons q rest)
    have buffer: "mem_room (concat gs) \<le> de_write_buffer env" using Suc.prems(5) by (simp add: mem_room_append)
    from DBImpl_Write_queued [OF Suc.prems(1) files cmp Suc.prems(2) [unfolded Cons] Suc.prems(3) [unfolded Cons]
        Suc.prems(4) [unfolded Cons] buffer Suc.prems(7)]
    obtain k db1 others' where k: "k \<le> length rest" and fewer: "set others' \<subseteq> set others"
      and 1: "DBImpl_Write env others (queued q) (map queued rest) db =
        Some (replicate (Suc k) Status_OK, map queued (drop k rest), db1, others')"
      and inv: "db_inv content room syncs env (gs @ [concat (map fst (take (Suc k) (q # rest)))])
        (needed - log_room (map fst (take (Suc k) (q # rest)))) db1"
      by metis
    have alone: "\<forall>other \<in> set others'. leaves_alone other" using fewer Suc.prems(7) by blast
    define h where "h = map fst (take (Suc k) (q # rest))"
    define ts where "ts = drop k rest"
    have split: "map fst qs = h @ map fst ts" by (simp add: Cons h_def ts_def flip: map_append)
    have conc: "concat (gs @ [concat h]) = concat gs @ concat h" by simp
    have "set ts \<subseteq> set qs" by (auto simp: Cons ts_def dest: in_set_dropD)
    then have ok: "\<forall>q \<in> set ts. \<forall>op \<in> set (fst q). db_op_ok op" using Suc.prems(2) by blast
    have len: "length (concat (gs @ [concat h])) + length (concat (map fst ts)) < 2 ^ 31"
      using Suc.prems(3) unfolding split by simp
    have fits: "log_room (map fst ts) \<le> needed - log_room h"
      using Suc.prems(4) unfolding split log_room_append by linarith
    have room: "mem_room (concat (gs @ [concat h]) @ concat (map fst ts)) \<le> de_write_buffer env"
      using Suc.prems(5) unfolding split by simp
    have turns: "length ts \<le> turns" using Suc.prems(6) by (simp add: Cons ts_def)
    obtain db' hs where 2: "WriteQueue env turns others' (map queued ts) db1 = Some (replicate (length ts) Status_OK, db')"
      and hs: "concat hs = map fst ts" "\<forall>h \<in> set hs. h \<noteq> []"
      and inv': "db_inv content room syncs env ((gs @ [concat h]) @ map concat hs) (needed - log_room h - log_room (map fst ts)) db'"
      using Suc.IH [OF inv [folded h_def] ok len fits room turns alone] by blast
    have "length qs = Suc k + length ts" using k by (simp add: Cons ts_def)
    then have "WriteQueue env (Suc turns) others (map queued qs) db = Some (replicate (length qs) Status_OK, db')"
      using 1 2 by (simp add: Cons ts_def replicate_add [symmetric])
    moreover have "needed - log_room h - log_room (map fst ts) = needed - log_room (map fst qs)"
      unfolding split log_room_append by simp
    ultimately show ?thesis
      using hs inv' split by (intro exI [of _ db'] exI [of _ "h # hs"]) (auto simp: h_def)
  qed
qed

end

lemma empty_db_inv:
  assumes "content f = []" "needed \<le> room f" "syncs f" "comparator (de_compare env)"
  shows "db_inv content room syncs env [] needed (empty_db env number f)"
proof -
  have "MemTable_ApproximateMemoryUsage (MemTable_Ref m) = MemTable_ApproximateMemoryUsage m"
    "mem_inv ucmp (MemTable_Ref m) es = mem_inv ucmp m es" for m ucmp es
    by (simp_all add: MemTable_ApproximateMemoryUsage_def MemTable_Ref_def mem_inv_def)
  then show ?thesis
    using assms MemTable_new_usage [of "de_new_char env"] log_Writer_new_at [of f]
      mem_order.MemTable_new_inv [OF mem_order.intro [OF assms(4)]]
    by (simp add: db_inv_def empty_db_def mem_room_def WriteBatch_new_bytes kL0_SlowdownWritesTrigger_def) (auto simp: log_Writer_new_def)
qed

section \<open>Recovery of a log\<close>

text \<open>Tables that are kept in a list, in place of the files of level 0.\<close>

definition keep_table :: "MemTable \<Rightarrow> MemTable list \<Rightarrow> status \<times> MemTable list" where
  "keep_table m ts = (Status_OK, ts @ [m])"

lemma mem_inv_answers: "comparator ucmp \<Longrightarrow> mem_inv ucmp m (batch_mem_ops n ops) \<Longrightarrow> answers ucmp n m ops"
  by (simp add: answers_def mem_order.MemTable_Get_last_op [OF mem_order.intro])

lemma tables_hold_append:
  "tables_hold ucmp n ts ds \<Longrightarrow> answers ucmp (n + length ds) m es \<Longrightarrow> tables_hold ucmp n (ts @ [m]) (ds @ es)"
proof (induction ts arbitrary: n ds)
  case (Cons t ts)
  then obtain k where k: "k \<le> length ds" "answers ucmp n t (take k ds)" "tables_hold ucmp (n + k) ts (drop k ds)" by auto
  then have "tables_hold ucmp (n + k) (ts @ [m]) (drop k ds @ es)" using Cons by simp
  with k show ?case by (auto intro!: exI [of _ k])
qed (auto intro: exI [of _ "length es"])

text \<open>A log that is not used again.\<close>

abbreviation not_reused :: "(PosixWritableFile log_Writer \<times> MemTable) option" where
  "not_reused \<equiv> None"

text \<open>After the updates \<open>ops\<close>: the first ones are in the tables that were written, the rest in the memory table.\<close>

definition rec_inv :: "(slice \<Rightarrow> slice \<Rightarrow> int) \<Rightarrow> batch_op list \<Rightarrow> MemTable list RecoverState \<Rightarrow> bool" where
  "rec_inv ucmp ops st \<longleftrightarrow> rs_status st = Status_OK \<and> rs_max_sequence st = of_nat (length ops) \<and>
     (\<exists>k \<le> length ops. tables_hold ucmp 1 (rs_edit st) (take k ops) \<and>
        (case rs_mem st of
           None \<Rightarrow> k = length ops
         | Some m \<Rightarrow> mem_inv ucmp m (batch_mem_ops (Suc k) (drop k ops))))"

lemma rec_inv_flush:
  assumes "comparator ucmp" "rec_inv ucmp ops st"
  shows "rec_inv ucmp ops (flush_full write_buffer_size keep_table st)"
proof (cases "rs_mem st")
  case (Some m)
  with assms(2) obtain k where k: "k \<le> length ops" "tables_hold ucmp 1 (rs_edit st) (take k ops)"
    "mem_inv ucmp m (batch_mem_ops (Suc k) (drop k ops))"
    by (auto simp: rec_inv_def)
  then have "tables_hold ucmp 1 (rs_edit st @ [m]) ops"
    using tables_hold_append [OF k(2), of m "drop k ops"] mem_inv_answers [OF assms(1) k(3)] by simp
  with assms(2) Some show ?thesis
    by (auto simp: flush_full_def rec_inv_def keep_table_def)
qed (use assms in \<open>simp add: flush_full_def\<close>)

lemma last_sequence_max:
  assumes "n + k < 2 ^ 32"
  defines "l \<equiv> of_nat (Suc n) + of_nat k - (1 :: u64)"
  shows "(if l > of_nat n then l else of_nat n) = of_nat (n + k)"
proof -
  have l: "l = of_nat (n + k)" by (simp add: l_def)
  have "of_nat n < (of_nat (n + k) :: u64) \<longleftrightarrow> 0 < k"
    using assms(1) unfolding word_less_nat_alt unat_of_nat by simp
  then show ?thesis unfolding l by (cases "k = 0") auto
qed

lemma recover_record_ok:
  assumes cmp: "comparator ucmp" and inv: "rec_inv ucmp ops st"
    and ok: "\<forall>op \<in> set (ops @ g). db_op_ok op" "length ops + length g < 2 ^ 31"
  obtains st' where "recover_record ucmp new_char paranoid write_buffer_size keep_table
      (batch_bytes (of_nat (Suc (length ops))) g) st = Some (True, st')" "rec_inv ucmp (ops @ g) st'"
proof -
  note result = that
  define n where "n = length ops"
  define mem0 where "mem0 = (case rs_mem st of None \<Rightarrow> MemTable_Ref (MemTable_new new_char) | Some m \<Rightarrow> m)"
  have fresh: "mem_inv ucmp (MemTable_Ref (MemTable_new new_char)) []"
    using mem_order.MemTable_new_inv [OF mem_order.intro [OF cmp], of new_char] by (simp add: MemTable_Ref_def mem_inv_def)
  from inv obtain k where "k \<le> n" "tables_hold ucmp 1 (rs_edit st) (take k ops)"
    "case rs_mem st of None \<Rightarrow> k = n | Some m \<Rightarrow> mem_inv ucmp m (batch_mem_ops (Suc k) (drop k ops))"
    unfolding rec_inv_def n_def by blast
  with fresh have k: "k \<le> n" "tables_hold ucmp 1 (rs_edit st) (take k ops)"
    "mem_inv ucmp mem0 (batch_mem_ops (Suc k) (drop k ops))"
    by (auto simp: mem0_def n_def split: option.splits)
  have g_ok: "\<forall>op \<in> set g. db_op_ok op" using ok(1) by auto
  have all: "batch_mem_ops (Suc k) (drop k (ops @ g)) = batch_mem_ops (Suc k) (drop k ops) @ batch_mem_ops (Suc n) g"
    using k(1) by (simp add: batch_mem_ops_append n_def)
  have sorted: "sorted_wrt (<) (map fst (batch_mem_ops (Suc k) (drop k ops) @ batch_mem_ops (Suc n) g))"
    using batch_mem_ops_sorted [of "Suc k" "drop k (ops @ g)"] ok(2) k(1) unfolding all [symmetric] by (simp add: n_def)
  have entries: "\<forall>e \<in> set (batch_mem_ops (Suc n) g). op_ok e"
    using ok(2) by (intro batch_mem_ops_ok g_ok) (simp add: n_def)
  obtain m where m: "AddAll ucmp new_char (batch_mem_ops (Suc n) g) mem0 = Some m"
    "mem_inv ucmp m (batch_mem_ops (Suc k) (drop k (ops @ g)))"
    using mem_order.AddAll_inv [OF mem_order.intro [OF cmp] k(3) entries sorted, of new_char] unfolding all by auto
  have ins: "Batch_InsertInto ucmp new_char (batch_bytes (of_nat (Suc n)) g) mem0 = Some (Status_OK, m)"
    using InsertInto_AddAll [OF g_ok, of ucmp new_char "Suc n" mem0] m(1) by simp
  define st1 where "st1 = st\<lparr>rs_status := Status_OK, rs_mem := Some m, rs_max_sequence := of_nat (n + length g)\<rparr>"
  have inv1: "rec_inv ucmp (ops @ g) st1"
    using k m(2) by (auto simp: rec_inv_def st1_def n_def intro!: exI [of _ k])
  have count: "scast (of_nat (length g) :: u32) = (of_nat (length g) :: u64)"
    using ok(2) by (intro scast_of_nat_small) simp
  have seq: "rs_max_sequence st = of_nat n" using inv by (simp add: rec_inv_def n_def)
  define l where "l = of_nat (Suc n) + of_nat (length g) - (1 :: u64)"
  have last: "(if l > of_nat n then l else of_nat n) = of_nat (n + length g)"
    unfolding l_def using ok(2) by (intro last_sequence_max) (simp add: n_def)
  have st1: "(if l > rs_max_sequence (st\<lparr>rs_status := Status_OK, rs_mem := Some m\<rparr>)
      then st\<lparr>rs_status := Status_OK, rs_mem := Some m\<rparr>\<lparr>rs_max_sequence := l\<rparr> else st\<lparr>rs_status := Status_OK, rs_mem := Some m\<rparr>) = st1"
    using last seq by (cases st) (auto simp: st1_def split: if_splits)
  define st' where "st' = flush_full write_buffer_size keep_table st1"
  have inv': "rec_inv ucmp (ops @ g) st'" unfolding st'_def by (rule rec_inv_flush [OF cmp inv1])
  then have "Status_ok (rs_status st')" by (simp add: rec_inv_def)
  moreover have "\<not> length (batch_bytes (of_nat (Suc n)) g) < 12" using batch_header(4) [of "of_nat (Suc n)" g] by simp
  ultimately have "recover_record ucmp new_char paranoid write_buffer_size keep_table (batch_bytes (of_nat (Suc n)) g) st = Some (True, st')"
    using ins st1 unfolding recover_record_def
    by (simp only: Batch_SetContents_def mem0_def [symmetric] Let_def batch_header(1,2) count l_def [symmetric] st'_def [symmetric]
        if_False bind.bind_lunit prod.case MaybeIgnoreError_def Status_ok_simps simp_thms if_True)
  with inv' show thesis by (intro result) (simp_all add: n_def)
qed

lemma RecoverLogFile_loop_ok:
  assumes cmp: "comparator ucmp"
  shows "reads_quiet sf fuel (numbered (length ops) gs) r \<Longrightarrow> rec_inv ucmp ops st \<Longrightarrow>
    \<forall>op \<in> set (ops @ concat gs). db_op_ok op \<Longrightarrow> length ops + length (concat gs) < 2 ^ 31 \<Longrightarrow> length gs < turns \<Longrightarrow>
    \<exists>st'. RecoverLogFile_loop sf fuel (recover_record ucmp new_char paranoid write_buffer_size keep_table) paranoid turns r st =
      Some st' \<and> rec_inv ucmp (ops @ concat gs) st'"
proof (induction gs arbitrary: ops r st turns)
  case Nil
  then obtain n r' where "turns = Suc n" "ReadRecord sf fuel r = Some (None, r')" "lr_reports r' = lr_reports r"
    by (cases turns) auto
  with Nil(2) show ?case
    by (cases st) (simp add: status_after_reports_def rec_inv_def)
next
  case (Cons g gs)
  define d where "d = batch_bytes (of_nat (Suc (length ops))) g"
  obtain n where n: "turns = Suc n" "length gs < n" using Cons.prems(5) by (cases turns) auto
  obtain r' where r': "ReadRecord sf fuel r = Some (Some d, r')" "lr_reports r' = lr_reports r"
    "reads_quiet sf fuel (numbered (length (ops @ g)) gs) r'"
    using Cons.prems(1) by (auto simp: d_def)
  have "\<forall>op \<in> set (ops @ g). db_op_ok op" "length ops + length g < 2 ^ 31" using Cons.prems(3,4) by auto
  from recover_record_ok [OF cmp Cons.prems(2) this]
  obtain st1 where st1: "recover_record ucmp new_char paranoid write_buffer_size keep_table d st = Some (True, st1)"
    "rec_inv ucmp (ops @ g) st1"
    unfolding d_def by metis
  have st: "rs_status st = Status_OK" using Cons.prems(2) by (simp add: rec_inv_def)
  have "RecoverLogFile_loop sf fuel (recover_record ucmp new_char paranoid write_buffer_size keep_table) paranoid turns r st =
      RecoverLogFile_loop sf fuel (recover_record ucmp new_char paranoid write_buffer_size keep_table) paranoid n r' st1"
    using r'(1,2) st1(1) st by (cases st) (simp add: n(1) status_after_reports_def)
  then show ?case
    using Cons.IH [OF r'(3) st1(2) _ _ n(2)] Cons.prems(3,4) by simp
qed

lemma RecoverLogFile_ok:
  assumes cmp: "comparator ucmp" and quiet: "reads_quiet sf fuel (numbered 0 gs) (log_Reader_new file True True 0)"
    and ok: "\<forall>op \<in> set (concat gs). db_op_ok op" "length (concat gs) < 2 ^ 31" "length gs < turns"
  obtains st where "RecoverLogFile sf fuel turns ucmp new_char paranoid write_buffer_size keep_table None (Status_OK, file) [] 0 = Some (not_reused, st)"
    "rs_status st = Status_OK" "rs_max_sequence st = of_nat (length (concat gs))" "tables_hold ucmp 1 (rs_edit st) (concat gs)"
proof -
  note result = that
  define st0 where "st0 = \<lparr>rs_status = Status_OK, rs_mem = None, rs_max_sequence = 0, rs_compactions = 0,
    rs_save_manifest = False, rs_edit = [] :: MemTable list\<rparr>"
  have inv0: "rec_inv ucmp [] st0" by (simp add: rec_inv_def st0_def)
  obtain st1 where st1: "RecoverLogFile_loop sf fuel (recover_record ucmp new_char paranoid write_buffer_size keep_table) paranoid
      turns (log_Reader_new file True True 0) st0 = Some st1" "rec_inv ucmp (concat gs) st1"
    using RecoverLogFile_loop_ok [OF cmp _ inv0, of sf fuel gs "log_Reader_new file True True 0" turns new_char paranoid
        write_buffer_size] quiet ok by auto
  from st1(2) obtain k where k: "rs_status st1 = Status_OK" "rs_max_sequence st1 = of_nat (length (concat gs))"
    "k \<le> length (concat gs)" "tables_hold ucmp 1 (rs_edit st1) (take k (concat gs))"
    "case rs_mem st1 of None \<Rightarrow> k = length (concat gs) | Some m \<Rightarrow> mem_inv ucmp m (batch_mem_ops (Suc k) (drop k (concat gs)))"
    unfolding rec_inv_def by blast
  show thesis
  proof (cases "rs_mem st1")
    case None
    with st1(1) k show thesis by (intro result [of st1]) (simp_all add: RecoverLogFile_def reuse_log_def write_rest_def st0_def)
  next
    case (Some m)
    with k have "tables_hold ucmp 1 (rs_edit st1 @ [m]) (concat gs)"
      using tables_hold_append [OF k(4), of m "drop k (concat gs)"] mem_inv_answers [OF cmp, of m "Suc k"] by simp
    with Some st1(1) k show thesis
      by (intro result [of "st1\<lparr>rs_save_manifest := True, rs_status := Status_OK, rs_edit := rs_edit st1 @ [m], rs_mem := None\<rparr>"])
        (simp_all add: RecoverLogFile_def reuse_log_def write_rest_def st0_def keep_table_def)
  qed
qed

section \<open>Writing, crashing, recovering\<close>

definition log_file :: "PosixWritableFile DBImpl \<Rightarrow> byte list" where
  "log_file db = pw_written (lw_dest (db_log db))"

text \<open>Groups of a queue: how many writers the first groups hold.\<close>

lemma take_groups: "concat (take j hs) = take (length (concat (take j hs))) (concat hs)"
  by (metis append_eq_conv_conj append_take_drop_id concat_append)

lemma concat_groups: "concat (map concat hs) = concat (concat hs)"
  by (induction hs) simp_all

lemma groups_fewer: "\<forall>h \<in> set hs. h \<noteq> [] \<Longrightarrow> length hs \<le> length (concat hs)"
proof (induction hs)
  case (Cons h hs)
  then show ?case by (cases h) auto
qed simp

text \<open>Reading a log of batches that was cut off gives the batches that are completely there.\<close>

lemma read_cut_batches:
  assumes "G = log_bytes 0 (numbered 0 gs)" "length G < fuel"
  obtains j where "j \<le> length gs" "reads_quiet posix_sequential fuel (numbered 0 (take j gs)) (log_Reader_new (rfile (take m G)) True True 0)"
    "\<And>i. i \<le> length gs \<Longrightarrow> length (log_bytes 0 (numbered 0 (take i gs))) \<le> m \<Longrightarrow> i \<le> j"
proof -
  note result = that
  have whole: "take m G = take (min m (length G)) G" by (simp add: min_def)
  have "ps_unread (rfile (take m G)) = take m G" by (simp add: ps_unread_def rfile_def)
  note start = posix_r.log_Reader_new_at [OF this, of True True]
  obtain j where j: "j \<le> length gs"
    "reads_quiet posix_sequential fuel (take j (numbered 0 gs)) (log_Reader_new (rfile (take m G)) True True 0)"
    "j < length gs \<longrightarrow> min m (length G) < length (log_bytes 0 (take (Suc j) (numbered 0 gs)))"
    using posix_r.read_cut_log [OF start whole, of "numbered 0 gs" fuel] assms by auto
  show thesis
  proof (rule result [OF j(1)])
    show "reads_quiet posix_sequential fuel (numbered 0 (take j gs)) (log_Reader_new (rfile (take m G)) True True 0)"
      using j(2) by (simp add: take_numbered)
    fix i
    assume i: "i \<le> length gs" "length (log_bytes 0 (numbered 0 (take i gs))) \<le> m"
    show "i \<le> j"
    proof (rule ccontr)
      assume "\<not> i \<le> j"
      then have "Suc j \<le> i" "j < length gs" using i(1) by auto
      obtain xs where xs: "log_bytes 0 (numbered 0 (take i gs)) = log_bytes 0 (numbered 0 (take (Suc j) gs)) @ xs"
        using \<open>Suc j \<le> i\<close> log_bytes_append numbered_append by (metis append_take_drop_id min.absorb1 take_take)
      obtain ys where ys: "G = log_bytes 0 (numbered 0 (take i gs)) @ ys"
        unfolding assms(1) using log_bytes_append numbered_append by (metis append_take_drop_id)
      from xs ys i(2) have "length (log_bytes 0 (numbered 0 (take (Suc j) gs))) \<le> min m (length G)" by simp
      with j(3) \<open>j < length gs\<close> show False by (simp add: take_numbered)
    qed
  qed
qed

text \<open>
  C1: two queues of writes, with or without \<^verbatim>\<open>sync\<close>, are acknowledged one after the other by a new database whose memory table
  has room for them; every lookup then answers by the newest update that its snapshot sees. Whatever prefix of the log a
  crash leaves, recovering it succeeds, with tables that hold exactly the updates of the first writes, whole writes only,
  and with their last sequence number; as soon as the log is there up to where it ended when the first queue was
  acknowledged, none of that queue is lost, and the whole log gives everything. Other threads change the database whenever
  the lock is released, but leave the writes alone.
\<close>
theorem db_crash_recovery:
  fixes env :: "PosixWritableFile DBEnv"
  assumes "comparator (de_compare env)" "de_files env = posix_writable" "pw_written f = []" "pw_syncs f"
    "\<forall>op \<in> set (concat (map fst (qs @ rs))). db_op_ok op" "length (concat (map fst (qs @ rs))) < 2 ^ 31"
    "mem_room (concat (map fst (qs @ rs))) \<le> de_write_buffer env"
    "log_room (map fst (qs @ rs)) \<le> pw_space f" "log_room (map fst (qs @ rs)) < fuel" "length (qs @ rs) < turns"
    "\<forall>other \<in> set (others1 @ others2). leaves_alone other"
  shows "\<exists>db1 db2.
    WriteQueue env (length qs) others1 (map queued qs) (empty_db env number f) = Some (replicate (length qs) Status_OK, db1) \<and>
    WriteQueue env (length rs) others2 (map queued rs) db1 = Some (replicate (length rs) Status_OK, db2) \<and>
    answers (de_compare env) 1 (db_mem db2) (concat (map fst (qs @ rs))) \<and>
    (\<forall>m. \<exists>k st.
      RecoverLogFile posix_sequential fuel turns (de_compare env) new_char paranoid write_buffer_size keep_table None
        (Status_OK, rfile (take m (log_file db2))) [] 0 = Some (not_reused, st) \<and>
      rs_status st = Status_OK \<and> rs_max_sequence st = of_nat (length (concat (map fst (take k (qs @ rs))))) \<and>
      tables_hold (de_compare env) 1 (rs_edit st) (concat (map fst (take k (qs @ rs)))) \<and>
      k \<le> length (qs @ rs) \<and> (length (log_file db1) \<le> m \<longrightarrow> length qs \<le> k) \<and>
      (length (log_file db2) \<le> m \<longrightarrow> k = length (qs @ rs)))"
proof -
  define needed where "needed = log_room (map fst (qs @ rs))"
  have ok: "\<forall>q \<in> set qs. \<forall>op \<in> set (fst q). db_op_ok op" "\<forall>q \<in> set rs. \<forall>op \<in> set (fst q). db_op_ok op"
    using assms(5) by auto
  have rooms: "needed = log_room (map fst qs) + log_room (map fst rs)"
    by (simp add: needed_def log_room_append)
  have "db_inv pw_written pw_space pw_syncs env [] needed (empty_db env number f)"
    using assms(1,3,4,8) by (intro empty_db_inv) (simp_all add: needed_def)
  from posix_s.WriteQueue_ok [OF assms(2,1) this ok(1), of "length qs" others1] assms(6,7,11) rooms
  obtain db1 hs1 where 1: "WriteQueue env (length qs) others1 (map queued qs) (empty_db env number f) =
      Some (replicate (length qs) Status_OK, db1)" "concat hs1 = map fst qs" "\<forall>h \<in> set hs1. h \<noteq> []"
      "db_inv pw_written pw_space pw_syncs env (map concat hs1) (log_room (map fst rs)) db1"
    by (auto simp: mem_room_append)
  have ops1: "concat (map concat hs1) = concat (map fst qs)" using 1(2) by (simp add: concat_groups)
  from posix_s.WriteQueue_ok [OF assms(2,1) 1(4) ok(2), of "length rs" others2] assms(6,7,11)
  obtain db2 hs2 where 2: "WriteQueue env (length rs) others2 (map queued rs) db1 =
      Some (replicate (length rs) Status_OK, db2)" "concat hs2 = map fst rs" "\<forall>h \<in> set hs2. h \<noteq> []"
      "db_inv pw_written pw_space pw_syncs env (map concat hs1 @ map concat hs2) 0 db2"
    by (auto simp: mem_room_append ops1)
  define hs where "hs = hs1 @ hs2"
  define gs where "gs = map concat hs"
  have hs: "concat hs = map fst (qs @ rs)" "\<forall>h \<in> set hs. h \<noteq> []" using 1(2,3) 2(2,3) by (auto simp: hs_def)
  have files: "log_file db1 = log_bytes 0 (numbered 0 (take (length hs1) gs))" "log_file db2 = log_bytes 0 (numbered 0 gs)"
    and mem: "mem_inv (de_compare env) (db_mem db2) (batch_mem_ops 1 (concat gs))"
    using 1(4) 2(4) by (simp_all add: db_inv_def log_file_def gs_def hs_def)
  have ops: "concat gs = concat (map fst (qs @ rs))" unfolding gs_def hs(1) [symmetric] by (rule concat_groups)
  have fuel: "length (log_file db2) < fuel"
    using numbered_log_room [of 0 0 gs] log_room_groups [OF hs(2)] assms(9) unfolding files gs_def hs(1) by linarith
  have recover: "\<exists>k st. RecoverLogFile posix_sequential fuel turns (de_compare env) new_char paranoid write_buffer_size keep_table None
        (Status_OK, rfile (take m (log_file db2))) [] 0 = Some (not_reused, st) \<and>
      rs_status st = Status_OK \<and> rs_max_sequence st = of_nat (length (concat (map fst (take k (qs @ rs))))) \<and>
      tables_hold (de_compare env) 1 (rs_edit st) (concat (map fst (take k (qs @ rs)))) \<and>
      k \<le> length (qs @ rs) \<and> (length (log_file db1) \<le> m \<longrightarrow> length qs \<le> k) \<and>
      (length (log_file db2) \<le> m \<longrightarrow> k = length (qs @ rs))" for m
  proof -
    obtain j where j: "j \<le> length gs"
      "reads_quiet posix_sequential fuel (numbered 0 (take j gs)) (log_Reader_new (rfile (take m (log_file db2))) True True 0)"
      "\<And>i. i \<le> length gs \<Longrightarrow> length (log_bytes 0 (numbered 0 (take i gs))) \<le> m \<Longrightarrow> i \<le> j"
      using read_cut_batches [OF files(2) fuel, of m] by blast
    define k where "k = length (concat (take j hs))"
    have "concat (take j hs) = map fst (take k (qs @ rs))"
      using take_groups [of j hs] unfolding k_def hs(1) take_map .
    then have updates: "concat (take j gs) = concat (map fst (take k (qs @ rs)))"
      unfolding gs_def take_map concat_groups by simp
    have split: "length (concat (take j hs)) + length (concat (drop j hs)) = length (qs @ rs)"
      using arg_cong [OF hs(1), of length] by (metis append_take_drop_id concat_append length_append length_map)
    then have le: "k \<le> length (qs @ rs)" by (simp add: k_def)
    have first: "length qs \<le> k" if "length (log_file db1) \<le> m"
    proof -
      have "length hs1 \<le> j" using j(3) [of "length hs1"] that unfolding files by (simp add: gs_def hs_def)
      then have "take j hs = hs1 @ take (j - length hs1) hs2" by (simp add: hs_def)
      then show ?thesis using arg_cong [OF 1(2), of length] by (simp add: k_def)
    qed
    have all: "k = length (qs @ rs)" if "length (log_file db2) \<le> m"
      using j(3) [of "length gs"] that split unfolding files by (simp add: gs_def k_def)
    have "length (take j gs) < turns"
      using groups_fewer [OF hs(2)] arg_cong [OF hs(1), of length] assms(10) by (simp add: gs_def)
    moreover have "\<forall>op \<in> set (concat (take j gs)). db_op_ok op"
      using assms(5) unfolding updates by (auto dest: in_set_takeD)
    moreover have "length (concat (take j gs)) < 2 ^ 31"
      using assms(6) unfolding ops [symmetric]
      by (metis append_take_drop_id concat_append le_add1 le_less_trans length_append)
    ultimately obtain st where "RecoverLogFile posix_sequential fuel turns (de_compare env) new_char paranoid write_buffer_size keep_table None
        (Status_OK, rfile (take m (log_file db2))) [] 0 = Some (not_reused, st)" "rs_status st = Status_OK"
      "rs_max_sequence st = of_nat (length (concat (take j gs)))" "tables_hold (de_compare env) 1 (rs_edit st) (concat (take j gs))"
      using RecoverLogFile_ok [OF assms(1) j(2)] by metis
    with le first all show ?thesis unfolding updates by blast
  qed
  show ?thesis
    using 1(1) 2(1) recover mem_inv_answers [OF assms(1) mem] unfolding ops by blast
qed

definition small_env :: "PosixWritableFile DBEnv" where
  "small_env = \<lparr>de_files = posix_writable, de_new_file = (\<lambda>n. (Status_OK, empty_wfile 1000)),
     de_compare = Bytewise_Compare, de_new_char = bump, de_write_buffer = 4194304\<rparr>"

theorem db_crash_recovery_witness:
  "\<exists>db1 db2. WriteQueue small_env 2 [db_imm_update (\<lambda>imm. None)] [queued ([BPut [1] [2]], True), queued ([BDelete [3]], False)] (empty_db small_env 7 (empty_wfile 1000)) =
      Some ([Status_OK, Status_OK], db1) \<and>
    WriteQueue small_env 1 [] [queued ([BPut [1] [4, 5]], False)] db1 = Some ([Status_OK], db2) \<and>
    (\<exists>st. RecoverLogFile posix_sequential 1000 4 Bytewise_Compare bump False 4096 keep_table None (Status_OK, rfile (log_file db2)) [] 0 = Some (not_reused, st) \<and>
      tables_hold Bytewise_Compare 1 (rs_edit st) [BPut [1] [2], BDelete [3], BPut [1] [4, 5]])"
proof -
  define qs where "qs = [([BPut [1] [2]], True), ([BDelete [3 :: byte]], False)]"
  define rs where "rs = [([BPut [1 :: byte] [4, 5]], False)]"
  have "\<exists>db1 db2.
    WriteQueue small_env (length qs) [db_imm_update (\<lambda>imm. None)] (map queued qs) (empty_db small_env 7 (empty_wfile 1000)) =
      Some (replicate (length qs) Status_OK, db1) \<and>
    WriteQueue small_env (length rs) [] (map queued rs) db1 = Some (replicate (length rs) Status_OK, db2) \<and>
    answers (de_compare small_env) 1 (db_mem db2) (concat (map fst (qs @ rs))) \<and>
    (\<forall>m. \<exists>k st.
      RecoverLogFile posix_sequential 1000 4 (de_compare small_env) bump False 4096 keep_table None (Status_OK, rfile (take m (log_file db2))) [] 0 = Some (not_reused, st) \<and>
      rs_status st = Status_OK \<and> rs_max_sequence st = of_nat (length (concat (map fst (take k (qs @ rs))))) \<and>
      tables_hold (de_compare small_env) 1 (rs_edit st) (concat (map fst (take k (qs @ rs)))) \<and>
      k \<le> length (qs @ rs) \<and> (length (log_file db1) \<le> m \<longrightarrow> length qs \<le> k) \<and>
      (length (log_file db2) \<le> m \<longrightarrow> k = length (qs @ rs)))"
    by (rule db_crash_recovery)
      (simp_all add: small_env_def empty_wfile_def qs_def rs_def mem_room_def log_room_def length_prefixed_def base128_small
        bytewise.comparator_axioms leaves_alone_def)
  then obtain db1 db2 where db: "WriteQueue small_env (length qs) [db_imm_update (\<lambda>imm. None)] (map queued qs) (empty_db small_env 7 (empty_wfile 1000)) =
      Some (replicate (length qs) Status_OK, db1)"
    "WriteQueue small_env (length rs) [] (map queued rs) db1 = Some (replicate (length rs) Status_OK, db2)"
    "\<And>m. \<exists>k st.
      RecoverLogFile posix_sequential 1000 4 (de_compare small_env) bump False 4096 keep_table None (Status_OK, rfile (take m (log_file db2))) [] 0 = Some (not_reused, st) \<and>
      tables_hold (de_compare small_env) 1 (rs_edit st) (concat (map fst (take k (qs @ rs)))) \<and>
      (length (log_file db2) \<le> m \<longrightarrow> k = length (qs @ rs))"
    by blast
  from db(3) [of "length (log_file db2)"] obtain st where
    "RecoverLogFile posix_sequential 1000 4 Bytewise_Compare bump False 4096 keep_table None (Status_OK, rfile (log_file db2)) [] 0 = Some (not_reused, st)"
    "tables_hold Bytewise_Compare 1 (rs_edit st) (concat (map fst (qs @ rs)))"
    by (auto simp: small_env_def)
  with db(1,2) show ?thesis by (auto simp: qs_def rs_def numeral_2_eq_2)
qed

section \<open>A disk that fails\<close>

lemma MakeRoomForWrite_ok:
  "MakeRoomForWrite env others force db = Some (Status_OK, db', others') \<Longrightarrow> db_bg_error db' = Status_OK"
proof -
  have "MakeRoomForWrite_loop env others delay force db = Some (Status_OK, db', others') \<Longrightarrow> db_bg_error db' = Status_OK" for delay
  proof (induction env others delay force db rule: MakeRoomForWrite_loop.induct)
    case (1 env others delay force db)
    from "1.prems" "1.IH" show ?case
      unfolding MakeRoomForWrite_loop.simps [of env others delay force db]
      by (auto simp: Let_def Status_ok_def split: if_splits list.splits)
  qed
  then show "MakeRoomForWrite env others force db = Some (Status_OK, db', others') \<Longrightarrow> db_bg_error db' = Status_OK"
    unfolding MakeRoomForWrite_def .
qed

text \<open>Nothing clears a background error: other threads only record one where none is.\<close>

definition keeps_error :: "('w DBImpl \<Rightarrow> 'w DBImpl) \<Rightarrow> bool" where
  "keeps_error other \<longleftrightarrow> (\<forall>db. \<not> Status_ok (db_bg_error db) \<longrightarrow> db_bg_error (other db) = db_bg_error db)"

lemma RecordBackgroundError_keeps: "keeps_error (RecordBackgroundError s)"
  by (simp add: keeps_error_def RecordBackgroundError_def)

lemma write_after_error:
  assumes "\<not> Status_ok (db_bg_error db)" "\<forall>other \<in> set later. keeps_error other"
  shows "DBImpl_Write env others w ws (fold (\<lambda>other. other) later db) =
    Some ([db_bg_error db], ws, fold (\<lambda>other. other) later db, others)"
proof -
  have "db_bg_error (fold (\<lambda>other. other) later db) = db_bg_error db"
    using assms by (induction later arbitrary: db) (auto simp: keeps_error_def)
  with assms(1) show ?thesis by (simp add: DBImpl_Write_def MakeRoomForWrite_error)
qed

text \<open>
  C14: when the batch of a group is in the log but cannot be brought to the disk, the writers of the group get the error and
  the updates do not reach the memory table. The database has a background error from then on: the one of the disk, or one
  that another thread recorded while the lock was released. Whatever other threads do to the database later, as long as they
  do not clear that error, every write of any writer returns it at once and changes nothing.
\<close>
theorem sync_error_is_final:
  assumes "wr_batch w = Some batch" "wr_sync w"
    "MakeRoomForWrite env others False db = Some (Status_OK, db1, others1)"
    "BuildBatchGroup (db_tmp_batch db1) batch True ws = (updates, first, k)"
    "AddRecord (de_files env) (Batch_Contents (Batch_SetSequence updates (db_last_sequence db1 + 1))) (db_log db1) =
      (Status_OK, log)"
    "wf_Sync (de_files env) (lw_dest log) = (s, dest)" "\<not> Status_ok s"
    "release_lock others1 db1 = (db2, others2)"
    "err = (if Status_ok (db_bg_error db2) then s else db_bg_error db2)"
  shows "\<exists>db'. DBImpl_Write env others w ws db = Some (replicate (k + 1) s, drop k ws, db', others2) \<and>
    db_mem db' = db_mem db1 \<and>
    (\<forall>later others w ws. (\<forall>other \<in> set later. keeps_error other) \<longrightarrow>
      DBImpl_Write env others w ws (fold (\<lambda>other. other) later db') =
        Some ([err], ws, fold (\<lambda>other. other) later db', others))"
proof -
  define db3 where "db3 = RecordBackgroundError s (db2\<lparr>db_log := log\<lparr>lw_dest := dest\<rparr>, db_mem := db_mem db1\<rparr>)"
  define u where "u = Batch_SetSequence updates (db_last_sequence db1 + 1)"
  have applied: "log_and_apply env others1 True u db1 = Some (s, db3, others2)"
    using assms(5-8) unfolding u_def [symmetric] by (simp add: log_and_apply_def db3_def)
  define db' where "db' = (if first then db3 else db3\<lparr>db_tmp_batch := WriteBatch_Clear u\<rparr>)
    \<lparr>db_last_sequence := db_last_sequence db1 + scast (Batch_Count u)\<rparr>"
  have "DBImpl_Write env others w ws db = Some (replicate (k + 1) s, drop k ws, db', others2)"
    using assms(1-4) applied by (simp add: DBImpl_Write_def db'_def u_def Let_def)
  moreover have "db_mem db' = db_mem db1" "db_bg_error db' = err"
    using assms(9) by (simp_all add: db'_def db3_def RecordBackgroundError_def)
  moreover have "\<not> Status_ok err" using assms(7,9) by simp
  ultimately show ?thesis using write_after_error by metis
qed

lemma posix_keeps: "file_keeps posix_writable (\<lambda>f. (pw_filename f, pw_syncs f, pw_strerror f))"
  by (simp add: file_keeps_def posix_writable_def PosixWritable_Append_def PosixWritable_Flush_def fwrite_unlocked_def Let_def)

theorem sync_error_is_final_witness:
  "\<exists>db'. DBImpl_Write small_env [RecordBackgroundError (Status_new kCorruption ''block'' [])]
      (queued ([BPut [1] [2]], True)) [queued ([BDelete [1]], False)]
      (empty_db small_env 7 ((empty_wfile 1000)\<lparr>pw_syncs := False\<rparr>)) =
    Some ([Status_new kIOError ''LOG'' ''No space left on device'', Status_new kIOError ''LOG'' ''No space left on device''],
      [], db', []) \<and>
    DBImpl_Write small_env [] (queued ([BPut [3] [4]], False)) [] (db'\<lparr>db_imm := None\<rparr>) =
      Some ([Status_new kCorruption ''block'' []], [], db'\<lparr>db_imm := None\<rparr>, [])"
proof -
  let ?other = "RecordBackgroundError (Status_new kCorruption ''block'' [])"
  let ?no_imm = "db_imm_update (\<lambda>imm. None) :: PosixWritableFile DBImpl \<Rightarrow> PosixWritableFile DBImpl"
  define f where "f = (empty_wfile 1000)\<lparr>pw_syncs := False\<rparr>"
  define db where "db = empty_db small_env 7 f"
  define u where "u = batch_bytes 0 [BPut [1] [2], BDelete [1]]"
  define v where "v = Batch_Contents (Batch_SetSequence u (db_last_sequence db + 1))"
  have batches: "wr_batch (queued ([BPut [1] [2]], True)) = Some (batch_bytes 0 [BPut [1] [2]])"
    "wr_batch (queued ([BDelete [1]], False)) = Some (batch_bytes 0 [BDelete [1]])"
    "wr_sync (queued ([BPut [1] [2]], True))"
    using queued_simps(2) [of "([BPut [1] [2]], True)"] queued_simps(2) [of "([BDelete [1]], False)"] by (simp_all add: queued_simps(1))
  have "MemTable_ApproximateMemoryUsage (db_mem db) \<le> 4300"
    using MemTable_new_usage [of bump] by (simp add: db_def empty_db_def small_env_def MemTable_ApproximateMemoryUsage_def MemTable_Ref_def)
  then have roomy: "MakeRoomForWrite small_env [?other] False db = Some (Status_OK, db, [?other])"
    by (intro MakeRoomForWrite_room) (simp_all add: db_def empty_db_def kL0_SlowdownWritesTrigger_def small_env_def)
  have sizes: "Batch_ByteSize (batch_bytes 0 [BPut [1] [2]]) = 17" "Batch_ByteSize (batch_bytes 0 [BDelete [1]]) = 15"
    by (simp_all add: Batch_ByteSize_def batch_bytes_def length_prefixed_def base128_small)
  have tmp: "db_tmp_batch db = batch_bytes 0 []" by (simp add: db_def empty_db_def WriteBatch_new_bytes)
  have group: "BuildBatchGroup (db_tmp_batch db) (batch_bytes 0 [BPut [1] [2]]) True [queued ([BDelete [1]], False)] = (u, False, 1)"
    by (simp add: BuildBatchGroup_def tmp sizes batches(2) Let_def Batch_Append_bytes u_def queued_simps(1))
  obtain s1 log where 1: "AddRecord_loop posix_writable True v (db_log db) = (s1, log)" by fastforce
  have "v = batch_bytes (db_last_sequence db + 1) [BPut [1] [2], BDelete [1]]"
    unfolding v_def u_def Batch_Contents_def Batch_SetSequence_bytes ..
  then have "length v = 20" by (simp add: batch_bytes_def length_prefixed_def base128_small)
  then have "length (log_record 0 True v) \<le> pw_space (lw_dest (db_log db))"
    using length_log_record_le [of 0 True v] by (simp add: db_def empty_db_def log_Writer_new_def f_def empty_wfile_def)
  from posix_w.AddRecord_loop_ok [OF _ this 1] log_Writer_new_at [of f]
  have s1: "s1 = Status_OK" by (simp add: db_def empty_db_def)
  have "(pw_filename (lw_dest log), pw_syncs (lw_dest log), pw_strerror (lw_dest log)) = (''LOG'', False, ''No space left on device'')"
    using AddRecord_loop_keeps [OF posix_keeps, of True v "db_log db"] 1
    by (simp add: db_def empty_db_def log_Writer_new_def f_def empty_wfile_def)
  then have sync: "wf_Sync (de_files small_env) (lw_dest log) = (Status_new kIOError ''LOG'' ''No space left on device'', lw_dest log)"
    by (simp add: small_env_def posix_writable_def PosixWritable_Sync_def PosixWritable_SyncDirIfManifest_def Let_def)
  have add: "AddRecord (de_files small_env) v (db_log db) = (Status_OK, log)"
    using 1 s1 by (simp add: AddRecord_def small_env_def)
  have release: "release_lock [?other] db = (?other db, [])" by (simp add: release_lock_def)
  have err: "Status_new kCorruption ''block'' [] = (if Status_ok (db_bg_error (?other db)) then
      Status_new kIOError ''LOG'' ''No space left on device'' else db_bg_error (?other db))"
    by (simp add: RecordBackgroundError_def db_def empty_db_def)
  from sync_error_is_final [OF batches(1,3) roomy group add [unfolded v_def] sync _ release err]
  obtain db' where 1: "DBImpl_Write small_env [?other] (queued ([BPut [1] [2]], True)) [queued ([BDelete [1]], False)] db =
      Some (replicate (1 + 1) (Status_new kIOError ''LOG'' ''No space left on device''), drop 1 [queued ([BDelete [1]], False)], db', [])"
    and 2: "\<And>later others w ws. \<forall>other \<in> set later. keeps_error other \<Longrightarrow>
      DBImpl_Write small_env others w ws (fold (\<lambda>other. other) later db') =
        Some ([Status_new kCorruption ''block'' []], ws, fold (\<lambda>other. other) later db', others)"
    by auto
  from 2 [of "[?no_imm]" "[]" "queued ([BPut [3] [4]], False)" "[]"]
  have "DBImpl_Write small_env [] (queued ([BPut [3] [4]], False)) [] (?no_imm db') =
      Some ([Status_new kCorruption ''block'' []], [], ?no_imm db', [])"
    by (simp add: keeps_error_def)
  with 1 show ?thesis unfolding db_def [symmetric] f_def [symmetric] by (intro exI [of _ db']) (simp add: numeral_2_eq_2)
qed

section \<open>Groups and the disk\<close>

lemma BuildBatchGroup_loop_sync:
  "BuildBatchGroup_loop sync max_size tmp ws sum_size result first i = (r, f, l) \<Longrightarrow>
   \<exists>k \<le> length ws. l = i + k \<and> (\<forall>x \<in> set (take k ws). wr_sync x \<longrightarrow> sync)"
proof (induction sync max_size tmp ws sum_size result first i rule: BuildBatchGroup_loop.induct)
  case (2 sync max_size tmp w ws sum_size result first i)
  have stop: ?case if "l = i" using that by (intro exI [of _ 0]) simp
  have more: ?case if "\<exists>k \<le> length ws. l = i + 1 + k \<and> (\<forall>x \<in> set (take k ws). wr_sync x \<longrightarrow> sync)" "wr_sync w \<longrightarrow> sync"
  proof -
    from that(1) obtain k where "k \<le> length ws" "l = i + 1 + k" "\<forall>x \<in> set (take k ws). wr_sync x \<longrightarrow> sync" by blast
    with that(2) show ?case by (intro exI [of _ "Suc k"]) auto
  qed
  show ?case
  proof (cases "wr_sync w \<and> \<not> sync")
    case False
    then have w: "wr_sync w \<longrightarrow> sync" by blast
    show ?thesis
    proof (cases "wr_batch w")
      case None
      with False 2 w show ?thesis by (intro more) auto
    next
      case (Some batch)
      show ?thesis
      proof (cases "sum_size + Batch_ByteSize batch > max_size")
        case True
        with False Some "2.prems" show ?thesis by (intro stop) (auto simp: Let_def)
      next
        case fits: False
        from "2.prems" False Some fits have "BuildBatchGroup_loop sync max_size tmp ws (sum_size + Batch_ByteSize batch)
            (Batch_Append (if first then Batch_Append tmp result else result) batch) False (i + 1) = (r, f, l)"
          by (auto simp: Let_def)
        from "2.IH"(2) [OF False Some refl fits refl refl this] w show ?thesis by (intro more) auto
      qed
    qed
  qed (use "2.prems" in \<open>intro stop, simp\<close>)
qed auto

text \<open>
  C21: a write answers for the writers next in the queue, all with its own status, and none that asked for the disk is
  answered by a write that does not bring its batch there.
\<close>
theorem write_group_sync:
  assumes "DBImpl_Write env others w ws db = Some (statuses, ws', db', others')"
  shows "\<exists>k status. k \<le> length ws \<and> statuses = replicate (k + 1) status \<and> ws' = drop k ws \<and>
    (\<forall>x \<in> set (take k ws). wr_sync x \<longrightarrow> wr_sync w)"
proof -
  obtain status db1 others1 where room: "MakeRoomForWrite env others (wr_batch w = None) db = Some (status, db1, others1)"
    using assms by (auto simp: DBImpl_Write_def split: Option.bind_splits)
  have alone: ?thesis if "statuses = [status]" "ws' = ws"
    using that by (intro exI [of _ 0] exI [of _ status]) simp
  show ?thesis
  proof (cases "Status_ok status \<and> wr_batch w \<noteq> None")
    case True
    then obtain batch where batch: "wr_batch w = Some batch" by blast
    obtain updates first l where group: "BuildBatchGroup (db_tmp_batch db1) batch (wr_sync w) ws = (updates, first, l)"
      by (metis prod_cases3)
    then obtain k where "k \<le> length ws" "l = k" "\<forall>x \<in> set (take k ws). wr_sync x \<longrightarrow> wr_sync w"
      unfolding BuildBatchGroup_def Let_def by (auto dest!: BuildBatchGroup_loop_sync)
    moreover from assms True room batch group obtain status' where "statuses = replicate (l + 1) status'" "ws' = drop l ws"
      by (auto simp: DBImpl_Write_def Let_def split: Option.bind_splits)
    ultimately show ?thesis by blast
  next
    case False
    with assms room show ?thesis by (intro alone) (auto simp: DBImpl_Write_def Let_def split: if_splits option.splits)
  qed
qed

theorem write_group_sync_witness:
  "\<exists>k db'. k \<le> 1 \<and> DBImpl_Write small_env [] (queued ([BPut [1] [2]], False))
      [queued ([BDelete [3]], False), queued ([BDelete [1]], True)] (empty_db small_env 7 (empty_wfile 1000)) =
    Some (replicate (Suc k) Status_OK, map queued (drop k [([BDelete [3]], False), ([BDelete [1]], True)]), db', [])"
proof -
  define qs where "qs = [([BDelete [3]], False), ([BDelete [1 :: byte]], True)]"
  define db where "db = empty_db small_env 7 (empty_wfile 1000)"
  have inv: "db_inv pw_written pw_space pw_syncs small_env [] 1000 db"
    unfolding db_def by (intro empty_db_inv) (simp_all add: empty_wfile_def small_env_def bytewise.comparator_axioms)
  have env: "de_files small_env = posix_writable" "comparator (de_compare small_env)"
    by (simp_all add: small_env_def bytewise.comparator_axioms)
  obtain k db' others' where "k \<le> length qs" "set others' \<subseteq> set []" "DBImpl_Write small_env [] (queued ([BPut [1] [2]], False)) (map queued qs) db =
      Some (replicate (Suc k) Status_OK, map queued (drop k qs), db', others')"
    by (rule posix_s.DBImpl_Write_queued [OF inv env, of "([BPut [1] [2]], False)" qs "[]"])
      (auto simp: qs_def small_env_def mem_room_def log_room_def length_prefixed_def base128_small)
  then have k: "k \<le> length qs" "DBImpl_Write small_env [] (queued ([BPut [1] [2]], False)) (map queued qs) db =
      Some (replicate (Suc k) Status_OK, map queued (drop k qs), db', [])"
    by simp_all
  from write_group_sync [OF k(2)] obtain l where
    "replicate (Suc k) Status_OK = replicate (l + 1) (hd (replicate (Suc k) Status_OK))"
    "\<forall>x \<in> set (take l (map queued qs)). \<not> wr_sync x"
    by (auto simp: queued_simps(1))
  then have "k = l" "\<forall>x \<in> set (take l (map queued qs)). \<not> wr_sync x" by (auto dest: arg_cong [of _ _ length])
  with k(1) have "k \<le> 1" by (cases "k = 2") (auto simp: qs_def queued_simps(1))
  with k(2) show ?thesis by (auto simp: qs_def db_def)
qed

end
