(* ===== verification/Spec2Isabelle.thy ===== *)
theory Spec2Isabelle
  imports Base64_Codec Pb_Codec Pb_Message Pb_Encode Pb_Fields Pb_Roundtrip Zip_Extract Zip_Read Zip_Session Zip_Locate
    Zip_Open Ldb_Durable
begin

text \<open>
  \<^bold>\<open>AstroAR: the C and C++ code of the client.\<close>

  The iOS client (\<^verbatim>\<open>src/ios-client\<close>) rests on four pieces of C and C++ code that lie under \<^verbatim>\<open>Pods\<close>, and this
  development is about them:

  \<^item> \<^bold>\<open>Base64\<close>, \<^verbatim>\<open>FirebaseDatabase/.../SocketRocket/fbase64.c\<close>: the codec of the web socket handshake.
  \<^item> \<^bold>\<open>nanopb\<close>, \<^verbatim>\<open>nanopb/pb_common.c\<close>, \<^verbatim>\<open>pb_decode.c\<close>, \<^verbatim>\<open>pb_encode.c\<close>: protocol buffers, driven by tables
    of field descriptors; the analytics library stores and sends its events with it.
  \<^item> \<^bold>\<open>minizip\<close>, \<^verbatim>\<open>Zip/Zip/minizip/ioapi.c\<close>, \<^verbatim>\<open>zip.c\<close>, \<^verbatim>\<open>unzip.c\<close>, \<^verbatim>\<open>crypt.h\<close>: the archives in which
    the three-dimensional models are shipped; \<^verbatim>\<open>Zip.swift\<close> calls it.
  \<^item> \<^bold>\<open>leveldb\<close>, \<^verbatim>\<open>leveldb-library\<close>: the key-value store in which the database of Firebase keeps what it has not
    sent yet. Modelled is the way of a write, and back after a crash: the queue of writers, batches, the log, the memory
    table with its skip list and arena, the recovery of a log, and the coding, checksums and key orders below them.

  The four do not call each other. Inside nanopb, messages use the iterator of \<^verbatim>\<open>pb_common.c\<close> and the streams at the
  start of \<^verbatim>\<open>pb_decode.c\<close> and \<^verbatim>\<open>pb_encode.c\<close>. Inside minizip, \<^verbatim>\<open>zip.c\<close> and \<^verbatim>\<open>unzip.c\<close> reach files only
  through the function tables of \<^verbatim>\<open>ioapi.c\<close>, and meet each other in the bytes of an archive. Inside leveldb, a batch is
  both the record of the log and what is inserted into the memory table, when it is written and when it is recovered; the
  table orders its entries by the comparator of internal keys, which is made of the comparator of the user.

  The target is that of the project: LP64, little endian, \<^verbatim>\<open>PB_FIELD_32BIT\<close> (\<^verbatim>\<open>nanopb.xcconfig\<close>), without
  \<^verbatim>\<open>PB_ENABLE_MALLOC\<close>, \<^verbatim>\<open>HAVE_AES\<close>, \<^verbatim>\<open>HAVE_BZIP2\<close> and \<^verbatim>\<open>NOCRYPT\<close>. Names are those of the code; a definition
  without such a name is a part of a function (a loop, a block, a sequence of writes) that the text before it describes.

  \<^bold>\<open>Conventions.\<close> Machine integers are words (\<open>u32\<close>, \<open>u64\<close>, \<open>byte\<close>) where they can wrap, \<open>nat\<close> for offsets and
  counts that the code keeps in range, \<open>int\<close> for error codes. Structures that the code reaches through pointers and
  offsets from tables (nanopb's messages) live in a byte memory \<open>mem\<close> with little-endian loads and stores; the others
  are records. Every operation returns its error code or failure as a value. \<open>None\<close> as the result of an operation
  means undefined behaviour (a call through NULL, a write outside of a block) or the end of the fuel, never an error
  of the code: theorems that say that an operation gives \<open>Some\<close> exclude it.

  \<^bold>\<open>The theories.\<close>

  \<^item> \<open>Prelude\<close>: machine types, the memory with its frame lemmas, little-endian numbers, the sums of \<^verbatim>\<open>size_t\<close>; the
    collections \<open>mem_simps\<close> and \<open>stream_simps\<close>.
  \<^item> \<open>Base64_Codec\<close>: \<open>f_b64_ntop\<close>, \<open>f_b64_pton\<close>; the text of RFC 1521 as specification, both inverses, white space, the
    bounds of the target.
  \<^item> \<open>Pb_Common\<close>: \<open>pb_field\<close> and the iterator (\<open>pb_field_iter_begin\<close>, \<open>_next\<close>, \<open>_find\<close>) with its invariant.
  \<^item> \<open>Pb_Istream\<close>, \<open>Pb_Ostream\<close>: the streams, varints, tags, skipping and substreams. The lemmas give the effect of each
    operation on a stream that holds given bytes (\<open>stream_at\<close>) or has room (\<open>has_room\<close>, \<open>emit\<close>).
  \<^item> \<open>Pb_Codec\<close>: scalars and tags read back; decoding of any input at all, valid or not.
  \<^item> \<open>Pb_Decode\<close>, \<open>Pb_Message\<close>: the field decoders \<^verbatim>\<open>PB_DECODERS\<close>, static, packed, oneof and callback fields, extensions,
    defaults, the check of the required fields, \<open>pb_decode\<close>, \<open>pb_decode_noinit\<close>, \<open>pb_decode_delimited\<close>.
  \<^item> \<open>Pb_Safety\<close>: for a table that fits its structure and any bytes, the decoder is never stuck, reads only the buffer
    and writes only the structure. \<open>Pb_Total\<close>: its result does not depend on the fuel once there is enough.
  \<^item> \<open>Pb_Fields\<close>: required fields, unknown fields, the end of a message.
  \<^item> \<open>Pb_Encode\<close>: the field encoders, arrays, submessages, extensions, \<open>pb_encode\<close>, \<open>pb_encode_delimited\<close>,
    \<open>pb_get_encoded_size\<close>. \<open>Pb_Wire\<close>: the bytes of a structure by the rules of the format (\<open>message_wire\<close>), which the
    encoder refines, with and without a destination.
  \<^item> \<open>Pb_Roundtrip\<close>: the contract of a field type (locales \<open>item_codec\<close>, \<open>packable_codec\<close>), an interpretation for each
    type, and round trips of fields and packed arrays.
  \<^item> \<open>Zip_Io\<close>: the function tables of \<^verbatim>\<open>ioapi.h\<close> over any world of files, their dispatch, and the functions over
    \<^verbatim>\<open>stdio\<close> that fill them by default, on a model of named files with open streams (record \<open>stdio\<close>).
  \<^item> \<open>Zip_Central\<close>, \<open>Zip_Extract\<close>: \<^verbatim>\<open>unzip.c\<close>, all functions: opening an archive, walking and searching it (state
    \<open>unz64_s\<close>), opening an entry, reading, seeking and closing it (state \<open>file_in_zip64_read_info_s\<close>).
  \<^item> \<open>Zip_Crypt\<close>: \<^verbatim>\<open>crypt.h\<close>, the keys and the stream cipher.
  \<^item> \<open>Zip_Blocks\<close>, \<open>Zip_Write\<close>: \<^verbatim>\<open>zip.c\<close>, all functions: the block list of the central directory, entries (state
    \<open>curfile64_info\<close>) and archives (state \<open>zip64_internal\<close>), the disks of a split archive, existing archives.
  \<^item> \<open>Zip_Read\<close>, \<open>Zip_Stored\<close>: what reading gives, for every table that behaves like a file (locale \<open>zip_file\<close>): numbers,
    the search of the end record, the data of a stored entry. \<open>Zip_Archive\<close>, \<open>Zip_Entry\<close>: what writing leaves in the file
    (locale \<open>zip_out\<close>, an extension of \<open>zip_file\<close>): entries, directory, end records. \<open>Zip_Frame\<close>: several streams and named
    files (locale \<open>unz_files\<close>). Each of these locales is interpreted on the 64-bit and on the 32-bit table of \<^verbatim>\<open>stdio\<close>.
  \<^item> \<open>Zip_Unpack\<close>, \<open>Zip_Locate\<close>: the composition: the reader on the archive of the writer. Its clients \<open>write_archive\<close>
    and \<open>unpack\<close> call the library in the order in which \<^verbatim>\<open>Zip.swift\<close> does.
  \<^item> \<open>Zip_Open\<close>: opening an archive that any program may have written, with \<open>refused_end\<close> and \<open>opened_at\<close> as specification.
  \<^item> \<open>Zip_Session\<close>: the reachable states of the writer as an inductive relation over its operations (\<open>session\<close>), and the
    invariants that hold there with any file functions and after any error.
  \<^item> \<open>Ldb_Slice\<close>: \<^verbatim>\<open>slice.h\<close>, \<^verbatim>\<open>status.cc\<close>, \<^verbatim>\<open>comparator.cc\<close>; the contracts of a comparator (locales \<open>comparator\<close>,
    \<open>key_comparator\<close>) and their interpretation on the bytewise one. \<open>Ldb_Coding\<close>: \<^verbatim>\<open>coding.cc\<close>, with numbers to base 128
    as the specification of varints. \<open>Ldb_Crc\<close>: \<^verbatim>\<open>crc32c.cc\<close>, with the bitwise division as specification.
  \<^item> \<open>Ldb_Env\<close>: files written and read in sequence, as contracts (locales \<open>writable_file\<close>, its extension \<open>syncing_file\<close>, \<open>sequential_file\<close>)
    that the POSIX files of \<^verbatim>\<open>env_posix.cc\<close> satisfy. \<open>Ldb_Log\<close>: \<^verbatim>\<open>log_writer.cc\<close> and \<^verbatim>\<open>log_reader.cc\<close> over any such files.
    \<open>Ldb_Wal\<close>: the bytes of a log (\<open>log_bytes\<close>), which the writer produces and of which the reader recovers every
    complete record, wherever the file was cut off.
  \<^item> \<open>Ldb_Arena\<close>: \<^verbatim>\<open>arena.cc\<close>, pieces of memory that stay apart. \<open>Ldb_Skiplist\<close>: \<^verbatim>\<open>random.h\<close> and \<^verbatim>\<open>skiplist.h\<close>, nodes in
    an arena with links by index. \<open>Ldb_Levels\<close>: its invariant (\<open>skip_inv\<close>: every level a sorted chain through the nodes
    that are high enough) and the refinement of the sorted list, for any comparator.
  \<^item> \<open>Ldb_Format\<close>: \<^verbatim>\<open>dbformat.cc\<close>, internal keys; its comparator keeps the contract of the user's (a \<open>sublocale\<close>).
    \<open>Ldb_Memtable\<close>: \<^verbatim>\<open>memtable.cc\<close> over the skip list; lookups give the last operation that a snapshot sees.
    \<open>Ldb_Batch\<close>: \<^verbatim>\<open>write_batch.cc\<close> as a list of updates.
  \<^item> \<open>Ldb_Db\<close>: of \<^verbatim>\<open>db_impl.cc\<close> the operations \<open>DBImpl_Write\<close>, \<open>BuildBatchGroup\<close>, \<open>MakeRoomForWrite\<close> and \<open>RecoverLogFile\<close>, on
    the state \<open>DBImpl\<close>. Other threads act where the code gives up the lock: a list of arbitrary changes of the database, one for
    each delay, each wait for a compaction and each time a batch goes to the log and to the memory table (\<open>release_lock\<close>).
    \<open>Ldb_Durable\<close>: the composition of all the theories of leveldb: its clients \<open>WriteQueue\<close> and \<open>RecoverLogFile\<close> on what a
    crash leaves, the invariant \<open>db_inv\<close> of a database after the batches it has written, and \<open>rec_inv\<close> of a recovery.

  \<^bold>\<open>What the properties show.\<close> Codecs are inverse to each other in both directions (Base64, scalars, fields, packed
  arrays, dates, the cipher, whole archives). Encoders and the archive writer refine a specification of the bytes they
  produce. Decoders are safe and total on arbitrary input, and what they do on malformed input is stated: truncated varints
  and tags, unknown fields, reserved wire types, numbers behind the end of a file, end records that are hidden. State is
  well-formed in every reachable state (blocks, write buffer, central header, directory records, levels of a skip list).
  Searches end with the right answer. A log that was cut off loses no complete record and gives no wrong one; changed bytes
  and batches that were cut off are noticed. A database that comes back after a crash holds a prefix of its writes, with all
  that was in the log when it was acknowledged; after a failure of the disk it refuses writes. Where the code does something else than it should, the property states what it does and
  the text before it says so.

  \<^bold>\<open>Fuel.\<close> A loop or a recursion that is not structural in the code carries fuel or a termination proof. The decoder
  has enough with the size of the buffer plus twice the nesting depth of the tables plus one: each field takes a byte,
  each message two calls (\<open>pb_decode_terminates\<close>); the depth is finite because the tables are. Callbacks may never consume
  anything, which is why their loop has an argument of its own. The encoder needs the nesting depth. Writing a part of an
  entry takes at most one turn per byte and one more, because each turn copies a byte or flushes (\<open>Suc n\<close> for
  parts of at most \<open>n\<close> bytes); \<open>flush_loop\<close> needs one turn on one disk, and may run forever on a disk where writes return 0
  without an error, as the code does. The search of the end record takes 66 blocks of 1024 bytes at most. Filling
  the read buffer takes two turns when no disk is changed. Reading takes one turn per byte of the caller's buffer and one
  more. Unpacking takes one turn for each entry, looking up one more. The searches in a skip list take a turn for every node
  they pass and for every level they go down, so that the number of nodes and of levels is enough. Reading a record of a log
  takes at most as many turns as the file has bytes, since each physical record has a header; recovering a log takes a turn for each record
  and one more, working off a queue at most one for each writer.

  \<^bold>\<open>Parameters.\<close> \<^verbatim>\<open>zlib\<close> is a record of functions (\<open>zlib_fns\<close>, \<open>zip_zlib_fns\<close>). Of the checksum only the documented
  laws are used: continuing it over parts gives that of the whole, it fits 32 bits and starts at 0 (\<open>crc_laws\<close>; the
  CRC-32 of the format satisfies them, \<open>crc_laws_example\<close>). Of \<^verbatim>\<open>deflate\<close>, that it stays in its bounds (\<open>deflate_ok\<close>).
  File functions, \<^verbatim>\<open>rand\<close>, field and extension callbacks are arguments too. \<^verbatim>\<open>new\<close> gives addresses of blocks that are
  aligned and apart from those in use (\<open>new_fresh\<close>, which \<open>bump\<close> satisfies); the comparator of a database is any total
  preorder (\<open>comparator\<close>, which the bytewise one satisfies). Recovery gets the function that writes a memory table to a file
  of level 0 as an argument; the properties take one that keeps the tables in a list (\<open>keep_table\<close>). A database is bounded
  where the properties say so: \<open>mem_room\<close> and \<open>log_room\<close> are more than the updates can need of a memory table and of a log.

  \<^bold>\<open>Not modelled.\<close>
  \<^item> The parts of \<^verbatim>\<open>pb_decode.c\<close> under \<^verbatim>\<open>PB_ENABLE_MALLOC\<close> (allocation of pointer fields, \<^verbatim>\<open>pb_release\<close>), and the
    code of minizip under \<^verbatim>\<open>HAVE_AES\<close> and \<^verbatim>\<open>HAVE_BZIP2\<close>: the project does not compile them.
  \<^item> Memory that runs out, and the calls of \<^verbatim>\<open>free\<close>. \<^verbatim>\<open>stdio\<close> is modelled on regular files without failing disks; the
    properties of \<open>Zip_Session\<close> hold for tables that fail at will.
  \<^item> \<^verbatim>\<open>inflate\<close> and \<^verbatim>\<open>deflate\<close> themselves: round trips are about stored entries; the operations on compressed ones
    are modelled, and the invariants of the writer cover them.
  \<^item> Of leveldb the tables on disk, their cache, the versions and compactions, opening and reading a database, and the
    threads: the memory table and the log have one user at a time, as their comments ask for. SSE instructions for the checksum: not compiled.
  \<^item> The Swift application, the web client and the libraries in Objective-C and C++ (Firebase and others).

  \<^bold>\<open>Plan.\<close> Encrypted entries through the round trip of archives; a whole message of nanopb with submessages through encoder and
  decoder; deflated entries, under an inverse law for \<^verbatim>\<open>zlib\<close>; archives of several parts; appending to an archive; the
  tables of leveldb (blocks, filters, their index) and its versions; several logs in the recovery of a database.
\<close>

end
